(* ===== verification/Prelude.thy ===== *)
theory Prelude
  imports "HOL-Library.Word" "HOL-Library.Multiset"
begin

text \<open>
  Shared vocabulary of the development: machine integers, the faults an operation can end in
  and the result type built from them, reachable states of a transition system with the
  interface through which every safety proof goes, and generic lemmas on words and lists.
\<close>

unbundle bit_operations_syntax

section \<open>Types\<close>

type_synonym u8 = "8 word"
type_synonym u16 = "16 word"
type_synonym u32 = "32 word"
type_synonym u64 = "64 word"
type_synonym addr = u64

text \<open>
  What the C++ code can end in besides returning: a failed \<open>assert\<close>, \<open>CmiAssert\<close> or
  \<open>CkAssert\<close>, an index outside a table, the dereference of an address that names no live
  object, the read of a member that no constructor set, and an explicit \<open>CmiAbort\<close> or \<open>CkAbort\<close>.
\<close>

datatype fault = AssertFailed | OutOfBounds | BadPointer | Uninitialised | Aborted

type_synonym 'a res = "fault + 'a"

fun bind_res :: "'a res \<Rightarrow> ('a \<Rightarrow> 'b res) \<Rightarrow> 'b res" where
  "bind_res (Inl e) f = Inl e"
| "bind_res (Inr x) f = f x"

definition check :: "bool \<Rightarrow> unit res" where
  "check b = (if b then Inr () else Inl AssertFailed)"

lemma bind_res_Inr_iff: "bind_res m f = Inr y \<longleftrightarrow> (\<exists>x. m = Inr x \<and> f x = Inr y)"
  by (cases m) auto

lemma check_simps [simp]:
  "check True = Inr ()" "check False = Inl AssertFailed"
  "check b = Inr u \<longleftrightarrow> b"
  by (auto simp: check_def)

text \<open>\<open>vector::operator[]\<close>: reading outside the vector is undefined, here a fault.\<close>

definition at :: "'a list \<Rightarrow> nat \<Rightarrow> 'a res" where
  "at xs i = (if i < length xs then Inr (xs ! i) else Inl OutOfBounds)"

lemma at_Inr_iff [simp]: "at xs i = Inr x \<longleftrightarrow> i < length xs \<and> xs ! i = x"
  by (auto simp: at_def)

lemma at_append_last [simp]: "at (xs @ [x]) (length xs) = Inr x"
  by (simp add: at_def)

text \<open>A call that may not return: \<open>None\<close> when the fuel of its loops or nested calls is used up.\<close>

type_synonym 'a run = "'a res option"

fun bind_run :: "'a run \<Rightarrow> ('a \<Rightarrow> 'b run) \<Rightarrow> 'b run" where
  "bind_run None f = None"
| "bind_run (Some (Inl e)) f = Some (Inl e)"
| "bind_run (Some (Inr x)) f = f x"

lemma bind_run_Inr_iff: "bind_run m f = Some (Inr y) \<longleftrightarrow> (\<exists>x. m = Some (Inr x) \<and> f x = Some (Inr y))"
  by (cases "(m, f)" rule: bind_run.cases) auto

lemma bind_run_assoc: "bind_run (bind_run m f) g = bind_run m (\<lambda>x. bind_run (f x) g)"
  by (cases "(m, f)" rule: bind_run.cases) auto

lemma bind_run_cong: "m = m' \<Longrightarrow> (\<And>x. f x = g x) \<Longrightarrow> bind_run m f = bind_run m' g"
  by (cases "(m, f)" rule: bind_run.cases) auto

lemma bind_run_Inr [simp]: "bind_run m (\<lambda>x. Some (Inr x)) = m"
  by (cases m; cases "the m") auto

section \<open>Reachable states and safety\<close>

inductive reach :: "('s \<Rightarrow> bool) \<Rightarrow> ('s \<Rightarrow> 's \<Rightarrow> bool) \<Rightarrow> 's \<Rightarrow> bool"
  for init step where
  reach_init: "init s \<Longrightarrow> reach init step s"
| reach_step: "reach init step s \<Longrightarrow> step s t \<Longrightarrow> reach init step t"

text \<open>
  The interface of an invariant: it holds in every start state and every step keeps it. What
  a client gets is that it holds in every reachable state, and along every run from a state
  that satisfies it.
\<close>

locale safety =
  fixes init :: "'s \<Rightarrow> bool"
    and step :: "'s \<Rightarrow> 's \<Rightarrow> bool"
    and inv :: "'s \<Rightarrow> bool"
  assumes inv_init: "init s \<Longrightarrow> inv s"
    and inv_step: "inv s \<Longrightarrow> step s t \<Longrightarrow> inv t"
begin

lemma reach_inv: "reach init step s \<Longrightarrow> inv s"
  by (induction rule: reach.induct) (auto intro: inv_init inv_step)

lemma run_inv: "step\<^sup>*\<^sup>* s t \<Longrightarrow> inv s \<Longrightarrow> inv t"
  by (induction rule: rtranclp_induct) (auto intro: inv_step)

end

text \<open>Every step takes one from what is left: all runs from \<open>left w\<close> have at most \<open>w\<close> steps.\<close>

locale countdown =
  fixes step :: "'s \<Rightarrow> 's \<Rightarrow> bool"
    and left :: "nat \<Rightarrow> 's \<Rightarrow> bool"
  assumes down: "left w s \<Longrightarrow> step s t \<Longrightarrow> \<exists>w'. w = Suc w' \<and> left w' t"
begin

lemma counted_runs: "left w s \<Longrightarrow> (step ^^ k) s t \<Longrightarrow> k \<le> w \<and> left (w - k) t"
proof (induction k arbitrary: t)
  case (Suc k)
  from Suc.prems(2) obtain u where u: "(step ^^ k) s u" "step u t" by (rule relpowp_Suc_E)
  then have k: "k \<le> w" "left (w - k) u" using Suc by auto
  from down [OF this(2) u(2)] obtain w' where "w - k = Suc w'" "left w' t" by blast
  moreover from this have "w - Suc k = w'" by simp
  ultimately show ?case using k by simp
qed simp

end

text \<open>
  Progress: \<open>left w s\<close> says that \<open>w\<close> bounds the work left in \<open>s\<close>. Where every unfinished state has a step that
  lowers it, a run that is continued suitably ends.
\<close>

locale progress =
  fixes step :: "'s \<Rightarrow> 's \<Rightarrow> bool"
    and left :: "nat \<Rightarrow> 's \<Rightarrow> bool"
    and final :: "'s \<Rightarrow> bool"
  assumes can_step: "left w s \<Longrightarrow> \<not> final s \<Longrightarrow> \<exists>t w'. step s t \<and> w' < w \<and> left w' t"
begin

lemma can_finish: "left w s \<Longrightarrow> \<exists>n t. n \<le> w \<and> (step ^^ n) s t \<and> final t"
proof (induction w arbitrary: s rule: less_induct)
  case (less w)
  show ?case
  proof (cases "final s")
    case True
    then show ?thesis by (intro exI [of _ 0] exI [of _ s]) simp
  next
    case False
    then obtain t w' where t: "step s t" "w' < w" "left w' t" using can_step less.prems by blast
    obtain n u where n: "n \<le> w'" "(step ^^ n) t u" "final u" using less.IH [OF t(2,3)] by blast
    have "(step ^^ Suc n) s u" using relpowp_Suc_I2 [OF t(1) n(2)] .
    then show ?thesis using n t(2) by (intro exI [of _ "Suc n"] exI [of _ u]) simp
  qed
qed

end

text \<open>
  Labelled runs, and the interface of a forward simulation: a relation between concrete and
  abstract states that every labelled concrete step keeps, matched by an abstract step with
  the same label. Every concrete run then has an abstract run with the same labels.
\<close>

inductive trace :: "('s \<Rightarrow> 'l \<Rightarrow> 's \<Rightarrow> bool) \<Rightarrow> 's \<Rightarrow> 'l list \<Rightarrow> 's \<Rightarrow> bool"
  for step where
  trace_nil: "trace step s [] s"
| trace_snoc: "trace step s ls t \<Longrightarrow> step t l u \<Longrightarrow> trace step s (ls @ [l]) u"

lemma trace_append:
  assumes "trace step t ks u" and "trace step s ls t"
  shows "trace step s (ls @ ks) u"
  using assms by (induction rule: trace.induct) (auto simp flip: append_assoc intro: trace.intros)

lemma trace_one: "step s l t \<Longrightarrow> trace step s [l] t"
  using trace_snoc [OF trace_nil, of step s l t] by simp

lemma trace_cons: "step s l t \<Longrightarrow> trace step t ls u \<Longrightarrow> trace step s (l # ls) u"
  using trace_append [of step t ls u s "[l]"] trace_one by fastforce

locale simulation =
  fixes cstep :: "'c \<Rightarrow> 'l \<Rightarrow> 'c \<Rightarrow> bool"
    and astep :: "'a \<Rightarrow> 'l \<Rightarrow> 'a \<Rightarrow> bool"
    and rel :: "'c \<Rightarrow> 'a \<Rightarrow> bool"
  assumes sim: "rel c a \<Longrightarrow> cstep c l c' \<Longrightarrow> \<exists>a'. astep a l a' \<and> rel c' a'"
begin

lemma trace_sim:
  "trace cstep c ls c' \<Longrightarrow> rel c a \<Longrightarrow> \<exists>a'. trace astep a ls a' \<and> rel c' a'"
proof (induction rule: trace.induct)
  case (trace_nil c)
  then show ?case by (auto intro: trace.trace_nil)
next
  case (trace_snoc c ls c1 l c2)
  then obtain a1 where "trace astep a ls a1" "rel c1 a1" by blast
  moreover from sim [OF this(2) trace_snoc.hyps(2)]
  obtain a2 where "astep a1 l a2" "rel c2 a2" by blast
  ultimately show ?case by (blast intro: trace.trace_snoc)
qed

end

section \<open>Words\<close>

lemma word_align_down:
  fixes x :: u64
  assumes "n < 64"
  shows "unat (x AND NOT (2 ^ n - 1)) = unat x div 2 ^ n * 2 ^ n"
proof -
  have "x AND NOT (mask n) = push_bit n (drop_bit n x)"
    by (rule bit_word_eqI) (auto simp: bit_simps)
  moreover have "unat (push_bit n (drop_bit n x)) = unat x div 2 ^ n * 2 ^ n"
  proof -
    have "unat x div 2 ^ n * 2 ^ n \<le> unat x" by simp
    also have "\<dots> < 2 ^ 64" using unsigned_less [of x] by simp
    finally have lt: "unat x div 2 ^ n * 2 ^ n < 2 ^ 64" .
    have "unat (push_bit n (drop_bit n x)) = take_bit 64 (push_bit n (drop_bit n (unat x)))"
      by (simp add: unsigned_push_bit_eq unat_drop_bit_eq)
    also have "\<dots> = take_bit 64 (unat x div 2 ^ n * 2 ^ n)"
      by (simp add: push_bit_eq_mult drop_bit_eq_div)
    also have "\<dots> = unat x div 2 ^ n * 2 ^ n"
      using lt by (rule take_bit_nat_eq_self)
    finally show ?thesis .
  qed
  ultimately show ?thesis by (simp add: mask_eq_exp_minus_1)
qed

lemma unat_add_le:
  fixes x y :: u64
  assumes "unat x + unat y < 2 ^ 64"
  shows "unat (x + y) = unat x + unat y"
  using assms by (simp add: unat_word_ariths)

lemma unat_sub_le:
  fixes x y :: u64
  assumes "unat y \<le> unat x"
  shows "unat (x - y) = unat x - unat y"
  using assms by (simp add: unat_sub word_le_nat_alt)

lemma round_up_ge:
  fixes m a :: nat
  assumes "0 < a"
  shows "m \<le> (m + (a - 1)) div a * a"
proof -
  have "(m + (a - 1)) mod a \<le> a - 1" by (metis assms less_Suc_eq_le Suc_diff_1 mod_less_divisor)
  moreover have "m + (a - 1) = (m + (a - 1)) div a * a + (m + (a - 1)) mod a" by simp
  ultimately show ?thesis by linarith
qed

section \<open>Lists\<close>

lemma sum_list_map_update:
  fixes f :: "'a \<Rightarrow> nat"
  assumes "i < length xs"
  shows "sum_list (map f (xs[i := x])) + f (xs ! i) = sum_list (map f xs) + f x"
  using assms
proof (induction xs arbitrary: i)
  case (Cons y ys)
  then show ?case by (cases i) (auto simp: algebra_simps)
qed simp

lemma sum_list_map_member_le:
  fixes f :: "'a \<Rightarrow> nat"
  assumes "i < length xs"
  shows "f (xs ! i) \<le> sum_list (map f xs)"
  using assms
proof (induction xs arbitrary: i)
  case (Cons y ys)
  then show ?case by (cases i) (auto intro: trans_le_add2)
qed simp

end
