(* ===== verification/Lfq.thy ===== *)
theory Lfq
  imports Prelude
begin

text \<open>
  \<open>archive/lfq/ipc_lfq.hh\<close>: the bounded queue of many producers and one consumer in shared
  memory. A counter admits at most as many producers as there are nodes, a second one hands
  out tickets, and each node has its own spin lock. The operations are cut at every access to
  shared memory, so that a run is an interleaving of these accesses; the calls without
  interference are the special case at the end. Memory is sequentially consistent.
\<close>

section \<open>The queue\<close>

text \<open>A node's storage holds no value before the first \<open>memcpy\<close> into it.\<close>

record 'v node =
  nd_lock :: bool
  has_value :: bool
  nd_value :: "'v option"

record 'v lfq =
  lf_head :: u64
  lf_count :: u64
  lf_tail :: u64
  lf_data :: "'v node list"

definition new_node :: "'v node" where
  "new_node = \<lparr>nd_lock = False, has_value = False, nd_value = None\<rparr>"

definition new_lfq :: "nat \<Rightarrow> 'v lfq" where
  "new_lfq N = \<lparr>lf_head = 0, lf_count = 0, lf_tail = 0, lf_data = replicate N new_node\<rparr>"

definition capacity :: "'v lfq \<Rightarrow> nat" where
  "capacity q = length (lf_data q)"

text \<open>\<open>node::acquire\<close> and \<open>node::release\<close>: the result and the node afterwards.\<close>

definition acquire :: "'v node \<Rightarrow> bool \<times> 'v node" where
  "acquire nd = (\<not> nd_lock nd, nd\<lparr>nd_lock := True\<rparr>)"

definition release :: "'v node \<Rightarrow> bool \<times> 'v node" where
  "release nd = (nd_lock nd, nd\<lparr>nd_lock := False\<rparr>)"

definition set_node :: "nat \<Rightarrow> 'v node \<Rightarrow> 'v lfq \<Rightarrow> 'v lfq" where
  "set_node k nd q = q\<lparr>lf_data := (lf_data q)[k := nd]\<rparr>"

section \<open>Producers and the consumer\<close>

text \<open>
  Where a producer is inside \<open>enqueue\<close>: refused and about to take its count back; admitted
  with its value; holding a slot (with the slot's index and, as a history variable, the
  number of tickets handed returned before its own); inside the slot's lock, before and after the
  exchange of the \<open>has_value\<close> flag (whose old content it keeps) and after the copy.
\<close>

datatype 'v ppc =
    PIdle
  | PFull
  | PAdmitted 'v
  | PSlot 'v nat nat
  | PLocked 'v nat nat
  | PSwapped 'v nat nat bool
  | PCopied 'v nat nat bool
  | PFailed

datatype 'v cpc =
    CIdle
  | CLocked
  | CFull
  | CCopied "'v option"
  | CUnlock bool "'v option"
  | CAdvance "'v option"
  | CDecr "'v option"
  | CFailed

text \<open>
  \<open>issued\<close> (the admitted values in ticket order) and \<open>returned\<close> (what \<open>dequeue\<close> returned) are
  history variables: no step reads them.
\<close>

record 'v lsys =
  lq :: "'v lfq"
  pp :: "'v ppc list"
  cc :: "'v cpc"
  issued :: "'v list"
  returned :: "'v option list"

definition pgoto :: "nat \<Rightarrow> 'v ppc \<Rightarrow> 'v lsys \<Rightarrow> 'v lsys" where
  "pgoto i p s = s\<lparr>pp := (pp s)[i := p]\<rparr>"

definition enq_start :: "nat \<Rightarrow> 'v \<Rightarrow> 'v lsys \<Rightarrow> 'v lsys" where
  "enq_start i v s =
     (let q = lq s; size = lf_count q; q1 = q\<lparr>lf_count := lf_count q + 1\<rparr>
      in pgoto i (if unat size \<ge> capacity q then PFull else PAdmitted v) (s\<lparr>lq := q1\<rparr>))"

definition enq_step :: "nat \<Rightarrow> 'v lsys \<Rightarrow> 'v lsys" where
  "enq_step i s =
     (let q = lq s in
      case pp s ! i of
        PFull \<Rightarrow> pgoto i PIdle (s\<lparr>lq := q\<lparr>lf_count := lf_count q - 1\<rparr>\<rparr>)
      | PAdmitted v \<Rightarrow>
          (let h = lf_head q; q1 = q\<lparr>lf_head := lf_head q + 1\<rparr>
           in pgoto i (PSlot v (unat h mod capacity q) (length (issued s)))
                (s\<lparr>lq := q1, issued := issued s @ [v]\<rparr>))
      | PSlot v k t \<Rightarrow>
          (let (ok, nd) = acquire (lf_data q ! k); s1 = s\<lparr>lq := set_node k nd q\<rparr>
           in if ok then pgoto i (PLocked v k t) s1 else s1)
      | PLocked v k t \<Rightarrow>
          (let nd = lf_data q ! k
           in pgoto i (PSwapped v k t (has_value nd))
                (s\<lparr>lq := set_node k (nd\<lparr>has_value := True\<rparr>) q\<rparr>))
      | PSwapped v k t set_value \<Rightarrow>
          (let nd = lf_data q ! k
           in pgoto i (PCopied v k t set_value)
                (s\<lparr>lq := set_node k (nd\<lparr>nd_value := Some v\<rparr>) q\<rparr>))
      | PCopied v k t set_value \<Rightarrow>
          (if set_value then pgoto i PFailed s
           else let (was, nd) = release (lf_data q ! k); s1 = s\<lparr>lq := set_node k nd q\<rparr>
             in pgoto i (if was then PIdle else PFailed) s1)
      | _ \<Rightarrow> s)"

definition deq_step :: "'v lsys \<Rightarrow> 'v lsys" where
  "deq_step s =
     (let q = lq s; k = unat (lf_tail q); nd = lf_data q ! k in
      case cc s of
        CIdle \<Rightarrow>
          (let (ok, nd1) = acquire nd; s1 = s\<lparr>lq := set_node k nd1 q\<rparr>
           in if ok then s1\<lparr>cc := CLocked\<rparr> else s1)
      | CLocked \<Rightarrow> s\<lparr>cc := (if has_value nd then CFull else CUnlock False None)\<rparr>
      | CFull \<Rightarrow> s\<lparr>cc := CCopied (nd_value nd)\<rparr>
      | CCopied r \<Rightarrow>
          s\<lparr>lq := set_node k (nd\<lparr>has_value := False\<rparr>) q, cc := CUnlock True r\<rparr>
      | CUnlock ret r \<Rightarrow>
          (let (was, nd1) = release nd; s1 = s\<lparr>lq := set_node k nd1 q\<rparr>
           in s1\<lparr>cc := (if \<not> was then CFailed else if ret then CAdvance r else CIdle)\<rparr>)
      | CAdvance r \<Rightarrow>
          (let t = lf_tail q + 1
           in s\<lparr>lq := q\<lparr>lf_tail := (if unat t \<ge> capacity q then 0 else t)\<rparr>, cc := CDecr r\<rparr>)
      | CDecr r \<Rightarrow>
          (let last = lf_count q; s1 = s\<lparr>lq := q\<lparr>lf_count := lf_count q - 1\<rparr>\<rparr>
           in if last > 0 then s1\<lparr>cc := CIdle, returned := returned s @ [r]\<rparr>
              else s1\<lparr>cc := CFailed\<rparr>)
      | CFailed \<Rightarrow> s)"

inductive lstep :: "'v lsys \<Rightarrow> 'v lsys \<Rightarrow> bool" where
  l_call: "i < length (pp s) \<Longrightarrow> pp s ! i = PIdle \<Longrightarrow> lstep s (enq_start i v s)"
| l_prod: "i < length (pp s) \<Longrightarrow> pp s ! i \<noteq> PIdle \<Longrightarrow> lstep s (enq_step i s)"
| l_cons: "lstep s (deq_step s)"

definition l_start :: "nat \<Rightarrow> nat \<Rightarrow> 'v lsys" where
  "l_start N np = \<lparr>lq = new_lfq N, pp = replicate np PIdle, cc = CIdle, issued = [], returned = []\<rparr>"

text \<open>
  The calls without interference. An admitted \<open>enqueue\<close> makes six accesses, a refused one two
  (further steps of an idle producer do nothing); \<open>dequeue\<close> makes seven, or three when it
  returns \<open>false\<close>.
\<close>

definition enq_call :: "nat \<Rightarrow> 'v \<Rightarrow> 'v lsys \<Rightarrow> 'v lsys" where
  "enq_call i v s = (enq_step i ^^ 5) (enq_start i v s)"

fun deq_finish :: "nat \<Rightarrow> 'v lsys \<Rightarrow> 'v lsys" where
  "deq_finish 0 s = s"
| "deq_finish (Suc n) s = (case cc s of CIdle \<Rightarrow> s | _ \<Rightarrow> deq_finish n (deq_step s))"

definition deq_call :: "'v lsys \<Rightarrow> 'v lsys" where
  "deq_call s = deq_finish 6 (deq_step s)"

end
