(* ===== verification/Lfq_Open.thy ===== *)
theory Lfq_Open
  imports Lfq
begin

text \<open>
  \<open>ipc_lfq::open\<close> and \<open>ipc_lfq::close\<close> of \<open>archive/lfq/ipc_lfq.hh\<close>, and how the two testers use them.
  Any number of processes open queues by name; a step is one system call or the placement of the
  queue into the shared memory. The operating system is an argument: the answers of the system calls
  on a state that is not looked into, and what POSIX documents of them.
\<close>

section \<open>The system calls\<close>

text \<open>
  What the documentation of the calls speaks of: the objects that names stand for, the size of every
  object that was ever created, and the descriptors and mappings of every process.
\<close>

record shm_view =
  v_name :: "string \<Rightarrow> nat option"
  v_size :: "nat \<Rightarrow> nat option"
  v_desc :: "nat \<Rightarrow> int \<Rightarrow> nat option"
  v_map :: "nat \<Rightarrow> int \<Rightarrow> nat option"

text \<open>
  The calls of process \<open>p\<close>: \<open>shm_open\<close> with \<open>O_CREAT | O_EXCL | O_RDWR\<close> and with \<open>O_RDWR\<close>, \<open>ftruncate\<close>,
  \<open>mmap\<close> (\<open>-1\<close> is \<open>MAP_FAILED\<close>), \<open>munmap\<close>, \<open>close\<close> and \<open>shm_unlink\<close>.
\<close>

record 'k posix =
  sys_create :: "nat \<Rightarrow> string \<Rightarrow> 'k \<Rightarrow> int \<times> 'k"
  sys_attach :: "nat \<Rightarrow> string \<Rightarrow> 'k \<Rightarrow> int \<times> 'k"
  sys_truncate :: "nat \<Rightarrow> int \<Rightarrow> nat \<Rightarrow> 'k \<Rightarrow> int \<times> 'k"
  sys_mmap :: "nat \<Rightarrow> nat \<Rightarrow> int \<Rightarrow> 'k \<Rightarrow> int \<times> 'k"
  sys_munmap :: "nat \<Rightarrow> int \<Rightarrow> nat \<Rightarrow> 'k \<Rightarrow> int \<times> 'k"
  sys_close :: "nat \<Rightarrow> int \<Rightarrow> 'k \<Rightarrow> int \<times> 'k"
  sys_unlink :: "nat \<Rightarrow> string \<Rightarrow> 'k \<Rightarrow> int \<times> 'k"
  sys_view :: "'k \<Rightarrow> shm_view"

definition upd :: "('a \<Rightarrow> 'b \<Rightarrow> 'c) \<Rightarrow> 'a \<Rightarrow> 'b \<Rightarrow> 'c \<Rightarrow> 'a \<Rightarrow> 'b \<Rightarrow> 'c" where
  "upd f p x y = f(p := (f p)(x := y))"

lemma upd_apply [simp]: "upd f p x y q z = (if q = p \<and> z = x then y else f q z)"
  by (simp add: upd_def)

lemma upd_other: "q \<noteq> p \<Longrightarrow> upd f p x y q = f q"
  by (simp add: upd_def)

text \<open>A new descriptor is the lowest number that is not in use in the process.\<close>

definition lowest :: "int set \<Rightarrow> int \<Rightarrow> bool" where
  "lowest D fd \<longleftrightarrow> 0 \<le> fd \<and> fd \<notin> D \<and> (\<forall>j. 0 \<le> j \<and> j < fd \<longrightarrow> j \<in> D)"

text \<open>
  The documented behaviour, as long as no limit of the system is reached: an exclusive creation
  succeeds exactly when the name is free, with a new object of size 0; the other \<open>shm_open\<close> finds the object
  of the name; the calls on a valid descriptor, mapping or name do what they are asked to, and
  \<open>close\<close> and \<open>shm_unlink\<close> of an invalid one fail without an effect.
\<close>

definition creates :: "'k posix \<Rightarrow> bool" where
  "creates K \<longleftrightarrow> (\<forall>p n k fd k'. sys_create K p n k = (fd, k') \<longrightarrow>
     (let v = sys_view K k in
      if v_name v n = None
      then lowest (dom (v_desc v p)) fd \<and>
        (\<exists>ob. v_size v ob = None \<and> sys_view K k' =
           v\<lparr>v_name := (v_name v)(n \<mapsto> ob), v_size := (v_size v)(ob \<mapsto> 0), v_desc := upd (v_desc v) p fd (Some ob)\<rparr>)
      else fd = -1 \<and> sys_view K k' = v))"

definition attaches_names :: "'k posix \<Rightarrow> bool" where
  "attaches_names K \<longleftrightarrow> (\<forall>p n k fd k'. sys_attach K p n k = (fd, k') \<longrightarrow>
     (let v = sys_view K k in
      case v_name v n of
        None \<Rightarrow> fd = -1 \<and> sys_view K k' = v
      | Some ob \<Rightarrow> lowest (dom (v_desc v p)) fd \<and> sys_view K k' = v\<lparr>v_desc := upd (v_desc v) p fd (Some ob)\<rparr>))"

definition maps_objects :: "'k posix \<Rightarrow> bool" where
  "maps_objects K \<longleftrightarrow>
     (\<forall>p fd sz k r k' ob. sys_truncate K p fd sz k = (r, k') \<longrightarrow> v_desc (sys_view K k) p fd = Some ob \<longrightarrow>
        v_size (sys_view K k) ob \<noteq> None \<longrightarrow>
        0 \<le> r \<and> sys_view K k' = (sys_view K k)\<lparr>v_size := (v_size (sys_view K k))(ob \<mapsto> sz)\<rparr>) \<and>
     (\<forall>p sz fd k a k' ob. sys_mmap K p sz fd k = (a, k') \<longrightarrow> v_desc (sys_view K k) p fd = Some ob \<longrightarrow>
        a \<noteq> -1 \<and> v_map (sys_view K k) p a = None \<and>
        sys_view K k' = (sys_view K k)\<lparr>v_map := upd (v_map (sys_view K k)) p a (Some ob)\<rparr>)"

definition releases :: "'k posix \<Rightarrow> bool" where
  "releases K \<longleftrightarrow>
     (\<forall>p a sz k r k' ob. sys_munmap K p a sz k = (r, k') \<longrightarrow> v_map (sys_view K k) p a = Some ob \<longrightarrow>
        0 \<le> r \<and> sys_view K k' = (sys_view K k)\<lparr>v_map := upd (v_map (sys_view K k)) p a None\<rparr>) \<and>
     (\<forall>p fd k r k'. sys_close K p fd k = (r, k') \<longrightarrow>
        (r = (if v_desc (sys_view K k) p fd = None then -1 else 0) \<and>
         sys_view K k' = (sys_view K k)\<lparr>v_desc := upd (v_desc (sys_view K k)) p fd None\<rparr>)) \<and>
     (\<forall>p n k r k'. sys_unlink K p n k = (r, k') \<longrightarrow>
        sys_view K k' = (sys_view K k)\<lparr>v_name := (v_name (sys_view K k))(n := None)\<rparr>)"

definition posix_shm :: "'k posix \<Rightarrow> bool" where
  "posix_shm K \<longleftrightarrow> creates K \<and> attaches_names K \<and> maps_objects K \<and> releases K"

section \<open>Opening\<close>

text \<open>
  What lies in a shared object: the queue's constant \<open>fd\<close> and its other members. New memory reads as
  zeros, the values that the constructors store; a node's value is not written by them.
\<close>

record 'v shared =
  sh_fd :: int
  sh_q :: "'v lfq"

definition zeroed :: "nat \<Rightarrow> 'v shared" where
  "zeroed N = \<lparr>sh_fd = 0, sh_q = new_lfq N\<rparr>"

definition construct :: "int \<Rightarrow> 'v shared \<Rightarrow> 'v shared" where
  "construct fd sh =
     (let q = sh_q sh
      in \<lparr>sh_fd = fd,
          sh_q = \<lparr>lf_head = 0, lf_count = 0, lf_tail = 0,
                  lf_data = map (\<lambda>nd. nd\<lparr>nd_lock := False, has_value := False\<rparr>) (lf_data q)\<rparr>\<rparr>)"

text \<open>
  Where a process is inside \<open>open\<close>: before the exclusive \<open>shm_open\<close>, before \<open>ftruncate\<close>, before the second
  \<open>shm_open\<close>, before \<open>mmap\<close> (with \<open>init\<close>), before the construction at an address; or it failed.
\<close>

datatype opc =
    OExcl
  | OSize int
  | OPlain
  | OMap int bool
  | OCons int int
  | OFail fault

text \<open>
  A process opens the names of \<open>op_todo\<close> in turn; \<open>op_got\<close> holds the pointers that \<open>open\<close> returned. History
  variables, read by no step: the descriptors it opened in \<open>op_fds\<close>, and in \<open>built\<close> the objects in which a queue was constructed.
\<close>

record oproc =
  op_todo :: "string list"
  op_pc :: opc
  op_got :: "(string \<times> int) list"
  op_fds :: "int list"

record ('k, 'v) osys =
  os :: 'k
  shm :: "nat \<Rightarrow> 'v shared"
  procs :: "nat \<Rightarrow> oproc"
  built :: "nat list"

definition ogoto :: "nat \<Rightarrow> oproc \<Rightarrow> ('k, 'v) osys \<Rightarrow> ('k, 'v) osys" where
  "ogoto p pr s = s\<lparr>procs := (procs s)(p := pr)\<rparr>"

definition opened :: "string \<Rightarrow> int \<Rightarrow> oproc \<Rightarrow> oproc" where
  "opened n a pr = pr\<lparr>op_todo := tl (op_todo pr), op_pc := OExcl, op_got := op_got pr @ [(n, a)]\<rparr>"

definition got_fd :: "int \<Rightarrow> opc \<Rightarrow> oproc \<Rightarrow> oproc" where
  "got_fd fd pc pr = pr\<lparr>op_pc := pc, op_fds := op_fds pr @ [fd]\<rparr>"

text \<open>\<open>sz\<close> is the size of the queue. A construction beyond the end of the object is a bus error.\<close>

definition open_step :: "'k posix \<Rightarrow> nat \<Rightarrow> nat \<Rightarrow> ('k, 'v) osys \<Rightarrow> ('k, 'v) osys" where
  "open_step K sz p s =
     (let pr = procs s p in
      case op_todo pr of
        [] \<Rightarrow> s
      | n # _ \<Rightarrow>
          (case op_pc pr of
             OExcl \<Rightarrow>
               (let (fd, k) = sys_create K p n (os s); init = (fd \<ge> 0)
                in ogoto p (if init then got_fd fd (OSize fd) pr else pr\<lparr>op_pc := OPlain\<rparr>) (s\<lparr>os := k\<rparr>))
           | OSize fd \<Rightarrow>
               (let (status, k) = sys_truncate K p fd sz (os s)
                in ogoto p (pr\<lparr>op_pc := if status \<ge> 0 then OMap fd True else OFail AssertFailed\<rparr>) (s\<lparr>os := k\<rparr>))
           | OPlain \<Rightarrow>
               (let (fd, k) = sys_attach K p n (os s)
                in ogoto p (if fd \<ge> 0 then got_fd fd (OMap fd False) pr else pr\<lparr>op_pc := OFail AssertFailed\<rparr>)
                     (s\<lparr>os := k\<rparr>))
           | OMap fd init \<Rightarrow>
               (let (res, k) = sys_mmap K p sz fd (os s)
                in ogoto p (if res = -1 then pr\<lparr>op_pc := OFail AssertFailed\<rparr>
                            else if init then pr\<lparr>op_pc := OCons fd res\<rparr>
                            else opened n res pr) (s\<lparr>os := k\<rparr>))
           | OCons fd res \<Rightarrow>
               (case v_map (sys_view K (os s)) p res of
                  None \<Rightarrow> ogoto p (pr\<lparr>op_pc := OFail BadPointer\<rparr>) s
                | Some ob \<Rightarrow>
                    if sz \<le> the (v_size (sys_view K (os s)) ob)
                    then ogoto p (opened n res pr)
                           (s\<lparr>shm := (shm s)(ob := construct fd (shm s ob)), built := built s @ [ob]\<rparr>)
                    else ogoto p (pr\<lparr>op_pc := OFail BadPointer\<rparr>) s)
           | OFail e \<Rightarrow> s))"

inductive ostep :: "'k posix \<Rightarrow> nat \<Rightarrow> ('k, 'v) osys \<Rightarrow> ('k, 'v) osys \<Rightarrow> bool" for K sz where
  o_step: "ostep K sz s (open_step K sz p s)"

definition o_start :: "nat \<Rightarrow> (nat \<Rightarrow> string list) \<Rightarrow> 'k \<Rightarrow> ('k, 'v) osys" where
  "o_start N names k =
     \<lparr>os = k, shm = (\<lambda>_. zeroed N),
      procs = (\<lambda>p. \<lparr>op_todo = names p, op_pc = OExcl, op_got = [], op_fds = []\<rparr>), built = []\<rparr>"

definition o_reach :: "'k posix \<Rightarrow> nat \<Rightarrow> nat \<Rightarrow> (nat \<Rightarrow> string list) \<Rightarrow> 'k \<Rightarrow> ('k, 'v) osys \<Rightarrow> bool" where
  "o_reach K sz N names k = reach (\<lambda>s. s = o_start N names k) (ostep K sz)"

text \<open>No name is left over from an earlier run, and every name in use stands for an object.\<close>

definition clean :: "'k posix \<Rightarrow> (nat \<Rightarrow> string list) \<Rightarrow> 'k \<Rightarrow> bool" where
  "clean K names k \<longleftrightarrow>
     (\<forall>p. distinct (names p) \<and> (\<forall>n \<in> set (names p). v_name (sys_view K k) n = None)) \<and>
     (\<forall>n ob. v_name (sys_view K k) n = Some ob \<longrightarrow> v_size (sys_view K k) ob \<noteq> None)"

section \<open>Closing\<close>

text \<open>
  Where a process is inside \<open>close\<close>: before it reads \<open>self->fd\<close>, before \<open>munmap\<close>, before the second operand of
  \<open>status &&\<close>, before \<open>shm_unlink\<close>. \<open>cl_ret\<close> are the results of the calls.
\<close>

datatype kpc =
    KRead
  | KUnmap int
  | KClose int bool
  | KUnlink bool
  | KFail fault

record cproc =
  cl_todo :: "(string \<times> int) list"
  cl_pc :: kpc
  cl_ret :: "bool list"

record ('k, 'v) csys =
  cos :: 'k
  cshm :: "nat \<Rightarrow> 'v shared"
  cprocs :: "nat \<Rightarrow> cproc"

definition cgoto :: "nat \<Rightarrow> cproc \<Rightarrow> ('k, 'v) csys \<Rightarrow> ('k, 'v) csys" where
  "cgoto p pr s = s\<lparr>cprocs := (cprocs s)(p := pr)\<rparr>"

definition close_step :: "'k posix \<Rightarrow> nat \<Rightarrow> nat \<Rightarrow> ('k, 'v) csys \<Rightarrow> ('k, 'v) csys" where
  "close_step K sz p s =
     (let pr = cprocs s p in
      case cl_todo pr of
        [] \<Rightarrow> s
      | (n, self) # rest \<Rightarrow>
          (case cl_pc pr of
             KRead \<Rightarrow>
               cgoto p (pr\<lparr>cl_pc := (case v_map (sys_view K (cos s)) p self of
                    None \<Rightarrow> KFail BadPointer
                  | Some ob \<Rightarrow> if the (v_size (sys_view K (cos s)) ob) < sz then KFail BadPointer
                              else KUnmap (sh_fd (cshm s ob)))\<rparr>) s
           | KUnmap fd \<Rightarrow>
               (let (r, k) = sys_munmap K p self sz (cos s); status = (r \<ge> 0)
                in cgoto p (pr\<lparr>cl_pc := KClose fd status\<rparr>) (s\<lparr>cos := k\<rparr>))
           | KClose fd status \<Rightarrow>
               (if status
                then let (r, k) = sys_close K p fd (cos s)
                     in cgoto p (pr\<lparr>cl_pc := KUnlink (r \<ge> 0)\<rparr>) (s\<lparr>cos := k\<rparr>)
                else cgoto p (pr\<lparr>cl_pc := KUnlink False\<rparr>) s)
           | KUnlink status \<Rightarrow>
               (let (r, k) = sys_unlink K p n (cos s)
                in cgoto p (pr\<lparr>cl_todo := rest, cl_pc := KRead, cl_ret := cl_ret pr @ [status]\<rparr>) (s\<lparr>cos := k\<rparr>))
           | KFail e \<Rightarrow> s))"

inductive kstep :: "'k posix \<Rightarrow> nat \<Rightarrow> ('k, 'v) csys \<Rightarrow> ('k, 'v) csys \<Rightarrow> bool" for K sz where
  k_step: "kstep K sz s (close_step K sz p s)"

text \<open>
  Every process closes what it opened, in the same order; \<open>only C\<close> leaves the processes outside \<open>C\<close> with nothing to close.
\<close>

definition only :: "nat set \<Rightarrow> ('k, 'v) osys \<Rightarrow> ('k, 'v) osys" where
  "only C s = s\<lparr>procs := (\<lambda>p. if p \<in> C then procs s p else (procs s p)\<lparr>op_got := [], op_fds := []\<rparr>)\<rparr>"

lemma only_UNIV: "only UNIV s = s"
  by (simp add: only_def)

definition closing :: "('k, 'v) osys \<Rightarrow> ('k, 'v) csys" where
  "closing s = \<lparr>cos = os s, cshm = shm s,
     cprocs = (\<lambda>p. \<lparr>cl_todo = op_got (procs s p), cl_pc = KRead, cl_ret = []\<rparr>)\<rparr>"

definition c_reach :: "'k posix \<Rightarrow> nat \<Rightarrow> ('k, 'v) osys \<Rightarrow> ('k, 'v) csys \<Rightarrow> bool" where
  "c_reach K sz s = reach (\<lambda>t. t = closing s) (kstep K sz)"

end
