(* ===== verification/Lfq_Open_Inv.thy ===== *)
theory Lfq_Open_Inv
  imports Lfq_Open "HOL-Library.Sublist"
begin

text \<open>
  The invariant of processes that open queues: what the tables of a process hold (\<open>proc_inv\<close>), who
  constructs a queue and what lies in the shared objects (\<open>objs_inv\<close>).
\<close>

section \<open>What a system call does\<close>

lemmas posix_defs = posix_shm_def creates_def attaches_names_def maps_objects_def releases_def

lemma create_free:
  assumes "posix_shm K" "sys_create K p n k = (fd, k')" "v_name (sys_view K k) n = None"
  obtains ob where "lowest (dom (v_desc (sys_view K k) p)) fd" "v_size (sys_view K k) ob = None"
    "sys_view K k' = (sys_view K k)\<lparr>v_name := (v_name (sys_view K k))(n \<mapsto> ob),
       v_size := (v_size (sys_view K k))(ob \<mapsto> 0), v_desc := upd (v_desc (sys_view K k)) p fd (Some ob)\<rparr>"
  using assms by (fastforce simp: posix_shm_def creates_def Let_def)

lemma create_taken:
  assumes "posix_shm K" "sys_create K p n k = (fd, k')" "v_name (sys_view K k) n = Some ob"
  shows "fd = -1 \<and> sys_view K k' = sys_view K k"
  using assms by (fastforce simp: posix_shm_def creates_def Let_def)

lemma attach_name:
  assumes "posix_shm K" "sys_attach K p n k = (fd, k')" "v_name (sys_view K k) n = Some ob"
  shows "lowest (dom (v_desc (sys_view K k) p)) fd \<and>
    sys_view K k' = (sys_view K k)\<lparr>v_desc := upd (v_desc (sys_view K k)) p fd (Some ob)\<rparr>"
  using assms by (fastforce simp: posix_shm_def attaches_names_def Let_def)

lemma truncate_fd:
  assumes "posix_shm K" "sys_truncate K p fd sz k = (r, k')" "v_desc (sys_view K k) p fd = Some ob"
    "v_size (sys_view K k) ob \<noteq> None"
  shows "0 \<le> r \<and> sys_view K k' = (sys_view K k)\<lparr>v_size := (v_size (sys_view K k))(ob \<mapsto> sz)\<rparr>"
  using assms by (fastforce simp: posix_shm_def maps_objects_def)

lemma mmap_fd:
  assumes "posix_shm K" "sys_mmap K p sz fd k = (a, k')" "v_desc (sys_view K k) p fd = Some ob"
  shows "a \<noteq> -1 \<and> v_map (sys_view K k) p a = None \<and>
    sys_view K k' = (sys_view K k)\<lparr>v_map := upd (v_map (sys_view K k)) p a (Some ob)\<rparr>"
  using assms by (fastforce simp: posix_shm_def maps_objects_def)

text \<open>One lemma per way on inside \<open>open\<close>: what the step does, and the view afterwards.\<close>

lemma step_create:
  assumes K: "posix_shm K" and t: "op_todo (procs s p) = n # r" "op_pc (procs s p) = OExcl"
    and n: "v_name (sys_view K (os s)) n = None"
  obtains fd ob k' where "open_step K sz p s = ogoto p (got_fd fd (OSize fd) (procs s p)) (s\<lparr>os := k'\<rparr>)"
    and "lowest (dom (v_desc (sys_view K (os s)) p)) fd" and "v_size (sys_view K (os s)) ob = None"
    and "sys_view K k' = (sys_view K (os s))\<lparr>v_name := (v_name (sys_view K (os s)))(n \<mapsto> ob),
       v_size := (v_size (sys_view K (os s)))(ob \<mapsto> 0), v_desc := upd (v_desc (sys_view K (os s))) p fd (Some ob)\<rparr>"
proof -
  obtain fd k' where e: "sys_create K p n (os s) = (fd, k')" by fastforce
  from create_free [OF K e n] obtain ob where c: "lowest (dom (v_desc (sys_view K (os s)) p)) fd"
    "v_size (sys_view K (os s)) ob = None"
    "sys_view K k' = (sys_view K (os s))\<lparr>v_name := (v_name (sys_view K (os s)))(n \<mapsto> ob),
       v_size := (v_size (sys_view K (os s)))(ob \<mapsto> 0), v_desc := upd (v_desc (sys_view K (os s))) p fd (Some ob)\<rparr>" .
  show ?thesis by (rule that [OF _ c]) (use t e c(1) in \<open>simp add: open_step_def lowest_def\<close>)
qed

lemma step_taken:
  assumes K: "posix_shm K" and t: "op_todo (procs s p) = n # r" "op_pc (procs s p) = OExcl"
    and n: "v_name (sys_view K (os s)) n = Some ob"
  obtains k' where "open_step K sz p s = ogoto p ((procs s p)\<lparr>op_pc := OPlain\<rparr>) (s\<lparr>os := k'\<rparr>)"
    and "sys_view K k' = sys_view K (os s)"
proof -
  obtain fd k' where e: "sys_create K p n (os s) = (fd, k')" by fastforce
  show ?thesis
    by (rule that [of k']) (use t e create_taken [OF K e n] in \<open>simp_all add: open_step_def\<close>)
qed

lemma step_size:
  assumes K: "posix_shm K" and t: "op_todo (procs s p) = n # r" "op_pc (procs s p) = OSize fd"
    and d: "v_desc (sys_view K (os s)) p fd = Some ob" "v_size (sys_view K (os s)) ob \<noteq> None"
  obtains k' where "open_step K sz p s = ogoto p ((procs s p)\<lparr>op_pc := OMap fd True\<rparr>) (s\<lparr>os := k'\<rparr>)"
    and "sys_view K k' = (sys_view K (os s))\<lparr>v_size := (v_size (sys_view K (os s)))(ob \<mapsto> sz)\<rparr>"
proof -
  obtain r' k' where e: "sys_truncate K p fd sz (os s) = (r', k')" by fastforce
  show ?thesis
    by (rule that [of k']) (use t e truncate_fd [OF K e d] in \<open>simp_all add: open_step_def\<close>)
qed

lemma step_attach:
  assumes K: "posix_shm K" and t: "op_todo (procs s p) = n # r" "op_pc (procs s p) = OPlain"
    and n: "v_name (sys_view K (os s)) n = Some ob"
  obtains fd k' where "open_step K sz p s = ogoto p (got_fd fd (OMap fd False) (procs s p)) (s\<lparr>os := k'\<rparr>)"
    and "lowest (dom (v_desc (sys_view K (os s)) p)) fd"
    and "sys_view K k' = (sys_view K (os s))\<lparr>v_desc := upd (v_desc (sys_view K (os s))) p fd (Some ob)\<rparr>"
proof -
  obtain fd k' where e: "sys_attach K p n (os s) = (fd, k')" by fastforce
  show ?thesis
    by (rule that [of fd k']) (use t e attach_name [OF K e n] in \<open>simp_all add: open_step_def lowest_def\<close>)
qed

lemma step_map:
  assumes K: "posix_shm K" and t: "op_todo (procs s p) = n # r" "op_pc (procs s p) = OMap fd init"
    and d: "v_desc (sys_view K (os s)) p fd = Some ob"
  obtains a k' where "open_step K sz p s =
      ogoto p (if init then (procs s p)\<lparr>op_pc := OCons fd a\<rparr> else opened n a (procs s p)) (s\<lparr>os := k'\<rparr>)"
    and "v_map (sys_view K (os s)) p a = None"
    and "sys_view K k' = (sys_view K (os s))\<lparr>v_map := upd (v_map (sys_view K (os s))) p a (Some ob)\<rparr>"
proof -
  obtain a k' where e: "sys_mmap K p sz fd (os s) = (a, k')" by fastforce
  show ?thesis
    by (rule that [of a k']) (use t e mmap_fd [OF K e d] in \<open>simp_all add: open_step_def Let_def\<close>)
qed

lemma step_construct:
  assumes "op_todo (procs s p) = n # r" and "op_pc (procs s p) = OCons fd a"
    and "v_map (sys_view K (os s)) p a = Some ob" and "v_size (sys_view K (os s)) ob = Some sz"
  shows "open_step K sz p s = ogoto p (opened n a (procs s p))
    (s\<lparr>shm := (shm s)(ob := construct fd (shm s ob)), built := built s @ [ob]\<rparr>)"
  using assms by (simp add: open_step_def)

section \<open>Descriptors are taken in order\<close>

definition lowest_seq :: "int set \<Rightarrow> int list \<Rightarrow> bool" where
  "lowest_seq D fds \<longleftrightarrow> (\<forall>i < length fds. lowest (D \<union> set (take i fds)) (fds ! i))"

lemma lowest_unique: "lowest D x \<Longrightarrow> lowest D y \<Longrightarrow> x = y"
  unfolding lowest_def by (meson linorder_neqE)

lemma lowest_seq_Nil [simp]: "lowest_seq D []"
  by (simp add: lowest_seq_def)

lemma lowest_seq_snoc [simp]: "lowest_seq D (xs @ [x]) \<longleftrightarrow> lowest_seq D xs \<and> lowest (D \<union> set xs) x"
  by (auto simp: lowest_seq_def nth_append less_Suc_eq)

lemma lowest_seq_agree:
  assumes "lowest_seq D xs" and "lowest_seq D ys" and "n \<le> length xs" and "n \<le> length ys"
  shows "take n xs = take n ys"
  using assms(3,4)
proof (induction n)
  case (Suc n)
  then have t: "take n xs = take n ys" by simp
  have "lowest (D \<union> set (take n xs)) (xs ! n)" "lowest (D \<union> set (take n ys)) (ys ! n)"
    using assms(1,2) Suc.prems by (auto simp: lowest_seq_def)
  then have "xs ! n = ys ! n" using t by (metis lowest_unique)
  then show ?case using t Suc.prems by (simp add: take_Suc_conv_app_nth)
qed simp

lemma lowest_seq_nth:
  "lowest_seq D xs \<Longrightarrow> lowest_seq D ys \<Longrightarrow> i < length xs \<Longrightarrow> i < length ys \<Longrightarrow> xs ! i = ys ! i"
  using lowest_seq_agree [of D xs ys "Suc i"] by (simp add: take_Suc_conv_app_nth)

lemma lowest_seq_distinct:
  assumes "lowest_seq D xs"
  shows "distinct xs \<and> set xs \<inter> D = {}"
  using assms by (induction xs rule: rev_induct) (auto simp: lowest_def)

section \<open>The invariant\<close>

definition has_fd :: "opc \<Rightarrow> bool" where
  "has_fd pc = (case pc of OSize fd \<Rightarrow> True | OMap fd init \<Rightarrow> True | OCons fd a \<Rightarrow> True | _ \<Rightarrow> False)"

definition creating :: "string \<Rightarrow> oproc \<Rightarrow> bool" where
  "creating n pr \<longleftrightarrow> op_todo pr \<noteq> [] \<and> hd (op_todo pr) = n \<and>
     (case op_pc pr of OSize fd \<Rightarrow> True | OMap fd init \<Rightarrow> init | OCons fd a \<Rightarrow> True | _ \<Rightarrow> False)"

definition addrs :: "oproc \<Rightarrow> int list" where
  "addrs pr = map snd (op_got pr) @ (case op_pc pr of OCons fd a \<Rightarrow> [a] | _ \<Rightarrow> [])"

definition pc_inv :: "nat \<Rightarrow> (string \<Rightarrow> nat option) \<Rightarrow> (nat \<Rightarrow> nat option) \<Rightarrow> oproc \<Rightarrow> bool" where
  "pc_inv sz nm len pr =
     (case op_pc pr of
        OExcl \<Rightarrow> True
      | OPlain \<Rightarrow> op_todo pr \<noteq> [] \<and> nm (hd (op_todo pr)) \<noteq> None
      | OSize fd \<Rightarrow> op_todo pr \<noteq> [] \<and> fd = last (op_fds pr)
      | OMap fd init \<Rightarrow> op_todo pr \<noteq> [] \<and> fd = last (op_fds pr) \<and>
          (init \<longrightarrow> len (the (nm (hd (op_todo pr)))) = Some sz)
      | OCons fd a \<Rightarrow> op_todo pr \<noteq> [] \<and> fd = last (op_fds pr) \<and> len (the (nm (hd (op_todo pr)))) = Some sz
      | OFail e \<Rightarrow> False)"

text \<open>\<open>d0\<close> and \<open>m0\<close> are the process's descriptors and mappings at the start, \<open>d\<close> and \<open>mp\<close> those now.\<close>

definition proc_inv :: "nat \<Rightarrow> string list \<Rightarrow> (int \<Rightarrow> nat option) \<Rightarrow> (int \<Rightarrow> nat option) \<Rightarrow> (string \<Rightarrow> nat option) \<Rightarrow>
    (nat \<Rightarrow> nat option) \<Rightarrow> (int \<Rightarrow> nat option) \<Rightarrow> (int \<Rightarrow> nat option) \<Rightarrow> oproc \<Rightarrow> bool" where
  "proc_inv sz ns d0 m0 nm len d mp pr \<longleftrightarrow>
     map fst (op_got pr) @ op_todo pr = ns \<and>
     length (op_fds pr) = length (op_got pr) + (if has_fd (op_pc pr) then 1 else 0) \<and>
     lowest_seq (dom d0) (op_fds pr) \<and>
     (\<forall>i < length (op_fds pr). nm (ns ! i) \<noteq> None \<and> d (op_fds pr ! i) = nm (ns ! i)) \<and>
     (\<forall>x. x \<notin> set (op_fds pr) \<longrightarrow> d x = d0 x) \<and>
     (\<forall>i < length (addrs pr). mp (addrs pr ! i) = nm (ns ! i)) \<and>
     (\<forall>a. a \<notin> set (addrs pr) \<longrightarrow> mp a = m0 a) \<and>
     distinct (addrs pr) \<and> (\<forall>a \<in> set (addrs pr). m0 a = None) \<and>
     pc_inv sz nm len pr"

definition constructed :: "nat \<Rightarrow> nat \<Rightarrow> (nat \<Rightarrow> string list) \<Rightarrow> (string \<Rightarrow> nat option) \<Rightarrow> (nat \<Rightarrow> nat option) \<Rightarrow>
    (nat \<Rightarrow> 'v shared) \<Rightarrow> (nat \<Rightarrow> oproc) \<Rightarrow> nat \<Rightarrow> bool" where
  "constructed N sz names nm len m P ob \<longleftrightarrow> len ob = Some sz \<and>
     (\<exists>p i. i < length (op_fds (P p)) \<and> i < length (names p) \<and> nm (names p ! i) = Some ob \<and>
        m ob = \<lparr>sh_fd = op_fds (P p) ! i, sh_q = new_lfq N\<rparr>)"

definition objs_inv :: "nat \<Rightarrow> nat \<Rightarrow> (nat \<Rightarrow> string list) \<Rightarrow> (string \<Rightarrow> nat option) \<Rightarrow> (string \<Rightarrow> nat option) \<Rightarrow>
    (nat \<Rightarrow> nat option) \<Rightarrow> (nat \<Rightarrow> 'v shared) \<Rightarrow> nat list \<Rightarrow> (nat \<Rightarrow> oproc) \<Rightarrow> bool" where
  "objs_inv N sz names nm0 nm len m b P \<longleftrightarrow>
     (\<forall>n. nm0 n \<noteq> None \<longrightarrow> nm n = nm0 n) \<and>
     (\<forall>n ob. nm n = Some ob \<longrightarrow> len ob \<noteq> None) \<and>
     (\<forall>n n' ob. nm0 n = None \<longrightarrow> nm n = Some ob \<longrightarrow> nm n' = Some ob \<longrightarrow> n' = n) \<and>
     (\<forall>ob. ob \<notin> set b \<longrightarrow> m ob = zeroed N) \<and>
     distinct b \<and>
     (\<forall>ob \<in> set b. constructed N sz names nm len m P ob) \<and>
     (\<forall>n ob. nm0 n = None \<longrightarrow> nm n = Some ob \<longrightarrow> ob \<notin> set b \<longrightarrow> (\<exists>p. creating n (P p))) \<and>
     (\<forall>n p q. creating n (P p) \<longrightarrow> creating n (P q) \<longrightarrow> p = q) \<and>
     (\<forall>n p ob. creating n (P p) \<longrightarrow> nm n = Some ob \<longrightarrow> ob \<notin> set b)"

definition open_inv :: "nat \<Rightarrow> nat \<Rightarrow> (nat \<Rightarrow> string list) \<Rightarrow> shm_view \<Rightarrow> shm_view \<Rightarrow> (nat \<Rightarrow> 'v shared) \<Rightarrow>
    nat list \<Rightarrow> (nat \<Rightarrow> oproc) \<Rightarrow> bool" where
  "open_inv N sz names v0 v m b P \<longleftrightarrow>
     (\<forall>p. proc_inv sz (names p) (v_desc v0 p) (v_map v0 p) (v_name v) (v_size v) (v_desc v p) (v_map v p) (P p)) \<and>
     objs_inv N sz names (v_name v0) (v_name v) (v_size v) m b P"

lemma construct_zeroed: "construct fd (zeroed N) = \<lparr>sh_fd = fd, sh_q = new_lfq N\<rparr>"
  by (simp add: construct_def zeroed_def new_lfq_def new_node_def)

lemma proc_inv_dom:
  assumes "proc_inv sz ns d0 m0 nm len d mp pr"
  shows "dom d = dom d0 \<union> set (op_fds pr)"
proof -
  have f: "d x \<noteq> None" if "x \<in> set (op_fds pr)" for x
    using assms that by (auto simp: proc_inv_def in_set_conv_nth)
  have g: "d x = d0 x" if "x \<notin> set (op_fds pr)" for x
    using assms that by (simp add: proc_inv_def)
  have "lowest_seq (dom d0) (op_fds pr)" using assms by (simp add: proc_inv_def)
  then have "x \<in> dom d \<longleftrightarrow> x \<in> dom d0 \<or> x \<in> set (op_fds pr)" for x
    using f [of x] g [of x] by (cases "x \<in> set (op_fds pr)") (simp_all add: domIff)
  then show ?thesis by blast
qed

lemma proc_inv_next:
  "proc_inv sz ns d0 m0 nm len d mp pr \<Longrightarrow> op_todo pr = n # r \<Longrightarrow> length (op_got pr) < length ns \<and> ns ! length (op_got pr) = n"
  by (auto simp: proc_inv_def nth_append)

text \<open>New names, new objects and sizes do not disturb a process.\<close>

lemma proc_inv_mono:
  assumes "proc_inv sz ns d0 m0 nm len d mp pr"
    and "\<And>n. nm n \<noteq> None \<Longrightarrow> nm' n = nm n"
    and "\<And>n ob. nm n = Some ob \<Longrightarrow> len ob = Some sz \<Longrightarrow> len' ob = Some sz"
  shows "proc_inv sz ns d0 m0 nm' len' d mp pr"
proof -
  have l: "length (addrs pr) \<le> length (op_fds pr)"
    using assms(1) by (auto simp: proc_inv_def addrs_def has_fd_def split: opc.splits)
  have i: "nm' (ns ! i) = nm (ns ! i)" "nm (ns ! i) \<noteq> None" if "i < length (op_fds pr)" for i
    using assms(1,2) that by (auto simp: proc_inv_def)
  have t: "nm (hd (op_todo pr)) \<noteq> None" if "has_fd (op_pc pr)" "op_todo pr \<noteq> []"
    using i(2) [of "length (op_got pr)"] that assms(1) proc_inv_next [OF assms(1)]
    by (cases "op_todo pr") (auto simp: proc_inv_def)
  have pc: "pc_inv sz nm' len' pr"
    using assms(1) t assms(2) [of "hd (op_todo pr)"] assms(3) [of "hd (op_todo pr)"]
    by (auto simp: proc_inv_def pc_inv_def has_fd_def split: opc.splits)
  show ?thesis using assms(1) pc i l by (auto simp: proc_inv_def)
qed


section \<open>The steps keep it\<close>

lemma open_inv_act:
  assumes "open_inv N sz names v0 v m b P"
    and "proc_inv sz (names p) (v_desc v0 p) (v_map v0 p) (v_name v') (v_size v') (v_desc v' p) (v_map v' p) pr"
    and "objs_inv N sz names (v_name v0) (v_name v') (v_size v') m' b' (P(p := pr))"
    and "\<And>q. q \<noteq> p \<Longrightarrow> v_desc v' q = v_desc v q \<and> v_map v' q = v_map v q"
    and "\<And>n. v_name v n \<noteq> None \<Longrightarrow> v_name v' n = v_name v n"
    and "\<And>n ob. v_name v n = Some ob \<Longrightarrow> v_size v ob = Some sz \<Longrightarrow> v_size v' ob = Some sz"
  shows "open_inv N sz names v0 v' m' b' (P(p := pr))"
  using assms proc_inv_mono [of sz _ _ _ "v_name v" "v_size v" _ _ _ "v_name v'" "v_size v'"]
  unfolding open_inv_def by simp

text \<open>A move after which the same processes construct the same queues.\<close>

lemma constructed_mono:
  assumes "constructed N sz names nm len m P ob" and "\<And>q. prefix (op_fds (P q)) (op_fds (P' q))"
    and "len' ob = len ob" and "m' ob = m ob" and "\<And>n. nm n \<noteq> None \<Longrightarrow> nm' n = nm n"
  shows "constructed N sz names nm' len' m' P' ob"
proof -
  obtain q i where c: "len ob = Some sz" "i < length (op_fds (P q))" "i < length (names q)"
    "nm (names q ! i) = Some ob" "m ob = \<lparr>sh_fd = op_fds (P q) ! i, sh_q = new_lfq N\<rparr>"
    using assms(1) unfolding constructed_def by blast
  have "i < length (op_fds (P' q)) \<and> op_fds (P' q) ! i = op_fds (P q) ! i"
    using c(2) assms(2) [of q] by (auto simp: prefix_def nth_append)
  then show ?thesis
    using c assms(3-5) unfolding constructed_def by (metis option.distinct(1))
qed

lemma objs_invD:
  assumes "objs_inv N sz names nm0 nm len m b P"
  shows "nm0 n \<noteq> None \<Longrightarrow> nm n = nm0 n" and "nm n = Some ob \<Longrightarrow> len ob \<noteq> None"
    and "nm0 n = None \<Longrightarrow> nm n = Some ob \<Longrightarrow> nm n' = Some ob \<Longrightarrow> n' = n"
    and "ob \<notin> set b \<Longrightarrow> m ob = zeroed N" and "distinct b"
    and "ob \<in> set b \<Longrightarrow> constructed N sz names nm len m P ob"
    and "nm0 n = None \<Longrightarrow> nm n = Some ob \<Longrightarrow> ob \<notin> set b \<Longrightarrow> \<exists>p. creating n (P p)"
    and "creating n (P p) \<Longrightarrow> creating n (P q) \<Longrightarrow> p = q"
    and "creating n (P p) \<Longrightarrow> nm n = Some ob \<Longrightarrow> ob \<notin> set b"
  using assms unfolding objs_inv_def by blast+

lemma objs_invI:
  assumes "\<And>n. nm0 n \<noteq> None \<Longrightarrow> nm n = nm0 n" and "\<And>n ob. nm n = Some ob \<Longrightarrow> len ob \<noteq> None"
    and "\<And>n n' ob. nm0 n = None \<Longrightarrow> nm n = Some ob \<Longrightarrow> nm n' = Some ob \<Longrightarrow> n' = n"
    and "\<And>ob. ob \<notin> set b \<Longrightarrow> m ob = zeroed N" and "distinct b"
    and "\<And>ob. ob \<in> set b \<Longrightarrow> constructed N sz names nm len m P ob"
    and "\<And>n ob. nm0 n = None \<Longrightarrow> nm n = Some ob \<Longrightarrow> ob \<notin> set b \<Longrightarrow> \<exists>p. creating n (P p)"
    and "\<And>n p q. creating n (P p) \<Longrightarrow> creating n (P q) \<Longrightarrow> p = q"
    and "\<And>n p ob. creating n (P p) \<Longrightarrow> nm n = Some ob \<Longrightarrow> ob \<notin> set b"
  shows "objs_inv N sz names nm0 nm len m b P"
  unfolding objs_inv_def by (intro conjI allI impI ballI; (erule (2) assms | erule (1) assms | erule assms | rule assms))

lemma objs_inv_move:
  assumes i: "objs_inv N sz names nm0 nm len m b P"
    and cr: "\<And>n q. creating n (P' q) \<longleftrightarrow> creating n (P q)"
    and f: "\<And>q. prefix (op_fds (P q)) (op_fds (P' q))"
    and l: "\<And>ob. len ob \<noteq> None \<Longrightarrow> len' ob \<noteq> None" "\<And>ob. len ob = Some sz \<Longrightarrow> len' ob = Some sz"
  shows "objs_inv N sz names nm0 nm len' m b P'"
proof -
  note I = objs_invD [OF i]
  have b: "constructed N sz names nm len' m P' ob" if "ob \<in> set b" for ob
  proof -
    have c: "constructed N sz names nm len m P ob" using that by (rule I(6))
    then have "len' ob = len ob" using l(2) by (simp add: constructed_def)
    with c f show ?thesis by (rule constructed_mono) simp_all
  qed
  show ?thesis
    by (rule objs_invI; (unfold cr)?)
      (fact I b | erule I(2) [THEN l(1)] | erule (2) I | erule (1) I | erule I)+
qed

text \<open>The exclusive creation: one process is to construct the new object.\<close>

lemma objs_inv_create:
  assumes i: "objs_inv N sz names nm0 nm len m b P" and n: "nm n = None" and ob: "len ob = None"
    and cr: "\<And>n' q. creating n' (P' q) \<longleftrightarrow> (if n' = n then q = p else creating n' (P q))"
    and f: "\<And>q. prefix (op_fds (P q)) (op_fds (P' q))"
  shows "objs_inv N sz names nm0 (nm(n \<mapsto> ob)) (len(ob \<mapsto> 0)) m b P'"
proof -
  note I = objs_invD [OF i]
  have nb: "ob \<notin> set b" using I(6) [of ob] ob by (auto simp: constructed_def)
  have r: "nm n' \<noteq> Some ob" for n' using I(2) [of n' ob] ob by auto
  have n0: "nm0 n = None" using I(1) [of n] n by metis
  have b: "constructed N sz names (nm(n \<mapsto> ob)) (len(ob \<mapsto> 0)) m P' o'" if "o' \<in> set b" for o'
    using I(6) [OF that] f by (rule constructed_mono) (use that nb n in auto)
  show ?thesis
  proof (rule objs_invI)
    fix n' o' assume "nm0 n' = None" "(nm(n \<mapsto> ob)) n' = Some o'" "o' \<notin> set b"
    then show "\<exists>q. creating n' (P' q)" unfolding cr using I(7) [of n' o'] by (cases "n' = n") auto
  qed (use I(1-5,8,9) b r n0 nb in \<open>auto simp: cr split: if_splits\<close>)
qed

text \<open>The construction.\<close>

lemma objs_inv_build:
  assumes i: "objs_inv N sz names nm0 nm len m b P" and n: "nm0 n = None" "nm n = Some ob" "creating n (P p)"
    and l: "len ob = Some sz" and k: "k < length (op_fds (P p))" "k < length (names p)" "names p ! k = n" "op_fds (P p) ! k = fd"
    and cr: "\<And>n' q. creating n' (P' q) \<longleftrightarrow> q \<noteq> p \<and> creating n' (P q)" and f: "\<And>q. op_fds (P' q) = op_fds (P q)"
  shows "ob \<notin> set b \<and> objs_inv N sz names nm0 nm len (m(ob := construct fd (m ob))) (b @ [ob]) P'"
proof -
  note I = objs_invD [OF i]
  have nb: "ob \<notin> set b" using I(9) n by blast
  have m: "construct fd (m ob) = \<lparr>sh_fd = fd, sh_q = new_lfq N\<rparr>" using I(4) [OF nb] construct_zeroed by metis
  have only: "n' = n" if "creating n' (P p)" for n' using that n(3) by (auto simp: creating_def)
  have new: "constructed N sz names nm len (m(ob := construct fd (m ob))) P' ob"
    unfolding constructed_def using l k n(2) f by (intro conjI exI [of _ p] exI [of _ k]) (simp_all add: m)
  have b: "constructed N sz names nm len (m(ob := construct fd (m ob))) P' o'" if "o' \<in> set (b @ [ob])" for o'
  proof (cases "o' = ob")
    case False
    then have "constructed N sz names nm len m P o'" using that I(6) by simp
    then show ?thesis by (rule constructed_mono) (use f False in simp_all)
  qed (use new in simp)
  have "objs_inv N sz names nm0 nm len (m(ob := construct fd (m ob))) (b @ [ob]) P'"
  proof (rule objs_invI)
    fix n' o' assume o: "nm0 n' = None" "nm n' = Some o'" "o' \<notin> set (b @ [ob])"
    then obtain q where q: "creating n' (P q)" using I(7) by fastforce
    have "q \<noteq> p" using q only o n(2) by auto
    then show "\<exists>q. creating n' (P' q)" using q cr by blast
  next
    fix n' q o' assume o: "creating n' (P' q)" "nm n' = Some o'"
    then have q: "q \<noteq> p" "creating n' (P q)" using cr by auto
    have "o' \<noteq> ob" using I(3) [OF n(1,2), of n'] I(8) [OF _ n(3)] q o(2) by auto
    then show "o' \<notin> set (b @ [ob])" using I(9) [OF q(2) o(2)] by simp
  next
    fix n' q q' assume "creating n' (P' q)" "creating n' (P' q')"
    then show "q = q'" unfolding cr using I(8) by blast
  qed (use I(1-5) b nb in auto)
  then show ?thesis using nb by simp
qed

section \<open>The tables of the process that moves\<close>

lemma proc_invD:
  assumes "proc_inv sz ns d0 m0 nm len d mp pr"
  shows "map fst (op_got pr) @ op_todo pr = ns"
    and "length (op_fds pr) = length (op_got pr) + (if has_fd (op_pc pr) then 1 else 0)"
    and "lowest_seq (dom d0) (op_fds pr)"
    and "i < length (op_fds pr) \<Longrightarrow> nm (ns ! i) \<noteq> None"
    and "i < length (op_fds pr) \<Longrightarrow> d (op_fds pr ! i) = nm (ns ! i)"
    and "x \<notin> set (op_fds pr) \<Longrightarrow> d x = d0 x"
    and "i < length (addrs pr) \<Longrightarrow> mp (addrs pr ! i) = nm (ns ! i)"
    and "a \<notin> set (addrs pr) \<Longrightarrow> mp a = m0 a"
    and "distinct (addrs pr)" and "a \<in> set (addrs pr) \<Longrightarrow> m0 a = None"
    and "pc_inv sz nm len pr"
  using assms unfolding proc_inv_def by blast+

lemma addrs_short: "length (op_fds pr) = length (op_got pr) + (if has_fd (op_pc pr) then 1 else 0) \<Longrightarrow>
    length (addrs pr) \<le> length (op_fds pr)"
  by (auto simp: addrs_def has_fd_def split: opc.splits)

text \<open>The descriptor in a local variable is the last one opened, and stands for the object of the name.\<close>

lemma proc_fd:
  assumes i: "proc_inv sz ns d0 m0 nm len d mp pr" and t: "op_todo pr = n # r"
    and pc: "op_pc pr = OSize fd \<or> op_pc pr = OMap fd init \<or> op_pc pr = OCons fd a"
  shows "length (op_fds pr) = Suc (length (op_got pr))" and "op_fds pr ! length (op_got pr) = fd"
    and "nm n \<noteq> None" and "d fd = nm n"
proof -
  note I = proc_invD [OF i]
  have h: "has_fd (op_pc pr)" using pc by (auto simp: has_fd_def)
  show l: "length (op_fds pr) = Suc (length (op_got pr))" using I(2) h by simp
  have "last (op_fds pr) = fd" using I(11) pc by (auto simp: pc_inv_def)
  moreover have "op_fds pr \<noteq> []" using l by auto
  ultimately show f: "op_fds pr ! length (op_got pr) = fd" using l by (metis diff_Suc_1 last_conv_nth)
  show "nm n \<noteq> None" "d fd = nm n"
    using I(4,5) [of "length (op_got pr)"] l f proc_inv_next [OF i t] by simp_all
qed

lemma proc_take_fd:
  assumes i: "proc_inv sz ns d0 m0 nm len d mp pr" and t: "op_todo pr = n # r" and h: "\<not> has_fd (op_pc pr)"
    and n: "nm n = Some ob" and l: "lowest (dom d) fd" and pc: "pc = OSize fd \<or> pc = OMap fd False"
  shows "proc_inv sz ns d0 m0 nm len (d(fd := Some ob)) mp (got_fd fd pc pr)"
proof -
  note I = proc_invD [OF i]
  have len: "length (op_fds pr) = length (op_got pr)" "ns ! length (op_got pr) = n"
    using I(2) h proc_inv_next [OF i t] by simp_all
  have d: "dom d = dom d0 \<union> set (op_fds pr)" by (rule proc_inv_dom [OF i])
  have nf: "fd \<notin> set (op_fds pr)" using l d by (simp add: lowest_def)
  have ad: "addrs (got_fd fd pc pr) = addrs pr"
    using pc h by (auto simp: addrs_def got_fd_def has_fd_def split: opc.splits)
  have fds: "op_fds (got_fd fd pc pr) = op_fds pr @ [fd]" "op_got (got_fd fd pc pr) = op_got pr"
    "op_todo (got_fd fd pc pr) = op_todo pr" "op_pc (got_fd fd pc pr) = pc" by (simp_all add: got_fd_def)
  have a: "\<forall>j < length (op_fds pr @ [fd]). nm (ns ! j) \<noteq> None \<and>
      (d(fd := Some ob)) ((op_fds pr @ [fd]) ! j) = nm (ns ! j)"
  proof (intro allI impI)
    fix j assume "j < length (op_fds pr @ [fd])"
    then consider "j < length (op_fds pr)" | "j = length (op_fds pr)" by fastforce
    then show "nm (ns ! j) \<noteq> None \<and> (d(fd := Some ob)) ((op_fds pr @ [fd]) ! j) = nm (ns ! j)"
    proof cases
      case 1
      then have "op_fds pr ! j \<noteq> fd" using nf nth_mem by metis
      then show ?thesis using I(4,5) [OF 1] 1 by (simp add: nth_append)
    next
      case 2
      then show ?thesis using len n by (simp add: nth_append)
    qed
  qed
  show ?thesis
    unfolding proc_inv_def fds ad
  proof (intro conjI a)
    show "lowest_seq (dom d0) (op_fds pr @ [fd])" using I(3) l d by simp
    show "pc_inv sz nm len (got_fd fd pc pr)" using pc t by (auto simp: pc_inv_def got_fd_def)
  qed (use I(1,6-10) len pc in \<open>auto simp: has_fd_def\<close>)
qed

lemma proc_goto:
  assumes "proc_inv sz ns d0 m0 nm len d mp pr" and "has_fd pc = has_fd (op_pc pr)"
    and "addrs (pr\<lparr>op_pc := pc\<rparr>) = addrs pr" and "pc_inv sz nm len (pr\<lparr>op_pc := pc\<rparr>)"
  shows "proc_inv sz ns d0 m0 nm len d mp (pr\<lparr>op_pc := pc\<rparr>)"
  using assms by (simp add: proc_inv_def)

lemma proc_map:
  assumes i: "proc_inv sz ns d0 m0 nm len d mp pr" and t: "op_todo pr = n # r" and pc: "op_pc pr = OMap fd init"
    and n: "nm n = Some ob" and a: "mp a = None"
  shows "proc_inv sz ns d0 m0 nm len d (mp(a := Some ob))
    (if init then pr\<lparr>op_pc := OCons fd a\<rparr> else opened n a pr)"
proof -
  note I = proc_invD [OF i]
  let ?pr = "if init then pr\<lparr>op_pc := OCons fd a\<rparr> else opened n a pr"
  have len: "length (op_fds pr) = Suc (length (op_got pr))" "ns ! length (op_got pr) = n"
    using I(2) pc proc_inv_next [OF i t] by (simp_all add: has_fd_def)
  have ad: "addrs ?pr = addrs pr @ [a]" "length (addrs pr) = length (op_got pr)"
    using pc by (simp_all add: addrs_def opened_def)
  have fds: "op_fds ?pr = op_fds pr" "map fst (op_got ?pr) @ op_todo ?pr = map fst (op_got pr) @ op_todo pr"
    "length (op_got ?pr) + (if has_fd (op_pc ?pr) then 1 else 0) = Suc (length (op_got pr))"
    using t by (simp_all add: opened_def has_fd_def)
  have new: "a \<notin> set (addrs pr)"
  proof
    assume "a \<in> set (addrs pr)"
    then obtain j where "j < length (addrs pr)" "addrs pr ! j = a" by (auto simp: in_set_conv_nth)
    then show False using I(7) [of j] I(4) [of j] a len ad(2) by simp
  qed
  have m: "\<forall>j < length (addrs pr @ [a]). (mp(a := Some ob)) ((addrs pr @ [a]) ! j) = nm (ns ! j)"
  proof (intro allI impI)
    fix j assume "j < length (addrs pr @ [a])"
    then consider "j < length (addrs pr)" | "j = length (addrs pr)" by fastforce
    then show "(mp(a := Some ob)) ((addrs pr @ [a]) ! j) = nm (ns ! j)"
    proof cases
      case 1
      then have "addrs pr ! j \<noteq> a" using new nth_mem by metis
      then show ?thesis using I(7) [OF 1] 1 by (simp add: nth_append)
    next
      case 2
      then show ?thesis using ad(2) len n by (simp add: nth_append)
    qed
  qed
  show ?thesis
    unfolding proc_inv_def fds ad
  proof (intro conjI m)
    show "pc_inv sz nm len ?pr" using I(11) pc t by (simp add: pc_inv_def opened_def)
    show "\<forall>x \<in> set (addrs pr @ [a]). m0 x = None" using I(8) [OF new] I(10) a by simp
  qed (use I(1,3-6,8,9) len new in auto)
qed

lemma proc_built:
  assumes "proc_inv sz ns d0 m0 nm len d mp pr" and "op_todo pr = n # r" and "op_pc pr = OCons fd a"
  shows "proc_inv sz ns d0 m0 nm len d mp (opened n a pr)"
  using assms by (simp add: proc_inv_def opened_def addrs_def has_fd_def pc_inv_def)

section \<open>Every reachable state\<close>

definition o_inv :: "'k posix \<Rightarrow> nat \<Rightarrow> nat \<Rightarrow> (nat \<Rightarrow> string list) \<Rightarrow> 'k \<Rightarrow> ('k, 'v) osys \<Rightarrow> bool" where
  "o_inv K sz N names k s \<longleftrightarrow> clean K names k \<and>
     open_inv N sz names (sys_view K k) (sys_view K (os s)) (shm s) (built s) (procs s)"

lemma o_inv_start: "clean K names k \<Longrightarrow> o_inv K sz N names k (o_start N names k)"
  by (auto simp: o_inv_def open_inv_def o_start_def proc_inv_def objs_inv_def clean_def addrs_def has_fd_def
      pc_inv_def creating_def)

lemma open_invD:
  assumes "open_inv N sz names v0 v m b P"
  shows "proc_inv sz (names p) (v_desc v0 p) (v_map v0 p) (v_name v) (v_size v) (v_desc v p) (v_map v p) (P p)"
    and "objs_inv N sz names (v_name v0) (v_name v) (v_size v) m b P"
  using assms by (simp_all add: open_inv_def)

lemma creating_name:
  assumes i: "open_inv N sz names v0 v m b P" and c: "creating n (P p)"
  shows "v_name v n \<noteq> None"
proof -
  note I = open_invD(1) [OF i, of p]
  obtain r where t: "op_todo (P p) = n # r" and h: "has_fd (op_pc (P p))"
    using c by (cases "op_todo (P p)") (auto simp: creating_def has_fd_def split: opc.splits)
  show ?thesis
    using proc_invD(2,4) [OF I] proc_inv_next [OF I t] h by fastforce
qed

lemma open_inv_create:
  assumes i: "open_inv N sz names v0 v m b P" and t: "op_todo (P p) = n # r" and pc: "op_pc (P p) = OExcl"
    and n: "v_name v n = None" and s: "v_size v ob = None" and l: "lowest (dom (v_desc v p)) fd"
  shows "open_inv N sz names v0
    (v\<lparr>v_name := (v_name v)(n \<mapsto> ob), v_size := (v_size v)(ob \<mapsto> 0), v_desc := upd (v_desc v) p fd (Some ob)\<rparr>)
    m b (P(p := got_fd fd (OSize fd) (P p)))"
proof (rule open_inv_act [OF i])
  note I = open_invD [OF i]
  have r: "v_name v n' \<noteq> Some ob" for n' using objs_invD(2) [OF I(2), of n' ob] s by auto
  have "proc_inv sz (names p) (v_desc v0 p) (v_map v0 p) ((v_name v)(n \<mapsto> ob)) ((v_size v)(ob \<mapsto> 0))
      (v_desc v p) (v_map v p) (P p)"
    using I(1) by (rule proc_inv_mono) (use n r in auto)
  from proc_take_fd [OF this t _ _ l, of ob "OSize fd"] pc
  show "proc_inv sz (names p) (v_desc v0 p) (v_map v0 p)
     (v_name (v\<lparr>v_name := (v_name v)(n \<mapsto> ob), v_size := (v_size v)(ob \<mapsto> 0), v_desc := upd (v_desc v) p fd (Some ob)\<rparr>))
     (v_size (v\<lparr>v_name := (v_name v)(n \<mapsto> ob), v_size := (v_size v)(ob \<mapsto> 0), v_desc := upd (v_desc v) p fd (Some ob)\<rparr>))
     (v_desc (v\<lparr>v_name := (v_name v)(n \<mapsto> ob), v_size := (v_size v)(ob \<mapsto> 0), v_desc := upd (v_desc v) p fd (Some ob)\<rparr>) p)
     (v_map (v\<lparr>v_name := (v_name v)(n \<mapsto> ob), v_size := (v_size v)(ob \<mapsto> 0), v_desc := upd (v_desc v) p fd (Some ob)\<rparr>) p)
     (got_fd fd (OSize fd) (P p))"
    by (simp add: has_fd_def upd_def)
  have "objs_inv N sz names (v_name v0) ((v_name v)(n \<mapsto> ob)) ((v_size v)(ob \<mapsto> 0)) m b
      (P(p := got_fd fd (OSize fd) (P p)))"
  proof (rule objs_inv_create [OF I(2) n s])
    have "\<not> creating n' (P p)" for n' using pc by (simp add: creating_def)
    moreover have "\<not> creating n (P q)" for q using creating_name [OF i] n by blast
    ultimately show "creating n' ((P(p := got_fd fd (OSize fd) (P p))) q) \<longleftrightarrow> (if n' = n then q = p else creating n' (P q))"
      for n' q using t by (auto simp: creating_def got_fd_def)
  qed (simp add: got_fd_def)
  then show "objs_inv N sz names (v_name v0)
     (v_name (v\<lparr>v_name := (v_name v)(n \<mapsto> ob), v_size := (v_size v)(ob \<mapsto> 0), v_desc := upd (v_desc v) p fd (Some ob)\<rparr>))
     (v_size (v\<lparr>v_name := (v_name v)(n \<mapsto> ob), v_size := (v_size v)(ob \<mapsto> 0), v_desc := upd (v_desc v) p fd (Some ob)\<rparr>)) m b
     (P(p := got_fd fd (OSize fd) (P p)))" by simp
qed (use n s objs_invD(2) [OF open_invD(2) [OF i]] in \<open>auto simp: upd_other\<close>)

lemma open_inv_build:
  assumes i: "open_inv N sz names v0 v m b P" and t: "op_todo (P p) = n # r" and pc: "op_pc (P p) = OCons fd a"
    and n0: "v_name v0 n = None"
  obtains ob where "v_map v p a = Some ob" "v_size v ob = Some sz" "ob \<notin> set b"
    "open_inv N sz names v0 v (m(ob := construct fd (m ob))) (b @ [ob]) (P(p := opened n a (P p)))"
proof -
  note I = open_invD [OF i]
  note J = proc_invD [OF I(1) [of p]]
  let ?k = "length (op_got (P p))"
  note F = proc_fd [OF I(1) t, of fd _ a] pc
  have k: "?k < length (op_fds (P p))" "?k < length (names p)" "names p ! ?k = n" "op_fds (P p) ! ?k = fd"
    using F proc_inv_next [OF I(1) t] by simp_all
  obtain ob where ob: "v_name v n = Some ob" using F(3) pc by auto
  have s: "v_size v ob = Some sz" using J(11) pc t ob by (simp add: pc_inv_def)
  have a: "v_map v p a = Some ob"
    using J(7) [of ?k] pc k(3) ob by (simp add: addrs_def nth_append)
  have c: "creating n (P p)" using t pc by (simp add: creating_def)
  have "ob \<notin> set b \<and> objs_inv N sz names (v_name v0) (v_name v) (v_size v) (m(ob := construct fd (m ob))) (b @ [ob])
      (P(p := opened n a (P p)))"
    by (rule objs_inv_build [OF I(2) n0 ob c s k]) (auto simp: creating_def opened_def)
  moreover from conjunct2 [OF this]
  have "open_inv N sz names v0 v (m(ob := construct fd (m ob))) (b @ [ob]) (P(p := opened n a (P p)))"
    using open_inv_act [OF i proc_built [OF I(1) t pc]] by blast
  ultimately show ?thesis using that [OF a s] by blast
qed


lemma o_invI:
  assumes "clean K names k"
    and "open_inv N sz names (sys_view K k) (sys_view K k') m b ((procs s)(p := pr))"
  shows "o_inv K sz N names k (ogoto p pr (s\<lparr>os := k', shm := m, built := b\<rparr>))"
  using assms by (simp add: o_inv_def ogoto_def)

text \<open>A step that leaves names, objects and sizes alone and changes the tables of one process.\<close>

lemma o_inv_move:
  assumes i: "o_inv K sz N names k s" and n: "v_name (sys_view K k') = v_name (sys_view K (os s))"
    and pr: "proc_inv sz (names p) (v_desc (sys_view K k) p) (v_map (sys_view K k) p) (v_name (sys_view K k'))
      (v_size (sys_view K k')) (v_desc (sys_view K k') p) (v_map (sys_view K k') p) pr"
    and o: "\<And>q. q \<noteq> p \<Longrightarrow> v_desc (sys_view K k') q = v_desc (sys_view K (os s)) q \<and>
      v_map (sys_view K k') q = v_map (sys_view K (os s)) q"
    and l: "\<And>ob. v_size (sys_view K (os s)) ob \<noteq> None \<Longrightarrow> v_size (sys_view K k') ob \<noteq> None"
      "\<And>ob. v_size (sys_view K (os s)) ob = Some sz \<Longrightarrow> v_size (sys_view K k') ob = Some sz"
    and c: "\<And>n. creating n pr \<longleftrightarrow> creating n (procs s p)" and f: "prefix (op_fds (procs s p)) (op_fds pr)"
  shows "o_inv K sz N names k (ogoto p pr (s\<lparr>os := k'\<rparr>))"
proof -
  have i': "clean K names k" "open_inv N sz names (sys_view K k) (sys_view K (os s)) (shm s) (built s) (procs s)"
    using i by (simp_all add: o_inv_def)
  have "objs_inv N sz names (v_name (sys_view K k)) (v_name (sys_view K k')) (v_size (sys_view K k')) (shm s) (built s)
      ((procs s)(p := pr))"
    unfolding n using open_invD(2) [OF i'(2)] by (rule objs_inv_move) (use c f l in auto)
  then have "open_inv N sz names (sys_view K k) (sys_view K k') (shm s) (built s) ((procs s)(p := pr))"
    using open_inv_act [OF i'(2) pr _ o _ l(2)] n by simp
  from o_invI [OF i'(1) this] show ?thesis by simp
qed

lemma o_inv_parts:
  assumes "o_inv K sz N names k s"
  shows "clean K names k" and "open_inv N sz names (sys_view K k) (sys_view K (os s)) (shm s) (built s) (procs s)"
    and "proc_inv sz (names p) (v_desc (sys_view K k) p) (v_map (sys_view K k) p) (v_name (sys_view K (os s)))
      (v_size (sys_view K (os s))) (v_desc (sys_view K (os s)) p) (v_map (sys_view K (os s)) p) (procs s p)"
    and "objs_inv N sz names (v_name (sys_view K k)) (v_name (sys_view K (os s))) (v_size (sys_view K (os s)))
      (shm s) (built s) (procs s)"
  using assms by (simp_all add: o_inv_def open_inv_def)

lemma o_inv_excl:
  assumes K: "posix_shm K" and i: "o_inv K sz N names k s" and t: "op_todo (procs s p) = n # r"
    and pc: "op_pc (procs s p) = OExcl"
  shows "o_inv K sz N names k (open_step K sz p s)"
proof (cases "v_name (sys_view K (os s)) n")
  case None
  note P = o_inv_parts [OF i]
  from step_create [OF K t pc None] obtain fd ob k' where
    st: "open_step K sz p s = ogoto p (got_fd fd (OSize fd) (procs s p)) (s\<lparr>os := k'\<rparr>)"
    and c: "lowest (dom (v_desc (sys_view K (os s)) p)) fd" "v_size (sys_view K (os s)) ob = None"
    and v: "sys_view K k' = (sys_view K (os s))\<lparr>v_name := (v_name (sys_view K (os s)))(n \<mapsto> ob),
       v_size := (v_size (sys_view K (os s)))(ob \<mapsto> 0), v_desc := upd (v_desc (sys_view K (os s))) p fd (Some ob)\<rparr>"
    by blast
  have "open_inv N sz names (sys_view K k) (sys_view K k') (shm s) (built s)
      ((procs s)(p := got_fd fd (OSize fd) (procs s p)))"
    unfolding v by (rule open_inv_create [OF P(2) t pc None c(2,1)])
  from o_invI [OF P(1) this] show ?thesis by (simp add: st)
next
  case (Some ob)
  note P = o_inv_parts [OF i]
  obtain k' where st: "open_step K sz p s = ogoto p ((procs s p)\<lparr>op_pc := OPlain\<rparr>) (s\<lparr>os := k'\<rparr>)"
    and v: "sys_view K k' = sys_view K (os s)" using step_taken [OF K t pc Some] by blast
  have "proc_inv sz (names p) (v_desc (sys_view K k) p) (v_map (sys_view K k) p) (v_name (sys_view K k'))
      (v_size (sys_view K k')) (v_desc (sys_view K k') p) (v_map (sys_view K k') p) ((procs s p)\<lparr>op_pc := OPlain\<rparr>)"
    unfolding v using P(3)
    by (rule proc_goto) (use pc t Some in \<open>simp_all add: pc_inv_def has_fd_def addrs_def\<close>)
  from o_inv_move [OF i _ this] show ?thesis unfolding st using v pc by (simp add: creating_def)
qed

lemma o_inv_size:
  assumes K: "posix_shm K" and i: "o_inv K sz N names k s" and t: "op_todo (procs s p) = n # r"
    and pc: "op_pc (procs s p) = OSize fd"
  shows "o_inv K sz N names k (open_step K sz p s)"
proof -
  note P = o_inv_parts [OF i]
  let ?v = "sys_view K (os s)" and ?w = "sys_view K k"
  obtain ob where ob: "v_name ?v n = Some ob" "v_desc ?v p fd = Some ob"
    using proc_fd(3,4) [OF P(3) t, of fd] pc by auto
  obtain k' where st: "open_step K sz p s = ogoto p ((procs s p)\<lparr>op_pc := OMap fd True\<rparr>) (s\<lparr>os := k'\<rparr>)"
    and v: "sys_view K k' = ?v\<lparr>v_size := (v_size ?v)(ob \<mapsto> sz)\<rparr>"
    using step_size [OF K t pc ob(2) objs_invD(2) [OF P(4) ob(1)]] by blast
  have "proc_inv sz (names p) (v_desc ?w p) (v_map ?w p) (v_name ?v) ((v_size ?v)(ob \<mapsto> sz)) (v_desc ?v p) (v_map ?v p) (procs s p)"
    using P(3) by (rule proc_inv_mono) auto
  then have "proc_inv sz (names p) (v_desc ?w p) (v_map ?w p) (v_name (sys_view K k')) (v_size (sys_view K k')) (v_desc (sys_view K k') p) (v_map (sys_view K k') p)
      ((procs s p)\<lparr>op_pc := OMap fd True\<rparr>)"
    unfolding v using t pc ob proc_invD(11) [OF P(3) [of p]]
    by (intro proc_goto) (simp_all add: pc_inv_def has_fd_def addrs_def)
  from o_inv_move [OF i _ this] show ?thesis unfolding st using v pc by (simp add: creating_def)
qed

lemma o_inv_attach:
  assumes K: "posix_shm K" and i: "o_inv K sz N names k s" and t: "op_todo (procs s p) = n # r"
    and pc: "op_pc (procs s p) = OPlain"
  shows "o_inv K sz N names k (open_step K sz p s)"
proof -
  note P = o_inv_parts [OF i]
  let ?v = "sys_view K (os s)" and ?w = "sys_view K k"
  obtain ob where ob: "v_name ?v n = Some ob" using proc_invD(11) [OF P(3) [of p]] pc t by (auto simp: pc_inv_def)
  obtain fd k' where st: "open_step K sz p s = ogoto p (got_fd fd (OMap fd False) (procs s p)) (s\<lparr>os := k'\<rparr>)"
    and l: "lowest (dom (v_desc ?v p)) fd" and v: "sys_view K k' = ?v\<lparr>v_desc := upd (v_desc ?v) p fd (Some ob)\<rparr>"
    using step_attach [OF K t pc ob] by blast
  have "proc_inv sz (names p) (v_desc ?w p) (v_map ?w p) (v_name (sys_view K k')) (v_size (sys_view K k')) (v_desc (sys_view K k') p) (v_map (sys_view K k') p)
      (got_fd fd (OMap fd False) (procs s p))"
    using proc_take_fd [OF P(3) t _ ob l] pc v by (simp add: has_fd_def upd_def)
  from o_inv_move [OF i _ this] show ?thesis unfolding st using v pc by (simp add: creating_def got_fd_def upd_other)
qed

lemma o_inv_map:
  assumes K: "posix_shm K" and i: "o_inv K sz N names k s" and t: "op_todo (procs s p) = n # r"
    and pc: "op_pc (procs s p) = OMap fd init"
  shows "o_inv K sz N names k (open_step K sz p s)"
proof -
  note P = o_inv_parts [OF i]
  let ?v = "sys_view K (os s)" and ?w = "sys_view K k"
  obtain ob where ob: "v_name ?v n = Some ob" "v_desc ?v p fd = Some ob"
    using proc_fd(3,4) [OF P(3) t, of fd] pc by auto
  obtain a k' where st: "open_step K sz p s =
      ogoto p (if init then (procs s p)\<lparr>op_pc := OCons fd a\<rparr> else opened n a (procs s p)) (s\<lparr>os := k'\<rparr>)"
    and a: "v_map ?v p a = None" and v: "sys_view K k' = ?v\<lparr>v_map := upd (v_map ?v) p a (Some ob)\<rparr>"
    using step_map [OF K t pc ob(2)] by blast
  have "proc_inv sz (names p) (v_desc ?w p) (v_map ?w p) (v_name (sys_view K k')) (v_size (sys_view K k')) (v_desc (sys_view K k') p) (v_map (sys_view K k') p)
      (if init then (procs s p)\<lparr>op_pc := OCons fd a\<rparr> else opened n a (procs s p))"
    using proc_map [OF P(3) t pc ob(1) a] v by (simp add: upd_def)
  from o_inv_move [OF i _ this] show ?thesis unfolding st using v pc t by (simp add: creating_def opened_def upd_other)
qed

lemma o_inv_construct:
  assumes K: "posix_shm K" and i: "o_inv K sz N names k s" and t: "op_todo (procs s p) = n # r"
    and pc: "op_pc (procs s p) = OCons fd a"
  shows "o_inv K sz N names k (open_step K sz p s)"
proof -
  note P = o_inv_parts [OF i]
  have n0: "v_name (sys_view K k) n = None"
    using P(1) proc_inv_next [OF P(3) t] nth_mem unfolding clean_def by metis
  obtain ob where b: "v_map (sys_view K (os s)) p a = Some ob" "v_size (sys_view K (os s)) ob = Some sz"
    "open_inv N sz names (sys_view K k) (sys_view K (os s)) ((shm s)(ob := construct fd (shm s ob))) (built s @ [ob])
       ((procs s)(p := opened n a (procs s p)))"
    using open_inv_build [OF P(2) t pc n0] by blast
  from o_invI [OF P(1) b(3)] show ?thesis by (simp add: step_construct [OF t pc b(1,2)])
qed

lemma o_inv_step:
  assumes "posix_shm K" and "o_inv K sz N names k s"
  shows "o_inv K sz N names k (open_step K sz p s)"
proof (cases "op_todo (procs s p)")
  case Nil
  then show ?thesis using assms(2) by (simp add: open_step_def)
next
  case (Cons n r)
  note S = assms Cons
  have "op_pc (procs s p) \<noteq> OFail e" for e
    using proc_invD(11) [OF o_inv_parts(3) [OF assms(2), of p]] by (auto simp: pc_inv_def)
  then show ?thesis
    using o_inv_excl [OF S] o_inv_size [OF S] o_inv_attach [OF S] o_inv_map [OF S] o_inv_construct [OF S]
    by (cases "op_pc (procs s p)") auto
qed

lemma o_reach_inv:
  assumes "posix_shm K" and "clean K names k" and "o_reach K sz N names k s"
  shows "o_inv K sz N names k s"
  using assms(3) unfolding o_reach_def
  by (induction rule: reach.induct) (auto simp: o_inv_start [OF assms(2)] elim!: ostep.cases intro: o_inv_step [OF assms(1)])

end
