(* ===== verification/Lfq_Close.thy ===== *)
theory Lfq_Close
  imports Lfq_Open_Inv
begin

text \<open>
  What holds when all processes have opened their queues, and the invariant of closing them.
\<close>

section \<open>After opening\<close>

definition all_open :: "('k, 'v) osys \<Rightarrow> bool" where
  "all_open s \<longleftrightarrow> (\<forall>p. op_todo (procs s p) = [])"

lemma open_shared:
  assumes "posix_shm K" and "clean K names k" and "o_reach K sz N names k s"
  shows "op_pc (procs s p) \<noteq> OFail e" and "distinct (built s)"
    and "(n, a) \<in> set (op_got (procs s p)) \<Longrightarrow>
      \<exists>ob. v_name (sys_view K (os s)) n = Some ob \<and> v_map (sys_view K (os s)) p a = Some ob"
proof -
  note I = open_invD [OF conjunct2 [OF o_reach_inv [OF assms, unfolded o_inv_def]]]
  note J = proc_invD [OF I(1) [of p]]
  show "op_pc (procs s p) \<noteq> OFail e" using J(11) by (auto simp: pc_inv_def)
  show "distinct (built s)" by (rule objs_invD(5) [OF I(2)])
  assume "(n, a) \<in> set (op_got (procs s p))"
  then obtain i where i: "i < length (op_got (procs s p))" "op_got (procs s p) ! i = (n, a)" by (auto simp: in_set_conv_nth)
  have "map fst (op_got (procs s p)) ! i = n" using i by simp
  then have "names p ! i = n" using J(1) i(1) by (metis length_map nth_append)
  moreover have "addrs (procs s p) ! i = a" "i < length (addrs (procs s p))" using i by (simp_all add: addrs_def nth_append)
  moreover have "i < length (op_fds (procs s p))" using J(2) i(1) by simp
  ultimately show "\<exists>ob. v_name (sys_view K (os s)) n = Some ob \<and> v_map (sys_view K (os s)) p a = Some ob"
    using J(4,7) [of i] by auto
qed

lemma all_open_idle:
  assumes "o_inv K sz N names k s" and "all_open s"
  shows "op_pc (procs s p) = OExcl"
  using proc_invD(11) [OF open_invD(1) [OF conjunct2 [OF assms(1) [unfolded o_inv_def]]], of p] assms(2)
  by (auto simp: pc_inv_def all_open_def split: opc.splits)

text \<open>The tables of a process: the \<open>i\<close>-th name it opened, with its address and its descriptor.\<close>

lemma all_open_tables:
  assumes i: "o_inv K sz N names k s" and o: "all_open s"
  defines "v \<equiv> sys_view K (os s)"
  shows "map fst (op_got (procs s p)) = names p" and "length (op_fds (procs s p)) = length (names p)"
    and "lowest_seq (dom (v_desc (sys_view K k) p)) (op_fds (procs s p))"
    and "j < length (names p) \<Longrightarrow> v_name v (names p ! j) \<noteq> None"
    and "j < length (names p) \<Longrightarrow> v_desc v p (op_fds (procs s p) ! j) = v_name v (names p ! j)"
    and "j < length (names p) \<Longrightarrow> v_map v p (snd (op_got (procs s p) ! j)) = v_name v (names p ! j)"
    and "v_desc (sys_view K k) p = (\<lambda>x. if x \<in> set (op_fds (procs s p)) then None else v_desc v p x)"
    and "v_map (sys_view K k) p = (\<lambda>a. if a \<in> set (map snd (op_got (procs s p))) then None else v_map v p a)"
    and "distinct (map snd (op_got (procs s p)))"
proof -
  note I = open_invD [OF conjunct2 [OF i [unfolded o_inv_def]], folded v_def]
  note J = proc_invD [OF I(1) [of p]]
  have pc: "op_pc (procs s p) = OExcl" by (rule all_open_idle [OF i o])
  have t: "op_todo (procs s p) = []" using o by (simp add: all_open_def)
  have ad: "addrs (procs s p) = map snd (op_got (procs s p))" using pc by (simp add: addrs_def)
  show n: "map fst (op_got (procs s p)) = names p" using J(1) t by simp
  have g: "length (op_got (procs s p)) = length (names p)" using arg_cong [OF n, of length] by simp
  show l: "length (op_fds (procs s p)) = length (names p)" using J(2) pc g by (simp add: has_fd_def)
  show ls: "lowest_seq (dom (v_desc (sys_view K k) p)) (op_fds (procs s p))" by (rule J(3))
  show "j < length (names p) \<Longrightarrow> v_name v (names p ! j) \<noteq> None"
    "j < length (names p) \<Longrightarrow> v_desc v p (op_fds (procs s p) ! j) = v_name v (names p ! j)"
    using J(4,5) [of j] l by simp_all
  show "j < length (names p) \<Longrightarrow> v_map v p (snd (op_got (procs s p) ! j)) = v_name v (names p ! j)"
    using J(7) [of j] ad g by simp
  show "v_desc (sys_view K k) p = (\<lambda>x. if x \<in> set (op_fds (procs s p)) then None else v_desc v p x)"
    using J(6) lowest_seq_distinct [OF ls] by (auto simp: fun_eq_iff)
  show "v_map (sys_view K k) p = (\<lambda>a. if a \<in> set (map snd (op_got (procs s p))) then None else v_map v p a)"
    using J(8,10) unfolding ad by (auto simp: fun_eq_iff)
  show "distinct (map snd (op_got (procs s p)))" using J(9) ad by simp
qed

lemma all_open_built:
  assumes i: "o_inv K sz N names k s" and o: "all_open s" and n: "n \<in> set (names p)"
  obtains ob q j where "v_name (sys_view K (os s)) n = Some ob" "ob \<in> set (built s)"
    "v_size (sys_view K (os s)) ob = Some sz" "j < length (names q)" "names q ! j = n"
    "shm s ob = \<lparr>sh_fd = op_fds (procs s q) ! j, sh_q = new_lfq N\<rparr>"
proof -
  let ?v = "sys_view K (os s)"
  note I = open_invD(2) [OF conjunct2 [OF i [unfolded o_inv_def]]]
  have n0: "v_name (sys_view K k) n = None" using i n by (auto simp: o_inv_def clean_def)
  obtain j where j: "j < length (names p)" "names p ! j = n" using n by (auto simp: in_set_conv_nth)
  obtain ob where ob: "v_name ?v n = Some ob" using all_open_tables(4) [OF i o j(1)] j(2) by auto
  have "\<not> creating n (procs s q)" for q using o by (simp add: creating_def all_open_def)
  then have b: "ob \<in> set (built s)" using objs_invD(7) [OF I n0 ob] by blast
  obtain q l where c: "v_size ?v ob = Some sz" "l < length (names q)" "v_name ?v (names q ! l) = Some ob"
    "shm s ob = \<lparr>sh_fd = op_fds (procs s q) ! l, sh_q = new_lfq N\<rparr>"
    using objs_invD(6) [OF I b] unfolding constructed_def by blast
  have "names q ! l = n" using objs_invD(3) [OF I n0 ob c(3)] .
  then show ?thesis using that [OF ob b c(1,2) _ c(4)] by blast
qed


section \<open>Closing\<close>

lemma munmap_addr:
  assumes "posix_shm K" "sys_munmap K p a sz k = (r, k')" "v_map (sys_view K k) p a = Some ob"
  shows "0 \<le> r \<and> sys_view K k' = (sys_view K k)\<lparr>v_map := upd (v_map (sys_view K k)) p a None\<rparr>"
  using assms by (fastforce simp: posix_shm_def releases_def)

lemma close_fd:
  assumes "posix_shm K" "sys_close K p fd k = (r, k')"
  shows "r = (if v_desc (sys_view K k) p fd = None then -1 else 0) \<and>
    sys_view K k' = (sys_view K k)\<lparr>v_desc := upd (v_desc (sys_view K k)) p fd None\<rparr>"
  using assms by (simp add: posix_shm_def releases_def)

lemma unlink_name:
  assumes "posix_shm K" "sys_unlink K p n k = (r, k')"
  shows "sys_view K k' = (sys_view K k)\<lparr>v_name := (v_name (sys_view K k))(n := None)\<rparr>"
  using assms by (simp add: posix_shm_def releases_def)

text \<open>How many mappings and descriptors a process has given back.\<close>

definition unmapped :: "cproc \<Rightarrow> nat" where
  "unmapped c = length (cl_ret c) + (case cl_pc c of KClose fd st \<Rightarrow> 1 | KUnlink st \<Rightarrow> 1 | _ \<Rightarrow> 0)"

definition closed :: "cproc \<Rightarrow> nat" where
  "closed c = length (cl_ret c) + (case cl_pc c of KUnlink st \<Rightarrow> 1 | _ \<Rightarrow> 0)"

definition without :: "'a list \<Rightarrow> ('a \<Rightarrow> 'b option) \<Rightarrow> 'a \<Rightarrow> 'b option" where
  "without xs f = (\<lambda>x. if x \<in> set xs then None else f x)"

lemma without_Nil [simp]: "without [] f = f"
  by (simp add: without_def)

lemma without_snoc: "(without xs f)(x := None) = without (xs @ [x]) f"
  by (auto simp: without_def)

lemma without_take: "i < length xs \<Longrightarrow> (without (take i xs) f)(xs ! i := None) = without (take (Suc i) xs) f"
  by (simp add: without_snoc take_Suc_conv_app_nth)

definition closer_inv :: "oproc \<Rightarrow> (int \<Rightarrow> nat option) \<Rightarrow> (int \<Rightarrow> nat option) \<Rightarrow> (string \<Rightarrow> nat option) \<Rightarrow>
    (int \<Rightarrow> nat option) \<Rightarrow> (int \<Rightarrow> nat option) \<Rightarrow> cproc \<Rightarrow> bool" where
  "closer_inv pr d1 m1 nm d mp c \<longleftrightarrow>
     (let j = length (cl_ret c) in
      cl_todo c = drop j (op_got pr) \<and> j \<le> length (op_got pr) \<and> set (cl_ret c) \<subseteq> {True} \<and>
      d = without (take (closed c) (op_fds pr)) d1 \<and>
      mp = without (take (unmapped c) (map snd (op_got pr))) m1 \<and>
      (\<forall>i < j. nm (fst (op_got pr ! i)) = None) \<and>
      (case cl_pc c of
         KRead \<Rightarrow> True
       | KUnmap fd \<Rightarrow> cl_todo c \<noteq> [] \<and> fd = op_fds pr ! j
       | KClose fd st \<Rightarrow> cl_todo c \<noteq> [] \<and> fd = op_fds pr ! j \<and> st
       | KUnlink st \<Rightarrow> cl_todo c \<noteq> [] \<and> st
       | KFail e \<Rightarrow> False))"

definition c_inv :: "'k posix \<Rightarrow> ('k, 'v) osys \<Rightarrow> ('k, 'v) csys \<Rightarrow> bool" where
  "c_inv K s t \<longleftrightarrow>
     (let V = sys_view K (os s); v = sys_view K (cos t) in
      cshm t = shm s \<and> v_size v = v_size V \<and>
      (\<forall>n. v_name v n = None \<or> v_name v n = v_name V n) \<and>
      (\<forall>n. (\<forall>p a. (n, a) \<notin> set (op_got (procs s p))) \<longrightarrow> v_name v n = v_name V n) \<and>
      (\<forall>p. closer_inv (procs s p) (v_desc V p) (v_map V p) (v_name v) (v_desc v p) (v_map v p) (cprocs t p)))"

lemma c_inv_start: "c_inv K s (closing s)"
  by (simp add: c_inv_def closing_def closer_inv_def closed_def unmapped_def Let_def)

text \<open>
  What closing needs of the state after opening: every address is mapped to a queue whose \<open>fd\<close> is the number of
  the process's own descriptor.
\<close>

definition same_fds :: "'k posix \<Rightarrow> nat \<Rightarrow> ('k, 'v) osys \<Rightarrow> bool" where
  "same_fds K sz s \<longleftrightarrow>
     (let V = sys_view K (os s) in
      \<forall>p. distinct (map snd (op_got (procs s p))) \<and> distinct (op_fds (procs s p)) \<and>
        length (op_fds (procs s p)) = length (op_got (procs s p)) \<and>
        (\<forall>j < length (op_got (procs s p)).
           \<exists>ob. v_map V p (snd (op_got (procs s p) ! j)) = Some ob \<and> v_size V ob = Some sz \<and>
             v_desc V p (op_fds (procs s p) ! j) \<noteq> None \<and> sh_fd (shm s ob) = op_fds (procs s p) ! j))"

lemma c_inv_goto:
  assumes i: "c_inv K s t"
    and c: "closer_inv (procs s p) (v_desc (sys_view K (os s)) p) (v_map (sys_view K (os s)) p)
      (v_name (sys_view K k)) (v_desc (sys_view K k) p) (v_map (sys_view K k) p) c"
    and v: "v_size (sys_view K k) = v_size (sys_view K (cos t))"
      "\<And>q. q \<noteq> p \<Longrightarrow> v_desc (sys_view K k) q = v_desc (sys_view K (cos t)) q \<and> v_map (sys_view K k) q = v_map (sys_view K (cos t)) q"
      "v_name (sys_view K k) = v_name (sys_view K (cos t)) \<or>
       (\<exists>n a. (n, a) \<in> set (op_got (procs s p)) \<and> v_name (sys_view K k) = (v_name (sys_view K (cos t)))(n := None))"
  shows "c_inv K s (cgoto p c (t\<lparr>cos := k\<rparr>))"
proof -
  let ?v = "sys_view K (cos t)" and ?V = "sys_view K (os s)" and ?u = "sys_view K k"
  have n: "v_name ?u n = None \<or> v_name ?u n = v_name ?v n" for n using v(3) by auto
  have n': "v_name ?u n = v_name ?v n" if "\<forall>p a. (n, a) \<notin> set (op_got (procs s p))" for n
    using v(3) that by auto
  have q: "closer_inv (procs s q) (v_desc ?V q) (v_map ?V q) (v_name ?u) (v_desc ?u q) (v_map ?u q) (cprocs t q)"
    if "q \<noteq> p" for q
  proof -
    have "closer_inv (procs s q) (v_desc ?V q) (v_map ?V q) (v_name ?v) (v_desc ?v q) (v_map ?v q) (cprocs t q)"
      using i by (simp add: c_inv_def Let_def)
    then show ?thesis using v(2) [OF that] n unfolding closer_inv_def Let_def by (metis (no_types, lifting))
  qed
  show ?thesis
    using i n n' q c v(1) unfolding c_inv_def Let_def cgoto_def by (simp; metis)
qed

lemma distinct_take_nth: "distinct xs \<Longrightarrow> i < length xs \<Longrightarrow> xs ! i \<notin> set (take i xs)"
  by (metis distinct.simps(2) distinct_append id_take_nth_drop disjoint_insert(1) list.set(2))

lemma drop_eq_Cons:
  assumes "drop j xs = y # ys"
  shows "j < length xs" and "xs ! j = y" and "drop (Suc j) xs = ys"
proof -
  show l: "j < length xs" using assms by (metis drop_eq_Nil list.distinct(1) not_le)
  show "xs ! j = y" "drop (Suc j) xs = ys" using assms Cons_nth_drop_Suc [OF l] by simp_all
qed

text \<open>What a process that has a queue to close finds: its own mapping, with the number of its own descriptor in it.\<close>

lemma closer_next:
  assumes f: "same_fds K sz s" and i: "c_inv K s t" and t: "cl_todo (cprocs t p) = (n, a) # rest"
  defines "j \<equiv> length (cl_ret (cprocs t p))"
  shows "closer_inv (procs s p) (v_desc (sys_view K (os s)) p) (v_map (sys_view K (os s)) p)
      (v_name (sys_view K (cos t))) (v_desc (sys_view K (cos t)) p) (v_map (sys_view K (cos t)) p) (cprocs t p)"
    and "j < length (op_got (procs s p))" and "op_got (procs s p) ! j = (n, a)" and "drop (Suc j) (op_got (procs s p)) = rest"
    and "length (op_fds (procs s p)) = length (op_got (procs s p))"
    and "unmapped (cprocs t p) = j \<Longrightarrow> \<exists>ob. v_map (sys_view K (cos t)) p a = Some ob \<and>
      v_size (sys_view K (cos t)) ob = Some sz \<and> sh_fd (cshm t ob) = op_fds (procs s p) ! j"
    and "closed (cprocs t p) = j \<Longrightarrow> v_desc (sys_view K (cos t)) p (op_fds (procs s p) ! j) \<noteq> None"
proof -
  let ?c = "cprocs t p" and ?v = "sys_view K (cos t)" and ?V = "sys_view K (os s)" and ?pr = "procs s p"
  show ci: "closer_inv ?pr (v_desc ?V p) (v_map ?V p) (v_name ?v) (v_desc ?v p) (v_map ?v p) ?c"
    using i by (simp add: c_inv_def Let_def)
  note C = ci [unfolded closer_inv_def Let_def, folded j_def]
  have "drop j (op_got ?pr) = (n, a) # rest" using C t by simp
  note j = drop_eq_Cons [OF this]
  show "j < length (op_got ?pr)" "op_got ?pr ! j = (n, a)" "drop (Suc j) (op_got ?pr) = rest" by (rule j)+
  obtain ob where ob: "v_map ?V p a = Some ob" "v_size ?V ob = Some sz" "v_desc ?V p (op_fds ?pr ! j) \<noteq> None"
    "sh_fd (shm s ob) = op_fds ?pr ! j"
    using f j(1,2) unfolding same_fds_def Let_def by fastforce
  have dis: "distinct (map snd (op_got ?pr))" "distinct (op_fds ?pr)"
    and l: "length (op_fds ?pr) = length (op_got ?pr)"
    using f by (simp_all add: same_fds_def Let_def)
  show "length (op_fds ?pr) = length (op_got ?pr)" by (rule l)
  have "a \<notin> set (take j (map snd (op_got ?pr)))" using distinct_take_nth [OF dis(1), of j] j by simp
  then show "unmapped ?c = j \<Longrightarrow> \<exists>ob. v_map ?v p a = Some ob \<and> v_size ?v ob = Some sz \<and> sh_fd (cshm t ob) = op_fds ?pr ! j"
    using C ob(1,2,4) i by (simp add: without_def c_inv_def Let_def)
  show "closed ?c = j \<Longrightarrow> v_desc ?v p (op_fds ?pr ! j) \<noteq> None"
    using C ob(3) distinct_take_nth [OF dis(2), of j] j(1) l by (simp add: without_def)
qed

lemma c_inv_read:
  assumes f: "same_fds K sz s" and i: "c_inv K s t" and t: "cl_todo (cprocs t p) = (n, a) # rest"
    and pc: "cl_pc (cprocs t p) = KRead"
  shows "c_inv K s (close_step K sz p t)"
proof -
  let ?c = "cprocs t p" and ?pr = "procs s p"
  note N = closer_next [OF f i t]
  obtain ob where mp: "v_map (sys_view K (cos t)) p a = Some ob" "v_size (sys_view K (cos t)) ob = Some sz"
    "sh_fd (cshm t ob) = op_fds ?pr ! length (cl_ret ?c)"
    using N(6) pc by (auto simp: unmapped_def)
  have st: "close_step K sz p t = cgoto p (?c\<lparr>cl_pc := KUnmap (op_fds ?pr ! length (cl_ret ?c))\<rparr>) (t\<lparr>cos := cos t\<rparr>)"
    using t pc mp by (simp add: close_step_def Let_def)
  show ?thesis unfolding st
    by (rule c_inv_goto [OF i])
      (use N(1,2) pc t in \<open>simp_all add: closer_inv_def closed_def unmapped_def Let_def\<close>)
qed

lemma c_inv_unmap:
  assumes K: "posix_shm K" and f: "same_fds K sz s" and i: "c_inv K s t" and t: "cl_todo (cprocs t p) = (n, a) # rest"
    and pc: "cl_pc (cprocs t p) = KUnmap fd"
  shows "c_inv K s (close_step K sz p t)"
proof -
  let ?c = "cprocs t p" and ?pr = "procs s p" and ?v = "sys_view K (cos t)" and ?j = "length (cl_ret (cprocs t p))"
  note N = closer_next [OF f i t]
  note C = N(1) [unfolded closer_inv_def Let_def]
  obtain ob where mp: "v_map ?v p a = Some ob" using N(6) pc by (auto simp: unmapped_def)
  obtain r k where e: "sys_munmap K p a sz (cos t) = (r, k)" by fastforce
  have v: "0 \<le> r" "sys_view K k = ?v\<lparr>v_map := upd (v_map ?v) p a None\<rparr>" using munmap_addr [OF K e mp] by simp_all
  have st: "close_step K sz p t = cgoto p (?c\<lparr>cl_pc := KClose fd True\<rparr>) (t\<lparr>cos := k\<rparr>)"
    using t pc e v(1) by (simp add: close_step_def)
  have "(v_map ?v p)(a := None) = without (take (Suc ?j) (map snd (op_got ?pr))) (v_map (sys_view K (os s)) p)"
    using C pc without_take [of ?j "map snd (op_got ?pr)"] N(2,3) by (simp add: unmapped_def)
  then show ?thesis unfolding st
    by (intro c_inv_goto [OF i]) (use C pc t v(2) N(2) in \<open>simp_all add: closer_inv_def closed_def unmapped_def upd_def\<close>)
qed

lemma c_inv_close:
  assumes K: "posix_shm K" and f: "same_fds K sz s" and i: "c_inv K s t" and t: "cl_todo (cprocs t p) = (n, a) # rest"
    and pc: "cl_pc (cprocs t p) = KClose fd status"
  shows "c_inv K s (close_step K sz p t)"
proof -
  let ?c = "cprocs t p" and ?pr = "procs s p" and ?v = "sys_view K (cos t)" and ?j = "length (cl_ret (cprocs t p))"
  note N = closer_next [OF f i t]
  note C = N(1) [unfolded closer_inv_def Let_def]
  have fd: "fd = op_fds ?pr ! ?j" "status" using C pc by simp_all
  have d: "v_desc ?v p fd \<noteq> None" using N(7) pc fd(1) by (simp add: closed_def)
  obtain r k where e: "sys_close K p fd (cos t) = (r, k)" by fastforce
  have v: "0 \<le> r" "sys_view K k = ?v\<lparr>v_desc := upd (v_desc ?v) p fd None\<rparr>" using close_fd [OF K e] d by simp_all
  have st: "close_step K sz p t = cgoto p (?c\<lparr>cl_pc := KUnlink True\<rparr>) (t\<lparr>cos := k\<rparr>)"
    using t pc e v(1) fd(2) by (simp add: close_step_def)
  have "(v_desc ?v p)(fd := None) = without (take (Suc ?j) (op_fds ?pr)) (v_desc (sys_view K (os s)) p)"
    using C pc without_take [of ?j "op_fds ?pr"] fd(1) N(2,5) by (simp add: closed_def)
  then show ?thesis unfolding st
    by (intro c_inv_goto [OF i]) (use C pc t v(2) N(2) in \<open>simp_all add: closer_inv_def closed_def unmapped_def upd_def\<close>)
qed

lemma c_inv_unlink:
  assumes K: "posix_shm K" and f: "same_fds K sz s" and i: "c_inv K s t" and t: "cl_todo (cprocs t p) = (n, a) # rest"
    and pc: "cl_pc (cprocs t p) = KUnlink status"
  shows "c_inv K s (close_step K sz p t)"
proof -
  let ?c = "cprocs t p" and ?pr = "procs s p" and ?v = "sys_view K (cos t)" and ?j = "length (cl_ret (cprocs t p))"
  note N = closer_next [OF f i t]
  note C = N(1) [unfolded closer_inv_def Let_def]
  obtain r k where e: "sys_unlink K p n (cos t) = (r, k)" by fastforce
  have v: "sys_view K k = ?v\<lparr>v_name := (v_name ?v)(n := None)\<rparr>" by (rule unlink_name [OF K e])
  have st: "close_step K sz p t =
      cgoto p (?c\<lparr>cl_todo := rest, cl_pc := KRead, cl_ret := cl_ret ?c @ [status]\<rparr>) (t\<lparr>cos := k\<rparr>)"
    using t pc e by (simp add: close_step_def Let_def)
  have in_got: "(n, a) \<in> set (op_got ?pr)" using N(2,3) nth_mem by metis
  have "\<forall>l < Suc ?j. ((v_name ?v)(n := None)) (fst (op_got ?pr ! l)) = None"
    using C N(3) by (auto simp: less_Suc_eq)
  then show ?thesis unfolding st
    by (intro c_inv_goto [OF i]) (use C pc N(2-4) v in_got in \<open>auto simp: closer_inv_def closed_def unmapped_def\<close>)
qed

lemma c_inv_step:
  assumes "posix_shm K" and "same_fds K sz s" and "c_inv K s t"
  shows "c_inv K s (close_step K sz p t)"
proof (cases "cl_todo (cprocs t p)")
  case Nil
  then show ?thesis using assms(3) by (simp add: close_step_def)
next
  case (Cons na rest)
  obtain n a where t: "cl_todo (cprocs t p) = (n, a) # rest" using Cons by (cases na) auto
  have "cl_pc (cprocs t p) \<noteq> KFail e" for e
    using closer_next(1) [OF assms(2,3) t] by (auto simp: closer_inv_def Let_def)
  then show ?thesis
    using c_inv_read [OF assms(2,3) t] c_inv_unmap [OF assms t] c_inv_close [OF assms t] c_inv_unlink [OF assms t]
    by (cases "cl_pc (cprocs t p)") auto
qed

lemma c_reach_inv:
  assumes "posix_shm K" and "same_fds K sz s" and "c_reach K sz s t"
  shows "c_inv K s t"
  using assms(3) unfolding c_reach_def
  by (induction rule: reach.induct) (auto simp: c_inv_start elim!: kstep.cases intro: c_inv_step [OF assms(1,2)])

section \<open>When the descriptors agree\<close>

text \<open>
  Processes that open the same names with the same numbers in use get the same descriptors: the
  number that the queue carries is right in each of them.
\<close>

lemma same_fds_all_open:
  assumes K: "posix_shm K" and r: "o_reach K sz N names k s" and o: "all_open s" and c: "clean K names k"
    and n: "\<And>p. names p = [] \<or> names p = ns" and d: "\<And>p. names p = ns \<Longrightarrow> dom (v_desc (sys_view K k) p) = D"
  shows "same_fds K sz s"
proof -
  have i: "o_inv K sz N names k s" by (rule o_reach_inv [OF K c r])
  note T = all_open_tables [OF i o]
  have g: "length (op_got (procs s p)) = length (names p)" for p using arg_cong [OF T(1), of length] by simp
  have "\<exists>ob. v_map (sys_view K (os s)) p (snd (op_got (procs s p) ! j)) = Some ob \<and> v_size (sys_view K (os s)) ob = Some sz \<and>
      v_desc (sys_view K (os s)) p (op_fds (procs s p) ! j) \<noteq> None \<and> sh_fd (shm s ob) = op_fds (procs s p) ! j"
    if j: "j < length (names p)" for p j
  proof -
    obtain ob q l where b: "v_name (sys_view K (os s)) (names p ! j) = Some ob" "v_size (sys_view K (os s)) ob = Some sz"
      "l < length (names q)" "names q ! l = names p ! j" "sh_fd (shm s ob) = op_fds (procs s q) ! l"
      using all_open_built [OF i o nth_mem [OF j]] by (metis shared.select_convs(1))
    have ns: "names p = ns" "names q = ns" using n [of p] n [of q] j b(3) by auto
    have "distinct ns" using c ns by (metis clean_def)
    then have l: "l = j" using b(3,4) j ns nth_eq_iff_index_eq by metis
    have "lowest_seq D (op_fds (procs s q))" "lowest_seq D (op_fds (procs s p))" using T(3) d ns by metis+
    then have "op_fds (procs s q) ! j = op_fds (procs s p) ! j"
      using lowest_seq_nth j T(2) ns by metis
    then show ?thesis using b(1,2,5) l T(5) [OF j] T(6) [OF j] by simp
  qed
  then show ?thesis
    using T(9) T(2) lowest_seq_distinct [OF T(3)] g by (simp add: same_fds_def Let_def)
qed

end
