(* ===== verification/Lfq_Inv.thy ===== *)
theory Lfq_Inv
  imports Lfq
begin

text \<open>
  The invariant of the bounded queue of \<open>archive/lfq/ipc_lfq.hh\<close> and its preservation by every
  access of every producer and of the consumer.
\<close>

section \<open>The invariant\<close>

fun tick :: "'v ppc \<Rightarrow> nat option" where
  "tick (PSlot v k t) = Some t"
| "tick (PLocked v k t) = Some t"
| "tick (PSwapped v k t sv) = Some t"
| "tick (PCopied v k t sv) = Some t"
| "tick _ = None"

text \<open>A producer has not yet raised the flag, or not yet copied its value, of ticket \<open>t\<close>.\<close>

fun waiting :: "nat \<Rightarrow> 'v ppc \<Rightarrow> bool" where
  "waiting t (PSlot v k t') \<longleftrightarrow> t' = t"
| "waiting t (PLocked v k t') \<longleftrightarrow> t' = t"
| "waiting t _ \<longleftrightarrow> False"

fun unfinished :: "nat \<Rightarrow> 'v ppc \<Rightarrow> bool" where
  "unfinished t (PSwapped v k t' sv) \<longleftrightarrow> t' = t"
| "unfinished t p \<longleftrightarrow> waiting t p"

text \<open>A producer, or the consumer, holds the lock of node \<open>k\<close>, of the node at the tail.\<close>

fun crit :: "nat \<Rightarrow> 'v ppc \<Rightarrow> bool" where
  "crit k (PLocked v k' t) \<longleftrightarrow> k' = k"
| "crit k (PSwapped v k' t sv) \<longleftrightarrow> k' = k"
| "crit k (PCopied v k' t sv) \<longleftrightarrow> k' = k"
| "crit k _ \<longleftrightarrow> False"

fun ccrit :: "'v cpc \<Rightarrow> bool" where
  "ccrit CLocked \<longleftrightarrow> True"
| "ccrit CFull \<longleftrightarrow> True"
| "ccrit (CCopied r) \<longleftrightarrow> True"
| "ccrit (CUnlock ret r) \<longleftrightarrow> True"
| "ccrit _ \<longleftrightarrow> False"

text \<open>The consumer has emptied the node at the tail but not given its place back.\<close>

fun ctook :: "'v cpc \<Rightarrow> bool" where
  "ctook (CUnlock ret r) \<longleftrightarrow> ret"
| "ctook (CAdvance r) \<longleftrightarrow> True"
| "ctook (CDecr r) \<longleftrightarrow> True"
| "ctook _ \<longleftrightarrow> False"

definition some_p :: "('v ppc \<Rightarrow> bool) \<Rightarrow> 'v ppc list \<Rightarrow> bool" where
  "some_p P ps \<longleftrightarrow> (\<exists>i < length ps. P (ps ! i))"

fun adm :: "'v ppc \<Rightarrow> nat" where
  "adm (PAdmitted v) = 1"
| "adm _ = 0"

fun full :: "'v ppc \<Rightarrow> nat" where
  "full PFull = 1"
| "full _ = 0"

definition admitted :: "'v ppc list \<Rightarrow> nat" where
  "admitted ps = sum_list (map adm ps)"

definition refused :: "'v ppc list \<Rightarrow> nat" where
  "refused ps = sum_list (map full ps)"

text \<open>Tickets below \<open>taken s\<close> have been consumed.\<close>

definition taken :: "'v lsys \<Rightarrow> nat" where
  "taken s = length (returned s) + (if ctook (cc s) then 1 else 0)"

definition pc_wf :: "nat \<Rightarrow> nat \<Rightarrow> 'v list \<Rightarrow> 'v ppc \<Rightarrow> bool" where
  "pc_wf N d is p =
     (case p of
        PSlot v k t \<Rightarrow> d \<le> t \<and> t < length is \<and> k = t mod N \<and> is ! t = v
      | PLocked v k t \<Rightarrow> d \<le> t \<and> t < length is \<and> k = t mod N \<and> is ! t = v
      | PSwapped v k t sv \<Rightarrow> d \<le> t \<and> t < length is \<and> k = t mod N \<and> is ! t = v \<and> \<not> sv
      | PCopied v k t sv \<Rightarrow> d \<le> t \<and> t < length is \<and> k = t mod N \<and> is ! t = v \<and> \<not> sv
      | PFailed \<Rightarrow> False
      | _ \<Rightarrow> True)"

definition tickets :: "nat \<Rightarrow> nat \<Rightarrow> 'v list \<Rightarrow> 'v ppc list \<Rightarrow> bool" where
  "tickets N d is ps \<longleftrightarrow>
     (\<forall>i < length ps. pc_wf N d is (ps ! i)) \<and>
     (\<forall>i < length ps. \<forall>j < length ps. tick (ps ! i) \<noteq> None \<longrightarrow> tick (ps ! i) = tick (ps ! j) \<longrightarrow> i = j)"

definition slots :: "nat \<Rightarrow> nat \<Rightarrow> 'v list \<Rightarrow> 'v ppc list \<Rightarrow> 'v node list \<Rightarrow> bool" where
  "slots N d is ps nds \<longleftrightarrow>
     (\<forall>t. d \<le> t \<longrightarrow> t < length is \<longrightarrow>
        (has_value (nds ! (t mod N)) \<longleftrightarrow> \<not> some_p (waiting t) ps) \<and>
        (\<not> some_p (unfinished t) ps \<longrightarrow> nd_value (nds ! (t mod N)) = Some (is ! t))) \<and>
     (\<forall>k < N. (\<forall>t. d \<le> t \<longrightarrow> t < length is \<longrightarrow> t mod N \<noteq> k) \<longrightarrow> \<not> has_value (nds ! k))"

definition locks :: "nat \<Rightarrow> nat \<Rightarrow> 'v ppc list \<Rightarrow> 'v cpc \<Rightarrow> 'v node list \<Rightarrow> bool" where
  "locks N c ps con nds \<longleftrightarrow>
     (\<forall>k < N. nd_lock (nds ! k) \<longleftrightarrow> some_p (crit k) ps \<or> (ccrit con \<and> k = c mod N)) \<and>
     (ccrit con \<longrightarrow> \<not> some_p (crit (c mod N)) ps)"

text \<open>What the consumer knows inside a call, when \<open>c\<close> values have been returned.\<close>

fun con_ok :: "nat \<Rightarrow> nat \<Rightarrow> 'v list \<Rightarrow> 'v node list \<Rightarrow> 'v cpc \<Rightarrow> bool" where
  "con_ok N c is nds CFull \<longleftrightarrow> has_value (nds ! (c mod N))"
| "con_ok N c is nds (CCopied r) \<longleftrightarrow>
     has_value (nds ! (c mod N)) \<and> c < length is \<and> r = Some (is ! c)"
| "con_ok N c is nds (CUnlock ret r) \<longleftrightarrow> (ret \<longrightarrow> r = Some (is ! c))"
| "con_ok N c is nds (CAdvance r) \<longleftrightarrow> r = Some (is ! c)"
| "con_ok N c is nds (CDecr r) \<longleftrightarrow> r = Some (is ! c)"
| "con_ok N c is nds CFailed \<longleftrightarrow> False"
| "con_ok N c is nds _ \<longleftrightarrow> True"

fun tailpos :: "nat \<Rightarrow> 'v cpc \<Rightarrow> nat" where
  "tailpos c (CDecr r) = Suc c"
| "tailpos c _ = c"

definition in_order :: "'v option list \<Rightarrow> 'v list \<Rightarrow> bool" where
  "in_order os is \<longleftrightarrow> os = map Some (take (length os) is)"

definition counters :: "nat \<Rightarrow> 'v lsys \<Rightarrow> bool" where
  "counters N s =
     (let n = length (issued s); c = length (returned s) in
      lf_head (lq s) = of_nat n \<and>
      lf_count (lq s) = of_nat (n - c + admitted (pp s) + refused (pp s)) \<and>
      n - c + admitted (pp s) \<le> N \<and> taken s \<le> n \<and>
      unat (lf_tail (lq s)) = tailpos c (cc s) mod N \<and>
      in_order (returned s) (issued s))"

definition linv :: "nat \<Rightarrow> nat \<Rightarrow> 'v lsys \<Rightarrow> bool" where
  "linv N np s \<longleftrightarrow>
     length (lf_data (lq s)) = N \<and> length (pp s) = np \<and> counters N s \<and>
     con_ok N (length (returned s)) (issued s) (lf_data (lq s)) (cc s) \<and>
     tickets N (taken s) (issued s) (pp s) \<and>
     slots N (taken s) (issued s) (pp s) (lf_data (lq s)) \<and>
     locks N (length (returned s)) (pp s) (cc s) (lf_data (lq s))"

text \<open>
  The sizes for which the counters may wrap around: the number of nodes divides \<open>2 ^ 64\<close>, so
  the head's wrap-around keeps the order of the nodes, and no count reaches \<open>2 ^ 64\<close>.
\<close>

definition size_ok :: "nat \<Rightarrow> nat \<Rightarrow> bool" where
  "size_ok N np \<longleftrightarrow> N dvd 2 ^ 64 \<and> N + np < 2 ^ 64"

lemma size_ok_pos: "size_ok N np \<Longrightarrow> 0 < N"
  by (auto simp: size_ok_def intro!: Nat.gr0I)

section \<open>Producers one at a time\<close>

lemma some_p_update:
  assumes "i < length ps"
  shows "some_p P (ps[i := p]) \<longleftrightarrow> P p \<or> (\<exists>j < length ps. j \<noteq> i \<and> P (ps ! j))"
  using assms by (auto simp: some_p_def nth_list_update)

lemma some_p_split:
  assumes "i < length ps"
  shows "some_p P ps \<longleftrightarrow> P (ps ! i) \<or> (\<exists>j < length ps. j \<noteq> i \<and> P (ps ! j))"
  using some_p_update [OF assms, of P "ps ! i"] by simp

lemma some_p_same:
  assumes "i < length ps" and "P p = P (ps ! i)"
  shows "some_p P (ps[i := p]) \<longleftrightarrow> some_p P ps"
  unfolding some_p_update [OF assms(1)] some_p_split [OF assms(1)] using assms(2) by simp

lemma waiting_tick: "waiting t p \<Longrightarrow> tick p = Some t"
  by (cases p) auto

lemma unfinished_tick: "unfinished t p \<Longrightarrow> tick p = Some t"
  by (cases p) auto

lemma waiting_unfinished: "waiting t p \<Longrightarrow> unfinished t p"
  by (cases p) auto

lemma crit_slot: "crit k p \<Longrightarrow> pc_wf N d is p \<Longrightarrow> \<exists>t. tick p = Some t \<and> k = t mod N"
  by (cases p) (auto simp: pc_wf_def)

lemma tick_range: "tick p = Some t \<Longrightarrow> pc_wf N d is p \<Longrightarrow> d \<le> t \<and> t < length is"
  by (cases p) (auto simp: pc_wf_def)

text \<open>Live tickets lie in a window of \<open>N\<close>, so they name different nodes.\<close>

lemma window_inj:
  assumes "d \<le> t" "t < n" "d \<le> t'" "t' < n" "n \<le> d + N" "t mod N = t' mod (N::nat)"
  shows "t = t'"
proof -
  have *: "x = y" if "x \<le> y" "y < x + N" "x mod N = y mod N" for x y :: nat
  proof -
    have "N dvd y - x" using that mod_eq_dvd_iff_nat [of x y N] by simp
    moreover have "y - x < N" using that by linarith
    ultimately have "\<not> 0 < y - x" by (metis nat_dvd_not_less)
    with that(1) show ?thesis by simp
  qed
  have "t' < t + N" "t < t' + N" using assms(1-5) by linarith+
  then show ?thesis using * [of t t'] * [of t' t] assms(6) by (metis nat_le_linear)
qed

lemma tickets_inj:
  assumes "tickets N d is ps" and "i < length ps" and "j < length ps"
    and "tick (ps ! i) = Some t" and "tick (ps ! j) = Some t"
  shows "i = j"
  using assms by (auto simp: tickets_def)

lemma tickets_wf: "tickets N d is ps \<Longrightarrow> i < length ps \<Longrightarrow> pc_wf N d is (ps ! i)"
  by (simp add: tickets_def)

text \<open>A producer that moves on keeps its ticket or gives it up.\<close>

lemma tickets_step:
  assumes "tickets N d is ps" and "i < length ps" and "tick p = tick (ps ! i) \<or> tick p = None"
    and "pc_wf N d is p"
  shows "tickets N d is (ps[i := p])"
proof -
  have "tick (ps[i := p] ! j) = None \<or> tick (ps[i := p] ! j) = tick (ps ! j)" for j
    using assms(2,3) by (cases "j = i") auto
  moreover have "pc_wf N d is (ps[i := p] ! j)" if "j < length ps" for j
    using assms(1,2,4) that by (cases "j = i") (auto simp: tickets_def)
  ultimately show ?thesis using assms(1)
    unfolding tickets_def by (metis length_list_update)
qed

lemma slots_step:
  assumes s: "slots N d is ps nds" and tk: "tickets N d is ps" and i: "i < length ps"
    and t: "tick (ps ! i) = Some t" and p: "tick p = Some t \<or> tick p = None"
    and w: "length is \<le> d + N" and N: "0 < N" and l: "length nds = N"
    and hv: "has_value nd \<longleftrightarrow> \<not> waiting t p"
    and vl: "\<not> unfinished t p \<longrightarrow> nd_value nd = Some (is ! t)"
  shows "slots N d is (ps[i := p]) (nds[t mod N := nd])"
proof -
  have r: "d \<le> t" "t < length is" using tick_range [OF t tickets_wf [OF tk i]] by auto
  have k: "t mod N < length nds" using l N by simp
  have alone: "\<not> (\<exists>j < length ps. j \<noteq> i \<and> tick (ps ! j) = Some t)"
    using tickets_inj [OF tk i _ t] by blast
  have here: "some_p (waiting t) (ps[i := p]) \<longleftrightarrow> waiting t p"
    "some_p (unfinished t) (ps[i := p]) \<longleftrightarrow> unfinished t p"
    using alone by (auto simp: some_p_update [OF i] dest: waiting_tick unfinished_tick)
  have there: "some_p (waiting t') (ps[i := p]) \<longleftrightarrow> some_p (waiting t') ps"
    "some_p (unfinished t') (ps[i := p]) \<longleftrightarrow> some_p (unfinished t') ps" if "t' \<noteq> t" for t'
    using that p t by (intro some_p_same [OF i]; auto dest: waiting_tick unfinished_tick)+
  have node: "nds[t mod N := nd] ! (t' mod N) = nds ! (t' mod N)"
    if "d \<le> t'" "t' < length is" "t' \<noteq> t" for t'
    using window_inj [OF that(1,2) r w] that(3) by (metis nth_list_update_neq)
  have free: "nds[t mod N := nd] ! m = nds ! m"
    if "\<forall>t'. d \<le> t' \<longrightarrow> t' < length is \<longrightarrow> t' mod N \<noteq> m" for m
    using that r by auto
  show ?thesis
    unfolding slots_def
  proof (intro conjI allI impI)
    fix t' assume a: "d \<le> t'" "t' < length is"
    show "has_value (nds[t mod N := nd] ! (t' mod N)) \<longleftrightarrow> \<not> some_p (waiting t') (ps[i := p])"
      using s a here there node k hv by (cases "t' = t") (auto simp: slots_def)
    assume "\<not> some_p (unfinished t') (ps[i := p])"
    then show "nd_value (nds[t mod N := nd] ! (t' mod N)) = Some (is ! t')"
      using s a here there node k vl by (cases "t' = t") (auto simp: slots_def)
  next
    fix m assume "m < N" "\<forall>t'. d \<le> t' \<longrightarrow> t' < length is \<longrightarrow> t' mod N \<noteq> m"
    then show "\<not> has_value (nds[t mod N := nd] ! m)"
      using s free by (simp add: slots_def)
  qed
qed

lemma slots_lock_only:
  assumes "\<And>k. has_value (nds' ! k) = has_value (nds ! k)"
    and "\<And>k. nd_value (nds' ! k) = nd_value (nds ! k)"
  shows "slots N d is ps nds' \<longleftrightarrow> slots N d is ps nds"
  by (simp add: slots_def assms)

lemma slots_same_tick:
  assumes "i < length ps" and "tick (ps ! i) = None" and "tick p = None"
  shows "slots N d is (ps[i := p]) nds \<longleftrightarrow> slots N d is ps nds"
proof -
  have "some_p (waiting t) (ps[i := p]) = some_p (waiting t) ps"
    "some_p (unfinished t) (ps[i := p]) = some_p (unfinished t) ps" for t
    using assms by (intro some_p_same; auto dest: waiting_tick unfinished_tick)+
  then show ?thesis by (simp add: slots_def)
qed

text \<open>A producer's step on its node: nobody else holds that node's lock but perhaps the consumer.\<close>

lemma locks_producer:
  assumes lk: "locks N c ps con nds" and tk: "tickets N d is ps" and i: "i < length ps"
    and t: "tick (ps ! i) = Some t" and w: "length is \<le> d + N" and N: "0 < N" "length nds = N"
    and p: "\<And>m. crit m p \<Longrightarrow> m = t mod N"
    and nd: "nd_lock nd \<longleftrightarrow> crit (t mod N) p \<or> (ccrit con \<and> t mod N = c mod N)"
    and ex: "crit (t mod N) p \<Longrightarrow> \<not> (ccrit con \<and> t mod N = c mod N)"
  shows "locks N c (ps[i := p]) con (nds[t mod N := nd])"
proof -
  have r: "d \<le> t" "t < length is" using tick_range [OF t tickets_wf [OF tk i]] by auto
  have alone: "\<not> crit (t mod N) (ps ! j)" if "j < length ps" "j \<noteq> i" for j
  proof
    assume c: "crit (t mod N) (ps ! j)"
    note wf = tickets_wf [OF tk that(1)]
    from crit_slot [OF c wf] obtain t' where t': "tick (ps ! j) = Some t'" "t mod N = t' mod N"
      by blast
    have "t = t'"
      using window_inj [OF r _ _ w t'(2)] tick_range [OF t'(1) wf] by blast
    with tickets_inj [OF tk i \<open>j < length ps\<close> t] t' \<open>j \<noteq> i\<close> show False by simp
  qed
  have "crit m (ps ! i) \<Longrightarrow> m = t mod N" for m
    using crit_slot [of m "ps ! i"] tickets_wf [OF tk i] t by fastforce
  then have "some_p (crit m) (ps[i := p]) \<longleftrightarrow>
      (if m = t mod N then crit m p else some_p (crit m) ps)" for m
    using alone p by (auto simp: some_p_update [OF i] some_p_split [OF i])
  then show ?thesis using lk nd ex N
    unfolding locks_def by (auto simp: nth_list_update)
qed

lemma locks_other:
  assumes "locks N c ps con nds" and "i < length ps"
    and "\<And>m. \<not> crit m (ps ! i)" and "\<And>m. \<not> crit m p"
  shows "locks N c (ps[i := p]) con nds"
proof -
  have "some_p (crit m) (ps[i := p]) = some_p (crit m) ps" for m
    using assms(2-4) by (intro some_p_same) auto
  then show ?thesis using assms(1) by (simp add: locks_def)
qed

lemma locks_consumer:
  assumes "locks N c ps con nds" and "0 < N" and "length nds = N"
    and "nd_lock nd \<longleftrightarrow> ccrit con' \<or> some_p (crit (c mod N)) ps"
    and "ccrit con' \<longrightarrow> \<not> some_p (crit (c mod N)) ps"
  shows "locks N c ps con' (nds[c mod N := nd])"
  using assms by (auto simp: locks_def nth_list_update)

section \<open>The counters\<close>

lemma admitted_update:
  "i < length ps \<Longrightarrow> admitted (ps[i := p]) + adm (ps ! i) = admitted ps + adm p"
  by (simp add: admitted_def sum_list_map_update)

lemma refused_update:
  "i < length ps \<Longrightarrow> refused (ps[i := p]) + full (ps ! i) = refused ps + full p"
  by (simp add: refused_def sum_list_map_update)

lemma sum_bound: "sum_list (map (\<lambda>p. adm p + full p) ps) \<le> length ps"
proof (induction ps)
  case (Cons p ps)
  have "adm p + full p \<le> 1" by (cases p) auto
  with Cons show ?case by simp
qed simp

lemma refused_bound: "refused ps \<le> length ps"
proof -
  have "refused ps \<le> sum_list (map (\<lambda>p. adm p + full p) ps)"
    unfolding refused_def by (intro sum_list_mono) simp
  with sum_bound [of ps] show ?thesis by simp
qed

lemma unat_of_nat64: "n < 2 ^ 64 \<Longrightarrow> unat (of_nat n :: u64) = n"
  by (simp add: unat_of_nat)

text \<open>The count is exact: it never wraps around.\<close>

lemma counters_count:
  assumes "counters N s" and "size_ok N (length (pp s))"
  shows "unat (lf_count (lq s))
       = length (issued s) - length (returned s) + admitted (pp s) + refused (pp s)"
proof -
  let ?x = "length (issued s) - length (returned s) + admitted (pp s) + refused (pp s)"
  have "?x < 2 ^ 64"
    using assms refused_bound [of "pp s"] by (auto simp: counters_def size_ok_def Let_def)
  moreover have "lf_count (lq s) = of_nat ?x"
    using assms(1) by (simp only: counters_def Let_def)
  ultimately show ?thesis by (simp only: unat_of_nat64)
qed

text \<open>The head's wrap-around does not disturb the order of the nodes.\<close>

lemma head_slot:
  assumes "size_ok N np" and "lf_head q = of_nat n"
  shows "unat (lf_head q) mod N = n mod N"
proof -
  have "unat (lf_head q) = n mod 2 ^ 64" using assms(2) by (simp add: unat_of_nat)
  then show ?thesis using assms(1) by (simp add: size_ok_def mod_mod_cancel)
qed

lemma window:
  "counters N s \<Longrightarrow> length (issued s) \<le> taken s + N \<and> taken s \<le> length (issued s)"
  by (auto simp: counters_def Let_def taken_def)

lemma counters_same:
  assumes "counters N s" and "issued t = issued s" and "returned t = returned s" and "cc t = cc s"
    and "lf_head (lq t) = lf_head (lq s)" and "lf_count (lq t) = lf_count (lq s)"
    and "lf_tail (lq t) = lf_tail (lq s)"
    and "admitted (pp t) = admitted (pp s)" and "refused (pp t) = refused (pp s)"
  shows "counters N t"
  using assms by (simp only: counters_def taken_def)

section \<open>Every access keeps the invariant\<close>

lemma linv_parts:
  assumes "linv N np s"
  shows "length (lf_data (lq s)) = N" "length (pp s) = np" "counters N s"
    "con_ok N (length (returned s)) (issued s) (lf_data (lq s)) (cc s)"
    "tickets N (taken s) (issued s) (pp s)"
    "slots N (taken s) (issued s) (pp s) (lf_data (lq s))"
    "locks N (length (returned s)) (pp s) (cc s) (lf_data (lq s))"
  using assms by (simp_all add: linv_def)

lemma linv_enq_start:
  assumes inv: "linv N np s" and sz: "size_ok N np" and i: "i < np" "pp s ! i = PIdle"
  shows "linv N np (enq_start i v s)"
proof -
  note P = linv_parts [OF inv]
  define p where "p = (if N \<le> unat (lf_count (lq s)) then PFull else PAdmitted v)"
  have t: "enq_start i v s = pgoto i p (s\<lparr>lq := (lq s)\<lparr>lf_count := lf_count (lq s) + 1\<rparr>\<rparr>)"
    by (simp add: enq_start_def p_def capacity_def P(1) Let_def)
  have c: "unat (lf_count (lq s))
      = length (issued s) - length (returned s) + admitted (pp s) + refused (pp s)"
    using counters_count [OF P(3)] sz P(2) by simp
  have len: "i < length (pp s)" using i P(2) by simp
  have p: "tick p = None" "\<And>m. \<not> crit m p" "pc_wf N (taken s) (issued s) p"
    by (simp_all add: p_def pc_wf_def)
  have a: "admitted ((pp s)[i := p]) = admitted (pp s) + adm p"
    "refused ((pp s)[i := p]) = refused (pp s) + full p" "adm p + full p = 1"
    using admitted_update [OF len, of p] refused_update [OF len, of p] i(2)
    by (simp_all add: p_def)
  have b: "length (issued s) - length (returned s) + admitted (pp s) + adm p \<le> N"
    using P(3) c by (simp add: p_def counters_def Let_def)
  have "lf_count (lq s) + 1 = of_nat (length (issued s) - length (returned s)
      + admitted ((pp s)[i := p]) + refused ((pp s)[i := p]))"
    using P(3) a by (simp add: counters_def Let_def ac_simps flip: of_nat_add)
      (metis (no_types, lifting) a(3) add.assoc add.commute of_nat_1 of_nat_add)
  then have "counters N (enq_start i v s)"
    using P(3) a(1) b by (simp add: t counters_def pgoto_def taken_def Let_def)
  moreover have "tickets N (taken s) (issued s) ((pp s)[i := p])"
    using p by (intro tickets_step [OF P(5) len]) auto
  moreover have "slots N (taken s) (issued s) ((pp s)[i := p]) (lf_data (lq s))"
    using slots_same_tick [OF len] i(2) p(1) P(6) by simp
  moreover have "locks N (length (returned s)) ((pp s)[i := p]) (cc s) (lf_data (lq s))"
    using i(2) p(2) by (intro locks_other [OF P(7) len]) auto
  ultimately show ?thesis using P(1,2,4)
    by (simp add: linv_def t pgoto_def taken_def)
qed

text \<open>The accesses of a producer to the node of its ticket \<open>t\<close>, in one lemma.\<close>

lemma linv_node_step:
  assumes inv: "linv N np s" and sz: "size_ok N np" and i: "i < np"
    and t: "tick (pp s ! i) = Some t" and p: "tick p = Some t \<or> p = PIdle"
    and wf: "pc_wf N (taken s) (issued s) p"
    and old: "old = lf_data (lq s) ! (t mod N)"
    and hv: "has_value nd \<longleftrightarrow> \<not> waiting t p" "has_value old \<longrightarrow> has_value nd"
    and vl: "\<not> unfinished t p \<longrightarrow> nd_value nd = Some (issued s ! t)"
    and cr: "\<And>m. crit m p \<Longrightarrow> m = t mod N"
    and lk: "crit (t mod N) p \<longrightarrow> nd_lock nd \<and> (crit (t mod N) (pp s ! i) \<or> \<not> nd_lock old)"
    and ul: "\<not> crit (t mod N) p \<longrightarrow> crit (t mod N) (pp s ! i) \<and> \<not> nd_lock nd"
  shows "linv N np (pgoto i p (s\<lparr>lq := set_node (t mod N) nd (lq s)\<rparr>))"
proof -
  note P = linv_parts [OF inv] and w = window [OF linv_parts(3) [OF inv]]
  have N: "0 < N" using sz by (rule size_ok_pos)
  have len: "i < length (pp s)" using i P(2) by simp
  have z: "adm p = 0" "full p = 0" "adm (pp s ! i) = 0" "full (pp s ! i) = 0"
    using p t by (cases p; cases "pp s ! i"; simp)+
  have q: "tick p = Some t \<or> tick p = None" using p by auto
  let ?c = "length (returned s)"
  have mine: "\<not> (ccrit (cc s) \<and> t mod N = ?c mod N)"
    if "crit (t mod N) (pp s ! i) \<or> \<not> nd_lock old"
    using that P(7) N len old unfolding locks_def some_p_def by (metis mod_less_divisor)
  have "tickets N (taken s) (issued s) ((pp s)[i := p])"
    using q t wf by (intro tickets_step [OF P(5) len]) auto
  moreover have "slots N (taken s) (issued s) ((pp s)[i := p]) ((lf_data (lq s))[t mod N := nd])"
    by (rule slots_step [OF P(6,5) len t q conjunct1 [OF w] N P(1) hv(1) vl])
  moreover have "locks N ?c ((pp s)[i := p]) (cc s) ((lf_data (lq s))[t mod N := nd])"
    using lk ul mine by (intro locks_producer [OF P(7,5) len t conjunct1 [OF w] N P(1) cr]) auto
  moreover have "con_ok N ?c (issued s) ((lf_data (lq s))[t mod N := nd]) (cc s)"
    using P(1,4) hv(2) old N by (cases "cc s") (auto simp: nth_list_update)
  moreover have "counters N (pgoto i p (s\<lparr>lq := set_node (t mod N) nd (lq s)\<rparr>))"
    using admitted_update [OF len, of p] refused_update [OF len, of p] z
    by (intro counters_same [OF P(3)]) (auto simp: pgoto_def set_node_def)
  ultimately show ?thesis using P(1,2)
    by (simp add: linv_def pgoto_def set_node_def taken_def)
qed

end
