(* ===== verification/Lfq_Steps.thy ===== *)
theory Lfq_Steps
  imports Lfq_Inv
begin

text \<open>
  Every access of every producer and of the consumer keeps the invariant of the bounded queue.
\<close>

section \<open>The producers' accesses\<close>

lemma pc_wf_issue: "pc_wf N d is p \<Longrightarrow> pc_wf N d (is @ [v]) p"
  by (cases p) (auto simp: pc_wf_def nth_append)

lemma in_order_issue:
  assumes "in_order os is" and "length os \<le> length is"
  shows "in_order os (is @ [v])"
  using assms by (simp add: in_order_def)

lemma con_ok_issue:
  assumes "con_ok N c is nds con" and "ctook con \<longrightarrow> c < length is"
  shows "con_ok N c (is @ [v]) nds con"
  using assms by (cases con) (auto simp: nth_append)

lemma tickets_issue:
  assumes tk: "tickets N d is ps" and i: "i < length ps" "tick (ps ! i) = None"
    and d: "d \<le> length is"
  shows "tickets N d (is @ [v]) (ps[i := PSlot v (length is mod N) (length is)])"
proof -
  let ?p = "PSlot v (length is mod N) (length is)"
  have new: "tick (ps ! j) \<noteq> Some (length is)" if "j < length ps" for j
    using tick_range [OF _ tickets_wf [OF tk that]] by blast
  have "pc_wf N d (is @ [v]) (ps[i := ?p] ! j)" if "j < length ps" for j
    using that d pc_wf_issue [OF tickets_wf [OF tk that]]
    by (cases "j = i") (auto simp: pc_wf_def i(1))
  moreover have "j = m" if "j < length ps" "m < length ps" "tick (ps[i := ?p] ! j) \<noteq> None"
      "tick (ps[i := ?p] ! j) = tick (ps[i := ?p] ! m)" for j m
    using that i new [of j] new [of m] tickets_inj [OF tk, of j m]
    by (cases "j = i"; cases "m = i") auto
  ultimately show ?thesis by (auto simp: tickets_def)
qed

lemma slots_issue:
  assumes s: "slots N d is ps nds" and tk: "tickets N d is ps" and i: "i < length ps"
    and none: "tick (ps ! i) = None" and w: "length is < d + N" and d: "d \<le> length is"
    and N: "0 < N"
  shows "slots N d (is @ [v]) (ps[i := PSlot v k (length is)]) nds"
proof -
  let ?p = "PSlot v k (length is)" and ?n = "length is"
  have free: "\<not> has_value (nds ! (?n mod N))"
  proof -
    have "t mod N \<noteq> ?n mod N" if "d \<le> t" "t < ?n" for t
      using window_inj [of d t "Suc ?n" ?n N] that d w by auto
    then show ?thesis using s N by (simp add: slots_def)
  qed
  have own: "some_p (waiting ?n) (ps[i := ?p])" "some_p (unfinished ?n) (ps[i := ?p])"
    by (simp_all add: some_p_update [OF i])
  have old: "some_p (waiting t) (ps[i := ?p]) = some_p (waiting t) ps"
    "some_p (unfinished t) (ps[i := ?p]) = some_p (unfinished t) ps" if "t < ?n" for t
    using that none by (intro some_p_same [OF i]; auto dest: waiting_tick unfinished_tick)+
  show ?thesis
    unfolding slots_def
  proof (intro conjI allI impI)
    fix t assume a: "d \<le> t" "t < length (is @ [v])"
    show "has_value (nds ! (t mod N)) \<longleftrightarrow> \<not> some_p (waiting t) (ps[i := ?p])"
      using s a own free old by (cases "t = ?n") (auto simp: slots_def)
    assume "\<not> some_p (unfinished t) (ps[i := ?p])"
    then show "nd_value (nds ! (t mod N)) = Some ((is @ [v]) ! t)"
      using s a own old by (cases "t = ?n") (auto simp: slots_def nth_append)
  next
    fix m assume "m < N" "\<forall>t. d \<le> t \<longrightarrow> t < length (is @ [v]) \<longrightarrow> t mod N \<noteq> m"
    then show "\<not> has_value (nds ! m)" using s by (simp add: slots_def)
  qed
qed

lemma countersD:
  assumes "counters N s"
  shows "lf_head (lq s) = of_nat (length (issued s))"
    "lf_count (lq s)
     = of_nat (length (issued s) - length (returned s) + admitted (pp s) + refused (pp s))"
    "length (issued s) - length (returned s) + admitted (pp s) \<le> N"
    "taken s \<le> length (issued s)"
    "unat (lf_tail (lq s)) = tailpos (length (returned s)) (cc s) mod N"
    "in_order (returned s) (issued s)"
    "length (returned s) \<le> length (issued s)"
  using assms by (simp_all only: counters_def Let_def taken_def) auto

lemma ctook_bound: "counters N s \<Longrightarrow> ctook (cc s) \<longrightarrow> length (returned s) < length (issued s)"
  using countersD(4) [of N s] by (auto simp: taken_def)

lemma linv_issue:
  assumes inv: "linv N np s" and sz: "size_ok N np" and i: "i < np" "pp s ! i = PAdmitted v"
  shows "linv N np (enq_step i s)"
proof -
  note P = linv_parts [OF inv] and w = window [OF linv_parts(3) [OF inv]]
  have N: "0 < N" using sz by (rule size_ok_pos)
  have len: "i < length (pp s)" using i P(2) by simp
  let ?n = "length (issued s)" and ?c = "length (returned s)"
  define p where "p = PSlot v (?n mod N) ?n"
  define t where "t = pgoto i p (s\<lparr>lq := (lq s)\<lparr>lf_head := lf_head (lq s) + 1\<rparr>,
    issued := issued s @ [v]\<rparr>)"
  have h: "lf_head (lq s) = of_nat ?n" using P(3) by (simp add: counters_def Let_def)
  have t: "enq_step i s = t"
    using i(2) P(1) head_slot [OF sz h] by (simp add: enq_step_def t_def p_def capacity_def Let_def)
  have a: "Suc (admitted ((pp s)[i := p])) = admitted (pp s)"
    "refused ((pp s)[i := p]) = refused (pp s)"
    using admitted_update [OF len, of p] refused_update [OF len, of p] i(2) by (simp_all add: p_def)
  have c: "?c \<le> ?n" "?n - ?c + admitted (pp s) \<le> N"
    "lf_count (lq s) = of_nat (?n - ?c + admitted (pp s) + refused (pp s))"
    using countersD [OF P(3)] by simp_all
  have room: "?n < taken s + N"
    using c a(1) by (simp add: taken_def)
  have sum: "Suc ?n - ?c + admitted ((pp s)[i := p]) = ?n - ?c + admitted (pp s)"
    using a(1) c(1) by linarith
  have "counters N t"
    using P(3) c h sum a(2) in_order_issue [of "returned s" "issued s" v]
    unfolding counters_def Let_def
    by (simp add: t_def pgoto_def taken_def del: of_nat_add)
  moreover have "tickets N (taken s) (issued s @ [v]) ((pp s)[i := p])"
    unfolding p_def using w i(2) by (intro tickets_issue [OF P(5) len]) auto
  moreover have "slots N (taken s) (issued s @ [v]) ((pp s)[i := p]) (lf_data (lq s))"
    unfolding p_def using w i(2) room N by (intro slots_issue [OF P(6,5) len]) auto
  moreover have "locks N ?c ((pp s)[i := p]) (cc s) (lf_data (lq s))"
    using i(2) by (intro locks_other [OF P(7) len]) (simp_all add: p_def)
  moreover have "con_ok N ?c (issued s @ [v]) (lf_data (lq s)) (cc s)"
    by (rule con_ok_issue [OF P(4) ctook_bound [OF P(3)]])
  ultimately show ?thesis using P(1,2)
    by (simp add: linv_def t t_def pgoto_def taken_def)
qed

lemma linv_take_back:
  assumes inv: "linv N np s" and i: "i < np" "pp s ! i = PFull"
  shows "linv N np (enq_step i s)"
proof -
  note P = linv_parts [OF inv]
  have len: "i < length (pp s)" using i P(2) by simp
  let ?t = "pgoto i PIdle (s\<lparr>lq := (lq s)\<lparr>lf_count := lf_count (lq s) - 1\<rparr>\<rparr>)"
  let ?ps = "(pp s)[i := PIdle]"
  have t: "enq_step i s = ?t" using i(2) by (simp add: enq_step_def Let_def)
  have a: "admitted ?ps = admitted (pp s)" "Suc (refused ?ps) = refused (pp s)"
    using admitted_update [OF len, of PIdle] refused_update [OF len, of PIdle] i(2) by simp_all
  have c: "lf_count (lq s) = of_nat (length (issued s) - length (returned s)
      + admitted (pp s) + refused (pp s))"
    using P(3) by (simp only: counters_def Let_def)
  have "lf_count (lq s) - 1 = of_nat (length (issued s) - length (returned s)
      + admitted ?ps + refused ?ps)"
    unfolding c a(2) [symmetric] a(1) by simp
  then have "counters N ?t"
    using P(3) a(1) unfolding counters_def Let_def
    by (simp only: pgoto_def taken_def lsys.simps lfq.simps) auto
  moreover have "tickets N (taken s) (issued s) ?ps"
    by (intro tickets_step [OF P(5) len]) (auto simp: pc_wf_def)
  moreover have "slots N (taken s) (issued s) ?ps (lf_data (lq s))"
    using slots_same_tick [OF len] i(2) P(6) by simp
  moreover have "locks N (length (returned s)) ?ps (cc s) (lf_data (lq s))"
    using i(2) by (intro locks_other [OF P(7) len]) auto
  ultimately show ?thesis using P(1,2,4)
    by (simp add: linv_def t pgoto_def taken_def)
qed

text \<open>What a producer that holds a ticket finds in the node of that ticket.\<close>

lemma own_node:
  assumes inv: "linv N np s" and N: "0 < N" and i: "i < np" and t: "tick (pp s ! i) = Some t"
  shows "has_value (lf_data (lq s) ! (t mod N)) \<longleftrightarrow> \<not> waiting t (pp s ! i)"
    "\<not> unfinished t (pp s ! i) \<longrightarrow> nd_value (lf_data (lq s) ! (t mod N)) = Some (issued s ! t)"
    "crit (t mod N) (pp s ! i) \<longrightarrow> nd_lock (lf_data (lq s) ! (t mod N))"
proof -
  note P = linv_parts [OF inv]
  have len: "i < length (pp s)" using i P(2) by simp
  have r: "taken s \<le> t" "t < length (issued s)"
    using tick_range [OF t tickets_wf [OF P(5) len]] by auto
  have "\<not> (\<exists>j < length (pp s). j \<noteq> i \<and> tick (pp s ! j) = Some t)"
    using tickets_inj [OF P(5) len _ t] by blast
  then have "some_p (waiting t) (pp s) \<longleftrightarrow> waiting t (pp s ! i)"
    "some_p (unfinished t) (pp s) \<longleftrightarrow> unfinished t (pp s ! i)"
    by (auto simp: some_p_split [OF len] dest: waiting_tick unfinished_tick)
  then show "has_value (lf_data (lq s) ! (t mod N)) \<longleftrightarrow> \<not> waiting t (pp s ! i)"
    "\<not> unfinished t (pp s ! i) \<longrightarrow> nd_value (lf_data (lq s) ! (t mod N)) = Some (issued s ! t)"
    using P(6) r by (simp_all add: slots_def)
  show "crit (t mod N) (pp s ! i) \<longrightarrow> nd_lock (lf_data (lq s) ! (t mod N))"
    using P(7) N len by (auto simp: locks_def some_p_def)
qed

lemma set_node_same: "set_node k (lf_data q ! k) q = q"
  by (simp add: set_node_def)

lemma linv_with_ticket:
  assumes inv: "linv N np s" and sz: "size_ok N np" and i: "i < np"
    and t: "tick (pp s ! i) = Some t"
  shows "linv N np (enq_step i s)"
proof -
  note P = linv_parts [OF inv]
  have N: "0 < N" using sz by (rule size_ok_pos)
  note own = own_node [OF inv N i t]
  have wf: "pc_wf N (taken s) (issued s) (pp s ! i)"
    using tickets_wf [OF P(5)] i P(2) by simp
  define old where "old = lf_data (lq s) ! (t mod N)"
  note stp = linv_node_step [OF inv sz i t _ _ old_def]
  show ?thesis
  proof (cases "pp s ! i")
    case (PSlot v k u)
    then have k: "u = t" "k = t mod N" using t wf by (auto simp: pc_wf_def)
    show ?thesis
    proof (cases "nd_lock old")
      case True
      then have same: "old\<lparr>nd_lock := True\<rparr> = old" by simp
      have "enq_step i s = s\<lparr>lq := set_node (t mod N) (old\<lparr>nd_lock := True\<rparr>) (lq s)\<rparr>"
        using PSlot k True by (simp add: enq_step_def acquire_def Let_def flip: old_def)
      also have "\<dots> = s" unfolding same unfolding old_def set_node_same by simp
      finally have "enq_step i s = s" .
      then show ?thesis using inv by simp
    next
      case False
      then have "enq_step i s = pgoto i (PLocked v (t mod N) t)
          (s\<lparr>lq := set_node (t mod N) (old\<lparr>nd_lock := True\<rparr>) (lq s)\<rparr>)"
        using PSlot k by (simp add: enq_step_def acquire_def Let_def flip: old_def)
      then show ?thesis
        using stp [of "PLocked v (t mod N) t" "old\<lparr>nd_lock := True\<rparr>"] PSlot k wf own False
        by (simp add: pc_wf_def flip: old_def)
    qed
  next
    case (PLocked v k u)
    then have k: "u = t" "k = t mod N" using t wf by (auto simp: pc_wf_def)
    have "enq_step i s = pgoto i (PSwapped v (t mod N) t False)
        (s\<lparr>lq := set_node (t mod N) (old\<lparr>has_value := True\<rparr>) (lq s)\<rparr>)"
      using PLocked k own by (simp add: enq_step_def Let_def flip: old_def)
    then show ?thesis
      using stp [of "PSwapped v (t mod N) t False" "old\<lparr>has_value := True\<rparr>"] PLocked k wf own
      by (simp add: pc_wf_def flip: old_def)
  next
    case (PSwapped v k u sv)
    then have k: "u = t" "k = t mod N" "\<not> sv" using t wf by (auto simp: pc_wf_def)
    have "enq_step i s = pgoto i (PCopied v (t mod N) t False)
        (s\<lparr>lq := set_node (t mod N) (old\<lparr>nd_value := Some v\<rparr>) (lq s)\<rparr>)"
      using PSwapped k by (simp add: enq_step_def Let_def flip: old_def)
    then show ?thesis
      using stp [of "PCopied v (t mod N) t False" "old\<lparr>nd_value := Some v\<rparr>"] PSwapped k wf own
      by (simp add: pc_wf_def flip: old_def)
  next
    case (PCopied v k u sv)
    then have k: "u = t" "k = t mod N" "\<not> sv" using t wf by (auto simp: pc_wf_def)
    have "enq_step i s = pgoto i PIdle
        (s\<lparr>lq := set_node (t mod N) (old\<lparr>nd_lock := False\<rparr>) (lq s)\<rparr>)"
      using PCopied k own by (simp add: enq_step_def release_def Let_def flip: old_def)
    then show ?thesis
      using stp [of PIdle "old\<lparr>nd_lock := False\<rparr>"] PCopied k own
      by (simp add: pc_wf_def flip: old_def)
  qed (use t in auto)
qed

lemma linv_enq_step:
  assumes inv: "linv N np s" and sz: "size_ok N np" and i: "i < np" "pp s ! i \<noteq> PIdle"
  shows "linv N np (enq_step i s)"
proof (cases "tick (pp s ! i)")
  case (Some t)
  then show ?thesis by (rule linv_with_ticket [OF inv sz i(1)])
next
  case None
  moreover have "pp s ! i \<noteq> PFailed"
    using tickets_wf [OF linv_parts(5) [OF inv], of i] i(1) linv_parts(2) [OF inv]
    by (auto simp: pc_wf_def)
  ultimately show ?thesis
    using linv_take_back [OF inv i(1)] linv_issue [OF inv sz i(1)] i(2)
    by (cases "pp s ! i") auto
qed

section \<open>The consumer's accesses\<close>

lemma tail_node:
  assumes "linv N np s" and "\<And>r. cc s \<noteq> CDecr r"
  shows "unat (lf_tail (lq s)) = length (returned s) mod N"
  using countersD(5) [OF linv_parts(3) [OF assms(1)]] assms(2) by (cases "cc s") auto

lemma counters_con:
  assumes c: "counters N s" and tk: "length (returned s) + (if ctook con then 1 else 0) \<le> length (issued s)"
    and tp: "tailpos (length (returned s)) con = tailpos (length (returned s)) (cc s)"
  shows "counters N (s\<lparr>lq := set_node k nd (lq s), cc := con\<rparr>)"
proof -
  let ?t = "s\<lparr>lq := set_node k nd (lq s), cc := con\<rparr>"
  have u: "lf_head (lq ?t) = lf_head (lq s)" "lf_count (lq ?t) = lf_count (lq s)"
    "lf_tail (lq ?t) = lf_tail (lq s)" "issued ?t = issued s" "returned ?t = returned s"
    "pp ?t = pp s" "cc ?t = con" by (simp_all add: set_node_def)
  show ?thesis
    unfolding counters_def Let_def u taken_def tp using countersD [OF c] tk by blast
qed

text \<open>An access that leaves the flag and the value of the node at the tail alone.\<close>

lemma linv_con_node:
  assumes inv: "linv N np s" and N: "0 < N"
    and old: "old = lf_data (lq s) ! (length (returned s) mod N)"
    and hv: "has_value nd = has_value old" and vl: "nd_value nd = nd_value old"
    and lk: "nd_lock nd \<longleftrightarrow> ccrit con \<or> some_p (crit (length (returned s) mod N)) (pp s)"
    and ex: "ccrit con \<longrightarrow> \<not> some_p (crit (length (returned s) mod N)) (pp s)"
    and tk: "ctook con = ctook (cc s)" and tp: "tailpos (length (returned s)) con
      = tailpos (length (returned s)) (cc s)"
    and con: "con_ok N (length (returned s)) (issued s) (lf_data (lq s)) con"
  shows "linv N np (s\<lparr>lq := set_node (length (returned s) mod N) nd (lq s), cc := con\<rparr>)"
proof -
  note P = linv_parts [OF inv]
  let ?c = "length (returned s)"
  let ?nds = "(lf_data (lq s))[?c mod N := nd]"
  have k: "?c mod N < length (lf_data (lq s))" using P(1) N by simp
  have same: "has_value (?nds ! m) = has_value (lf_data (lq s) ! m)"
    "nd_value (?nds ! m) = nd_value (lf_data (lq s) ! m)" for m
    using hv vl old k by (cases "m = ?c mod N"; simp)+
  have "slots N (taken s) (issued s) (pp s) ?nds"
    using P(6) slots_lock_only [OF same] by blast
  moreover have "con_ok N ?c (issued s) ?nds con"
    using con same by (cases con) auto
  moreover have "locks N ?c (pp s) con ?nds"
    by (rule locks_consumer [OF P(7) N P(1) lk ex])
  moreover have "counters N (s\<lparr>lq := set_node (?c mod N) nd (lq s), cc := con\<rparr>)"
    using countersD(4) [OF P(3)] tk by (intro counters_con [OF P(3) _ tp]) (simp add: taken_def)
  ultimately show ?thesis using P(1,2,5) tk
    by (simp add: linv_def taken_def set_node_def)
qed

text \<open>What the consumer finds in the node at the tail once it holds its lock.\<close>

lemma full_node:
  assumes inv: "linv N np s" and N: "0 < N" and c: "ccrit (cc s)" "\<not> ctook (cc s)"
    and hv: "has_value (lf_data (lq s) ! (length (returned s) mod N))"
  shows "length (returned s) < length (issued s)"
    "nd_value (lf_data (lq s) ! (length (returned s) mod N))
     = Some (issued s ! length (returned s))"
    "i < np \<Longrightarrow> tick (pp s ! i) \<noteq> Some (length (returned s))"
proof -
  note P = linv_parts [OF inv] and w = window [OF linv_parts(3) [OF inv]]
  let ?c = "length (returned s)" and ?n = "length (issued s)"
  have d: "taken s = ?c" using c(2) by (simp add: taken_def)
  have "\<not> (\<forall>t. ?c \<le> t \<longrightarrow> t < ?n \<longrightarrow> t mod N \<noteq> ?c mod N)"
    using P(6) hv N d unfolding slots_def by (metis mod_less_divisor)
  then show n: "?c < ?n" by auto
  have flag: "\<not> some_p (waiting ?c) (pp s)"
    using P(6) hv d n by (auto simp: slots_def)
  have held: "\<not> some_p (crit (?c mod N)) (pp s)"
    using P(7) c(1) by (simp add: locks_def)
  have no: "tick (pp s ! j) \<noteq> Some ?c" if j: "j < length (pp s)" for j
  proof
    assume t: "tick (pp s ! j) = Some ?c"
    have "\<not> waiting ?c (pp s ! j)" "\<not> crit (?c mod N) (pp s ! j)"
      using flag held j by (auto simp: some_p_def)
    with t tickets_wf [OF P(5) j] show False
      by (cases "pp s ! j") (auto simp: pc_wf_def)
  qed
  then show "i < np \<Longrightarrow> tick (pp s ! i) \<noteq> Some ?c" using P(2) by simp
  have "\<not> some_p (unfinished ?c) (pp s)"
    using no by (auto simp: some_p_def dest: unfinished_tick)
  then show "nd_value (lf_data (lq s) ! (?c mod N)) = Some (issued s ! ?c)"
    using P(6) d n by (simp add: slots_def)
qed

lemma linv_consume:
  assumes inv: "linv N np s" and N: "0 < N" and cc: "cc s = CCopied r"
  shows "linv N np (deq_step s)"
proof -
  note P = linv_parts [OF inv] and w = window [OF linv_parts(3) [OF inv]]
  let ?c = "length (returned s)" and ?n = "length (issued s)"
  define old where "old = lf_data (lq s) ! (?c mod N)"
  have hv: "has_value old" and r: "r = Some (issued s ! ?c)"
    using P(4) cc by (simp_all add: old_def)
  note F = full_node [OF inv N _ _ hv [unfolded old_def], simplified cc, simplified]
  have d: "taken s = ?c" using cc by (simp add: taken_def)
  let ?nds = "(lf_data (lq s))[?c mod N := old\<lparr>has_value := False\<rparr>]"
  let ?t = "s\<lparr>lq := set_node (?c mod N) (old\<lparr>has_value := False\<rparr>) (lq s), cc := CUnlock True r\<rparr>"
  have t: "deq_step s = ?t"
    using cc tail_node [OF inv] by (simp add: deq_step_def Let_def old_def)
  have k: "?c mod N < length (lf_data (lq s))" using P(1) N by simp
  have "tickets N (Suc ?c) (issued s) (pp s)"
  proof -
    have "pc_wf N (Suc ?c) (issued s) (pp s ! i)" if "i < length (pp s)" for i
      using tickets_wf [OF P(5) that] F(3) [of i] that P(2) d
      by (cases "pp s ! i") (auto simp: pc_wf_def)
    then show ?thesis using P(5) by (auto simp: tickets_def)
  qed
  moreover have "slots N (Suc ?c) (issued s) (pp s) ?nds"
  proof -
    have away: "?nds ! (t mod N) = lf_data (lq s) ! (t mod N)" if "Suc ?c \<le> t" "t < ?n" for t
    proof -
      have "?c mod N \<noteq> t mod N" using window_inj [of ?c ?c ?n t N] that w d by auto
      then show ?thesis by simp
    qed
    have free: "\<forall>t. ?c \<le> t \<longrightarrow> t < ?n \<longrightarrow> t mod N \<noteq> m"
      if "\<forall>t. Suc ?c \<le> t \<longrightarrow> t < ?n \<longrightarrow> t mod N \<noteq> m" "m \<noteq> ?c mod N" for m
      using that by (metis Suc_leI le_neq_implies_less)
    show ?thesis
      unfolding slots_def
    proof (intro conjI allI impI)
      fix m assume m: "m < N" "\<forall>t. Suc ?c \<le> t \<longrightarrow> t < ?n \<longrightarrow> t mod N \<noteq> m"
      show "\<not> has_value (?nds ! m)"
        using P(6) k d m free [OF m(2)] by (cases "m = ?c mod N") (auto simp: slots_def)
    qed (use P(6) d away in \<open>auto simp: slots_def\<close>)
  qed
  moreover have "locks N ?c (pp s) (CUnlock True r) ?nds"
    using P(7) cc N by (intro locks_consumer [OF P(7) N P(1)]) (auto simp: locks_def old_def)
  moreover have "counters N ?t"
    using F(1) cc by (intro counters_con [OF P(3)]) simp_all
  ultimately show ?thesis using P(1,2) r
    by (simp add: linv_def t taken_def set_node_def)
qed

lemma linv_con_tail:
  assumes inv: "linv N np s" and sz: "size_ok N np" and cc: "cc s = CAdvance r"
  shows "linv N np (deq_step s)"
proof -
  note P = linv_parts [OF inv]
  let ?c = "length (returned s)" and ?t = "lf_tail (lq s)"
  have N: "0 < N" "N < 2 ^ 64" using sz size_ok_pos [OF sz] by (auto simp: size_ok_def)
  have u: "unat ?t = ?c mod N" using tail_node [OF inv] cc by simp
  have m: "?c mod N < N" using N by simp
  have s: "unat (?t + 1) = Suc (?c mod N)"
  proof -
    have "unat ?t + unat (1 :: u64) < 2 ^ 64" unfolding u unat_1 using m N by linarith
    from unat_add_le [OF this] show ?thesis using u by simp
  qed
  define t' where "t' = (if N \<le> unat (?t + 1) then 0 else ?t + 1)"
  have t': "unat t' = Suc ?c mod N"
    using s m by (auto simp: t'_def mod_Suc)
  have t: "deq_step s = s\<lparr>lq := (lq s)\<lparr>lf_tail := t'\<rparr>, cc := CDecr r\<rparr>" (is "_ = ?s")
    using cc P(1) by (simp add: deq_step_def Let_def capacity_def t'_def)
  have "counters N ?s"
    using countersD [OF P(3)] cc t' by (simp add: counters_def taken_def del: of_nat_add)
  then show ?thesis using P cc
    by (simp add: linv_def t taken_def locks_def)
qed

lemma linv_give_back:
  assumes inv: "linv N np s" and sz: "size_ok N np" and cc: "cc s = CDecr r"
  shows "linv N np (deq_step s)"
proof -
  note P = linv_parts [OF inv]
  let ?c = "length (returned s)" and ?n = "length (issued s)"
  have r: "r = Some (issued s ! ?c)" using P(4) cc by simp
  have n: "Suc ?c \<le> ?n" using countersD(4) [OF P(3)] cc by (simp add: taken_def)
  have u: "unat (lf_count (lq s)) = ?n - ?c + admitted (pp s) + refused (pp s)"
    using counters_count [OF P(3)] sz P(2) by simp
  then have pos: "lf_count (lq s) > 0" using n by (simp add: word_less_nat_alt)
  have t: "deq_step s = s\<lparr>lq := (lq s)\<lparr>lf_count := lf_count (lq s) - 1\<rparr>, cc := CIdle,
      returned := returned s @ [r]\<rparr>" (is "_ = ?s")
    using cc pos by (simp add: deq_step_def Let_def)
  have "lf_count (lq s) = of_nat (Suc (?n - Suc ?c + admitted (pp s) + refused (pp s)))"
    using countersD(2) [OF P(3)] n by (simp add: Suc_diff_Suc flip: add_Suc)
  then have "lf_count (lq s) - 1 = of_nat (?n - Suc ?c + admitted (pp s) + refused (pp s))"
    by simp
  moreover have "in_order (returned s @ [r]) (issued s)"
    using countersD(6) [OF P(3)] n r by (simp add: in_order_def take_Suc_conv_app_nth)
  ultimately have "counters N ?s"
    using countersD [OF P(3)] cc n by (simp add: counters_def taken_def del: of_nat_add)
  then show ?thesis using P cc
    by (simp add: linv_def t taken_def locks_def)
qed

lemma linv_deq_step:
  assumes inv: "linv N np s" and sz: "size_ok N np"
  shows "linv N np (deq_step s)"
proof -
  note P = linv_parts [OF inv]
  have N: "0 < N" using sz by (rule size_ok_pos)
  let ?c = "length (returned s)"
  define old where "old = lf_data (lq s) ! (?c mod N)"
  have k: "?c mod N < N" using N by simp
  have lk: "nd_lock old \<longleftrightarrow> some_p (crit (?c mod N)) (pp s) \<or> ccrit (cc s)"
    "ccrit (cc s) \<longrightarrow> \<not> some_p (crit (?c mod N)) (pp s)"
    using P(7) k by (auto simp: locks_def old_def)
  note stp = linv_con_node [OF inv N old_def]
  have stay: "set_node (?c mod N) old (lq s) = lq s" by (simp add: old_def set_node_same)
  note val = tail_node [OF inv]
  show ?thesis
  proof (cases "cc s")
    case CIdle
    show ?thesis
    proof (cases "nd_lock old")
      case True
      then have same: "old\<lparr>nd_lock := True\<rparr> = old" by simp
      have "deq_step s = s\<lparr>lq := set_node (?c mod N) (old\<lparr>nd_lock := True\<rparr>) (lq s)\<rparr>"
        using CIdle val True by (simp add: deq_step_def acquire_def Let_def flip: old_def)
      also have "\<dots> = s" unfolding same unfolding stay by simp
      finally show ?thesis using inv by simp
    next
      case False
      then have "deq_step s = s\<lparr>lq := set_node (?c mod N) (old\<lparr>nd_lock := True\<rparr>) (lq s),
          cc := CLocked\<rparr>"
        using CIdle val by (simp add: deq_step_def acquire_def Let_def flip: old_def)
      then show ?thesis
        using stp [of "old\<lparr>nd_lock := True\<rparr>" CLocked] CIdle False lk by simp
    qed
  next
    case CLocked
    let ?con = "if has_value old then CFull else CUnlock False None"
    have "deq_step s = s\<lparr>lq := set_node (?c mod N) old (lq s), cc := ?con\<rparr>"
      using CLocked val by (simp add: deq_step_def Let_def stay flip: old_def)
    then show ?thesis
      using stp [of old ?con] CLocked lk by (simp add: old_def)
  next
    case CFull
    have hv: "has_value (lf_data (lq s) ! (?c mod N))" using P(4) CFull by simp
    note F = full_node [OF inv N _ _ hv, simplified CFull, simplified]
    have "deq_step s = s\<lparr>lq := set_node (?c mod N) old (lq s), cc := CCopied (nd_value old)\<rparr>"
      using CFull val by (simp add: deq_step_def Let_def stay flip: old_def)
    then show ?thesis
      using stp [of old "CCopied (nd_value old)"] CFull lk hv F(1,2) by (simp add: old_def)
  next
    case (CCopied r)
    then show ?thesis by (rule linv_consume [OF inv N])
  next
    case (CUnlock ret r)
    have "deq_step s = s\<lparr>lq := set_node (?c mod N) (old\<lparr>nd_lock := False\<rparr>) (lq s),
        cc := (if ret then CAdvance r else CIdle)\<rparr>"
      using CUnlock val lk by (simp add: deq_step_def release_def Let_def flip: old_def)
    then show ?thesis
      using stp [of "old\<lparr>nd_lock := False\<rparr>" "if ret then CAdvance r else CIdle"] CUnlock lk P(4)
      by simp
  next
    case (CAdvance r)
    then show ?thesis by (rule linv_con_tail [OF inv sz])
  next
    case (CDecr r)
    then show ?thesis by (rule linv_give_back [OF inv sz])
  next
    case CFailed
    then show ?thesis using P(4) by simp
  qed
qed

end
