(* ===== verification/Lfq_Fifo.thy ===== *)
theory Lfq_Fifo
  imports Lfq_Steps
begin

text \<open>
  The bounded queue of \<open>archive/lfq/ipc_lfq.hh\<close>: what holds in every reachable state of every
  interleaving, and the calls without interference as a refinement of a bounded first-in
  first-out queue.
\<close>

section \<open>Reachable states\<close>

lemma some_p_replicate_idle: "\<not> P PIdle \<Longrightarrow> \<not> some_p P (replicate np PIdle)"
  by (simp add: some_p_def)

lemma linv_start:
  assumes "size_ok N np"
  shows "linv N np (l_start N np)"
proof -
  have N: "0 < N" using assms by (rule size_ok_pos)
  have z: "admitted (replicate np PIdle) = 0" "refused (replicate np PIdle) = 0"
    by (simp_all add: admitted_def refused_def sum_list_replicate)
  show ?thesis using N
    by (simp add: linv_def l_start_def new_lfq_def counters_def z taken_def in_order_def
        tickets_def slots_def locks_def pc_wf_def new_node_def some_p_def)
qed

lemma linv_lstep:
  assumes "linv N np s" and "size_ok N np" and "lstep s t"
  shows "linv N np t"
  using assms(3)
proof cases
  case (l_call i v)
  then show ?thesis using linv_enq_start [OF assms(1,2)] linv_parts(2) [OF assms(1)] by simp
next
  case (l_prod i)
  then show ?thesis using linv_enq_step [OF assms(1,2)] linv_parts(2) [OF assms(1)] by simp
next
  case l_cons
  then show ?thesis using linv_deq_step [OF assms(1,2)] by simp
qed

text \<open>The sizes are part of the invariant, so that the interface of safety holds outright.\<close>

definition lfq_init :: "nat \<Rightarrow> nat \<Rightarrow> 'v lsys \<Rightarrow> bool" where
  "lfq_init N np s \<longleftrightarrow> size_ok N np \<and> s = l_start N np"

interpretation lfq_run: safety "lfq_init N np" lstep "\<lambda>s. size_ok N np \<and> linv N np s" for N np
  by unfold_locales (auto simp: lfq_init_def intro: linv_start linv_lstep)

definition lfq_reach :: "nat \<Rightarrow> nat \<Rightarrow> 'v lsys \<Rightarrow> bool" where
  "lfq_reach N np s \<longleftrightarrow> reach (lfq_init N np) lstep s"

lemma lfq_reach_linv: "lfq_reach N np s \<Longrightarrow> size_ok N np \<and> linv N np s"
  unfolding lfq_reach_def by (rule lfq_run.reach_inv)

lemma lfq_reach_start: "size_ok N np \<Longrightarrow> lfq_reach N np (l_start N np)"
  by (simp add: lfq_reach_def lfq_init_def reach_init)

lemma lfq_reach_step: "lfq_reach N np s \<Longrightarrow> lstep s t \<Longrightarrow> lfq_reach N np t"
  unfolding lfq_reach_def by (rule reach_step)

text \<open>No call is in progress.\<close>

definition at_rest :: "'v lsys \<Rightarrow> bool" where
  "at_rest s \<longleftrightarrow> cc s = CIdle \<and> pp s = replicate (length (pp s)) PIdle"

text \<open>The abstract queue that a state at rest stands for: the values from the tail on.\<close>

definition contents :: "'v lfq \<Rightarrow> 'v option list" where
  "contents q = map (\<lambda>j. nd_value (lf_data q ! ((unat (lf_tail q) + j) mod capacity q)))
     [0 ..< unat (lf_count q)]"

lemma rest_counts:
  assumes "at_rest s"
  shows "admitted (pp s) = 0" "refused (pp s) = 0" "\<not> P PIdle \<Longrightarrow> \<not> some_p P (pp s)"
    "taken s = length (returned s)"
proof -
  have r: "pp s = replicate (length (pp s)) PIdle" and "cc s = CIdle"
    using assms by (simp_all add: at_rest_def)
  show "admitted (pp s) = 0" "refused (pp s) = 0" "\<not> P PIdle \<Longrightarrow> \<not> some_p P (pp s)"
    by (subst r, simp add: admitted_def refused_def sum_list_replicate some_p_replicate_idle)+
  show "taken s = length (returned s)" using \<open>cc s = CIdle\<close> by (simp add: taken_def)
qed

lemma rest_count:
  assumes "linv N np s" and "size_ok N np" and "at_rest s"
  shows "unat (lf_count (lq s)) = length (issued s) - length (returned s)"
  using counters_count [of N s] linv_parts(2,3) [OF assms(1)] assms(2) rest_counts [OF assms(3)]
  by simp

lemma rest_contents:
  assumes inv: "linv N np s" and sz: "size_ok N np" and r: "at_rest s"
  shows "contents (lq s) = map Some (drop (length (returned s)) (issued s))"
proof (rule nth_equalityI)
  note P = linv_parts [OF inv]
  let ?c = "length (returned s)"
  have n: "unat (lf_count (lq s)) = length (issued s) - ?c" by (rule rest_count [OF inv sz r])
  then show "length (contents (lq s)) = length (map Some (drop ?c (issued s)))"
    by (simp add: contents_def)
  fix j assume "j < length (contents (lq s))"
  then have j: "?c + j < length (issued s)" "j < length (issued s) - ?c"
    using n by (simp_all add: contents_def less_diff_conv)
  have t: "unat (lf_tail (lq s)) = ?c mod N"
    using tail_node [OF inv] r by (simp add: at_rest_def)
  have "nd_value (lf_data (lq s) ! ((?c + j) mod N)) = Some (issued s ! (?c + j))"
    using P(6) rest_counts(4) [OF r] rest_counts(3) [OF r, of "unfinished (?c + j)"] j
    by (simp add: slots_def)
  then show "contents (lq s) ! j = map Some (drop ?c (issued s)) ! j"
    using j n t P(1) by (simp add: contents_def capacity_def mod_simps)
qed

section \<open>Calls without interference\<close>

text \<open>Only producer \<open>i\<close> is inside a call, at \<open>p\<close>.\<close>

definition solo :: "nat \<Rightarrow> nat \<Rightarrow> nat \<Rightarrow> 'v ppc \<Rightarrow> 'v list \<Rightarrow> 'v option list \<Rightarrow> 'v lsys \<Rightarrow> bool" where
  "solo N np i p is rs s \<longleftrightarrow> size_ok N np \<and> linv N np s \<and> i < np \<and> cc s = CIdle \<and>
     pp s = (replicate np PIdle)[i := p] \<and> issued s = is \<and> returned s = rs"

lemma solo_pc: "solo N np i p is rs s \<Longrightarrow> pp s ! i = p \<and> length (pp s) = np"
  by (simp add: solo_def)

lemma solo_rest: "solo N np i PIdle is rs s \<longleftrightarrow>
    size_ok N np \<and> linv N np s \<and> i < np \<and> at_rest s \<and> issued s = is \<and> returned s = rs"
proof -
  have u: "(replicate np PIdle)[i := PIdle] = replicate np PIdle"
    by (metis list_update_beyond list_update_id not_le nth_replicate length_replicate)
  show ?thesis
    unfolding solo_def at_rest_def u using linv_parts(2) [of N np s] by blast
qed

lemma solo_next:
  assumes s: "solo N np i p is rs s" and p: "p \<noteq> PIdle"
    and e: "pp (enq_step i s) = (pp s)[i := p']" "cc (enq_step i s) = cc s"
      "issued (enq_step i s) = is'" "returned (enq_step i s) = returned s"
  shows "solo N np i p' is' rs (enq_step i s)"
  using linv_enq_step [of N np s i] assms by (auto simp: solo_def)

lemma solo_full:
  assumes s: "solo N np i PFull is rs s"
  shows "solo N np i PIdle is rs (enq_step i s)"
  by (rule solo_next [OF s]) (use s in \<open>auto simp: enq_step_def pgoto_def Let_def solo_def\<close>)

lemma solo_admitted:
  assumes s: "solo N np i (PAdmitted v) is rs s"
  shows "\<exists>k t. solo N np i (PSlot v k t) (is @ [v]) rs (enq_step i s)"
  using solo_pc [OF s] s
  by (intro exI solo_next [OF s]) (auto simp: enq_step_def pgoto_def Let_def solo_def)

lemma solo_slot:
  assumes s: "solo N np i (PSlot v k t) is rs s"
  shows "solo N np i (PLocked v k t) is rs (enq_step i s)"
proof -
  have i: "i < length (pp s)" "pp s ! i = PSlot v k t" and inv: "linv N np s" and N: "0 < N"
    using s size_ok_pos by (auto simp: solo_def)
  note P = linv_parts [OF inv]
  have k: "k < N" using tickets_wf [OF P(5) i(1)] i(2) N by (auto simp: pc_wf_def)
  have "\<not> some_p (crit k) (pp s)"
    using s by (auto simp: some_p_def solo_def nth_list_update)
  then have "\<not> nd_lock (lf_data (lq s) ! k)"
    using P(7) k s by (simp add: locks_def solo_def)
  then show ?thesis using i
    by (intro solo_next [OF s]) (use s in \<open>auto simp: enq_step_def acquire_def pgoto_def Let_def solo_def\<close>)
qed

lemma solo_copy:
  assumes s: "solo N np i (PLocked v k t) is rs s"
  shows "\<exists>sv. solo N np i (PCopied v k t sv) is rs (enq_step i (enq_step i s))"
proof -
  have "solo N np i (PSwapped v k t (has_value (lf_data (lq s) ! k))) is rs (enq_step i s)"
    using solo_pc [OF s] s
    by (intro solo_next [OF s]) (auto simp: enq_step_def pgoto_def Let_def solo_def)
  note s' = this
  have "solo N np i (PCopied v k t (has_value (lf_data (lq s) ! k))) is rs (enq_step i (enq_step i s))"
    using solo_pc [OF s'] s'
    by (intro solo_next [OF s']) (auto simp: enq_step_def pgoto_def Let_def solo_def)
  then show ?thesis by blast
qed

lemma solo_done:
  assumes s: "solo N np i (PCopied v k t sv) is rs s"
  shows "solo N np i PIdle is rs (enq_step i s)"
proof -
  have i: "i < np" "pp s ! i = PCopied v k t sv" "i < length (pp s)"
    and inv: "linv N np s" and N: "0 < N"
    using s size_ok_pos by (auto simp: solo_def)
  have wf: "\<not> sv" "k = t mod N"
    using tickets_wf [OF linv_parts(5) [OF inv] i(3)] i(2) by (auto simp: pc_wf_def)
  then have "nd_lock (lf_data (lq s) ! k)"
    using own_node(3) [OF inv N i(1), of t] i(2) by simp
  then show ?thesis using i(2) wf(1)
    by (intro solo_next [OF s]) (use s in \<open>auto simp: enq_step_def release_def pgoto_def Let_def solo_def\<close>)
qed

lemma enq_idle: "pp s ! i = PIdle \<Longrightarrow> (enq_step i ^^ n) s = s"
  by (induction n) (simp_all add: enq_step_def Let_def)

lemma enq_call_rest:
  assumes sz: "size_ok N np" and inv: "linv N np s" and r: "at_rest s" and i: "i < np"
  shows "linv N np (enq_call i v s) \<and> at_rest (enq_call i v s) \<and>
    returned (enq_call i v s) = returned s \<and> issued (enq_call i v s)
      = (if length (issued s) - length (returned s) < N then issued s @ [v] else issued s)"
proof -
  have s: "solo N np i PIdle (issued s) (returned s) s" using assms by (simp add: solo_rest)
  let ?p = "if N \<le> length (issued s) - length (returned s) then PFull else PAdmitted v"
  define t where "t = enq_start i v s"
  have c: "unat (lf_count (lq s)) = length (issued s) - length (returned s)"
    by (rule rest_count [OF inv sz r])
  have "solo N np i ?p (issued s) (returned s) t"
    using linv_enq_start [OF inv sz i, of v] s linv_parts(1) [OF inv] c
    by (auto simp: solo_def t_def enq_start_def pgoto_def Let_def capacity_def)
  moreover have "enq_call i v s = (enq_step i ^^ 5) t" by (simp add: enq_call_def t_def)
  moreover have "solo N np i PIdle is rs ((enq_step i ^^ 5) t)"
    if "solo N np i PFull is rs t" for "is" rs
    using solo_full [OF that] solo_pc [OF solo_full [OF that]] enq_idle [of "enq_step i t" i 4]
    by (simp add: eval_nat_numeral funpow_swap1)
  moreover have "solo N np i PIdle (is @ [v]) rs ((enq_step i ^^ 5) t)"
    if a: "solo N np i (PAdmitted v) is rs t" for "is" rs
  proof -
    obtain k u where "solo N np i (PSlot v k u) (is @ [v]) rs (enq_step i t)"
      using solo_admitted [OF a] by blast
    from solo_copy [OF solo_slot [OF this]] show ?thesis
      by (auto dest: solo_done simp: eval_nat_numeral)
  qed
  ultimately have "solo N np i PIdle
      (if length (issued s) - length (returned s) < N then issued s @ [v] else issued s)
      (returned s) (enq_call i v s)"
    by (auto split: if_splits)
  then show ?thesis by (simp add: solo_rest)
qed

text \<open>Only the consumer is inside a call, at \<open>con\<close>.\<close>

definition alone :: "nat \<Rightarrow> nat \<Rightarrow> 'v cpc \<Rightarrow> 'v list \<Rightarrow> 'v option list \<Rightarrow> 'v lsys \<Rightarrow> bool" where
  "alone N np con is rs s \<longleftrightarrow> size_ok N np \<and> linv N np s \<and> cc s = con \<and>
     pp s = replicate np PIdle \<and> issued s = is \<and> returned s = rs"

lemma alone_rest: "alone N np CIdle is rs s \<longleftrightarrow>
    size_ok N np \<and> linv N np s \<and> at_rest s \<and> issued s = is \<and> returned s = rs"
  unfolding alone_def at_rest_def using linv_parts(2) [of N np s] by blast

lemma deq_step_frame: "pp (deq_step s) = pp s" "issued (deq_step s) = issued s"
  by (auto simp: deq_step_def Let_def acquire_def release_def split: cpc.splits)

lemma alone_next:
  assumes s: "alone N np con is rs s" and e: "cc (deq_step s) = con'" "returned (deq_step s) = rs'"
  shows "alone N np con' is rs' (deq_step s)"
  using linv_deq_step [of N np s] assms deq_step_frame [of s] by (auto simp: alone_def)

lemma alone_node:
  assumes s: "alone N np con is rs s" and c: "\<not> ctook con"
  shows "nd_lock (lf_data (lq s) ! (length rs mod N)) \<longleftrightarrow> ccrit con"
    "has_value (lf_data (lq s) ! (length rs mod N)) \<longleftrightarrow> length rs < length is"
proof -
  have inv: "linv N np s" and N: "0 < N" using s size_ok_pos by (auto simp: alone_def)
  note P = linv_parts [OF inv] and w = window [OF linv_parts(3) [OF inv]]
  have idle: "\<not> some_p Q (pp s)" if "\<not> Q PIdle" for Q
    using s some_p_replicate_idle [of Q np, OF that] by (simp add: alone_def)
  show "nd_lock (lf_data (lq s) ! (length rs mod N)) \<longleftrightarrow> ccrit con"
    using P(7) N s idle [of "crit (length rs mod N)"] by (auto simp: locks_def alone_def)
  have d: "taken s = length rs" using c s by (simp add: taken_def alone_def)
  show "has_value (lf_data (lq s) ! (length rs mod N)) \<longleftrightarrow> length rs < length is"
  proof (cases "length rs < length is")
    case True
    then show ?thesis
      using P(6) d s idle [of "waiting (length rs)"] by (auto simp: slots_def alone_def)
  next
    case False
    then have "\<not> has_value (lf_data (lq s) ! (length rs mod N))"
      using P(6) d s N unfolding slots_def alone_def
      by (metis le_trans mod_less_divisor not_le)
    then show ?thesis using False by simp
  qed
qed

lemma alone_tail:
  assumes "alone N np con is rs s" and "\<And>r. con \<noteq> CDecr r"
  shows "unat (lf_tail (lq s)) = length rs mod N"
  using tail_node [of N np s] assms by (auto simp: alone_def)

lemmas deq_simps = deq_step_def acquire_def release_def Let_def

lemma alone_take:
  assumes s: "alone N np CLocked is rs s" and n: "length rs < length is"
  shows "alone N np (CUnlock True (Some (is ! length rs))) is rs (deq_step (deq_step (deq_step s)))"
proof -
  have a: "alone N np CFull is rs (deq_step s)"
    using alone_node [OF s] alone_tail [OF s] n s
    by (intro alone_next [OF s]) (auto simp: deq_simps alone_def)
  have "\<exists>r. cc (deq_step (deq_step s)) = CCopied r"
    using a by (auto simp: deq_step_def [of "deq_step s"] Let_def alone_def)
  then obtain r where r: "cc (deq_step (deq_step s)) = CCopied r" by blast
  have b: "alone N np (CCopied r) is rs (deq_step (deq_step s))"
    using a r by (intro alone_next [OF a])
      (auto simp: deq_step_def [of "deq_step s"] Let_def alone_def)
  have "con_ok N (length rs) is (lf_data (lq (deq_step (deq_step s)))) (CCopied r)"
    using b linv_parts(4) [of N np "deq_step (deq_step s)"] by (auto simp: alone_def)
  then have "r = Some (is ! length rs)" by simp
  then show ?thesis
    using b by (intro alone_next [OF b])
      (auto simp: deq_step_def [of "deq_step (deq_step s)"] Let_def alone_def)
qed

lemma alone_unlock:
  assumes s: "alone N np (CUnlock ret r) is rs s"
  shows "alone N np (if ret then CAdvance r else CIdle) is rs (deq_step s)"
proof -
  have inv: "linv N np s" and N: "0 < N" using s size_ok_pos by (auto simp: alone_def)
  have "length rs mod N < N" using N by simp
  then have "nd_lock (lf_data (lq s) ! (length rs mod N))"
    using linv_parts(7) [OF inv] s by (simp add: locks_def alone_def)
  then show ?thesis
    using alone_tail [OF s] s by (intro alone_next [OF s]) (auto simp: deq_simps alone_def)
qed

lemma alone_return:
  assumes s: "alone N np (CAdvance r) is rs s"
  shows "alone N np CIdle is (rs @ [r]) (deq_step (deq_step s))"
proof -
  have a: "alone N np (CDecr r) is rs (deq_step s)"
    using s by (intro alone_next [OF s]) (auto simp: deq_simps alone_def)
  have "cc (deq_step (deq_step s)) \<noteq> CFailed"
    using a linv_deq_step [of N np "deq_step s"] linv_parts(4) [of N np "deq_step (deq_step s)"]
    by (auto simp: alone_def)
  then have "lf_count (lq (deq_step s)) > 0"
    using a unfolding alone_def by (auto simp: deq_step_def [of "deq_step s"] Let_def split: if_splits)
  then show ?thesis
    using a by (intro alone_next [OF a]) (auto simp: deq_step_def [of "deq_step s"] Let_def alone_def)
qed

lemma alone_pc: "alone N np con is rs s \<Longrightarrow> cc s = con"
  by (simp add: alone_def)

lemma deq_call_rest:
  assumes sz: "size_ok N np" and inv: "linv N np s" and r: "at_rest s"
  shows "linv N np (deq_call s) \<and> at_rest (deq_call s) \<and> issued (deq_call s) = issued s \<and>
    returned (deq_call s) = returned s @ map Some (take 1 (drop (length (returned s)) (issued s)))"
proof -
  let ?is = "issued s" and ?rs = "returned s"
  have s: "alone N np CIdle ?is ?rs s" using assms by (simp add: alone_rest)
  define t where "t = deq_step s"
  have t: "alone N np CLocked ?is ?rs t"
    unfolding t_def using alone_node [OF s] alone_tail [OF s] s
    by (intro alone_next [OF s]) (auto simp: deq_simps alone_def)
  have t1: "deq_call s = deq_finish 5 (deq_step t)"
    using alone_pc [OF t] by (simp add: deq_call_def eval_nat_numeral flip: t_def)
  show ?thesis
  proof (cases "length ?rs < length ?is")
    case True
    let ?r = "Some (?is ! length ?rs)"
    define u where "u = deq_step (deq_step (deq_step t))"
    have u: "alone N np (CUnlock True ?r) ?is ?rs u"
      unfolding u_def by (rule alone_take [OF t True])
    have w: "alone N np (CAdvance ?r) ?is ?rs (deq_step u)" using alone_unlock [OF u] by simp
    note x = alone_return [OF w]
    have "cc (deq_step t) = CFull"
      using alone_node [OF t] alone_tail [OF t] t True by (auto simp: deq_simps alone_def)
    moreover from this have "\<exists>r. cc (deq_step (deq_step t)) = CCopied r"
      by (auto simp: deq_step_def [of "deq_step t"] Let_def)
    moreover have "cc (deq_step (deq_step u)) \<noteq> CIdle"
      using alone_pc [OF w] by (auto simp: deq_step_def [of "deq_step u"] Let_def)
    ultimately have "deq_call s = deq_step (deq_step (deq_step u))"
      using t1 alone_pc [OF u] alone_pc [OF w] alone_pc [OF x] unfolding u_def
      by (auto simp: eval_nat_numeral split: cpc.splits)
    then show ?thesis using x True
      by (simp add: alone_rest take_Suc_conv_app_nth hd_drop_conv_nth take_Suc)
  next
    case False
    have "alone N np (CUnlock False None) ?is ?rs (deq_step t)"
      using alone_node [OF t] alone_tail [OF t] t False
      by (intro alone_next [OF t]) (auto simp: deq_simps alone_def)
    note u = this
    have w: "alone N np CIdle ?is ?rs (deq_step (deq_step t))" using alone_unlock [OF u] by simp
    have "deq_call s = deq_step (deq_step t)"
      using t1 alone_pc [OF u] alone_pc [OF w] by (simp add: eval_nat_numeral)
    then show ?thesis using w False by (simp add: alone_rest)
  qed
qed

lemma lfq_reach_enq_step: "lfq_reach N np s \<Longrightarrow> i < np \<Longrightarrow> lfq_reach N np (enq_step i s)"
  using linv_parts(2) lfq_reach_linv lfq_reach_step [OF _ l_prod [of i s]] enq_idle [of s i 1]
  by (cases "pp s ! i = PIdle") fastforce+

lemma lfq_reach_enq_call:
  assumes "lfq_reach N np s" and "at_rest s" and "i < np"
  shows "lfq_reach N np (enq_call i v s)"
proof -
  have "length (pp s) = np" using lfq_reach_linv [OF assms(1)] linv_parts(2) by blast
  then have "lfq_reach N np (enq_start i v s)"
    using assms by (metis at_rest_def lfq_reach_step l_call nth_replicate)
  then show ?thesis
    using assms(3) by (simp add: enq_call_def eval_nat_numeral lfq_reach_enq_step)
qed

lemma lfq_reach_deq_finish: "lfq_reach N np s \<Longrightarrow> lfq_reach N np (deq_finish n s)"
  by (induction n arbitrary: s) (auto intro: lfq_reach_step l_cons split: cpc.splits)

lemma lfq_reach_deq_call: "lfq_reach N np s \<Longrightarrow> lfq_reach N np (deq_call s)"
  unfolding deq_call_def by (intro lfq_reach_deq_finish) (rule lfq_reach_step [OF _ l_cons])

section \<open>What the queue promises\<close>

definition exclusive :: "nat \<Rightarrow> 'v lsys \<Rightarrow> bool" where
  "exclusive np s \<longleftrightarrow> (\<forall>i < np. \<forall>j < np. \<forall>k. crit k (pp s ! i) \<longrightarrow>
     (crit k (pp s ! j) \<longrightarrow> i = j) \<and> \<not> (ccrit (cc s) \<and> k = unat (lf_tail (lq s))))"

lemma linv_exclusive:
  assumes inv: "linv N np s" and N: "0 < N"
  shows "exclusive np s"
proof -
  note P = linv_parts [OF inv] and w = window [OF linv_parts(3) [OF inv]]
  have wf: "pc_wf N (taken s) (issued s) (pp s ! i)" if "i < np" for i
    using tickets_wf [OF P(5)] that P(2) by simp
  have "i = j" if ij: "i < np" "j < np" and c: "crit k (pp s ! i)" "crit k (pp s ! j)" for i j k
  proof -
    obtain t u where t: "tick (pp s ! i) = Some t" "k = t mod N"
      and u: "tick (pp s ! j) = Some u" "k = u mod N"
      using crit_slot [OF c(1) wf [OF ij(1)]] crit_slot [OF c(2) wf [OF ij(2)]] by blast
    have "t = u"
      using window_inj [of "taken s" t "length (issued s)" u N] w t u
        tick_range [OF t(1) wf [OF ij(1)]] tick_range [OF u(1) wf [OF ij(2)]] by simp
    then show ?thesis using tickets_inj [OF P(5)] ij t(1) u(1) P(2) by blast
  qed
  moreover have "\<not> crit (unat (lf_tail (lq s))) (pp s ! i)" if "i < np" "ccrit (cc s)" for i
  proof -
    have "unat (lf_tail (lq s)) = length (returned s) mod N"
      using tail_node [OF inv] that(2) by (cases "cc s") auto
    then show ?thesis using P(2,7) that by (auto simp: locks_def some_p_def)
  qed
  ultimately show ?thesis unfolding exclusive_def by blast
qed

text \<open>
  C22. For a number of nodes that divides \<open>2 ^ 64\<close> and any interleaving of the producers'
  and the consumer's accesses, no \<open>assert\<close> of \<open>enqueue\<close> or \<open>dequeue\<close> fails, a node's lock is
  held by at most one of them, and the counter is exactly the number of values handed over, of
  producers admitted and of producers about to be refused: it never wraps around.
\<close>

theorem lfq_safe:
  assumes "lfq_reach N np s"
  shows "cc s \<noteq> CFailed \<and> PFailed \<notin> set (pp s) \<and> exclusive np s \<and>
    unat (lf_count (lq s)) = length (issued s) - length (returned s)
      + admitted (pp s) + refused (pp s)"
proof -
  have sz: "size_ok N np" and inv: "linv N np s" using lfq_reach_linv [OF assms] by auto
  note P = linv_parts [OF inv]
  have "cc s \<noteq> CFailed" using P(4) by auto
  moreover have "PFailed \<notin> set (pp s)"
    using tickets_wf [OF P(5)] by (fastforce simp: in_set_conv_nth pc_wf_def)
  ultimately show ?thesis
    using linv_exclusive [OF inv size_ok_pos [OF sz]] counters_count [OF P(3)] sz P(2) by simp
qed

text \<open>
  C1. In every reachable state what \<open>dequeue\<close> has returned is a prefix, in ticket order, of
  the values \<open>enqueue\<close> was admitted with: nothing is lost, repeated, reordered or read before it
  was copied. At most as many values as there are nodes are between admission and return.
\<close>

theorem lfq_fifo:
  assumes "lfq_reach N np s"
  shows "returned s = map Some (take (length (returned s)) (issued s)) \<and>
    length (returned s) \<le> length (issued s) \<and> length (issued s) \<le> length (returned s) + N"
  using countersD [OF linv_parts(3)] lfq_reach_linv [OF assms]
  by (fastforce simp: in_order_def)

text \<open>
  Without interference \<open>enqueue\<close> returns after its accesses with every lock free, and
  refines the insertion at the end of a bounded queue: the value is appended when fewer than
  \<open>N\<close> are present, and refused otherwise.
\<close>

theorem lfq_enqueue_refines:
  assumes "lfq_reach N np s" and "at_rest s" and "i < np"
  shows "at_rest (enq_call i v s) \<and> contents (lq (enq_call i v s)) =
    (if length (contents (lq s)) < N then contents (lq s) @ [Some v] else contents (lq s))"
proof -
  have sz: "size_ok N np" and inv: "linv N np s" using lfq_reach_linv [OF assms(1)] by auto
  note e = enq_call_rest [OF sz inv assms(2,3), of v]
  have c: "length (returned s) \<le> length (issued s)" using countersD(7) [OF linv_parts(3) [OF inv]] .
  show ?thesis
    using e rest_contents [OF inv sz assms(2)] rest_contents [of N np "enq_call i v s", OF _ sz] c
    by simp
qed

text \<open>
  Without interference \<open>dequeue\<close> returns after its accesses with every lock free, and
  refines the removal from the front: it returns the oldest value present, or nothing when
  the queue is empty.
\<close>

theorem lfq_dequeue_refines:
  assumes "lfq_reach N np s" and "at_rest s"
  shows "at_rest (deq_call s) \<and> contents (lq (deq_call s)) = tl (contents (lq s)) \<and>
    returned (deq_call s) = returned s @ take 1 (contents (lq s))"
proof -
  have sz: "size_ok N np" and inv: "linv N np s" using lfq_reach_linv [OF assms(1)] by auto
  note e = deq_call_rest [OF sz inv assms(2)]
  have c: "length (returned s) \<le> length (issued s)" using countersD(7) [OF linv_parts(3) [OF inv]] .
  have "drop (length (returned (deq_call s))) (issued s)
      = tl (drop (length (returned s)) (issued s))"
    using e by (cases "length (returned s) < length (issued s)") (auto simp: drop_Suc tl_drop)
  then show ?thesis
    using e rest_contents [OF inv sz assms(2)] rest_contents [of N np "deq_call s", OF _ sz]
    by (simp add: take_map map_tl)
qed

section \<open>The promises at concrete states\<close>

text \<open>Two producers in the middle of their calls and the consumer inside a lock.\<close>

definition busy :: "nat lsys" where
  "busy = deq_step (enq_step (Suc 0) (enq_step (Suc 0) (enq_step 0 (enq_start (Suc 0) 8
     (enq_start 0 7 (deq_call (enq_call 0 5 (l_start 2 2))))))))"

definition two_in :: "nat lsys" where
  "two_in = enq_call (Suc 0) 6 (enq_call 0 5 (l_start 2 2))"

lemma size_ok_2: "size_ok 2 2"
  by (simp add: size_ok_def)

lemma funpow_5: "(f ^^ 5) x = f (f (f (f (f x))))"
  by (simp add: eval_nat_numeral)

lemma deq_finish_numeral: "deq_finish (numeral k) s
    = (case cc s of CIdle \<Rightarrow> s | _ \<Rightarrow> deq_finish (pred_numeral k) (deq_step s))"
  by (simp add: numeral_eq_Suc)

lemma two_nodes: "replicate 2 x = [x, x]"
  by (simp add: numeral_2_eq_2)

lemma mod_Suc_Suc_0: "numeral k mod Suc (Suc 0) = (numeral k mod 2 :: nat)"
  by (simp add: numeral_2_eq_2)

lemmas lfq_eval = enq_call_def deq_call_def enq_start_def enq_step_def deq_step_def pgoto_def
  set_node_def acquire_def release_def capacity_def l_start_def new_lfq_def new_node_def Let_def
  at_rest_def funpow_5 deq_finish_numeral two_nodes
  mod_Suc_Suc_0

lemma two_in_value: "two_in = \<lparr>lq = \<lparr>lf_head = 2, lf_count = 2, lf_tail = 0, lf_data =
    [\<lparr>nd_lock = False, has_value = True, nd_value = Some 5\<rparr>,
     \<lparr>nd_lock = False, has_value = True, nd_value = Some 6\<rparr>]\<rparr>,
    pp = [PIdle, PIdle], cc = CIdle, issued = [5, 6], returned = []\<rparr>"
  by (simp add: two_in_def lfq_eval)

lemma busy_value: "busy = \<lparr>lq = \<lparr>lf_head = 3, lf_count = 2, lf_tail = 1, lf_data =
    [\<lparr>nd_lock = True, has_value = False, nd_value = Some 5\<rparr>,
     \<lparr>nd_lock = True, has_value = False, nd_value = None\<rparr>]\<rparr>,
    pp = [PSlot 7 1 1, PLocked 8 0 2], cc = CLocked, issued = [5, 7, 8], returned = [Some 5]\<rparr>"
  by (simp add: busy_def lfq_eval)

lemma two_in_reach: "lfq_reach 2 2 two_in"
proof -
  have "lfq_reach 2 2 (enq_call 0 5 (l_start 2 2 :: nat lsys))"
    by (intro lfq_reach_enq_call lfq_reach_start size_ok_2) (simp_all add: lfq_eval)
  moreover have "at_rest (enq_call 0 5 (l_start 2 2 :: nat lsys))" by (simp add: lfq_eval)
  ultimately show ?thesis
    unfolding two_in_def by (rule lfq_reach_enq_call) simp
qed

lemma busy_reach: "lfq_reach 2 2 busy"
proof -
  let ?s = "deq_call (enq_call 0 5 (l_start 2 2 :: nat lsys))"
  have "lfq_reach 2 2 ?s"
    by (intro lfq_reach_deq_call lfq_reach_enq_call lfq_reach_start size_ok_2)
      (simp_all add: lfq_eval)
  moreover have "pp ?s = [PIdle, PIdle]" by (simp add: lfq_eval)
  ultimately have "lfq_reach 2 2 (enq_start 0 7 ?s)"
    by - (rule lfq_reach_step [OF _ l_call], simp_all)
  moreover have "pp (enq_start 0 7 ?s) = [PAdmitted 7, PIdle]" by (simp add: lfq_eval)
  ultimately have "lfq_reach 2 2 (enq_start (Suc 0) 8 (enq_start 0 7 ?s))"
    by - (rule lfq_reach_step [OF _ l_call], simp_all)
  then show ?thesis
    unfolding busy_def by (intro lfq_reach_step [OF _ l_cons] lfq_reach_enq_step) simp_all
qed

lemma lfq_safe_witness:
  "cc busy = CLocked \<and> PFailed \<notin> set (pp busy) \<and> exclusive 2 busy \<and> unat (lf_count (lq busy)) = 2"
  using lfq_safe [OF busy_reach] by (simp add: busy_value)

lemma lfq_fifo_witness: "issued busy = [5, 7, 8] \<and> returned busy = map Some (take 1 (issued busy))"
  using lfq_fifo [OF busy_reach] by (simp add: busy_value)

lemma lfq_enqueue_refines_witness:
  "contents (lq (enq_call 1 9 two_in)) = [Some 5, Some 6] \<and> at_rest (enq_call 1 9 two_in)"
proof -
  have "at_rest two_in" "contents (lq two_in) = [Some 5, Some 6]"
    by (simp_all add: two_in_value at_rest_def two_nodes contents_def capacity_def upt_rec)
  then show ?thesis using lfq_enqueue_refines [OF two_in_reach, of 1 9] by simp
qed

lemma lfq_dequeue_refines_witness:
  "contents (lq (deq_call two_in)) = [Some 6] \<and> returned (deq_call two_in) = [Some 5]"
proof -
  have "at_rest two_in" "contents (lq two_in) = [Some 5, Some 6]" "returned two_in = []"
    by (simp_all add: two_in_value at_rest_def two_nodes contents_def capacity_def upt_rec)
  then show ?thesis using lfq_dequeue_refines [OF two_in_reach] by simp
qed

end
