(* ===== verification/Lfq_Open_Props.thy ===== *)
theory Lfq_Open_Props
  imports Lfq_Close Lfq_Fifo
begin

text \<open>
  What \<open>ipc_lfq::open\<close> and \<open>ipc_lfq::close\<close> promise to any number of processes, where they break the promise, the
  queues of the two testers, and a kernel that behaves as documented, on which the theorems are tried.
\<close>

section \<open>A kernel\<close>

text \<open>
  Objects are numbered in the order of creation, addresses of a process in the order of its mappings; a
  process's descriptors are a table.
\<close>

record kernel =
  kn_names :: "string \<Rightarrow> nat option"
  kn_sizes :: "nat list"
  kn_desc :: "nat \<Rightarrow> nat option list"
  kn_map :: "nat \<Rightarrow> nat option list"

definition entry_of :: "nat option list \<Rightarrow> int \<Rightarrow> nat option" where
  "entry_of xs i = (if 0 \<le> i \<and> nat i < length xs then xs ! nat i else None)"

fun free_slot :: "nat option list \<Rightarrow> nat" where
  "free_slot [] = 0"
| "free_slot (None # xs) = 0"
| "free_slot (Some ob # xs) = Suc (free_slot xs)"

definition put_entry :: "nat option list \<Rightarrow> nat \<Rightarrow> nat \<Rightarrow> nat option list" where
  "put_entry xs i ob = (if i < length xs then xs[i := Some ob] else xs @ [Some ob])"

definition kn_view :: "kernel \<Rightarrow> shm_view" where
  "kn_view k = \<lparr>v_name = kn_names k, v_size = (\<lambda>ob. if ob < length (kn_sizes k) then Some (kn_sizes k ! ob) else None),
     v_desc = (\<lambda>p. entry_of (kn_desc k p)), v_map = (\<lambda>p. entry_of (kn_map k p))\<rparr>"

definition new_desc :: "nat \<Rightarrow> nat \<Rightarrow> kernel \<Rightarrow> int \<times> kernel" where
  "new_desc p ob k =
     (let fd = free_slot (kn_desc k p)
      in (int fd, k\<lparr>kn_desc := (kn_desc k)(p := put_entry (kn_desc k p) fd ob)\<rparr>))"

definition kn_drop :: "nat option list \<Rightarrow> int \<Rightarrow> nat option list" where
  "kn_drop xs i = (if 0 \<le> i \<and> nat i < length xs then xs[nat i := None] else xs)"

definition sample_kernel :: "kernel posix" where
  "sample_kernel =
     \<lparr>sys_create = (\<lambda>p n k. case kn_names k n of
          Some ob \<Rightarrow> (-1, k)
        | None \<Rightarrow> new_desc p (length (kn_sizes k))
            (k\<lparr>kn_names := (kn_names k)(n \<mapsto> length (kn_sizes k)), kn_sizes := kn_sizes k @ [0]\<rparr>)),
      sys_attach = (\<lambda>p n k. case kn_names k n of Some ob \<Rightarrow> new_desc p ob k | None \<Rightarrow> (-1, k)),
      sys_truncate = (\<lambda>p fd sz k. case entry_of (kn_desc k p) fd of
          Some ob \<Rightarrow> if ob < length (kn_sizes k) then (0, k\<lparr>kn_sizes := (kn_sizes k)[ob := sz]\<rparr>) else (-1, k)
        | None \<Rightarrow> (-1, k)),
      sys_mmap = (\<lambda>p sz fd k. case entry_of (kn_desc k p) fd of
          Some ob \<Rightarrow> (int (length (kn_map k p)), k\<lparr>kn_map := (kn_map k)(p := kn_map k p @ [Some ob])\<rparr>)
        | None \<Rightarrow> (-1, k)),
      sys_munmap = (\<lambda>p a sz k. (0, k\<lparr>kn_map := (kn_map k)(p := kn_drop (kn_map k p) a)\<rparr>)),
      sys_close = (\<lambda>p fd k. (if entry_of (kn_desc k p) fd = None then -1 else 0,
        k\<lparr>kn_desc := (kn_desc k)(p := kn_drop (kn_desc k p) fd)\<rparr>)),
      sys_unlink = (\<lambda>p n k. (if kn_names k n = None then -1 else 0, k\<lparr>kn_names := (kn_names k)(n := None)\<rparr>)),
      sys_view = kn_view\<rparr>"

lemma free_slot_lowest: "lowest (dom (entry_of xs)) (int (free_slot xs))"
proof (induction xs rule: free_slot.induct)
  case (3 ob xs)
  have e: "entry_of (Some ob # xs) i = (if i = 0 then Some ob else entry_of xs (i - 1))" for i
    by (auto simp: entry_of_def nth_Cons' nat_diff_distrib)
  have "0 \<le> j - 1 \<and> j - 1 < int (free_slot xs) \<longrightarrow> j - 1 \<in> dom (entry_of xs)" for j
    using 3 unfolding lowest_def by blast
  moreover have "entry_of xs (int (free_slot xs)) = None" using 3 by (auto simp: lowest_def)
  ultimately show ?case by (fastforce simp: lowest_def e domIff)
qed (auto simp: lowest_def entry_of_def domIff)

lemma entry_of_put:
  "i \<le> length xs \<Longrightarrow> entry_of (put_entry xs i ob) = (entry_of xs)(int i \<mapsto> ob)"
  by (auto simp: entry_of_def put_entry_def fun_eq_iff nth_append nth_list_update)

lemma free_slot_le: "free_slot xs \<le> length xs"
  by (induction xs rule: free_slot.induct) auto

lemma entry_of_drop: "entry_of (kn_drop xs i) = (entry_of xs)(i := None)"
  by (auto simp: entry_of_def kn_drop_def fun_eq_iff nth_list_update)

lemma entry_of_snoc: "entry_of (xs @ [Some ob]) = (entry_of xs)(int (length xs) \<mapsto> ob)"
  by (auto simp: entry_of_def fun_eq_iff nth_append)

lemma entry_of_length: "entry_of xs (int (length xs)) = None"
  by (simp add: entry_of_def)

lemma upd_entry: "upd (\<lambda>p. entry_of (f p)) p x y = (\<lambda>q. if q = p then (entry_of (f p))(x := y) else entry_of (f q))"
  by (auto simp: upd_def)

lemma sample_kernel_posix: "posix_shm sample_kernel"
  unfolding posix_shm_def
proof (intro conjI)
  show "creates sample_kernel"
    by (auto simp: creates_def sample_kernel_def new_desc_def Let_def kn_view_def free_slot_lowest upd_entry entry_of_put
        free_slot_le fun_eq_iff nth_append intro!: exI [of _ "length _"] split: option.splits)
  show "attaches_names sample_kernel"
    by (auto simp: attaches_names_def sample_kernel_def new_desc_def Let_def kn_view_def free_slot_lowest upd_entry entry_of_put
        free_slot_le fun_eq_iff split: option.splits)
  show "maps_objects sample_kernel"
    by (auto simp: maps_objects_def sample_kernel_def kn_view_def upd_entry entry_of_snoc entry_of_length fun_eq_iff
        split: option.splits if_splits)
  show "releases sample_kernel"
    by (auto simp: releases_def sample_kernel_def kn_view_def upd_entry entry_of_drop fun_eq_iff)
qed

section \<open>Opening\<close>

text \<open>
  C32. In every interleaving of the system calls of any number of processes that open queues under free names: no
  assertion fails; no queue is constructed twice; whoever got a pointer for a name has the
  same object behind it; and when all calls have returned, each of these objects has the size of a queue and
  holds an empty one.
\<close>

theorem opened_once:
  assumes "posix_shm K" and "clean K names k" and "o_reach K sz N names k s"
  shows "op_pc (procs s p) \<noteq> OFail e \<and> distinct (built s) \<and>
    (\<forall>(n, a) \<in> set (op_got (procs s p)).
       \<exists>ob. v_name (sys_view K (os s)) n = Some ob \<and> v_map (sys_view K (os s)) p a = Some ob \<and>
         (all_open s \<longrightarrow> ob \<in> set (built s) \<and> v_size (sys_view K (os s)) ob = Some sz \<and> sh_q (shm s ob) = new_lfq N))"
proof -
  note S = open_shared [OF assms]
  have i: "o_inv K sz N names k s" by (rule o_reach_inv [OF assms])
  have "\<exists>ob. v_name (sys_view K (os s)) n = Some ob \<and> v_map (sys_view K (os s)) p a = Some ob \<and>
      (all_open s \<longrightarrow> ob \<in> set (built s) \<and> v_size (sys_view K (os s)) ob = Some sz \<and> sh_q (shm s ob) = new_lfq N)"
    if g: "(n, a) \<in> set (op_got (procs s p))" for n a
  proof -
    obtain ob where ob: "v_name (sys_view K (os s)) n = Some ob" "v_map (sys_view K (os s)) p a = Some ob"
      using S(3) [OF g] by blast
    have "ob \<in> set (built s) \<and> v_size (sys_view K (os s)) ob = Some sz \<and> sh_q (shm s ob) = new_lfq N" if o: "all_open s"
    proof -
      have "n \<in> set (names p)" using all_open_tables(1) [OF i o, of p] g by (metis fst_conv image_eqI set_map)
      from all_open_built [OF i o this] show ?thesis using ob(1) by (metis option.inject shared.select_convs(2))
    qed
    then show ?thesis using ob by blast
  qed
  then show ?thesis using S(1,2) by blast
qed

section \<open>Closing\<close>

lemma same_fds_only: "same_fds K sz s \<Longrightarrow> same_fds K sz (only C s)"
  by (simp add: same_fds_def only_def Let_def)

text \<open>
  C33. Processes open the same names with the same descriptor numbers in use; then those of \<open>C\<close> close all their
  queues, in any interleaving of the system calls: no access fails and every \<open>close\<close> returns \<open>true\<close>. A process that is
  through has the descriptors and mappings it started with, and the names it closed are free; the processes outside \<open>C\<close>
  keep theirs.
\<close>

theorem closed_clean:
  assumes "posix_shm K" and "clean K names k" and "\<And>p. names p = [] \<or> names p = ns"
    and "\<And>p. names p = ns \<Longrightarrow> dom (v_desc (sys_view K k) p) = D"
    and "o_reach K sz N names k s" and "all_open s" and "c_reach K sz (only C s) t"
  shows "cl_pc (cprocs t p) \<noteq> KFail e \<and> set (cl_ret (cprocs t p)) \<subseteq> {True} \<and>
    (p \<in> C \<longrightarrow> cl_todo (cprocs t p) = [] \<longrightarrow>
       v_desc (sys_view K (cos t)) p = v_desc (sys_view K k) p \<and> v_map (sys_view K (cos t)) p = v_map (sys_view K k) p \<and>
       (\<forall>n \<in> set (names p). v_name (sys_view K (cos t)) n = None)) \<and>
    (p \<notin> C \<longrightarrow> v_desc (sys_view K (cos t)) p = v_desc (sys_view K (os s)) p \<and>
       v_map (sys_view K (cos t)) p = v_map (sys_view K (os s)) p)"
proof -
  have i: "o_inv K sz N names k s" by (rule o_reach_inv [OF assms(1,2,5)])
  note T = all_open_tables [OF i assms(6), of p]
  have "c_inv K (only C s) t"
    by (rule c_reach_inv [OF assms(1) same_fds_only [OF same_fds_all_open [OF assms(1,5,6,2,3,4)]] assms(7)])
  then have C: "closer_inv (procs (only C s) p) (v_desc (sys_view K (os s)) p) (v_map (sys_view K (os s)) p)
      (v_name (sys_view K (cos t))) (v_desc (sys_view K (cos t)) p) (v_map (sys_view K (cos t)) p) (cprocs t p)"
    by (simp add: c_inv_def Let_def only_def)
  note C = C [unfolded closer_inv_def Let_def]
  have "v_desc (sys_view K (cos t)) p = v_desc (sys_view K k) p \<and> v_map (sys_view K (cos t)) p = v_map (sys_view K k) p \<and>
      (\<forall>n \<in> set (names p). v_name (sys_view K (cos t)) n = None)" if e: "cl_todo (cprocs t p) = []" and p: "p \<in> C"
  proof (intro conjI)
    have pr: "procs (only C s) p = procs s p" using p by (simp add: only_def)
    have g: "length (op_got (procs s p)) = length (names p)" using arg_cong [OF T(1), of length] by simp
    have j: "length (cl_ret (cprocs t p)) = length (op_got (procs s p))" and pc: "cl_pc (cprocs t p) = KRead"
      using C e pr by (auto split: kpc.splits)
    have "closed (cprocs t p) = length (op_got (procs s p))" "unmapped (cprocs t p) = length (op_got (procs s p))"
      using j pc by (simp_all add: closed_def unmapped_def)
    then show "v_desc (sys_view K (cos t)) p = v_desc (sys_view K k) p" "v_map (sys_view K (cos t)) p = v_map (sys_view K k) p"
      using C g T(2) pr unfolding T(7,8) by (simp_all add: without_def)
    show "\<forall>n \<in> set (names p). v_name (sys_view K (cos t)) n = None"
      unfolding T(1) [symmetric] all_set_conv_all_nth using C j pr by simp
  qed
  moreover have "v_desc (sys_view K (cos t)) p = v_desc (sys_view K (os s)) p \<and>
      v_map (sys_view K (cos t)) p = v_map (sys_view K (os s)) p" if "p \<notin> C"
    using C that by (simp add: only_def)
  ultimately show ?thesis using C by (auto split: kpc.splits)
qed

section \<open>The race between \<open>open\<close> and the construction\<close>

text \<open>The call \<open>enqueue(v)\<close> of one process on the queue in an object, without interference.\<close>

definition enqueue_in :: "nat \<Rightarrow> nat \<Rightarrow> 'v \<Rightarrow> ('k, 'v) osys \<Rightarrow> ('k, 'v) osys" where
  "enqueue_in N ob v s =
     s\<lparr>shm := (shm s)(ob := (shm s ob)\<lparr>sh_q := lq (enq_call 0 v ((l_start N 1)\<lparr>lq := sh_q (shm s ob)\<rparr>))\<rparr>)\<rparr>"

lemma o_reach_step: "o_reach K sz N names k s \<Longrightarrow> o_reach K sz N names k (open_step K sz p s)"
  unfolding o_reach_def by (erule reach_step) (rule o_step)

lemma ogoto_simps [simp]:
  "procs (ogoto p pr s) q = (if q = p then pr else procs s q)" "os (ogoto p pr s) = os s"
  "shm (ogoto p pr s) = shm s" "built (ogoto p pr s) = built s"
  by (simp_all add: ogoto_def)

text \<open>
  Process 1 opens while process 0 is between its creation and \<open>ftruncate\<close>.
\<close>

lemma second_opens_early:
  assumes K: "posix_shm K" and c: "clean K names k" and n: "names 0 = [n]" "names 1 = [n]"
  obtains s fd ob a where "o_reach K sz N names k s" "op_todo (procs s 0) = [n]" "op_pc (procs s 0) = OSize fd"
    "v_desc (sys_view K (os s)) 0 fd = Some ob" "v_size (sys_view K (os s)) ob = Some 0"
    "op_todo (procs s 1) = []" "op_got (procs s 1) = [(n, a)]" "v_map (sys_view K (os s)) 1 a = Some ob"
    "shm s ob = zeroed N"
proof -
  define s0 :: "('a, 'b) osys" where "s0 = o_start N names k"
  have n0: "v_name (sys_view K (os s0)) n = None"
    using c n(1) unfolding clean_def s0_def o_start_def by (metis list.set_intros(1) osys.select_convs(1))
  have p: "op_todo (procs s0 0) = [n]" "op_pc (procs s0 0) = OExcl" "op_todo (procs s0 1) = [n]"
    "op_pc (procs s0 1) = OExcl" "op_got (procs s0 1) = []" using n by (simp_all add: s0_def o_start_def)
  have m: "shm s0 ob = zeroed N" for ob by (simp add: s0_def o_start_def)
  obtain fd ob k1 where e1: "open_step K sz 0 s0 = ogoto 0 (got_fd fd (OSize fd) (procs s0 0)) (s0\<lparr>os := k1\<rparr>)"
    and v1: "sys_view K k1 = (sys_view K (os s0))\<lparr>v_name := (v_name (sys_view K (os s0)))(n \<mapsto> ob),
       v_size := (v_size (sys_view K (os s0)))(ob \<mapsto> 0), v_desc := upd (v_desc (sys_view K (os s0))) 0 fd (Some ob)\<rparr>"
    using step_create [OF K p(1,2) n0] by blast
  define s1 where "s1 = open_step K sz 0 s0"
  have s1: "os s1 = k1" "procs s1 = (procs s0)(0 := got_fd fd (OSize fd) (procs s0 0))" "shm s1 = shm s0"
    by (simp_all add: s1_def e1 fun_eq_iff)
  have n1: "v_name (sys_view K (os s1)) n = Some ob" by (simp add: s1 v1)
  obtain k2 where e2: "open_step K sz 1 s1 = ogoto 1 ((procs s1 1)\<lparr>op_pc := OPlain\<rparr>) (s1\<lparr>os := k2\<rparr>)"
    and v2: "sys_view K k2 = sys_view K (os s1)"
    by (rule step_taken [OF K _ _ n1, of 1 "[]"]) (simp_all add: s1 p [simplified])
  define s2 where "s2 = open_step K sz 1 s1"
  have s2: "os s2 = k2" "procs s2 = (procs s1)(1 := (procs s1 1)\<lparr>op_pc := OPlain\<rparr>)" "shm s2 = shm s1"
    by (simp_all add: s2_def e2 [simplified] fun_eq_iff)
  have n2: "v_name (sys_view K (os s2)) n = Some ob" by (simp add: s2 v2 n1)
  obtain fd' k3 where e3: "open_step K sz 1 s2 = ogoto 1 (got_fd fd' (OMap fd' False) (procs s2 1)) (s2\<lparr>os := k3\<rparr>)"
    and v3: "sys_view K k3 = (sys_view K (os s2))\<lparr>v_desc := upd (v_desc (sys_view K (os s2))) 1 fd' (Some ob)\<rparr>"
    by (rule step_attach [OF K _ _ n2, of 1 "[]"]) (simp_all add: s1 s2 p [simplified])
  define s3 where "s3 = open_step K sz 1 s2"
  have s3: "os s3 = k3" "procs s3 = (procs s2)(1 := got_fd fd' (OMap fd' False) (procs s2 1))" "shm s3 = shm s2"
    by (simp_all add: s3_def e3 [simplified] fun_eq_iff)
  have d3: "v_desc (sys_view K (os s3)) 1 fd' = Some ob" by (simp add: s3 v3)
  obtain a k4 where e4: "open_step K sz 1 s3 = ogoto 1 (opened n a (procs s3 1)) (s3\<lparr>os := k4\<rparr>)"
    and v4: "sys_view K k4 = (sys_view K (os s3))\<lparr>v_map := upd (v_map (sys_view K (os s3))) 1 a (Some ob)\<rparr>"
    by (rule step_map [OF K _ _ d3, of n "[]" False]) (simp_all add: s1 s2 s3 got_fd_def p [simplified])
  define s4 where "s4 = open_step K sz 1 s3"
  have s4: "os s4 = k4" "procs s4 = (procs s3)(1 := opened n a (procs s3 1))" "shm s4 = shm s3"
    by (simp_all add: s4_def e4 [simplified] fun_eq_iff)
  have "o_reach K sz N names k s0" by (simp add: o_reach_def s0_def reach_init)
  then have "o_reach K sz N names k s4" unfolding s4_def s3_def s2_def s1_def by (intro o_reach_step)
  then show ?thesis
    by (rule that [of _ fd ob a])
      (simp_all add: s1 s2 s3 s4 v1 v2 v3 v4 got_fd_def opened_def p [simplified] m)
qed

text \<open>Then process 0 sets the size and maps the object, and is about to run the constructor.\<close>

lemma second_opens_before_construction:
  assumes K: "posix_shm K" and c: "clean K names k" and n: "names 0 = [n]" "names 1 = [n]"
  obtains s fd a0 ob a where "o_reach K sz N names k s" "op_todo (procs s 0) = [n]" "op_pc (procs s 0) = OCons fd a0"
    "v_map (sys_view K (os s)) 0 a0 = Some ob" "v_size (sys_view K (os s)) ob = Some sz"
    "op_got (procs s 1) = [(n, a)]" "v_map (sys_view K (os s)) 1 a = Some ob" "shm s ob = zeroed N"
proof -
  obtain s :: "('a, 'b) osys" and fd ob a where s: "o_reach K sz N names k s" "op_todo (procs s 0) = [n]" "op_pc (procs s 0) = OSize fd"
    "v_desc (sys_view K (os s)) 0 fd = Some ob" "v_size (sys_view K (os s)) ob = Some 0"
    "op_todo (procs s 1) = []" "op_got (procs s 1) = [(n, a)]" "v_map (sys_view K (os s)) 1 a = Some ob"
    "shm s ob = zeroed N"
    by (rule second_opens_early [OF assms])
  have "v_size (sys_view K (os s)) ob \<noteq> None" using s(5) by simp
  from step_size [OF K s(2,3,4) this] obtain k1 where
    e1: "open_step K sz 0 s = ogoto 0 ((procs s 0)\<lparr>op_pc := OMap fd True\<rparr>) (s\<lparr>os := k1\<rparr>)"
    and v1: "sys_view K k1 = (sys_view K (os s))\<lparr>v_size := (v_size (sys_view K (os s)))(ob \<mapsto> sz)\<rparr>" by blast
  define s1 where "s1 = open_step K sz 0 s"
  have s1: "os s1 = k1" "procs s1 = (procs s)(0 := (procs s 0)\<lparr>op_pc := OMap fd True\<rparr>)" "shm s1 = shm s"
    by (simp_all add: s1_def e1 fun_eq_iff)
  have d1: "v_desc (sys_view K (os s1)) 0 fd = Some ob" by (simp add: s1 v1 s(4))
  obtain a0 k2 where e2: "open_step K sz 0 s1 = ogoto 0 ((procs s1 0)\<lparr>op_pc := OCons fd a0\<rparr>) (s1\<lparr>os := k2\<rparr>)"
    and v2: "sys_view K k2 = (sys_view K (os s1))\<lparr>v_map := upd (v_map (sys_view K (os s1))) 0 a0 (Some ob)\<rparr>"
    by (rule step_map [OF K _ _ d1, of n "[]" True]) (simp_all add: s1 s(2))
  define u where "u = open_step K sz 0 s1"
  have "o_reach K sz N names k u" unfolding u_def s1_def by (intro o_reach_step s(1))
  moreover have "os u = k2" "procs u = (procs s1)(0 := (procs s1 0)\<lparr>op_pc := OCons fd a0\<rparr>)" "shm u = shm s1"
    by (simp_all add: u_def e2 fun_eq_iff)
  ultimately show ?thesis
    using s(7,8) by (intro that [of u fd a0 ob a]) (simp_all add: v2 s1 v1 s(2,9))
qed

text \<open>
  C34. A second process can return from \<open>open\<close> while the first is still inside: its queue then has no
  memory behind it yet; and a message that it puts in before the first process runs the constructor is lost, although
  \<open>enqueue\<close> took it.
\<close>

theorem late_construction_loses:
  assumes "posix_shm K" and "clean K names k" and "names 0 = [n]" and "names 1 = [n]" and "size_ok N 1"
  shows "(\<exists>(s :: (_, 'v) osys) a ob. o_reach K sz N names k s \<and> op_got (procs s 1) = [(n, a)] \<and>
      v_map (sys_view K (os s)) 1 a = Some ob \<and> v_size (sys_view K (os s)) ob = Some 0) \<and>
    (\<exists>s a ob. o_reach K sz N names k s \<and> op_got (procs s 1) = [(n, a)] \<and>
      v_map (sys_view K (os s)) 1 a = Some ob \<and> v_size (sys_view K (os s)) ob = Some sz \<and>
      contents (sh_q (shm (enqueue_in N ob (v :: 'v) s) ob)) = [Some v] \<and>
      (let t = open_step K sz 0 (enqueue_in N ob v s)
       in op_todo (procs t 0) = [] \<and> contents (sh_q (shm t ob)) = []))"
proof (rule conjI)
  obtain s :: "(_, 'v) osys" and fd ob a where "o_reach K sz N names k s" "op_got (procs s 1) = [(n, a)]"
    "v_map (sys_view K (os s)) 1 a = Some ob" "v_size (sys_view K (os s)) ob = Some 0"
    by (rule second_opens_early [OF assms(1-4)])
  then show "\<exists>(s :: (_, 'v) osys) a ob. o_reach K sz N names k s \<and> op_got (procs s 1) = [(n, a)] \<and>
      v_map (sys_view K (os s)) 1 a = Some ob \<and> v_size (sys_view K (os s)) ob = Some 0" by blast
next
  obtain u :: "(_, 'v) osys" and fd a0 ob a where r: "o_reach K sz N names k u"
    and u: "op_todo (procs u 0) = [n]" "op_pc (procs u 0) = OCons fd a0" "v_map (sys_view K (os u)) 0 a0 = Some ob"
    "v_size (sys_view K (os u)) ob = Some sz" "op_got (procs u 1) = [(n, a)]" "v_map (sys_view K (os u)) 1 a = Some ob"
    "shm u ob = zeroed N"
    by (rule second_opens_before_construction [OF assms(1-4)])
  have q: "sh_q (shm (enqueue_in N ob v u) ob) = lq (enq_call 0 v (l_start N 1))"
    by (simp add: enqueue_in_def u(7) zeroed_def l_start_def)
  have "at_rest (l_start N 1 :: 'v lsys)" "contents (lq (l_start N 1 :: 'v lsys)) = []" "0 < N"
    using size_ok_pos [OF assms(5)] by (simp_all add: at_rest_def l_start_def contents_def new_lfq_def)
  then have "contents (lq (enq_call 0 v (l_start N 1))) = [Some v]"
    using lfq_enqueue_refines [OF lfq_reach_start [OF assms(5)], of 0 v] by simp
  moreover have e: "open_step K sz 0 (enqueue_in N ob v u) = ogoto 0 (opened n a0 (procs u 0))
      ((enqueue_in N ob v u)\<lparr>shm := (shm (enqueue_in N ob v u))(ob := construct fd (shm (enqueue_in N ob v u) ob)),
         built := built u @ [ob]\<rparr>)"
    using step_construct [of "enqueue_in N ob v u" 0 n "[]" fd a0 K ob sz] u by (simp add: enqueue_in_def)
  moreover have "contents (sh_q (construct fd x)) = []" for x :: "'v shared" by (simp add: construct_def contents_def Let_def)
  ultimately show "\<exists>s a ob. o_reach K sz N names k s \<and> op_got (procs s 1) = [(n, a)] \<and>
      v_map (sys_view K (os s)) 1 a = Some ob \<and> v_size (sys_view K (os s)) ob = Some sz \<and>
      contents (sh_q (shm (enqueue_in N ob v s) ob)) = [Some v] \<and>
      (let t = open_step K sz 0 (enqueue_in N ob v s)
       in op_todo (procs t 0) = [] \<and> contents (sh_q (shm t ob)) = [])"
    using r u q by (intro exI [of _ u] exI [of _ a] exI [of _ ob]) (simp add: opened_def)
qed

section \<open>The descriptor of another process\<close>

text \<open>
  \<open>close\<close> takes the number of the descriptor from the shared queue. In a process whose own descriptor of the
  queue has another number, it closes whatever has the creator's number there (and returns \<open>false\<close> when nothing has)
  and leaves its own descriptor open.
\<close>

theorem close_takes_creators_fd:
  assumes "posix_shm K" and "op_got (procs s p) = [(n, self)]" and "v_map (sys_view K (os s)) p self = Some ob"
    and "v_size (sys_view K (os s)) ob = Some sz" and "v_desc (sys_view K (os s)) p own = Some ob"
    and "sh_fd (shm s ob) \<noteq> own"
  shows "let t = (close_step K sz p ^^ 4) (closing s)
    in cl_todo (cprocs t p) = [] \<and> cl_ret (cprocs t p) = [v_desc (sys_view K (os s)) p (sh_fd (shm s ob)) \<noteq> None] \<and>
       v_desc (sys_view K (cos t)) p (sh_fd (shm s ob)) = None \<and> v_desc (sys_view K (cos t)) p own = Some ob"
proof -
  let ?v = "sys_view K (os s)" and ?fd = "sh_fd (shm s ob)" and ?t = "closing s"
  obtain r1 k1 where e1: "sys_munmap K p self sz (os s) = (r1, k1)" by fastforce
  have v1: "0 \<le> r1" "sys_view K k1 = ?v\<lparr>v_map := upd (v_map ?v) p self None\<rparr>"
    using munmap_addr [OF assms(1) e1 assms(3)] by simp_all
  obtain r2 k2 where e2: "sys_close K p ?fd k1 = (r2, k2)" by fastforce
  have v2: "r2 = (if v_desc ?v p ?fd = None then -1 else 0)" "sys_view K k2 = (sys_view K k1)\<lparr>v_desc := upd (v_desc ?v) p ?fd None\<rparr>"
    using close_fd [OF assms(1) e2] v1(2) by simp_all
  obtain r3 k3 where e3: "sys_unlink K p n k2 = (r3, k3)" by fastforce
  have v3: "sys_view K k3 = (sys_view K k2)\<lparr>v_name := (v_name (sys_view K k2))(n := None)\<rparr>" by (rule unlink_name [OF assms(1) e3])
  have "(close_step K sz p ^^ 4) ?t = cgoto p \<lparr>cl_todo = [], cl_pc = KRead, cl_ret = [v_desc ?v p ?fd \<noteq> None]\<rparr> (?t\<lparr>cos := k3\<rparr>)"
    using assms(2-4) e1 e2 e3 v1(1) v2(1)
    by (simp add: eval_nat_numeral close_step_def closing_def cgoto_def Let_def)
  then show ?thesis using v1(2) v2(2) v3 assms(5,6) by (simp add: cgoto_def)
qed

section \<open>The queues of the testers\<close>

text \<open>
  The names that the processes of \<open>archive/lfq/tester.cc\<close> and the nodes of \<open>archive/xpmem-experiments/tester.cc\<close> open, in this
  order. The first close both in the same order; of the second only node 0 does, in its exit handler. The
  driver's answer \<open>segid\<close> is an argument; the results are this node's segment, the names that it opens, and whether it registers
  the exit handler.
\<close>

definition tester_queues :: "nat \<Rightarrow> string list" where
  "tester_queues p = (if p < 2 then [''queue_0_'', ''queue_1_''] else [])"

definition xpmem_queues :: "string list" where
  "xpmem_queues = [''charmxx_send_queue'', ''charmxx_recv_queue'']"

definition setup_segment :: "int \<Rightarrow> nat \<Rightarrow> ((int \<times> nat) \<times> string list \<times> bool) res" where
  "setup_segment segid mine =
     (if segid = -1 then Inl Aborted else Inr ((segid, mine), xpmem_queues, mine = 0))"

definition exit_handler :: "('k, 'v) osys \<Rightarrow> ('k, 'v) csys" where
  "exit_handler s = closing (only {0} s)"

text \<open>Three files are open in every process.\<close>

definition first_kernel :: "nat option list \<Rightarrow> kernel" where
  "first_kernel ds = \<lparr>kn_names = (\<lambda>_. None), kn_sizes = [0, 0, 0, 0],
     kn_desc = (\<lambda>p. if p = 1 then ds else [Some 0, Some 1, Some 2]), kn_map = (\<lambda>_. [])\<rparr>"

definition opens :: "nat list \<Rightarrow> (nat \<Rightarrow> string list) \<Rightarrow> kernel \<Rightarrow> (kernel, int) osys" where
  "opens ps names k = fold (open_step sample_kernel 8) ps (o_start 16 names k)"

definition closes :: "nat list \<Rightarrow> (kernel, int) osys \<Rightarrow> (kernel, int) csys" where
  "closes ps s = fold (close_step sample_kernel 8) ps (closing s)"

lemma open_step_other: "p \<noteq> q \<Longrightarrow> procs (open_step K sz q s) p = procs s p"
  by (auto simp: open_step_def ogoto_def Let_def split: list.splits opc.splits option.splits prod.splits)

lemma open_run:
  shows "o_reach K sz N names k s \<Longrightarrow> o_reach K sz N names k (fold (open_step K sz) ps s)"
    and "p \<notin> set ps \<Longrightarrow> procs (fold (open_step K sz) ps s) p = procs s p"
  by (induction ps arbitrary: s) (simp_all add: o_reach_step open_step_other)

lemma close_run: "c_reach K sz s t \<Longrightarrow> c_reach K sz s (fold (close_step K sz) ps t)"
proof (induction ps arbitrary: t)
  case (Cons p ps)
  have "c_reach K sz s (close_step K sz p t)"
    using Cons.prems unfolding c_reach_def by (rule reach_step) (rule k_step)
  then show ?case using Cons.IH by simp
qed simp

lemma opens_reach: "o_reach sample_kernel 8 16 names k (opens ps names k)"
  unfolding opens_def by (rule open_run(1)) (simp add: o_reach_def reach_init)

lemma closes_reach: "c_reach sample_kernel 8 s (closes ps s)"
  unfolding closes_def by (rule close_run) (simp add: c_reach_def reach_init)

lemma opens_other: "p \<notin> set ps \<Longrightarrow> op_todo (procs (opens ps names k) p) = names p"
  by (simp add: opens_def open_run(2)) (simp add: o_start_def)

lemma clean_first: "clean sample_kernel tester_queues (first_kernel ds)"
  by (simp add: clean_def sample_kernel_def kn_view_def first_kernel_def tester_queues_def)

text \<open>Both processes of the tester open their queues, the second while the first constructs.\<close>

definition both_open :: "(kernel, int) osys" where
  "both_open = opens [0, 1, 1, 0, 1, 1, 0, 0, 1, 1, 1, 0, 0, 0, 0] tester_queues (first_kernel [Some 0, Some 1, Some 2])"

lemma both_open_all: "all_open both_open"
proof -
  have "op_todo (procs both_open 0) = [] \<and> op_todo (procs both_open 1) = []" by code_simp
  moreover have "op_todo (procs both_open p) = []" if "p \<noteq> 0" "p \<noteq> 1" for p
    using opens_other [of p] that by (simp add: both_open_def tester_queues_def)
  ultimately show ?thesis unfolding all_open_def by metis
qed

theorem opened_once_witness:
  "op_got (procs both_open 1) = [(''queue_0_'', 0), (''queue_1_'', 1)] \<and>
   (\<exists>ob. v_name (sys_view sample_kernel (os both_open)) ''queue_1_'' = Some ob \<and>
      v_map (sys_view sample_kernel (os both_open)) 1 1 = Some ob \<and> sh_q (shm both_open ob) = new_lfq 16)"
proof -
  have g: "op_got (procs both_open 1) = [(''queue_0_'', 0), (''queue_1_'', 1)]" by code_simp
  have r: "o_reach sample_kernel 8 16 tester_queues (first_kernel [Some 0, Some 1, Some 2]) both_open"
    unfolding both_open_def by (rule opens_reach)
  have "\<forall>(n, a) \<in> set (op_got (procs both_open 1)).
      \<exists>ob. v_name (sys_view sample_kernel (os both_open)) n = Some ob \<and>
        v_map (sys_view sample_kernel (os both_open)) 1 a = Some ob \<and> sh_q (shm both_open ob) = new_lfq 16"
    using opened_once [OF sample_kernel_posix clean_first r, where p = 1] both_open_all by blast
  then show ?thesis unfolding g by simp
qed

definition both_closed :: "(kernel, int) csys" where
  "both_closed = closes [1, 1, 1, 1, 1, 1, 1, 1] both_open"

theorem closed_clean_witness:
  "cl_ret (cprocs both_closed 1) = [True, True] \<and>
   v_desc (sys_view sample_kernel (cos both_closed)) 1 =
     v_desc (sys_view sample_kernel (first_kernel [Some 0, Some 1, Some 2])) 1 \<and>
   v_name (sys_view sample_kernel (cos both_closed)) ''queue_1_'' = None"
proof -
  let ?ds = "[Some 0, Some 1, Some 2]"
  have r: "o_reach sample_kernel 8 16 tester_queues (first_kernel ?ds) both_open"
    unfolding both_open_def by (rule opens_reach)
  have t: "cl_todo (cprocs both_closed 1) = []" "cl_ret (cprocs both_closed 1) = [True, True]" by code_simp+
  have d: "dom (v_desc (sys_view sample_kernel (first_kernel ?ds)) p) = dom (entry_of ?ds)" for p
    by (simp add: sample_kernel_def kn_view_def first_kernel_def)
  have n: "tester_queues p = [] \<or> tester_queues p = [''queue_0_'', ''queue_1_'']" for p by (simp add: tester_queues_def)
  show ?thesis
    using closed_clean [OF sample_kernel_posix clean_first n d r both_open_all, of UNIV both_closed 1]
      closes_reach [of both_open] t
    by (simp add: both_closed_def tester_queues_def only_UNIV)
qed

theorem late_construction_loses_witness:
  "\<exists>(s :: (kernel, int) osys) a ob.
     o_reach sample_kernel 8 16 (\<lambda>p. if p < 2 then [''q''] else []) (first_kernel []) s \<and>
     op_got (procs s 1) = [(''q'', a)] \<and> v_map (sys_view sample_kernel (os s)) 1 a = Some ob \<and>
     v_size (sys_view sample_kernel (os s)) ob = Some 8 \<and> contents (sh_q (shm (enqueue_in 16 ob 7 s) ob)) = [Some 7] \<and>
     (let t = open_step sample_kernel 8 0 (enqueue_in 16 ob 7 s)
      in op_todo (procs t 0) = [] \<and> contents (sh_q (shm t ob)) = [])"
proof -
  have c: "clean sample_kernel (\<lambda>p. if p < 2 then [''q''] else []) (first_kernel [])"
    by (simp add: clean_def sample_kernel_def kn_view_def first_kernel_def)
  have z: "size_ok 16 1" by (simp add: size_ok_def)
  show ?thesis
    by (rule late_construction_loses [OF sample_kernel_posix c _ _ z, THEN conjunct2]) simp_all
qed

text \<open>Process 1 has one more file open, under the number of the creator's descriptor.\<close>

definition uneven :: "(kernel, int) osys" where
  "uneven = opens [0, 0, 0, 0, 1, 1, 1] (\<lambda>p. if p < 2 then [''q''] else []) (first_kernel [Some 0, Some 1, Some 2, Some 3])"

theorem close_takes_creators_fd_witness:
  "let t = (close_step sample_kernel 8 1 ^^ 4) (closing uneven)
   in cl_ret (cprocs t 1) = [True] \<and> v_desc (sys_view sample_kernel (os uneven)) 1 3 = Some 3 \<and>
      v_desc (sys_view sample_kernel (cos t)) 1 3 = None \<and> v_desc (sys_view sample_kernel (cos t)) 1 4 = Some 4"
proof -
  have f: "op_got (procs uneven 1) = [(''q'', 0)]" "v_map (sys_view sample_kernel (os uneven)) 1 0 = Some 4"
    "v_size (sys_view sample_kernel (os uneven)) 4 = Some 8" "v_desc (sys_view sample_kernel (os uneven)) 1 4 = Some 4"
    "sh_fd (shm uneven 4) = 3" "v_desc (sys_view sample_kernel (os uneven)) 1 3 = Some 3"
    by code_simp+
  have "sh_fd (shm uneven 4) \<noteq> 4" using f(5) by simp
  from close_takes_creators_fd [OF sample_kernel_posix f(1-4) this] show ?thesis
    by (simp add: f(5,6) [simplified] Let_def)
qed

end
