(* ===== verification/Lfq_Tester.thy ===== *)
theory Lfq_Tester
  imports Lfq_Fifo
begin

text \<open>
  Programs over the bounded queue with one producer and one consumer per queue, stepped at every
  access to shared memory: what a call has done when it returns, and the test of
  \<open>archive/lfq/tester.cc\<close>, two processes that send each other numbered messages over two queues
  and check what they receive.
\<close>

section \<open>One access of a call\<close>

text \<open>
  The producer's next access inside \<open>enqueue(v)\<close>, or the first access of the call, and whether the
  call returns \<open>true\<close> with it. The consumer's next access, and the value with which \<open>dequeue\<close>
  returns \<open>true\<close>.
\<close>

definition send_step :: "'v \<Rightarrow> 'v lsys \<Rightarrow> bool \<times> 'v lsys" where
  "send_step v q = (case pp q ! 0 of
       PIdle \<Rightarrow> (False, enq_start 0 v q)
     | PCopied w k t sv \<Rightarrow> (pp (enq_step 0 q) ! 0 = PIdle, enq_step 0 q)
     | _ \<Rightarrow> (False, enq_step 0 q))"

definition recv_step :: "'v lsys \<Rightarrow> 'v option option \<times> 'v lsys" where
  "recv_step q = (case cc q of
       CDecr r \<Rightarrow> (if cc (deq_step q) = CIdle then Some r else None, deq_step q)
     | _ \<Rightarrow> (None, deq_step q))"

fun holds :: "'v \<Rightarrow> 'v ppc \<Rightarrow> bool" where
  "holds v (PAdmitted w) \<longleftrightarrow> w = v"
| "holds v (PSlot w k t) \<longleftrightarrow> w = v"
| "holds v (PLocked w k t) \<longleftrightarrow> w = v"
| "holds v (PSwapped w k t sv) \<longleftrightarrow> w = v"
| "holds v (PCopied w k t sv) \<longleftrightarrow> w = v"
| "holds v p \<longleftrightarrow> True"

text \<open>The value of a call that has its ticket and has not returned.\<close>

definition flight :: "'v \<Rightarrow> 'v lsys \<Rightarrow> 'v list" where
  "flight v q = (if tick (pp q ! 0) = None then [] else [v])"

lemma lfq_reach_facts:
  assumes "lfq_reach N np q"
  shows "length (pp q) = np" "i < np \<Longrightarrow> pp q ! i \<noteq> PFailed"
    "returned q = map Some (take (length (returned q)) (issued q))"
    "length (returned q) \<le> length (issued q)"
proof -
  note P = linv_parts [OF conjunct2 [OF lfq_reach_linv [OF assms]]]
  show len: "length (pp q) = np" by (rule P(2))
  show "i < np \<Longrightarrow> pp q ! i \<noteq> PFailed" using tickets_wf [OF P(5), of i] len by (auto simp: pc_wf_def)
  show "returned q = map Some (take (length (returned q)) (issued q))"
    "length (returned q) \<le> length (issued q)"
    using countersD [OF P(3)] by (auto simp: in_order_def)
qed

lemma send_step_spec:
  assumes q: "lfq_reach N 1 q" and h: "holds v (pp q ! 0)" and i: "issued q = xs @ flight v q"
    and s: "send_step v q = (ok, q')"
  shows "lfq_reach N 1 q' \<and> returned q' = returned q \<and> holds v (pp q' ! 0) \<and>
    (ok \<longrightarrow> pp q' ! 0 = PIdle) \<and> issued q' = (if ok then xs @ [v] else xs) @ flight v q'"
proof -
  note F = lfq_reach_facts [OF q]
  have q': "q' = (if pp q ! 0 = PIdle then enq_start 0 v q else enq_step 0 q)"
    using s by (auto simp: send_step_def split: ppc.splits)
  have r: "lfq_reach N 1 q'"
  proof (cases "pp q ! 0 = PIdle")
    case True
    then show ?thesis using q' F(1) lfq_reach_step [OF q l_call [of 0 q v]] by simp
  next
    case False
    then show ?thesis using q' lfq_reach_enq_step [OF q, of 0] by simp
  qed
  have nf: "pp q ! 0 \<noteq> PFailed" "pp q' ! 0 \<noteq> PFailed" using F(2) lfq_reach_facts(2) [OF r] by simp_all
  show ?thesis
    using r s h i nf F(1)
    by (cases "pp q ! 0")
      (auto simp: send_step_def enq_start_def enq_step_def pgoto_def flight_def Let_def acquire_def
        release_def split: if_splits)
qed

lemma recv_step_spec:
  assumes q: "lfq_reach N np q" and s: "recv_step q = (r, q')"
  shows "lfq_reach N np q' \<and> pp q' = pp q \<and> issued q' = issued q \<and>
    returned q' = returned q @ (case r of None \<Rightarrow> [] | Some x \<Rightarrow> [x]) \<and>
    (\<forall>x. r = Some x \<longrightarrow> length (returned q) < length (issued q) \<and>
      x = Some (issued q ! length (returned q)))"
proof -
  have q': "q' = deq_step q" using s by (auto simp: recv_step_def split: cpc.splits)
  have r': "lfq_reach N np q'" using lfq_reach_step [OF q l_cons] q' by simp
  have ret: "returned q' = returned q @ (case r of None \<Rightarrow> [] | Some x \<Rightarrow> [x])"
    using s by (auto simp: recv_step_def deq_step_def Let_def acquire_def release_def
      split: cpc.splits if_splits)
  note F = lfq_reach_facts [OF r']
  have iss: "issued q' = issued q" "pp q' = pp q" by (simp_all add: q' deq_step_frame)
  have "length (returned q) < length (issued q) \<and> x = Some (issued q ! length (returned q))"
    if "r = Some x" for x
  proof -
    have l: "length (returned q) < length (issued q)" using F(4) ret that iss by simp
    have "x = returned q' ! length (returned q)" using ret that by simp
    also have "\<dots> = Some (issued q ! length (returned q))"
      using arg_cong [OF F(3), of "\<lambda>ys. ys ! length (returned q)"] ret that iss l by simp
    finally show ?thesis using l by blast
  qed
  then show ?thesis using r' iss ret by blast
qed

text \<open>A value is not returned before the call that sent it has returned.\<close>

lemma recv_step_completed:
  assumes q: "lfq_reach N 1 q" and s: "recv_step q = (Some x, q')"
  shows "length (returned q) + length (flight v q) < length (issued q)"
proof (cases "tick (pp q ! 0)")
  case None
  then show ?thesis using recv_step_spec [OF q s] by (simp add: flight_def)
next
  case (Some t)
  note P = linv_parts [OF conjunct2 [OF lfq_reach_linv [OF q]]]
  have "ctook (cc q)" using s by (auto simp: recv_step_def split: cpc.splits)
  then have "taken q = Suc (length (returned q))" by (simp add: taken_def)
  moreover have "taken q \<le> t" "t < length (issued q)"
    using tick_range [OF Some tickets_wf [OF P(5)]] P(2) by simp_all
  ultimately show ?thesis using Some by (simp add: flight_def)
qed

text \<open>With room in the queue the producer is admitted.\<close>

lemma send_step_room:
  assumes q: "lfq_reach N 1 q" and r: "length (issued q) < length (returned q) + N"
    and idle: "pp q ! 0 = PIdle"
  shows "pp (enq_start 0 v q) ! 0 = PAdmitted v"
proof -
  have sz: "size_ok N 1" and inv: "linv N 1 q" using lfq_reach_linv [OF q] by auto
  note P = linv_parts [OF inv]
  have one: "pp q = [PIdle]" using idle P(2) by (cases "pp q") auto
  then have "admitted (pp q) = 0" "refused (pp q) = 0" by (simp_all add: admitted_def refused_def)
  then have "unat (lf_count (lq q)) = length (issued q) - length (returned q)"
    using counters_count [OF P(3)] sz P(2) by simp
  moreover have "length (returned q) \<le> length (issued q)" by (rule lfq_reach_facts(4) [OF q])
  ultimately have "unat (lf_count (lq q)) < capacity (lq q)" using r P(1) by (simp add: capacity_def)
  then show ?thesis using one by (simp add: enq_start_def Let_def pgoto_def)
qed

section \<open>The test\<close>

definition num_msgs :: nat where
  "num_msgs = 16"

text \<open>
  A process: the iteration, and the loop it is in with the value of the loop's counter. \<open>Failed\<close> is
  the \<open>assert(false)\<close> after a wrong value.
\<close>

datatype tphase = Sending nat | Receiving nat | Finished | Failed

record tproc =
  tp_it :: nat
  tp_phase :: tphase

record tsystem =
  ts_q0 :: "int lsys"
  ts_q1 :: "int lsys"
  ts_p0 :: tproc
  ts_p1 :: tproc

text \<open>
  The loops of both processes, on two queues that are constructed. How a process gets there - it opens both
  queues first, and nothing makes the processes wait for each other - is in \<open>Lfq_Main\<close>.
\<close>

definition tester_start :: tsystem where
  "tester_start = (let q = l_start num_msgs 1; p = \<lparr>tp_it = 0, tp_phase = Sending 1\<rparr>
     in \<lparr>ts_q0 = q, ts_q1 = q, ts_p0 = p, ts_p1 = p\<rparr>)"

definition after_send :: "nat \<Rightarrow> tproc \<Rightarrow> tproc" where
  "after_send i p = p\<lparr>tp_phase := (if i < num_msgs then Sending (i + 1) else Receiving 1)\<rparr>"

definition after_recv :: "nat \<Rightarrow> int option \<Rightarrow> tproc \<Rightarrow> tproc" where
  "after_recv i j p =
     (if j \<noteq> Some (int i) then p\<lparr>tp_phase := Failed\<rparr>
      else if i < num_msgs then p\<lparr>tp_phase := Receiving (i + 1)\<rparr>
      else if tp_it p + 1 < num_msgs then p\<lparr>tp_it := tp_it p + 1, tp_phase := Sending 1\<rparr>
      else p\<lparr>tp_phase := Finished\<rparr>)"

text \<open>One access of a process whose own queue is \<open>mine\<close>; both loops around the calls spin.\<close>

definition proc_step :: "tproc \<Rightarrow> int lsys \<Rightarrow> int lsys \<Rightarrow> tproc \<times> int lsys \<times> int lsys" where
  "proc_step p mine theirs =
     (case tp_phase p of
        Sending i \<Rightarrow> (case send_step (int i) theirs of (ok, q) \<Rightarrow> (if ok then after_send i p else p, mine, q))
      | Receiving i \<Rightarrow> (case recv_step mine of (r, q) \<Rightarrow>
          (case r of None \<Rightarrow> p | Some j \<Rightarrow> after_recv i j p, q, theirs))
      | _ \<Rightarrow> (p, mine, theirs))"

definition tester_step0 :: "tsystem \<Rightarrow> tsystem" where
  "tester_step0 s = (case proc_step (ts_p0 s) (ts_q0 s) (ts_q1 s) of (p, mine, theirs) \<Rightarrow>
     s\<lparr>ts_p0 := p, ts_q0 := mine, ts_q1 := theirs\<rparr>)"

definition tester_step1 :: "tsystem \<Rightarrow> tsystem" where
  "tester_step1 s = (case proc_step (ts_p1 s) (ts_q1 s) (ts_q0 s) of (p, mine, theirs) \<Rightarrow>
     s\<lparr>ts_p1 := p, ts_q1 := mine, ts_q0 := theirs\<rparr>)"

inductive tester_step :: "tsystem \<Rightarrow> tsystem \<Rightarrow> bool" where
  ts_0: "tester_step s (tester_step0 s)"
| ts_1: "tester_step s (tester_step1 s)"

definition tester_reach :: "tsystem \<Rightarrow> bool" where
  "tester_reach = reach (\<lambda>s. s = tester_start) tester_step"

section \<open>What has been sent and received\<close>

definition nth_msg :: "nat \<Rightarrow> int" where
  "nth_msg k = int (k mod num_msgs + 1)"

definition sent_count :: "tproc \<Rightarrow> nat" where
  "sent_count p = (case tp_phase p of Sending i \<Rightarrow> tp_it p * num_msgs + (i - 1)
     | _ \<Rightarrow> (tp_it p + 1) * num_msgs)"

definition recv_count :: "tproc \<Rightarrow> nat" where
  "recv_count p = (case tp_phase p of Sending i \<Rightarrow> tp_it p * num_msgs
     | Receiving i \<Rightarrow> tp_it p * num_msgs + (i - 1) | _ \<Rightarrow> (tp_it p + 1) * num_msgs)"

lemma count_simps [simp]:
  "tp_phase p = Sending i \<Longrightarrow> sent_count p = tp_it p * num_msgs + (i - 1)"
  "tp_phase p = Receiving i \<Longrightarrow> sent_count p = (tp_it p + 1) * num_msgs"
  "tp_phase p = Finished \<Longrightarrow> sent_count p = (tp_it p + 1) * num_msgs"
  "tp_phase p = Sending i \<Longrightarrow> recv_count p = tp_it p * num_msgs"
  "tp_phase p = Receiving i \<Longrightarrow> recv_count p = tp_it p * num_msgs + (i - 1)"
  "tp_phase p = Finished \<Longrightarrow> recv_count p = (tp_it p + 1) * num_msgs"
  by (simp_all add: sent_count_def recv_count_def)

definition phase_ok :: "tproc \<Rightarrow> bool" where
  "phase_ok p \<longleftrightarrow> tp_it p < num_msgs \<and> (case tp_phase p of
       Sending i \<Rightarrow> 1 \<le> i \<and> i \<le> num_msgs
     | Receiving i \<Rightarrow> 1 \<le> i \<and> i \<le> num_msgs
     | Finished \<Rightarrow> tp_it p + 1 = num_msgs
     | Failed \<Rightarrow> False)"

definition in_call :: "tproc \<Rightarrow> int ppc \<Rightarrow> bool" where
  "in_call p pc \<longleftrightarrow> (case tp_phase p of Sending i \<Rightarrow> holds (int i) pc | _ \<Rightarrow> pc = PIdle)"

lemma in_call_simps [simp]:
  "tp_phase p = Sending i \<Longrightarrow> in_call p pc \<longleftrightarrow> holds (int i) pc"
  "tp_phase p = Receiving i \<Longrightarrow> in_call p pc \<longleftrightarrow> pc = PIdle"
  "tp_phase p = Finished \<Longrightarrow> in_call p pc \<longleftrightarrow> pc = PIdle"
  by (simp_all add: in_call_def)

lemma in_call_idle [simp]: "in_call p PIdle"
  by (simp add: in_call_def split: tphase.split)

text \<open>The queue from the process \<open>p\<close> to the process \<open>c\<close>.\<close>

definition link :: "tproc \<Rightarrow> int lsys \<Rightarrow> tproc \<Rightarrow> bool" where
  "link p q c \<longleftrightarrow> lfq_reach num_msgs 1 q \<and> length (returned q) = recv_count c \<and>
     issued q = map nth_msg [0..<sent_count p] @ flight (nth_msg (sent_count p)) q \<and>
     in_call p (pp q ! 0)"

definition tester_inv :: "tsystem \<Rightarrow> bool" where
  "tester_inv s \<longleftrightarrow> phase_ok (ts_p0 s) \<and> phase_ok (ts_p1 s) \<and>
     link (ts_p1 s) (ts_q0 s) (ts_p0 s) \<and> link (ts_p0 s) (ts_q1 s) (ts_p1 s)"

lemma nth_msg_sending: "1 \<le> i \<Longrightarrow> i \<le> num_msgs \<Longrightarrow> nth_msg (k * num_msgs + (i - 1)) = int i"
  by (cases i) (simp_all add: nth_msg_def num_msgs_def)

lemma proc_step_ok:
  assumes p: "phase_ok p" and c: "phase_ok c" and t: "link p theirs c" and m: "link c mine p"
    and s: "proc_step p mine theirs = (p', mine', theirs')"
  shows "phase_ok p' \<and> link p' theirs' c \<and> link c mine' p'"
proof (cases "tp_phase p")
  case (Sending i)
  obtain ok q where q: "send_step (int i) theirs = (ok, q)" by fastforce
  then have s': "p' = (if ok then after_send i p else p)" "mine' = mine" "theirs' = q"
    using s Sending by (auto simp: proc_step_def)
  have i: "1 \<le> i" "i \<le> num_msgs" using p Sending by (auto simp: phase_ok_def)
  have v: "nth_msg (sent_count p) = int i" using Sending nth_msg_sending [OF i] by simp
  have spec: "lfq_reach num_msgs 1 q \<and> returned q = returned theirs \<and> holds (int i) (pp q ! 0) \<and>
    (ok \<longrightarrow> pp q ! 0 = PIdle) \<and> issued q =
      (if ok then map nth_msg [0..<sent_count p] @ [int i] else map nth_msg [0..<sent_count p]) @ flight (int i) q"
    by (rule send_step_spec [OF _ _ _ q]) (use t v Sending in \<open>auto simp: link_def\<close>)
  show ?thesis
  proof (cases ok)
    case True
    have n: "sent_count p' = Suc (sent_count p)" "recv_count p' = recv_count p" "phase_ok p'"
      using s'(1) True Sending i p by (auto simp: after_send_def phase_ok_def num_msgs_def)
    have f: "flight x q = []" for x using spec True by (simp add: flight_def)
    have "issued q = map nth_msg [0..<sent_count p'] @ flight (nth_msg (sent_count p')) q"
      using spec True v n(1) f by simp
    then have "link p' q c" using spec True t s'(1)
      by (auto simp: link_def after_send_def)
    then show ?thesis using n(2,3) m s'(2,3) by (auto simp: link_def)
  next
    case False
    then have "link p q c" using spec t Sending v by (simp add: link_def)
    then show ?thesis using False s' p m by simp
  qed
next
  case (Receiving i)
  obtain r q where q: "recv_step mine = (r, q)" by fastforce
  then have s': "p' = (case r of None \<Rightarrow> p | Some j \<Rightarrow> after_recv i j p)" "mine' = q" "theirs' = theirs"
    using s Receiving by (auto simp: proc_step_def)
  have i: "1 \<le> i" "i \<le> num_msgs" using p Receiving by (auto simp: phase_ok_def)
  have reach: "lfq_reach num_msgs 1 mine" using m by (simp add: link_def)
  note spec = recv_step_spec [OF reach q]
  show ?thesis
  proof (cases r)
    case None
    then have "link c q p" using spec m by (simp add: link_def flight_def)
    then show ?thesis using None s' p t by simp
  next
    case (Some j)
    let ?k = "recv_count p"
    have "issued mine ! ?k = nth_msg ?k"
      using spec Some m by (auto simp: link_def flight_def nth_append less_Suc_eq split: if_splits
       )
    then have j: "j = Some (int i)"
      using spec Some m nth_msg_sending [OF i] Receiving by (simp add: link_def)
    have n: "recv_count p' = Suc ?k" "sent_count p' = sent_count p" "phase_ok p'"
      using s'(1) Some j i p Receiving by (auto simp: after_recv_def phase_ok_def num_msgs_def)
    have "link c q p'" using spec Some m n(1) by (simp add: link_def flight_def)
    moreover have "link p' theirs c"
      using t n(2) Receiving s'(1) Some j
      by (auto simp: link_def after_recv_def flight_def)
    ultimately show ?thesis using s' n(3) by simp
  qed
next
  case Finished
  then show ?thesis using s p t m by (simp add: proc_step_def)
next
  case Failed
  then show ?thesis using p by (simp add: phase_ok_def)
qed

lemma size_ok_num_msgs: "size_ok num_msgs 1"
  by (simp add: size_ok_def num_msgs_def)

lemma tester_start_inv: "tester_inv tester_start"
  using lfq_reach_start [OF size_ok_num_msgs]
  by (simp add: tester_start_def tester_inv_def phase_ok_def link_def flight_def l_start_def
      num_msgs_def Let_def)

lemma tester_step_inv:
  assumes "tester_inv s" and "tester_step s s'"
  shows "tester_inv s'"
  using assms(2)
proof cases
  case ts_0
  obtain p mine theirs where "proc_step (ts_p0 s) (ts_q0 s) (ts_q1 s) = (p, mine, theirs)"
    by (metis prod_cases3)
  with assms(1) proc_step_ok [OF _ _ _ _ this, of "ts_p1 s"] show ?thesis
    by (simp add: tester_inv_def tester_step0_def ts_0)
next
  case ts_1
  obtain p mine theirs where "proc_step (ts_p1 s) (ts_q1 s) (ts_q0 s) = (p, mine, theirs)"
    by (metis prod_cases3)
  with assms(1) proc_step_ok [OF _ _ _ _ this, of "ts_p0 s"] show ?thesis
    by (simp add: tester_inv_def tester_step1_def ts_1)
qed

interpretation tester_safety: safety "\<lambda>s. s = tester_start" tester_step tester_inv
  by unfold_locales (use tester_start_inv tester_step_inv in auto)

text \<open>
  In every interleaving of the two processes' accesses to shared memory the test's check
  never fails: each process receives 1 to 16 in order in each of its 16 iterations. When both are
  finished, each has received all 256 messages and both queues are empty.
\<close>

lemma loops_never_fail:
  assumes "tester_reach s"
  shows "tp_phase (ts_p0 s) \<noteq> Failed \<and> tp_phase (ts_p1 s) \<noteq> Failed \<and>
    (tp_phase (ts_p0 s) = Finished \<and> tp_phase (ts_p1 s) = Finished \<longrightarrow>
      returned (ts_q0 s) = map (\<lambda>k. Some (int (k mod 16 + 1))) [0..<256] \<and>
      issued (ts_q0 s) = map (\<lambda>k. int (k mod 16 + 1)) [0..<256] \<and>
      returned (ts_q1 s) = returned (ts_q0 s) \<and> issued (ts_q1 s) = issued (ts_q0 s))"
proof -
  have inv: "tester_inv s" using assms unfolding tester_reach_def by (rule tester_safety.reach_inv)
  then have "tp_phase (ts_p0 s) \<noteq> Failed" "tp_phase (ts_p1 s) \<noteq> Failed"
    by (auto simp: tester_inv_def phase_ok_def)
  moreover have "issued q = map (\<lambda>k. int (k mod 16 + 1)) [0..<256] \<and>
      returned q = map (\<lambda>k. Some (int (k mod 16 + 1))) [0..<256]"
    if l: "link p q c" and "phase_ok p" "phase_ok c" "tp_phase p = Finished" "tp_phase c = Finished" for p q c
  proof -
    have it: "tp_it p = 15" "tp_it c = 15" using that by (auto simp: phase_ok_def num_msgs_def)
    have i: "issued q = map nth_msg [0..<256]" "length (returned q) = 256"
      using l that(4,5) it by (auto simp: link_def flight_def num_msgs_def)
    moreover have "returned q = map Some (take (length (returned q)) (issued q))"
      using lfq_reach_facts(3) [of num_msgs 1 q] l by (simp add: link_def)
    ultimately show ?thesis by (simp add: nth_msg_def num_msgs_def o_def)
  qed
  ultimately show ?thesis using inv unfolding tester_inv_def by metis
qed

end
