(* ===== verification/Xpmem.thy ===== *)
theory Xpmem
  imports Prelude
begin

text \<open>
  \<open>archive/include/xpmem.hh\<close>: the table of peer segments, the cache of XPMEM instances and
  the translation of a peer's address into this process. The XPMEM driver is not part of the
  repository: \<open>xget\<close> stands for \<open>xpmem_get\<close> and \<open>xattach\<close> for \<open>xpmem_attach\<close>, each an
  argument of the definitions that call it.
\<close>

section \<open>Alignment macros\<close>

definition OPAL_DOWN_ALIGN :: "u64 \<Rightarrow> u64 \<Rightarrow> u64" where
  "OPAL_DOWN_ALIGN x a = x AND NOT (a - 1)"

definition OPAL_ALIGN :: "u64 \<Rightarrow> u64 \<Rightarrow> u64" where
  "OPAL_ALIGN x a = (x + (a - 1)) AND NOT (a - 1)"

definition OPAL_ALIGN_PAD_AMOUNT :: "u64 \<Rightarrow> u64 \<Rightarrow> u64" where
  "OPAL_ALIGN_PAD_AMOUNT x s = (NOT x + 1) AND (s - 1)"

definition attach_align :: u64 where
  "attach_align = push_bit 23 1"

lemma attach_align_eq: "attach_align = 2 ^ 23"
  by (simp add: attach_align_def push_bit_eq_mult)

lemma unat_down_align:
  "unat (OPAL_DOWN_ALIGN x attach_align) = unat x div 2 ^ 23 * 2 ^ 23"
  using word_align_down [of 23 x] by (simp add: OPAL_DOWN_ALIGN_def attach_align_eq)

lemma unat_align:
  assumes "unat x + 2 ^ 23 \<le> 2 ^ 64"
  shows "unat (OPAL_ALIGN x attach_align) = (unat x + (2 ^ 23 - 1)) div 2 ^ 23 * 2 ^ 23"
proof -
  have "unat (x + (attach_align - 1)) = unat x + (2 ^ 23 - 1)"
    using assms by (subst unat_add_le) (simp_all add: attach_align_eq)
  then show ?thesis
    using word_align_down [of 23 "x + (attach_align - 1)"]
    by (simp add: OPAL_ALIGN_def attach_align_eq)
qed

section \<open>Segments and instances\<close>

record xpmem_state =
  segments :: "int \<Rightarrow> int option"
  instances :: "int \<Rightarrow> int option"

definition put_segment :: "int \<Rightarrow> int \<Rightarrow> xpmem_state \<Rightarrow> xpmem_state res" where
  "put_segment pe segid s =
     (case segments s pe of
        None \<Rightarrow> Inr (s\<lparr>segments := (segments s)(pe \<mapsto> segid)\<rparr>)
      | Some _ \<Rightarrow> Inl AssertFailed)"

definition get_instance :: "(int \<Rightarrow> int) \<Rightarrow> int \<Rightarrow> xpmem_state \<Rightarrow> int \<times> xpmem_state" where
  "get_instance xget pe s =
     (case segments s pe of
        None \<Rightarrow> (-1, s)
      | Some segid \<Rightarrow>
          (case instances s segid of
             Some apid \<Rightarrow> (apid, s)
           | None \<Rightarrow>
               (let apid = xget segid
                in (apid, s\<lparr>instances := (instances s)(segid \<mapsto> apid)\<rparr>))))"

text \<open>The window attached around an object: its aligned start and its exclusive end.\<close>

definition window_base :: "addr \<Rightarrow> addr" where
  "window_base remote_ptr = OPAL_DOWN_ALIGN remote_ptr attach_align"

definition window_bound :: "addr \<Rightarrow> u64 \<Rightarrow> addr" where
  "window_bound remote_ptr sz = OPAL_ALIGN (remote_ptr + sz - 1) attach_align + 1"

definition translate_address ::
  "(int \<Rightarrow> int) \<Rightarrow> (int \<Rightarrow> u64 \<Rightarrow> u64 \<Rightarrow> addr) \<Rightarrow> int \<Rightarrow> int \<Rightarrow> addr \<Rightarrow> u64
     \<Rightarrow> xpmem_state \<Rightarrow> (addr \<times> xpmem_state) res" where
  "translate_address xget xattach mynode pe remote_ptr sz s =
     (if pe = mynode then Inr (remote_ptr, s)
      else
        let (apid, s') = get_instance xget pe s in
        bind_res (check (0 \<le> apid)) (\<lambda>_.
          let base = window_base remote_ptr;
              bound = window_bound remote_ptr sz;
              ctx = xattach apid base (bound - base)
          in bind_res (check (ctx \<noteq> -1)) (\<lambda>_.
               Inr (ctx + (remote_ptr - base), s'))))"

section \<open>The attached window covers the object\<close>

text \<open>An object of at least one byte whose window does not wrap around the address space.\<close>

definition fits :: "addr \<Rightarrow> u64 \<Rightarrow> bool" where
  "fits p sz \<longleftrightarrow> 0 < unat sz \<and> unat p + unat sz + 2 ^ 23 \<le> 2 ^ 64"

lemma window_base_nat: "unat (window_base p) = unat p div 2 ^ 23 * 2 ^ 23"
  by (simp add: window_base_def unat_down_align)

lemma window_bound_nat:
  assumes "fits p sz"
  shows "unat (window_bound p sz)
       = (unat p + unat sz - 1 + (2 ^ 23 - 1)) div 2 ^ 23 * 2 ^ 23 + 1"
proof -
  have last: "unat (p + sz - 1) = unat p + unat sz - 1"
    using assms by (subst unat_sub_le) (simp_all add: fits_def unat_add_le)
  let ?up = "(unat p + unat sz - 1 + (2 ^ 23 - 1)) div 2 ^ 23 * 2 ^ 23"
  have "?up \<le> unat p + unat sz - 1 + (2 ^ 23 - 1)" by (rule div_times_less_eq_dividend)
  also have "\<dots> < 2 ^ 64 - 1" using assms by (auto simp: fits_def)
  finally have "?up + 1 < 2 ^ 64" by linarith
  moreover have "unat (OPAL_ALIGN (p + sz - 1) attach_align) = ?up"
    using assms by (subst unat_align) (simp_all add: last fits_def)
  ultimately show ?thesis
    unfolding window_bound_def by (subst unat_add_le) simp_all
qed

lemma window_covers:
  assumes "fits p sz"
  shows "unat (window_base p) \<le> unat p"
    and "unat p + unat sz \<le> unat (window_bound p sz)"
proof -
  show "unat (window_base p) \<le> unat p" by (simp add: window_base_nat)
  have "unat p + unat sz - 1 < unat (window_bound p sz)"
    unfolding window_bound_nat [OF assms] less_Suc_eq_le Suc_eq_plus1 [symmetric]
    by (rule round_up_ge) simp
  then show "unat p + unat sz \<le> unat (window_bound p sz)"
    using assms by (simp add: fits_def)
qed

text \<open>
  C40. A translation of a peer's object that succeeds attached, under the peer's own instance,
  one window that starts on a page boundary of \<open>2 ^ 23\<close> bytes and covers every byte of the
  object; the returned address lies in it at the object's offset, with all of the object
  behind it inside the window.
\<close>

theorem translate_address_in_window:
  assumes "pe \<noteq> mynode" and "fits p sz"
    and "translate_address xget xattach mynode pe p sz s = Inr (a, s')"
  shows "\<exists>apid. get_instance xget pe s = (apid, s') \<and> 0 \<le> apid \<and>
      (let base = window_base p; window = window_bound p sz - base; ctx = xattach apid base window
       in unat base mod 2 ^ 23 = 0 \<and> unat base \<le> unat p \<and>
          unat p + unat sz \<le> unat base + unat window \<and>
          a = ctx + (p - base) \<and> unat (p - base) + unat sz \<le> unat window)"
proof -
  obtain apid s1 where g: "get_instance xget pe s = (apid, s1)" by fastforce
  note cov = window_covers [OF assms(2)]
  have w: "unat (window_bound p sz - window_base p)
      = unat (window_bound p sz) - unat (window_base p)"
    using cov by (intro unat_sub_le) linarith
  have o: "unat (p - window_base p) = unat p - unat (window_base p)"
    using cov(1) by (rule unat_sub_le)
  have m: "unat (window_base p) mod 2 ^ 23 = 0" by (simp add: window_base_nat)
  show ?thesis
    using assms(1,3) g cov w o m
    by (auto simp: translate_address_def bind_res_Inr_iff Let_def)
qed

theorem translate_address_in_window_witness:
  "fst (get_instance (\<lambda>g. g + 1) 1 \<lparr>segments = [1 \<mapsto> 41], instances = Map.empty\<rparr>) = 42 \<and>
   unat (0x7ff010 - window_base 0x7ff010 :: u64) + 4096
     \<le> unat (window_bound 0x7ff010 4096 - window_base 0x7ff010)"
proof -
  let ?s = "\<lparr>segments = [1 \<mapsto> 41], instances = Map.empty\<rparr>"
  have f: "fits 0x7ff010 4096" by (simp add: fits_def)
  have t: "translate_address (\<lambda>g. g + 1) (\<lambda>apid off len. 0x10000000) 0 1 0x7ff010 4096 ?s
    = Inr (0x10000000 + (0x7ff010 - window_base 0x7ff010), ?s\<lparr>instances := [41 \<mapsto> 42]\<rparr>)"
    by (simp add: translate_address_def get_instance_def)
  show ?thesis
    using translate_address_in_window [OF _ f t] by (simp add: get_instance_def Let_def)
qed

text \<open>
  The instance of a peer's segment is obtained from the driver once: after a first lookup of a
  registered peer, every further lookup of it returns the same instance and leaves the cache
  as it is, whatever the driver would answer; and a segment is never registered twice for one
  peer.
\<close>

theorem get_instance_cached:
  assumes "put_segment pe segid s0 = Inr s" and "get_instance xget pe s = (apid, s')"
  shows "get_instance xget' pe s' = (apid, s') \<and> instances s' segid = Some apid
    \<and> put_segment pe segid' s' = Inl AssertFailed"
  using assms
  by (auto simp: put_segment_def get_instance_def Let_def split: option.splits)

theorem get_instance_cached_witness:
  "instances (snd (get_instance (\<lambda>g. g + 1) 1
     \<lparr>segments = [1 \<mapsto> 41], instances = Map.empty\<rparr>)) 41 = Some 42"
proof -
  let ?start = "\<lparr>segments = Map.empty, instances = Map.empty\<rparr>"
  let ?s = "\<lparr>segments = [1 \<mapsto> 41], instances = Map.empty\<rparr>"
  have p: "put_segment 1 41 ?start = Inr ?s" by (simp add: put_segment_def)
  have g: "get_instance (\<lambda>g. g + 1) 1 ?s = (42, ?s\<lparr>instances := [41 \<mapsto> 42]\<rparr>)"
    by (simp add: get_instance_def)
  have "instances (?s\<lparr>instances := [41 \<mapsto> 42]\<rparr>) 41 = Some 42"
    using get_instance_cached [OF p g, of id 0] by blast
  then show ?thesis by (simp add: g)
qed

end
