(* ===== verification/Xpmem_Tester.thy ===== *)
theory Xpmem_Tester
  imports Lfq_Tester Xpmem
begin

text \<open>
  \<open>archive/xpmem-experiments/tester.cc\<close>: two PEs on two nodes bounce a counter. Each keeps it in its
  own memory and sends the other a descriptor of the cell through a bounded queue in
  shared memory; the other attaches the page around the cell, reads the value, stores the
  next one in its own cell and sends that. The PEs are stepped at every access to the queues
  and to the cells.
\<close>

section \<open>Receiving\<close>

record sm =
  sm_segid :: int
  sm_ptr :: addr
  sm_size :: u64

definition kNumMsgs :: int where
  "kNumMsgs = 32"

text \<open>
  The XPMEM driver as one node sees it: \<open>xpmem_get\<close>, \<open>xpmem_attach\<close>, and, for the addresses it has
  attached, the segment and the address there that they stand for.
\<close>

record driver =
  drv_get :: "int \<Rightarrow> int"
  drv_attach :: "int \<Rightarrow> addr \<Rightarrow> u64 \<Rightarrow> addr"
  drv_target :: "addr \<Rightarrow> (int \<times> addr) option"

definition recv_base :: "sm \<Rightarrow> addr" where
  "recv_base msg = OPAL_DOWN_ALIGN (sm_ptr msg) (push_bit 23 1)"

definition recv_bound :: "sm \<Rightarrow> addr" where
  "recv_bound msg = OPAL_ALIGN (sm_ptr msg + sm_size msg - 1) (push_bit 23 1) + 1"

text \<open>The value that \<open>recv_msg\<close> reads, in the memories \<open>mem\<close> of the segments.\<close>

definition recv_value :: "driver \<Rightarrow> (int \<Rightarrow> addr \<Rightarrow> int) \<Rightarrow> sm \<Rightarrow> int res" where
  "recv_value D mem msg =
     (let apid = drv_get D (sm_segid msg) in
      if apid = -1 then Inl Aborted
      else
        let base = recv_base msg; bound = recv_bound msg;
            ctx = drv_attach D apid base (bound - base)
        in if ctx = -1 then Inl Aborted
           else
             let buf = ctx + (sm_ptr msg - base)
             in case drv_target D buf of None \<Rightarrow> Inl BadPointer | Some (seg, a) \<Rightarrow> Inr (mem seg a))"

section \<open>The PEs\<close>

text \<open>
  Where a PE is: it spins on its queue, has a descriptor, is about to store the successor of the
  value it received, is sending its cell, has left the scheduler's loop, or has aborted.
\<close>

datatype xpc =
    XWait
  | XGot sm
  | XStore int
  | XSend int
  | XStop
  | XCrash fault

text \<open>\<open>xp_seen\<close> are the received values, as printed.\<close>

record xpe =
  xp_seg :: int
  xp_data :: addr
  xp_mem :: "addr \<Rightarrow> int"
  xp_pc :: xpc
  xp_seen :: "int list"

definition own_msg :: "xpe \<Rightarrow> sm" where
  "own_msg x = \<lparr>sm_segid = xp_seg x, sm_ptr = xp_data x, sm_size = 4\<rparr>"

definition after_msg :: "int \<Rightarrow> xpc" where
  "after_msg recvd = (if recvd < kNumMsgs - 2 then XWait else XStop)"

text \<open>
  One access of a PE that receives from \<open>rq\<close> and sends to \<open>sq\<close>. What \<open>enqueue\<close> returns is ignored.
\<close>

definition x_step ::
  "driver \<Rightarrow> (int \<Rightarrow> addr \<Rightarrow> int) \<Rightarrow> xpe \<Rightarrow> sm lsys \<Rightarrow> sm lsys \<Rightarrow> xpe \<times> sm lsys \<times> sm lsys" where
  "x_step D mem x rq sq =
     (case xp_pc x of
        XWait \<Rightarrow> (case recv_step rq of (r, q) \<Rightarrow>
          (case r of
             None \<Rightarrow> x
           | Some None \<Rightarrow> x\<lparr>xp_pc := XCrash Uninitialised\<rparr>
           | Some (Some m) \<Rightarrow> x\<lparr>xp_pc := XGot m\<rparr>, q, sq))
      | XGot m \<Rightarrow>
          (case recv_value D mem m of
             Inl e \<Rightarrow> x\<lparr>xp_pc := XCrash e\<rparr>
           | Inr v \<Rightarrow> x\<lparr>xp_seen := xp_seen x @ [v],
               xp_pc := (if v < kNumMsgs - 1 then XStore v else after_msg v)\<rparr>, rq, sq)
      | XStore v \<Rightarrow> (x\<lparr>xp_mem := (xp_mem x)(xp_data x := v + 1), xp_pc := XSend v\<rparr>, rq, sq)
      | XSend v \<Rightarrow> (case send_step (own_msg x) sq of (ok, q) \<Rightarrow>
          (if pp q ! 0 = PIdle then x\<lparr>xp_pc := after_msg v\<rparr> else x, rq, q))
      | _ \<Rightarrow> (x, rq, sq))"

record xsys =
  x_send :: "sm lsys"
  x_recv :: "sm lsys"
  x_p0 :: xpe
  x_p1 :: xpe

definition x_mem :: "xsys \<Rightarrow> int \<Rightarrow> addr \<Rightarrow> int" where
  "x_mem s seg = (if seg = xp_seg (x_p0 s) then xp_mem (x_p0 s)
     else if seg = xp_seg (x_p1 s) then xp_mem (x_p1 s) else (\<lambda>_. 0))"

definition x_step0 :: "driver \<Rightarrow> xsys \<Rightarrow> xsys" where
  "x_step0 D s = (case x_step D (x_mem s) (x_p0 s) (x_recv s) (x_send s) of (x, rq, sq) \<Rightarrow>
     s\<lparr>x_p0 := x, x_recv := rq, x_send := sq\<rparr>)"

definition x_step1 :: "driver \<Rightarrow> xsys \<Rightarrow> xsys" where
  "x_step1 D s = (case x_step D (x_mem s) (x_p1 s) (x_send s) (x_recv s) of (x, rq, sq) \<Rightarrow>
     s\<lparr>x_p1 := x, x_send := rq, x_recv := sq\<rparr>)"

inductive xsys_step :: "driver \<Rightarrow> driver \<Rightarrow> xsys \<Rightarrow> xsys \<Rightarrow> bool" for D0 D1 where
  xs_0: "xsys_step D0 D1 s (x_step0 D0 s)"
| xs_1: "xsys_step D0 D1 s (x_step1 D1 s)"

text \<open>
  \<open>main\<close> stores 0 and sends it, then both run the scheduler; the cells \<open>d0\<close>, \<open>d1\<close> are fresh. The model starts when
  \<open>setup_segment\<close> has returned on both PEs, with both queues open and constructed: it is an initialisation routine of
  Charm++, which runs these on every PE before the main chare is made (its openings are in \<open>Lfq_Open\<close>).
\<close>

definition x_start :: "int \<Rightarrow> addr \<Rightarrow> int \<Rightarrow> addr \<Rightarrow> (addr \<Rightarrow> int) \<Rightarrow> (addr \<Rightarrow> int) \<Rightarrow> xsys" where
  "x_start seg0 d0 seg1 d1 m0 m1 =
     \<lparr>x_send = l_start (nat kNumMsgs) 1, x_recv = l_start (nat kNumMsgs) 1,
      x_p0 = \<lparr>xp_seg = seg0, xp_data = d0, xp_mem = m0, xp_pc = XStore (- 1), xp_seen = []\<rparr>,
      x_p1 = \<lparr>xp_seg = seg1, xp_data = d1, xp_mem = m1, xp_pc = XWait, xp_seen = []\<rparr>\<rparr>"

definition x_reach ::
  "driver \<Rightarrow> driver \<Rightarrow> int \<Rightarrow> addr \<Rightarrow> int \<Rightarrow> addr \<Rightarrow> (addr \<Rightarrow> int) \<Rightarrow> (addr \<Rightarrow> int) \<Rightarrow> xsys \<Rightarrow> bool" where
  "x_reach D0 D1 seg0 d0 seg1 d1 m0 m1 =
     reach (\<lambda>s. s = x_start seg0 d0 seg1 d1 m0 m1) (xsys_step D0 D1)"

text \<open>
  The documented behaviour of the driver for the object of \<open>sz\<close> bytes at \<open>p\<close> in \<open>seg\<close>: access is granted, the
  window around it can be attached, and every address in the attached window stands for the
  address at the same offset in the segment.
\<close>

definition attaches :: "driver \<Rightarrow> int \<Rightarrow> addr \<Rightarrow> u64 \<Rightarrow> bool" where
  "attaches D seg p sz \<longleftrightarrow>
     (let base = window_base p; len = window_bound p sz - base; ctx = drv_attach D (drv_get D seg) base len
      in drv_get D seg \<noteq> -1 \<and> ctx \<noteq> -1 \<and>
         (\<forall>k < unat len. drv_target D (ctx + of_nat k) = Some (seg, base + of_nat k)))"

lemma recv_value_reads:
  assumes a: "attaches D seg p sz" and f: "fits p sz"
  shows "recv_value D mem \<lparr>sm_segid = seg, sm_ptr = p, sm_size = sz\<rparr> = Inr (mem seg p)"
proof -
  let ?base = "window_base p" and ?len = "window_bound p sz - window_base p"
  let ?k = "unat (p - ?base)"
  have w: "recv_base \<lparr>sm_segid = seg, sm_ptr = p, sm_size = sz\<rparr> = ?base"
    "recv_bound \<lparr>sm_segid = seg, sm_ptr = p, sm_size = sz\<rparr> = window_bound p sz"
    by (simp_all add: recv_base_def recv_bound_def window_base_def window_bound_def attach_align_def)
  note cov = window_covers [OF f]
  have "unat ?len = unat (window_bound p sz) - unat ?base"
    using cov by (intro unat_sub_le) linarith
  moreover have "?k = unat p - unat ?base" using cov(1) by (rule unat_sub_le)
  moreover have "0 < unat sz" using f by (simp add: fits_def)
  ultimately have "?k < unat ?len" using cov by linarith
  then have "drv_target D (drv_attach D (drv_get D seg) ?base ?len + of_nat ?k)
      = Some (seg, ?base + of_nat ?k)"
    using a unfolding attaches_def Let_def by blast
  then show ?thesis using a by (simp add: recv_value_def w Let_def attaches_def)
qed

end
