(* ===== verification/Xpmem_Bounce.thy ===== *)
theory Xpmem_Bounce
  imports Xpmem_Tester
begin

text \<open>
  The invariant of the two PEs of \<open>archive/xpmem-experiments/tester.cc\<close>: at any time one value is on
  its way, being stored, sent, queued or read, and everything before it has been received.
\<close>

section \<open>The queues\<close>

definition link_rest :: "sm \<Rightarrow> nat \<Rightarrow> nat \<Rightarrow> sm lsys \<Rightarrow> bool" where
  "link_rest m n r q \<longleftrightarrow> lfq_reach 32 1 q \<and> issued q = replicate n m \<and> length (returned q) = r \<and>
     pp q ! 0 = PIdle"

definition link_busy :: "sm \<Rightarrow> nat \<Rightarrow> sm lsys \<Rightarrow> bool" where
  "link_busy m n q \<longleftrightarrow> lfq_reach 32 1 q \<and> issued q = replicate n m @ flight m q \<and>
     length (returned q) = n \<and> holds m (pp q ! 0) \<and> pp q ! 0 \<noteq> PFull"

lemma link_rest_busy: "link_rest m n n q \<Longrightarrow> link_busy m n q"
  by (simp add: link_rest_def link_busy_def flight_def)

lemma send_step_pc:
  assumes "send_step m q = (ok, q')" and "length (pp q) = 1" and "pp q ! 0 \<noteq> PFull" and "pp q ! 0 \<noteq> PFailed"
    and "pp q ! 0 = PIdle \<Longrightarrow> pp q' ! 0 = PAdmitted m"
  shows "pp q' ! 0 \<noteq> PFull \<and> (pp q' ! 0 = PIdle \<longleftrightarrow> ok)"
  using assms
  by (cases "pp q ! 0")
    (auto simp: send_step_def enq_step_def pgoto_def Let_def acquire_def release_def split: if_splits)

lemma link_send:
  assumes l: "link_busy m n q" and s: "send_step m q = (ok, q')"
  shows "if pp q' ! 0 = PIdle then link_rest m (Suc n) n q' else link_busy m n q'"
proof -
  have q: "lfq_reach 32 1 q" using l by (simp add: link_busy_def)
  note F = lfq_reach_facts [OF q]
  have spec: "lfq_reach 32 1 q' \<and> returned q' = returned q \<and> holds m (pp q' ! 0) \<and>
    (ok \<longrightarrow> pp q' ! 0 = PIdle) \<and> issued q' = (if ok then replicate n m @ [m] else replicate n m) @ flight m q'"
    by (rule send_step_spec [OF q _ _ s]) (use l in \<open>auto simp: link_busy_def\<close>)
  have adm: "pp q' ! 0 = PAdmitted m" if "pp q ! 0 = PIdle"
    using send_step_room [OF q _ that, of m] that s l by (auto simp: link_busy_def send_step_def flight_def)
  have "pp q' ! 0 \<noteq> PFull \<and> (pp q' ! 0 = PIdle \<longleftrightarrow> ok)"
    by (rule send_step_pc [OF s F(1) _ _ adm]) (use l F(2) in \<open>auto simp: link_busy_def\<close>)
  then show ?thesis using spec l
    by (auto simp: link_rest_def link_busy_def flight_def replicate_append_same split: if_splits)
qed

lemma link_recv:
  assumes l: "link_rest m n r q" and s: "recv_step q = (res, q')"
  obtains (none) "res = None" "link_rest m n r q'"
  | (some) "r < n" "res = Some (Some m)" "link_rest m n (Suc r) q'"
proof -
  have q: "lfq_reach 32 1 q" using l by (simp add: link_rest_def)
  note spec = recv_step_spec [OF q s]
  show thesis
  proof (cases res)
    case None
    then show thesis using none spec l by (simp add: link_rest_def)
  next
    case (Some x)
    have i: "issued q = replicate n m" "length (returned q) = r" using l by (simp_all add: link_rest_def)
    then have "r < n" using spec Some by simp
    moreover from this have "x = Some m" using spec Some i by simp
    moreover have "link_rest m n (Suc r) q'" using spec Some l by (simp add: link_rest_def)
    ultimately show thesis using some Some by simp
  qed
qed

lemma link_recv_busy:
  assumes l: "link_busy m n q" and s: "recv_step q = (res, q')"
  shows "res = None \<and> link_busy m n q'"
proof -
  have q: "lfq_reach 32 1 q" using l by (simp add: link_busy_def)
  have "res = None"
  proof (cases res)
    case (Some x)
    then show ?thesis using recv_step_completed [OF q, of x q' m] s l by (simp add: link_busy_def)
  qed
  then show ?thesis using recv_step_spec [OF q s] l by (simp add: link_busy_def flight_def)
qed

section \<open>One value on its way\<close>

datatype stage = TStore | TSend | TQueued | TRead

definition seen_by :: "bool \<Rightarrow> nat \<Rightarrow> int list" where
  "seen_by e k = map int (filter (\<lambda>i. even i = e) [0..<k])"

text \<open>The value \<open>k\<close> goes from \<open>a\<close> through \<open>qa\<close> to \<open>b\<close>.\<close>

definition bounce :: "stage \<Rightarrow> nat \<Rightarrow> xpe \<Rightarrow> sm lsys \<Rightarrow> xpe \<Rightarrow> sm lsys \<Rightarrow> bool" where
  "bounce st k a qa b qb \<longleftrightarrow> k < 32 \<and>
     link_rest (own_msg b) (Suc k div 2) (Suc k div 2) qb \<and>
     xp_seen a = seen_by (odd k) k \<and> xp_seen b = seen_by (even k) k \<and>
     (case st of
        TStore \<Rightarrow> link_rest (own_msg a) (k div 2) (k div 2) qa \<and> xp_pc a = XStore (int k - 1) \<and> xp_pc b = XWait
      | TSend \<Rightarrow> link_busy (own_msg a) (k div 2) qa \<and> xp_pc a = XSend (int k - 1) \<and> xp_pc b = XWait
      | TQueued \<Rightarrow> link_rest (own_msg a) (Suc (k div 2)) (k div 2) qa \<and>
          xp_pc a = after_msg (int k - 1) \<and> xp_pc b = XWait
      | TRead \<Rightarrow> link_rest (own_msg a) (Suc (k div 2)) (Suc (k div 2)) qa \<and>
          xp_pc a = after_msg (int k - 1) \<and> xp_pc b = XGot (own_msg a)) \<and>
     (st \<noteq> TStore \<longrightarrow> xp_mem a (xp_data a) = int k)"

definition bounced :: "xpe \<Rightarrow> sm lsys \<Rightarrow> xpe \<Rightarrow> sm lsys \<Rightarrow> bool" where
  "bounced a qa b qb \<longleftrightarrow> link_rest (own_msg a) 16 16 qa \<and> link_rest (own_msg b) 16 16 qb \<and>
     xp_pc a = XStop \<and> xp_pc b = XStop \<and> xp_seen a = seen_by True 32 \<and> xp_seen b = seen_by False 32"

definition same_cell :: "xpe \<Rightarrow> xpe \<Rightarrow> bool" where
  "same_cell x y \<longleftrightarrow> xp_seg x = xp_seg y \<and> xp_data x = xp_data y"

lemma wait_step:
  assumes "xp_pc x = XWait" and "link_rest m n n q"
  shows "\<exists>q'. x_step D mem x q sq = (x, q', sq) \<and> link_rest m n n q'"
proof -
  obtain res q' where r: "recv_step q = (res, q')" by fastforce
  from assms(2) r have "res = None \<and> link_rest m n n q'" by (cases rule: link_recv) auto
  then show ?thesis using assms(1) r by (simp add: x_step_def)
qed

lemma after_wait_or_stop: "after_msg v = XWait \<or> after_msg v = XStop"
  by (simp add: after_msg_def)

text \<open>The sender's step, and the receiver's.\<close>

lemma bounce_sender:
  assumes b: "bounce st k a qa b qb" and s: "x_step D mem a qb qa = (a', qb', qa')"
  shows "\<exists>st'. bounce st' k a' qa' b qb' \<and> same_cell a' a"
proof (cases st)
  case TStore
  then show ?thesis using b s link_rest_busy
    by (intro exI [of _ TSend]) (auto simp: bounce_def x_step_def own_msg_def same_cell_def)
next
  case TSend
  obtain ok q where q: "send_step (own_msg a) qa = (ok, q)" by fastforce
  have "link_busy (own_msg a) (k div 2) qa" using b TSend by (simp add: bounce_def)
  note l = link_send [OF this q]
  show ?thesis
  proof (cases "pp q ! 0 = PIdle")
    case True
    then show ?thesis using b s TSend q l
      by (intro exI [of _ TQueued]) (auto simp: bounce_def x_step_def own_msg_def same_cell_def)
  next
    case False
    then show ?thesis using b s TSend q l
      by (intro exI [of _ TSend]) (auto simp: bounce_def x_step_def same_cell_def)
  qed
next
  case TQueued
  have l: "link_rest (own_msg b) (Suc k div 2) (Suc k div 2) qb" using b by (simp add: bounce_def)
  have pc: "xp_pc a = XWait \<or> xp_pc a = XStop"
    using b TQueued after_wait_or_stop [of "int k - 1"] by (simp add: bounce_def)
  then obtain q where "x_step D mem a qb qa = (a, q, qa)" "link_rest (own_msg b) (Suc k div 2) (Suc k div 2) q"
    using wait_step [OF _ l, of a D mem qa] l by (auto simp: x_step_def)
  then show ?thesis using b s by (intro exI [of _ st]) (simp add: bounce_def same_cell_def)
next
  case TRead
  have l: "link_rest (own_msg b) (Suc k div 2) (Suc k div 2) qb" using b by (simp add: bounce_def)
  have pc: "xp_pc a = XWait \<or> xp_pc a = XStop"
    using b TRead after_wait_or_stop [of "int k - 1"] by (simp add: bounce_def)
  then obtain q where "x_step D mem a qb qa = (a, q, qa)" "link_rest (own_msg b) (Suc k div 2) (Suc k div 2) q"
    using wait_step [OF _ l, of a D mem qa] l by (auto simp: x_step_def)
  then show ?thesis using b s by (intro exI [of _ st]) (simp add: bounce_def same_cell_def)
qed

lemma seen_by_Suc: "seen_by e (Suc k) = seen_by e k @ (if even k = e then [int k] else [])"
  by (simp add: seen_by_def)

lemma bounce_read:
  assumes b: "bounce TRead k a qa b qb" and s: "x_step D mem b qa qb = (b', qa', qb')"
    and v: "recv_value D mem (own_msg a) = Inr (xp_mem a (xp_data a))"
  shows "same_cell b' b \<and> (if k < 31 then bounce TStore (Suc k) b' qb' a qa' else k = 31 \<and> bounced a qa' b' qb')"
proof -
  have val: "recv_value D mem (own_msg a) = Inr (int k)" using b v by (simp add: bounce_def)
  have b': "b' = b\<lparr>xp_seen := xp_seen b @ [int k],
      xp_pc := (if int k < kNumMsgs - 1 then XStore (int k) else after_msg (int k))\<rparr>" "qb' = qb" "qa' = qa"
    using b s val by (auto simp: bounce_def x_step_def)
  have k: "k < 32" using b by (simp add: bounce_def)
  have seen: "xp_seen b' = seen_by (even k) (Suc k)" "xp_seen a = seen_by (odd k) (Suc k)"
    using b b' by (auto simp: bounce_def seen_by_Suc)
  show ?thesis
  proof (cases "k < 31")
    case True
    have "xp_pc a = XWait" using b True by (auto simp: bounce_def after_msg_def kNumMsgs_def)
    have "link_rest (own_msg b) (Suc k div 2) (Suc k div 2) qb"
      "link_rest (own_msg a) (Suc (Suc k) div 2) (Suc (Suc k) div 2) qa"
      using b by (simp_all add: bounce_def)
    moreover have "own_msg b' = own_msg b" "xp_pc b' = XStore (int (Suc k) - 1)"
      using b'(1) True by (simp_all add: own_msg_def kNumMsgs_def)
    moreover have "Suc k < 32" "odd (Suc k) = even k" "even (Suc k) = odd k" using True by simp_all
    ultimately have "bounce TStore (Suc k) b' qb' a qa'"
      using b'(2,3) seen \<open>xp_pc a = XWait\<close> unfolding bounce_def by simp
    then show ?thesis using True b'(1) by (simp add: same_cell_def)
  next
    case False
    then have k31: "k = 31" using k by simp
    have "link_rest (own_msg b) 16 16 qb" "link_rest (own_msg a) 16 16 qa" "xp_pc a = XStop"
      using b k31 by (simp_all add: bounce_def after_msg_def kNumMsgs_def)
    moreover have "xp_pc b' = XStop" "own_msg b' = own_msg b"
      using b'(1) k31 by (simp_all add: kNumMsgs_def after_msg_def own_msg_def)
    moreover have "xp_seen b' = seen_by False 32" "xp_seen a = seen_by True 32"
      using seen k31 by simp_all
    ultimately have "bounced a qa' b' qb'" using b'(2,3) by (simp add: bounced_def)
    then show ?thesis using k31 b'(1) by (simp add: same_cell_def)
  qed
qed

lemma bounce_receiver:
  assumes b: "bounce st k a qa b qb" and s: "x_step D mem b qa qb = (b', qa', qb')"
    and v: "recv_value D mem (own_msg a) = Inr (xp_mem a (xp_data a))"
  shows "same_cell b' b \<and> ((\<exists>st'. bounce st' k a qa' b' qb') \<or>
    (k < 31 \<and> bounce TStore (Suc k) b' qb' a qa') \<or> (k = 31 \<and> bounced a qa' b' qb'))"
proof (cases st)
  case TStore
  then have "link_rest (own_msg a) (k div 2) (k div 2) qa" "xp_pc b = XWait" using b by (auto simp: bounce_def)
  from wait_step [OF this(2,1), of D mem qb] s obtain q where
    "link_rest (own_msg a) (k div 2) (k div 2) q" "qa' = q" "b' = b" "qb' = qb" by auto
  then have "bounce st k a qa' b' qb'" using b TStore by (simp add: bounce_def)
  then show ?thesis using \<open>b' = b\<close> by (auto simp: same_cell_def)
next
  case TSend
  obtain res q where q: "recv_step qa = (res, q)" by fastforce
  have "link_busy (own_msg a) (k div 2) qa" using b TSend by (simp add: bounce_def)
  note l = link_recv_busy [OF this q]
  then have "b' = b" "qb' = qb" "qa' = q" using b s TSend q by (auto simp: bounce_def x_step_def)
  then have "bounce st k a qa' b' qb'" using b TSend l by (simp add: bounce_def)
  then show ?thesis using \<open>b' = b\<close> by (auto simp: same_cell_def)
next
  case TQueued
  obtain res q where q: "recv_step qa = (res, q)" by fastforce
  have "link_rest (own_msg a) (Suc (k div 2)) (k div 2) qa" using b TQueued by (simp add: bounce_def)
  from this q show ?thesis
  proof (cases rule: link_recv)
    case none
    then have "b' = b" "qb' = qb" "qa' = q" using b s TQueued q by (auto simp: bounce_def x_step_def)
    then have "bounce st k a qa' b' qb'" using b TQueued none by (simp add: bounce_def)
    then show ?thesis using \<open>b' = b\<close> by (auto simp: same_cell_def)
  next
    case some
    then have "b' = b\<lparr>xp_pc := XGot (own_msg a)\<rparr>" "qb' = qb" "qa' = q"
      using b s TQueued q by (auto simp: bounce_def x_step_def)
    then have "bounce TRead k a qa' b' qb' \<and> same_cell b' b"
      using b TQueued some by (simp add: bounce_def own_msg_def same_cell_def)
    then show ?thesis by blast
  qed
next
  case TRead
  then show ?thesis using bounce_read [OF _ s v, of k] b by (auto split: if_splits)
qed

section \<open>Every run\<close>

lemma seen_by_eq:
  "seen_by True k = map (\<lambda>i. 2 * int i) [0..<Suc k div 2] \<and> seen_by False k = map (\<lambda>i. 2 * int i + 1) [0..<k div 2]"
proof (induction k)
  case (Suc k)
  show ?case
  proof (cases "even k")
    case True
    then obtain j where "k = 2 * j" by blast
    then show ?thesis using Suc by (simp add: seen_by_Suc)
  next
    case False
    then obtain j where "k = 2 * j + 1" by (blast elim: oddE)
    then show ?thesis using Suc by (simp add: seen_by_Suc)
  qed
qed (simp add: seen_by_def)

text \<open>The PE at 0 sends the even values. \<open>s0\<close> is the start, whose segments and cells stay.\<close>

definition x_inv :: "xsys \<Rightarrow> xsys \<Rightarrow> bool" where
  "x_inv s0 s \<longleftrightarrow> same_cell (x_p0 s) (x_p0 s0) \<and> same_cell (x_p1 s) (x_p1 s0) \<and>
     ((\<exists>st k. even k \<and> bounce st k (x_p0 s) (x_send s) (x_p1 s) (x_recv s)) \<or>
      (\<exists>st k. odd k \<and> bounce st k (x_p1 s) (x_recv s) (x_p0 s) (x_send s)) \<or>
      bounced (x_p1 s) (x_recv s) (x_p0 s) (x_send s))"

lemma bounced_step:
  "bounced a qa b qb \<Longrightarrow> x_step D mem a r t = (a, r, t) \<and> x_step D mem b r t = (b, r, t)"
  by (simp add: bounced_def x_step_def)

lemma x_inv_start: "x_inv (x_start seg0 d0 seg1 d1 m0 m1) (x_start seg0 d0 seg1 d1 m0 m1)"
proof -
  have "lfq_reach 32 1 (l_start 32 1 :: sm lsys)" by (rule lfq_reach_start) (simp add: size_ok_def)
  then have "bounce TStore 0 (x_p0 s) (x_send s) (x_p1 s) (x_recv s)"
    if "s = x_start seg0 d0 seg1 d1 m0 m1" for s
    using that by (simp add: x_start_def bounce_def link_rest_def l_start_def seen_by_def kNumMsgs_def)
  then show ?thesis unfolding x_inv_def same_cell_def by (intro conjI disjI1 exI [of _ TStore] exI [of _ 0]) simp_all
qed

lemma x_inv_step:
  assumes inv: "x_inv s0 s" and step: "xsys_step D0 D1 s s'"
    and seg: "xp_seg (x_p0 s0) \<noteq> xp_seg (x_p1 s0)"
    and a0: "attaches D1 (xp_seg (x_p0 s0)) (xp_data (x_p0 s0)) 4" "fits (xp_data (x_p0 s0)) 4"
    and a1: "attaches D0 (xp_seg (x_p1 s0)) (xp_data (x_p1 s0)) 4" "fits (xp_data (x_p1 s0)) 4"
  shows "x_inv s0 s'"
proof -
  let ?a = "x_p0 s" and ?b = "x_p1 s" and ?qa = "x_send s" and ?qb = "x_recv s"
  have c: "same_cell ?a (x_p0 s0)" "same_cell ?b (x_p1 s0)" using inv by (simp_all add: x_inv_def)
  have v0: "recv_value D1 (x_mem s) (own_msg ?a) = Inr (xp_mem ?a (xp_data ?a))"
    using recv_value_reads [OF a0, of "x_mem s"] c by (simp add: own_msg_def same_cell_def x_mem_def)
  have v1: "recv_value D0 (x_mem s) (own_msg ?b) = Inr (xp_mem ?b (xp_data ?b))"
    using recv_value_reads [OF a1, of "x_mem s"] c seg by (simp add: own_msg_def same_cell_def x_mem_def)
  have trans: "same_cell x y \<Longrightarrow> same_cell y z \<Longrightarrow> same_cell x z" for x y z
    by (simp add: same_cell_def)
  from step show ?thesis
  proof cases
    case xs_0
    obtain x rq sq where x: "x_step D0 (x_mem s) ?a ?qb ?qa = (x, rq, sq)" by (metis prod_cases3)
    then have s': "s' = s\<lparr>x_p0 := x, x_recv := rq, x_send := sq\<rparr>" using xs_0 by (simp add: x_step0_def)
    consider (even) st k where "even k" "bounce st k ?a ?qa ?b ?qb"
      | (odd) st k where "odd k" "bounce st k ?b ?qb ?a ?qa" | (fin) "bounced ?b ?qb ?a ?qa"
      using inv by (auto simp: x_inv_def)
    then show ?thesis
    proof cases
      case even
      from bounce_sender [OF this(2) x] show ?thesis using even(1) c trans unfolding x_inv_def s' by auto
    next
      case odd
      have par: "even (Suc k)" using odd(1) by simp
      note r = bounce_receiver [OF odd(2) x v1]
      then have "(\<exists>st k. odd k \<and> bounce st k ?b rq x sq) \<or> (\<exists>st k. even k \<and> bounce st k x sq ?b rq) \<or>
          bounced ?b rq x sq"
        using odd(1) par by blast
      then show ?thesis using r c trans unfolding x_inv_def s' by simp blast
    next
      case fin
      then have "x = ?a" "rq = ?qb" "sq = ?qa" using bounced_step [OF fin, of D0 "x_mem s" ?qb ?qa] x by auto
      then have "s' = s" using s' by simp
      then show ?thesis using inv by simp
    qed
  next
    case xs_1
    obtain x rq sq where x: "x_step D1 (x_mem s) ?b ?qa ?qb = (x, rq, sq)" by (metis prod_cases3)
    then have s': "s' = s\<lparr>x_p1 := x, x_send := rq, x_recv := sq\<rparr>" using xs_1 by (simp add: x_step1_def)
    consider (even) st k where "even k" "bounce st k ?a ?qa ?b ?qb"
      | (odd) st k where "odd k" "bounce st k ?b ?qb ?a ?qa" | (fin) "bounced ?b ?qb ?a ?qa"
      using inv by (auto simp: x_inv_def)
    then show ?thesis
    proof cases
      case even
      have par: "odd (Suc k)" "k \<noteq> 31" using even(1) by auto
      note r = bounce_receiver [OF even(2) x v0]
      then have "(\<exists>st k. even k \<and> bounce st k ?a rq x sq) \<or> (\<exists>st k. odd k \<and> bounce st k x sq ?a rq)"
        using even(1) par by blast
      then show ?thesis using r c trans unfolding x_inv_def s' by simp blast
    next
      case odd
      from bounce_sender [OF this(2) x] show ?thesis using odd(1) c trans unfolding x_inv_def s' by auto
    next
      case fin
      then have "x = ?b" "rq = ?qa" "sq = ?qb" using bounced_step [OF fin, of D1 "x_mem s" ?qa ?qb] x by auto
      then have "s' = s" using s' by simp
      then show ?thesis using inv by simp
    qed
  qed
qed

text \<open>What the driver must offer for the two cells.\<close>

definition x_attached :: "driver \<Rightarrow> driver \<Rightarrow> int \<Rightarrow> addr \<Rightarrow> int \<Rightarrow> addr \<Rightarrow> bool" where
  "x_attached D0 D1 seg0 d0 seg1 d1 \<longleftrightarrow> seg0 \<noteq> seg1 \<and> attaches D1 seg0 d0 4 \<and> fits d0 4 \<and>
     attaches D0 seg1 d1 4 \<and> fits d1 4"

interpretation xpmem_safety: safety
    "\<lambda>s. x_attached D0 D1 seg0 d0 seg1 d1 \<and> s = x_start seg0 d0 seg1 d1 m0 m1" "xsys_step D0 D1"
    "\<lambda>s. x_attached D0 D1 seg0 d0 seg1 d1 \<and> x_inv (x_start seg0 d0 seg1 d1 m0 m1) s"
  for D0 D1 seg0 d0 seg1 d1 m0 m1
proof
  fix s s'
  assume "x_attached D0 D1 seg0 d0 seg1 d1 \<and> x_inv (x_start seg0 d0 seg1 d1 m0 m1) s"
    and "xsys_step D0 D1 s s'"
  then show "x_attached D0 D1 seg0 d0 seg1 d1 \<and> x_inv (x_start seg0 d0 seg1 d1 m0 m1) s'"
    using x_inv_step [of "x_start seg0 d0 seg1 d1 m0 m1" s D0 D1 s']
    by (simp add: x_attached_def x_start_def)
qed (use x_inv_start in auto)

text \<open>
  C35. In every interleaving of the two PEs no read goes through an address that is not attached, no
  descriptor is read before it was written, and no check of the driver's answers fails; PE 0
  receives 1, 3, 5, ... and PE 1 receives 0, 2, 4, ..., each value read from the other's
  memory as it was stored. When both have left the loop, the values up to 31 have been received and both
  queues are empty.
\<close>

theorem values_bounce:
  assumes "x_reach D0 D1 seg0 d0 seg1 d1 m0 m1 s" and "x_attached D0 D1 seg0 d0 seg1 d1"
  shows "(\<forall>e. xp_pc (x_p0 s) \<noteq> XCrash e \<and> xp_pc (x_p1 s) \<noteq> XCrash e) \<and>
    (\<exists>n \<le> 16. xp_seen (x_p0 s) = map (\<lambda>i. 2 * int i + 1) [0..<n]) \<and>
    (\<exists>n \<le> 16. xp_seen (x_p1 s) = map (\<lambda>i. 2 * int i) [0..<n]) \<and>
    (xp_pc (x_p0 s) = XStop \<and> xp_pc (x_p1 s) = XStop \<longrightarrow>
      xp_seen (x_p0 s) = map (\<lambda>i. 2 * int i + 1) [0..<16] \<and>
      xp_seen (x_p1 s) = map (\<lambda>i. 2 * int i) [0..<16] \<and>
      length (returned (x_send s)) = length (issued (x_send s)) \<and>
      length (returned (x_recv s)) = length (issued (x_recv s)))"
proof -
  have "reach (\<lambda>s. x_attached D0 D1 seg0 d0 seg1 d1 \<and> s = x_start seg0 d0 seg1 d1 m0 m1) (xsys_step D0 D1) s"
    using assms by (simp add: x_reach_def)
  from xpmem_safety.reach_inv [OF this] have inv: "x_inv (x_start seg0 d0 seg1 d1 m0 m1) s" by simp
  have am: "after_msg v \<noteq> XCrash e" for v e by (simp add: after_msg_def)
  consider (even) st k where "even k" "bounce st k (x_p0 s) (x_send s) (x_p1 s) (x_recv s)"
    | (odd) st k where "odd k" "bounce st k (x_p1 s) (x_recv s) (x_p0 s) (x_send s)"
    | (fin) "bounced (x_p1 s) (x_recv s) (x_p0 s) (x_send s)"
    using inv by (auto simp: x_inv_def)
  then show ?thesis
  proof cases
    case even
    then have "k < 32" by (simp add: bounce_def)
    then have k: "Suc k div 2 \<le> 16" "k div 2 \<le> 16" by simp_all
    have seen: "xp_seen (x_p0 s) = seen_by False k" "xp_seen (x_p1 s) = seen_by True k"
      using even by (simp_all add: bounce_def)
    have "xp_pc (x_p1 s) \<noteq> XStop" "xp_pc (x_p0 s) \<noteq> XCrash e \<and> xp_pc (x_p1 s) \<noteq> XCrash e" for e
      using even(2) am by (cases st; simp add: bounce_def)+
    then show ?thesis using seen seen_by_eq [of k] k by auto
  next
    case odd
    then have "k < 32" by (simp add: bounce_def)
    then have k: "Suc k div 2 \<le> 16" "k div 2 \<le> 16" by simp_all
    have seen: "xp_seen (x_p0 s) = seen_by False k" "xp_seen (x_p1 s) = seen_by True k"
      using odd by (simp_all add: bounce_def)
    have "xp_pc (x_p0 s) \<noteq> XStop" "xp_pc (x_p0 s) \<noteq> XCrash e \<and> xp_pc (x_p1 s) \<noteq> XCrash e" for e
      using odd(2) am by (cases st; simp add: bounce_def)+
    then show ?thesis using seen seen_by_eq [of k] k by auto
  next
    case fin
    then show ?thesis using seen_by_eq [of 32] by (auto simp: bounced_def link_rest_def)
  qed
qed

section \<open>An instance\<close>

text \<open>A driver that maps everything of one other segment at its own address.\<close>

definition id_driver :: "int \<Rightarrow> driver" where
  "id_driver seg = \<lparr>drv_get = id, drv_attach = (\<lambda>apid base len. base), drv_target = (\<lambda>a. Some (seg, a))\<rparr>"

lemma id_attached: "x_attached (id_driver 2) (id_driver 1) 1 0x10010 2 0x20010"
  by (simp add: x_attached_def attaches_def id_driver_def fits_def window_base_def Xpmem.attach_align_eq
      OPAL_DOWN_ALIGN_def)

lemma values_bounce_witness:
  "xp_pc (x_p1 (x_step0 (id_driver 2) (x_start 1 0x10010 2 0x20010 (\<lambda>_. 0) (\<lambda>_. 0)))) \<noteq> XCrash BadPointer"
proof -
  have "x_reach (id_driver 2) (id_driver 1) 1 0x10010 2 0x20010 (\<lambda>_. 0) (\<lambda>_. 0)
      (x_start 1 0x10010 2 0x20010 (\<lambda>_. 0) (\<lambda>_. 0))"
    unfolding x_reach_def by (rule reach_init) simp
  then have "x_reach (id_driver 2) (id_driver 1) 1 0x10010 2 0x20010 (\<lambda>_. 0) (\<lambda>_. 0)
      (x_step0 (id_driver 2) (x_start 1 0x10010 2 0x20010 (\<lambda>_. 0) (\<lambda>_. 0)))"
    unfolding x_reach_def by (rule reach_step) (rule xs_0)
  from values_bounce [OF this id_attached] show ?thesis by blast
qed

end
