(* ===== verification/Lfq_Progress.thy ===== *)
theory Lfq_Progress
  imports Lfq_Tester
begin

text \<open>
  Progress of programs over the bounded queue. Both loops around the calls of \<open>archive/lfq/tester.cc\<close> and the
  loops inside the calls spin, so a run may be unfair and never end; but wherever it is, it can still end: a rank
  counts the accesses left in a call, and in every unfinished state some process has an access that lowers the work left.
\<close>

section \<open>The rank of a call\<close>

fun prank :: "'v ppc \<Rightarrow> nat" where
  "prank PFull = 7"
| "prank PIdle = 6"
| "prank (PAdmitted v) = 5"
| "prank (PSlot v k t) = 4"
| "prank (PLocked v k t) = 3"
| "prank (PSwapped v k t sv) = 2"
| "prank (PCopied v k t sv) = 1"
| "prank PFailed = 0"

definition crank :: "'v lsys \<Rightarrow> nat" where
  "crank q = (case cc q of
       CIdle \<Rightarrow> 7
     | CLocked \<Rightarrow> if has_value (lf_data (lq q) ! unat (lf_tail (lq q))) then 6 else 9
     | CFull \<Rightarrow> 5
     | CCopied r \<Rightarrow> 4
     | CUnlock ret r \<Rightarrow> if ret then 3 else 8
     | CAdvance r \<Rightarrow> 2
     | CDecr r \<Rightarrow> 1
     | CFailed \<Rightarrow> 0)"

lemma send_step_cc: "send_step v q = (ok, q') \<Longrightarrow> cc q' = cc q"
  by (auto simp: send_step_def enq_start_def enq_step_def pgoto_def Let_def split: ppc.splits prod.splits)

lemma recv_step_cc: "recv_step q = (Some r, q') \<Longrightarrow> cc q' = CIdle"
  by (auto simp: recv_step_def split: cpc.splits if_splits)

lemma lfq_reach_solo:
  assumes q: "lfq_reach N 1 q" and c: "cc q = CIdle"
  shows "solo N 1 0 (pp q ! 0) (issued q) (returned q) q"
proof -
  have "pp q = [pp q ! 0]" using lfq_reach_facts(1) [OF q] by (cases "pp q") auto
  then show ?thesis using lfq_reach_linv [OF q] c by (simp add: solo_def)
qed

text \<open>A producer inside a call, or with room in the queue, and an idle consumer.\<close>

lemma send_step_progress:
  assumes q: "lfq_reach N 1 q" and c: "cc q = CIdle" and s: "send_step v q = (ok, q')"
    and r: "pp q ! 0 = PIdle \<Longrightarrow> length (issued q) < length (returned q) + N" and nok: "\<not> ok"
  shows "prank (pp q' ! 0) < prank (pp q ! 0)"
proof -
  have so: "solo N 1 0 (pp q ! 0) (issued q) (returned q) q" by (rule lfq_reach_solo [OF q c])
  have q': "q' = (if pp q ! 0 = PIdle then enq_start 0 v q else enq_step 0 q)"
    using s by (auto simp: send_step_def split: ppc.splits)
  show ?thesis
  proof (cases "pp q ! 0")
    case PIdle
    then show ?thesis using send_step_room [OF q r PIdle] q' by simp
  next
    case PFull
    then show ?thesis using solo_pc [OF solo_full [OF so [unfolded PFull]]] q' by simp
  next
    case (PAdmitted w)
    then obtain k t where "pp (enq_step 0 q) ! 0 = PSlot w k t"
      using solo_admitted [OF so [unfolded PAdmitted]] solo_pc by blast
    then show ?thesis using PAdmitted q' by simp
  next
    case (PSlot w k t)
    then show ?thesis using solo_pc [OF solo_slot [OF so [unfolded PSlot]]] q' by simp
  next
    case (PLocked w k t)
    then show ?thesis using q' lfq_reach_facts(1) [OF q] by (simp add: enq_step_def pgoto_def Let_def)
  next
    case (PSwapped w k t sv)
    then show ?thesis using q' lfq_reach_facts(1) [OF q] by (simp add: enq_step_def pgoto_def Let_def)
  next
    case (PCopied w k t sv)
    then have "ok" using solo_pc [OF solo_done [OF so [unfolded PCopied]]] s by (simp add: send_step_def)
    then show ?thesis using nok by simp
  next
    case PFailed
    then show ?thesis using lfq_reach_facts(2) [OF q, of 0] by simp
  qed
qed

text \<open>A consumer inside a call, or an idle one with a value in the queue and no producer inside a call.\<close>

lemma recv_step_progress:
  assumes q: "lfq_reach N 1 q" and s: "recv_step q = (None, q')"
    and r: "cc q = CIdle \<Longrightarrow> pp q ! 0 = PIdle \<and> length (returned q) < length (issued q)"
  shows "crank q' < crank q"
proof -
  have q': "q' = deq_step q" using s by (auto simp: recv_step_def split: cpc.splits)
  have inv: "linv N 1 q" and sz: "size_ok N 1" using lfq_reach_linv [OF q] by auto
  show ?thesis
  proof (cases "cc q")
    case CIdle
    have "pp q = [PIdle]" using r [OF CIdle] lfq_reach_facts(1) [OF q] by (cases "pp q") auto
    then have a: "alone N 1 CIdle (issued q) (returned q) q" using inv sz CIdle by (simp add: alone_def)
    note n = alone_node [OF a] and t = alone_tail [OF a]
    have "\<not> nd_lock (lf_data (lq q) ! unat (lf_tail (lq q)))" "has_value (lf_data (lq q) ! unat (lf_tail (lq q)))"
      using n t r [OF CIdle] by simp_all
    moreover have "unat (lf_tail (lq q)) < length (lf_data (lq q))"
      using t linv_parts(1) [OF inv] size_ok_pos [OF sz] by simp
    ultimately show ?thesis using q' CIdle by (simp add: crank_def deq_step_def acquire_def set_node_def Let_def)
  next
    case (CDecr r)
    then have "cc q' \<noteq> CIdle" using s by (auto simp: recv_step_def split: if_splits)
    then show ?thesis using q' CDecr by (auto simp: crank_def deq_step_def Let_def)
  next
    case CFailed
    then show ?thesis using linv_parts(4) [OF inv] by simp
  qed (auto simp: q' crank_def deq_step_def release_def set_node_def Let_def)
qed

section \<open>The test\<close>

text \<open>A consumer is inside a call only while its process receives.\<close>

definition owner_ok :: "tproc \<Rightarrow> int lsys \<Rightarrow> bool" where
  "owner_ok c q \<longleftrightarrow> cc q = CIdle \<or> (\<exists>i. tp_phase c = Receiving i)"

definition tester_live :: "tsystem \<Rightarrow> bool" where
  "tester_live s \<longleftrightarrow> tester_inv s \<and> owner_ok (ts_p0 s) (ts_q0 s) \<and> owner_ok (ts_p1 s) (ts_q1 s)"

lemma proc_step_owner:
  assumes "proc_step p mine theirs = (p', mine', theirs')" and "owner_ok p mine"
  shows "owner_ok p' mine' \<and> cc theirs' = cc theirs"
proof (cases "tp_phase p")
  case (Sending i)
  then show ?thesis
    using assms send_step_cc [of "int i" theirs] by (auto simp: proc_step_def owner_ok_def split: prod.splits)
next
  case (Receiving i)
  then show ?thesis
    using assms recv_step_cc [of mine] by (auto simp: proc_step_def owner_ok_def split: prod.splits option.splits)
qed (use assms in \<open>auto simp: proc_step_def owner_ok_def\<close>)

lemma tester_steps_eq:
  "tester_step0 s = (case proc_step (ts_p0 s) (ts_q0 s) (ts_q1 s) of (p, mine, theirs) \<Rightarrow>
     s\<lparr>ts_p0 := p, ts_q0 := mine, ts_q1 := theirs\<rparr>)"
  "tester_step1 s = (case proc_step (ts_p1 s) (ts_q1 s) (ts_q0 s) of (p, mine, theirs) \<Rightarrow>
     s\<lparr>ts_p1 := p, ts_q1 := mine, ts_q0 := theirs\<rparr>)"
  by (simp_all add: tester_step0_def tester_step1_def)

lemma tester_step_live:
  assumes l: "tester_live s" and s: "tester_step s t"
  shows "tester_live t"
proof -
  have "owner_ok (ts_p0 t) (ts_q0 t) \<and> owner_ok (ts_p1 t) (ts_q1 t)"
    using s
  proof cases
    case ts_0
    obtain p mine theirs where e: "proc_step (ts_p0 s) (ts_q0 s) (ts_q1 s) = (p, mine, theirs)" by (metis prod_cases3)
    from proc_step_owner [OF e] l show ?thesis by (simp add: ts_0 tester_steps_eq e tester_live_def owner_ok_def)
  next
    case ts_1
    obtain p mine theirs where e: "proc_step (ts_p1 s) (ts_q1 s) (ts_q0 s) = (p, mine, theirs)" by (metis prod_cases3)
    from proc_step_owner [OF e] l show ?thesis by (simp add: ts_1 tester_steps_eq e tester_live_def owner_ok_def)
  qed
  then show ?thesis using l tester_step_inv [OF _ s] by (simp add: tester_live_def)
qed

lemma tester_start_live: "tester_live tester_start"
  using tester_start_inv by (simp add: tester_live_def owner_ok_def tester_start_def l_start_def Let_def)

interpretation tester_liveness: safety "\<lambda>s. s = tester_start" tester_step tester_live
  by unfold_locales (use tester_start_live tester_step_live in auto)

text \<open>The work left on the queue from \<open>p\<close> to \<open>c\<close>.\<close>

definition link_work :: "tproc \<Rightarrow> int lsys \<Rightarrow> tproc \<Rightarrow> nat" where
  "link_work p q c = 10 * (256 - sent_count p) + prank (pp q ! 0) + (10 * (256 - recv_count c) + crank q)"

definition tester_work :: "tsystem \<Rightarrow> nat" where
  "tester_work s = link_work (ts_p1 s) (ts_q0 s) (ts_p0 s) + link_work (ts_p0 s) (ts_q1 s) (ts_p1 s)"

text \<open>When a process can make progress with its next access.\<close>

definition can_move :: "tproc \<Rightarrow> int lsys \<Rightarrow> int lsys \<Rightarrow> bool" where
  "can_move p mine theirs \<longleftrightarrow>
     (case tp_phase p of
        Sending i \<Rightarrow> cc theirs = CIdle \<and>
          (pp theirs ! 0 = PIdle \<longrightarrow> length (issued theirs) < length (returned theirs) + num_msgs)
      | Receiving i \<Rightarrow> cc mine = CIdle \<longrightarrow> pp mine ! 0 = PIdle \<and> length (returned mine) < length (issued mine)
      | _ \<Rightarrow> False)"

lemma counts_bound:
  "phase_ok p \<Longrightarrow> sent_count p \<le> 256 \<and> recv_count p \<le> 256 \<and>
    (tp_phase p = Sending i \<longrightarrow> sent_count p < 256) \<and> (tp_phase p = Receiving i \<longrightarrow> recv_count p < 256)"
  by (auto simp: phase_ok_def num_msgs_def split: tphase.splits)

lemma prank_bound: "prank pc \<le> 7" and crank_bound: "crank q \<le> 9"
  by (cases pc; simp) (simp add: crank_def split: cpc.split)

lemma move_work:
  assumes p: "phase_ok p" and c: "phase_ok c" and t: "link p theirs c" and m: "link c mine p" and cm: "can_move p mine theirs"
    and s: "proc_step p mine theirs = (p', mine', theirs')"
  shows "link_work p' theirs' c + link_work c mine' p' < link_work p theirs c + link_work c mine p"
proof (cases "tp_phase p")
  case (Sending i)
  obtain ok q where q: "send_step (int i) theirs = (ok, q)" by fastforce
  have s': "p' = (if ok then after_send i p else p)" "mine' = mine" "theirs' = q"
    using s q Sending by (auto simp: proc_step_def)
  have i: "1 \<le> i" "i \<le> num_msgs" using p Sending by (auto simp: phase_ok_def)
  have cc: "cc q = CIdle" "cc theirs = CIdle" using send_step_cc [OF q] cm Sending by (simp_all add: can_move_def)
  then have cr: "crank q = crank theirs" by (simp add: crank_def)
  have reach: "lfq_reach num_msgs 1 theirs" using t by (simp add: link_def)
  show ?thesis
  proof (cases ok)
    case True
    have "sent_count p' = Suc (sent_count p)" "recv_count p' = recv_count p"
      using s'(1) True Sending i p by (auto simp: after_send_def phase_ok_def num_msgs_def)
    moreover have "pp q ! 0 = PIdle"
      using send_step_spec [OF reach _ _ q, of "map nth_msg [0..<sent_count p]"] True t Sending nth_msg_sending [OF i]
      by (simp add: link_def)
    moreover have "prank (pp theirs ! 0) = 1"
      using q True by (auto simp: send_step_def split: ppc.splits)
    moreover have "sent_count p < 256" using counts_bound [OF p] Sending by blast
    ultimately show ?thesis by (simp add: link_work_def s' cr)
  next
    case False
    have "prank (pp q ! 0) < prank (pp theirs ! 0)"
      by (rule send_step_progress [OF reach cc(2) q _ False]) (use cm Sending in \<open>simp add: can_move_def\<close>)
    then show ?thesis using False by (simp add: link_work_def s' cr)
  qed
next
  case (Receiving i)
  obtain r q where q: "recv_step mine = (r, q)" by fastforce
  have s': "p' = (case r of None \<Rightarrow> p | Some j \<Rightarrow> after_recv i j p)" "mine' = q" "theirs' = theirs"
    using s q Receiving by (auto simp: proc_step_def)
  have reach: "lfq_reach num_msgs 1 mine" using m by (simp add: link_def)
  note spec = recv_step_spec [OF reach q]
  show ?thesis
  proof (cases r)
    case None
    have "crank q < crank mine"
      by (rule recv_step_progress [OF reach q [unfolded None]]) (use cm Receiving in \<open>simp add: can_move_def\<close>)
    then show ?thesis using None spec by (simp add: link_work_def s')
  next
    case (Some j)
    have ok: "phase_ok p'" "link c q p'" using proc_step_ok [OF p c t m s] s'(2) by simp_all
    have j: "j = Some (int i)" using ok(1) s'(1) Some by (auto simp: after_recv_def phase_ok_def split: if_splits)
    have n: "sent_count p' = sent_count p"
      using s'(1) Some j p Receiving by (auto simp: after_recv_def phase_ok_def num_msgs_def)
    have "recv_count p' = Suc (recv_count p)" using ok(2) m spec Some by (simp add: link_def)
    moreover have "recv_count p < 256" using counts_bound [OF p] Receiving by blast
    moreover have "crank q = 7" using recv_step_cc [OF q [unfolded Some]] by (simp add: crank_def)
    ultimately show ?thesis using n spec by (simp add: link_work_def s')
  qed
qed (use cm in \<open>simp_all add: can_move_def\<close>)

text \<open>
  With both queues at rest: a full queue has a receiver that can take from it, an empty one a sender with room,
  as neither process is more than one iteration ahead.
\<close>

lemma rest_moves:
  assumes p: "phase_ok p" and c: "phase_ok c" and t: "link p pc c" and m: "link c cp p"
    and i: "cc pc = CIdle" "cc cp = CIdle" "pp pc ! 0 = PIdle" "pp cp ! 0 = PIdle"
    and nf: "tp_phase p \<noteq> Finished \<or> tp_phase c \<noteq> Finished"
  shows "can_move p cp pc \<or> can_move c pc cp"
proof -
  have l: "length (issued pc) = sent_count p" "length (issued cp) = sent_count c"
    "length (returned pc) = recv_count c" "length (returned cp) = recv_count p"
    using t m i by (simp_all add: link_def flight_def)
  have le: "recv_count c \<le> sent_count p" "recv_count p \<le> sent_count c"
    using lfq_reach_facts(4) [of num_msgs 1] t m l by (metis link_def)+
  show ?thesis
    using p c le i nf
    by (cases "tp_phase p"; cases "tp_phase c") (auto simp: can_move_def phase_ok_def num_msgs_def l)
qed

lemma some_move:
  assumes s: "tester_live s" and nf: "tp_phase (ts_p0 s) \<noteq> Finished \<or> tp_phase (ts_p1 s) \<noteq> Finished"
  shows "can_move (ts_p0 s) (ts_q0 s) (ts_q1 s) \<or> can_move (ts_p1 s) (ts_q1 s) (ts_q0 s)"
proof -
  have ok: "phase_ok (ts_p0 s)" "phase_ok (ts_p1 s)" and k: "link (ts_p1 s) (ts_q0 s) (ts_p0 s)" "link (ts_p0 s) (ts_q1 s) (ts_p1 s)"
    and o': "owner_ok (ts_p0 s) (ts_q0 s)" "owner_ok (ts_p1 s) (ts_q1 s)"
    using s by (simp_all add: tester_live_def tester_inv_def)
  consider "cc (ts_q0 s) \<noteq> CIdle \<or> cc (ts_q1 s) \<noteq> CIdle"
    | "cc (ts_q0 s) = CIdle" "cc (ts_q1 s) = CIdle" "pp (ts_q0 s) ! 0 \<noteq> PIdle \<or> pp (ts_q1 s) ! 0 \<noteq> PIdle"
    | "cc (ts_q0 s) = CIdle" "cc (ts_q1 s) = CIdle" "pp (ts_q0 s) ! 0 = PIdle" "pp (ts_q1 s) ! 0 = PIdle"
    by blast
  then show ?thesis
  proof cases
    case 1
    then show ?thesis using o' by (auto simp: owner_ok_def can_move_def)
  next
    case 2
    then show ?thesis using k ok
      by (cases "tp_phase (ts_p0 s)"; cases "tp_phase (ts_p1 s)") (auto simp: link_def can_move_def phase_ok_def)
  next
    case 3
    then show ?thesis using rest_moves [OF ok k(2,1)] nf by blast
  qed
qed

lemma tester_progress:
  assumes s: "tester_live s" and nf: "tp_phase (ts_p0 s) \<noteq> Finished \<or> tp_phase (ts_p1 s) \<noteq> Finished"
  shows "\<exists>t. tester_step s t \<and> tester_work t < tester_work s"
proof -
  have ok: "phase_ok (ts_p0 s)" "phase_ok (ts_p1 s)" and k: "link (ts_p1 s) (ts_q0 s) (ts_p0 s)" "link (ts_p0 s) (ts_q1 s) (ts_p1 s)"
    using s by (simp_all add: tester_live_def tester_inv_def)
  obtain p mine theirs p' mine' theirs' where e: "proc_step (ts_p0 s) (ts_q0 s) (ts_q1 s) = (p, mine, theirs)"
    "proc_step (ts_p1 s) (ts_q1 s) (ts_q0 s) = (p', mine', theirs')" by (metis prod_cases3)
  show ?thesis
    using some_move [OF s nf]
  proof
    assume "can_move (ts_p0 s) (ts_q0 s) (ts_q1 s)"
    from move_work [OF ok(1,2) k(2,1) this e(1)] show ?thesis
      by (intro exI [of _ "tester_step0 s"] conjI ts_0) (simp add: tester_work_def tester_steps_eq e)
  next
    assume "can_move (ts_p1 s) (ts_q1 s) (ts_q0 s)"
    from move_work [OF ok(2,1) k(1,2) this e(2)] show ?thesis
      by (intro exI [of _ "tester_step1 s"] conjI ts_1) (simp add: tester_work_def tester_steps_eq e)
  qed
qed

lemma link_work_bound: "link_work p q c \<le> 5136"
  using prank_bound [of "pp q ! 0"] crank_bound [of q] unfolding link_work_def by linarith

lemma work_bound: "tester_work s \<le> 10272"
  using link_work_bound [of "ts_p1 s" "ts_q0 s" "ts_p0 s"] link_work_bound [of "ts_p0 s" "ts_q1 s" "ts_p1 s"]
  unfolding tester_work_def by linarith

interpretation tester_end: progress tester_step "\<lambda>w s. tester_live s \<and> tester_work s \<le> w"
    "\<lambda>s. tp_phase (ts_p0 s) = Finished \<and> tp_phase (ts_p1 s) = Finished"
proof
  fix w s
  assume l: "tester_live s \<and> tester_work s \<le> w" and nf: "\<not> (tp_phase (ts_p0 s) = Finished \<and> tp_phase (ts_p1 s) = Finished)"
  then obtain t where t: "tester_step s t" "tester_work t < tester_work s" using tester_progress by blast
  then show "\<exists>t w'. tester_step s t \<and> w' < w \<and> tester_live t \<and> tester_work t \<le> w'"
    using tester_step_live [OF _ t(1)] l by (intro exI [of _ t] exI [of _ "tester_work t"]) simp
qed

text \<open>
  The loops of the test cannot get stuck: from every state that its two processes can reach in any interleaving of
  their accesses, whatever calls they are in and however long they have been spinning, at most 10272 further accesses, in a suitable order, finish
  both.
\<close>

lemma loops_can_finish:
  assumes "tester_reach s"
  shows "\<exists>n t. n \<le> 10272 \<and> (tester_step ^^ n) s t \<and> tp_phase (ts_p0 t) = Finished \<and> tp_phase (ts_p1 t) = Finished"
  using tester_liveness.reach_inv [OF assms [unfolded tester_reach_def]] work_bound [of s] by (intro tester_end.can_finish) simp

end
