(* ===== verification/Xpmem_Progress.thy ===== *)
theory Xpmem_Progress
  imports Xpmem_Bounce Lfq_Progress
begin

text \<open>
  Progress of the two PEs of \<open>archive/xpmem-experiments/tester.cc\<close>: wherever a run is, the value on its way can
  reach the other PE, and the last one ends the program. The accesses left are counted as in the test of the queue.
\<close>

text \<open>The accesses that the value \<open>k\<close>, in \<open>qa\<close>, and its successors still need.\<close>

definition bounce_work :: "stage \<Rightarrow> nat \<Rightarrow> sm lsys \<Rightarrow> nat" where
  "bounce_work st k qa = 27 * (31 - k) +
     (case st of
        TStore \<Rightarrow> 26
      | TSend \<Rightarrow> 10 + prank (pp qa ! 0) + crank qa
      | TQueued \<Rightarrow> 1 + crank qa
      | TRead \<Rightarrow> 1)"

lemma bounce_work_bound: "bounce st k a qa b qb \<Longrightarrow> bounce_work st k qa \<le> 863"
proof -
  assume b: "bounce st k a qa b qb"
  have "prank (pp qa ! 0) \<le> 6" if "st = TSend"
    using b that by (cases "pp qa ! 0") (simp_all add: bounce_def link_busy_def)
  then show ?thesis using crank_bound [of qa] by (cases st) (fastforce simp: bounce_work_def)+
qed

lemma sender_progress:
  assumes b: "bounce st k a qa b qb" and st: "st = TStore \<or> st = TSend \<and> cc qa = CIdle"
    and s: "x_step D mem a qb qa = (a', qb', qa')"
  shows "\<exists>st'. bounce st' k a' qa' b qb' \<and> same_cell a' a \<and> bounce_work st' k qa' < bounce_work st k qa"
proof (cases st)
  case TStore
  have "prank (pp qa ! 0) = 6" using b TStore by (simp add: bounce_def link_rest_def)
  then show ?thesis using b s TStore link_rest_busy crank_bound [of qa]
    by (intro exI [of _ TSend]) (auto simp: bounce_def x_step_def own_msg_def same_cell_def bounce_work_def)
next
  case TSend
  obtain ok q where q: "send_step (own_msg a) qa = (ok, q)" by fastforce
  have lb: "link_busy (own_msg a) (k div 2) qa" and idle: "cc qa = CIdle" using b st TSend by (simp_all add: bounce_def)
  note l = link_send [OF lb q]
  have cr: "crank q = crank qa" using send_step_cc [OF q] idle by (simp add: crank_def)
  show ?thesis
  proof (cases "pp q ! 0 = PIdle")
    case True
    then show ?thesis using b s TSend q l cr
      by (intro exI [of _ TQueued]) (auto simp: bounce_def x_step_def own_msg_def same_cell_def bounce_work_def)
  next
    case False
    have "prank (pp q ! 0) < prank (pp qa ! 0)"
    proof (rule send_step_progress [OF _ idle q])
      show "lfq_reach 32 1 qa" using lb by (simp add: link_busy_def)
      show "pp qa ! 0 = PIdle \<Longrightarrow> length (issued qa) < length (returned qa) + 32"
        using lb by (simp add: link_busy_def flight_def)
      show "\<not> ok" using False q by (auto simp: send_step_def split: ppc.splits prod.splits)
    qed
    then show ?thesis using b s TSend q l cr False
      by (intro exI [of _ TSend]) (auto simp: bounce_def x_step_def same_cell_def bounce_work_def)
  qed
qed (use st in auto)

lemma receiver_progress:
  assumes b: "bounce st k a qa b qb" and st: "st = TSend \<and> cc qa \<noteq> CIdle \<or> st = TQueued"
    and s: "x_step D mem b qa qb = (b', qa', qb')"
  shows "\<exists>st'. bounce st' k a qa' b' qb' \<and> same_cell b' b \<and> bounce_work st' k qa' < bounce_work st k qa"
proof -
  obtain res q where q: "recv_step qa = (res, q)" by fastforce
  from st show ?thesis
  proof
    assume st: "st = TSend \<and> cc qa \<noteq> CIdle"
    then have lb: "link_busy (own_msg a) (k div 2) qa" using b by (simp add: bounce_def)
    note l = link_recv_busy [OF lb q]
    have e: "b' = b" "qb' = qb" "qa' = q" using b s st q l by (auto simp: bounce_def x_step_def)
    have "crank q < crank qa"
    proof (rule recv_step_progress)
      show "lfq_reach 32 1 qa" using lb by (simp add: link_busy_def)
      show "recv_step qa = (None, q)" using q l by simp
    qed (use st in simp)
    moreover have "pp q = pp qa" using recv_step_spec [of 32 1 qa res q] q lb by (simp add: link_busy_def)
    ultimately show ?thesis using b st l e
      by (intro exI [of _ TSend]) (simp add: bounce_def same_cell_def bounce_work_def)
  next
    assume st: "st = TQueued"
    then have lr: "link_rest (own_msg a) (Suc (k div 2)) (k div 2) qa" using b by (simp add: bounce_def)
    from lr q show ?thesis
    proof (cases rule: link_recv)
      case none
      have e: "b' = b" "qb' = qb" "qa' = q" using b s st q none by (auto simp: bounce_def x_step_def)
      have "crank q < crank qa"
      proof (rule recv_step_progress)
        show "lfq_reach 32 1 qa" using lr by (simp add: link_rest_def)
        show "recv_step qa = (None, q)" using q none by simp
      qed (use lr in \<open>simp add: link_rest_def\<close>)
      then show ?thesis using b st none e
        by (intro exI [of _ TQueued]) (simp add: bounce_def same_cell_def bounce_work_def)
    next
      case some
      have e: "b' = b\<lparr>xp_pc := XGot (own_msg a)\<rparr>" "qb' = qb" "qa' = q"
        using b s st q some by (auto simp: bounce_def x_step_def)
      have "crank qa > 0" using q some by (auto simp: recv_step_def crank_def split: cpc.splits if_splits)
      then show ?thesis using b st some e
        by (intro exI [of _ TRead]) (simp add: bounce_def own_msg_def same_cell_def bounce_work_def)
    qed
  qed
qed

text \<open>What a step of one of the two PEs has achieved for the value \<open>k\<close>.\<close>

definition moved :: "nat \<Rightarrow> nat \<Rightarrow> xpe \<Rightarrow> sm lsys \<Rightarrow> xpe \<Rightarrow> sm lsys \<Rightarrow> bool" where
  "moved w k a qa b qb \<longleftrightarrow>
     (\<exists>st. bounce st k a qa b qb \<and> bounce_work st k qa < w) \<or>
     k < 31 \<and> bounce TStore (Suc k) b qb a qa \<and> bounce_work TStore (Suc k) qb < w \<or>
     k = 31 \<and> bounced a qa b qb \<and> 0 < w"

lemma bounce_progress:
  assumes b: "bounce st k a qa b qb" and w: "w = bounce_work st k qa"
    and v: "recv_value D' mem (own_msg a) = Inr (xp_mem a (xp_data a))"
  obtains (sender) a' qb' qa' where "x_step D mem a qb qa = (a', qb', qa')" "moved w k a' qa' b qb'" "same_cell a' a"
  | (receiver) b' qa' qb' where "x_step D' mem b qa qb = (b', qa', qb')" "moved w k a qa' b' qb'" "same_cell b' b"
proof -
  obtain a' qb1 qa1 where sa: "x_step D mem a qb qa = (a', qb1, qa1)" by (metis prod_cases3)
  obtain b' qa2 qb2 where sb: "x_step D' mem b qa qb = (b', qa2, qb2)" by (metis prod_cases3)
  consider "st = TStore \<or> st = TSend \<and> cc qa = CIdle" | "st = TSend \<and> cc qa \<noteq> CIdle \<or> st = TQueued" | "st = TRead"
    by (cases st) auto
  then show thesis
  proof cases
    case 1
    from sender_progress [OF b 1 sa] show thesis by (intro sender [OF sa]) (auto simp: moved_def w)
  next
    case 2
    from receiver_progress [OF b 2 sb] show thesis by (intro receiver [OF sb]) (auto simp: moved_def w)
  next
    case 3
    have "0 < w" "k < 31 \<Longrightarrow> bounce_work TStore (Suc k) qb2 < w" by (simp_all add: w 3 bounce_work_def)
    then show thesis using bounce_read [OF b [unfolded 3] sb v] by (intro receiver [OF sb]) (auto simp: moved_def split: if_splits)
  qed
qed

text \<open>The work left in a state of the program.\<close>

definition x_left :: "xsys \<Rightarrow> nat \<Rightarrow> xsys \<Rightarrow> bool" where
  "x_left s0 w s \<longleftrightarrow> same_cell (x_p0 s) (x_p0 s0) \<and> same_cell (x_p1 s) (x_p1 s0) \<and>
     ((\<exists>st k. even k \<and> bounce st k (x_p0 s) (x_send s) (x_p1 s) (x_recv s) \<and> w = bounce_work st k (x_send s)) \<or>
      (\<exists>st k. odd k \<and> bounce st k (x_p1 s) (x_recv s) (x_p0 s) (x_send s) \<and> w = bounce_work st k (x_recv s)) \<or>
      bounced (x_p1 s) (x_recv s) (x_p0 s) (x_send s) \<and> w = 0)"

lemma x_inv_left: "x_inv s0 s \<Longrightarrow> \<exists>w \<le> 863. x_left s0 w s"
  unfolding x_inv_def x_left_def by (metis bounce_work_bound le0)

lemma moved_left:
  assumes c: "same_cell (x_p0 s) (x_p0 s0)" "same_cell (x_p1 s) (x_p1 s0)"
  shows "even k \<Longrightarrow> moved w k (x_p0 s) (x_send s) (x_p1 s) (x_recv s) \<Longrightarrow> \<exists>w' < w. x_left s0 w' s"
    and "odd k \<Longrightarrow> moved w k (x_p1 s) (x_recv s) (x_p0 s) (x_send s) \<Longrightarrow> \<exists>w' < w. x_left s0 w' s"
proof -
  assume k: "even k" and m: "moved w k (x_p0 s) (x_send s) (x_p1 s) (x_recv s)"
  then have "odd (Suc k)" "k \<noteq> 31" by auto
  then show "\<exists>w' < w. x_left s0 w' s" using k m c unfolding moved_def x_left_def by blast
next
  assume k: "odd k" and m: "moved w k (x_p1 s) (x_recv s) (x_p0 s) (x_send s)"
  then have "even (Suc k)" by simp
  then show "\<exists>w' < w. x_left s0 w' s" using k m c unfolding moved_def x_left_def by blast
qed

lemma x_left_progress:
  assumes l: "x_left s0 w s" and nf: "xp_pc (x_p0 s) \<noteq> XStop \<or> xp_pc (x_p1 s) \<noteq> XStop"
    and seg: "xp_seg (x_p0 s0) \<noteq> xp_seg (x_p1 s0)"
    and a0: "attaches D1 (xp_seg (x_p0 s0)) (xp_data (x_p0 s0)) 4" "fits (xp_data (x_p0 s0)) 4"
    and a1: "attaches D0 (xp_seg (x_p1 s0)) (xp_data (x_p1 s0)) 4" "fits (xp_data (x_p1 s0)) 4"
  shows "\<exists>t w'. xsys_step D0 D1 s t \<and> w' < w \<and> x_left s0 w' t"
proof -
  have c: "same_cell (x_p0 s) (x_p0 s0)" "same_cell (x_p1 s) (x_p1 s0)" using l by (simp_all add: x_left_def)
  have v0: "recv_value D1 (x_mem s) (own_msg (x_p0 s)) = Inr (xp_mem (x_p0 s) (xp_data (x_p0 s)))"
    using recv_value_reads [OF a0, of "x_mem s"] c by (simp add: own_msg_def same_cell_def x_mem_def)
  have v1: "recv_value D0 (x_mem s) (own_msg (x_p1 s)) = Inr (xp_mem (x_p1 s) (xp_data (x_p1 s)))"
    using recv_value_reads [OF a1, of "x_mem s"] c seg by (simp add: own_msg_def same_cell_def x_mem_def)
  have to0: ?thesis if "x_step D0 (x_mem s) (x_p0 s) (x_recv s) (x_send s) = (x, rq, sq)"
      "\<exists>w' < w. x_left s0 w' (s\<lparr>x_p0 := x, x_recv := rq, x_send := sq\<rparr>)" for x rq sq
    using that xs_0 [of D0 D1 s] by (auto simp: x_step0_def)
  have to1: ?thesis if "x_step D1 (x_mem s) (x_p1 s) (x_send s) (x_recv s) = (x, rq, sq)"
      "\<exists>w' < w. x_left s0 w' (s\<lparr>x_p1 := x, x_send := rq, x_recv := sq\<rparr>)" for x rq sq
    using that xs_1 [of D0 D1 s] by (auto simp: x_step1_def)
  have trans: "same_cell x y \<Longrightarrow> same_cell y z \<Longrightarrow> same_cell x z" for x y z by (simp add: same_cell_def)
  consider (even) st k where "even k" "bounce st k (x_p0 s) (x_send s) (x_p1 s) (x_recv s)" "w = bounce_work st k (x_send s)"
    | (odd) st k where "odd k" "bounce st k (x_p1 s) (x_recv s) (x_p0 s) (x_send s)" "w = bounce_work st k (x_recv s)"
    using l nf by (auto simp: x_left_def bounced_def)
  then show ?thesis
  proof cases
    case even
    from even(2,3) v0 show ?thesis
    proof (cases rule: bounce_progress [where D = D0])
      case (sender a' qb' qa')
      then show ?thesis using c trans by (intro to0 [OF sender(1)] moved_left(1) [OF _ _ even(1)]) auto
    next
      case (receiver b' qa' qb')
      then show ?thesis using c trans by (intro to1 [OF receiver(1)] moved_left(1) [OF _ _ even(1)]) auto
    qed
  next
    case odd
    from odd(2,3) v1 show ?thesis
    proof (cases rule: bounce_progress [where D = D1])
      case (sender a' qb' qa')
      then show ?thesis using c trans by (intro to1 [OF sender(1)] moved_left(2) [OF _ _ odd(1)]) auto
    next
      case (receiver b' qa' qb')
      then show ?thesis using c trans by (intro to0 [OF receiver(1)] moved_left(2) [OF _ _ odd(1)]) auto
    qed
  qed
qed

lemma x_inv_stopped:
  assumes "x_inv s0 s" "xp_pc (x_p0 s) = XStop" "xp_pc (x_p1 s) = XStop"
  shows "xp_seen (x_p0 s) = seen_by False 32 \<and> xp_seen (x_p1 s) = seen_by True 32"
proof -
  have "\<not> bounce st k a qa b qb" if "xp_pc a = XStop" "xp_pc b = XStop" for st k a qa b qb
    using that by (cases st) (auto simp: bounce_def)
  then show ?thesis using assms by (auto simp: x_inv_def bounced_def)
qed

interpretation bounce_end: progress "xsys_step D0 D1"
    "\<lambda>w s. x_attached D0 D1 seg0 d0 seg1 d1 \<and> x_left (x_start seg0 d0 seg1 d1 m0 m1) w s"
    "\<lambda>s. xp_pc (x_p0 s) = XStop \<and> xp_pc (x_p1 s) = XStop"
  for D0 D1 seg0 d0 seg1 d1 m0 m1
proof
  fix w s
  assume "x_attached D0 D1 seg0 d0 seg1 d1 \<and> x_left (x_start seg0 d0 seg1 d1 m0 m1) w s"
    and "\<not> (xp_pc (x_p0 s) = XStop \<and> xp_pc (x_p1 s) = XStop)"
  then show "\<exists>t w'. xsys_step D0 D1 s t \<and> w' < w \<and>
      x_attached D0 D1 seg0 d0 seg1 d1 \<and> x_left (x_start seg0 d0 seg1 d1 m0 m1) w' t"
    using x_left_progress [of "x_start seg0 d0 seg1 d1 m0 m1" w s D1 D0] by (simp add: x_attached_def x_start_def)
qed

text \<open>
  C36. The XPMEM experiment cannot get stuck: from every state that its two PEs can reach, in any interleaving of their
  accesses, at most 863 further accesses, in a suitable order, end both, and then PE 0 has received every odd and
  PE 1 every even value below 32.
\<close>

theorem bounce_can_finish:
  assumes "x_reach D0 D1 seg0 d0 seg1 d1 m0 m1 s" and "x_attached D0 D1 seg0 d0 seg1 d1"
  shows "\<exists>n t. n \<le> 863 \<and> (xsys_step D0 D1 ^^ n) s t \<and> xp_pc (x_p0 t) = XStop \<and> xp_pc (x_p1 t) = XStop \<and>
    xp_seen (x_p0 t) = map (\<lambda>i. 2 * int i + 1) [0..<16] \<and> xp_seen (x_p1 t) = map (\<lambda>i. 2 * int i) [0..<16]"
proof -
  have "reach (\<lambda>s. x_attached D0 D1 seg0 d0 seg1 d1 \<and> s = x_start seg0 d0 seg1 d1 m0 m1) (xsys_step D0 D1) s"
    using assms by (simp add: x_reach_def)
  from xpmem_safety.reach_inv [OF this] have inv: "x_inv (x_start seg0 d0 seg1 d1 m0 m1) s" by simp
  from x_inv_left [OF this] obtain w where w: "w \<le> 863" "x_left (x_start seg0 d0 seg1 d1 m0 m1) w s" by blast
  from bounce_end.can_finish [of D0 D1 seg0 d0 seg1 d1 m0 m1 w s] assms(2) w(2)
  obtain n t where t: "n \<le> w" "(xsys_step D0 D1 ^^ n) s t" "xp_pc (x_p0 t) = XStop" "xp_pc (x_p1 t) = XStop" by blast
  have "x_inv (x_start seg0 d0 seg1 d1 m0 m1) t"
    using xpmem_safety.run_inv [of D0 D1 s t seg0 d0 seg1 d1 m0 m1] relpowp_imp_rtranclp [OF t(2)] inv assms(2) by simp
  then have "xp_seen (x_p0 t) = seen_by False 32 \<and> xp_seen (x_p1 t) = seen_by True 32"
    using t(3,4) x_inv_stopped by blast
  then show ?thesis using t w(1) seen_by_eq [of 32] by (intro exI [of _ n] exI [of _ t]) simp
qed

theorem bounce_can_finish_witness:
  "\<exists>n t. n \<le> 863 \<and> (xsys_step (id_driver 2) (id_driver 1) ^^ n)
     (x_step0 (id_driver 2) (x_start 1 0x10010 2 0x20010 (\<lambda>_. 0) (\<lambda>_. 0))) t \<and> xp_pc (x_p1 t) = XStop"
proof -
  have "x_reach (id_driver 2) (id_driver 1) 1 0x10010 2 0x20010 (\<lambda>_. 0) (\<lambda>_. 0)
      (x_start 1 0x10010 2 0x20010 (\<lambda>_. 0) (\<lambda>_. 0))"
    unfolding x_reach_def by (rule reach_init) simp
  then have "x_reach (id_driver 2) (id_driver 1) 1 0x10010 2 0x20010 (\<lambda>_. 0) (\<lambda>_. 0)
      (x_step0 (id_driver 2) (x_start 1 0x10010 2 0x20010 (\<lambda>_. 0) (\<lambda>_. 0)))"
    unfolding x_reach_def by (rule reach_step) (rule xs_0)
  from bounce_can_finish [OF this id_attached] show ?thesis by blast
qed

end
