(* ===== verification/Ipc_Block.thy ===== *)
theory Ipc_Block
  imports Prelude
begin

text \<open>
  \<open>archive/include/common.hh\<close>: the block header that the pool and the queue link into lists,
  the memory holding the blocks, and the lists themselves. Also here: the interface of a
  last-in-first-out container (\<open>lifo\<close>), which the queue and every bin of the pool provide.
\<close>

section \<open>Blocks and memory\<close>

record block =
  b_orig :: addr
  b_nxt :: addr
  b_ptr :: addr
  b_size :: u64
  b_used :: bool
  b_xlatd :: addr

definition kTail :: addr where
  "kTail = -1"

text \<open>The constructor of the block that lies at \<open>this\<close>.\<close>

definition new_block :: "addr \<Rightarrow> addr \<Rightarrow> addr \<Rightarrow> u64 \<Rightarrow> block" where
  "new_block this n p sz =
     \<lparr>b_orig = this, b_nxt = n, b_ptr = p, b_size = sz, b_used = False, b_xlatd = 0\<rparr>"

text \<open>
  The memory maps the address a block has in its home process to the block. A process sees
  the block of another process at some other address; \<open>view p a\<close> is the home address of
  what process \<open>p\<close> sees at \<open>a\<close>.
\<close>

type_synonym heap = "addr \<Rightarrow> block option"
type_synonym view = "int \<Rightarrow> addr \<Rightarrow> addr"

definition upd_block :: "addr \<Rightarrow> (block \<Rightarrow> block) \<Rightarrow> heap \<Rightarrow> heap res" where
  "upd_block a f h = (case h a of None \<Rightarrow> Inl BadPointer | Some b \<Rightarrow> Inr (h(a \<mapsto> f b)))"

definition rd_block :: "addr \<Rightarrow> heap \<Rightarrow> block res" where
  "rd_block a h = (case h a of None \<Rightarrow> Inl BadPointer | Some b \<Rightarrow> Inr b)"

lemma upd_block_Some [simp]: "h a = Some b \<Longrightarrow> upd_block a f h = Inr (h(a \<mapsto> f b))"
  by (simp add: upd_block_def)

lemma rd_block_Some [simp]: "h a = Some b \<Longrightarrow> rd_block a h = Inr b"
  by (simp add: rd_block_def)

section \<open>Linked lists\<close>

definition real_addr :: "addr \<Rightarrow> bool" where
  "real_addr a \<longleftrightarrow> a \<noteq> 0 \<and> a \<noteq> kTail"

lemma kTail_simps [simp]: "kTail \<noteq> 0" "0 \<noteq> kTail" "\<not> real_addr 0" "\<not> real_addr kTail"
  by (simp_all add: kTail_def real_addr_def)

text \<open>\<open>chain h a xs\<close>: following \<open>next\<close> from \<open>a\<close> visits the blocks \<open>xs\<close> and ends in the tail.\<close>

fun chain :: "heap \<Rightarrow> addr \<Rightarrow> addr list \<Rightarrow> bool" where
  "chain h a [] \<longleftrightarrow> a = kTail"
| "chain h a (x # xs) \<longleftrightarrow>
     a = x \<and> real_addr x \<and> (case h x of None \<Rightarrow> False | Some b \<Rightarrow> chain h (b_nxt b) xs)"

lemma chain_kTail [simp]: "chain h kTail xs \<longleftrightarrow> xs = []"
  by (cases xs) auto

lemma chain_null [simp]: "\<not> chain h 0 xs"
  by (cases xs) auto

lemma chain_frame [simp]: "a \<notin> set xs \<Longrightarrow> chain (h(a := v)) x xs \<longleftrightarrow> chain h x xs"
  by (induction xs arbitrary: x) (auto split: option.splits)

lemma chain_cong: "(\<And>a. a \<in> set xs \<Longrightarrow> h a = h' a) \<Longrightarrow> chain h x xs \<longleftrightarrow> chain h' x xs"
  by (induction xs arbitrary: x) (auto split: option.splits)

lemma chain_live: "chain h x xs \<Longrightarrow> a \<in> set xs \<Longrightarrow> real_addr a \<and> h a \<noteq> None"
  by (induction xs arbitrary: x) (auto split: option.splits)

lemma chain_unique: "chain h x xs \<Longrightarrow> chain h x ys \<Longrightarrow> xs = ys"
proof (induction xs arbitrary: x ys)
  case Nil
  then show ?case by simp
next
  case (Cons a xs)
  then show ?case by (cases ys) (auto split: option.splits)
qed

lemma chain_split: "chain h x (xs @ y # ys) \<Longrightarrow> chain h y (y # ys)"
proof (induction xs arbitrary: x)
  case (Cons a xs)
  from Cons.prems obtain b where "h a = Some b" and "chain h (b_nxt b) (xs @ y # ys)"
    by (cases "h a") auto
  then show ?case by (intro Cons.IH)
qed simp

text \<open>A list that ends never visits a block twice.\<close>

lemma chain_distinct: "chain h x xs \<Longrightarrow> distinct xs"
proof (induction xs arbitrary: x)
  case (Cons a xs)
  have "a \<notin> set xs"
  proof
    assume "a \<in> set xs"
    then obtain us vs where xs: "xs = us @ a # vs" by (auto dest: split_list)
    have "chain h a (a # vs)"
      using Cons.prems chain_split [of h x "a # us" a vs] xs by simp
    moreover have "chain h a (a # xs)" using Cons.prems by (auto split: option.splits)
    ultimately have "a # vs = a # xs" by (rule chain_unique)
    with xs show False by (simp add: append_eq_Cons_conv)
  qed
  with Cons show ?case by (auto split: option.splits)
qed simp

text \<open>A memory for the examples: headers and buffers every 64 bytes.\<close>

definition every64 :: "nat \<Rightarrow> nat \<Rightarrow> addr" where
  "every64 base k = of_nat (64 * (base + k))"

lemma unat_every64: "base + k < 100 \<Longrightarrow> unat (every64 base k) = 64 * (base + k)"
  unfolding every64_def unat_of_nat by (intro mod_less) simp

lemma every64_ok:
  assumes "0 < base" and "base < 50"
  shows "k < 16 \<Longrightarrow> real_addr (every64 base k)" and "inj_on (every64 base) {..<16}"
proof -
  have "unat kTail = 2 ^ 64 - 1" by (simp add: kTail_def unsigned_minus_1_eq_mask mask_eq_exp_minus_1)
  then show "real_addr (every64 base k)" if "k < 16"
    using unat_every64 [of base k] assms that by (auto simp: real_addr_def)
  show "inj_on (every64 base) {..<16}"
  proof (rule inj_onI)
    fix i k assume "i \<in> {..<16 :: nat}" "k \<in> {..<16 :: nat}" "every64 base i = every64 base k"
    then have b: "base + i < 100" "base + k < 100" "every64 base i = every64 base k" using assms by auto
    then have "64 * (base + i) = 64 * (base + k)"
      using unat_every64 [of base i] unat_every64 [of base k] b by metis
    then show "i = k" by simp
  qed
qed

section \<open>Last in, first out\<close>

text \<open>
  The contract of a container the code fills and drains at one end. \<open>repr s xs\<close>: state \<open>s\<close>
  holds \<open>xs\<close>, newest first; \<open>ok s x\<close>: \<open>x\<close> may be inserted into \<open>s\<close>; an operation that
  returns \<open>None\<close> faulted.
\<close>

locale lifo =
  fixes push :: "'x \<Rightarrow> 's \<Rightarrow> (bool \<times> 's) option"
    and pop :: "'s \<Rightarrow> ('x option \<times> 's) option"
    and repr :: "'s \<Rightarrow> 'x list \<Rightarrow> bool"
    and ok :: "'s \<Rightarrow> 'x \<Rightarrow> bool"
  assumes push_law: "repr s xs \<Longrightarrow> ok s x \<Longrightarrow> x \<notin> set xs \<Longrightarrow>
      \<exists>s'. push x s = Some (True, s') \<and> repr s' (x # xs) \<and> (\<forall>y. ok s y \<longrightarrow> ok s' y)"
    and pop_empty: "repr s [] \<Longrightarrow> \<exists>s'. pop s = Some (None, s') \<and> repr s' []"
    and pop_law: "repr s (x # xs) \<Longrightarrow> \<exists>s'. pop s = Some (Some x, s') \<and> repr s' xs"
begin

fun push_all :: "'x list \<Rightarrow> 's \<Rightarrow> 's option" where
  "push_all [] s = Some s"
| "push_all (x # xs) s =
     (case push x s of Some (True, s') \<Rightarrow> push_all xs s' | _ \<Rightarrow> None)"

fun pop_n :: "nat \<Rightarrow> 's \<Rightarrow> ('x option list \<times> 's) option" where
  "pop_n 0 s = Some ([], s)"
| "pop_n (Suc n) s =
     (case pop s of None \<Rightarrow> None
      | Some (r, s') \<Rightarrow> map_option (\<lambda>(rs, t). (r # rs, t)) (pop_n n s'))"

lemma push_all_repr:
  assumes "repr s xs" and "distinct (rev ys @ xs)" and "\<forall>y \<in> set ys. ok s y"
  shows "\<exists>s'. push_all ys s = Some s' \<and> repr s' (rev ys @ xs)"
  using assms
proof (induction ys arbitrary: s xs)
  case (Cons y ys)
  obtain s1 where "push y s = Some (True, s1)" "repr s1 (y # xs)" "\<forall>z. ok s z \<longrightarrow> ok s1 z"
    using push_law [of s xs y] Cons.prems by auto
  moreover have "distinct (rev ys @ y # xs)" using Cons.prems(2) by auto
  ultimately show ?case using Cons.IH [of s1 "y # xs"] Cons.prems(3) by auto
qed simp

lemma pop_n_repr:
  "repr s xs \<Longrightarrow> n \<le> length xs \<Longrightarrow>
     \<exists>s'. pop_n n s = Some (map Some (take n xs), s') \<and> repr s' (drop n xs)"
proof (induction n arbitrary: s xs)
  case (Suc n)
  then obtain x ys where xs: "xs = x # ys" by (cases xs) auto
  obtain s1 where "pop s = Some (Some x, s1)" "repr s1 ys"
    using pop_law Suc.prems(1) xs by blast
  with Suc.IH [of s1 ys] Suc.prems(2) xs show ?case by auto
qed simp

text \<open>Filling an empty container and draining it returns everything, newest first.\<close>

lemma fill_drain:
  assumes "repr s []" and "distinct ys" and "\<forall>y \<in> set ys. ok s y"
  shows "\<exists>s1 s2. push_all ys s = Some s1 \<and>
    pop_n (length ys) s1 = Some (map Some (rev ys), s2) \<and> repr s2 []"
proof -
  obtain s1 where s1: "push_all ys s = Some s1" "repr s1 (rev ys)"
    using push_all_repr [of s "[]" ys] assms by auto
  then show ?thesis using pop_n_repr [of s1 "rev ys" "length ys"] by auto
qed

end

end
