(* ===== verification/Ipc_Queue_Conc.thy ===== *)
theory Ipc_Queue_Conc
  imports Ipc_Queue
begin

text \<open>
  The queue of \<open>archive/include/queue.hh\<close> used by any number of processes at once. A step is
  one atomic access of one process (an exchange on the head, the write or the read of a
  block's \<open>next\<close>) or a step of its client (allocating, filling and freeing its own blocks).
  Memory is sequentially consistent; the acquire and release orders of the source are what
  makes that view sound for the accesses it makes. The clients keep the discipline of
  the source's callers: only the queue's own process dequeues, and a process enqueues a
  block it owns through an address that names it.
\<close>

section \<open>Processes and their steps\<close>

text \<open>Where a process is inside a call; \<open>QFailed\<close> is a failed assertion or a wild access.\<close>

datatype qpc =
    QIdle
  | QEnqTaken addr addr addr
  | QEnqLinked addr
  | QDeqTaken addr
  | QDeqRead addr addr
  | QFailed

datatype qlabel = Tau | EnqRet addr bool | DeqRet addr

record qsys =
  sq :: queue
  sh :: heap
  spc :: "int \<Rightarrow> qpc"
  owner :: "addr \<Rightarrow> int option"

definition goto :: "int \<Rightarrow> qpc \<Rightarrow> qsys \<Rightarrow> qsys" where
  "goto i p s = s\<lparr>spc := (spc s)(i := p)\<rparr>"

text \<open>The first atomic access of a call (line 18 and line 29 of the source).\<close>

definition enq_call :: "view \<Rightarrow> int \<Rightarrow> addr \<Rightarrow> addr \<Rightarrow> qsys \<Rightarrow> qlabel \<times> qsys" where
  "enq_call view i p loc0 s =
     (let loc = (if q_pe (sq s) = i then p else loc0) in
      if loc = 0 then (Tau, goto i QFailed s)
      else let (prev, q1) = exchange 0 (sq s) in
        if prev = 0 then (EnqRet p False, s\<lparr>sq := q1\<rparr>)
        else (Tau, goto i (QEnqTaken p loc prev) (s\<lparr>sq := q1\<rparr>)))"

definition deq_call :: "int \<Rightarrow> qsys \<Rightarrow> qlabel \<times> qsys" where
  "deq_call i s =
     (let (prev, q1) = exchange 0 (sq s) in
      if prev = 0 then (DeqRet 0, s\<lparr>sq := q1\<rparr>)
      else (Tau, goto i (QDeqTaken prev) (s\<lparr>sq := q1\<rparr>)))"

text \<open>The later accesses, one per step.\<close>

definition micro :: "view \<Rightarrow> int \<Rightarrow> qsys \<Rightarrow> qlabel \<times> qsys" where
  "micro view i s =
     (case spc s i of
        QEnqTaken p loc prev \<Rightarrow>
          (case upd_block (view i loc) (\<lambda>b. b\<lparr>b_nxt := prev\<rparr>) (sh s) of
             Inl _ \<Rightarrow> (Tau, goto i QFailed s)
           | Inr h \<Rightarrow> (Tau, goto i (QEnqLinked p) (s\<lparr>sh := h\<rparr>)))
      | QEnqLinked p \<Rightarrow>
          (let (chk, q2) = exchange p (sq s) in
           if chk \<noteq> 0 then (Tau, goto i QFailed (s\<lparr>sq := q2\<rparr>))
           else (EnqRet p True,
                 goto i QIdle (s\<lparr>sq := q2, owner := (owner s)(p := None)\<rparr>)))
      | QDeqTaken prev \<Rightarrow>
          (if prev = kTail then (Tau, goto i (QDeqRead prev prev) s)
           else (case rd_block (view i prev) (sh s) of
                   Inl _ \<Rightarrow> (Tau, goto i QFailed s)
                 | Inr b \<Rightarrow> (Tau, goto i (QDeqRead prev (b_nxt b)) s)))
      | QDeqRead prev n \<Rightarrow>
          (let (chk, q2) = exchange n (sq s) in
           if chk \<noteq> 0 then (Tau, goto i QFailed (s\<lparr>sq := q2\<rparr>))
           else if prev = kTail then (DeqRet 0, goto i QIdle (s\<lparr>sq := q2\<rparr>))
           else (DeqRet prev,
                 goto i QIdle (s\<lparr>sq := q2, owner := (owner s)(prev \<mapsto> i)\<rparr>)))
      | _ \<Rightarrow> (Tau, s))"

inductive qstep :: "view \<Rightarrow> qsys \<Rightarrow> qlabel \<Rightarrow> qsys \<Rightarrow> bool" for view where
  q_alloc: "spc s i = QIdle \<Longrightarrow> real_addr a \<Longrightarrow> sh s a = None \<Longrightarrow>
     qstep view s Tau (s\<lparr>sh := (sh s)(a \<mapsto> b), owner := (owner s)(a \<mapsto> i)\<rparr>)"
| q_write: "spc s i = QIdle \<Longrightarrow> owner s a = Some i \<Longrightarrow>
     qstep view s Tau (s\<lparr>sh := (sh s)(a \<mapsto> b)\<rparr>)"
| q_free: "spc s i = QIdle \<Longrightarrow> owner s a = Some i \<Longrightarrow>
     qstep view s Tau (s\<lparr>sh := (sh s)(a := None), owner := (owner s)(a := None)\<rparr>)"
| q_enq: "spc s i = QIdle \<Longrightarrow> owner s p = Some i \<Longrightarrow>
     l = (if q_pe (sq s) = i then p else loc) \<Longrightarrow> l \<noteq> 0 \<Longrightarrow> view i l = p \<Longrightarrow>
     enq_call view i p loc s = (lab, t) \<Longrightarrow> qstep view s lab t"
| q_deq: "spc s i = QIdle \<Longrightarrow> i = q_pe (sq s) \<Longrightarrow>
     deq_call i s = (lab, t) \<Longrightarrow> qstep view s lab t"
| q_micro: "spc s i \<noteq> QIdle \<Longrightarrow> micro view i s = (lab, t) \<Longrightarrow> qstep view s lab t"

definition q_start :: "int \<Rightarrow> qsys" where
  "q_start pe = \<lparr>sq = new_queue pe, sh = Map.empty, spc = (\<lambda>_. QIdle), owner = (\<lambda>_. None)\<rparr>"

section \<open>The abstract stack\<close>

inductive stack_step :: "addr list \<Rightarrow> qlabel \<Rightarrow> addr list \<Rightarrow> bool" where
  st_tau: "stack_step xs Tau xs"
| st_push: "a \<notin> set xs \<Longrightarrow> stack_step xs (EnqRet a True) (a # xs)"
| st_busy: "stack_step xs (EnqRet a False) xs"
| st_pop: "a \<noteq> 0 \<Longrightarrow> stack_step (a # xs) (DeqRet a) xs"
| st_none: "stack_step xs (DeqRet 0) xs"

text \<open>
  What a process may hold at each point of a call, when the queue's content is \<open>xs\<close>.
\<close>

fun pc_ok :: "view \<Rightarrow> qsys \<Rightarrow> int \<Rightarrow> qpc \<Rightarrow> addr list \<Rightarrow> bool" where
  "pc_ok view s i (QEnqTaken p l prev) xs \<longleftrightarrow>
     chain (sh s) prev xs \<and> owner s p = Some i \<and> view i l = p"
| "pc_ok view s i (QEnqLinked p) xs \<longleftrightarrow> owner s p = Some i \<and> chain (sh s) p (p # xs)"
| "pc_ok view s i (QDeqTaken prev) xs \<longleftrightarrow> i = q_pe (sq s) \<and> chain (sh s) prev xs"
| "pc_ok view s i (QDeqRead prev n) xs \<longleftrightarrow>
     (if prev = kTail then n = kTail \<and> xs = []
      else \<exists>ys. xs = prev # ys \<and> chain (sh s) prev xs \<and> chain (sh s) n ys)"
| "pc_ok view s i _ xs \<longleftrightarrow> False"

definition qrel :: "view \<Rightarrow> qsys \<Rightarrow> addr list \<Rightarrow> bool" where
  "qrel view s xs \<longleftrightarrow>
     view (q_pe (sq s)) = (\<lambda>a. a) \<and>
     (if q_head (sq s) = 0
      then \<exists>i. (\<forall>j. j \<noteq> i \<longrightarrow> spc s j = QIdle) \<and> pc_ok view s i (spc s i) xs
      else (\<forall>j. spc s j = QIdle) \<and> chain (sh s) (q_head (sq s)) xs) \<and>
     (\<forall>a \<in> set xs. owner s a = None \<and> real_addr a \<and> sh s a \<noteq> None) \<and>
     (\<forall>a. owner s a \<noteq> None \<longrightarrow> real_addr a \<and> sh s a \<noteq> None)"

lemma qrel_start: "view pe = (\<lambda>a. a) \<Longrightarrow> qrel view (q_start pe) []"
  by (simp add: qrel_def q_start_def new_queue_def)

definition own_ok :: "qsys \<Rightarrow> addr list \<Rightarrow> bool" where
  "own_ok s xs \<longleftrightarrow>
     (\<forall>a \<in> set xs. owner s a = None \<and> real_addr a \<and> sh s a \<noteq> None) \<and>
     (\<forall>a. owner s a \<noteq> None \<longrightarrow> real_addr a \<and> sh s a \<noteq> None)"

lemma qrel_own: "qrel view s xs \<Longrightarrow> own_ok s xs"
  by (simp add: qrel_def own_ok_def)

lemma qrel_free:
  assumes "view (q_pe (sq s)) = (\<lambda>a. a)" and "\<forall>j. spc s j = QIdle"
    and "chain (sh s) (q_head (sq s)) xs" and "own_ok s xs"
  shows "qrel view s xs"
  using assms by (auto simp: qrel_def own_ok_def)

lemma qrel_held:
  assumes "view (q_pe (sq s)) = (\<lambda>a. a)" and "q_head (sq s) = 0"
    and "\<forall>j. j \<noteq> i \<longrightarrow> spc s j = QIdle" and "pc_ok view s i (spc s i) xs" and "own_ok s xs"
  shows "qrel view s xs"
  using assms by (auto simp: qrel_def own_ok_def)

text \<open>A process inside a call has taken the head out, and it is the only one.\<close>

lemma qrel_holder:
  assumes "qrel view s xs" and "spc s i \<noteq> QIdle"
  shows "q_head (sq s) = 0" and "\<forall>j. j \<noteq> i \<longrightarrow> spc s j = QIdle"
    and "pc_ok view s i (spc s i) xs" and "view (q_pe (sq s)) = (\<lambda>a. a)"
proof -
  show h: "q_head (sq s) = 0" "view (q_pe (sq s)) = (\<lambda>a. a)"
    using assms by (auto simp: qrel_def split: if_splits)
  then obtain k where k: "\<forall>j. j \<noteq> k \<longrightarrow> spc s j = QIdle" "pc_ok view s k (spc s k) xs"
    using assms(1) by (auto simp: qrel_def)
  with assms(2) have "k = i" by metis
  with k show "\<forall>j. j \<noteq> i \<longrightarrow> spc s j = QIdle" "pc_ok view s i (spc s i) xs" by blast+
qed

lemma qrel_unheld:
  assumes "qrel view s xs" and "q_head (sq s) \<noteq> 0"
  shows "\<forall>j. spc s j = QIdle" and "chain (sh s) (q_head (sq s)) xs"
    and "view (q_pe (sq s)) = (\<lambda>a. a)"
  using assms by (auto simp: qrel_def)

text \<open>Client steps: they touch no block of the queue and none another process works on.\<close>

lemma qrel_client:
  assumes "qrel view s xs" and "sq t = sq s" and "spc t = spc s" and "own_ok t xs"
    and "\<And>j. pc_ok view s j (spc s j) xs \<Longrightarrow> pc_ok view t j (spc s j) xs"
    and "\<And>x. chain (sh s) x xs \<Longrightarrow> chain (sh t) x xs"
  shows "qrel view t xs"
proof (cases "q_head (sq s) = 0")
  case True
  then obtain i where "\<forall>j. j \<noteq> i \<longrightarrow> spc s j = QIdle" "pc_ok view s i (spc s i) xs"
    using assms(1) by (auto simp: qrel_def)
  with True assms show ?thesis by (intro qrel_held [of view t i]) (auto simp: qrel_def)
next
  case False
  with assms qrel_unheld [OF assms(1)] show ?thesis by (intro qrel_free) auto
qed

lemma pc_ok_client:
  assumes "pc_ok view s j (spc s j) xs" and "spc s i = QIdle" and "a \<notin> set xs"
    and "owner s a = Some i \<or> owner s a = None" and "sq t = sq s"
    and "sh t = (sh s)(a := v)" and "owner t = (owner s)(a := w)"
  shows "pc_ok view t j (spc s j) xs"
proof -
  have "j \<noteq> i" using assms(1,2) by auto
  then show ?thesis using assms by (cases "spc s j") (auto split: option.splits)
qed

lemma qrel_client_block:
  assumes "qrel view s xs" and "spc s i = QIdle"
    and "owner s a = Some i \<or> sh s a = None" and "real_addr a"
    and "t = s\<lparr>sh := (sh s)(a := v), owner := (owner s)(a := w)\<rparr>"
    and "w \<noteq> None \<longrightarrow> v \<noteq> None"
  shows "qrel view t xs"
proof (rule qrel_client [OF assms(1)])
  have o: "own_ok s xs" by (rule qrel_own [OF assms(1)])
  then have a: "a \<notin> set xs" "owner s a = Some i \<or> owner s a = None"
    using assms(3) by (auto simp: own_ok_def)
  show "own_ok t xs" using o a assms(4-6) by (auto simp: own_ok_def)
  show "pc_ok view t j (spc s j) xs" if "pc_ok view s j (spc s j) xs" for j
    using pc_ok_client [OF that assms(2) a] assms(5) by simp
  show "chain (sh t) x xs" if "chain (sh s) x xs" for x
    using that a assms(5) by simp
qed (use assms(5) in simp_all)

section \<open>Every interleaving is a stack\<close>

lemma qrel_enq_call:
  assumes r: "qrel view s xs" and i: "spc s i = QIdle" "owner s p = Some i"
    and l: "l = (if q_pe (sq s) = i then p else loc)" "l \<noteq> 0" "view i l = p"
    and c: "enq_call view i p loc s = (lab, t)"
  shows "\<exists>ys. stack_step xs lab ys \<and> qrel view t ys"
proof (cases "q_head (sq s) = 0")
  case True
  with c l have "lab = EnqRet p False" "t = s" by (auto simp: enq_call_def exchange_def Let_def)
  then show ?thesis using r by (auto intro: st_busy)
next
  case False
  note u = qrel_unheld [OF r False]
  have t: "lab = Tau" "t = goto i (QEnqTaken p l (q_head (sq s))) (s\<lparr>sq := (sq s)\<lparr>q_head := 0\<rparr>\<rparr>)"
    using c l False by (auto simp: enq_call_def exchange_def Let_def)
  have "qrel view t xs"
    using u i l qrel_own [OF r] t by (intro qrel_held [of _ _ i]) (auto simp: goto_def own_ok_def)
  with t show ?thesis by (auto intro: st_tau)
qed

lemma qrel_deq_call:
  assumes r: "qrel view s xs" and i: "spc s i = QIdle" "i = q_pe (sq s)"
    and c: "deq_call i s = (lab, t)"
  shows "\<exists>ys. stack_step xs lab ys \<and> qrel view t ys"
proof (cases "q_head (sq s) = 0")
  case True
  with c have "lab = DeqRet 0" "t = s" by (auto simp: deq_call_def exchange_def Let_def)
  then show ?thesis using r by (auto intro: st_none)
next
  case False
  note u = qrel_unheld [OF r False]
  have t: "lab = Tau" "t = goto i (QDeqTaken (q_head (sq s))) (s\<lparr>sq := (sq s)\<lparr>q_head := 0\<rparr>\<rparr>)"
    using c False by (auto simp: deq_call_def exchange_def Let_def)
  have "qrel view t xs"
    using u i qrel_own [OF r] t by (intro qrel_held [of _ _ i]) (auto simp: goto_def own_ok_def)
  with t show ?thesis by (auto intro: st_tau)
qed

lemma qrel_micro:
  assumes r: "qrel view s xs" and i: "spc s i \<noteq> QIdle" and m: "micro view i s = (lab, t)"
  shows "\<exists>ys. stack_step xs lab ys \<and> qrel view t ys"
proof -
  note h = qrel_holder [OF r i] and o = qrel_own [OF r]
  show ?thesis
  proof (cases "spc s i")
    case (QEnqTaken p l prev)
    then have "owner s p = Some i" using h(3) by simp
    with o obtain b where b: "sh s p = Some b" "real_addr p" "p \<notin> set xs"
      by (fastforce simp: own_ok_def)
    then have t: "lab = Tau"
      "t = goto i (QEnqLinked p) (s\<lparr>sh := (sh s)(p \<mapsto> b\<lparr>b_nxt := prev\<rparr>)\<rparr>)"
      using m h(3) QEnqTaken by (auto simp: micro_def)
    have "qrel view t xs"
      using h o b t(2) QEnqTaken
      by (intro qrel_held [of _ _ i]) (auto simp: goto_def own_ok_def)
    with t(1) show ?thesis by (auto intro: st_tau)
  next
    case (QEnqLinked p)
    have t: "lab = EnqRet p True"
      "t = goto i QIdle (s\<lparr>sq := (sq s)\<lparr>q_head := p\<rparr>, owner := (owner s)(p := None)\<rparr>)"
      using m h(1) QEnqLinked by (auto simp: micro_def exchange_def)
    have "p \<notin> set xs" using o h(3) QEnqLinked by (auto simp: own_ok_def)
    moreover have "qrel view t (p # xs)"
      using h o t(2) QEnqLinked
      by (intro qrel_free) (auto simp: goto_def own_ok_def)
    ultimately show ?thesis using t(1) by (auto intro: st_push)
  next
    case (QDeqTaken prev)
    have "lab = Tau \<and> qrel view t xs"
    proof (cases "prev = kTail")
      case True
      then have "lab = Tau" "t = goto i (QDeqRead prev prev) s"
        using m QDeqTaken by (auto simp: micro_def)
      then show ?thesis using h o QDeqTaken True
        by (auto simp: goto_def own_ok_def intro!: qrel_held [of _ _ i])
    next
      case False
      then obtain ys b where ys: "xs = prev # ys" "sh s prev = Some b" "chain (sh s) (b_nxt b) ys"
        using h(3) QDeqTaken by (cases xs) (auto split: option.splits)
      then have "lab = Tau" "t = goto i (QDeqRead prev (b_nxt b)) s"
        using m h(3,4) QDeqTaken False by (auto simp: micro_def)
      then show ?thesis using h o QDeqTaken False ys
        by (auto simp: goto_def own_ok_def intro!: qrel_held [of _ _ i])
    qed
    then show ?thesis by (auto intro: st_tau)
  next
    case (QDeqRead prev n)
    show ?thesis
    proof (cases "prev = kTail")
      case True
      then have "xs = []" "n = kTail" using h(3) QDeqRead by auto
      moreover from this have t: "lab = DeqRet 0" "t = goto i QIdle (s\<lparr>sq := (sq s)\<lparr>q_head := n\<rparr>\<rparr>)"
        using m h(1) QDeqRead True by (auto simp: micro_def exchange_def)
      ultimately have "qrel view t xs"
        using h o by (intro qrel_free) (auto simp: goto_def own_ok_def)
      with t show ?thesis by (auto intro: st_none)
    next
      case False
      then obtain ys where ys: "xs = prev # ys" "chain (sh s) prev xs" "chain (sh s) n ys"
        using h(3) QDeqRead by auto
      have t: "lab = DeqRet prev"
        "t = goto i QIdle (s\<lparr>sq := (sq s)\<lparr>q_head := n\<rparr>, owner := (owner s)(prev \<mapsto> i)\<rparr>)"
        using m h(1) QDeqRead False by (auto simp: micro_def exchange_def)
      have p: "prev \<noteq> 0" "prev \<notin> set ys"
        using chain_distinct [OF ys(2)] o ys(1) by (auto simp: own_ok_def real_addr_def)
      then have "qrel view t ys"
        using h o ys t(2) by (intro qrel_free) (auto simp: goto_def own_ok_def)
      with t p ys show ?thesis by (auto intro: st_pop)
    qed
  qed (use i h(3) in auto)
qed

interpretation queue_stack: simulation "qstep view" stack_step "qrel view" for view
proof unfold_locales
  fix s xs lab t
  assume r: "qrel view s xs" and st: "qstep view s lab t"
  note o = qrel_own [OF r]
  from st show "\<exists>ys. stack_step xs lab ys \<and> qrel view t ys"
  proof cases
    case (q_alloc i a b)
    then have "qrel view t xs" by (intro qrel_client_block [OF r]) auto
    with q_alloc show ?thesis by (auto intro: st_tau)
  next
    case (q_write i a b)
    then have "t = s\<lparr>sh := (sh s)(a \<mapsto> b), owner := (owner s)(a := Some i)\<rparr>"
      by (auto simp: fun_upd_idem)
    then have "qrel view t xs"
      using q_write o by (intro qrel_client_block [OF r]) (auto simp: own_ok_def)
    with q_write show ?thesis by (auto intro: st_tau)
  next
    case (q_free i a)
    then have "qrel view t xs"
      using o by (intro qrel_client_block [OF r]) (auto simp: own_ok_def)
    with q_free show ?thesis by (auto intro: st_tau)
  next
    case q_enq
    then show ?thesis using r by (metis qrel_enq_call)
  next
    case q_deq
    then show ?thesis using r by (metis qrel_deq_call)
  next
    case q_micro
    then show ?thesis using r by (metis qrel_micro)
  qed
qed


section \<open>What every interleaving guarantees\<close>

fun pushed :: "qlabel list \<Rightarrow> addr list" where
  "pushed [] = []"
| "pushed (EnqRet a True # ls) = a # pushed ls"
| "pushed (_ # ls) = pushed ls"

fun popped :: "qlabel list \<Rightarrow> addr list" where
  "popped [] = []"
| "popped (DeqRet a # ls) = (if a = 0 then popped ls else a # popped ls)"
| "popped (_ # ls) = popped ls"

lemma pushed_append [simp]: "pushed (ls @ ks) = pushed ls @ pushed ks"
  by (induction ls rule: pushed.induct) auto

lemma popped_append [simp]: "popped (ls @ ks) = popped ls @ popped ks"
  by (induction ls rule: popped.induct) auto

lemma stack_conserves:
  "trace stack_step xs ls ys \<Longrightarrow> mset xs + mset (pushed ls) = mset ys + mset (popped ls)"
  by (induction rule: trace.induct) (auto elim!: stack_step.cases)

lemma stack_distinct: "trace stack_step xs ls ys \<Longrightarrow> distinct xs \<Longrightarrow> distinct ys"
  by (induction rule: trace.induct) (auto elim!: stack_step.cases)

lemma queue_run_stack:
  assumes "view pe = (\<lambda>a. a)" and "trace (qstep view) (q_start pe) ls s"
  shows "\<exists>xs. trace stack_step [] ls xs \<and> qrel view s xs"
proof -
  have "qrel view (q_start pe) []" using assms(1) by (rule qrel_start)
  from queue_stack.trace_sim [OF assms(2) this] show ?thesis .
qed

text \<open>
  In every interleaving of any number of processes no assertion of the queue fails and no
  process follows a dangling pointer, and at most one process at a time is between taking
  the head out and putting it back.
\<close>

theorem queue_interleaving_safe:
  assumes "view pe = (\<lambda>a. a)" and "trace (qstep view) (q_start pe) ls s"
  shows "spc s i \<noteq> QFailed \<and> (spc s i \<noteq> QIdle \<longrightarrow> spc s j \<noteq> QIdle \<longrightarrow> i = j)"
proof -
  obtain xs where r: "qrel view s xs" using queue_run_stack [OF assms] by blast
  show ?thesis
  proof (cases "spc s i = QIdle")
    case False
    have "spc s i \<noteq> QFailed" using qrel_holder(3) [OF r False] by auto
    moreover have "spc s j \<noteq> QIdle \<longrightarrow> i = j" using qrel_holder(2) [OF r False] by metis
    ultimately show ?thesis by blast
  qed simp
qed

text \<open>
  C21. Every interleaving is linearizable to a stack: the results its calls return are those of a
  run of push and pop on a list, starting empty. So no block is lost or handed out twice (what
  was enqueued is what was dequeued and what is left), and whenever no call is in
  progress the memory holds exactly the abstract list.
\<close>

theorem queue_interleaving_stack:
  assumes "view pe = (\<lambda>a. a)" and "trace (qstep view) (q_start pe) ls s"
  shows "\<exists>xs. trace stack_step [] ls xs \<and>
    mset (pushed ls) = mset (popped ls) + mset xs \<and> distinct xs \<and>
    (q_head (sq s) \<noteq> 0 \<longrightarrow> chain (sh s) (q_head (sq s)) xs)"
proof -
  obtain xs where xs: "trace stack_step [] ls xs" "qrel view s xs"
    using queue_run_stack [OF assms] by blast
  have "distinct xs" using stack_distinct [OF xs(1)] by simp
  with xs stack_conserves [OF xs(1)] qrel_unheld(2) [OF xs(2)] show ?thesis
    by (auto simp: union_commute)
qed

text \<open>A run in which the owner allocates a block and enqueues it, for the witnesses.\<close>

definition q_demo :: qsys where
  "q_demo = \<lparr>sq = \<lparr>q_pe = 0, q_head = 64\<rparr>, sh = [64 \<mapsto> new_block 64 kTail 0 64],
     spc = (\<lambda>_. QIdle), owner = (\<lambda>_. None)\<rparr>"

lemma q_demo_run:
  "trace (qstep (\<lambda>_ a. a)) (q_start 0) [Tau, Tau, Tau, EnqRet 64 True] q_demo"
proof -
  let ?b = "new_block 64 0 0 64"
  let ?v = "\<lambda>(_::int) (a::addr). a"
  let ?A = "(q_start 0)\<lparr>sh := [64 \<mapsto> ?b], owner := [64 \<mapsto> 0]\<rparr>"
  let ?B = "goto 0 (QEnqTaken 64 64 kTail) (?A\<lparr>sq := \<lparr>q_pe = 0, q_head = 0\<rparr>\<rparr>)"
  let ?C = "goto 0 (QEnqLinked 64) (?B\<lparr>sh := [64 \<mapsto> new_block 64 kTail 0 64]\<rparr>)"
  have "qstep ?v (q_start 0) Tau ?A"
    using q_alloc [of "q_start 0" 0 64 ?v ?b] by (simp add: q_start_def real_addr_def kTail_def)
  moreover have "qstep ?v ?A Tau ?B"
    by (rule q_enq [of _ 0 64 64 0])
      (simp_all add: q_start_def enq_call_def new_queue_def exchange_def)
  moreover have "qstep ?v ?B Tau ?C"
    by (rule q_micro [of _ 0]) (simp_all add: goto_def micro_def q_start_def new_block_def)
  moreover have "qstep ?v ?C (EnqRet 64 True) q_demo"
    by (rule q_micro [of _ 0])
      (simp_all add: goto_def micro_def q_start_def q_demo_def exchange_def fun_eq_iff)
  ultimately show ?thesis by (meson trace_cons trace_nil)
qed

theorem queue_interleaving_safe_witness: "spc q_demo 0 \<noteq> QFailed"
  using queue_interleaving_safe [OF _ q_demo_run, of 0 0] by simp

theorem queue_interleaving_stack_witness:
  "\<exists>xs. mset [64] = mset xs \<and> chain (sh q_demo) 64 xs"
  using queue_interleaving_stack [OF _ q_demo_run] by (auto simp: q_demo_def)

text \<open>
  The operations as the source writes them are the uninterrupted runs of these steps: when
  a call of enqueue succeeds on its own, taking its three atomic accesses one after the other
  ends in the same queue and the same memory with the process idle again, and so does
  dequeue.
\<close>

theorem queue_calls_are_steps:
  assumes "spc s i = QIdle"
  shows "(enqueue view i p loc (sq s, sh s) = Inr (True, q', h') \<longrightarrow>
      (let t = snd (micro view i (snd (micro view i (snd (enq_call view i p loc s)))))
       in sq t = q' \<and> sh t = h' \<and> spc t i = QIdle)) \<and>
    (dequeue view i (sq s, sh s) = Inr (a, q', h') \<and> q_head (sq s) \<noteq> 0 \<longrightarrow>
      (let t = snd (micro view i (snd (micro view i (snd (deq_call i s)))))
       in sq t = q' \<and> sh t = h' \<and> spc t i = QIdle))"
  using assms
  by (auto simp: enqueue_def dequeue_def enq_call_def deq_call_def micro_def goto_def exchange_def
      Let_def bind_res_Inr_iff upd_block_def rd_block_def split: option.splits if_splits)

theorem queue_calls_are_steps_witness:
  "sq (snd (micro (\<lambda>_ a. a) 0 (snd (micro (\<lambda>_ a. a) 0 (snd (deq_call 0 q_demo))))))
     = \<lparr>q_pe = 0, q_head = kTail\<rparr>"
proof -
  have "dequeue (\<lambda>_ a. a) 0 (sq q_demo, sh q_demo)
      = Inr (64, \<lparr>q_pe = 0, q_head = kTail\<rparr>, sh q_demo)"
    by (simp add: q_demo_def dequeue_def exchange_def Let_def kTail_def new_block_def)
  then show ?thesis
    using queue_calls_are_steps [of q_demo 0 "\<lambda>_ a. a"] by (simp add: q_demo_def Let_def)
qed

text \<open>
  For its own process the queue is last in, first out: enqueueing distinct live blocks into
  an empty queue and dequeueing as many returns all of them, newest first, and leaves the
  queue empty.
\<close>

theorem own_queue_lifo:
  assumes "qrepr s []" and "distinct ys" and "\<forall>y \<in> set ys. q_ok s y"
  shows "\<exists>s1 s2. own_queue.push_all ys s = Some s1 \<and>
    own_queue.pop_n (length ys) s1 = Some (map Some (rev ys), s2) \<and> qrepr s2 []"
  using assms by (rule own_queue.fill_drain)

theorem own_queue_lifo_witness:
  "\<exists>s1 s2. own_queue.push_all [64, 128]
      (new_queue 0, [64 \<mapsto> new_block 64 0 0 64, 128 \<mapsto> new_block 128 0 0 64]) = Some s1 \<and>
    own_queue.pop_n (Suc (Suc 0)) s1 = Some ([Some 128, Some 64], s2)"
  using own_queue_lifo [of "(new_queue 0, [64 \<mapsto> new_block 64 0 0 64, 128 \<mapsto> new_block 128 0 0 64])"
      "[64, 128]"]
  by (auto simp: qrepr_new q_ok_def real_addr_def kTail_def)

end
