(* ===== verification/Ipc_Pool.thy ===== *)
theory Ipc_Pool
  imports Ipc_Block
begin

text \<open>
  \<open>archive/include/pool.hh\<close>: the memory pool a process shares with its peers, one list of free
  blocks for every power of two between 64 bytes and 1 GiB. Its process fills the lists
  (\<open>lput\<close>) and the others take blocks from them (\<open>ralloc\<close>).
\<close>

section \<open>Size classes\<close>

definition kNumCutOffPoints :: nat where
  "kNumCutOffPoints = 25"

definition kCutOffPoints :: "u64 list" where
  "kCutOffPoints =
     [64, 128, 256, 512, 1024, 2048, 4096,
      8192, 16384, 32768, 65536, 131072, 262144, 524288,
      1048576, 2097152, 4194304, 8388608, 16777216, 33554432, 67108864,
      134217728, 268435456, 536870912, 1073741824]"

text \<open>
  The search loop, with its bound as the source has it: index 25 is inside the loop but
  outside the array.
\<close>

function which_pow2_from :: "nat \<Rightarrow> u64 \<Rightarrow> nat res" where
  "which_pow2_from i sz =
     (if i \<le> kNumCutOffPoints
      then bind_res (at kCutOffPoints i) (\<lambda>c. if sz \<le> c then Inr i else which_pow2_from (Suc i) sz)
      else Inr i)"
  by pat_completeness auto
termination
  by (relation "measure (\<lambda>(i, sz). Suc kNumCutOffPoints - i)") auto

definition which_pow2 :: "u64 \<Rightarrow> nat res" where
  "which_pow2 sz = which_pow2_from 0 sz"

declare which_pow2_from.simps [simp del]

lemma length_cutoffs [simp]: "length kCutOffPoints = 25" "kNumCutOffPoints = 25"
  by (simp_all add: kCutOffPoints_def kNumCutOffPoints_def)

lemma cutoffs_eq: "kCutOffPoints = map (\<lambda>i. 2 ^ (i + 6)) [0..<25]"
  by (simp add: kCutOffPoints_def upt_rec [of _ "numeral _"])

lemma cutoff_nth: "i < 25 \<Longrightarrow> kCutOffPoints ! i = 2 ^ (i + 6)"
  by (simp add: cutoffs_eq)

lemma unat_pow2:
  assumes "n < 64"
  shows "unat (2 ^ n :: u64) = 2 ^ n"
proof -
  have "unat (2 ^ n :: u64) = unat (of_nat (2 ^ n) :: u64)" by simp
  also have "\<dots> = 2 ^ n mod 2 ^ 64" by (subst unat_of_nat) simp
  also have "\<dots> = 2 ^ n"
    using assms by (intro mod_less power_strict_increasing) simp_all
  finally show ?thesis .
qed

lemma cutoff_nat: "i < 25 \<Longrightarrow> unat (kCutOffPoints ! i) = 2 ^ (i + 6)"
  unfolding cutoff_nth by (rule unat_pow2) simp

lemma which_pow2_from_step:
  "i < 25 \<Longrightarrow> which_pow2_from i sz =
     (if unat sz \<le> 2 ^ (i + 6) then Inr i else which_pow2_from (Suc i) sz)"
  by (subst which_pow2_from.simps) (simp add: at_def word_le_nat_alt cutoff_nat)

lemma which_pow2_from_end: "which_pow2_from 25 sz = Inl OutOfBounds"
  by (subst which_pow2_from.simps) (simp add: at_def)

lemma which_pow2_from_found:
  assumes "i \<le> p" and "p < 25" and "unat sz \<le> 2 ^ (p + 6)"
    and "\<forall>q. i \<le> q \<and> q < p \<longrightarrow> 2 ^ (q + 6) < unat sz"
  shows "which_pow2_from i sz = Inr p"
  using assms(1,4)
proof (induction i rule: inc_induct)
  case base
  then show ?case using assms(2,3) by (simp add: which_pow2_from_step)
next
  case (step i)
  have "2 ^ (i + 6) < unat sz" using step.prems step.hyps by blast
  moreover have "which_pow2_from (Suc i) sz = Inr p" using step.prems by (intro step.IH) auto
  ultimately show ?case using step.hyps assms(2) by (simp add: which_pow2_from_step)
qed

lemma which_pow2_from_none:
  assumes "i \<le> 25" and "2 ^ 30 < unat sz"
  shows "which_pow2_from i sz = Inl OutOfBounds"
  using assms(1)
proof (induction i rule: inc_induct)
  case base
  show ?case by (rule which_pow2_from_end)
next
  case (step i)
  have "(2::nat) ^ (i + 6) \<le> 2 ^ 30" using step.hyps by (intro power_increasing) simp_all
  then have "\<not> unat sz \<le> 2 ^ (i + 6)" using assms(2) by linarith
  then show ?case using step by (simp add: which_pow2_from_step)
qed

lemma which_pow2_fits:
  assumes "unat sz \<le> 2 ^ 30"
  shows "\<exists>p < 25. which_pow2 sz = Inr p \<and> unat sz \<le> 2 ^ (p + 6) \<and>
    (\<forall>q < p. 2 ^ (q + 6) < unat sz)"
proof -
  let ?P = "\<lambda>p::nat. unat sz \<le> 2 ^ (p + 6)"
  have P: "?P 24" using assms by simp
  define p where "p = (LEAST p. ?P p)"
  have "?P p" unfolding p_def by (rule LeastI [of ?P 24]) (rule P)
  moreover have "p \<le> 24" unfolding p_def by (rule Least_le) (rule P)
  moreover have "\<forall>q < p. 2 ^ (q + 6) < unat sz"
    unfolding p_def by (meson not_le not_less_Least)
  ultimately show ?thesis
    using which_pow2_from_found [of 0 p sz] by (auto simp: which_pow2_def)
qed

lemma which_pow2_cutoff: "i < 25 \<Longrightarrow> which_pow2 (kCutOffPoints ! i) = Inr i"
  unfolding which_pow2_def
  by (rule which_pow2_from_found) (simp_all add: cutoff_nat)


section \<open>The pool\<close>

record mempool =
  p_pe :: int
  bins :: "addr list"

definition new_mempool :: "int \<Rightarrow> mempool" where
  "new_mempool pe = \<lparr>p_pe = pe, bins = replicate kNumCutOffPoints kTail\<rparr>"

definition exchange_bin :: "nat \<Rightarrow> addr \<Rightarrow> mempool \<Rightarrow> addr \<times> mempool" where
  "exchange_bin pt a m = (bins m ! pt, m\<lparr>bins := (bins m)[pt := a]\<rparr>)"

definition lput_block :: "addr \<Rightarrow> mempool \<times> heap \<Rightarrow> (bool \<times> mempool \<times> heap) res" where
  "lput_block a = (\<lambda>(m, h).
     bind_res (rd_block a h) (\<lambda>blk.
     bind_res (which_pow2 (b_size blk)) (\<lambda>pt.
       if pt \<ge> kNumCutOffPoints \<or> b_size blk \<noteq> kCutOffPoints ! pt then Inr (False, m, h)
       else
         let (head, m1) = exchange_bin pt 0 m in
         if head = 0 then Inr (False, m1, h)
         else
           let h1 = h(a \<mapsto> blk\<lparr>b_nxt := head\<rparr>);
               (swap, m2) = exchange_bin pt a m1
           in bind_res (check (swap = 0)) (\<lambda>_. Inr (True, m2, h1)))))"

text \<open>
  The overload that allocates: \<open>a\<close> is where \<open>operator new\<close> placed the header. When the block
  is refused the header stays allocated, as in the source.
\<close>

definition lput :: "addr \<Rightarrow> addr \<Rightarrow> u64 \<Rightarrow> mempool \<times> heap \<Rightarrow> (bool \<times> mempool \<times> heap) res" where
  "lput a ptr sz = (\<lambda>(m, h). lput_block a (m, h(a \<mapsto> new_block a 0 ptr sz)))"

text \<open>
  \<open>xlat\<close> is \<open>translate_address\<close> for the pool's process as seen from process \<open>me\<close>, which then
  sees the block's memory through \<open>view\<close>.
\<close>

definition ralloc ::
  "view \<Rightarrow> (addr \<Rightarrow> u64 \<Rightarrow> addr res) \<Rightarrow> int \<Rightarrow> u64 \<Rightarrow> mempool \<times> heap
     \<Rightarrow> (addr \<times> mempool \<times> heap) res" where
  "ralloc view xlat me sz = (\<lambda>(m, h).
     bind_res (which_pow2 sz) (\<lambda>pt.
       if pt \<ge> kNumCutOffPoints then Inr (0, m, h)
       else
         let (head, m1) = exchange_bin pt 0 m in
         if head = 0 then Inr (0, m1, h)
         else if head = kTail then
           let (swap, m2) = exchange_bin pt head m1
           in bind_res (check (swap = 0)) (\<lambda>_. Inr (0, m2, h))
         else
           bind_res (xlat head (kCutOffPoints ! pt)) (\<lambda>x.
           bind_res (rd_block (view me x) h) (\<lambda>blk.
             let (swap, m2) = exchange_bin pt (b_nxt blk) m1;
                 h1 = h(view me x \<mapsto> blk\<lparr>b_used := True\<rparr>)
             in bind_res (check (\<not> b_used blk \<and> swap = 0)) (\<lambda>_. Inr (x, m2, h1))))))"

section \<open>The lists of the pool\<close>

text \<open>
  \<open>pool_repr s f\<close>: list \<open>i\<close> of the pool links exactly the blocks \<open>f i\<close>, each of size class
  \<open>i\<close> and free.
\<close>

definition free_block :: "heap \<Rightarrow> nat \<Rightarrow> addr \<Rightarrow> bool" where
  "free_block h i a \<longleftrightarrow>
     (case h a of None \<Rightarrow> False | Some b \<Rightarrow> b_size b = kCutOffPoints ! i \<and> \<not> b_used b)"

definition pool_repr :: "mempool \<times> heap \<Rightarrow> (nat \<Rightarrow> addr list) \<Rightarrow> bool" where
  "pool_repr = (\<lambda>(m, h) f. length (bins m) = 25 \<and>
     (\<forall>i < 25. chain h (bins m ! i) (f i) \<and> (\<forall>a \<in> set (f i). free_block h i a)))"

lemma pool_repr_new: "pool_repr (new_mempool pe, h) (\<lambda>_. [])"
  by (simp add: pool_repr_def new_mempool_def)

lemma cutoff_inj: "i < 25 \<Longrightarrow> j < 25 \<Longrightarrow> kCutOffPoints ! i = kCutOffPoints ! j \<Longrightarrow> i = j"
  by (metis Inr_inject which_pow2_cutoff)

lemma free_block_class:
  "free_block h i a \<Longrightarrow> free_block h j a \<Longrightarrow> i < 25 \<Longrightarrow> j < 25 \<Longrightarrow> i = j"
  by (auto simp: free_block_def split: option.splits intro: cutoff_inj)

lemma free_block_frame [simp]:
  "a \<noteq> x \<Longrightarrow> free_block (h(x := v)) i a = free_block h i a"
  by (simp add: free_block_def)

lemma free_elsewhere:
  assumes "pool_repr (m, h) f" and "free_block h i a" and "i < 25" and "a \<notin> set (f i)"
  shows "\<forall>j < 25. a \<notin> set (f j)"
proof (intro allI impI notI)
  fix j assume "j < 25" "a \<in> set (f j)"
  then have "free_block h j a" using assms(1) by (simp add: pool_repr_def)
  from free_block_class [OF this assms(2) \<open>j < 25\<close> assms(3)] \<open>a \<in> set (f j)\<close> assms(4)
  show False by simp
qed

text \<open>The lists are disjoint, because a block's size class is in its header.\<close>

lemma pool_repr_disjoint:
  assumes "pool_repr (m, h) f" and "a \<in> set (f i)" and "i < 25" and "j < 25" and "j \<noteq> i"
  shows "a \<notin> set (f j)"
  using assms free_block_class [of h i a j] by (auto simp: pool_repr_def)

lemma lput_block_repr:
  assumes r: "pool_repr (m, h) f" and i: "i < 25" and b: "h a = Some b"
    and sz: "b_size b = kCutOffPoints ! i" and a: "real_addr a"
    and fresh: "\<forall>j < 25. a \<notin> set (f j)" and u: "\<not> b_used b"
  shows "\<exists>m' h'. lput_block a (m, h) = Inr (True, m', h') \<and>
    pool_repr (m', h') (f(i := a # f i)) \<and> h' = h(a \<mapsto> b\<lparr>b_nxt := bins m ! i\<rparr>)"
proof -
  let ?m = "m\<lparr>bins := (bins m)[i := a]\<rparr>" and ?h = "h(a \<mapsto> b\<lparr>b_nxt := bins m ! i\<rparr>)"
  have c: "chain h (bins m ! i) (f i)" and l: "length (bins m) = 25"
    using r i by (auto simp: pool_repr_def)
  then have "bins m ! i \<noteq> 0" by auto
  then have "lput_block a (m, h) = Inr (True, ?m, ?h)"
    using b sz which_pow2_cutoff [OF i] i l
    by (simp add: lput_block_def exchange_bin_def Let_def)
  moreover have "chain ?h ((bins m)[i := a] ! j) ((f(i := a # f i)) j)" if "j < 25" for j
    using that r a c fresh i l by (cases "j = i") (auto simp: pool_repr_def)
  moreover have "free_block ?h j x" if "j < 25" "x \<in> set ((f(i := a # f i)) j)" for j x
    using that r fresh i sz u
    by (cases "x = a") (auto simp: pool_repr_def free_block_def split: if_splits)
  ultimately show ?thesis
    by (intro exI [of _ ?m] exI [of _ ?h]) (simp add: pool_repr_def l del: fun_upd_apply)
qed

text \<open>
  What a peer needs of its view of the pool: a translated header names the block it translates.
\<close>

definition xlat_ok :: "view \<Rightarrow> (addr \<Rightarrow> u64 \<Rightarrow> addr res) \<Rightarrow> int \<Rightarrow> bool" where
  "xlat_ok view xlat me \<longleftrightarrow>
     (\<forall>a sz. real_addr a \<longrightarrow> (\<exists>x. xlat a sz = Inr x \<and> x \<noteq> 0 \<and> view me x = a))"

lemma ralloc_repr_empty:
  assumes "pool_repr (m, h) f" and "which_pow2 sz = Inr i" and "i < 25" and "f i = []"
  shows "ralloc view xlat me sz (m, h) = Inr (0, m, h)"
proof -
  have "bins m ! i = kTail" "length (bins m) = 25"
    using assms by (auto simp: pool_repr_def)
  then have "m\<lparr>bins := (bins m)[i := kTail]\<rparr> = m"
    by (metis list_update_id mempool.surjective mempool.update_convs(2))
  with \<open>bins m ! i = kTail\<close> \<open>length (bins m) = 25\<close> assms show ?thesis
    by (simp add: ralloc_def exchange_bin_def Let_def)
qed

lemma ralloc_repr:
  assumes r: "pool_repr (m, h) f" and w: "which_pow2 sz = Inr i" and i: "i < 25"
    and f: "f i = a # as" and x: "xlat_ok view xlat me"
  shows "\<exists>l m' h' b. ralloc view xlat me sz (m, h) = Inr (l, m', h') \<and> l \<noteq> 0 \<and> view me l = a \<and>
    h a = Some b \<and> b_size b = kCutOffPoints ! i \<and> h' = h(a \<mapsto> b\<lparr>b_used := True\<rparr>) \<and>
    pool_repr (m', h') (f(i := as))"
proof -
  have c: "chain h (bins m ! i) (a # as)" and l: "length (bins m) = 25" and fr: "free_block h i a"
    using r i f by (auto simp: pool_repr_def)
  then obtain b where b: "h a = Some b" "b_size b = kCutOffPoints ! i" "\<not> b_used b"
    "bins m ! i = a" "real_addr a" "chain h (b_nxt b) as"
    by (auto simp: free_block_def split: option.splits)
  then obtain y where y: "xlat a (kCutOffPoints ! i) = Inr y" "y \<noteq> 0" "view me y = a"
    using x by (auto simp: xlat_ok_def)
  let ?m = "m\<lparr>bins := (bins m)[i := b_nxt b]\<rparr>" and ?h = "h(a \<mapsto> b\<lparr>b_used := True\<rparr>)"
  have "ralloc view xlat me sz (m, h) = Inr (y, ?m, ?h)"
    using w i b y l by (simp add: ralloc_def exchange_bin_def Let_def real_addr_def)
  moreover have na: "a \<notin> set as" using chain_distinct [OF c] by simp
  moreover have nj: "a \<notin> set (f j)" if "j < 25" "j \<noteq> i" for j
    using pool_repr_disjoint [OF r _ i that] f by simp
  moreover have "chain ?h ((bins m)[i := b_nxt b] ! j) ((f(i := as)) j)" if "j < 25" for j
    using that r na nj [OF that] b l i by (cases "j = i") (auto simp: pool_repr_def)
  moreover have "free_block ?h j z" if "j < 25" "z \<in> set ((f(i := as)) j)" for j z
  proof -
    have "z \<noteq> a" using that na nj by (cases "j = i") auto
    then show ?thesis using that r f i by (auto simp: pool_repr_def split: if_splits)
  qed
  ultimately show ?thesis using b y
    by (intro exI [of _ y] exI [of _ ?m] exI [of _ ?h] exI [of _ b])
      (simp add: pool_repr_def l del: fun_upd_apply)
qed


section \<open>A size class as a stack\<close>

definition bin_push :: "addr \<Rightarrow> mempool \<times> heap \<Rightarrow> (bool \<times> mempool \<times> heap) option" where
  "bin_push a s = (case lput_block a s of Inl _ \<Rightarrow> None | Inr r \<Rightarrow> Some r)"

definition bin_pop :: "nat \<Rightarrow> mempool \<times> heap \<Rightarrow> (addr option \<times> mempool \<times> heap) option" where
  "bin_pop i s = (case ralloc (\<lambda>_ a. a) (\<lambda>a _. Inr a) 0 (kCutOffPoints ! i) s of
     Inl _ \<Rightarrow> None | Inr (a, s') \<Rightarrow> Some (if a = 0 then None else Some a, s'))"

definition bin_repr :: "nat \<Rightarrow> mempool \<times> heap \<Rightarrow> addr list \<Rightarrow> bool" where
  "bin_repr i s xs \<longleftrightarrow> i < 25 \<and> (\<exists>f. pool_repr s f \<and> f i = xs)"

definition bin_ok :: "nat \<Rightarrow> mempool \<times> heap \<Rightarrow> addr \<Rightarrow> bool" where
  "bin_ok i s a \<longleftrightarrow> real_addr a \<and> free_block (snd s) i a"

lemma xlat_ok_id: "xlat_ok (\<lambda>_ a. a) (\<lambda>a _. Inr a) me"
  by (simp add: xlat_ok_def real_addr_def)

interpretation pool_bin: lifo bin_push "bin_pop i" "bin_repr i" "bin_ok i" for i
proof unfold_locales
  fix s xs a
  assume *: "bin_repr i s xs" "bin_ok i s a" "a \<notin> set xs"
  obtain m h where s: "s = (m, h)" by fastforce
  obtain f where f: "i < 25" "pool_repr (m, h) f" "f i = xs"
    using * s by (auto simp: bin_repr_def)
  obtain b where b: "h a = Some b" "b_size b = kCutOffPoints ! i" "\<not> b_used b" "real_addr a"
    using * s by (auto simp: bin_ok_def free_block_def split: option.splits)
  have "free_block h i a" using * s by (simp add: bin_ok_def)
  then have "\<forall>j < 25. a \<notin> set (f j)"
    using * f(3) by (intro free_elsewhere [OF f(2) _ f(1)]) simp_all
  then obtain m' h' where "lput_block a (m, h) = Inr (True, m', h')"
    "pool_repr (m', h') (f(i := a # f i))" "h' = h(a \<mapsto> b\<lparr>b_nxt := bins m ! i\<rparr>)"
    using lput_block_repr [OF f(2,1) b(1,2,4) _ b(3)] by blast
  then show "\<exists>s'. bin_push a s = Some (True, s') \<and> bin_repr i s' (a # xs) \<and>
      (\<forall>y. bin_ok i s y \<longrightarrow> bin_ok i s' y)"
    using s f b by (fastforce simp: bin_push_def bin_repr_def bin_ok_def free_block_def)
next
  fix s assume *: "bin_repr i s []"
  obtain m h where s: "s = (m, h)" by fastforce
  then show "\<exists>s'. bin_pop i s = Some (None, s') \<and> bin_repr i s' []"
    using * ralloc_repr_empty [OF _ which_pow2_cutoff]
    by (fastforce simp: bin_repr_def bin_pop_def)
next
  fix s a xs assume *: "bin_repr i s (a # xs)"
  obtain m h where s: "s = (m, h)" by fastforce
  obtain f where f: "i < 25" "pool_repr (m, h) f" "f i = a # xs"
    using * s by (auto simp: bin_repr_def)
  obtain l m' h' where "ralloc (\<lambda>_ a. a) (\<lambda>a _. Inr a) 0 (kCutOffPoints ! i) (m, h) = Inr (l, m', h')"
    "l \<noteq> 0" "l = a" "pool_repr (m', h') (f(i := xs))"
    using ralloc_repr [OF f(2) which_pow2_cutoff [OF f(1)] f(1,3) xlat_ok_id [of 0]] by blast
  moreover from this(4) have "bin_repr i (m', h') xs"
    using f(1) unfolding bin_repr_def by (metis fun_upd_same)
  ultimately show "\<exists>s'. bin_pop i s = Some (Some a, s') \<and> bin_repr i s' xs"
    using s by (auto simp: bin_pop_def)
qed

section \<open>What the pool guarantees\<close>

text \<open>
  C38. A request of up to 1 GiB is served from the smallest size class that holds it. For a larger
  request the search reads the table one past its end: it never reports "no class", which
  its callers test for.
\<close>

theorem which_pow2_best_fit:
  "(unat sz \<le> 2 ^ 30 \<longrightarrow> (\<exists>p < 25. which_pow2 sz = Inr p \<and>
      unat sz \<le> unat (kCutOffPoints ! p) \<and> (\<forall>q < p. unat (kCutOffPoints ! q) < unat sz))) \<and>
   (2 ^ 30 < unat sz \<longrightarrow> which_pow2 sz = Inl OutOfBounds)"
proof (intro conjI impI)
  assume "unat sz \<le> 2 ^ 30"
  from which_pow2_fits [OF this] obtain p where
    p: "p < 25" "which_pow2 sz = Inr p" "unat sz \<le> 2 ^ (p + 6)" "\<forall>q < p. 2 ^ (q + 6) < unat sz"
    by blast
  then have "unat sz \<le> unat (kCutOffPoints ! p)" by (simp add: cutoff_nat)
  moreover have "unat (kCutOffPoints ! q) < unat sz" if "q < p" for q
    using that p by (simp add: cutoff_nat)
  ultimately show "\<exists>p < 25. which_pow2 sz = Inr p \<and> unat sz \<le> unat (kCutOffPoints ! p) \<and>
      (\<forall>q < p. unat (kCutOffPoints ! q) < unat sz)"
    using p(1,2) by blast
next
  assume "2 ^ 30 < unat sz"
  then show "which_pow2 sz = Inl OutOfBounds"
    unfolding which_pow2_def by (rule which_pow2_from_none [rotated]) simp
qed

theorem which_pow2_best_fit_witness:
  "(\<exists>p < 25. which_pow2 100 = Inr p \<and> (100::nat) \<le> unat (kCutOffPoints ! p)) \<and>
   which_pow2 1073741825 = Inl OutOfBounds"
  using which_pow2_best_fit [of 100] which_pow2_best_fit [of 1073741825] by auto

text \<open>
  C39. What a process puts into its pool a peer gets out: after a block of size class \<open>i\<close> went in, a
  request that fits class \<open>i\<close> and no smaller one returns an address under which the peer sees
  that very block, now marked used; every list of the pool is then as it was before.
\<close>

theorem lput_ralloc:
  assumes "pool_repr (m, h) f" and "i < 25" and "real_addr a" and "free_block h i a"
    and "a \<notin> set (f i)" and "which_pow2 sz = Inr i" and "xlat_ok view xlat me"
  shows "\<exists>m1 h1 l m2 h2 b. lput_block a (m, h) = Inr (True, m1, h1) \<and>
    ralloc view xlat me sz (m1, h1) = Inr (l, m2, h2) \<and> view me l = a \<and>
    h2 a = Some b \<and> b_used b \<and> unat sz \<le> unat (b_size b) \<and> pool_repr (m2, h2) f"
proof -
  obtain b where b: "h a = Some b" "b_size b = kCutOffPoints ! i" "\<not> b_used b"
    using assms(4) by (auto simp: free_block_def split: option.splits)
  have "\<forall>j < 25. a \<notin> set (f j)" by (rule free_elsewhere [OF assms(1,4,2,5)])
  then obtain m1 h1 where 1: "lput_block a (m, h) = Inr (True, m1, h1)"
    "pool_repr (m1, h1) (f(i := a # f i))"
    using lput_block_repr [OF assms(1,2) b(1,2) assms(3) _ b(3)] by blast
  obtain l m2 h2 b2 where 2: "ralloc view xlat me sz (m1, h1) = Inr (l, m2, h2)" "view me l = a"
    "b_size b2 = kCutOffPoints ! i" "h2 = h1(a \<mapsto> b2\<lparr>b_used := True\<rparr>)"
    "pool_repr (m2, h2) ((f(i := a # f i))(i := f i))"
    using ralloc_repr [OF 1(2) assms(6,2) _ assms(7), of a "f i"] by auto
  have "unat sz \<le> unat (kCutOffPoints ! i)"
    using which_pow2_best_fit [of sz] assms(6) by (cases "unat sz \<le> 2 ^ 30") auto
  with 1 2 show ?thesis by auto
qed

lemma xlat_ok_neg: "xlat_ok (\<lambda>_ a. - a) (\<lambda>a _. Inr (- a)) me"
  by (simp add: xlat_ok_def real_addr_def)

theorem lput_ralloc_witness:
  "\<exists>m1 h1 m2 h2 b. lput_block 640 (new_mempool 0, [640 \<mapsto> new_block 640 0 8 128])
      = Inr (True, m1, h1) \<and>
    ralloc (\<lambda>_ a. - a) (\<lambda>a _. Inr (- a)) 1 100 (m1, h1) = Inr (-640, m2, h2) \<and>
    h2 640 = Some b \<and> b_used b"
proof -
  let ?h = "[640 \<mapsto> new_block 640 0 8 128] :: heap"
  have w: "which_pow2 100 = Inr 1"
    by (simp add: which_pow2_def which_pow2_from.simps at_def kCutOffPoints_def)
  have f: "free_block ?h 1 640"
    by (simp add: free_block_def new_block_def kCutOffPoints_def)
  have r: "real_addr 640" by (simp add: real_addr_def kTail_def)
  obtain m1 h1 l m2 h2 b where *: "lput_block 640 (new_mempool 0, ?h) = Inr (True, m1, h1)"
    "ralloc (\<lambda>_ a. - a) (\<lambda>a _. Inr (- a)) 1 100 (m1, h1) = Inr (l, m2, h2)"
    "- l = 640" "h2 640 = Some b" "b_used b"
    using lput_ralloc [OF pool_repr_new [of 0 ?h] _ r f _ w xlat_ok_neg [of 1]] by auto
  then have "l = - 640" by (metis minus_minus)
  with * show ?thesis by auto
qed

text \<open>
  \<open>while (!pool->lput(ptr, size));\<close> of \<open>populate_buffers_\<close> (and of \<open>handle_run\<close>): \<open>alloc k\<close>
  is the address of the header that the \<open>k\<close>-th try allocates; the result is the number of
  headers allocated, \<open>None\<close> if the tries run out.
\<close>

fun lput_loop ::
  "(nat \<Rightarrow> addr) \<Rightarrow> addr \<Rightarrow> u64 \<Rightarrow> nat \<Rightarrow> nat \<Rightarrow> mempool \<times> heap \<Rightarrow> (nat \<times> mempool \<times> heap) res option"
where
  "lput_loop alloc p sz 0 k s = None"
| "lput_loop alloc p sz (Suc n) k s =
     (case lput (alloc k) p sz s of
        Inl e \<Rightarrow> Some (Inl e)
      | Inr (True, s') \<Rightarrow> Some (Inr (Suc k, s'))
      | Inr (False, s') \<Rightarrow> lput_loop alloc p sz n (Suc k) s')"

lemma lput_refuses:
  assumes "unat sz \<le> 2 ^ 30" and "sz \<notin> set kCutOffPoints"
  shows "lput a p sz (m, h) = Inr (False, m, h(a \<mapsto> new_block a 0 p sz))"
proof -
  obtain pt where "pt < 25" "which_pow2 sz = Inr pt" using which_pow2_fits [OF assms(1)] by blast
  moreover have "sz \<noteq> kCutOffPoints ! pt" using assms(2) \<open>pt < 25\<close> by (metis length_cutoffs(1) nth_mem)
  ultimately show ?thesis by (simp add: lput_def lput_block_def new_block_def)
qed

text \<open>
  A process that puts a buffer into its pool and retries until it is accepted is done at the
  first try when the size is a size class, and never when it is another size of up to 1 GiB:
  no number of tries is enough.
\<close>

theorem lput_loop_ends_iff:
  assumes "pool_repr (m, h) f" and "unat sz \<le> 2 ^ 30"
    and "real_addr (alloc k)" and "\<forall>j < 25. alloc k \<notin> set (f j)"
  shows "(\<exists>n r. lput_loop alloc p sz n k (m, h) = Some r) \<longleftrightarrow> sz \<in> set kCutOffPoints"
    (is "?ends \<longleftrightarrow> _")
proof
  assume "sz \<in> set kCutOffPoints"
  then obtain i where i: "i < 25" "sz = kCutOffPoints ! i" by (auto simp: in_set_conv_nth)
  let ?h = "h(alloc k \<mapsto> new_block (alloc k) 0 p sz)"
  have "pool_repr (m, ?h) f"
    using assms(1,4) by (auto simp: pool_repr_def free_block_def split: if_splits)
  from lput_block_repr [OF this i(1) _ _ assms(3,4)] obtain m' h'
    where "lput (alloc k) p sz (m, h) = Inr (True, m', h')"
    using i(2) by (auto simp: lput_def new_block_def)
  then have "lput_loop alloc p sz (Suc 0) k (m, h) = Some (Inr (Suc k, m', h'))" by simp
  then show ?ends by blast
next
  assume ?ends
  show "sz \<in> set kCutOffPoints"
  proof (rule ccontr)
    assume "sz \<notin> set kCutOffPoints"
    then have "lput_loop alloc p sz n k (m, h) = None" for n
      using lput_refuses [OF assms(2)] by (induction n arbitrary: k h) auto
    with \<open>?ends\<close> show False by simp
  qed
qed

theorem lput_loop_ends_iff_witness:
  "\<nexists>n r. lput_loop (\<lambda>k. 64 * (of_nat k + 1)) 8 100 n 0 (new_mempool 0, Map.empty) = Some r"
  using lput_loop_ends_iff [OF pool_repr_new [of 0 Map.empty], where sz = 100 and p = 8
      and alloc = "\<lambda>k. 64 * (of_nat k + 1)" and k = 0]
  by (simp add: real_addr_def kTail_def kCutOffPoints_def)

end
