(* ===== verification/Ipc_Tester.thy ===== *)
theory Ipc_Tester
  imports Ipc_Queue Ipc_Pool
begin

text \<open>
  \<open>archive/tests/basic\<close>: a process takes blocks from its neighbour's pool, fills them, and puts them into the
  neighbour's queue; the neighbour checks and frees them. The calls of one process at a time, on the pool, the queue, the
  block headers, and the buffers the blocks stand for, as lists of \<open>int\<close>s of four bytes.
\<close>

section \<open>State and operations\<close>

record tmem =
  tm_pool :: mempool
  tm_queue :: queue
  tm_heap :: heap
  tm_bufs :: "addr \<Rightarrow> int list option"

definition numMsgs :: nat where
  "numMsgs = 16"

definition maxSize :: nat where
  "maxSize = 128"

text \<open>The size that is asked for, from the value of \<open>rand()\<close>.\<close>

definition request_size :: "nat \<Rightarrow> nat" where
  "request_size r = (let sz = r mod maxSize; sz1 = sz + 4 - sz mod 4 in if sz1 > maxSize then maxSize else sz1)"

text \<open>
  \<open>while (!my_pool->lput(malloc(sz), sz));\<close>: every try allocates a buffer and a header; \<open>dat k\<close> and \<open>hdr k\<close> are their
  addresses at the \<open>k\<close>-th, \<open>junk k\<close> is what the memory holds.
\<close>

fun put_new ::
  "(nat \<Rightarrow> addr) \<Rightarrow> (nat \<Rightarrow> addr) \<Rightarrow> (nat \<Rightarrow> int) \<Rightarrow> nat \<Rightarrow> nat \<Rightarrow> nat \<times> tmem \<Rightarrow> (nat \<times> tmem) run" where
  "put_new hdr dat junk sz 0 kst = None"
| "put_new hdr dat junk sz (Suc n) (k, st) =
     (let bufs = (tm_bufs st)(dat k \<mapsto> replicate (sz div 4) (junk k))
      in case lput (hdr k) (dat k) (of_nat sz) (tm_pool st, tm_heap st) of
           Inl e \<Rightarrow> Some (Inl e)
         | Inr (ok, m, h) \<Rightarrow>
             (let st1 = st\<lparr>tm_pool := m, tm_heap := h, tm_bufs := bufs\<rparr>
              in if ok then Some (Inr (Suc k, st1)) else put_new hdr dat junk sz n (Suc k, st1)))"

fun populate ::
  "(nat \<Rightarrow> addr) \<Rightarrow> (nat \<Rightarrow> addr) \<Rightarrow> (nat \<Rightarrow> int) \<Rightarrow> nat \<Rightarrow> nat \<Rightarrow> nat \<times> tmem \<Rightarrow> (nat \<times> tmem) run" where
  "populate hdr dat junk fuel 0 kst = Some (Inr kst)"
| "populate hdr dat junk fuel (Suc i) kst =
     bind_run (put_new hdr dat junk maxSize fuel kst) (\<lambda>kst1.
     bind_run (put_new hdr dat junk (maxSize div 2) fuel kst1) (populate hdr dat junk fuel i))"

text \<open>Filling a buffer: the flag, and \<open>sz / 4\<close> copies of \<open>sz\<close> behind it.\<close>

definition fill_block :: "int \<Rightarrow> nat \<Rightarrow> int list \<Rightarrow> int list res" where
  "fill_block flag sz w =
     (if sz div 4 < length w then Inr (flag # replicate (sz div 4) (int sz) @ drop (Suc (sz div 4)) w)
      else Inl OutOfBounds)"

text \<open>
  One round of the loop of \<open>handle_run\<close>: whether a block was there and sent. \<open>None\<close>: the queue stays locked, so that the
  loop around \<open>enqueue\<close> does not end.
\<close>

definition send_block ::
  "view \<Rightarrow> (addr \<Rightarrow> u64 \<Rightarrow> addr res) \<Rightarrow> int \<Rightarrow> nat \<Rightarrow> nat \<Rightarrow> tmem \<Rightarrow> (bool \<times> tmem) run" where
  "send_block view xlat mine i r st =
     (let sz = request_size r in
      bind_run (Some (ralloc view xlat mine (of_nat sz) (tm_pool st, tm_heap st))) (\<lambda>(xlatd, m, h).
        if xlatd = 0 then Some (Inr (False, st\<lparr>tm_pool := m, tm_heap := h\<rparr>))
        else
          bind_run (Some (upd_block (view mine xlatd) (\<lambda>b. b\<lparr>b_size := of_nat sz\<rparr>) h)) (\<lambda>h1.
          bind_run (Some (rd_block (view mine xlatd) h1)) (\<lambda>b.
          bind_run (Some (xlat (b_ptr b) (of_nat sz))) (\<lambda>ptr.
          bind_run (Some (case tm_bufs st (view mine ptr) of None \<Rightarrow> Inl BadPointer | Some w \<Rightarrow> Inr w)) (\<lambda>w.
          bind_run (Some (fill_block (if Suc i = numMsgs then 1 else 0) sz w)) (\<lambda>w1.
          bind_run (Some (enqueue view mine (b_orig b) xlatd (tm_queue st, h1))) (\<lambda>(ok, q, h2).
            if ok then Some (Inr (True, st\<lparr>tm_pool := m, tm_queue := q, tm_heap := h2,
              tm_bufs := (tm_bufs st)(view mine ptr \<mapsto> w1)\<rparr>))
            else None))))))))"

text \<open>The loop, on the values that \<open>rand()\<close> returns.\<close>

fun send_loop ::
  "view \<Rightarrow> (addr \<Rightarrow> u64 \<Rightarrow> addr res) \<Rightarrow> int \<Rightarrow> nat list \<Rightarrow> nat \<Rightarrow> tmem \<Rightarrow> (nat \<times> tmem) run" where
  "send_loop view xlat mine rs i st =
     (if \<not> i < numMsgs then Some (Inr (i, st))
      else case rs of
        [] \<Rightarrow> None
      | r # rs1 \<Rightarrow> bind_run (send_block view xlat mine i r st) (\<lambda>(ok, st1).
          send_loop view xlat mine rs1 (if ok then Suc i else i) st1))"

declare send_loop.simps [simp del]

definition handle_block :: "addr \<Rightarrow> tmem \<Rightarrow> (bool \<times> tmem) res" where
  "handle_block a st =
     bind_res (rd_block a (tm_heap st)) (\<lambda>b.
       case tm_bufs st (b_ptr b) of
         None \<Rightarrow> Inl BadPointer
       | Some w \<Rightarrow>
           (let n = unat (b_size b) div 4 in
            bind_res (if n < length w then Inr () else Inl OutOfBounds) (\<lambda>_.
            bind_res (check (\<forall>x \<in> set (take n (drop 1 w)). x = int (unat (b_size b)))) (\<lambda>_.
              Inr (w ! 0 = 0, st\<lparr>tm_heap := (tm_heap st)(a := None), tm_bufs := (tm_bufs st)(b_ptr b := None)\<rparr>)))))"

text \<open>The loop that receives, with the blocks handled so far; a round is one try to dequeue.\<close>

fun receive_loop :: "int \<Rightarrow> nat \<Rightarrow> addr list \<Rightarrow> tmem \<Rightarrow> (addr list \<times> tmem) run" where
  "receive_loop mine 0 seen st = None"
| "receive_loop mine (Suc n) seen st =
     bind_run (Some (dequeue (\<lambda>_ a. a) mine (tm_queue st, tm_heap st))) (\<lambda>(a, q, h).
       let st1 = st\<lparr>tm_queue := q, tm_heap := h\<rparr> in
       if a = 0 then receive_loop mine n seen st1
       else bind_run (Some (handle_block a st1)) (\<lambda>(status, st2).
         if status then receive_loop mine n (seen @ [a]) st2 else Some (Inr (seen @ [a], st2))))"

section \<open>Sizes\<close>

lemma request_size_range: "4 \<le> request_size r \<and> request_size r \<le> 128 \<and> request_size r mod 4 = 0"
proof -
  define s where "s = r mod 128"
  have s: "s < 128" by (simp add: s_def)
  have e: "s + 4 - s mod 4 = 4 * (s div 4) + 4" using mod_mult_div_eq [of s 4] by arith
  have "s div 4 < 32" using s by simp
  then have "request_size r = 4 * (s div 4) + 4"
    by (simp add: request_size_def maxSize_def Let_def s_def [symmetric] e)
  with \<open>s div 4 < 32\<close> show ?thesis by simp
qed

lemma request_nat: "unat (of_nat (request_size r) :: u64) = request_size r"
  using request_size_range [of r] by (simp add: unat_of_nat take_bit_nat_eq_self)

lemma request_class:
  "request_size r \<le> 64 \<Longrightarrow> which_pow2 (of_nat (request_size r)) = Inr 0"
  "64 < request_size r \<Longrightarrow> which_pow2 (of_nat (request_size r)) = Inr 1"
  using request_size_range [of r]
  by (auto simp: which_pow2_def request_nat intro!: which_pow2_from_found)

section \<open>The memory of the test\<close>

text \<open>
  The blocks in the lists \<open>f\<close> of the pool have buffers of their class, those in the queue \<open>xs\<close> what \<open>ds\<close> says:
  flag and size. \<open>p a\<close> is the buffer of the block with the header \<open>a\<close>, for the headers in \<open>A\<close>.
\<close>

definition has_buf :: "(addr \<Rightarrow> addr) \<Rightarrow> heap \<Rightarrow> (addr \<Rightarrow> int list option) \<Rightarrow> addr \<Rightarrow> block \<Rightarrow> int list \<Rightarrow> bool" where
  "has_buf p h bufs a b w \<longleftrightarrow> h a = Some b \<and> b_orig b = a \<and> b_ptr b = p a \<and> bufs (p a) = Some w"

definition pooled :: "(addr \<Rightarrow> addr) \<Rightarrow> tmem \<Rightarrow> nat \<Rightarrow> addr \<Rightarrow> bool" where
  "pooled p st i a \<longleftrightarrow> (\<exists>b w. has_buf p (tm_heap st) (tm_bufs st) a b w \<and> length w = 2 ^ (i + 4))"

definition sent :: "(addr \<Rightarrow> addr) \<Rightarrow> tmem \<Rightarrow> addr \<Rightarrow> int \<times> nat \<Rightarrow> bool" where
  "sent p st a d \<longleftrightarrow> (\<exists>b w. has_buf p (tm_heap st) (tm_bufs st) a b w \<and> unat (b_size b) = snd d \<and>
     snd d div 4 < length w \<and> w ! 0 = fst d \<and> (\<forall>x \<in> set (take (snd d div 4) (drop 1 w)). x = int (snd d)))"

definition t_inv :: "addr set \<Rightarrow> (addr \<Rightarrow> addr) \<Rightarrow> tmem \<Rightarrow> (nat \<Rightarrow> addr list) \<Rightarrow> addr list \<Rightarrow> (int \<times> nat) list \<Rightarrow> bool" where
  "t_inv A p st f xs ds \<longleftrightarrow> set xs \<subseteq> A \<and> (\<forall>i<25. set (f i) \<subseteq> A) \<and> pool_repr (tm_pool st, tm_heap st) f \<and> qrepr (tm_queue st, tm_heap st) xs \<and>
     (\<forall>i<25. set (f i) \<inter> set xs = {}) \<and> (\<forall>i<25. \<forall>a \<in> set (f i). pooled p st i a) \<and>
     list_all2 (sent p st) xs ds"

lemma t_invD:
  assumes "t_inv A p st f xs ds"
  shows "pool_repr (tm_pool st, tm_heap st) f" and "qrepr (tm_queue st, tm_heap st) xs"
    and "i < 25 \<Longrightarrow> set (f i) \<inter> set xs = {}" and "i < 25 \<Longrightarrow> a \<in> set (f i) \<Longrightarrow> pooled p st i a"
    and "list_all2 (sent p st) xs ds" and "set xs \<subseteq> A" and "i < 25 \<Longrightarrow> set (f i) \<subseteq> A"
  using assms by (auto simp: t_inv_def)

definition buf_map :: "addr set \<Rightarrow> (addr \<Rightarrow> addr) \<Rightarrow> bool" where
  "buf_map A p \<longleftrightarrow> inj_on p A \<and> (\<forall>a \<in> A. real_addr (p a))"

section \<open>Sending\<close>

definition class_of :: "nat \<Rightarrow> nat" where
  "class_of r = (if request_size r \<le> 64 then 0 else 1)"

lemma which_class: "which_pow2 (of_nat (request_size r)) = Inr (class_of r)" and class_lt: "class_of r < 25"
  by (auto simp: class_of_def request_class)

lemma send_unserved:
  assumes "t_inv A p st f xs ds" and "f (class_of r) = []"
  shows "send_block view xlat mine i r st = Some (Inr (False, st))"
  by (simp add: send_block_def Let_def ralloc_repr_empty [OF t_invD(1) [OF assms(1)] which_class class_lt assms(2)])

text \<open>A request that is served, up to the filling of the buffer.\<close>

lemma send_upto:
  assumes t: "t_inv A p st f xs ds" and f: "f (class_of r) = a # as"
    and x: "xlat_ok view xlat mine" and p: "buf_map A p"
  shows "\<exists>l m h b w. ralloc view xlat mine (of_nat (request_size r)) (tm_pool st, tm_heap st) = Inr (l, m, h) \<and>
    l \<noteq> 0 \<and> view mine l = a \<and> b_used b \<and> has_buf p h (tm_bufs st) a b w \<and> length w = 2 ^ (class_of r + 4) \<and>
    h = (tm_heap st)(a \<mapsto> b) \<and> pool_repr (m, h) (f(class_of r := as)) \<and> real_addr a \<and>
    send_block view xlat mine i r st =
      bind_run (Some (fill_block (if Suc i = numMsgs then 1 else 0) (request_size r) w)) (\<lambda>w1.
      bind_run (Some (enqueue view mine a l (tm_queue st, h(a \<mapsto> b\<lparr>b_size := of_nat (request_size r)\<rparr>)))) (\<lambda>(ok, q, h2).
        if ok then Some (Inr (True, st\<lparr>tm_pool := m, tm_queue := q, tm_heap := h2,
          tm_bufs := (tm_bufs st)(p a \<mapsto> w1)\<rparr>)) else None))"
proof -
  let ?c = "class_of r"
  obtain l m h b0 where r: "ralloc view xlat mine (of_nat (request_size r)) (tm_pool st, tm_heap st) = Inr (l, m, h)"
    "l \<noteq> 0" "view mine l = a" "tm_heap st a = Some b0" "h = (tm_heap st)(a \<mapsto> b0\<lparr>b_used := True\<rparr>)"
    "pool_repr (m, h) (f(?c := as))"
    using ralloc_repr [OF t_invD(1) [OF t] which_class class_lt f x] by blast
  have "pooled p st ?c a" using t_invD(4) [OF t class_lt, of a r] f by simp
  then obtain w where w: "b_orig b0 = a" "b_ptr b0 = p a" "tm_bufs st (p a) = Some w" "length w = 2 ^ (?c + 4)"
    using r(4) by (auto simp: pooled_def has_buf_def)
  have "chain (tm_heap st) (bins (tm_pool st) ! ?c) (a # as)"
    using t_invD(1) [OF t] class_lt [of r] f by (auto simp: pool_repr_def)
  then have ra: "real_addr a" by simp
  have "real_addr (p a)" using p t_invD(7) [OF t class_lt, of r] f by (simp add: buf_map_def)
  obtain y where y: "xlat (p a) (of_nat (request_size r)) = Inr y" "view mine y = p a"
    using x \<open>real_addr (p a)\<close> unfolding xlat_ok_def by blast
  have hb: "has_buf p h (tm_bufs st) a (b0\<lparr>b_used := True\<rparr>) w"
    using r(5) w by (simp add: has_buf_def)
  show ?thesis
    apply (intro exI [of _ l] exI [of _ m] exI [of _ h] exI [of _ "b0\<lparr>b_used := True\<rparr>"] exI [of _ w])
    using r w y ra hb by (simp add: send_block_def Let_def cong: if_cong)
qed

lemma pool_repr_frame:
  assumes "pool_repr (m, h) g" and "\<And>i. i < 25 \<Longrightarrow> a \<notin> set (g i)"
  shows "pool_repr (m, h(a := v)) g"
proof -
  have "free_block (h(a := v)) i x = free_block h i x" if "i < 25" "x \<in> set (g i)" for i x
    using that assms(2) [of i] by (intro free_block_frame) auto
  with assms show ?thesis by (simp add: pool_repr_def)
qed

lemma pool_repr_used:
  assumes "pool_repr (m, h) g" and "h a = Some b" and "b_used b" and "i < 25"
  shows "a \<notin> set (g i)"
  using assms by (fastforce simp: pool_repr_def free_block_def)

lemma has_buf_frame:
  assumes "a' \<noteq> a" and "buf_map A p" and "a \<in> A" and "a' \<in> A"
  shows "has_buf p (h(a := v)) (bufs(p a := w')) a' b w \<longleftrightarrow> has_buf p h bufs a' b w"
  using assms by (auto simp: has_buf_def buf_map_def inj_on_def)

lemma frame_blocks:
  assumes "tm_heap st' = (tm_heap st)(a := v)" and "tm_bufs st' = (tm_bufs st)(p a := w')"
    and "a' \<noteq> a" and "buf_map A p" and "a \<in> A" and "a' \<in> A"
  shows "sent p st' a' d \<longleftrightarrow> sent p st a' d" and "pooled p st' i a' \<longleftrightarrow> pooled p st i a'"
  unfolding sent_def pooled_def assms(1,2) has_buf_frame [OF assms(3-6)] by simp_all

lemma fill_fits:
  assumes "request_size r \<noteq> 64" and "request_size r \<noteq> 128" and "length w = 2 ^ (class_of r + 4)"
  shows "request_size r div 4 < length w"
proof -
  define z where "z = request_size r"
  have z: "z \<le> 128" "z mod 4 = 0" "z \<noteq> 64" "z \<noteq> 128" using request_size_range [of r] assms(1,2) by (simp_all add: z_def)
  have "length w = (if z \<le> 64 then 16 else 32)" using assms(3) by (simp add: class_of_def z_def)
  moreover have "z div 4 < (if z \<le> 64 then 16 else 32)"
    using z by (cases "z \<le> 64") auto
  ultimately show ?thesis by (simp add: z_def)
qed

lemma fill_full:
  assumes "request_size r = 64 \<or> request_size r = 128" and "length w = 2 ^ (class_of r + 4)"
  shows "fill_block v (request_size r) w = Inl OutOfBounds"
  using assms by (auto simp: fill_block_def class_of_def)

lemma fill_content:
  assumes "fill_block v z w = Inr w'"
  shows "z div 4 < length w' \<and> w' ! 0 = v \<and> (\<forall>x \<in> set (take (z div 4) (drop 1 w')). x = int z)"
  using assms by (auto simp: fill_block_def split: if_splits)

lemma send_served:
  assumes t: "t_inv A p st f xs ds" and f: "f (class_of r) = a # as"
    and x: "xlat_ok view xlat mine" and p: "buf_map A p"
    and z: "request_size r \<noteq> 64" "request_size r \<noteq> 128" and q: "q_pe (tm_queue st) \<noteq> mine"
  shows "\<exists>st'. send_block view xlat mine i r st = Some (Inr (True, st')) \<and>
    t_inv A p st' (f(class_of r := as)) (a # xs) ((if Suc i = numMsgs then 1 else 0, request_size r) # ds) \<and>
    q_pe (tm_queue st') = q_pe (tm_queue st)"
proof -
  let ?c = "class_of r" and ?z = "request_size r" and ?v = "if Suc i = numMsgs then 1 else 0 :: int"
  let ?g = "f(?c := as)"
  obtain l m h b w where u: "l \<noteq> 0" "view mine l = a" "b_used b" "has_buf p h (tm_bufs st) a b w"
      "length w = 2 ^ (?c + 4)" "h = (tm_heap st)(a \<mapsto> b)" "pool_repr (m, h) ?g" "real_addr a"
    and s: "send_block view xlat mine i r st =
      bind_run (Some (fill_block ?v ?z w)) (\<lambda>w1.
      bind_run (Some (enqueue view mine a l (tm_queue st, h(a \<mapsto> b\<lparr>b_size := of_nat ?z\<rparr>)))) (\<lambda>(ok, q, h2).
        if ok then Some (Inr (True, st\<lparr>tm_pool := m, tm_queue := q, tm_heap := h2,
          tm_bufs := (tm_bufs st)(p a \<mapsto> w1)\<rparr>)) else None))"
    using send_upto [OF t f x p, of i] by blast
  obtain w1 where w1: "fill_block ?v ?z w = Inr w1"
    using fill_fits [OF z u(5)] by (simp add: fill_block_def)
  have ax: "a \<notin> set xs" using t_invD(3) [OF t class_lt, of r] f by auto
  have ag: "a \<notin> set (?g i)" if "i < 25" for i
    by (rule pool_repr_used [OF u(7) _ u(3) that]) (simp add: u(6))
  let ?b = "b\<lparr>b_size := of_nat ?z\<rparr>"
  let ?h1 = "h(a \<mapsto> ?b)" and ?q = "(tm_queue st)\<lparr>q_head := a\<rparr>"
  let ?h2 = "?h1(a \<mapsto> ?b\<lparr>b_nxt := q_head (tm_queue st)\<rparr>)"
  have qr: "qrepr (tm_queue st, ?h1) xs"
    using t_invD(2) [OF t] ax by (simp add: qrepr_def u(6))
  note e = enqueue_repr [OF qr u(8) _ ax, where me = mine and view = view and l = l and ?l0.0 = l and b = ?b]
  have e1: "enqueue view mine a l (tm_queue st, ?h1) = Inr (True, ?q, ?h2)" and e2: "qrepr (?q, ?h2) (a # xs)"
    using e u(1,2) q by simp_all
  define st1 where "st1 = st\<lparr>tm_pool := m, tm_queue := ?q, tm_heap := ?h2, tm_bufs := (tm_bufs st)(p a \<mapsto> w1)\<rparr>"
  have h2: "?h2 = (tm_heap st)(a \<mapsto> ?b\<lparr>b_nxt := q_head (tm_queue st)\<rparr>)" by (simp add: u(6))
  have st1: "tm_heap st1 = (tm_heap st)(a := Some (?b\<lparr>b_nxt := q_head (tm_queue st)\<rparr>))"
    "tm_bufs st1 = (tm_bufs st)(p a := Some w1)" by (simp_all add: st1_def u(6))
  have aA: "a \<in> A" using t_invD(7) [OF t class_lt, of r] f by simp
  note old = frame_blocks [OF st1 _ p aA]
  have "sent p st1 a (?v, ?z)"
    unfolding sent_def has_buf_def st1 using u(4) fill_content [OF w1] request_nat [of r]
    by (simp add: has_buf_def)
  moreover have "list_all2 (sent p st1) xs ds"
    using t_invD(5) [OF t] by (rule list.rel_mono_strong) (metis ax old(1) subsetD t_invD(6) [OF t])
  moreover have "pool_repr (m, ?h2) ?g"
    using u(7) ag by (intro pool_repr_frame) auto
  moreover have "set (?g i) \<inter> set (a # xs) = {}" if "i < 25" for i
    using ag [OF that] t_invD(3) [OF t that] f by (auto split: if_splits)
  moreover have "pooled p st1 i a'" if "i < 25" "a' \<in> set (?g i)" for i a'
  proof -
    have "a' \<noteq> a" using ag [OF that(1)] that(2) by auto
    moreover have "a' \<in> set (f i)" using that(2) f by (auto split: if_splits)
    ultimately show ?thesis using t_invD(4,7) [OF t that(1)] old(2) by blast
  qed
  moreover have "set (?g i) \<subseteq> A" if "i < 25" for i
    using t_invD(7) [OF t that] f by (auto split: if_splits)
  ultimately have "t_inv A p st1 ?g (a # xs) ((?v, ?z) # ds)"
    unfolding t_inv_def using e2 aA t_invD(6) [OF t] by (simp add: st1_def)
  moreover have "send_block view xlat mine i r st = Some (Inr (True, st1))"
    unfolding s w1 bind_run.simps e1 st1_def by simp
  ultimately show ?thesis by (intro exI [of _ st1]) (simp add: st1_def)
qed

lemma send_overflow:
  assumes "t_inv A p st f xs ds" and "f (class_of r) = a # as" and "xlat_ok view xlat mine"
    and "buf_map A p" and "request_size r = 64 \<or> request_size r = 128"
  shows "send_block view xlat mine i r st = Some (Inl OutOfBounds)"
proof -
  obtain w g where "length w = 2 ^ (class_of r + 4)" and
    "send_block view xlat mine i r st = bind_run (Some (fill_block (if Suc i = numMsgs then 1 else 0) (request_size r) w)) g"
    using send_upto [OF assms(1-4), of i] by blast
  with fill_full [OF assms(5) this(1)] show ?thesis by simp
qed

text \<open>
  The requests that a run of the loop needs: as many of each class as the pool holds.
\<close>

lemma send_loop_ends:
  assumes "t_inv A p st f xs ds" and "i + length (f 0) + length (f 1) = numMsgs"
    and "\<forall>r \<in> set rs. request_size r \<noteq> 64 \<and> request_size r \<noteq> 128"
    and "length (f 0) \<le> length (filter (\<lambda>r. class_of r = 0) rs)"
    and "length (f 1) \<le> length (filter (\<lambda>r. class_of r = 1) rs)"
    and "xlat_ok view xlat mine" and "buf_map A p" and "q_pe (tm_queue st) \<noteq> mine"
    and "length xs = i" and "i = numMsgs \<longrightarrow> (\<exists>z ds'. ds = (1, z) # ds')"
  shows "\<exists>st' f' xs' ds' z. send_loop view xlat mine rs i st = Some (Inr (numMsgs, st')) \<and>
    t_inv A p st' f' xs' ((1, z) # ds') \<and> length xs' = numMsgs"
  using assms
proof (induction rs arbitrary: st f xs ds i)
  case Nil
  then show ?case by (auto simp: send_loop.simps)
next
  case (Cons r rs)
  note t = Cons.prems(1)
  have c: "class_of r = 0 \<or> class_of r = 1" by (simp add: class_of_def)
  show ?case
  proof (cases "i < numMsgs")
    case False
    then have i: "i = numMsgs" using Cons.prems(2) by simp
    then obtain z ds' where "ds = (1, z) # ds'" using Cons.prems(10) by blast
    then have "t_inv A p st f xs ((1, z) # ds')" using t by simp
    moreover have "send_loop view xlat mine (r # rs) i st = Some (Inr (numMsgs, st))"
      using i by (simp add: send_loop.simps)
    ultimately show ?thesis using Cons.prems(9) i by blast
  next
    case True
    show ?thesis
    proof (cases "f (class_of r)")
      case Nil
      have "length (f 0) \<le> length (filter (\<lambda>r. class_of r = 0) rs)"
        "length (f 1) \<le> length (filter (\<lambda>r. class_of r = 1) rs)"
        using Cons.prems(4,5) c Nil by (auto split: if_splits)
      from Cons.IH [OF t Cons.prems(2) _ this Cons.prems(6-10)] Cons.prems(3)
      show ?thesis
        using True by (simp add: send_loop.simps [of view xlat mine "r # rs"] send_unserved [OF t Nil])
    next
      case (Cons a as)
      note f = Cons
      have z: "request_size r \<noteq> 64" "request_size r \<noteq> 128" using Cons.prems(3) by simp_all
      let ?v = "if Suc i = numMsgs then 1 else 0 :: int" and ?g = "f(class_of r := as)"
      obtain st1 where s: "send_block view xlat mine i r st = Some (Inr (True, st1))"
        and t1: "t_inv A p st1 ?g (a # xs) ((?v, request_size r) # ds)"
        and q: "q_pe (tm_queue st1) = q_pe (tm_queue st)"
        using send_served [OF t f Cons.prems(6-7) z Cons.prems(8), of i] by blast
      have "Suc i + length (?g 0) + length (?g 1) = numMsgs \<and>
        length (?g 0) \<le> length (filter (\<lambda>r. class_of r = 0) rs) \<and>
        length (?g 1) \<le> length (filter (\<lambda>r. class_of r = 1) rs)"
        using c by (rule disjE) (use Cons.prems(2,4,5) f in simp_all)
      then have n: "Suc i + length (?g 0) + length (?g 1) = numMsgs"
        "length (?g 0) \<le> length (filter (\<lambda>r. class_of r = 0) rs)"
        "length (?g 1) \<le> length (filter (\<lambda>r. class_of r = 1) rs)" by blast+
      have m: "\<forall>r \<in> set rs. request_size r \<noteq> 64 \<and> request_size r \<noteq> 128" "q_pe (tm_queue st1) \<noteq> mine"
        "length (a # xs) = Suc i"
        "Suc i = numMsgs \<longrightarrow> (\<exists>z ds'. (?v, request_size r) # ds = (1, z) # ds')"
        using Cons.prems(3,8,9) q by simp_all
      have "\<exists>st' f' xs' ds' z. send_loop view xlat mine rs (Suc i) st1 = Some (Inr (numMsgs, st')) \<and>
          t_inv A p st' f' xs' ((1, z) # ds') \<and> length xs' = numMsgs"
        by (rule Cons.IH [OF t1 n(1) m(1) n(2,3) Cons.prems(6-7) m(2-4)])
      moreover have "send_loop view xlat mine (r # rs) i st = send_loop view xlat mine rs (Suc i) st1"
        using True s by (simp add: send_loop.simps [of view xlat mine "r # rs"])
      ultimately show ?thesis by simp
    qed
  qed
qed

section \<open>Filling the pool\<close>

definition start_mem :: "int \<Rightarrow> heap \<Rightarrow> (addr \<Rightarrow> int list option) \<Rightarrow> tmem" where
  "start_mem pe h bufs = \<lparr>tm_pool = new_mempool pe, tm_queue = new_queue pe, tm_heap = h, tm_bufs = bufs\<rparr>"

lemma t_inv_start: "t_inv A p (start_mem pe h bufs) (\<lambda>_. []) [] []"
  by (simp add: t_inv_def start_mem_def pool_repr_new qrepr_new)

lemma put_new_first:
  assumes t: "t_inv A p st f [] []" and c: "c < 25" "unat sz = 4 * 2 ^ (c + 4)" "kCutOffPoints ! c = sz"
    and a: "hdr k \<in> A" "real_addr (hdr k)" "\<And>i. i < 25 \<Longrightarrow> hdr k \<notin> set (f i)" and d: "dat k = p (hdr k)"
    and p: "buf_map A p"
  shows "\<exists>st'. put_new hdr dat junk (unat sz) (Suc n) (k, st) = Some (Inr (Suc k, st')) \<and>
    t_inv A p st' (f(c := hdr k # f c)) [] [] \<and> tm_queue st' = tm_queue st"
proof -
  let ?a = "hdr k" and ?g = "f(c := hdr k # f c)" and ?w = "replicate (unat sz div 4) (junk k)"
  let ?b = "new_block ?a 0 (dat k) sz"
  let ?h0 = "(tm_heap st)(?a \<mapsto> ?b)"
  have pr: "pool_repr (tm_pool st, ?h0) f" using pool_repr_frame [OF t_invD(1) [OF t] a(3)] .
  obtain m h where l: "lput_block ?a (tm_pool st, ?h0) = Inr (True, m, h)"
    and r: "pool_repr (m, h) ?g" and h: "h = ?h0(?a \<mapsto> ?b\<lparr>b_nxt := bins (tm_pool st) ! c\<rparr>)"
    using lput_block_repr [OF pr c(1), where a = ?a and b = ?b] c(3) a by (auto simp: new_block_def)
  define st1 where "st1 = st\<lparr>tm_pool := m, tm_heap := h, tm_bufs := (tm_bufs st)(dat k \<mapsto> ?w)\<rparr>"
  have "put_new hdr dat junk (unat sz) (Suc n) (k, st) = Some (Inr (Suc k, st1))"
    using l by (simp add: lput_def st1_def Let_def)
  moreover have "t_inv A p st1 ?g [] []"
  proof -
    have st1: "tm_heap st1 = (tm_heap st)(?a := Some (?b\<lparr>b_nxt := bins (tm_pool st) ! c\<rparr>))"
      "tm_bufs st1 = (tm_bufs st)(p ?a := Some ?w)" by (simp_all add: st1_def h d)
    note old = frame_blocks(2) [OF st1 _ p a(1)]
    have new: "pooled p st1 c ?a"
      unfolding pooled_def has_buf_def st1 using c(2) by (simp add: new_block_def d)
    have "pooled p st1 i x" if "i < 25" "x \<in> set (?g i)" for i x
    proof (cases "x = ?a")
      case True
      with that a(3) have "i = c" by (auto split: if_splits)
      with True new show ?thesis by simp
    next
      case False
      with that have "x \<in> set (f i)" by (auto split: if_splits)
      with False show ?thesis using t_invD(4,7) [OF t that(1)] old by blast
    qed
    moreover have "set (?g i) \<subseteq> A" if "i < 25" for i
      using t_invD(7) [OF t that] a(1) t_invD(7) [OF t c(1)] by auto
    moreover have "qrepr (tm_queue st1, tm_heap st1) []"
      using t_invD(2) [OF t] by (simp add: st1_def qrepr_def)
    moreover have "pool_repr (tm_pool st1, tm_heap st1) ?g" using r by (simp add: st1_def)
    ultimately show ?thesis by (simp add: t_inv_def)
  qed
  ultimately show ?thesis by (intro exI [of _ st1]) (simp add: st1_def)
qed

lemma populate_inv:
  assumes "t_inv A p st f [] []" and "k + 2 * n \<le> N" and "A = hdr ` {..<N}" and "inj_on hdr {..<N}"
    and "\<forall>k<N. real_addr (hdr k) \<and> dat k = p (hdr k)" and "buf_map A p"
    and "\<And>i. i < 25 \<Longrightarrow> set (f i) \<subseteq> hdr ` {..<k}"
  shows "\<exists>k' st' f'. populate hdr dat junk (Suc fuel) n (k, st) = Some (Inr (k', st')) \<and>
    t_inv A p st' f' [] [] \<and> length (f' 0) = length (f 0) + n \<and> length (f' 1) = length (f 1) + n \<and>
    tm_queue st' = tm_queue st"
  using assms
proof (induction n arbitrary: k st f)
  case (Suc n)
  have fresh: "hdr k \<notin> set (g i)" if kg: "k < N" "set (g i) \<subseteq> hdr ` {..<k}" for k i and g :: "nat \<Rightarrow> addr list"
  proof
    assume "hdr k \<in> set (g i)"
    then obtain j where "j < k" "hdr k = hdr j" using kg(2) by auto
    then show False using inj_onD [OF Suc.prems(4), of k j] kg(1) by simp
  qed
  have k: "k < N" "Suc k < N" using Suc.prems(2) by simp_all
  have A: "hdr k \<in> A" "hdr (Suc k) \<in> A" using k Suc.prems(3) by auto
  obtain st1 where 1: "put_new hdr dat junk 128 (Suc fuel) (k, st) = Some (Inr (Suc k, st1))"
    "t_inv A p st1 (f(1 := hdr k # f 1)) [] []" "tm_queue st1 = tm_queue st"
    using put_new_first [OF Suc.prems(1), of 1 128 hdr k dat junk fuel] A(1) k(1) Suc.prems(5,6,7)
      fresh [OF k(1), where g = f] by (auto simp: kCutOffPoints_def)
  let ?f = "f(1 := hdr k # f 1)"
  have s1: "set (?f i) \<subseteq> hdr ` {..<Suc k}" if "i < 25" for i
    using Suc.prems(7) [OF that] Suc.prems(7) [of 1] by (auto simp: lessThan_Suc)
  obtain st2 where 2: "put_new hdr dat junk 64 (Suc fuel) (Suc k, st1) = Some (Inr (Suc (Suc k), st2))"
    "t_inv A p st2 (?f(0 := hdr (Suc k) # ?f 0)) [] []" "tm_queue st2 = tm_queue st1"
    using put_new_first [OF 1(2), of 0 64 hdr "Suc k" dat junk fuel] A(2) k(2) Suc.prems(5,6)
      fresh [OF k(2), where g = ?f] s1 by (auto simp: kCutOffPoints_def)
  let ?g = "?f(0 := hdr (Suc k) # ?f 0)"
  have s2: "set (?g i) \<subseteq> hdr ` {..<Suc (Suc k)}" if "i < 25" for i
    using s1 [OF that] s1 [of 0] by (auto simp: lessThan_Suc)
  have "\<exists>k' st' f'. populate hdr dat junk (Suc fuel) n (Suc (Suc k), st2) = Some (Inr (k', st')) \<and>
    t_inv A p st' f' [] [] \<and> length (f' 0) = length (?g 0) + n \<and> length (f' 1) = length (?g 1) + n \<and>
    tm_queue st' = tm_queue st2"
    by (rule Suc.IH [OF 2(2) _ Suc.prems(3-6) s2]) (use Suc.prems(2) in simp_all)
  then show ?case using 1 2 by (simp add: maxSize_def)
next
  case 0
  then show ?case by (intro exI [of _ k] exI [of _ st] exI [of _ f]) simp
qed

section \<open>Receiving\<close>

lemma receive_one:
  assumes t: "t_inv A p st f (a # xs) ((v, z) # ds)" and v: "v \<noteq> 0"
  shows "\<exists>st'. receive_loop me (Suc n) seen st = Some (Inr (seen @ [a], st')) \<and>
    qrepr (tm_queue st', tm_heap st') xs"
proof -
  obtain b where b: "tm_heap st a = Some b"
    and d: "dequeue (\<lambda>_ a. a) me (tm_queue st, tm_heap st) = Inr (a, (tm_queue st)\<lparr>q_head := b_nxt b\<rparr>, tm_heap st)"
    and q: "qrepr ((tm_queue st)\<lparr>q_head := b_nxt b\<rparr>, tm_heap st) xs"
    using dequeue_repr [OF t_invD(2) [OF t], where view = "\<lambda>_ a. a" and me = me] by blast
  have c: "chain (tm_heap st) (q_head (tm_queue st)) (a # xs)"
    using t_invD(2) [OF t] by (simp add: qrepr_def)
  have ax: "a \<notin> set xs" "a \<noteq> 0"
    using chain_distinct [OF c] chain_live [OF c, of a] by (simp_all add: real_addr_def)
  obtain w where w: "tm_bufs st (b_ptr b) = Some w" "unat (b_size b) = z" "z div 4 < length w" "w ! 0 = v"
    "\<forall>x \<in> set (take (z div 4) (drop 1 w)). x = int z"
    using t_invD(5) [OF t] b by (auto simp: sent_def has_buf_def)
  let ?st1 = "st\<lparr>tm_queue := (tm_queue st)\<lparr>q_head := b_nxt b\<rparr>, tm_heap := tm_heap st\<rparr>"
  let ?st2 = "?st1\<lparr>tm_heap := (tm_heap st)(a := None), tm_bufs := (tm_bufs st)(b_ptr b := None)\<rparr>"
  have "handle_block a ?st1 = Inr (False, ?st2)"
    using b w v by (simp add: handle_block_def check_def)
  then have "receive_loop me (Suc n) seen st = Some (Inr (seen @ [a], ?st2))"
    using d ax(2) by simp
  moreover have "qrepr (tm_queue ?st2, tm_heap ?st2) xs" using q ax(1) by (simp add: qrepr_def)
  ultimately show ?thesis by blast
qed

section \<open>What a run of the test does\<close>

lemma request_rounds_up:
  assumes "60 \<le> r mod 64"
  shows "request_size r = 64 \<or> request_size r = 128"
proof -
  define x where "x = r mod 128"
  have "x mod 64 = r mod 64" by (simp add: x_def mod_mod_cancel)
  moreover have "x < 128" by (simp add: x_def)
  ultimately have "60 \<le> (if x < 64 then x else x - 64)"
    using assms by (auto simp: le_mod_geq not_less)
  with \<open>x < 128\<close> have "x \<in> {60, 61, 62, 63, 124, 125, 126, 127}" by (auto split: if_splits)
  moreover have "request_size r = (let x1 = x + 4 - x mod 4 in if x1 > 128 then 128 else x1)"
    by (simp add: request_size_def maxSize_def x_def Let_def)
  ultimately show ?thesis by auto
qed

text \<open>The pool after the first loop, for any 16 headers and 16 buffers that \<open>malloc\<close> returns.\<close>

lemma populate_full:
  assumes "\<forall>k<16. real_addr (hdr k) \<and> real_addr (dat k)" and "inj_on hdr {..<16}" and "inj_on dat {..<16}"
  shows "\<exists>A p k st f. populate hdr dat junk 1 8 (0, start_mem pe h bufs) = Some (Inr (k, st)) \<and>
    t_inv A p st f [] [] \<and> length (f 0) = 8 \<and> length (f 1) = 8 \<and> q_pe (tm_queue st) = pe \<and> buf_map A p"
proof -
  let ?A = "hdr ` {..<16}" and ?p = "\<lambda>a. dat (inv_into {..<16} hdr a)"
  have i: "inv_into {..<16} hdr (hdr k) = k" if "k < 16" for k
    using assms(2) that by (intro inv_into_f_f) auto
  have b: "buf_map ?A ?p"
    using assms(1,3) by (auto simp: buf_map_def inj_on_def i)
  have d: "\<forall>k<16. real_addr (hdr k) \<and> dat k = ?p (hdr k)" using assms(1) by (simp add: i)
  have t: "t_inv ?A ?p (start_mem pe h bufs) (\<lambda>_. []) [] []" by (rule t_inv_start)
  have "\<exists>k' st' f'. populate hdr dat junk 1 8 (0, start_mem pe h bufs) = Some (Inr (k', st')) \<and>
    t_inv ?A ?p st' f' [] [] \<and> length (f' 0) = 8 \<and> length (f' 1) = 8 \<and>
    tm_queue st' = tm_queue (start_mem pe h bufs)"
    using populate_inv [OF t _ refl assms(2) d b, where k = 0 and n = 8 and fuel = 0 and junk = junk] by simp
  then obtain k' st' f' where s: "populate hdr dat junk 1 8 (0, start_mem pe h bufs) = Some (Inr (k', st'))"
    "t_inv ?A ?p st' f' [] []" "length (f' 0) = 8" "length (f' 1) = 8"
    "tm_queue st' = tm_queue (start_mem pe h bufs)" by blast
  from s(5) have "q_pe (tm_queue st') = pe" by (simp add: start_mem_def new_queue_def)
  with s b show ?thesis by blast
qed

text \<open>
  A request whose value of \<open>rand()\<close> is 60 to 63 modulo 64 is rounded up to a size class, and the block that serves it is
  filled beyond its end: the flag and \<open>sz\<close> bytes go into a buffer of \<open>sz\<close> bytes. So the first such request
  of every run is a write out of bounds.
\<close>

theorem class_size_overflows:
  assumes "\<forall>k<16. real_addr (hdr k) \<and> real_addr (dat k)" and "inj_on hdr {..<16}" and "inj_on dat {..<16}"
    and "xlat_ok view xlat mine" and "60 \<le> r mod 64"
  shows "bind_run (populate hdr dat junk 1 8 (0, start_mem pe h bufs)) (\<lambda>(_, st).
      send_block view xlat mine i r st) = Some (Inl OutOfBounds)"
proof -
  obtain A p k st f where s: "populate hdr dat junk 1 8 (0, start_mem pe h bufs) = Some (Inr (k, st))"
    and t: "t_inv A p st f [] []" "length (f 0) = 8" "length (f 1) = 8" and b: "buf_map A p"
    using populate_full [OF assms(1-3)] by blast
  have z: "request_size r = 64 \<or> request_size r = 128" by (rule request_rounds_up [OF assms(5)])
  obtain a as where "f (class_of r) = a # as"
    using t(2,3) by (cases "f (class_of r)") (auto simp: class_of_def split: if_splits)
  from send_overflow [OF t(1) this assms(4) b z] show ?thesis by (simp add: s del: One_nat_def)
qed

theorem class_size_overflows_witness:
  "bind_run (populate (every64 1) (every64 32) (\<lambda>_. 0) 1 8 (0, start_mem 1 Map.empty Map.empty)) (\<lambda>(_, st).
      send_block (\<lambda>_ a. - a) (\<lambda>a _. Inr (- a)) 0 0 60 st) = Some (Inl OutOfBounds)"
  by (rule class_size_overflows) (simp_all add: every64_ok xlat_ok_neg)

text \<open>
  C9. A run that ends before its messages are handled. The 16 blocks that a process sends while its neighbour is still sending
  come out of the queue newest first, and the newest carries the mark of the last one: the neighbour handles that block
  alone, leaves the loop and exits, with the other 15 in its queue.
\<close>

theorem tester_stops_early:
  assumes "\<forall>k<16. real_addr (hdr k) \<and> real_addr (dat k)" and "inj_on hdr {..<16}" and "inj_on dat {..<16}"
    and "xlat_ok view xlat mine" and "theirs \<noteq> mine" and "\<forall>r \<in> set rs. request_size r \<noteq> 64 \<and> request_size r \<noteq> 128"
    and "8 \<le> length (filter (\<lambda>r. request_size r \<le> 64) rs)" and "8 \<le> length (filter (\<lambda>r. 64 < request_size r) rs)"
  shows "\<exists>st xs st'. bind_run (populate hdr dat junk 1 8 (0, start_mem theirs h bufs)) (\<lambda>(_, st).
      send_loop view xlat mine rs 0 st) = Some (Inr (16, st)) \<and>
    qrepr (tm_queue st, tm_heap st) xs \<and> length xs = 16 \<and>
    receive_loop theirs 1 [] st = Some (Inr ([hd xs], st')) \<and> qrepr (tm_queue st', tm_heap st') (tl xs)"
proof -
  obtain A p k st f where s: "populate hdr dat junk 1 8 (0, start_mem theirs h bufs) = Some (Inr (k, st))"
    and t: "t_inv A p st f [] []" "length (f 0) = 8" "length (f 1) = 8" and b: "buf_map A p"
    and q: "q_pe (tm_queue st) = theirs"
    using populate_full [OF assms(1-3)] by blast
  have c: "class_of r = 0 \<longleftrightarrow> request_size r \<le> 64" "class_of r = Suc 0 \<longleftrightarrow> 64 < request_size r" for r
    by (auto simp: class_of_def)
  have n: "0 + length (f 0) + length (f 1) = numMsgs"
    "length (f 0) \<le> length (filter (\<lambda>r. class_of r = 0) rs)"
    "length (f 1) \<le> length (filter (\<lambda>r. class_of r = 1) rs)"
    using assms(7,8) t(2,3) by (simp_all add: numMsgs_def c)
  obtain st1 g xs ds z where l: "send_loop view xlat mine rs 0 st = Some (Inr (numMsgs, st1))"
    and t1: "t_inv A p st1 g xs ((1, z) # ds)" and x: "length xs = numMsgs"
    using send_loop_ends [OF t(1) n(1) assms(6) n(2,3) assms(4) b] q assms(5)
    by (auto simp: numMsgs_def)
  obtain a as where xs: "xs = a # as" using x by (cases xs) (auto simp: numMsgs_def)
  obtain st2 where "receive_loop theirs (Suc 0) [] st1 = Some (Inr ([] @ [a], st2))"
    "qrepr (tm_queue st2, tm_heap st2) as"
    using receive_one [OF t1 [unfolded xs]] by (metis one_neq_zero)
  then show ?thesis using s l x xs t_invD(2) [OF t1]
    by (intro exI [of _ st1] exI [of _ xs] exI [of _ st2]) (simp add: numMsgs_def)
qed

theorem tester_stops_early_witness:
  "\<exists>st xs st'. bind_run (populate (every64 1) (every64 32) (\<lambda>_. 0) 1 8 (0, start_mem 1 Map.empty Map.empty)) (\<lambda>(_, st).
      send_loop (\<lambda>_ a. - a) (\<lambda>a _. Inr (- a)) 0 (replicate 8 20 @ replicate 8 100) 0 st) = Some (Inr (16, st)) \<and>
    length xs = 16 \<and> receive_loop 1 1 [] st = Some (Inr ([hd xs], st')) \<and>
    qrepr (tm_queue st', tm_heap st') (tl xs)"
proof -
  have e: "request_size 20 = 24" "request_size 100 = 104"
    by (simp_all add: request_size_def maxSize_def Let_def)
  have f: "length (filter P (replicate n x)) = (if P x then n else 0)" for P and n and x :: nat
    by (induction n) auto
  have h: "\<forall>k<16. real_addr (every64 1 k) \<and> real_addr (every64 32 k)" "inj_on (every64 1) {..<16}"
    "inj_on (every64 32) {..<16}" "(1::int) \<noteq> 0" by (simp_all add: every64_ok)
  have r: "\<forall>r \<in> set (replicate 8 20 @ replicate 8 100). request_size r \<noteq> 64 \<and> request_size r \<noteq> 128"
    "8 \<le> length (filter (\<lambda>r. request_size r \<le> 64) (replicate 8 20 @ replicate 8 100))"
    "8 \<le> length (filter (\<lambda>r. 64 < request_size r) (replicate 8 20 @ replicate 8 100))"
    by (auto simp: f e)
  show ?thesis
    using tester_stops_early [OF h(1-3) xlat_ok_neg [of 0] h(4) r, of "\<lambda>_. 0" Map.empty Map.empty] by blast
qed

end
