(* ===== verification/Ipc_Handshake.thy ===== *)
theory Ipc_Handshake
  imports Xpmem
begin

text \<open>
  The start of the two testers (\<open>archive/tests/basic\<close> and \<open>archive/tests/pingpong\<close>, whose code for it is the same): every
  process broadcasts its XPMEM segment and the addresses of its pool and queue, attaches those of the others, and takes
  part in a reduction when it has them all.
\<close>

section \<open>State and operations\<close>

text \<open>A \<open>std::map\<close> from processes to the addresses at which this process sees their objects.\<close>

type_synonym peers = "(int \<times> addr) list"

record hs =
  hs_pools :: peers
  hs_queues :: peers
  hs_xpmem :: xpmem_state

definition hs_start :: hs where
  "hs_start = \<lparr>hs_pools = [], hs_queues = [], hs_xpmem = \<lparr>segments = Map.empty, instances = Map.empty\<rparr>\<rparr>"

definition emplace_peer :: "int \<Rightarrow> addr \<Rightarrow> peers \<Rightarrow> bool \<times> peers" where
  "emplace_peer pe a m = (case map_of m pe of None \<Rightarrow> (True, m @ [(pe, a)]) | Some _ \<Rightarrow> (False, m))"

definition find_or_create :: "int \<Rightarrow> addr \<Rightarrow> int \<Rightarrow> peers \<Rightarrow> (addr \<times> peers) res" where
  "find_or_create mine fresh pe m =
     (case map_of m pe of
        Some a \<Rightarrow> Inr (a, m)
      | None \<Rightarrow>
          if pe = mine then
            (let (ins, m1) = emplace_peer pe fresh m in bind_res (check ins) (\<lambda>_. Inr (fresh, m1)))
          else Inr (0, m))"

text \<open>\<open>fresh\<close> is where \<open>operator new\<close> places the object.\<close>

definition pool_for :: "int \<Rightarrow> addr \<Rightarrow> int \<Rightarrow> hs \<Rightarrow> (addr \<times> hs) res" where
  "pool_for mine fresh pe s =
     bind_res (find_or_create mine fresh pe (hs_pools s)) (\<lambda>(a, m). Inr (a, s\<lparr>hs_pools := m\<rparr>))"

definition queue_for :: "int \<Rightarrow> addr \<Rightarrow> int \<Rightarrow> hs \<Rightarrow> (addr \<times> hs) res" where
  "queue_for mine fresh pe s =
     bind_res (find_or_create mine fresh pe (hs_queues s)) (\<lambda>(a, m). Inr (a, s\<lparr>hs_queues := m\<rparr>))"

record init_msg =
  im_src :: int
  im_segid :: int
  im_pool :: addr
  im_queue :: addr

datatype first_send = SendSelfRun | BroadcastInit init_msg

text \<open>\<open>segid\<close> is the answer of \<open>make_segment\<close>, \<open>p\<close> and \<open>q\<close> are where the pool and the queue are allocated.\<close>

definition test_init :: "nat \<Rightarrow> int \<Rightarrow> int \<Rightarrow> addr \<Rightarrow> addr \<Rightarrow> hs \<Rightarrow> (first_send \<times> hs) res" where
  "test_init n mine segid p q s =
     bind_res (pool_for mine p mine s) (\<lambda>(pool, s1).
     bind_res (queue_for mine q mine s1) (\<lambda>(queue, s2).
     bind_res (put_segment mine segid (hs_xpmem s2)) (\<lambda>x.
     bind_res (check (0 \<le> segid)) (\<lambda>_.
       Inr (if n = 1 then SendSelfRun
            else BroadcastInit \<lparr>im_src = mine, im_segid = segid, im_pool = pool, im_queue = queue\<rparr>,
            s2\<lparr>hs_xpmem := x\<rparr>)))))"

text \<open>The answer: whether the process contributes to the reduction. \<open>psz\<close>, \<open>qsz\<close>: the sizes of a pool and a queue.\<close>

definition handle_initiate ::
  "(int \<Rightarrow> int) \<Rightarrow> (int \<Rightarrow> u64 \<Rightarrow> u64 \<Rightarrow> addr) \<Rightarrow> u64 \<Rightarrow> u64 \<Rightarrow> nat \<Rightarrow> int \<Rightarrow> init_msg \<Rightarrow> hs \<Rightarrow> (bool \<times> hs) res" where
  "handle_initiate xget xattach psz qsz n mine msg s =
     (let src = im_src msg in
      bind_res (put_segment src (im_segid msg) (hs_xpmem s)) (\<lambda>x.
      bind_res (translate_address xget xattach mine src (im_pool msg) psz x) (\<lambda>(pool, x1).
      let (ins_pool, pools) = emplace_peer src pool (hs_pools s) in
      bind_res (check ins_pool) (\<lambda>_.
      bind_res (translate_address xget xattach mine src (im_queue msg) qsz x1) (\<lambda>(queue, x2).
      let (ins_queue, queues) = emplace_peer src queue (hs_queues s) in
      bind_res (check ins_queue) (\<lambda>_.
        Inr (length pools = n, \<lparr>hs_pools = pools, hs_queues = queues, hs_xpmem = x2\<rparr>)))))))"

fun handle_initiates ::
  "(int \<Rightarrow> int) \<Rightarrow> (int \<Rightarrow> u64 \<Rightarrow> u64 \<Rightarrow> addr) \<Rightarrow> u64 \<Rightarrow> u64 \<Rightarrow> nat \<Rightarrow> int \<Rightarrow> init_msg list \<Rightarrow> hs
     \<Rightarrow> (bool list \<times> hs) res" where
  "handle_initiates xget xattach psz qsz n mine [] s = Inr ([], s)"
| "handle_initiates xget xattach psz qsz n mine (m # ms) s =
     bind_res (handle_initiate xget xattach psz qsz n mine m s) (\<lambda>(c, s1).
     bind_res (handle_initiates xget xattach psz qsz n mine ms s1) (\<lambda>(cs, s2). Inr (c # cs, s2)))"

section \<open>Every order of the messages\<close>

text \<open>The processes that this one knows.\<close>

definition hs_inv :: "int list \<Rightarrow> hs \<Rightarrow> bool" where
  "hs_inv pes s \<longleftrightarrow> map fst (hs_pools s) = pes \<and> map fst (hs_queues s) = pes \<and> dom (segments (hs_xpmem s)) = set pes"

lemma map_of_fresh: "map fst m = pes \<Longrightarrow> pe \<notin> set pes \<Longrightarrow> map_of m pe = None"
  by (force simp: map_of_eq_None_iff)

lemma test_init_inv:
  assumes "0 \<le> segid"
  shows "\<exists>f s. test_init n mine segid p q hs_start = Inr (f, s) \<and> hs_inv [mine] s \<and>
    (n \<noteq> 1 \<longrightarrow> f = BroadcastInit \<lparr>im_src = mine, im_segid = segid, im_pool = p, im_queue = q\<rparr>)"
  using assms by (auto simp: test_init_def hs_start_def pool_for_def queue_for_def find_or_create_def emplace_peer_def
    put_segment_def hs_inv_def)

text \<open>What the XPMEM driver answers: a handle for every segment, and never the error value.\<close>

definition driver_ok :: "(int \<Rightarrow> int) \<Rightarrow> (int \<Rightarrow> u64 \<Rightarrow> u64 \<Rightarrow> addr) \<Rightarrow> bool" where
  "driver_ok xget xattach \<longleftrightarrow> (\<forall>g. 0 \<le> xget g) \<and> (\<forall>a b w. 0 \<le> a \<longrightarrow> xattach a b w \<noteq> -1)"

definition instances_ok :: "hs \<Rightarrow> bool" where
  "instances_ok s \<longleftrightarrow> (\<forall>g a. instances (hs_xpmem s) g = Some a \<longrightarrow> 0 \<le> a)"

lemma translate_total:
  assumes "driver_ok xget xattach" and "segments x pe = Some g" and "\<forall>g a. instances x g = Some a \<longrightarrow> 0 \<le> a"
  shows "\<exists>a x'. translate_address xget xattach mine pe p sz x = Inr (a, x') \<and> segments x' = segments x \<and>
    (\<forall>g a. instances x' g = Some a \<longrightarrow> 0 \<le> a)"
  using assms by (auto simp: translate_address_def get_instance_def driver_ok_def Let_def split: option.splits)

lemma handle_initiate_inv:
  assumes d: "driver_ok xget xattach" and s: "hs_inv pes s" "instances_ok s" and m: "im_src m \<notin> set pes"
  shows "\<exists>s'. handle_initiate xget xattach psz qsz n mine m s = Inr (Suc (length pes) = n, s') \<and>
    hs_inv (pes @ [im_src m]) s' \<and> instances_ok s'"
proof -
  let ?pe = "im_src m"
  let ?x = "(hs_xpmem s)\<lparr>segments := (segments (hs_xpmem s))(?pe \<mapsto> im_segid m)\<rparr>"
  have "segments (hs_xpmem s) ?pe = None" using s(1) m by (auto simp: hs_inv_def)
  then have p: "put_segment ?pe (im_segid m) (hs_xpmem s) = Inr ?x" by (simp add: put_segment_def)
  have f: "map_of (hs_pools s) ?pe = None" "map_of (hs_queues s) ?pe = None"
    using s(1) m by (auto simp: hs_inv_def intro!: map_of_fresh)
  have i: "\<forall>g a. instances ?x g = Some a \<longrightarrow> 0 \<le> a" using s(2) by (simp add: instances_ok_def)
  obtain a1 x1 where 1: "translate_address xget xattach mine ?pe (im_pool m) psz ?x = Inr (a1, x1)"
    "segments x1 = segments ?x" "\<forall>g a. instances x1 g = Some a \<longrightarrow> 0 \<le> a"
    using translate_total [OF d _ i, of ?pe "im_segid m"] by fastforce
  obtain a2 x2 where 2: "translate_address xget xattach mine ?pe (im_queue m) qsz x1 = Inr (a2, x2)"
    "segments x2 = segments x1" "\<forall>g a. instances x2 g = Some a \<longrightarrow> 0 \<le> a"
    using translate_total [OF d _ 1(3), of ?pe "im_segid m"] 1(2) by fastforce
  have "length (hs_pools s) = length pes" using s(1) by (auto simp: hs_inv_def)
  then show ?thesis
    using p f 1 2 s(1) by (auto simp: handle_initiate_def emplace_peer_def hs_inv_def instances_ok_def Let_def)
qed

lemma handle_initiates_inv:
  assumes "driver_ok xget xattach" and "hs_inv pes s" and "instances_ok s"
    and "distinct (pes @ map im_src ms)"
  shows "\<exists>s'. handle_initiates xget xattach psz qsz n mine ms s
      = Inr (map (\<lambda>i. length pes + Suc i = n) [0..<length ms], s') \<and> hs_inv (pes @ map im_src ms) s'"
  using assms(2-)
proof (induction ms arbitrary: pes s)
  case (Cons m ms)
  obtain s1 where 1: "handle_initiate xget xattach psz qsz n mine m s = Inr (Suc (length pes) = n, s1)"
    "hs_inv (pes @ [im_src m]) s1" "instances_ok s1"
    using handle_initiate_inv [OF assms(1) Cons.prems(1,2), of m psz qsz n mine] Cons.prems(3) by auto
  moreover obtain s2 where "handle_initiates xget xattach psz qsz n mine ms s1
      = Inr (map (\<lambda>i. length (pes @ [im_src m]) + Suc i = n) [0..<length ms], s2)"
    "hs_inv ((pes @ [im_src m]) @ map im_src ms) s2"
    using Cons.IH [OF 1(2,3)] Cons.prems(3) by auto
  moreover have "map (\<lambda>i. length pes + Suc i = n) [0..<length (m # ms)]
      = (Suc (length pes) = n) # map (\<lambda>i. length (pes @ [im_src m]) + Suc i = n) [0..<length ms]"
    by (simp add: upt_conv_Cons map_Suc_upt [symmetric] o_def del: upt_Suc map_Suc_upt)
  ultimately show ?case by simp
qed simp

text \<open>
  C10. The exchange of pools and queues. In whatever order the messages of the other processes arrive, no assertion fails, the process
  contributes to the reduction exactly once, at the last message, and it then knows the pool and the queue of
  every process.
\<close>

theorem handshake_once:
  assumes "driver_ok xget xattach" and "2 \<le> n" and "0 \<le> segid" and "mine \<in> {0..<int n}"
    and "distinct (map im_src ms)" and "set (map im_src ms) = {0..<int n} - {mine}"
  shows "\<exists>f s s'. test_init n mine segid p q hs_start = Inr (f, s) \<and>
    handle_initiates xget xattach psz qsz n mine ms s = Inr (replicate (n - 2) False @ [True], s') \<and>
    dom (map_of (hs_pools s')) = {0..<int n} \<and> dom (map_of (hs_queues s')) = {0..<int n}"
proof -
  obtain f s where s: "test_init n mine segid p q hs_start = Inr (f, s)" "hs_inv [mine] s"
    using test_init_inv [OF assms(3)] by blast
  have i: "instances_ok s"
    using s(1) assms(3) by (auto simp: test_init_def hs_start_def pool_for_def queue_for_def find_or_create_def
      emplace_peer_def put_segment_def instances_ok_def)
  have d: "distinct ([mine] @ map im_src ms)" using assms(5,6) by auto
  obtain s' where h: "handle_initiates xget xattach psz qsz n mine ms s
      = Inr (map (\<lambda>i. length [mine] + Suc i = n) [0..<length ms], s')" "hs_inv ([mine] @ map im_src ms) s'"
    using handle_initiates_inv [OF assms(1) s(2) i d] by blast
  have "length ms = card (set (map im_src ms))" using distinct_card [OF assms(5)] by simp
  also have "\<dots> = n - 1" using assms(4,6) by simp
  finally have l: "length ms = Suc (n - 2)" using assms(2) by simp
  have "map (\<lambda>i. length [mine] + Suc i = n) [0..<n - 2] = replicate (n - 2) False"
    by (rule replicate_eqI) auto
  then have "map (\<lambda>i. length [mine] + Suc i = n) [0..<length ms] = replicate (n - 2) False @ [True]"
    using assms(2) by (simp add: l)
  moreover have "set ([mine] @ map im_src ms) = {0..<int n}" using assms(4,6) by auto
  moreover have "dom (map_of m) = set (map fst m)" for m :: peers by (simp add: dom_map_of_conv_image_fst)
  ultimately show ?thesis using s(1) h unfolding hs_inv_def by metis
qed

theorem handshake_once_witness:
  "\<exists>f s s'. test_init 3 1 41 640 704 hs_start = Inr (f, s) \<and>
    handle_initiates (\<lambda>g. \<bar>g\<bar>) (\<lambda>a b w. 8388608) 200 16 3 1
      [\<lparr>im_src = 2, im_segid = 42, im_pool = 640, im_queue = 704\<rparr>, \<lparr>im_src = 0, im_segid = 40, im_pool = 640, im_queue = 704\<rparr>] s
      = Inr ([False, True], s') \<and>
    dom (map_of (hs_pools s')) = {0..<3} \<and> dom (map_of (hs_queues s')) = {0..<3}"
proof -
  have d: "driver_ok (\<lambda>g. \<bar>g\<bar>) (\<lambda>a b w. 8388608)" by (simp add: driver_ok_def)
  have "{0..<3} - {1} = {2, 0 :: int}" by auto
  then show ?thesis
    using handshake_once [OF d, where n = 3 and segid = 41 and mine = 1 and p = 640 and q = 704 and psz = 200 and qsz = 16
      and ms = "[\<lparr>im_src = 2, im_segid = 42, im_pool = 640, im_queue = 704\<rparr>,
        \<lparr>im_src = 0, im_segid = 40, im_pool = 640, im_queue = 704\<rparr>]"] by simp
qed

end
