(* ===== verification/Ipc_Pingpong.thy ===== *)
theory Ipc_Pingpong
  imports Ipc_Queue Ipc_Pool
begin

text \<open>
  \<open>archive/tests/pingpong\<close>: the memory side. A process takes a block from the pool of its peer, keeps it in a list of its own
  (\<open>retained_\<close>), which is linked by the same field \<open>next\<close> as the pool and the queue, and sends it again as soon as the peer
  has marked it unused.
\<close>

section \<open>State and operations\<close>

text \<open>What a process shares: its pool, its queue, the headers of its blocks, and the buffers of these.\<close>

record pe_mem =
  pm_pool :: mempool
  pm_queue :: queue
  pm_heap :: heap
  pm_bufs :: "addr \<Rightarrow> u8 list option"

definition kMaxSpin :: nat where
  "kMaxSpin = 16"

definition kBufferFactor :: int where
  "kBufferFactor = 4"

text \<open>
  The loops. \<open>v a\<close> is the home address of what the process sees at \<open>a\<close>; \<open>find_retained\<close> looks through the list of retained
  blocks from \<open>a\<close> on, and is not done (\<open>None\<close>) within \<open>n\<close> blocks.
\<close>

fun find_retained :: "(addr \<Rightarrow> addr) \<Rightarrow> u64 \<Rightarrow> heap \<Rightarrow> nat \<Rightarrow> addr \<Rightarrow> addr run" where
  "find_retained v sz h 0 a = None"
| "find_retained v sz h (Suc n) a =
     (if a = 0 then Some (Inr 0)
      else bind_run (Some (rd_block (v a) h)) (\<lambda>b.
        if sz \<le> b_size b \<and> \<not> b_used b then Some (Inr a) else find_retained v sz h n (b_nxt b)))"

function spin_ralloc ::
  "view \<Rightarrow> (addr \<Rightarrow> u64 \<Rightarrow> addr res) \<Rightarrow> int \<Rightarrow> u64 \<Rightarrow> nat \<Rightarrow> mempool \<times> heap \<Rightarrow> (addr \<times> mempool \<times> heap) res"
where
  "spin_ralloc view xlat me sz spins s =
     bind_res (ralloc view xlat me sz s) (\<lambda>(a, s1).
       if a = 0 \<and> Suc spins < kMaxSpin then spin_ralloc view xlat me sz (Suc spins) s1 else Inr (a, s1))"
  by pat_completeness auto
termination
  by (relation "measure (\<lambda>(_, _, _, _, spins, _). kMaxSpin - spins)") auto

declare spin_ralloc.simps [simp del]

definition alloc_from ::
  "nat \<Rightarrow> view \<Rightarrow> (addr \<Rightarrow> u64 \<Rightarrow> addr res) \<Rightarrow> int \<Rightarrow> u64 \<Rightarrow> addr \<Rightarrow> pe_mem \<Rightarrow> (addr \<times> pe_mem) run" where
  "alloc_from fuel view xlat me sz retained mem =
     bind_run (find_retained (view me) sz (pm_heap mem) fuel retained) (\<lambda>a.
       if a = 0 then
         bind_run (Some (spin_ralloc view xlat me sz 0 (pm_pool mem, pm_heap mem))) (\<lambda>(a, m, h).
           Some (Inr (a, mem\<lparr>pm_pool := m, pm_heap := h\<rparr>)))
       else
         bind_run (Some (upd_block (view me a) (\<lambda>b. b\<lparr>b_used := True\<rparr>) (pm_heap mem))) (\<lambda>h.
           Some (Inr (a, mem\<lparr>pm_heap := h\<rparr>))))"

fun alloc_loop ::
  "nat \<Rightarrow> view \<Rightarrow> (addr \<Rightarrow> u64 \<Rightarrow> addr res) \<Rightarrow> int \<Rightarrow> u64 \<Rightarrow> addr \<Rightarrow> nat \<Rightarrow> pe_mem \<Rightarrow> (addr \<times> pe_mem) run" where
  "alloc_loop fuel view xlat me sz retained 0 mem = None"
| "alloc_loop fuel view xlat me sz retained (Suc n) mem =
     bind_run (alloc_from fuel view xlat me sz retained mem) (\<lambda>(a, mem1).
       if a = 0 then alloc_loop fuel view xlat me sz retained n mem1 else Some (Inr (a, mem1)))"

text \<open>The new head of the retained blocks, and the memory.\<close>

definition cache_block :: "(addr \<Rightarrow> addr) \<Rightarrow> addr \<Rightarrow> addr \<Rightarrow> pe_mem \<Rightarrow> (addr \<times> pe_mem) res" where
  "cache_block v retained a mem =
     bind_res (upd_block (v a) (\<lambda>b. b\<lparr>b_nxt := retained\<rparr>) (pm_heap mem)) (\<lambda>h. Inr (a, mem\<lparr>pm_heap := h\<rparr>))"

text \<open>The address of the block's data, translated at the block's first use.\<close>

definition data_ptr ::
  "(addr \<Rightarrow> addr) \<Rightarrow> (addr \<Rightarrow> u64 \<Rightarrow> addr res) \<Rightarrow> addr \<Rightarrow> pe_mem \<Rightarrow> (addr \<times> pe_mem) res" where
  "data_ptr v xlat a mem =
     bind_res (rd_block (v a) (pm_heap mem)) (\<lambda>b.
       if b_xlatd b = 0 then
         bind_res (xlat (b_ptr b) (b_size b)) (\<lambda>x.
           Inr (x, mem\<lparr>pm_heap := (pm_heap mem)(v a \<mapsto> b\<lparr>b_xlatd := x\<rparr>)\<rparr>))
       else Inr (b_xlatd b, mem))"

definition copy_to :: "addr \<Rightarrow> u8 list \<Rightarrow> pe_mem \<Rightarrow> pe_mem res" where
  "copy_to p data mem =
     (case pm_bufs mem p of
        None \<Rightarrow> Inl BadPointer
      | Some w \<Rightarrow>
          if length data \<le> length w
          then Inr (mem\<lparr>pm_bufs := (pm_bufs mem)(p \<mapsto> data @ drop (length data) w)\<rparr>)
          else Inl OutOfBounds)"

text \<open>
  \<open>send_xpmem\<close>, on the list of blocks retained for the peer and the peer's memory; \<open>None\<close> also stands for a queue that
  stays locked.
\<close>

definition send_xpmem ::
  "nat \<Rightarrow> view \<Rightarrow> (addr \<Rightarrow> u64 \<Rightarrow> addr res) \<Rightarrow> int \<Rightarrow> u8 list \<Rightarrow> addr \<times> pe_mem \<Rightarrow> (addr \<times> pe_mem) run" where
  "send_xpmem fuel view xlat me data = (\<lambda>(retained, mem).
     bind_run (alloc_loop fuel view xlat me (of_nat (length data)) retained fuel mem) (\<lambda>(a, mem1).
     bind_run (Some (cache_block (view me) retained a mem1)) (\<lambda>(retained1, mem2).
     bind_run (Some (data_ptr (view me) xlat a mem2)) (\<lambda>(x, mem3).
     bind_run (Some (copy_to (view me x) data mem3)) (\<lambda>mem4.
     bind_run (Some (rd_block (view me a) (pm_heap mem4))) (\<lambda>b.
     bind_run (Some (enqueue view me (b_orig b) a (pm_queue mem4, pm_heap mem4))) (\<lambda>(ok, q, h).
       if ok then Some (Inr (retained1, mem4\<lparr>pm_queue := q, pm_heap := h\<rparr>)) else None)))))))"

text \<open>The owner takes a block out of its queue (null: there is none), and marks it unused.\<close>

definition take_block :: "int \<Rightarrow> pe_mem \<Rightarrow> (addr \<times> pe_mem) res" where
  "take_block me mem =
     bind_res (dequeue (\<lambda>_ a. a) me (pm_queue mem, pm_heap mem)) (\<lambda>(a, q, h).
       Inr (a, mem\<lparr>pm_queue := q, pm_heap := h\<rparr>))"

definition release_block :: "addr \<Rightarrow> pe_mem \<Rightarrow> pe_mem res" where
  "release_block a mem =
     bind_res (upd_block a (\<lambda>b. b\<lparr>b_used := False\<rparr>) (pm_heap mem)) (\<lambda>h. Inr (mem\<lparr>pm_heap := h\<rparr>))"

text \<open>The start: \<open>nIters / kBufferFactor\<close> buffers, each retried until the pool accepts it.\<close>

definition fresh_mem :: "int \<Rightarrow> pe_mem" where
  "fresh_mem pe = \<lparr>pm_pool = new_mempool pe, pm_queue = new_queue pe, pm_heap = Map.empty, pm_bufs = Map.empty\<rparr>"

fun put_buffers ::
  "(nat \<Rightarrow> addr) \<Rightarrow> (nat \<Rightarrow> addr) \<Rightarrow> (nat \<Rightarrow> u8) \<Rightarrow> nat \<Rightarrow> nat \<Rightarrow> nat \<Rightarrow> nat \<times> pe_mem \<Rightarrow> (nat \<times> pe_mem) run" where
  "put_buffers hdr dat junk fuel sz 0 kmem = Some (Inr kmem)"
| "put_buffers hdr dat junk fuel sz (Suc n) (k, mem) =
     bind_run (lput_loop hdr (dat n) (of_nat sz) fuel k (pm_pool mem, pm_heap mem)) (\<lambda>(k1, m, h).
       put_buffers hdr dat junk fuel sz n
         (k1, mem\<lparr>pm_pool := m, pm_heap := h, pm_bufs := (pm_bufs mem)(dat n \<mapsto> replicate sz (junk n))\<rparr>))"

definition populate_buffers ::
  "(nat \<Rightarrow> addr) \<Rightarrow> (nat \<Rightarrow> addr) \<Rightarrow> (nat \<Rightarrow> u8) \<Rightarrow> nat \<Rightarrow> nat \<Rightarrow> int \<Rightarrow> pe_mem \<Rightarrow> pe_mem run" where
  "populate_buffers hdr dat junk fuel sz nIters mem =
     bind_run (put_buffers hdr dat junk fuel sz (nat (nIters div kBufferFactor)) (0, mem)) (\<lambda>(_, mem1). Some (Inr mem1))"

section \<open>The block that goes to and fro\<close>

text \<open>
  \<open>channel c n v fly retained mem\<close>: nothing was sent yet, and the peer's pool has blocks of \<open>n\<close> bytes (class \<open>c\<close>);
  or the one retained block is in the peer's queue (\<open>fly\<close>), marked used, or back.
\<close>

definition stocked :: "nat \<Rightarrow> nat \<Rightarrow> pe_mem \<Rightarrow> (nat \<Rightarrow> addr list) \<Rightarrow> bool" where
  "stocked c n mem f \<longleftrightarrow> pool_repr (pm_pool mem, pm_heap mem) f \<and>
     (\<forall>a \<in> set (f c). real_addr a \<and> (\<exists>b w. pm_heap mem a = Some b \<and> b_orig b = a \<and> b_xlatd b = 0 \<and>
        real_addr (b_ptr b) \<and> pm_bufs mem (b_ptr b) = Some w \<and> length w = n))"

definition travels :: "nat \<Rightarrow> (addr \<Rightarrow> addr) \<Rightarrow> bool \<Rightarrow> addr \<Rightarrow> pe_mem \<Rightarrow> bool" where
  "travels n v fly l mem \<longleftrightarrow> l \<noteq> 0 \<and> real_addr (v l) \<and>
     qrepr (pm_queue mem, pm_heap mem) (if fly then [v l] else []) \<and>
     (\<exists>b w. pm_heap mem (v l) = Some b \<and> b_orig b = v l \<and> b_used b = fly \<and> b_size b = of_nat n \<and> b_xlatd b \<noteq> 0 \<and>
        pm_bufs mem (v (b_xlatd b)) = Some w \<and> length w = n)"

definition channel :: "nat \<Rightarrow> nat \<Rightarrow> (addr \<Rightarrow> addr) \<Rightarrow> bool \<Rightarrow> addr \<Rightarrow> pe_mem \<Rightarrow> bool" where
  "channel c n v fly retained mem \<longleftrightarrow>
     (if retained = 0 then \<not> fly \<and> qrepr (pm_queue mem, pm_heap mem) [] \<and> (\<exists>f. stocked c n mem f \<and> f c \<noteq> [])
      else travels n v fly retained mem)"

text \<open>The process sees its own memory as it is.\<close>

definition own_view :: "view \<Rightarrow> int \<Rightarrow> queue \<Rightarrow> bool" where
  "own_view view me q \<longleftrightarrow> (q_pe q = me \<longrightarrow> (\<forall>a. view me a = a))"

text \<open>The second half of \<open>send_xpmem\<close>: the block \<open>a\<close>, seen at \<open>l\<close>, is the process's own to fill.\<close>

lemma send_rest:
  assumes l: "alloc_loop fuel view xlat me (of_nat (length data)) retained fuel mem = Some (Inr (l, mem1))"
    and a: "l \<noteq> 0" "view me l = a" "real_addr a" "pm_heap mem1 a = Some b" "b_orig b = a" "b_used b"
      "b_size b = of_nat (length data)"
    and y: "if b_xlatd b = 0 then xlat (b_ptr b) (b_size b) = Inr y else b_xlatd b = y" "y \<noteq> 0"
    and w: "pm_bufs mem1 (view me y) = Some w" "length w = length data"
    and q: "qrepr (pm_queue mem1, pm_heap mem1) []" "own_view view me (pm_queue mem1)"
  shows "\<exists>mem'. send_xpmem fuel view xlat me data (retained, mem) = Some (Inr (l, mem')) \<and>
    travels (length data) (view me) True l mem' \<and> q_pe (pm_queue mem') = q_pe (pm_queue mem1) \<and>
    map_option b_nxt (pm_heap mem' a) = Some kTail \<and> (\<forall>x. x \<noteq> a \<longrightarrow> pm_heap mem' x = pm_heap mem1 x)"
proof -
  define b2 where "b2 = b\<lparr>b_nxt := retained\<rparr>"
  define mem2 where "mem2 = mem1\<lparr>pm_heap := (pm_heap mem1)(a \<mapsto> b2)\<rparr>"
  define b3 where "b3 = b2\<lparr>b_xlatd := y\<rparr>"
  define mem3 where "mem3 = mem2\<lparr>pm_heap := (pm_heap mem1)(a \<mapsto> b3)\<rparr>"
  define mem4 where "mem4 = mem3\<lparr>pm_bufs := (pm_bufs mem1)(view me y \<mapsto> data)\<rparr>"
  let ?q = "(pm_queue mem1)\<lparr>q_head := a\<rparr>" and ?h = "(pm_heap mem4)(a \<mapsto> b3\<lparr>b_nxt := q_head (pm_queue mem1)\<rparr>)"
  define mem5 where "mem5 = mem4\<lparr>pm_queue := ?q, pm_heap := ?h\<rparr>"
  have 2: "cache_block (view me) retained l mem1 = Inr (l, mem2)"
    using a by (simp add: cache_block_def mem2_def b2_def)
  have "b3 = b2" if "b_xlatd b = y" using that by (cases b) (simp add: b3_def b2_def)
  then have 3: "data_ptr (view me) xlat l mem2 = Inr (y, mem3)"
    using a y(1) by (cases "b_xlatd b = 0") (simp_all add: data_ptr_def mem2_def mem3_def, simp_all add: b3_def b2_def)
  have 4: "copy_to (view me y) data mem3 = Inr mem4"
    using w by (simp add: copy_to_def mem4_def mem3_def mem2_def)
  have h4: "pm_heap mem4 a = Some b3" "b_orig b3 = a" "pm_queue mem4 = pm_queue mem1"
    using a by (simp_all add: mem4_def mem3_def mem2_def b3_def b2_def)
  have q4: "qrepr (pm_queue mem4, pm_heap mem4) []" using q(1) h4(3) by (simp add: qrepr_def)
  have o: "l = (if q_pe (pm_queue mem4) = me then a else l)" using q(2) a(2) h4(3) by (auto simp: own_view_def)
  have n: "a \<notin> set []" by simp
  note e = enqueue_repr [OF q4 a(3) h4(1) n, where me = me and view = view and l = l and ?l0.0 = l, OF o a(1,2)]
  have 5: "enqueue view me a l (pm_queue mem4, pm_heap mem4) = Inr (True, ?q, ?h)"
    and q5: "qrepr (?q, ?h) [a]" using e h4(3) by simp_all
  have "send_xpmem fuel view xlat me data (retained, mem) = Some (Inr (l, mem5))"
    using l 2 3 4 5 h4(1,2) a(2) by (simp add: send_xpmem_def mem5_def)
  moreover have "travels (length data) (view me) True l mem5"
    unfolding travels_def mem5_def using a q5 y(2)
    by (simp add: mem4_def mem3_def mem2_def b3_def b2_def)
  moreover have "q_head (pm_queue mem1) = kTail" using q(1) by (simp add: qrepr_def)
  ultimately show ?thesis by (intro exI [of _ mem5]) (simp add: mem5_def mem4_def mem3_def mem2_def)
qed

lemma send_first:
  assumes c: "c < 25" "kCutOffPoints ! c = of_nat (length data)" and x: "xlat_ok view xlat me"
    and q: "qrepr (pm_queue mem, pm_heap mem) []" "own_view view me (pm_queue mem)"
    and f: "stocked c (length data) mem f" "f c \<noteq> []"
  shows "\<exists>l mem'. send_xpmem (Suc fuel) view xlat me data (0, mem) = Some (Inr (l, mem')) \<and>
    travels (length data) (view me) True l mem' \<and> q_pe (pm_queue mem') = q_pe (pm_queue mem) \<and>
    map_option b_nxt (pm_heap mem' (view me l)) = Some kTail \<and>
    (\<forall>x. pm_heap mem x = None \<longrightarrow> pm_heap mem' x = None)"
proof -
  let ?n = "of_nat (length data) :: u64"
  obtain a as where fc: "f c = a # as" using f(2) by (cases "f c") auto
  have w: "which_pow2 ?n = Inr c" using which_pow2_cutoff [OF c(1)] c(2) by simp
  have p: "pool_repr (pm_pool mem, pm_heap mem) f" using f(1) by (simp add: stocked_def)
  obtain l m h b where r: "ralloc view xlat me ?n (pm_pool mem, pm_heap mem) = Inr (l, m, h)"
    "l \<noteq> 0" "view me l = a" "pm_heap mem a = Some b" "b_size b = ?n" "h = (pm_heap mem)(a \<mapsto> b\<lparr>b_used := True\<rparr>)"
    using ralloc_repr [OF p w c(1) fc x] c(2) by auto
  obtain bw where b: "b_orig b = a" "b_xlatd b = 0" "real_addr (b_ptr b)" "pm_bufs mem (b_ptr b) = Some bw"
    "length bw = length data" "real_addr a"
    using f(1) fc r(4) by (auto simp: stocked_def)
  obtain y where y: "xlat (b_ptr b) ?n = Inr y" "y \<noteq> 0" "view me y = b_ptr b"
    using x b(3) unfolding xlat_ok_def by blast
  define mem1 where "mem1 = mem\<lparr>pm_pool := m, pm_heap := h\<rparr>"
  have "spin_ralloc view xlat me ?n 0 (pm_pool mem, pm_heap mem) = Inr (l, m, h)"
    using r(1,2) by (simp add: spin_ralloc.simps)
  then have l: "alloc_loop (Suc fuel) view xlat me ?n 0 (Suc fuel) mem = Some (Inr (l, mem1))"
    using r(2) by (simp add: alloc_from_def mem1_def)
  have m1: "pm_heap mem1 a = Some (b\<lparr>b_used := True\<rparr>)" "pm_bufs mem1 (view me y) = Some bw"
    "qrepr (pm_queue mem1, pm_heap mem1) []" "pm_queue mem1 = pm_queue mem" "own_view view me (pm_queue mem1)"
    "\<forall>x. pm_heap mem x = None \<longrightarrow> x \<noteq> a \<and> pm_heap mem1 x = None"
    using r(4,6) b(4) y(3) q by (auto simp: mem1_def qrepr_def)
  show ?thesis
    using send_rest [OF l r(2,3) b(6) m1(1) _ _ _ _ y(2) m1(2) b(5) m1(3,5)] r(3,5) b y(1) m1(4,6) by simp metis
qed

text \<open>The retained block is back: it is used again, whatever its link says.\<close>

lemma send_again:
  assumes t: "travels (length data) (view me) False l mem" and o: "own_view view me (pm_queue mem)"
  shows "\<exists>mem'. send_xpmem (Suc fuel) view xlat me data (l, mem) = Some (Inr (l, mem')) \<and>
    travels (length data) (view me) True l mem' \<and> q_pe (pm_queue mem') = q_pe (pm_queue mem)"
proof -
  obtain b w where b: "l \<noteq> 0" "real_addr (view me l)" "qrepr (pm_queue mem, pm_heap mem) []"
    "pm_heap mem (view me l) = Some b" "b_orig b = view me l" "\<not> b_used b" "b_size b = of_nat (length data)"
    "b_xlatd b \<noteq> 0" "pm_bufs mem (view me (b_xlatd b)) = Some w" "length w = length data"
    using t by (auto simp: travels_def)
  let ?mem1 = "mem\<lparr>pm_heap := (pm_heap mem)(view me l \<mapsto> b\<lparr>b_used := True\<rparr>)\<rparr>"
  have "alloc_loop (Suc fuel) view xlat me (of_nat (length data)) l (Suc fuel) mem = Some (Inr (l, ?mem1))"
    using b by (simp add: alloc_from_def)
  then show ?thesis
    using send_rest [where retained = l and ?mem1.0 = ?mem1 and a = "view me l" and b = "b\<lparr>b_used := True\<rparr>"
        and y = "b_xlatd b" and w = w and l = l] b o
    by (force simp: qrepr_def)
qed

lemma send_channel:
  assumes "channel c (length data) (view me) False retained mem" and "own_view view me (pm_queue mem)"
    and "c < 25" and "kCutOffPoints ! c = of_nat (length data)" and "xlat_ok view xlat me"
  shows "\<exists>l mem'. send_xpmem (Suc fuel) view xlat me data (retained, mem) = Some (Inr (l, mem')) \<and>
    channel c (length data) (view me) True l mem' \<and> q_pe (pm_queue mem') = q_pe (pm_queue mem)"
proof (cases "retained = 0")
  case True
  then show ?thesis
    using send_first [OF assms(3-5) _ assms(2)] assms(1) by (fastforce simp: channel_def travels_def)
next
  case False
  then show ?thesis
    using send_again [OF _ assms(2)] assms(1) by (fastforce simp: channel_def travels_def)
qed

lemma take_channel:
  assumes "channel c n v True retained mem"
  shows "\<exists>a mem1 mem2. take_block me mem = Inr (a, mem1) \<and> a \<noteq> 0 \<and> release_block a mem1 = Inr mem2 \<and>
    channel c n v False retained mem2 \<and> q_pe (pm_queue mem2) = q_pe (pm_queue mem)"
proof -
  have t: "travels n v True retained mem" and r: "retained \<noteq> 0" using assms by (auto simp: channel_def split: if_splits)
  then obtain b w where b: "real_addr (v retained)" "qrepr (pm_queue mem, pm_heap mem) [v retained]"
    "pm_heap mem (v retained) = Some b" "b_orig b = v retained" "b_size b = of_nat n"
    "b_xlatd b \<noteq> 0" "pm_bufs mem (v (b_xlatd b)) = Some w" "length w = n"
    by (auto simp: travels_def)
  let ?a = "v retained"
  let ?q = "(pm_queue mem)\<lparr>q_head := b_nxt b\<rparr>"
  have d: "dequeue (\<lambda>_ a. a) me (pm_queue mem, pm_heap mem) = Inr (?a, ?q, pm_heap mem)"
    "qrepr (?q, pm_heap mem) []"
    using dequeue_repr [OF b(2), of "\<lambda>_ a. a" me] b(3) by auto
  let ?mem1 = "mem\<lparr>pm_queue := ?q, pm_heap := pm_heap mem\<rparr>"
  let ?mem2 = "?mem1\<lparr>pm_heap := (pm_heap mem)(?a \<mapsto> b\<lparr>b_used := False\<rparr>)\<rparr>"
  have "take_block me mem = Inr (?a, ?mem1)" using d(1) by (simp add: take_block_def)
  moreover have "release_block ?a ?mem1 = Inr ?mem2" using b(3) by (simp add: release_block_def)
  moreover have "channel c n v False retained ?mem2"
    unfolding channel_def travels_def using r b d(2) by (simp add: qrepr_def)
  moreover have "?a \<noteq> 0" using b(1) by (auto simp: real_addr_def)
  ultimately show ?thesis by (intro exI [of _ ?a] exI [of _ ?mem1] exI [of _ ?mem2]) simp
qed

section \<open>Filling the pool\<close>

definition stocked_by :: "(nat \<Rightarrow> addr) \<Rightarrow> nat \<Rightarrow> nat \<Rightarrow> nat \<Rightarrow> pe_mem \<Rightarrow> (nat \<Rightarrow> addr list) \<Rightarrow> bool" where
  "stocked_by hdr k c n mem f \<longleftrightarrow> stocked c n mem f \<and> (\<forall>i<25. set (f i) \<subseteq> hdr ` {..<k}) \<and>
     (\<forall>a. pm_heap mem a \<noteq> None \<longrightarrow> a \<in> hdr ` {..<k})"

lemma put_buffer_stocked:
  assumes s: "stocked_by hdr k c sz mem f" and c: "c < 25" "kCutOffPoints ! c = of_nat sz"
    and h: "k < N" "inj_on hdr {..<N}" "real_addr (hdr k)" and d: "real_addr p"
  shows "\<exists>m h'. lput_loop hdr p (of_nat sz) (Suc fuel) k (pm_pool mem, pm_heap mem) = Some (Inr (Suc k, m, h')) \<and>
    stocked_by hdr (Suc k) c sz (mem\<lparr>pm_pool := m, pm_heap := h', pm_bufs := (pm_bufs mem)(p \<mapsto> replicate sz j)\<rparr>)
      (f(c := hdr k # f c))"
proof -
  let ?a = "hdr k" and ?b = "new_block (hdr k) 0 p (of_nat sz)"
  let ?h0 = "(pm_heap mem)(?a \<mapsto> ?b)"
  have pr: "pool_repr (pm_pool mem, pm_heap mem) f" using s by (simp add: stocked_by_def stocked_def)
  have fresh: "?a \<notin> set (f i)" if i: "i < 25" for i
  proof
    assume "?a \<in> set (f i)"
    then obtain l where "l < k" "hdr k = hdr l" using s i by (fastforce simp: stocked_by_def)
    then show False using inj_onD [OF h(2), of k l] h(1) by simp
  qed
  have pr0: "pool_repr (pm_pool mem, ?h0) f"
    using pr fresh by (auto simp: pool_repr_def free_block_def split: if_splits)
  obtain m h' where l: "lput_block ?a (pm_pool mem, ?h0) = Inr (True, m, h')"
    "pool_repr (m, h') (f(c := ?a # f c))" "h' = ?h0(?a \<mapsto> ?b\<lparr>b_nxt := bins (pm_pool mem) ! c\<rparr>)"
    using lput_block_repr [OF pr0 c(1), where a = ?a and b = ?b] c(2) h(3) fresh by (auto simp: new_block_def)
  let ?mem = "mem\<lparr>pm_pool := m, pm_heap := h', pm_bufs := (pm_bufs mem)(p \<mapsto> replicate sz j)\<rparr>"
  have "real_addr a \<and> (\<exists>b w. pm_heap ?mem a = Some b \<and> b_orig b = a \<and> b_xlatd b = 0 \<and> real_addr (b_ptr b) \<and>
      pm_bufs ?mem (b_ptr b) = Some w \<and> length w = sz)" if a: "a \<in> set ((f(c := ?a # f c)) c)" for a
  proof (cases "a = ?a")
    case True
    then show ?thesis using h(3) d by (simp add: l(3) new_block_def)
  next
    case False
    then have "a \<in> set (f c)" using a by simp
    then obtain b w where "real_addr a" "pm_heap mem a = Some b" "b_orig b = a" "b_xlatd b = 0" "real_addr (b_ptr b)"
      "pm_bufs mem (b_ptr b) = Some w" "length w = sz"
      using s by (auto simp: stocked_by_def stocked_def)
    then show ?thesis using False by (simp add: l(3))
  qed
  then have "stocked c sz ?mem (f(c := ?a # f c))" using l(2) by (simp add: stocked_def)
  moreover have "\<forall>i<25. set ((f(c := ?a # f c)) i) \<subseteq> hdr ` {..<Suc k}"
    using s c(1) by (auto simp: stocked_by_def lessThan_Suc)
  moreover have "\<forall>a. pm_heap ?mem a \<noteq> None \<longrightarrow> a \<in> hdr ` {..<Suc k}"
    using s by (auto simp: stocked_by_def lessThan_Suc l(3))
  ultimately show ?thesis using l(1)
    by (intro exI [of _ m] exI [of _ h']) (simp add: stocked_by_def lput_def)
qed

lemma put_buffers_stocked:
  assumes "stocked_by hdr k c sz mem f" and "c < 25" and "kCutOffPoints ! c = of_nat sz"
    and "k + n \<le> N" and "inj_on hdr {..<N}" and "\<forall>i<N. real_addr (hdr i) \<and> real_addr (dat i)"
  shows "\<exists>mem' f'. put_buffers hdr dat junk (Suc fuel) sz n (k, mem) = Some (Inr (k + n, mem')) \<and>
    stocked_by hdr (k + n) c sz mem' f' \<and> length (f' c) = length (f c) + n \<and> pm_queue mem' = pm_queue mem"
  using assms
proof (induction n arbitrary: k mem f)
  case 0
  then show ?case by (auto simp: stocked_by_def)
next
  case (Suc n)
  have k: "k < N" "real_addr (hdr k)" "real_addr (dat n)" using Suc.prems(4,6) by simp_all
  obtain m h where 1: "lput_loop hdr (dat n) (of_nat sz) (Suc fuel) k (pm_pool mem, pm_heap mem) = Some (Inr (Suc k, m, h))"
    "stocked_by hdr (Suc k) c sz (mem\<lparr>pm_pool := m, pm_heap := h, pm_bufs := (pm_bufs mem)(dat n \<mapsto> replicate sz (junk n))\<rparr>)
      (f(c := hdr k # f c))"
    using put_buffer_stocked [OF Suc.prems(1-3) k(1) Suc.prems(5) k(2,3), of fuel "junk n"] by blast
  obtain mem' f' where "put_buffers hdr dat junk (Suc fuel) sz n
      (Suc k, mem\<lparr>pm_pool := m, pm_heap := h, pm_bufs := (pm_bufs mem)(dat n \<mapsto> replicate sz (junk n))\<rparr>)
      = Some (Inr (Suc k + n, mem'))"
    "stocked_by hdr (Suc k + n) c sz mem' f'" "length (f' c) = Suc (length (f c)) + n" "pm_queue mem' = pm_queue mem"
    using Suc.IH [OF 1(2) Suc.prems(2,3) _ Suc.prems(5,6)] Suc.prems(4) by fastforce
  with 1(1) show ?case by auto
qed

lemma populate_stocked:
  assumes c: "c < 25" "kCutOffPoints ! c = of_nat sz" and n: "kBufferFactor \<le> nIters" "nat (nIters div kBufferFactor) \<le> N"
    and h: "inj_on hdr {..<N}" "\<forall>i<N. real_addr (hdr i) \<and> real_addr (dat i)"
  shows "\<exists>mem f. populate_buffers hdr dat junk (Suc fuel) sz nIters (fresh_mem pe) = Some (Inr mem) \<and>
    stocked c sz mem f \<and> f c \<noteq> [] \<and> pm_queue mem = new_queue pe \<and> (\<forall>a. pm_heap mem a \<noteq> None \<longrightarrow> a \<in> hdr ` {..<N})"
proof -
  let ?n = "nat (nIters div kBufferFactor)"
  have "stocked_by hdr 0 c sz (fresh_mem pe) (\<lambda>_. [])"
    by (simp add: stocked_by_def stocked_def fresh_mem_def pool_repr_new)
  from put_buffers_stocked [OF this c _ h, where n = ?n and fuel = fuel and junk = junk] n(2) obtain mem f where
    p: "put_buffers hdr dat junk (Suc fuel) sz ?n (0, fresh_mem pe) = Some (Inr (?n, mem))"
      "stocked_by hdr ?n c sz mem f" "length (f c) = ?n" "pm_queue mem = new_queue pe"
    by (auto simp: fresh_mem_def)
  have "0 < ?n" using n(1) by (simp add: kBufferFactor_def)
  then have "f c \<noteq> []" using p(3) by auto
  moreover have "hdr ` {..<?n} \<subseteq> hdr ` {..<N}" using n(2) by auto
  ultimately show ?thesis using p
    by (intro exI [of _ mem] exI [of _ f]) (auto simp: populate_buffers_def stocked_by_def)
qed

lemma populate_channel:
  assumes "c < 25" "kCutOffPoints ! c = of_nat sz" and "kBufferFactor \<le> nIters" "nat (nIters div kBufferFactor) \<le> N"
    and "inj_on hdr {..<N}" "\<forall>i<N. real_addr (hdr i) \<and> real_addr (dat i)"
  shows "\<exists>mem. populate_buffers hdr dat junk (Suc fuel) sz nIters (fresh_mem pe) = Some (Inr mem) \<and>
    channel c sz v False 0 mem \<and> q_pe (pm_queue mem) = pe"
proof -
  obtain mem f where m: "populate_buffers hdr dat junk (Suc fuel) sz nIters (fresh_mem pe) = Some (Inr mem)"
    "stocked c sz mem f" "f c \<noteq> []" "pm_queue mem = new_queue pe"
    using populate_stocked [OF assms, where junk = junk and fuel = fuel and pe = pe] by blast
  then have "channel c sz v False 0 mem" by (auto simp: channel_def qrepr_new)
  then show ?thesis using m(1,4) by (auto simp: new_queue_def)
qed

section \<open>No buffers\<close>

lemma spin_starves:
  assumes "pool_repr (m, h) f" and "which_pow2 sz = Inr i" and "i < 25" and "f i = []"
  shows "spin_ralloc view xlat me sz spins (m, h) = Inr (0, m, h)"
proof (induction "kMaxSpin - spins" arbitrary: spins)
  case 0
  then show ?case by (subst spin_ralloc.simps) (simp add: ralloc_repr_empty [OF assms])
next
  case (Suc n)
  then show ?case by (subst spin_ralloc.simps) (auto simp: ralloc_repr_empty [OF assms])
qed

text \<open>
  With fewer than four iterations asked for, a process puts no buffer into its pool (\<open>nIters / 4\<close> of them), and its peer
  never returns from its first \<open>send_xpmem\<close>: it waits for a block for ever.
\<close>

theorem few_iterations_hang:
  assumes "nIters < 4" and "unat (of_nat (length data) :: u64) \<le> 2 ^ 30"
  shows "bind_run (populate_buffers hdr dat junk fuel (length data) nIters (fresh_mem pe)) (\<lambda>mem.
      send_xpmem fuel view xlat me data (0, mem)) = None"
proof -
  obtain i where i: "i < 25" "which_pow2 (of_nat (length data)) = Inr i"
    using which_pow2_fits [OF assms(2)] by blast
  have "alloc_loop fuel view xlat me (of_nat (length data)) 0 n (fresh_mem pe) = None" for n
  proof (induction n)
    case (Suc n)
    have "(fresh_mem pe)\<lparr>pm_pool := new_mempool pe, pm_heap := Map.empty\<rparr> = fresh_mem pe"
      by (simp add: fresh_mem_def)
    then show ?case
      using Suc spin_starves [OF pool_repr_new i(2,1) refl, of view xlat me 0 pe Map.empty]
      by (cases fuel) (simp_all add: alloc_from_def fresh_mem_def)
  qed simp
  moreover have "nat (nIters div kBufferFactor) = 0" using assms(1) by (simp add: kBufferFactor_def)
  ultimately show ?thesis by (simp add: populate_buffers_def send_xpmem_def)
qed

theorem few_iterations_hang_witness:
  "bind_run (populate_buffers (\<lambda>_. 640) (\<lambda>_. 704) (\<lambda>_. 0) 100 64 3 (fresh_mem 0)) (\<lambda>mem.
      send_xpmem 100 (\<lambda>_ a. - a) (\<lambda>a _. Inr (- a)) 1 (replicate 64 7) (0, mem)) = None"
  using few_iterations_hang [where nIters = 3 and data = "replicate 64 7"] by simp

section \<open>The shared link\<close>

text \<open>
  A process cannot send a second block before the first was taken: the first is still in use, so \<open>alloc_from\<close> goes on to
  the block behind it in the list of retained ones; but that link was overwritten when the block was put into the
  queue, by the queue's end marker, which is then dereferenced.
\<close>

theorem second_send_faults:
  assumes "c < 25" and "kCutOffPoints ! c = of_nat (length data)" and "xlat_ok view xlat me"
    and "qrepr (pm_queue mem, pm_heap mem) []" and "own_view view me (pm_queue mem)"
    and "stocked c (length data) mem f" and "f c \<noteq> []" and "pm_heap mem (view me kTail) = None"
  shows "\<exists>l mem'. send_xpmem (Suc fuel) view xlat me data (0, mem) = Some (Inr (l, mem')) \<and>
    send_xpmem (Suc (Suc fuel)) view xlat me data' (l, mem') = Some (Inl BadPointer)"
proof -
  obtain l mem' where l: "send_xpmem (Suc fuel) view xlat me data (0, mem) = Some (Inr (l, mem'))"
    "travels (length data) (view me) True l mem'" "map_option b_nxt (pm_heap mem' (view me l)) = Some kTail"
    "pm_heap mem' (view me kTail) = None"
    using send_first [OF assms(1-7)] assms(8) by blast
  then obtain b where "l \<noteq> 0" "pm_heap mem' (view me l) = Some b" "b_used b" "b_nxt b = kTail"
    by (auto simp: travels_def)
  then have "find_retained (view me) sz (pm_heap mem') (Suc (Suc fuel)) l = Some (Inl BadPointer)" for sz
    using l(4) by (simp add: rd_block_def)
  then have "send_xpmem (Suc (Suc fuel)) view xlat me data' (l, mem') = Some (Inl BadPointer)"
    by (simp add: send_xpmem_def alloc_from_def del: find_retained.simps)
  with l(1) show ?thesis by blast
qed

theorem second_send_faults_witness:
  "\<exists>mem l mem'. populate_buffers (every64 1) (every64 32) (\<lambda>_. 0) 1 64 4 (fresh_mem 0) = Some (Inr mem) \<and>
    send_xpmem 1 (\<lambda>_ a. - a) (\<lambda>a _. Inr (- a)) 1 (replicate 64 7) (0, mem) = Some (Inr (l, mem')) \<and>
    send_xpmem 2 (\<lambda>_ a. - a) (\<lambda>a _. Inr (- a)) 1 (replicate 64 8) (l, mem') = Some (Inl BadPointer)"
proof -
  have c: "(0::nat) < 25" "kCutOffPoints ! 0 = of_nat 64" by (simp_all add: kCutOffPoints_def)
  have h: "inj_on (every64 1) {..<nat 4}" "\<forall>k<nat 4. real_addr (every64 1 k) \<and> real_addr (every64 32 k)"
    using every64_ok [of 1] every64_ok [of 32] by (auto intro: inj_on_subset)
  have "\<exists>mem f. populate_buffers (every64 1) (every64 32) (\<lambda>_. 0) (Suc 0) 64 4 (fresh_mem 0) = Some (Inr mem) \<and>
    stocked 0 64 mem f \<and> f 0 \<noteq> [] \<and> pm_queue mem = new_queue 0 \<and> (\<forall>a. pm_heap mem a \<noteq> None \<longrightarrow> a \<in> every64 1 ` {..<nat 4})"
    by (rule populate_stocked [OF c _ _ h]) (simp_all add: kBufferFactor_def)
  then obtain mem f where mem: "populate_buffers (every64 1) (every64 32) (\<lambda>_. 0) (Suc 0) 64 4 (fresh_mem 0) = Some (Inr mem)"
    "stocked 0 64 mem f" "f 0 \<noteq> []" "pm_queue mem = new_queue 0"
    and d: "\<forall>a. pm_heap mem a \<noteq> None \<longrightarrow> a \<in> every64 1 ` {..<nat 4}" by blast
  have "1 \<noteq> every64 1 k" if "k < 4" for k
  proof
    assume "1 = every64 1 k"
    then have "unat (1 :: addr) = 64 * (1 + k)" using unat_every64 [of 1 k] that by simp
    then show False by simp
  qed
  then have "pm_heap mem (- kTail) = None" using d by (fastforce simp: kTail_def)
  moreover have "qrepr (pm_queue mem, pm_heap mem) []" "own_view (\<lambda>_ a. - a) 1 (pm_queue mem)"
    by (simp_all add: mem(4) qrepr_new own_view_def, simp add: new_queue_def)
  ultimately show ?thesis
    using second_send_faults [where data = "replicate 64 7" and data' = "replicate 64 8" and fuel = 0 and mem = mem and f = f
        and c = 0 and view = "\<lambda>_ a. - a" and xlat = "\<lambda>a _. Inr (- a)" and me = 1] c mem xlat_ok_neg [of 1]
    by (simp add: numeral_2_eq_2)
qed

end
