(* ===== verification/Ipc_Pingpong_Run.thy ===== *)
theory Ipc_Pingpong_Run
  imports Ipc_Pingpong
begin

text \<open>
  \<open>archive/tests/pingpong\<close>: the whole test, on any number of processes in a ring. A message goes round (\<open>plain\<close>), then a block in
  shared memory does (\<open>xpmem\<close>); the two series are run twice, the first time to warm up. A process handles messages
  one at a time, and none while it polls its queue (\<open>start_xpmem\<close>).
\<close>

section \<open>State\<close>

datatype handler = StartPlain | RecvPlain "u8 list" | StartXpmem | ExitMsg

datatype pe_mode = Idle | Polling | Exited

record tester_state =
  t_data :: "u8 list"
  t_warmup :: bool
  t_nIters :: int
  t_it :: int
  t_retained :: "nat \<Rightarrow> addr"

text \<open>The constructor of \<open>state_\<close> fills the data.\<close>

definition init_data :: "nat \<Rightarrow> u8 list" where
  "init_data sz = map (\<lambda>i. of_nat (i mod 255)) [0..<sz]"

text \<open>
  The processes, what each of them shares, what it is doing, and the messages under way. What a process sees of the memory
  of another, and \<open>translate_address\<close> between the two, are arguments.
\<close>

record ppsys =
  pp_states :: "tester_state list"
  pp_mems :: "pe_mem list"
  pp_modes :: "pe_mode list"
  pp_net :: "(nat \<times> handler) multiset"

record ppenv =
  e_view :: "nat \<Rightarrow> view"
  e_xlat :: "nat \<Rightarrow> nat \<Rightarrow> addr \<Rightarrow> u64 \<Rightarrow> addr res"
  e_fuel :: nat

definition n_pes :: "ppsys \<Rightarrow> nat" where
  "n_pes s = length (pp_states s)"

definition peer_of :: "nat \<Rightarrow> ppsys \<Rightarrow> nat" where
  "peer_of p s = Suc p mod n_pes s"

definition upd_state :: "nat \<Rightarrow> (tester_state \<Rightarrow> tester_state) \<Rightarrow> ppsys \<Rightarrow> ppsys" where
  "upd_state p g s = s\<lparr>pp_states := (pp_states s)[p := g (pp_states s ! p)]\<rparr>"

section \<open>Operations\<close>

text \<open>A negative \<open>pe\<close> is every process, itself included.\<close>

definition send_signal :: "int \<Rightarrow> handler \<Rightarrow> ppsys \<Rightarrow> ppsys" where
  "send_signal pe which s =
     s\<lparr>pp_net := pp_net s + (if 0 \<le> pe then {#(nat pe, which)#} else mset (map (\<lambda>i. (i, which)) [0..<n_pes s]))\<rparr>"

definition reset_state :: "nat \<Rightarrow> ppsys \<Rightarrow> ppsys" where
  "reset_state me = upd_state me (\<lambda>st. st\<lparr>t_it := 0\<rparr>)"

definition start_plain :: "nat \<Rightarrow> ppsys \<Rightarrow> ppsys" where
  "start_plain me s =
     (reset_state me s)\<lparr>pp_net := add_mset (peer_of me s, RecvPlain (t_data (pp_states s ! me))) (pp_net s)\<rparr>"

definition test_finish :: "bool \<Rightarrow> nat \<Rightarrow> ppsys \<Rightarrow> ppsys" where
  "test_finish plain me s =
     (if plain then send_signal (-1) StartXpmem s
      else if t_warmup (pp_states s ! me) then start_plain me (upd_state me (\<lambda>st. st\<lparr>t_warmup := False\<rparr>) s)
      else send_signal (-1) ExitMsg s)"

definition recv_common :: "bool \<Rightarrow> nat \<Rightarrow> ppsys \<Rightarrow> bool \<times> ppsys" where
  "recv_common plain me s =
     (let s1 = upd_state me (\<lambda>st. st\<lparr>t_it := t_it st + 1\<rparr>) s;
          fin = (t_it (pp_states s1 ! me) = t_nIters (pp_states s1 ! me))
      in (fin, if fin \<and> me = 0 then test_finish plain me s1 else s1))"

definition recv_plain :: "nat \<Rightarrow> u8 list \<Rightarrow> ppsys \<Rightarrow> ppsys" where
  "recv_plain me w s =
     (let (fin, s1) = (if me = 0 then recv_common True me s else (False, s)) in
      if fin then s1
      else
        let data = t_data (pp_states s1 ! me)
        in s1\<lparr>pp_net := add_mset (peer_of me s1, RecvPlain (data @ drop (length data) w)) (pp_net s1)\<rparr>)"

definition send_to_peer :: "ppenv \<Rightarrow> nat \<Rightarrow> ppsys \<Rightarrow> ppsys run" where
  "send_to_peer env me s =
     (let peer = peer_of me s; st = pp_states s ! me in
      bind_run (send_xpmem (e_fuel env) (e_view env peer) (e_xlat env me peer) (int me) (t_data st)
          (t_retained st peer, pp_mems s ! peer)) (\<lambda>(l, mem).
        Some (Inr (s\<lparr>pp_states := (pp_states s)[me := st\<lparr>t_retained := (t_retained st)(peer := l)\<rparr>],
          pp_mems := (pp_mems s)[peer := mem]\<rparr>))))"

text \<open>\<open>start_xpmem\<close>, up to its polling loop, and one round of that loop.\<close>

definition start_xpmem :: "ppenv \<Rightarrow> nat \<Rightarrow> ppsys \<Rightarrow> ppsys run" where
  "start_xpmem env me s =
     bind_run (if me = 0 then send_to_peer env me (reset_state me s) else Some (Inr (reset_state me s))) (\<lambda>s1.
       Some (Inr (s1\<lparr>pp_modes := (pp_modes s1)[me := Polling]\<rparr>)))"

definition recv_xpmem :: "ppenv \<Rightarrow> nat \<Rightarrow> addr \<Rightarrow> ppsys \<Rightarrow> (bool \<times> ppsys) run" where
  "recv_xpmem env me a s =
     bind_run (Some (release_block a (pp_mems s ! me))) (\<lambda>mem.
       let (fin, s1) = recv_common False me (s\<lparr>pp_mems := (pp_mems s)[me := mem]\<rparr>) in
       if fin \<and> me = 0 then Some (Inr (False, s1))
       else bind_run (send_to_peer env me s1) (\<lambda>s2. Some (Inr (\<not> fin, s2))))"

definition poll_queue :: "ppenv \<Rightarrow> nat \<Rightarrow> ppsys \<Rightarrow> ppsys run" where
  "poll_queue env me s =
     bind_run (Some (take_block (int me) (pp_mems s ! me))) (\<lambda>(a, mem).
       let s1 = s\<lparr>pp_mems := (pp_mems s)[me := mem]\<rparr> in
       if a = 0 then Some (Inr s1)
       else bind_run (recv_xpmem env me a s1) (\<lambda>(status, s2).
         Some (Inr (s2\<lparr>pp_modes := (pp_modes s2)[me := if status then Polling else Idle]\<rparr>))))"

definition handle_exit :: "nat \<Rightarrow> ppsys \<Rightarrow> ppsys" where
  "handle_exit me s = s\<lparr>pp_modes := (pp_modes s)[me := Exited]\<rparr>"

fun handle_with :: "ppenv \<Rightarrow> nat \<Rightarrow> handler \<Rightarrow> ppsys \<Rightarrow> ppsys run" where
  "handle_with env me StartPlain s = Some (Inr (start_plain me s))"
| "handle_with env me (RecvPlain w) s = Some (Inr (recv_plain me w s))"
| "handle_with env me StartXpmem s = start_xpmem env me s"
| "handle_with env me ExitMsg s = Some (Inr (handle_exit me s))"

text \<open>
  What can happen next, with its outcome: an idle process handles any message that is there for it, a polling one takes a
  block out of its queue when that is not empty.
\<close>

inductive pp_event :: "ppenv \<Rightarrow> ppsys \<Rightarrow> ppsys run \<Rightarrow> bool" for env where
  deliver: "(p, h) \<in># pp_net s \<Longrightarrow> p < n_pes s \<Longrightarrow> pp_modes s ! p = Idle \<Longrightarrow>
    pp_event env s (handle_with env p h (s\<lparr>pp_net := pp_net s - {#(p, h)#}\<rparr>))"
| poll: "p < n_pes s \<Longrightarrow> pp_modes s ! p = Polling \<Longrightarrow> q_head (pm_queue (pp_mems s ! p)) \<noteq> kTail \<Longrightarrow>
    pp_event env s (poll_queue env p s)"

definition pp_step :: "ppenv \<Rightarrow> ppsys \<Rightarrow> ppsys \<Rightarrow> bool" where
  "pp_step env s t \<longleftrightarrow> pp_event env s (Some (Inr t))"

text \<open>
  \<open>test_start\<close>, after the exchange of pools and queues: the reduction starts process 0, which a single process does itself.
  \<open>its\<close> is what the counters hold before they are first set.
\<close>

definition pp_start :: "nat \<Rightarrow> u8 list \<Rightarrow> int \<Rightarrow> (nat \<Rightarrow> int) \<Rightarrow> pe_mem list \<Rightarrow> ppsys" where
  "pp_start n data nIters its mems =
     (let s = \<lparr>pp_states = map (\<lambda>i. \<lparr>t_data = data, t_warmup = True, t_nIters = nIters, t_it = its i,
                 t_retained = (\<lambda>_. 0)\<rparr>) [0..<n],
               pp_mems = mems, pp_modes = replicate n Idle, pp_net = {#}\<rparr>
      in if n = 1 then start_plain 0 s else send_signal 0 StartPlain s)"

section \<open>The channels\<close>

definition env_ok :: "ppenv \<Rightarrow> nat \<Rightarrow> bool" where
  "env_ok env n \<longleftrightarrow> 0 < e_fuel env \<and> (\<forall>i<n. \<forall>a. e_view env i (int i) a = a) \<and>
     (\<forall>i<n. xlat_ok (e_view env (Suc i mod n)) (e_xlat env i (Suc i mod n)) (int i))"

definition channel_at :: "ppenv \<Rightarrow> nat \<Rightarrow> nat \<Rightarrow> bool \<Rightarrow> ppsys \<Rightarrow> nat \<Rightarrow> bool" where
  "channel_at env c m fly s i \<longleftrightarrow>
     channel c m (e_view env (peer_of i s) (int i)) fly (t_retained (pp_states s ! i) (peer_of i s)) (pp_mems s ! peer_of i s)"

definition channels :: "ppenv \<Rightarrow> nat \<Rightarrow> u8 list \<Rightarrow> (nat \<Rightarrow> bool) \<Rightarrow> ppsys \<Rightarrow> bool" where
  "channels env c data fly s \<longleftrightarrow> length (pp_mems s) = n_pes s \<and>
     (\<forall>i<n_pes s. t_data (pp_states s ! i) = data \<and> q_pe (pm_queue (pp_mems s ! i)) = int i \<and>
        channel_at env c (length data) (fly (peer_of i s)) s i)"

lemma peer_cases: "i < n \<Longrightarrow> Suc i mod n = (if Suc i = n then 0 else Suc i)"
  by (auto simp: less_Suc_eq)

lemma peer_inj:
  assumes "i < n" and "j < n" and "Suc i mod n = Suc j mod n"
  shows "i = j"
  using assms(3) unfolding peer_cases [OF assms(1)] peer_cases [OF assms(2)] by (auto split: if_splits)

lemma peer_surj: "p < n \<Longrightarrow> \<exists>i<n. Suc i mod n = p"
proof (cases p)
  case 0
  assume "p < n"
  then show ?thesis using 0 by (intro exI [of _ "n - 1"]) simp
next
  case (Suc q)
  assume "p < n"
  then show ?thesis using Suc by (intro exI [of _ q]) simp
qed

lemma channels_cong:
  assumes "channels env c data fly s" and "pp_mems t = pp_mems s"
    and "map (\<lambda>st. (t_data st, t_retained st)) (pp_states t) = map (\<lambda>st. (t_data st, t_retained st)) (pp_states s)"
  shows "channels env c data fly t"
proof -
  have n: "n_pes t = n_pes s" using map_eq_imp_length_eq [OF assms(3)] by (simp add: n_pes_def)
  have "t_data (pp_states t ! i) = t_data (pp_states s ! i) \<and> t_retained (pp_states t ! i) = t_retained (pp_states s ! i)"
    if "i < n_pes s" for i
    using arg_cong [OF assms(3), of "\<lambda>xs. xs ! i"] that n by (simp add: n_pes_def)
  then show ?thesis
    using assms(1,2) n by (simp add: channels_def channel_at_def peer_of_def)
qed

lemma channels_queue:
  assumes "channels env c data fly s" and "p < n_pes s"
  shows "q_head (pm_queue (pp_mems s ! p)) \<noteq> kTail \<longleftrightarrow> fly p"
proof -
  obtain i where "i < n_pes s" "peer_of i s = p" using peer_surj [OF assms(2)] by (auto simp: peer_of_def)
  then have "channel_at env c (length data) (fly p) s i" using assms(1) by (auto simp: channels_def)
  with \<open>peer_of i s = p\<close> show ?thesis
    by (auto simp: channel_at_def channel_def travels_def qrepr_def real_addr_def split: if_splits)
qed

lemma channel_at_frame:
  assumes "n_pes t = n_pes s" and "t_retained (pp_states t ! i) (peer_of i s) = t_retained (pp_states s ! i) (peer_of i s)"
    and "pp_mems t ! peer_of i s = pp_mems s ! peer_of i s"
  shows "channel_at env c m fly t i = channel_at env c m fly s i"
  using assms by (simp add: channel_at_def peer_of_def)

lemma n_pes_simps [simp]:
  "n_pes (s\<lparr>pp_mems := ms\<rparr>) = n_pes s" "n_pes (s\<lparr>pp_modes := mo\<rparr>) = n_pes s" "n_pes (s\<lparr>pp_net := ne\<rparr>) = n_pes s"
  "n_pes (s\<lparr>pp_states := (pp_states s)[p := st]\<rparr>) = n_pes s" "n_pes (upd_state p g s) = n_pes s"
  by (simp_all add: n_pes_def upd_state_def)

text \<open>What a send leaves as it is.\<close>

definition sent_from :: "ppsys \<Rightarrow> ppsys \<Rightarrow> bool" where
  "sent_from s t \<longleftrightarrow> n_pes t = n_pes s \<and> pp_modes t = pp_modes s \<and> pp_net t = pp_net s \<and>
     (\<forall>i<n_pes s. t_warmup (pp_states t ! i) = t_warmup (pp_states s ! i) \<and>
        t_nIters (pp_states t ! i) = t_nIters (pp_states s ! i) \<and> t_it (pp_states t ! i) = t_it (pp_states s ! i))"

lemma sent_fromD:
  assumes "sent_from s t"
  shows "n_pes t = n_pes s" and "pp_modes t = pp_modes s" and "pp_net t = pp_net s"
    and "i < n_pes s \<Longrightarrow> t_warmup (pp_states t ! i) = t_warmup (pp_states s ! i)"
    and "i < n_pes s \<Longrightarrow> t_nIters (pp_states t ! i) = t_nIters (pp_states s ! i)"
    and "i < n_pes s \<Longrightarrow> t_it (pp_states t ! i) = t_it (pp_states s ! i)"
  using assms by (simp_all add: sent_from_def)

lemma send_effect:
  assumes e: "env_ok env n" and n: "n_pes s = n" "me < n" and c: "c < 25" "kCutOffPoints ! c = of_nat (length data)"
    and ch: "channels env c data (\<lambda>_. False) s"
  shows "\<exists>t. send_to_peer env me s = Some (Inr t) \<and> channels env c data (\<lambda>p. p = Suc me mod n) t \<and> sent_from s t"
proof -
  let ?p = "Suc me mod n" and ?st = "pp_states s ! me"
  have p: "peer_of me s = ?p" "?p < n" using n by (auto simp: peer_of_def)
  have f: "e_fuel env = Suc (e_fuel env - 1)" using e by (simp add: env_ok_def)
  have l: "length (pp_mems s) = n" "length (pp_states s) = n" "t_data ?st = data"
    using ch n by (auto simp: channels_def n_pes_def)
  have pe: "q_pe (pm_queue (pp_mems s ! i)) = int i" if "i < n" for i using ch n that by (auto simp: channels_def)
  have "channel c (length data) (e_view env ?p (int me)) False (t_retained ?st ?p) (pp_mems s ! ?p)"
    using ch n p by (auto simp: channels_def channel_at_def)
  moreover have "own_view (e_view env ?p) (int me) (pm_queue (pp_mems s ! ?p))"
    unfolding own_view_def pe [OF p(2)] using e n(2) by (auto simp: env_ok_def)
  moreover have "xlat_ok (e_view env ?p) (e_xlat env me ?p) (int me)" using e n(2) by (simp add: env_ok_def)
  ultimately obtain r mem where r: "send_xpmem (e_fuel env) (e_view env ?p) (e_xlat env me ?p) (int me) data
        (t_retained ?st ?p, pp_mems s ! ?p) = Some (Inr (r, mem))"
      "channel c (length data) (e_view env ?p (int me)) True r mem" "q_pe (pm_queue mem) = int ?p"
    using send_channel [OF _ _ c, of "e_view env ?p" "int me" "t_retained ?st ?p" "pp_mems s ! ?p" "e_xlat env me ?p"
        "e_fuel env - 1"] f pe [OF p(2)] by metis
  let ?t = "s\<lparr>pp_states := (pp_states s)[me := ?st\<lparr>t_retained := (t_retained ?st)(?p := r)\<rparr>], pp_mems := (pp_mems s)[?p := mem]\<rparr>"
  have nt: "n_pes ?t = n" using n by (simp add: n_pes_def)
  have "send_to_peer env me s = Some (Inr ?t)"
    using r(1) l(3) p(1) by (simp add: send_to_peer_def Let_def)
  moreover have "channel_at env c (length data) (peer_of i ?t = ?p) ?t i" if i: "i < n" for i
  proof (cases "i = me")
    case True
    then show ?thesis using r(2) n l p by (simp add: channel_at_def peer_of_def nt)
  next
    case False
    then have "peer_of i ?t \<noteq> ?p" using peer_inj [OF i n(2)] nt by (auto simp: peer_of_def)
    moreover from this have "channel_at env c (length data) False ?t i = channel_at env c (length data) False s i"
      using False n nt by (intro channel_at_frame) (auto simp: peer_of_def)
    ultimately show ?thesis using ch i n by (simp add: channels_def)
  qed
  moreover have "t_data (pp_states ?t ! i) = data \<and> q_pe (pm_queue (pp_mems ?t ! i)) = int i" if "i < n" for i
    using that ch n l r(3) p(2) by (cases "i = me"; cases "i = ?p") (auto simp: channels_def)
  moreover have "sent_from s ?t" using n l by (simp add: sent_from_def nth_list_update)
  ultimately show ?thesis using l nt by (intro exI [of _ ?t]) (simp add: channels_def)
qed

lemma take_effect:
  assumes n: "n_pes s = n" "p < n" and ch: "channels env c data (\<lambda>q. q = p) s"
  shows "\<exists>a mem1 mem2. take_block (int p) (pp_mems s ! p) = Inr (a, mem1) \<and> a \<noteq> 0 \<and> release_block a mem1 = Inr mem2 \<and>
    channels env c data (\<lambda>_. False) (s\<lparr>pp_mems := (pp_mems s)[p := mem2]\<rparr>)"
proof -
  obtain i where i: "i < n" "peer_of i s = p" using peer_surj [OF n(2)] n(1) by (auto simp: peer_of_def)
  then have c: "channel c (length data) (e_view env p (int i)) True (t_retained (pp_states s ! i) p) (pp_mems s ! p)"
    using ch n(1) by (auto simp: channels_def channel_at_def)
  have l: "length (pp_mems s) = n" using ch n by (simp add: channels_def)
  obtain a mem1 mem2 where t: "take_block (int p) (pp_mems s ! p) = Inr (a, mem1)" "a \<noteq> 0" "release_block a mem1 = Inr mem2"
    "channel c (length data) (e_view env p (int i)) False (t_retained (pp_states s ! i) p) mem2"
    "q_pe (pm_queue mem2) = q_pe (pm_queue (pp_mems s ! p))"
    using take_channel [OF c] by blast
  let ?t = "s\<lparr>pp_mems := (pp_mems s)[p := mem2]\<rparr>"
  have "channel_at env c (length data) False ?t j" if j: "j < n" for j
  proof (cases "j = i")
    case True
    then show ?thesis using t(4) i n l by (simp add: channel_at_def peer_of_def)
  next
    case False
    then have "peer_of j s \<noteq> p" using peer_inj [OF j i(1)] i(2) n(1) by (auto simp: peer_of_def)
    moreover from this have "channel_at env c (length data) False ?t j = channel_at env c (length data) False s j"
      by (intro channel_at_frame) auto
    moreover have "channel_at env c (length data) (peer_of j s = p) s j" using ch j n by (simp add: channels_def)
    ultimately show ?thesis by simp
  qed
  moreover have "t_data (pp_states ?t ! j) = data \<and> q_pe (pm_queue (pp_mems ?t ! j)) = int j" if "j < n" for j
    using that ch n l t(5) by (cases "j = p") (auto simp: channels_def)
  ultimately have "channels env c data (\<lambda>_. False) ?t" using l n by (simp add: channels_def)
  with t(1-3) show ?thesis by blast
qed

section \<open>The course of the test\<close>

text \<open>
  Where the test is. \<open>PPlain w k j\<close>: the message is on its way to process \<open>j mod n\<close> in round \<open>k\<close>, \<open>w\<close> says whether this is the
  warm-up; \<open>PWait w S\<close>: the processes \<open>S\<close>, 0 among them, have not started the shared-memory series;
  \<open>PSeries w k j S\<close>: the block is in the queue of process \<open>j mod n\<close>; \<open>PExit S\<close>: the processes \<open>S\<close> have not left.
\<close>

datatype phase = PStart | PPlain bool nat nat | PWait bool "nat set" | PSeries bool nat nat "nat set" | PExit "nat set"

fun pphase_ok :: "nat \<Rightarrow> nat \<Rightarrow> phase \<Rightarrow> bool" where
  "pphase_ok n m PStart = True"
| "pphase_ok n m (PPlain w k j) = (k < m \<and> 0 < j \<and> j \<le> n)"
| "pphase_ok n m (PWait w S) = (0 \<in> S \<and> S \<subseteq> {..<n})"
| "pphase_ok n m (PSeries w k j S) = (k < m \<and> 0 < j \<and> j \<le> n \<and> S \<subseteq> {j..<n} \<and> (0 < k \<longrightarrow> S = {}))"
| "pphase_ok n m (PExit S) = (S \<subseteq> {..<n})"

fun mode_in :: "nat \<Rightarrow> phase \<Rightarrow> nat \<Rightarrow> pe_mode" where
  "mode_in m PStart i = Idle"
| "mode_in m (PPlain w k j) i = Idle"
| "mode_in m (PWait w S) i = (if i \<in> S then Idle else Polling)"
| "mode_in m (PSeries w k j S) i = (if i \<in> S \<or> 0 < i \<and> i < j \<and> Suc k = m then Idle else Polling)"
| "mode_in m (PExit S) i = (if i \<in> S then Idle else Exited)"

fun net_in :: "nat \<Rightarrow> u8 list \<Rightarrow> phase \<Rightarrow> (nat \<times> handler) multiset" where
  "net_in n data PStart = {#(0, StartPlain)#}"
| "net_in n data (PPlain w k j) = {#(j mod n, RecvPlain data)#}"
| "net_in n data (PWait w S) = image_mset (\<lambda>i. (i, StartXpmem)) (mset_set S)"
| "net_in n data (PSeries w k j S) = image_mset (\<lambda>i. (i, StartXpmem)) (mset_set S)"
| "net_in n data (PExit S) = image_mset (\<lambda>i. (i, ExitMsg)) (mset_set S)"

fun it_in :: "phase \<Rightarrow> nat \<Rightarrow> nat option" where
  "it_in PStart i = None"
| "it_in (PPlain w k j) i = (if i = 0 then Some k else None)"
| "it_in (PWait w S) i = (if i \<in> S then None else Some 0)"
| "it_in (PSeries w k j S) i = (if i \<in> S then None else if 0 < i \<and> i < j then Some (Suc k) else Some k)"
| "it_in (PExit S) i = None"

fun warm_in :: "phase \<Rightarrow> bool option" where
  "warm_in PStart = Some True"
| "warm_in (PPlain w k j) = Some w"
| "warm_in (PWait w S) = Some w"
| "warm_in (PSeries w k j S) = Some w"
| "warm_in (PExit S) = None"

fun fly_in :: "nat \<Rightarrow> phase \<Rightarrow> nat \<Rightarrow> bool" where
  "fly_in n (PSeries w k j S) p = (p = j mod n)"
| "fly_in n ph p = False"

lemma fly_simps [simp]:
  "fly_in n PStart = (\<lambda>_. False)" "fly_in n (PPlain w k j) = (\<lambda>_. False)" "fly_in n (PWait w S) = (\<lambda>_. False)"
  "fly_in n (PSeries w k j S) = (\<lambda>p. p = j mod n)" "fly_in n (PExit S) = (\<lambda>_. False)"
  by (auto simp: fun_eq_iff)

text \<open>The events still to come.\<close>

fun left_in :: "nat \<Rightarrow> nat \<Rightarrow> phase \<Rightarrow> nat" where
  "left_in n m PStart = 1 + 4 * n * m + 3 * n"
| "left_in n m (PPlain w k j) = (m - Suc k) * n + (n - j) + 1 + n + n * m + (if w then 2 * n * m + 2 * n else n)"
| "left_in n m (PWait w S) = card S + n * m + (if w then 2 * n * m + 2 * n else n)"
| "left_in n m (PSeries w k j S) = card S + (m - Suc k) * n + (n - j) + 1 + (if w then 2 * n * m + 2 * n else n)"
| "left_in n m (PExit S) = card S"

definition procs_in :: "nat \<Rightarrow> nat \<Rightarrow> u8 list \<Rightarrow> phase \<Rightarrow> ppsys \<Rightarrow> bool" where
  "procs_in n m data ph s \<longleftrightarrow> n_pes s = n \<and> length (pp_modes s) = n \<and> pp_net s = net_in n data ph \<and>
     (\<forall>i<n. pp_modes s ! i = mode_in m ph i \<and> t_nIters (pp_states s ! i) = int m \<and>
        (\<forall>k. it_in ph i = Some k \<longrightarrow> t_it (pp_states s ! i) = int k)) \<and>
     (\<forall>w. warm_in ph = Some w \<longrightarrow> t_warmup (pp_states s ! 0) = w)"

definition sys_in :: "ppenv \<Rightarrow> nat \<Rightarrow> nat \<Rightarrow> nat \<Rightarrow> u8 list \<Rightarrow> phase \<Rightarrow> ppsys \<Rightarrow> bool" where
  "sys_in env c n m data ph s \<longleftrightarrow> 0 < n \<and> 0 < m \<and> pphase_ok n m ph \<and> procs_in n m data ph s \<and> channels env c data (fly_in n ph) s"

lemma channels_simps [simp]:
  "channels env c data fly (s\<lparr>pp_net := ne\<rparr>) = channels env c data fly s"
  "channels env c data fly (s\<lparr>pp_modes := mo\<rparr>) = channels env c data fly s"
  by (simp_all add: channels_def channel_at_def peer_of_def)

lemma upd_state_nth: "p < n_pes s \<Longrightarrow> pp_states (upd_state p g s) ! i = (if i = p then g (pp_states s ! p) else pp_states s ! i)"
  by (simp add: upd_state_def n_pes_def)

lemma upd_state_other [simp]:
  "pp_mems (upd_state p g s) = pp_mems s" "pp_modes (upd_state p g s) = pp_modes s" "pp_net (upd_state p g s) = pp_net s"
  by (simp_all add: upd_state_def)

lemma channels_upd_state:
  assumes "p < n_pes s" and "\<And>st. t_data (g st) = t_data st \<and> t_retained (g st) = t_retained st"
  shows "channels env c data fly (upd_state p g s) = channels env c data fly s"
  using assms by (auto simp: channels_def channel_at_def peer_of_def upd_state_nth)

lemma channels_reset [simp]: "p < n_pes s \<Longrightarrow> channels env c data fly (reset_state p s) = channels env c data fly s"
  unfolding reset_state_def by (rule channels_upd_state) simp_all

lemma channels_start_plain [simp]: "p < n_pes s \<Longrightarrow> channels env c data fly (start_plain p s) = channels env c data fly s"
  by (simp add: start_plain_def)

lemma net_take:
  assumes "finite S" and "(p, h) \<in># image_mset (\<lambda>i. (i, x)) (mset_set S)"
  shows "p \<in> S" and "h = x"
    and "image_mset (\<lambda>i. (i, x)) (mset_set S) - {#(p, h)#} = image_mset (\<lambda>i. (i, x)) (mset_set (S - {p}))"
proof -
  show *: "p \<in> S" "h = x" using assms by auto
  show "image_mset (\<lambda>i. (i, x)) (mset_set S) - {#(p, h)#} = image_mset (\<lambda>i. (i, x)) (mset_set (S - {p}))"
    using mset_set.remove [OF assms(1) *(1)] *(2) by simp
qed

lemma sys_inD:
  assumes "sys_in env c n m data ph s"
  shows "0 < n" and "0 < m" and "pphase_ok n m ph" and "n_pes s = n" and "length (pp_modes s) = n"
    and "pp_net s = net_in n data ph" and "i < n \<Longrightarrow> pp_modes s ! i = mode_in m ph i"
    and "i < n \<Longrightarrow> t_nIters (pp_states s ! i) = int m" and "i < n \<Longrightarrow> t_data (pp_states s ! i) = data"
    and "i < n \<Longrightarrow> it_in ph i = Some k \<Longrightarrow> t_it (pp_states s ! i) = int k"
    and "warm_in ph = Some w \<Longrightarrow> t_warmup (pp_states s ! 0) = w" and "channels env c data (fly_in n ph) s"
  using assms by (auto simp: sys_in_def procs_in_def channels_def)

lemma sys_inI:
  assumes "0 < n" and "0 < m" and "pphase_ok n m ph" and "n_pes t = n" and "length (pp_modes t) = n"
    and "pp_net t = net_in n data ph" and "\<And>i. i < n \<Longrightarrow> pp_modes t ! i = mode_in m ph i"
    and "\<And>i. i < n \<Longrightarrow> t_nIters (pp_states t ! i) = int m"
    and "\<And>i k. i < n \<Longrightarrow> it_in ph i = Some k \<Longrightarrow> t_it (pp_states t ! i) = int k"
    and "\<And>w. warm_in ph = Some w \<Longrightarrow> t_warmup (pp_states t ! 0) = w" and "channels env c data (fly_in n ph) t"
  shows "sys_in env c n m data ph t"
  using assms by (simp add: sys_in_def procs_in_def)

text \<open>One event: what follows it, and that one event less is left.\<close>

definition goes_on :: "ppenv \<Rightarrow> nat \<Rightarrow> nat \<Rightarrow> nat \<Rightarrow> u8 list \<Rightarrow> phase \<Rightarrow> ppsys run \<Rightarrow> bool" where
  "goes_on env c n m data ph r \<longleftrightarrow>
     (\<exists>t ph'. r = Some (Inr t) \<and> sys_in env c n m data ph' t \<and> left_in n m ph = Suc (left_in n m ph'))"

lemma goes_onI:
  assumes "r = Some (Inr t)" and "sys_in env c n m data ph' t" and "left_in n m ph = Suc (left_in n m ph')"
  shows "goes_on env c n m data ph r"
  using assms by (auto simp: goes_on_def)

lemma event_start:
  assumes s: "sys_in env c n m data PStart s" and e: "pp_event env s r"
  shows "goes_on env c n m data PStart r"
  using e
proof cases
  case (deliver p h)
  have p: "p = 0" "h = StartPlain" using deliver(2) sys_inD(6) [OF s] by simp_all
  let ?t = "start_plain 0 (s\<lparr>pp_net := {#}\<rparr>)"
  have n: "0 < n" "n_pes s = n" using sys_inD(1,4) [OF s] .
  have "r = Some (Inr ?t)" using deliver(1) p sys_inD(6) [OF s] by simp
  moreover have "sys_in env c n m data (PPlain True 0 1) ?t"
    by (rule sys_inI) (use n sys_inD(2,5,7-9,11,12) [OF s] in
      \<open>simp_all add: start_plain_def reset_state_def upd_state_nth peer_of_def channels_upd_state split: if_splits\<close>)
  ultimately show ?thesis
    by (rule goes_onI) (use sys_inD(2) [OF s] n(1) in \<open>cases m; simp add: algebra_simps\<close>)
next
  case (poll p)
  then show ?thesis using sys_inD(4,7) [OF s] by auto
qed

lemma event_exit:
  assumes s: "sys_in env c n m data (PExit S) s" and e: "pp_event env s r"
  shows "goes_on env c n m data (PExit S) r"
  using e
proof cases
  case (deliver p h)
  have S: "S \<subseteq> {..<n}" "finite S" using sys_inD(3) [OF s] finite_subset by auto
  have p: "p \<in> S" "h = ExitMsg" "pp_net s - {#(p, h)#} = net_in n data (PExit (S - {p}))"
    using net_take [OF S(2), of p h ExitMsg] deliver(2) sys_inD(6) [OF s] by simp_all
  let ?t = "handle_exit p (s\<lparr>pp_net := net_in n data (PExit (S - {p}))\<rparr>)"
  have "r = Some (Inr ?t)" using deliver(1) p by simp
  moreover have "sys_in env c n m data (PExit (S - {p})) ?t"
    by (rule sys_inI) (use S p(1) sys_inD(1,2,4,5,7,8,12) [OF s] in
      \<open>auto simp: handle_exit_def nth_list_update\<close>)
  ultimately show ?thesis
    by (rule goes_onI) (use card.remove [OF S(2) p(1)] in simp)
next
  case (poll p)
  then show ?thesis using sys_inD(4,7) [OF s] by (auto split: if_splits)
qed

lemma event_plain:
  assumes s: "sys_in env c n m data (PPlain w k j) s" and e: "pp_event env s r"
  shows "goes_on env c n m data (PPlain w k j) r"
  using e
proof cases
  case (deliver p h)
  have n: "0 < n" "0 < m" "n_pes s = n" "k < m" "0 < j" "j \<le> n" using sys_inD(1-4) [OF s] by simp_all
  have p: "p = j mod n" "h = RecvPlain data" using deliver(2) sys_inD(6) [OF s] by simp_all
  let ?s = "s\<lparr>pp_net := {#}\<rparr>"
  have r: "r = Some (Inr (recv_plain p data ?s))" using deliver(1) p sys_inD(6) [OF s] by simp
  show ?thesis
  proof (cases "j = n")
    case False
    then have "p = j" "p \<noteq> 0" "j < n" using n p by simp_all
    have "sys_in env c n m data (PPlain w k (Suc j)) (recv_plain p data ?s)"
      by (rule sys_inI) (use n sys_inD(5,7-12) [OF s] \<open>p = j\<close> \<open>p \<noteq> 0\<close> \<open>j < n\<close> in
        \<open>simp_all add: recv_plain_def peer_of_def split: if_splits\<close>)
    then show ?thesis
      by (rule goes_onI [OF r]) (use \<open>j < n\<close> in simp)
  next
    case True
    then have p0: "p = 0" using p by simp
    let ?s1 = "upd_state 0 (\<lambda>st. st\<lparr>t_it := t_it st + 1\<rparr>) ?s"
    have it: "t_it (pp_states s ! 0) = int k" "t_nIters (pp_states s ! 0) = int m"
      using sys_inD(8,10) [OF s, of 0] n by simp_all
    have fin: "recv_common True 0 ?s = (Suc k = m, if Suc k = m then send_signal (-1) StartXpmem ?s1 else ?s1)"
      using n it by (auto simp: recv_common_def upd_state_nth test_finish_def)
    show ?thesis
    proof (cases "Suc k = m")
      case True
      have t: "sys_in env c n m data (PWait w {..<n}) (send_signal (-1) StartXpmem ?s1)"
        by (rule sys_inI) (use n sys_inD(5,7,8,11,12) [OF s] in
          \<open>simp_all add: send_signal_def atLeast0LessThan upd_state_nth channels_upd_state split: if_splits\<close>)
      have "r = Some (Inr (send_signal (-1) StartXpmem ?s1))" using r True p0 by (simp add: recv_plain_def fin)
      then show ?thesis
        by (rule goes_onI [OF _ t]) (use True n \<open>j = n\<close> in simp)
    next
      case False
      let ?t = "?s1\<lparr>pp_net := {#(1 mod n, RecvPlain data)#}\<rparr>"
      have rt: "r = Some (Inr ?t)"
        using r p0 False n sys_inD(9) [OF s, of 0]
        by (simp add: recv_plain_def fin upd_state_nth peer_of_def Let_def)
      have t: "sys_in env c n m data (PPlain w (Suc k) 1) ?t"
        by (rule sys_inI) (use False n it sys_inD(5,7,8,11,12) [OF s] in
          \<open>simp_all add: upd_state_nth channels_upd_state split: if_splits\<close>)
      have "m - Suc k = Suc (m - Suc (Suc k))" using False n by simp
      then show ?thesis
        by (intro goes_onI [OF rt t]) (use n \<open>j = n\<close> in simp)
    qed
  qed
next
  case (poll p)
  then show ?thesis using sys_inD(4,7) [OF s] by auto
qed

lemma event_wait:
  assumes s: "sys_in env c n m data (PWait w S) s" and e: "pp_event env s r"
    and env: "env_ok env n" and c: "c < 25" "kCutOffPoints ! c = of_nat (length data)"
  shows "goes_on env c n m data (PWait w S) r"
  using e
proof cases
  case (deliver p h)
  have n: "0 < n" "0 < m" "n_pes s = n" using sys_inD(1,2,4) [OF s] .
  have S: "0 \<in> S" "S \<subseteq> {..<n}" "finite S" using sys_inD(3) [OF s] finite_subset by auto
  have p: "p \<in> S" "h = StartXpmem" "pp_net s - {#(p, h)#} = net_in n data (PWait w (S - {p}))"
    using net_take [OF S(3), of p h StartXpmem] deliver(2) sys_inD(6) [OF s] by simp_all
  let ?s = "reset_state p (s\<lparr>pp_net := net_in n data (PWait w (S - {p}))\<rparr>)"
  have ch: "channels env c data (\<lambda>_. False) ?s" using sys_inD(12) [OF s] deliver(3) by simp
  have ns: "n_pes ?s = n" using n by (simp add: reset_state_def)
  have pn: "p < n" using S(2) p(1) by auto
  obtain d where card: "card S = Suc d" "card (S - {p}) = d" using card.remove [OF S(3) p(1)] by blast
  show ?thesis
  proof (cases "p = 0")
    case False
    let ?t = "?s\<lparr>pp_modes := (pp_modes ?s)[p := Polling]\<rparr>"
    have "r = Some (Inr ?t)" using deliver(1) p False by (simp add: start_xpmem_def)
    moreover have "sys_in env c n m data (PWait w (S - {p})) ?t"
      by (rule sys_inI) (use n S False p(1) pn ch ns sys_inD(5,7,8,10,11) [OF s] in
        \<open>auto simp: reset_state_def upd_state_nth nth_list_update split: if_splits\<close>)
    ultimately show ?thesis by (rule goes_onI) (use card in simp)
  next
    case True
    obtain t where t: "send_to_peer env p ?s = Some (Inr t)" "channels env c data (\<lambda>q. q = Suc p mod n) t" "sent_from ?s t"
      using send_effect [OF env ns pn c ch] by blast
    note f = sent_fromD [OF t(3), unfolded ns]
    let ?t = "t\<lparr>pp_modes := (pp_modes t)[p := Polling]\<rparr>"
    have "r = Some (Inr ?t)" using deliver(1) p True t(1) by (simp add: start_xpmem_def)
    moreover have "sys_in env c n m data (PSeries w 0 1 (S - {0})) ?t"
    proof (rule sys_inI)
      show "pphase_ok n m (PSeries w 0 1 (S - {0}))" using n S by (auto simp: Suc_le_eq)
      show "length (pp_modes ?t) = n" "pp_net ?t = net_in n data (PSeries w 0 1 (S - {0}))"
        using True sys_inD(5) [OF s] by (simp_all add: f reset_state_def)
      show "pp_modes ?t ! i = mode_in m (PSeries w 0 1 (S - {0})) i" if "i < n" for i
        using that True sys_inD(5,7) [OF s] by (auto simp: f reset_state_def nth_list_update)
      show "t_nIters (pp_states ?t ! i) = int m" if "i < n" for i
        using that True n sys_inD(8) [OF s] by (simp add: f reset_state_def upd_state_nth)
      show "t_it (pp_states ?t ! i) = int k" if "i < n" "it_in (PSeries w 0 1 (S - {0})) i = Some k" for i k
        using that True n sys_inD(10) [OF s, of i 0] by (auto simp: f reset_state_def upd_state_nth split: if_splits)
      show "t_warmup (pp_states ?t ! 0) = v" if "warm_in (PSeries w 0 1 (S - {0})) = Some v" for v
        using that True n sys_inD(11) [OF s, of w] by (simp add: f reset_state_def upd_state_nth)
    qed (use n t(2) True f ns in simp_all)
    ultimately show ?thesis
      by (rule goes_onI) (use card [unfolded True] n in \<open>cases m; simp del: card_Diff_singleton card_Diff_singleton_if card_Diff_insert\<close>)
  qed
next
  case (poll p)
  then show ?thesis using channels_queue [OF sys_inD(12) [OF s]] by simp
qed

lemma event_series:
  assumes s: "sys_in env c n m data (PSeries w k j S) s" and e: "pp_event env s r"
    and env: "env_ok env n" and c: "c < 25" "kCutOffPoints ! c = of_nat (length data)"
  shows "goes_on env c n m data (PSeries w k j S) r"
  using e
proof cases
  case (deliver p h)
  have n: "0 < n" "0 < m" "n_pes s = n" "k < m" "0 < j" "j \<le> n" using sys_inD(1-4) [OF s] by simp_all
  have S: "S \<subseteq> {j..<n}" "finite S" "0 < k \<longrightarrow> S = {}" using sys_inD(3) [OF s] finite_subset by auto
  have p: "p \<in> S" "h = StartXpmem" "pp_net s - {#(p, h)#} = net_in n data (PSeries w k j (S - {p}))"
    using net_take [OF S(2), of p h StartXpmem] deliver(2) sys_inD(6) [OF s] by simp_all
  have pn: "p < n" "p \<noteq> 0" "\<not> p < j" "k = 0" using S p(1) n by auto
  let ?s = "reset_state p (s\<lparr>pp_net := net_in n data (PSeries w k j (S - {p}))\<rparr>)"
  let ?t = "?s\<lparr>pp_modes := (pp_modes ?s)[p := Polling]\<rparr>"
  have r: "r = Some (Inr ?t)" using deliver(1) p pn(2) by (simp add: start_xpmem_def)
  have t: "sys_in env c n m data (PSeries w k j (S - {p})) ?t"
  proof (rule sys_inI)
    show "pphase_ok n m (PSeries w k j (S - {p}))" using n S by auto
    show "pp_modes ?t ! i = mode_in m (PSeries w k j (S - {p})) i" if "i < n" for i
      using that pn sys_inD(5,7) [OF s] by (auto simp: reset_state_def nth_list_update)
    show "t_nIters (pp_states ?t ! i) = int m" if "i < n" for i
      using that pn n sys_inD(8) [OF s] by (simp add: reset_state_def upd_state_nth)
    show "t_it (pp_states ?t ! i) = int v" if "i < n" "it_in (PSeries w k j (S - {p})) i = Some v" for i v
      using that pn n sys_inD(10) [OF s, of i v] by (auto simp: reset_state_def upd_state_nth split: if_splits)
    show "t_warmup (pp_states ?t ! 0) = v" if "warm_in (PSeries w k j (S - {p})) = Some v" for v
      using that pn n sys_inD(11) [OF s, of w] by (simp add: reset_state_def upd_state_nth)
  qed (use n pn sys_inD(5,12) [OF s] in \<open>simp_all add: reset_state_def channels_upd_state\<close>)
  show ?thesis
    by (rule goes_onI [OF r t]) (use card.remove [OF S(2) p(1)] in simp)
next
  case (poll p)
  have n: "0 < n" "0 < m" "n_pes s = n" "k < m" "0 < j" "j \<le> n" using sys_inD(1-4) [OF s] by simp_all
  have S: "S \<subseteq> {j..<n}" "0 < k \<longrightarrow> S = {}" using sys_inD(3) [OF s] by simp_all
  have p: "p = j mod n" using channels_queue [OF sys_inD(12) [OF s] poll(2)] poll(4) by simp
  have pn: "p < n" using p n by simp
  have pS: "p \<notin> S" using sys_inD(7) [OF s pn] poll(3) by (auto split: if_splits)
  have ch: "channels env c data (\<lambda>q. q = p) s" using sys_inD(12) [OF s] p by simp
  obtain a mem1 mem2 where tk: "take_block (int p) (pp_mems s ! p) = Inr (a, mem1)" "a \<noteq> 0" "release_block a mem1 = Inr mem2"
    and ch2: "channels env c data (\<lambda>_. False) (s\<lparr>pp_mems := (pp_mems s)[p := mem2]\<rparr>)"
    using take_effect [OF n(3) pn ch] by blast
  let ?s = "s\<lparr>pp_mems := (pp_mems s)[p := mem2]\<rparr>"
  let ?s1 = "upd_state p (\<lambda>st. st\<lparr>t_it := t_it st + 1\<rparr>) ?s"
  have l: "length (pp_mems s) = n" using ch n by (simp add: channels_def)
  have it: "t_it (pp_states s ! p) = int k"
    using sys_inD(10) [OF s pn, of k] pS p n by (cases "j = n") auto
  have rc: "recv_common False p ?s = (Suc k = m, if Suc k = m \<and> p = 0 then test_finish False 0 ?s1 else ?s1)"
    using n pn it sys_inD(8) [OF s pn] by (auto simp: recv_common_def upd_state_nth)
  have r: "r = bind_run (if Suc k = m \<and> p = 0 then Some (Inr (False, test_finish False 0 ?s1))
        else bind_run (send_to_peer env p ?s1) (\<lambda>s2. Some (Inr (Suc k \<noteq> m, s2))))
      (\<lambda>(status, s2). Some (Inr (s2\<lparr>pp_modes := (pp_modes s2)[p := if status then Polling else Idle]\<rparr>)))"
    using tk l pn by (simp add: poll(1) poll_queue_def recv_xpmem_def rc Let_def)
  have ch1: "channels env c data (\<lambda>_. False) ?s1" using ch2 n pn by (simp add: channels_upd_state)
  have ns1: "n_pes ?s1 = n" using n by simp
  show ?thesis
  proof (cases "Suc k = m \<and> p = 0")
    case True
    then have j: "j = n" "S = {}" using p n S by auto
    let ?t = "(test_finish False 0 ?s1)\<lparr>pp_modes := (pp_modes s)[0 := Idle]\<rparr>"
    have tf: "pp_modes (test_finish False 0 ?s1) = pp_modes s"
      by (simp add: test_finish_def start_plain_def reset_state_def send_signal_def)
    have rt: "r = Some (Inr ?t)" unfolding r using True tf by simp
    have mo: "(pp_modes s)[0 := Idle] ! i = Idle" if "i < n" for i
      using that True j sys_inD(5,7) [OF s] by (auto simp: nth_list_update)
    have w1: "t_warmup (pp_states ?s1 ! 0) = w" using n True sys_inD(11) [OF s, of w] by (simp add: upd_state_nth)
    show ?thesis
    proof (cases w)
      case True
      let ?s2 = "upd_state 0 (\<lambda>st. st\<lparr>t_warmup := False\<rparr>) ?s1"
      have tf2: "test_finish False 0 ?s1 = start_plain 0 ?s2" using w1 True by (simp add: test_finish_def)
      have "sys_in env c n m data (PPlain False 0 1) ?t"
        unfolding tf2
      proof (rule sys_inI)
        show "pp_net ((start_plain 0 ?s2)\<lparr>pp_modes := (pp_modes s)[0 := Idle]\<rparr>) = net_in n data (PPlain False 0 1)"
          using n pn j sys_inD(6) [OF s] sys_inD(9) [OF s, of 0] by (simp add: start_plain_def peer_of_def upd_state_nth)
      qed (use n pn mo sys_inD(5,8) [OF s] ch1 in
        \<open>simp_all add: start_plain_def reset_state_def upd_state_nth channels_upd_state split: if_splits\<close>)
      then show ?thesis
        by (rule goes_onI [OF rt]) (use True j n \<open>Suc k = m \<and> p = 0\<close> in \<open>cases m; simp add: algebra_simps\<close>)
    next
      case False
      have tf2: "test_finish False 0 ?s1 = send_signal (-1) ExitMsg ?s1" using w1 False by (simp add: test_finish_def)
      have "sys_in env c n m data (PExit {..<n}) ?t"
        unfolding tf2
        by (rule sys_inI) (use n pn j mo sys_inD(5,6,8) [OF s] ch1 \<open>Suc k = m \<and> p = 0\<close> in
          \<open>simp_all add: send_signal_def atLeast0LessThan upd_state_nth split: if_splits\<close>)
      then show ?thesis
        by (rule goes_onI [OF rt]) (use False j n \<open>Suc k = m \<and> p = 0\<close> in simp)
    qed
  next
    case False
    obtain t where t: "send_to_peer env p ?s1 = Some (Inr t)" "channels env c data (\<lambda>q. q = Suc p mod n) t" "sent_from ?s1 t"
      using send_effect [OF env ns1 pn c ch1] by blast
    note f = sent_fromD [OF t(3), unfolded ns1]
    let ?t = "t\<lparr>pp_modes := (pp_modes t)[p := if Suc k \<noteq> m then Polling else Idle]\<rparr>"
    have rt: "r = Some (Inr ?t)" unfolding r t(1) using False by auto
    define ph where "ph = (if j < n then PSeries w k (Suc j) S else PSeries w (Suc k) 1 {})"
    have jn: "j < n \<Longrightarrow> p = j" "\<not> j < n \<Longrightarrow> p = 0 \<and> j = n \<and> S = {} \<and> Suc k < m"
      using p n S False by (auto simp: not_less)
    have "sys_in env c n m data ph ?t"
    proof (rule sys_inI)
      have "S \<subseteq> {Suc j..<n}" if "j < n"
      proof
        fix x assume "x \<in> S"
        then have "j \<le> x" "x < n" "x \<noteq> j" using S(1) pS jn(1) [OF that] by auto
        then show "x \<in> {Suc j..<n}" by simp
      qed
      then show "pphase_ok n m ph" using n S(2) jn by (simp add: ph_def)
      show "pp_net ?t = net_in n data ph" using jn sys_inD(6) [OF s] by (auto simp: ph_def f)
      show "pp_modes ?t ! i = mode_in m ph i" if "i < n" for i
        using that n jn pS sys_inD(5,7) [OF s] by (auto simp: ph_def f nth_list_update less_Suc_eq)
      show "t_nIters (pp_states ?t ! i) = int m" if "i < n" for i
        using that pn n sys_inD(8) [OF s] by (simp add: f upd_state_nth)
      show "t_it (pp_states ?t ! i) = int v" if "i < n" "it_in ph i = Some v" for i v
        using that pn n jn it pS sys_inD(10) [OF s, of i "if i = p then v - 1 else v"]
        by (auto simp: ph_def f upd_state_nth less_Suc_eq split: if_splits)
      show "t_warmup (pp_states ?t ! 0) = v" if "warm_in ph = Some v" for v
        using that pn n sys_inD(11) [OF s, of w] by (simp add: ph_def f upd_state_nth split: if_splits)
      show "channels env c data (fly_in n ph) ?t" using t(2) p jn n by (cases "j < n") (auto simp: ph_def)
    qed (use n sys_inD(5) [OF s] in \<open>simp_all add: f\<close>)
    moreover have "left_in n m (PSeries w k j S) = Suc (left_in n m ph)"
      using jn n by (cases "j < n") (auto simp: ph_def Suc_diff_Suc [symmetric])
    ultimately show ?thesis by (rule goes_onI [OF rt])
  qed
qed

section \<open>Every run ends\<close>

lemma event_goes_on:
  assumes "sys_in env c n m data ph s" and "pp_event env s r"
    and "env_ok env n" and "c < 25" and "kCutOffPoints ! c = of_nat (length data)"
  shows "goes_on env c n m data ph r"
proof (cases ph)
  case PStart
  then show ?thesis using event_start assms(1,2) by blast
next
  case (PPlain w k j)
  then show ?thesis using event_plain assms(1,2) by blast
next
  case (PWait w S)
  then show ?thesis using event_wait assms by blast
next
  case (PSeries w k j S)
  then show ?thesis using event_series assms by blast
next
  case (PExit S)
  then show ?thesis using event_exit assms(1,2) by blast
qed

lemma deliverable:
  assumes "sys_in env c n m data ph s" and "(p, h) \<in># net_in n data ph" and "p < n" and "mode_in m ph p = Idle"
  shows "\<exists>r. pp_event env s r"
  using deliver [of p h s env] assms(2-4) sys_inD(4,6,7) [OF assms(1)] by auto

lemma event_left:
  assumes s: "sys_in env c n m data ph s" and l: "left_in n m ph \<noteq> 0"
  shows "\<exists>r. pp_event env s r"
proof (cases ph)
  case PStart
  then show ?thesis using deliverable [OF s, of 0 StartPlain] sys_inD(1) [OF s] by simp
next
  case (PPlain w k j)
  then show ?thesis using deliverable [OF s, of "j mod n" "RecvPlain data"] sys_inD(1) [OF s] by simp
next
  case (PWait w S)
  then have "0 \<in> S" "finite S" using sys_inD(3) [OF s] finite_subset by auto
  then show ?thesis using PWait deliverable [OF s, of 0 StartXpmem] sys_inD(1) [OF s] by simp
next
  case (PSeries w k j S)
  have S: "S \<subseteq> {j..<n}" "finite S" "0 < j" "j \<le> n" using sys_inD(3) [OF s] PSeries finite_subset by auto
  show ?thesis
  proof (cases "j mod n \<in> S")
    case True
    then show ?thesis using PSeries S(2) deliverable [OF s, of "j mod n" StartXpmem] sys_inD(1) [OF s] by simp
  next
    case False
    have p: "j mod n < n" using sys_inD(1) [OF s] by simp
    have "mode_in m ph (j mod n) = Polling" using False S(3,4) PSeries by (cases "j = n") auto
    moreover have "q_head (pm_queue (pp_mems s ! (j mod n))) \<noteq> kTail"
      using channels_queue [OF sys_inD(12) [OF s]] p PSeries sys_inD(4) [OF s] by simp
    ultimately show ?thesis
      using poll [of "j mod n" s env] p sys_inD(4,7) [OF s] by auto
  qed
next
  case (PExit S)
  then have S: "S \<subseteq> {..<n}" "finite S" using sys_inD(3) [OF s] finite_subset by auto
  then obtain p where "p \<in> S" using l PExit by (metis card.empty equals0I left_in.simps(5))
  then show ?thesis using PExit S deliverable [OF s, of p ExitMsg] by auto
qed

lemma left_zero:
  assumes s: "sys_in env c n m data ph s" and l: "left_in n m ph = 0"
  shows "pp_modes s = replicate n Exited \<and> pp_net s = {#}"
proof -
  obtain S where ph: "ph = PExit S"
    using l sys_inD(1) [OF s] by (cases ph) (simp_all split: if_splits)
  then have "finite S" using sys_inD(3) [OF s] finite_subset by auto
  then have "S = {}" using l ph by simp
  then have "pp_modes s ! i = Exited" if "i < n" for i using sys_inD(7) [OF s that] ph by simp
  then have "pp_modes s = replicate n Exited"
    using sys_inD(5) [OF s] by (intro nth_equalityI) auto
  then show ?thesis using sys_inD(6) [OF s] ph \<open>S = {}\<close> by simp
qed

lemma run_left:
  assumes "(pp_step env ^^ k) s t" and "sys_in env c n m data ph s"
    and "env_ok env n" and "c < 25" and "kCutOffPoints ! c = of_nat (length data)"
  shows "\<exists>ph'. sys_in env c n m data ph' t \<and> left_in n m ph = k + left_in n m ph'"
  using assms(1)
proof (induction k arbitrary: t)
  case 0
  then show ?case using assms(2) by auto
next
  case (Suc k)
  then obtain u where u: "(pp_step env ^^ k) s u" "pp_event env u (Some (Inr t))"
    by (auto simp: pp_step_def [abs_def] OO_def)
  then obtain ph' where 1: "sys_in env c n m data ph' u" "left_in n m ph = k + left_in n m ph'" using Suc.IH by blast
  then show ?case using event_goes_on [OF 1(1) u(2) assms(3-5)] by (auto simp: goes_on_def)
qed

lemma start_in:
  assumes "0 < n" and "0 < m" and "length mems = n"
    and "\<And>i v. i < n \<Longrightarrow> channel c (length data) v False 0 (mems ! i)" and "\<And>i. i < n \<Longrightarrow> q_pe (pm_queue (mems ! i)) = int i"
  shows "sys_in env c n m data (if n = 1 then PPlain True 0 1 else PStart) (pp_start n data (int m) its mems)"
proof -
  define s0 where "s0 = \<lparr>pp_states = map (\<lambda>i. \<lparr>t_data = data, t_warmup = True, t_nIters = int m, t_it = its i,
    t_retained = (\<lambda>_. 0)\<rparr>) [0..<n], pp_mems = mems, pp_modes = replicate n Idle, pp_net = {#}\<rparr>"
  have n: "n_pes s0 = n" by (simp add: s0_def n_pes_def)
  have ch: "channels env c data (\<lambda>_. False) s0"
    unfolding channels_def channel_at_def n using assms by (simp add: peer_of_def n) (simp add: s0_def)
  have st: "t_data (pp_states s0 ! i) = data" "t_warmup (pp_states s0 ! i)" "t_nIters (pp_states s0 ! i) = int m"
    if "i < n" for i using that by (simp_all add: s0_def)
  have o: "pp_modes s0 = replicate n Idle" "pp_net s0 = {#}" by (simp_all add: s0_def)
  have e: "pp_start n data (int m) its mems = (if n = 1 then start_plain 0 s0 else send_signal 0 StartPlain s0)"
    by (simp add: pp_start_def s0_def)
  show ?thesis
  proof (cases "n = 1")
    case True
    have "sys_in env c n m data (PPlain True 0 1) (start_plain 0 s0)"
      by (rule sys_inI) (use assms(1,2) True n ch st o in
        \<open>simp_all add: start_plain_def reset_state_def upd_state_nth peer_of_def channels_upd_state\<close>)
    then show ?thesis using True e by simp
  next
    case False
    have "sys_in env c n m data PStart (send_signal 0 StartPlain s0)"
      by (rule sys_inI) (use assms(1,2) n ch st o in \<open>simp_all add: send_signal_def\<close>)
    then show ?thesis using False e by simp
  qed
qed

text \<open>
  C8. The pingpong test under these conditions: at least \<open>kBufferFactor\<close> (four) iterations, and a payload whose length is exactly a
  size class (with fewer iterations the test hangs for want of a buffer, with another length the loop that fills the pool
  does not end, see \<open>Ipc_Pingpong\<close> and \<open>Ipc_Pool\<close>); pools that were filled by that loop, and addresses that translate as the XPMEM driver
  documents. Then, on any number of processes and whatever the order
  of events, no event faults or hangs, exactly \<open>4 * n * nIters + 3 * n\<close> events happen after process 0 has started (its own
  start is one more when there are peers), and then every process has left and no message is under way.
\<close>

theorem pingpong_test_completes:
  assumes "0 < n" and "kBufferFactor \<le> nIters" and "env_ok env n" and "length mems = n"
    and "c < 25" and "kCutOffPoints ! c = of_nat (length data)"
    and "\<forall>i<n. inj_on (hdr i) {..<nat nIters} \<and> (\<forall>k<nat nIters. real_addr (hdr i k) \<and> real_addr (dat i k)) \<and>
      populate_buffers (hdr i) (dat i) (junk i) (Suc fuel) (length data) nIters (fresh_mem (int i)) = Some (Inr (mems ! i))"
    and "len = (if n = 1 then 0 else 1) + 4 * n * nat nIters + 3 * n"
    and "(pp_step env ^^ k) (pp_start n data nIters its mems) s"
  shows "k \<le> len \<and> (k < len \<longrightarrow> (\<exists>r. pp_event env s r)) \<and> (\<forall>r. pp_event env s r \<longrightarrow> (\<exists>t. r = Some (Inr t))) \<and>
    (k = len \<longrightarrow> pp_modes s = replicate n Exited \<and> pp_net s = {#})"
proof -
  define m where "m = nat nIters"
  have m: "0 < m" "nIters = int m" using assms(2) by (simp_all add: m_def kBufferFactor_def)
  have "nat (nIters div kBufferFactor) \<le> m" by (simp add: m_def kBufferFactor_def)
  then have *: "channel c (length data) v False 0 (mems ! i) \<and> q_pe (pm_queue (mems ! i)) = int i" if "i < n" for i v
    using populate_channel [OF assms(5,6,2), of m "hdr i" "dat i" "junk i" fuel "int i" v] assms(7) that
    by (auto simp: m_def)
  let ?ph = "if n = 1 then PPlain True 0 1 else PStart"
  have s0: "sys_in env c n m data ?ph (pp_start n data nIters its mems)"
    unfolding m(2) by (rule start_in) (use assms(1,4) m(1) * in auto)
  obtain ph where ph: "sys_in env c n m data ph s" "left_in n m ?ph = k + left_in n m ph"
    using run_left [OF assms(9) s0 assms(3,5,6)] by blast
  have "left_in n m ?ph = len"
    using m(1) assms(1) by (cases m) (simp_all add: assms(8) m_def [symmetric] algebra_simps)
  then have k: "len = k + left_in n m ph" using ph(2) by simp
  show ?thesis
    using k event_left [OF ph(1)] left_zero [OF ph(1)] event_goes_on [OF ph(1) _ assms(3,5,6)]
    by (auto simp: goes_on_def)
qed

theorem pingpong_test_completes_witness:
  "\<exists>env mems. \<forall>k s. (pp_step env ^^ k) (pp_start 2 (init_data 64) 4 (\<lambda>_. 0) mems) s \<longrightarrow>
    k \<le> 39 \<and> (k < 39 \<longrightarrow> (\<exists>r. pp_event env s r)) \<and> (k = 39 \<longrightarrow> pp_modes s = [Exited, Exited])"
proof -
  let ?env = "\<lparr>e_view = (\<lambda>q p a. if p = int q then a else - a),
    e_xlat = (\<lambda>p q a _. if p = q then Inr a else Inr (- a)), e_fuel = 1\<rparr>"
  have env: "env_ok ?env 2"
    by (auto simp: env_ok_def xlat_ok_def real_addr_def less_2_cases_iff)
  have c: "(0::nat) < 25" "kCutOffPoints ! 0 = of_nat (length (init_data 64))"
    by (simp_all add: kCutOffPoints_def init_data_def)
  have h: "inj_on (every64 1) {..<nat 4}" "\<forall>k<nat 4. real_addr (every64 1 k) \<and> real_addr (every64 32 k)"
    using every64_ok [of 1] every64_ok [of 32] by (auto intro: inj_on_subset)
  have "\<exists>mem. populate_buffers (every64 1) (every64 32) (\<lambda>_. 0) (Suc 0) (length (init_data 64)) 4 (fresh_mem (int i))
      = Some (Inr mem)" for i
    using populate_channel [OF c _ _ h, where nIters = 4 and junk = "\<lambda>_. 0" and fuel = 0 and pe = "int i"]
    by (auto simp: kBufferFactor_def)
  then obtain mem where mem: "\<And>i. populate_buffers (every64 1) (every64 32) (\<lambda>_. 0) (Suc 0) (length (init_data 64)) 4
      (fresh_mem (int i)) = Some (Inr (mem i))" by metis
  have "\<forall>i<2. inj_on (every64 1) {..<nat 4} \<and> (\<forall>k<nat 4. real_addr (every64 1 k) \<and> real_addr (every64 32 k)) \<and>
      populate_buffers (every64 1) (every64 32) (\<lambda>_. 0) (Suc 0) (length (init_data 64)) 4 (fresh_mem (int i))
      = Some (Inr ([mem 0, mem 1] ! i))"
    using h mem by (auto simp: less_2_cases_iff)
  note * = pingpong_test_completes [OF _ _ env _ c this, where len = 39 and its = "\<lambda>_. 0"]
  show ?thesis
  proof (intro exI [of _ ?env] exI [of _ "[mem 0, mem 1]"] allI impI)
    fix k s assume "(pp_step ?env ^^ k) (pp_start 2 (init_data 64) 4 (\<lambda>_. 0) [mem 0, mem 1]) s"
    from * [OF _ _ _ _ this]
    show "k \<le> 39 \<and> (k < 39 \<longrightarrow> (\<exists>r. pp_event ?env s r)) \<and> (k = 39 \<longrightarrow> pp_modes s = [Exited, Exited])"
      by (simp add: kBufferFactor_def eval_nat_numeral)
  qed
qed

end
