(* ===== verification/Charm_Msg.thy ===== *)
theory Charm_Msg
  imports Prelude
begin

text \<open>
  Messages of \<open>archive/charmlite\<close>: collective indices, destinations with the memory layout of
  their union, message flags, and the tables of functions that messages name by identifier
  (\<open>common.hh\<close>, \<open>destination.hh\<close>, \<open>message.hh\<close>, \<open>callback.hh\<close>, \<open>ep.hh\<close>, \<open>cmk.def.hh\<close>). A chare
  index has 64 bits, as on compilers whose 128-bit integers are not \<open>std::is_integral\<close>.
\<close>

section \<open>Collective indices\<close>

datatype collective_index = CIndex (ci_pe: u32) (ci_id: u32)

text \<open>The object's eight bytes read as one integer, on a little-endian machine.\<close>

definition ci_view :: "collective_index \<Rightarrow> u64" where
  "ci_view c = (ucast (ci_pe c) :: u64) OR push_bit 32 (ucast (ci_id c))"

definition ci_of_view :: "u64 \<Rightarrow> collective_index" where
  "ci_of_view w = CIndex (ucast w) (ucast (drop_bit 32 w))"

definition ci_equal :: "collective_index \<Rightarrow> collective_index \<Rightarrow> bool" where
  "ci_equal a b \<longleftrightarrow> ci_view a = ci_view b"

lemma ci_of_view_view [simp]: "ci_of_view (ci_view c) = c"
proof -
  have "ucast (ci_view c) = ci_pe c" "ucast (drop_bit 32 (ci_view c)) = ci_id c"
    by (rule bit_word_eqI; auto simp: ci_view_def bit_simps dest: bit_imp_le_length)+
  then show ?thesis by (simp add: ci_of_view_def)
qed

lemma ci_view_of_view [simp]: "ci_view (ci_of_view w) = w"
  by (rule bit_word_eqI) (auto simp: ci_view_def ci_of_view_def bit_simps)

lemma ci_equal_iff: "ci_equal a b \<longleftrightarrow> a = b"
  unfolding ci_equal_def by (metis ci_of_view_view)

text \<open>Collective indices are ordered as their bytes.\<close>

instantiation collective_index :: linorder
begin

definition less_eq_collective_index :: "collective_index \<Rightarrow> collective_index \<Rightarrow> bool" where
  "a \<le> b \<longleftrightarrow> ci_view a \<le> ci_view b"

definition less_collective_index :: "collective_index \<Rightarrow> collective_index \<Rightarrow> bool" where
  "a < b \<longleftrightarrow> ci_view a < ci_view b"

instance
  by standard (auto simp: less_eq_collective_index_def less_collective_index_def
      intro: ci_equal_iff [unfolded ci_equal_def, THEN iffD1] order_antisym)

end

section \<open>Destinations\<close>

datatype destination_kind = KInvalid | KCallback | KEndpoint

text \<open>
  The union: eight bytes for the collective of an endpoint or the identifier of a callback; eight
  for the endpoint's chare or, in the lower half, the callback's PE; eight for the endpoint's
  entry; and its broadcast number.
\<close>

record destination =
  d_kind :: destination_kind
  d_w0 :: u64
  d_w1 :: u64
  d_w2 :: u64
  d_bc :: u16

definition all_pes :: u32 where
  "all_pes = - 1"

definition chare_bcast_root :: u64 where
  "chare_bcast_root = - 1"

text \<open>
  The constructors, run in place on the memory \<open>d\<close> of another destination, whose bytes outside the
  chosen member stay.
\<close>

definition dest_callback :: "u64 \<Rightarrow> u32 \<Rightarrow> destination \<Rightarrow> destination" where
  "dest_callback cb pe d = d\<lparr>d_kind := KCallback, d_w0 := cb,
     d_w1 := (d_w1 d AND NOT (mask 32)) OR ucast pe\<rparr>"

definition dest_endpoint :: "collective_index \<Rightarrow> u64 \<Rightarrow> u64 \<Rightarrow> destination \<Rightarrow> destination" where
  "dest_endpoint col ch ent d = d\<lparr>d_kind := KEndpoint, d_w0 := ci_view col, d_w1 := ch,
     d_w2 := ent, d_bc := 0\<rparr>"

definition dest_none :: "destination \<Rightarrow> destination" where
  "dest_none d = d\<lparr>d_kind := KInvalid\<rparr>"

definition callback_fn :: "destination \<Rightarrow> (u64 \<times> u32) res" where
  "callback_fn d = bind_res (check (d_kind d = KCallback)) (\<lambda>_. Inr (d_w0 d, ucast (d_w1 d)))"

record endpoint =
  ep_col :: collective_index
  ep_chare :: u64
  ep_entry :: u64
  ep_bcast :: u16

definition endpoint_of :: "destination \<Rightarrow> endpoint res" where
  "endpoint_of d = bind_res (check (d_kind d = KEndpoint)) (\<lambda>_.
     Inr \<lparr>ep_col = ci_of_view (d_w0 d), ep_chare = d_w1 d, ep_entry = d_w2 d, ep_bcast = d_bc d\<rparr>)"

definition is_broadcast :: "destination \<Rightarrow> bool" where
  "is_broadcast d = (case d_kind d of
       KCallback \<Rightarrow> ucast (d_w1 d) = all_pes
     | KEndpoint \<Rightarrow> d_bc d \<noteq> 0 \<or> d_w1 d = chare_bcast_root
     | KInvalid \<Rightarrow> False)"

section \<open>Messages\<close>

text \<open>\<open>m_body\<close> stands for the bytes that follow the header.\<close>

record 'b msg =
  m_combines :: bool
  m_creates :: bool
  m_kind :: u64
  m_dst :: destination
  m_size :: u64
  m_body :: 'b

text \<open>The constructors; \<open>sz\<close> is \<open>sizeof(T)\<close>, which depends on Converse's header.\<close>

definition new_data_message :: "u64 \<Rightarrow> u64 \<Rightarrow> destination \<Rightarrow> 'b \<Rightarrow> 'b msg" where
  "new_data_message kind sz bytes b = \<lparr>m_combines = False, m_creates = False, m_kind = kind,
     m_dst = dest_none bytes, m_size = sz, m_body = b\<rparr>"

definition new_message :: "u64 \<Rightarrow> destination \<Rightarrow> 'b \<Rightarrow> 'b msg" where
  "new_message sz bytes b = new_data_message 0 sz bytes b"

text \<open>\<open>combiner()\<close>: the identifier is kept in the bytes of the endpoint's entry.\<close>

definition combiner :: "'b msg \<Rightarrow> u64 option" where
  "combiner m = (if m_combines m then Some (d_w2 (m_dst m)) else None)"

definition set_combiner :: "u64 \<Rightarrow> 'b msg \<Rightarrow> 'b msg" where
  "set_combiner c m = m\<lparr>m_combines := True, m_dst := (m_dst m)\<lparr>d_w2 := c\<rparr>\<rparr>"

section \<open>Tables\<close>

text \<open>Identifiers start at 1; 0 names nothing, here \<open>None\<close>.\<close>

definition entry_at :: "'f list \<Rightarrow> u64 \<Rightarrow> 'f option res" where
  "entry_at tab i = (if i = 0 then Inr None else bind_res (at tab (unat (i - 1))) (Inr \<circ> Some))"

definition register_function :: "'f \<Rightarrow> 'f list \<Rightarrow> u64 \<times> 'f list" where
  "register_function f tab = (let i = of_nat (length tab + 1) in (i, tab @ [f]))"

text \<open>
  The tables that user types and functions are entered into before \<open>main\<close> runs: entry methods with
  a flag for constructors, chare types with name and size, collective types, message deleters,
  callbacks and combiners.
\<close>

record ('e, 'k, 'd, 'cb, 'co) tables =
  entry_table :: "('e \<times> bool) list"
  chare_table :: "(string \<times> nat) list"
  collective_kinds :: "'k list"
  message_table :: "'d list"
  callback_table :: "'cb list"
  combiner_table :: "'co list"

definition register_entry_fn ::
  "'e \<Rightarrow> bool \<Rightarrow> ('e, 'k, 'd, 'cb, 'co) tables \<Rightarrow> u64 \<times> ('e, 'k, 'd, 'cb, 'co) tables" where
  "register_entry_fn f is_ctor T =
     (let (i, t) = register_function (f, is_ctor) (entry_table T) in (i, T\<lparr>entry_table := t\<rparr>))"

definition register_chare ::
  "string \<Rightarrow> nat \<Rightarrow> ('e, 'k, 'd, 'cb, 'co) tables \<Rightarrow> u64 \<times> ('e, 'k, 'd, 'cb, 'co) tables" where
  "register_chare name sz T =
     (let (i, t) = register_function (name, sz) (chare_table T) in (i, T\<lparr>chare_table := t\<rparr>))"

definition register_collective ::
  "'k \<Rightarrow> ('e, 'k, 'd, 'cb, 'co) tables \<Rightarrow> u64 \<times> ('e, 'k, 'd, 'cb, 'co) tables" where
  "register_collective k T =
     (let (i, t) = register_function k (collective_kinds T) in (i, T\<lparr>collective_kinds := t\<rparr>))"

definition register_message ::
  "'d \<Rightarrow> ('e, 'k, 'd, 'cb, 'co) tables \<Rightarrow> u64 \<times> ('e, 'k, 'd, 'cb, 'co) tables" where
  "register_message d T =
     (let (i, t) = register_function d (message_table T) in (i, T\<lparr>message_table := t\<rparr>))"

text \<open>Calling a null function pointer.\<close>

definition called :: "'f option res \<Rightarrow> 'f res" where
  "called r = bind_res r (\<lambda>p. case p of None \<Rightarrow> Inl BadPointer | Some f \<Rightarrow> Inr f)"

definition combiner_for :: "'f list \<Rightarrow> 'b msg \<Rightarrow> 'f option res" where
  "combiner_for tab m = (case combiner m of None \<Rightarrow> Inr None | Some i \<Rightarrow> entry_at tab i)"

definition callback_for :: "'f list \<Rightarrow> 'b msg \<Rightarrow> 'f option res" where
  "callback_for tab m =
     (if d_kind (m_dst m) = KCallback
      then bind_res (callback_fn (m_dst m)) (\<lambda>(i, pe). entry_at tab i) else Inr None)"

text \<open>\<open>message::free\<close>: which deleter runs, \<open>None\<close> for the plain one of kind 0.\<close>

definition msg_deleter :: "'f list \<Rightarrow> 'b msg \<Rightarrow> 'f option res" where
  "msg_deleter tab m = (if m_kind m = 0 then Inr None
     else bind_res (at tab (unat (m_kind m - 1))) (Inr \<circ> Some))"

section \<open>Properties\<close>

text \<open>
  Two collective indices have the same eight bytes, as \<open>operator==\<close> and the hash compare them,
  exactly when both their fields agree; and reading the bytes back gives the index.
\<close>

theorem collective_index_equality:
  "ci_equal a b \<longleftrightarrow> ci_pe a = ci_pe b \<and> ci_id a = ci_id b"
  unfolding ci_equal_iff by (cases a; cases b) simp

lemma low_half: "ucast ((w AND NOT (mask 32)) OR ucast (pe :: u32) :: u64) = pe"
  by (rule bit_word_eqI) (auto simp: bit_simps)

lemma entry_at_register:
  assumes "register_function f tab = (i, tab')" and "length tab + 1 < 2 ^ 64"
  shows "i \<noteq> 0 \<and> entry_at tab' i = Inr (Some f)"
proof -
  have i: "i = of_nat (length tab + 1)" and t: "tab' = tab @ [f]"
    using assms(1) by (auto simp: register_function_def Let_def)
  have u: "unat i = length tab + 1"
    unfolding i using assms(2) by (simp only: unat_of_nat) (simp add: take_bit_nat_eq_self)
  then have "i \<noteq> 0" by auto
  moreover have "unat (i - 1) = length tab"
    using u unat_sub_le [of 1 i] by simp
  ultimately show ?thesis using t by (simp add: entry_at_def)
qed

lemma entry_at_append:
  "called (entry_at tab j) = Inr g \<Longrightarrow> called (entry_at (tab @ [f]) j) = Inr g"
  by (auto simp: called_def entry_at_def bind_res_Inr_iff nth_append split: option.splits if_splits)

text \<open>
  An entry method, a collective type or a message deleter that is registered gets an identifier
  that is not the nil identifier 0 and names it, a constructor stays marked as one, and every
  identifier that named something before still names it, in every table.
\<close>

theorem registered_found:
  assumes "register_entry_fn f c T = (i, T1)" and "length (entry_table T) + 1 < 2 ^ 64"
    and "register_collective k T1 = (j, T2)" and "length (collective_kinds T) + 1 < 2 ^ 64"
    and "register_message d T2 = (l, T3)" and "length (message_table T) + 1 < 2 ^ 64"
  shows "i \<noteq> 0 \<and> called (entry_at (entry_table T3) i) = Inr (f, c) \<and>
    j \<noteq> 0 \<and> called (entry_at (collective_kinds T3) j) = Inr k \<and>
    l \<noteq> 0 \<and> called (entry_at (message_table T3) l) = Inr d \<and>
    (\<forall>e g. called (entry_at (entry_table T) e) = Inr g \<longrightarrow> called (entry_at (entry_table T3) e) = Inr g) \<and>
    (\<forall>e g. called (entry_at (collective_kinds T) e) = Inr g \<longrightarrow>
      called (entry_at (collective_kinds T3) e) = Inr g)"
proof -
  have e: "register_function (f, c) (entry_table T) = (i, entry_table T1)"
    "collective_kinds T1 = collective_kinds T" "message_table T1 = message_table T"
    using assms(1) by (auto simp: register_entry_fn_def register_function_def Let_def)
  have k: "register_function k (collective_kinds T) = (j, collective_kinds T2)"
    "entry_table T2 = entry_table T1" "message_table T2 = message_table T"
    using assms(3) e by (auto simp: register_collective_def register_function_def Let_def)
  have m: "register_function d (message_table T) = (l, message_table T3)"
    "entry_table T3 = entry_table T1" "collective_kinds T3 = collective_kinds T2"
    using assms(5) k by (auto simp: register_message_def register_function_def Let_def)
  have t: "entry_table T1 = entry_table T @ [(f, c)]" "collective_kinds T2 = collective_kinds T @ [k]"
    using e(1) k(1) by (auto simp: register_function_def Let_def)
  show ?thesis
    using entry_at_register [OF e(1) assms(2)] entry_at_register [OF k(1) assms(4)]
      entry_at_register [OF m(1) assms(6)]
    by (auto simp: m(2,3) t intro: entry_at_append) (simp_all add: called_def)
qed

lemma registered_found_witness:
  "called (entry_at [(7, False), (8 :: nat, True)] 2) = Inr (8, True)"
proof -
  let ?T = "\<lambda>e k m. \<lparr>entry_table = e, chare_table = [], collective_kinds = k, message_table = m,
    callback_table = [()], combiner_table = [()]\<rparr>"
  let ?e = "[(7 :: nat, False)]"
  have "register_entry_fn 8 True (?T ?e [] []) = (2, ?T (?e @ [(8, True)]) [] [])"
    "register_collective () (?T (?e @ [(8, True)]) [] []) = (1, ?T (?e @ [(8, True)]) [()] [])"
    "register_message () (?T (?e @ [(8, True)]) [()] []) = (1, ?T (?e @ [(8, True)]) [()] [()])"
    by (simp_all add: register_entry_fn_def register_collective_def register_message_def
        register_function_def)
  from registered_found [OF this(1) _ this(2) _ this(3)] show ?thesis by simp
qed

text \<open>What \<open>reduce\<close> of \<open>reduction.hh\<close> does to the message's header.\<close>

definition reduce_dst :: "u64 \<Rightarrow> u64 \<Rightarrow> 'b msg \<Rightarrow> 'b msg" where
  "reduce_dst comb cb m = set_combiner comb (m\<lparr>m_dst := dest_callback cb 0 (m_dst m)\<rparr>)"

text \<open>
  A message that a reduction prepares carries two identifiers in one union, the callback's and
  the combiner's: storing the combiner keeps callback and PE, whatever the union held before, so
  both functions are found again.
\<close>

theorem reduce_identifiers:
  "combiner_for combs (reduce_dst comb cb m) = entry_at combs comb \<and>
   callback_for cbs (reduce_dst comb cb m) = entry_at cbs cb \<and>
   callback_fn (m_dst (reduce_dst comb cb m)) = Inr (cb, 0) \<and> \<not> is_broadcast (m_dst (reduce_dst comb cb m))"
  using low_half [of "d_w1 (m_dst m)" 0]
  by (simp add: reduce_dst_def combiner_for_def combiner_def set_combiner_def callback_for_def
      dest_callback_def callback_fn_def is_broadcast_def all_pes_def)

end
