(* ===== verification/Cdt.thy ===== *)
theory Cdt
  imports Charm_Msg
begin

text \<open>
  \<open>archive/charmlite/examples/cdt/pgm.cc\<close>: completion detection. Every PE has a branch of the
  detector, which counts for each collective the events produced less those consumed there.
  A detection adds up the counts of all PEs in an all-reduce, and repeats it until the sum
  is zero; then every PE sends its callback.
\<close>

section \<open>The detector on one PE\<close>

text \<open>
  \<open>detection_message*\<close> is an address, \<open>nullptr\<close> is 0. The counts are the bits of an \<open>int64_t\<close>.
\<close>

record status =
  sd_msg :: addr
  sd_lcount :: u64
  sd_complete :: bool

definition new_status :: "addr \<Rightarrow> status" where
  "new_status msg = \<lparr>sd_msg = msg, sd_lcount = 0, sd_complete = False\<rparr>"

record count_data =
  cn_detector :: collective_index
  cn_target :: collective_index
  cn_gcount :: u64

definition count_add :: "count_data \<Rightarrow> count_data \<Rightarrow> count_data" where
  "count_add c other = c\<lparr>cn_gcount := cn_gcount c + cn_gcount other\<rparr>"

text \<open>
  A branch: its collective, the statuses, and the detection messages it owns, with the
  collective to watch and the destination of the callback.
\<close>

record completion =
  cd_col :: collective_index
  statii :: "collective_index \<Rightarrow> status option"
  cd_msgs :: "addr \<Rightarrow> (collective_index \<times> destination) option"

definition new_completion :: "collective_index \<Rightarrow> completion" where
  "new_completion col = \<lparr>cd_col = col, statii = Map.empty, cd_msgs = Map.empty\<rparr>"

definition put_status :: "collective_index \<Rightarrow> status \<Rightarrow> completion \<Rightarrow> completion" where
  "put_status idx s d = d\<lparr>statii := (statii d)(idx \<mapsto> s)\<rparr>"

definition get_status :: "collective_index \<Rightarrow> addr \<Rightarrow> completion \<Rightarrow> status \<times> completion" where
  "get_status idx msg d =
     (case statii d idx of
        None \<Rightarrow> (new_status msg, put_status idx (new_status msg) d)
      | Some s \<Rightarrow>
          if msg \<noteq> 0 then (s\<lparr>sd_msg := msg\<rparr>, put_status idx (s\<lparr>sd_msg := msg\<rparr>) d)
          else (s, d))"

text \<open>What a detector hands to the runtime: its message to the callback, or a contribution.\<close>

datatype detector_out = Notify destination | Contribute count_data

text \<open>Sending the message to the callback gives it away.\<close>

definition start_detection :: "addr \<Rightarrow> completion \<Rightarrow> (detector_out \<times> completion) res" where
  "start_detection msg d =
     (case cd_msgs d msg of
        None \<Rightarrow> Inl BadPointer
      | Some (idx, cb) \<Rightarrow>
          (case get_status idx msg d of (s, d1) \<Rightarrow>
             if sd_complete s then Inr (Notify cb, d1\<lparr>cd_msgs := (cd_msgs d1)(msg := None)\<rparr>)
             else Inr (Contribute \<lparr>cn_detector = cd_col d, cn_target = idx, cn_gcount = sd_lcount s\<rparr>, d1)))"

definition cd_produce :: "collective_index \<Rightarrow> u64 \<Rightarrow> completion \<Rightarrow> completion" where
  "cd_produce idx n d =
     (case get_status idx 0 d of (s, d1) \<Rightarrow> put_status idx (s\<lparr>sd_lcount := sd_lcount s + n\<rparr>) d1)"

definition cd_consume :: "collective_index \<Rightarrow> u64 \<Rightarrow> completion \<Rightarrow> completion" where
  "cd_consume idx n d = cd_produce idx (- n) d"

text \<open>\<open>look\<close> finds the branch of a detector on this PE.\<close>

definition receive_count ::
  "(collective_index \<Rightarrow> completion option) \<Rightarrow> count_data \<Rightarrow> (detector_out \<times> completion) res" where
  "receive_count look c =
     (case look (cn_detector c) of
        None \<Rightarrow> Inl BadPointer
      | Some d \<Rightarrow>
          (case get_status (cn_target c) 0 d of (s, d1) \<Rightarrow>
             start_detection (sd_msg s) (put_status (cn_target c) (s\<lparr>sd_complete := cn_gcount c = 0\<rparr>) d1)))"

section \<open>All PEs\<close>

text \<open>
  A PE: its branch, the contributions to reductions that are not completed yet, the results
  that it has not processed yet, and the callbacks it has sent. Reductions are matched by
  their order: the k-th contributions of all PEs are combined, in any order of the PEs
  (\<open>Reduce\<close>), and the result is broadcast.
\<close>

record cdt_pe =
  cp_branch :: completion
  cp_sent :: "count_data list"
  cp_inbox :: "count_data list"
  cp_notes :: "destination list"

datatype cdt_local =
    LProduce collective_index u64
  | LConsume collective_index u64
  | LStart addr collective_index destination
  | LReceive

datatype cdt_event = At nat cdt_local | Reduce "nat list"

fun put_out :: "detector_out \<times> completion \<Rightarrow> cdt_pe \<Rightarrow> cdt_pe" where
  "put_out (Notify cb, d) x = x\<lparr>cp_branch := d, cp_notes := cp_notes x @ [cb]\<rparr>"
| "put_out (Contribute c, d) x = x\<lparr>cp_branch := d, cp_sent := cp_sent x @ [c]\<rparr>"

definition look_up :: "completion \<Rightarrow> collective_index \<Rightarrow> completion option" where
  "look_up d i = (if i = cd_col d then Some d else None)"

fun local_step :: "cdt_local \<Rightarrow> cdt_pe \<Rightarrow> cdt_pe res" where
  "local_step (LProduce idx n) x = Inr (x\<lparr>cp_branch := cd_produce idx n (cp_branch x)\<rparr>)"
| "local_step (LConsume idx n) x = Inr (x\<lparr>cp_branch := cd_consume idx n (cp_branch x)\<rparr>)"
| "local_step (LStart a idx cb) x =
     bind_res (start_detection a ((cp_branch x)\<lparr>cd_msgs := (cd_msgs (cp_branch x))(a \<mapsto> (idx, cb))\<rparr>))
       (\<lambda>o'. Inr (put_out o' x))"
| "local_step LReceive x =
     (case cp_inbox x of
        [] \<Rightarrow> Inr x
      | c # cs \<Rightarrow> bind_res (receive_count (look_up (cp_branch x)) c)
          (\<lambda>o'. Inr (put_out o' (x\<lparr>cp_inbox := cs\<rparr>))))"

fun combined :: "count_data list \<Rightarrow> count_data option" where
  "combined [] = None"
| "combined (c # cs) = Some (foldl count_add c cs)"

definition next_counts :: "cdt_pe list \<Rightarrow> nat list \<Rightarrow> count_data list" where
  "next_counts s ps = map (\<lambda>p. hd (cp_sent (s ! p))) ps"

definition give_result :: "count_data \<Rightarrow> cdt_pe \<Rightarrow> cdt_pe" where
  "give_result c x = x\<lparr>cp_sent := tl (cp_sent x), cp_inbox := cp_inbox x @ [c]\<rparr>"

fun cdt_step :: "cdt_event \<Rightarrow> cdt_pe list \<Rightarrow> cdt_pe list res" where
  "cdt_step (At p l) s =
     (if p < length s then bind_res (local_step l (s ! p)) (\<lambda>x. Inr (s[p := x])) else Inr s)"
| "cdt_step (Reduce ps) s =
     (if mset ps = mset [0..<length s] \<and> (\<forall>x \<in> set s. cp_sent x \<noteq> []) then
        (case combined (next_counts s ps) of None \<Rightarrow> Inr s | Some c \<Rightarrow> Inr (map (give_result c) s))
      else Inr s)"

fun cdt_run :: "cdt_event list \<Rightarrow> cdt_pe list \<Rightarrow> cdt_pe list res" where
  "cdt_run [] s = Inr s"
| "cdt_run (e # es) s = bind_res (cdt_step e s) (cdt_run es)"

definition cdt_init :: "collective_index \<Rightarrow> nat \<Rightarrow> cdt_pe list" where
  "cdt_init det n = replicate n
     \<lparr>cp_branch = new_completion det, cp_sent = [], cp_inbox = [], cp_notes = []\<rparr>"

text \<open>The events of a run: how many were produced and consumed where, and who started when.\<close>

fun made_by :: "collective_index \<Rightarrow> nat \<Rightarrow> cdt_event \<Rightarrow> nat" where
  "made_by t p (At q (LProduce idx n)) = (if q = p \<and> idx = t then unat n else 0)"
| "made_by t p _ = 0"

fun used_by :: "collective_index \<Rightarrow> nat \<Rightarrow> cdt_event \<Rightarrow> nat" where
  "used_by t p (At q (LConsume idx n)) = (if q = p \<and> idx = t then unat n else 0)"
| "used_by t p _ = 0"

definition made :: "collective_index \<Rightarrow> nat \<Rightarrow> cdt_event list \<Rightarrow> nat" where
  "made t p es = sum_list (map (made_by t p) es)"

definition used :: "collective_index \<Rightarrow> nat \<Rightarrow> cdt_event list \<Rightarrow> nat" where
  "used t p es = sum_list (map (used_by t p) es)"

fun starter :: "cdt_event \<Rightarrow> nat list" where
  "starter (At p (LStart a idx cb)) = [p]"
| "starter _ = []"

definition starters :: "cdt_event list \<Rightarrow> nat list" where
  "starters es = concat (map starter es)"

text \<open>An event on one of \<open>n\<close> PEs; a start is for \<open>t\<close> with the callback \<open>cb\<close>.\<close>

fun cdt_event_ok :: "nat \<Rightarrow> collective_index \<Rightarrow> destination \<Rightarrow> cdt_event \<Rightarrow> bool" where
  "cdt_event_ok n t cb (At p (LStart a idx c)) \<longleftrightarrow> p < n \<and> a \<noteq> 0 \<and> idx = t \<and> c = cb"
| "cdt_event_ok n t cb (At p l) \<longleftrightarrow> p < n"
| "cdt_event_ok n t cb (Reduce ps) \<longleftrightarrow> True"

fun produces :: "collective_index \<Rightarrow> cdt_event \<Rightarrow> bool" where
  "produces t (At p (LProduce idx n)) \<longleftrightarrow> idx = t"
| "produces t _ \<longleftrightarrow> False"

end
