(* ===== verification/Cdt_Props.thy ===== *)
theory Cdt_Props
  imports Cdt
begin

text \<open>
  What the detector detects: when the events have all been produced before the detection, it
  completes only once all are consumed, and then it does. Otherwise completion may be
  declared too early, and a second detection uses a message that is gone.
\<close>

section \<open>Statuses\<close>

definition status_of :: "collective_index \<Rightarrow> completion \<Rightarrow> status" where
  "status_of t d = (case statii d t of None \<Rightarrow> new_status 0 | Some s \<Rightarrow> s)"

lemma status_of_put [simp]: "status_of i (put_status j s d) = (if i = j then s else status_of i d)"
  by (simp add: status_of_def put_status_def)

lemma put_status_frame [simp]:
  "cd_col (put_status i s d) = cd_col d" "cd_msgs (put_status i s d) = cd_msgs d"
  by (simp_all add: put_status_def)

lemma status_of_frame [simp]: "status_of t (d\<lparr>cd_msgs := m\<rparr>) = status_of t d"
  by (simp add: status_of_def)

lemma put_status_id: "statii d t = Some s \<Longrightarrow> put_status t s d = d"
  by (simp add: put_status_def fun_upd_idem)

lemma get_status_eq: "get_status t m d =
    (let s = status_of t d; s1 = (if m \<noteq> 0 then s\<lparr>sd_msg := m\<rparr> else s) in (s1, put_status t s1 d))"
  by (simp add: get_status_def status_of_def new_status_def put_status_id Let_def split: option.split)

lemma cd_produce_eq: "cd_produce t n d =
    put_status t ((status_of t d)\<lparr>sd_lcount := sd_lcount (status_of t d) + n\<rparr>) d"
  by (simp add: cd_produce_def get_status_eq Let_def put_status_def)

lemma cd_consume_eq: "cd_consume t n d =
    put_status t ((status_of t d)\<lparr>sd_lcount := sd_lcount (status_of t d) - n\<rparr>) d"
  by (simp add: cd_consume_def cd_produce_eq)

lemma start_detection_eq:
  "m \<noteq> 0 \<Longrightarrow> cd_msgs d m = Some (t, cb) \<Longrightarrow> start_detection m d =
    (let s = (status_of t d)\<lparr>sd_msg := m\<rparr>; d1 = put_status t s d
     in if sd_complete s then Inr (Notify cb, d1\<lparr>cd_msgs := (cd_msgs d)(m := None)\<rparr>)
        else Inr (Contribute \<lparr>cn_detector = cd_col d, cn_target = t, cn_gcount = sd_lcount s\<rparr>, d1))"
  by (simp add: start_detection_def get_status_eq Let_def)

lemma receive_count_eq:
  "cn_detector c = cd_col d \<Longrightarrow> receive_count (look_up d) c =
    start_detection (sd_msg (status_of (cn_target c) d))
      (put_status (cn_target c) ((status_of (cn_target c) d)\<lparr>sd_complete := cn_gcount c = 0\<rparr>) d)"
  by (simp add: receive_count_def look_up_def get_status_eq Let_def put_status_def)

section \<open>The stages of a detection on one PE\<close>

definition fresh_pe :: "collective_index \<Rightarrow> cdt_pe \<Rightarrow> bool" where
  "fresh_pe t x \<longleftrightarrow> cp_sent x = [] \<and> cp_inbox x = [] \<and> cp_notes x = [] \<and>
     sd_msg (status_of t (cp_branch x)) = 0 \<and> \<not> sd_complete (status_of t (cp_branch x))"

definition armed :: "collective_index \<Rightarrow> destination \<Rightarrow> cdt_pe \<Rightarrow> bool" where
  "armed t cb x \<longleftrightarrow> cp_notes x = [] \<and> sd_msg (status_of t (cp_branch x)) \<noteq> 0 \<and>
     \<not> sd_complete (status_of t (cp_branch x)) \<and>
     cd_msgs (cp_branch x) (sd_msg (status_of t (cp_branch x))) = Some (t, cb)"

definition contribution :: "collective_index \<Rightarrow> cdt_pe \<Rightarrow> u64 \<Rightarrow> count_data" where
  "contribution t x w = \<lparr>cn_detector = cd_col (cp_branch x), cn_target = t, cn_gcount = w\<rparr>"

definition waiting :: "collective_index \<Rightarrow> destination \<Rightarrow> nat \<Rightarrow> nat \<Rightarrow> cdt_pe \<Rightarrow> bool" where
  "waiting t cb P u x \<longleftrightarrow> armed t cb x \<and> cp_inbox x = [] \<and>
     (\<exists>v \<le> u. cp_sent x = [contribution t x (of_nat P - of_nat v)])"

definition got :: "collective_index \<Rightarrow> destination \<Rightarrow> (u64 \<Rightarrow> bool) \<Rightarrow> cdt_pe \<Rightarrow> bool" where
  "got t cb Q x \<longleftrightarrow> armed t cb x \<and> cp_sent x = [] \<and> (\<exists>w. cp_inbox x = [contribution t x w] \<and> Q w)"

definition over :: "collective_index \<Rightarrow> destination \<Rightarrow> (u64 \<Rightarrow> bool) \<Rightarrow> cdt_pe \<Rightarrow> bool" where
  "over t cb Q x \<longleftrightarrow> cp_sent x = [] \<and> cp_inbox x = [] \<and> cp_notes x = [cb] \<and>
     sd_complete (status_of t (cp_branch x)) \<and> Q 0"

lemmas stage_defs = fresh_pe_def armed_def waiting_def got_def over_def contribution_def

text \<open>\<open>P\<close> and \<open>u\<close>: what the PE has produced and consumed; \<open>Q\<close>: the sums that a round may have.\<close>

definition pe_ok ::
  "collective_index \<Rightarrow> collective_index \<Rightarrow> destination \<Rightarrow> nat \<Rightarrow> nat \<Rightarrow> bool \<Rightarrow> (u64 \<Rightarrow> bool) \<Rightarrow> cdt_pe \<Rightarrow> bool" where
  "pe_ok det t cb P u started Q x \<longleftrightarrow>
     cd_col (cp_branch x) = det \<and> sd_lcount (status_of t (cp_branch x)) = of_nat P - of_nat u \<and>
     (if started then waiting t cb P u x \<or> got t cb Q x \<or> over t cb Q x else fresh_pe t x)"

lemma pe_ok_mono:
  assumes "pe_ok det t cb P u started Q x" and "\<And>w. Q w \<Longrightarrow> Q' w"
  shows "pe_ok det t cb P u started Q' x"
  using assms unfolding pe_ok_def got_def over_def by (auto split: if_splits)

text \<open>The stage does not depend on the local count.\<close>

lemma stage_frame:
  assumes "sd_msg (status_of t d) = sd_msg (status_of t (cp_branch x))"
    and "sd_complete (status_of t d) = sd_complete (status_of t (cp_branch x))"
    and "cd_msgs d = cd_msgs (cp_branch x)" and "cd_col d = cd_col (cp_branch x)"
  shows "fresh_pe t (x\<lparr>cp_branch := d\<rparr>) = fresh_pe t x"
    and "waiting t cb P u (x\<lparr>cp_branch := d\<rparr>) = waiting t cb P u x"
    and "got t cb Q (x\<lparr>cp_branch := d\<rparr>) = got t cb Q x"
    and "over t cb Q (x\<lparr>cp_branch := d\<rparr>) = over t cb Q x"
  using assms by (simp_all add: stage_defs)

lemma pe_ok_frame:
  assumes "pe_ok det t cb P u started Q x" and "u \<le> u'"
    and "sd_msg (status_of t d) = sd_msg (status_of t (cp_branch x))"
    and "sd_complete (status_of t d) = sd_complete (status_of t (cp_branch x))"
    and "cd_msgs d = cd_msgs (cp_branch x)" and "cd_col d = cd_col (cp_branch x)"
    and "sd_lcount (status_of t d) = of_nat P - of_nat u'"
  shows "pe_ok det t cb P u' started Q (x\<lparr>cp_branch := d\<rparr>)"
proof -
  have "waiting t cb P u' x" if "waiting t cb P u x"
    using that assms(2) unfolding waiting_def by (meson order_trans)
  then show ?thesis
    using assms(1) stage_frame [OF assms(3-6)] assms(6,7) by (auto simp: pe_ok_def split: if_splits)
qed

lemma lcount_consume: "(of_nat P - of_nat u) - n = (of_nat P - of_nat (u + unat n) :: u64)"
  by (simp add: algebra_simps)

lemma local_consume_ok:
  assumes "pe_ok det t cb P u started Q x"
  shows "pe_ok det t cb P (u + (if idx = t then unat n else 0)) started Q
    (x\<lparr>cp_branch := cd_consume idx n (cp_branch x)\<rparr>)"
proof -
  have "sd_lcount (status_of t (cp_branch x)) = of_nat P - of_nat u"
    using assms by (simp add: pe_ok_def)
  then show ?thesis
    by (intro pe_ok_frame [OF assms]) (auto simp: cd_consume_eq lcount_consume)
qed

lemma local_produce_ok:
  assumes "pe_ok det t cb P u started Q x" and "idx \<noteq> t"
  shows "pe_ok det t cb P u started Q (x\<lparr>cp_branch := cd_produce idx n (cp_branch x)\<rparr>)"
proof -
  have "sd_lcount (status_of t (cp_branch x)) = of_nat P - of_nat u"
    using assms by (simp add: pe_ok_def)
  then show ?thesis
    using assms(2) by (intro pe_ok_frame [OF assms(1)]) (simp_all add: cd_produce_eq)
qed

lemma put_status_put [simp]: "put_status t s (put_status t r d) = put_status t s d"
  by (simp add: put_status_def)

text \<open>The two operations that talk to the other PEs, on a PE in the right stage.\<close>

definition started_pe :: "collective_index \<Rightarrow> destination \<Rightarrow> addr \<Rightarrow> cdt_pe \<Rightarrow> cdt_pe" where
  "started_pe t cb a x = (let d = cp_branch x; s = status_of t d in
     x\<lparr>cp_branch := put_status t (s\<lparr>sd_msg := a\<rparr>) (d\<lparr>cd_msgs := (cd_msgs d)(a \<mapsto> (t, cb))\<rparr>),
       cp_sent := cp_sent x @ [contribution t x (sd_lcount s)]\<rparr>)"

definition again_pe :: "collective_index \<Rightarrow> cdt_pe \<Rightarrow> cdt_pe" where
  "again_pe t x = (let s = status_of t (cp_branch x) in
     x\<lparr>cp_branch := put_status t (s\<lparr>sd_complete := False\<rparr>) (cp_branch x), cp_inbox := [],
       cp_sent := [contribution t x (sd_lcount s)]\<rparr>)"

definition done_pe :: "collective_index \<Rightarrow> destination \<Rightarrow> cdt_pe \<Rightarrow> cdt_pe" where
  "done_pe t cb x = (let d = cp_branch x; s = status_of t d in
     x\<lparr>cp_branch := (put_status t (s\<lparr>sd_complete := True\<rparr>) d)\<lparr>cd_msgs := (cd_msgs d)(sd_msg s := None)\<rparr>,
       cp_inbox := [], cp_notes := cp_notes x @ [cb]\<rparr>)"

lemma start_fresh:
  assumes "fresh_pe t x" and "a \<noteq> 0"
  shows "local_step (LStart a t cb) x = Inr (started_pe t cb a x)"
  using assms by (simp add: fresh_pe_def start_detection_eq Let_def started_pe_def contribution_def)

lemma receive_got:
  assumes "armed t cb x" and "cp_sent x = []" and "cp_inbox x = [contribution t x w]"
  shows "local_step LReceive x = Inr (if w = 0 then done_pe t cb x else again_pe t x)"
proof -
  have nz: "sd_msg (status_of t (cp_branch x)) \<noteq> 0"
    and m: "cd_msgs (cp_branch x) (sd_msg (status_of t (cp_branch x))) = Some (t, cb)"
    and c: "\<not> sd_complete (status_of t (cp_branch x))"
    using assms(1) by (simp_all add: armed_def)
  show ?thesis
  proof (cases "w = 0")
    case True
    then show ?thesis using nz m assms(3)
      by (simp add: receive_count_eq contribution_def start_detection_eq Let_def done_pe_def)
  next
    case False
    then show ?thesis using nz m assms(2,3)
      by (simp add: receive_count_eq contribution_def start_detection_eq Let_def again_pe_def)
  qed
qed

lemma receive_none: "cp_inbox x = [] \<Longrightarrow> local_step LReceive x = Inr x"
  by simp

lemma local_start_ok:
  assumes "pe_ok det t cb P u False Q x" and "a \<noteq> 0"
  shows "waiting t cb P u (started_pe t cb a x)" "pe_ok det t cb P u True Q (started_pe t cb a x)"
proof -
  show "waiting t cb P u (started_pe t cb a x)"
    using assms by (auto simp: pe_ok_def stage_defs started_pe_def Let_def)
  then show "pe_ok det t cb P u True Q (started_pe t cb a x)"
    using assms by (simp add: pe_ok_def started_pe_def Let_def)
qed

lemma again_ok:
  assumes "armed t cb x" and "sd_lcount (status_of t (cp_branch x)) = of_nat P - of_nat u"
  shows "waiting t cb P u (again_pe t x)"
  using assms by (auto simp: waiting_def armed_def contribution_def again_pe_def Let_def)

lemma done_ok:
  assumes "armed t cb x" and "cp_sent x = []" and "Q 0"
  shows "over t cb Q (done_pe t cb x)"
  using assms by (auto simp: over_def armed_def done_pe_def Let_def)

lemma local_receive_ok:
  assumes "pe_ok det t cb P u started Q x"
  obtains (none) "cp_inbox x = []" "local_step LReceive x = Inr x"
  | (again) w where "started" "cp_inbox x = [contribution t x w]" "w \<noteq> 0"
      "local_step LReceive x = Inr (again_pe t x)" "waiting t cb P u (again_pe t x)"
      "pe_ok det t cb P u started Q (again_pe t x)"
  | (complete) "started" "cp_inbox x = [contribution t x 0]"
      "local_step LReceive x = Inr (done_pe t cb x)" "over t cb Q (done_pe t cb x)"
      "pe_ok det t cb P u started Q (done_pe t cb x)"
proof (cases "started \<and> got t cb Q x")
  case True
  then obtain w where w: "cp_inbox x = [contribution t x w]" "Q w" and a: "armed t cb x" "cp_sent x = []"
    by (auto simp: got_def)
  have l: "sd_lcount (status_of t (cp_branch x)) = of_nat P - of_nat u" "cd_col (cp_branch x) = det"
    using assms by (simp_all add: pe_ok_def)
  show thesis
  proof (cases "w = 0")
    case w0: True
    then have "over t cb Q (done_pe t cb x)" using done_ok [OF a] w(2) by simp
    then show thesis using complete receive_got [OF a w(1)] w0 w(1) True l
      by (simp add: pe_ok_def done_pe_def Let_def)
  next
    case False
    moreover have "waiting t cb P u (again_pe t x)" by (rule again_ok [OF a(1) l(1)])
    ultimately show thesis using again [of w] receive_got [OF a w(1)] w(1) True l
      by (simp add: pe_ok_def again_pe_def Let_def)
  qed
next
  case False
  then have "cp_inbox x = []" using assms by (auto simp: pe_ok_def stage_defs split: if_splits)
  then show thesis using none by simp
qed

section \<open>All PEs\<close>

text \<open>The sum of a round: everything produced, less some of what is consumed by now.\<close>

definition snap :: "nat \<Rightarrow> (nat \<Rightarrow> nat) \<Rightarrow> (nat \<Rightarrow> nat) \<Rightarrow> u64 \<Rightarrow> bool" where
  "snap n P u w \<longleftrightarrow> (\<exists>C \<le> sum u {..<n}. w = of_nat (sum P {..<n}) - of_nat C)"

lemma snap_mono: "snap n P u w \<Longrightarrow> (\<And>p. u p \<le> u' p) \<Longrightarrow> snap n P u' w"
  unfolding snap_def using sum_mono [of "{..<n}" u u'] order_trans by blast

lemma snap_zero:
  assumes "snap n P u 0" and "sum P {..<n} < 2 ^ 64" and "sum u {..<n} \<le> sum P {..<n}"
  shows "sum u {..<n} = sum P {..<n}"
proof -
  obtain C where C: "C \<le> sum u {..<n}" "(of_nat (sum P {..<n}) :: u64) = of_nat C"
    using assms(1) by (auto simp: snap_def simp del: of_nat_sum)
  have "unat (of_nat (sum P {..<n}) :: u64) = sum P {..<n}" "unat (of_nat C :: u64) = C"
    using assms(2,3) C(1) by (simp_all add: unat_of_nat take_bit_nat_eq_self del: of_nat_sum)
  then show ?thesis using C assms(3) by (metis le_antisym)
qed

definition zero_pe :: "collective_index \<Rightarrow> cdt_pe \<Rightarrow> bool" where
  "zero_pe t x \<longleftrightarrow> sd_complete (status_of t (cp_branch x)) \<or> (\<exists>c. cp_inbox x = [c] \<and> cn_gcount c = 0)"

definition sys_ok ::
  "collective_index \<Rightarrow> collective_index \<Rightarrow> destination \<Rightarrow> nat \<Rightarrow> (nat \<Rightarrow> nat) \<Rightarrow> (nat \<Rightarrow> nat)
    \<Rightarrow> nat set \<Rightarrow> cdt_pe list \<Rightarrow> bool" where
  "sys_ok det t cb n P u St s \<longleftrightarrow> length s = n \<and>
     (\<forall>p < n. pe_ok det t cb (P p) (u p) (p \<in> St) (snap n P u) (s ! p)) \<and>
     ((\<forall>x \<in> set s. zero_pe t x) \<or> (\<forall>x \<in> set s. \<not> zero_pe t x))"

lemma fresh_not_zero: "fresh_pe t x \<Longrightarrow> \<not> zero_pe t x"
  by (auto simp: fresh_pe_def zero_pe_def)

lemma waiting_not_zero: "waiting t cb P u x \<Longrightarrow> \<not> zero_pe t x"
  by (auto simp: waiting_def armed_def zero_pe_def)

text \<open>The steps of one PE that keep the state of the others.\<close>

lemma local_ok:
  assumes "pe_ok det t cb P u started Q x" and "cdt_event_ok n t cb (At p l)" and "\<not> produces t (At p l)"
    and "starter (At p l) \<noteq> [] \<Longrightarrow> \<not> started"
  shows "\<exists>x'. local_step l x = Inr x' \<and> (zero_pe t x' \<longleftrightarrow> zero_pe t x) \<and>
    pe_ok det t cb P (u + used_by t p (At p l)) (started \<or> starter (At p l) \<noteq> []) Q x'"
proof (cases l)
  case (LProduce idx n)
  then show ?thesis using local_produce_ok [OF assms(1)] assms(3)
    by (auto simp: zero_pe_def cd_produce_eq)
next
  case (LConsume idx n)
  then show ?thesis using local_consume_ok [OF assms(1), of idx n]
    by (auto simp: zero_pe_def cd_consume_eq)
next
  case (LStart a idx c)
  then have "\<not> started" "a \<noteq> 0" "idx = t" "c = cb" using assms(2,4) by auto
  then have f: "pe_ok det t cb P u False Q x" "fresh_pe t x" "local_step l x = Inr (started_pe t cb a x)"
    using assms(1) start_fresh LStart by (auto simp: pe_ok_def)
  show ?thesis
    using local_start_ok [OF f(1) \<open>a \<noteq> 0\<close>] f fresh_not_zero [OF f(2)] LStart waiting_not_zero by auto
next
  case LReceive
  from assms(1) show ?thesis
  proof (cases rule: local_receive_ok)
    case none
    then show ?thesis using LReceive assms(1) by simp
  next
    case (again w)
    then have "\<not> zero_pe t x" using assms(1)
      by (auto simp: pe_ok_def stage_defs zero_pe_def split: if_splits)
    then show ?thesis using LReceive again waiting_not_zero by auto
  next
    case complete
    then have "zero_pe t x" "zero_pe t (done_pe t cb x)"
      by (auto simp: zero_pe_def contribution_def over_def)
    then show ?thesis using LReceive complete by auto
  qed
qed

text \<open>Every event of a run in which \<open>t\<close> is no longer produced keeps the invariant.\<close>

lemma sys_ok_at:
  assumes ok: "sys_ok det t cb n P u St s" and e: "cdt_event_ok n t cb (At p l)" "\<not> produces t (At p l)"
    and fresh: "\<forall>q \<in> set (starter (At p l)). q \<notin> St"
  shows "\<exists>x. cdt_step (At p l) s = Inr (s[p := x]) \<and>
    sys_ok det t cb n P (\<lambda>q. u q + used_by t q (At p l)) (St \<union> set (starter (At p l))) (s[p := x])"
proof -
  let ?u = "\<lambda>q. u q + used_by t q (At p l)"
  have len: "length s = n" and pe: "\<And>q. q < n \<Longrightarrow> pe_ok det t cb (P q) (u q) (q \<in> St) (snap n P u) (s ! q)"
    using ok by (auto simp: sys_ok_def)
  have p: "p < n" using e(1) by (cases l) auto
  have st: "set (starter (At p l)) = (if starter (At p l) = [] then {} else {p})" by (cases l) auto
  have "starter (At p l) \<noteq> [] \<Longrightarrow> p \<notin> St" using fresh st by auto
  from local_ok [OF pe [OF p] e this] obtain x where x: "local_step l (s ! p) = Inr x"
    "zero_pe t x \<longleftrightarrow> zero_pe t (s ! p)"
    "pe_ok det t cb (P p) (?u p) (p \<in> St \<or> starter (At p l) \<noteq> []) (snap n P u) x" by blast
  have other: "used_by t q (At p l) = 0" if "q \<noteq> p" for q using that by (cases l) auto
  have "pe_ok det t cb (P q) (?u q) (q \<in> St \<union> set (starter (At p l))) (snap n P ?u) (s[p := x] ! q)"
    if q: "q < n" for q
  proof (rule pe_ok_mono)
    show "pe_ok det t cb (P q) (?u q) (q \<in> St \<union> set (starter (At p l))) (snap n P u) (s[p := x] ! q)"
      using x(3) pe [OF q] other [of q] q len st by (cases "q = p") (auto split: if_splits)
  qed (auto intro: snap_mono)
  moreover have "(\<forall>y \<in> set (s[p := x]). zero_pe t y) \<or> (\<forall>y \<in> set (s[p := x]). \<not> zero_pe t y)"
  proof -
    have "zero_pe t (s[p := x] ! q) \<longleftrightarrow> zero_pe t (s ! q)" if "q < n" for q
      using that x(2) len by (cases "q = p") auto
    then show ?thesis using ok len unfolding sys_ok_def all_set_conv_all_nth by auto
  qed
  ultimately show ?thesis using x(1) p len by (intro exI [of _ x]) (simp add: sys_ok_def)
qed

lemma foldl_count_add: "foldl count_add c cs = c\<lparr>cn_gcount := cn_gcount c + sum_list (map cn_gcount cs)\<rparr>"
  by (induction cs arbitrary: c) (simp_all add: count_add_def add.assoc)

lemma sys_ok_reduce:
  assumes ok: "sys_ok det t cb n P u St s" and all: "\<forall>x \<in> set s. cp_sent x \<noteq> []"
    and perm: "mset ps = mset [0..<n]" and n: "0 < n"
  obtains c where "combined (next_counts s ps) = Some c"
    and "sys_ok det t cb n P u St (map (give_result c) s)"
    and "cn_gcount c = (\<Sum>p<n. cn_gcount (hd (cp_sent (s ! p))))"
proof -
  have len: "length s = n" and pe: "\<And>q. q < n \<Longrightarrow> pe_ok det t cb (P q) (u q) (q \<in> St) (snap n P u) (s ! q)"
    using ok by (auto simp: sys_ok_def)
  have w: "waiting t cb (P q) (u q) (s ! q)" "q \<in> St" "cd_col (cp_branch (s ! q)) = det" if q: "q < n" for q
  proof -
    have "cp_sent (s ! q) \<noteq> []" using all len q by simp
    then show "waiting t cb (P q) (u q) (s ! q)" "q \<in> St" "cd_col (cp_branch (s ! q)) = det"
      using pe [OF q] by (auto simp: pe_ok_def got_def over_def fresh_pe_def split: if_splits)
  qed
  then have "\<forall>q. \<exists>v. q < n \<longrightarrow> v \<le> u q \<and> cp_sent (s ! q) = [contribution t (s ! q) (of_nat (P q) - of_nat v)]"
    by (auto simp: waiting_def)
  then obtain v where v: "\<And>q. q < n \<Longrightarrow> v q \<le> u q"
    "\<And>q. q < n \<Longrightarrow> cp_sent (s ! q) = [contribution t (s ! q) (of_nat (P q) - of_nat (v q))]" by metis
  have set: "set ps = {..<n}" using mset_eq_setD [OF perm] by (simp add: atLeast0LessThan)
  then have ne: "ps \<noteq> []" using n by (metis empty_set lessThan_iff empty_iff)
  let ?f = "\<lambda>p. cn_gcount (hd (cp_sent (s ! p)))"
  obtain q qs where ps: "ps = q # qs" using ne by (cases ps) auto
  then have q: "q < n" using set by auto
  define c where "c = foldl count_add (hd (cp_sent (s ! q))) (next_counts s qs)"
  have c: "combined (next_counts s ps) = Some c" by (simp add: ps c_def next_counts_def)
  have g: "cn_gcount c = sum_list (map ?f ps)"
    by (simp add: c_def foldl_count_add ps next_counts_def o_def)
  have tgt: "cn_detector c = det" "cn_target c = t"
    by (simp_all add: c_def foldl_count_add v(2) [OF q] contribution_def w(3) [OF q])
  have "mset (map ?f ps) = mset (map ?f [0..<n])" using perm by (simp only: mset_map)
  then have "sum_list (map ?f ps) = sum_list (map ?f [0..<n])"
    using sum_mset_sum_list [of "map ?f ps"] sum_mset_sum_list [of "map ?f [0..<n]"] by simp
  also have "\<dots> = (\<Sum>p<n. ?f p)" by (simp add: interv_sum_list_conv_sum_set_nat atLeast0LessThan)
  finally have sum: "cn_gcount c = (\<Sum>p<n. ?f p)" using g by simp
  also have "\<dots> = (\<Sum>p<n. of_nat (P p) - of_nat (v p))"
    by (rule sum.cong) (auto simp: v(2) contribution_def)
  also have "\<dots> = of_nat (sum P {..<n}) - of_nat (sum v {..<n})" by (simp add: sum_subtractf)
  finally have "snap n P u (cn_gcount c)"
    unfolding snap_def by (intro exI [of _ "sum v {..<n}"]) (auto intro: sum_mono v(1))
  then have got: "got t cb (snap n P u) (give_result c (s ! r))" if "r < n" for r
    using w(1,3) [OF that] v(2) [OF that] tgt
    by (cases c) (auto simp: got_def waiting_def armed_def give_result_def contribution_def)
  have "pe_ok det t cb (P r) (u r) (r \<in> St) (snap n P u) (give_result c (s ! r))" if "r < n" for r
    using w(2) [OF that] pe [OF that] got [OF that] by (simp add: pe_ok_def give_result_def)
  moreover have "zero_pe t (map (give_result c) s ! q) \<longleftrightarrow> cn_gcount c = 0" if "q < n" for q
    using w(1) [OF that] that len by (auto simp: waiting_def armed_def zero_pe_def give_result_def)
  ultimately have "sys_ok det t cb n P u St (map (give_result c) s)"
    using len by (auto simp: sys_ok_def all_set_conv_all_nth)
  then show thesis using that c sum by blast
qed

lemma sys_ok_step:
  assumes ok: "sys_ok det t cb n P u St s" and e: "cdt_event_ok n t cb e" "\<not> produces t e"
    and fresh: "\<forall>q \<in> set (starter e). q \<notin> St"
  shows "\<exists>s'. cdt_step e s = Inr s' \<and>
    sys_ok det t cb n P (\<lambda>q. u q + used_by t q e) (St \<union> set (starter e)) s'"
proof (cases e)
  case (At p l)
  then show ?thesis using sys_ok_at [OF ok, of p l] e fresh by blast
next
  case (Reduce ps)
  show ?thesis
  proof (cases "mset ps = mset [0..<n] \<and> (\<forall>x \<in> set s. cp_sent x \<noteq> []) \<and> 0 < n")
    case True
    then obtain c where "combined (next_counts s ps) = Some c"
      "sys_ok det t cb n P u St (map (give_result c) s)"
      using sys_ok_reduce [OF ok] by blast
    moreover have "length s = n" using ok by (simp add: sys_ok_def)
    ultimately show ?thesis using True Reduce by simp
  next
    case False
    then have "cdt_step e s = Inr s" using ok Reduce
      by (auto simp: sys_ok_def next_counts_def)
    then show ?thesis using ok Reduce by simp
  qed
qed

lemma made_Cons [simp]: "made t p [] = 0" "made t p (e # es) = made_by t p e + made t p es"
  by (simp_all add: made_def)

lemma used_Cons [simp]: "used t p [] = 0" "used t p (e # es) = used_by t p e + used t p es"
  by (simp_all add: used_def)

lemma starters_Cons [simp]: "starters [] = []" "starters (e # es) = starter e @ starters es"
  by (simp_all add: starters_def)

lemma sys_ok_run:
  assumes "sys_ok det t cb n P u St s" and "\<forall>e \<in> set es. cdt_event_ok n t cb e \<and> \<not> produces t e"
    and "distinct (starters es)" and "set (starters es) \<inter> St = {}"
  shows "\<exists>s'. cdt_run es s = Inr s' \<and>
    sys_ok det t cb n P (\<lambda>q. u q + used t q es) (St \<union> set (starters es)) s'"
  using assms
proof (induction es arbitrary: s u St)
  case (Cons e es)
  from sys_ok_step [OF Cons.prems(1), of e] Cons.prems obtain s1 where
    1: "cdt_step e s = Inr s1" "sys_ok det t cb n P (\<lambda>q. u q + used_by t q e) (St \<union> set (starter e)) s1"
    by auto
  have "set (starters es) \<inter> (St \<union> set (starter e)) = {}" using Cons.prems(3,4) by auto
  from Cons.IH [OF 1(2) _ _ this] Cons.prems(2,3) show ?case
    by (simp add: 1(1) add.assoc Un_assoc)
qed simp

text \<open>Before any detection nothing is sent, so production is allowed.\<close>

lemma sys_ok_before:
  assumes "sys_ok det t cb n P u {} s" and "cdt_event_ok n t cb e" and "starter e = []"
  shows "\<exists>s'. cdt_step e s = Inr s' \<and>
    sys_ok det t cb n (\<lambda>q. P q + made_by t q e) (\<lambda>q. u q + used_by t q e) {} s'"
proof (cases "produces t e")
  case False
  then have "made_by t q e = 0" for q by (cases "(t, q, e)" rule: made_by.cases) auto
  then show ?thesis using sys_ok_step [OF assms(1,2) False] assms(3) by simp
next
  case True
  then obtain p m where e: "e = At p (LProduce t m)" by (cases "(t, e)" rule: produces.cases) auto
  let ?P = "\<lambda>q. P q + made_by t q e"
  let ?x = "(s ! p)\<lparr>cp_branch := cd_produce t m (cp_branch (s ! p))\<rparr>"
  have p: "p < n" using assms(2) e by simp
  have len: "length s = n" and pe: "\<And>q. q < n \<Longrightarrow> pe_ok det t cb (P q) (u q) False (snap n P u) (s ! q)"
    using assms(1) by (auto simp: sys_ok_def)
  have fr: "fresh_pe t (s[p := ?x] ! q)" if "q < n" for q
    using pe [OF that] that len by (cases "q = p") (auto simp: pe_ok_def fresh_pe_def cd_produce_eq)
  have "pe_ok det t cb (?P q) (u q) False (snap n ?P u) (s[p := ?x] ! q)" if "q < n" for q
    using pe [OF that] fr [OF that] that len e
    by (cases "q = p") (auto simp: pe_ok_def cd_produce_eq algebra_simps)
  moreover have "\<forall>x \<in> set (s[p := ?x]). \<not> zero_pe t x"
    using fr fresh_not_zero len by (auto simp: all_set_conv_all_nth)
  ultimately have "sys_ok det t cb n ?P u {} (s[p := ?x])" using len by (simp add: sys_ok_def)
  moreover have "cdt_step e s = Inr (s[p := ?x])" using e p len by simp
  moreover have "(\<lambda>q. u q + used_by t q e) = u" using e by auto
  ultimately show ?thesis by auto
qed

lemma sys_ok_run_before:
  assumes "sys_ok det t cb n P u {} s" and "\<forall>e \<in> set es. cdt_event_ok n t cb e \<and> starter e = []"
  shows "\<exists>s'. cdt_run es s = Inr s' \<and>
    sys_ok det t cb n (\<lambda>q. P q + made t q es) (\<lambda>q. u q + used t q es) {} s'"
  using assms
proof (induction es arbitrary: s u P)
  case (Cons e es)
  from sys_ok_before [OF Cons.prems(1), of e] Cons.prems(2) obtain s1 where
    1: "cdt_step e s = Inr s1"
      "sys_ok det t cb n (\<lambda>q. P q + made_by t q e) (\<lambda>q. u q + used_by t q e) {} s1" by auto
  from Cons.IH [OF 1(2)] Cons.prems(2) show ?case by (simp add: 1(1) add.assoc)
qed simp

lemma sys_ok_init: "sys_ok det t cb n (\<lambda>_. 0) (\<lambda>_. 0) {} (cdt_init det n)"
  by (auto simp: sys_ok_def cdt_init_def pe_ok_def fresh_pe_def zero_pe_def status_of_def
      new_completion_def new_status_def)

text \<open>
  The runs with which the detector is meant to be used: first the events \<open>es1\<close> without a
  detection, in which everything is produced, then \<open>es2\<close>, where every PE starts the detection
  of \<open>t\<close> at most once.
\<close>

definition detection_run ::
  "nat \<Rightarrow> collective_index \<Rightarrow> destination \<Rightarrow> cdt_event list \<Rightarrow> cdt_event list \<Rightarrow> bool" where
  "detection_run n t cb es1 es2 \<longleftrightarrow> (\<forall>e \<in> set (es1 @ es2). cdt_event_ok n t cb e) \<and>
     starters es1 = [] \<and> (\<forall>e \<in> set es2. \<not> produces t e) \<and> distinct (starters es2)"

definition total :: "(nat \<Rightarrow> cdt_event list \<Rightarrow> nat) \<Rightarrow> nat \<Rightarrow> cdt_event list \<Rightarrow> nat" where
  "total f n es = (\<Sum>p<n. f p es)"

lemma made_append: "made t p (xs @ ys) = made t p xs + made t p ys"
  by (simp add: made_def)

lemma used_append: "used t p (xs @ ys) = used t p xs + used t p ys"
  by (simp add: used_def)

lemma made_none: "\<forall>e \<in> set es. \<not> produces t e \<Longrightarrow> made t p es = 0"
proof (induction es)
  case (Cons e es)
  then show ?case by (cases "(t, p, e)" rule: made_by.cases) auto
qed simp

lemma cdt_run_append: "cdt_run (xs @ ys) s = bind_res (cdt_run xs s) (cdt_run ys)"
proof (induction xs arbitrary: s)
  case (Cons x xs)
  then show ?case by (cases "cdt_step x s") auto
qed simp

lemma detection_run_ok:
  assumes "detection_run n t cb es1 es2"
  shows "\<exists>s. cdt_run (es1 @ es2) (cdt_init det n) = Inr s \<and>
    sys_ok det t cb n (\<lambda>p. made t p (es1 @ es2)) (\<lambda>p. used t p (es1 @ es2)) (set (starters es2)) s"
proof -
  have d: "\<forall>e \<in> set es1. cdt_event_ok n t cb e \<and> starter e = []"
    "\<forall>e \<in> set es2. cdt_event_ok n t cb e \<and> \<not> produces t e" "distinct (starters es2)"
    using assms by (auto simp: detection_run_def starters_def)
  obtain s1 where 1: "cdt_run es1 (cdt_init det n) = Inr s1"
    "sys_ok det t cb n (\<lambda>p. made t p es1) (\<lambda>p. used t p es1) {} s1"
    using sys_ok_run_before [OF sys_ok_init d(1)] by auto
  from sys_ok_run [OF 1(2) d(2,3)] obtain s where "cdt_run es2 s1 = Inr s"
    "sys_ok det t cb n (\<lambda>p. made t p es1) (\<lambda>p. used t p es1 + used t p es2) (set (starters es2)) s"
    by auto
  moreover have "made t p es2 = 0" for p using d(2) by (simp add: made_none)
  ultimately show ?thesis using 1(1) by (auto simp: cdt_run_append made_append used_append)
qed

end
