(* ===== verification/Cdt_Detect.thy ===== *)
theory Cdt_Detect
  imports Cdt_Props
begin

text \<open>
  The properties of completion detection: it is sound when the events are produced before
  it starts, it then ends, and what goes wrong otherwise.
\<close>

section \<open>Soundness\<close>

lemma sys_ok_over:
  assumes ok: "sys_ok det t cb n P u St s" and x: "x \<in> set s"
  shows "cp_notes x = [] \<and> \<not> sd_complete (status_of t (cp_branch x)) \<or> cp_notes x = [cb] \<and> snap n P u 0"
proof -
  obtain p where "p < n" "x = s ! p" using ok x by (auto simp: sys_ok_def in_set_conv_nth)
  then have "pe_ok det t cb (P p) (u p) (p \<in> St) (snap n P u) x" using ok by (auto simp: sys_ok_def)
  then show ?thesis by (auto simp: pe_ok_def stage_defs split: if_splits)
qed

text \<open>
  C11. When everything is produced before the detection starts, completion is declared on no
  PE before all events are consumed: at any later point, however consumption, contributions
  and results are interleaved, nothing has failed, every PE has sent its callback at most
  once, and if any PE has, or is marked complete, then as much has been consumed as was produced.
\<close>

theorem completion_sound:
  assumes "detection_run n t cb es1 es2"
    and "total (made t) n (es1 @ es2) < 2 ^ 64"
    and "total (used t) n (es1 @ es2) \<le> total (made t) n (es1 @ es2)"
  shows "\<exists>s. cdt_run (es1 @ es2) (cdt_init det n) = Inr s \<and>
    (\<forall>x \<in> set s. cp_notes x = [] \<and> \<not> sd_complete (status_of t (cp_branch x)) \<or>
      cp_notes x = [cb] \<and> total (used t) n (es1 @ es2) = total (made t) n (es1 @ es2))"
proof -
  obtain s where s: "cdt_run (es1 @ es2) (cdt_init det n) = Inr s"
    "sys_ok det t cb n (\<lambda>p. made t p (es1 @ es2)) (\<lambda>p. used t p (es1 @ es2)) (set (starters es2)) s"
    using detection_run_ok [OF assms(1)] by blast
  show ?thesis
    using s(1) sys_ok_over [OF s(2)] snap_zero [of n] assms(2,3) unfolding total_def by metis
qed

section \<open>The detection ends\<close>

text \<open>The steps of the detection itself: reductions and the receipt of their results.\<close>

fun talks :: "cdt_event \<Rightarrow> bool" where
  "talks (At p LReceive) \<longleftrightarrow> True"
| "talks (Reduce ps) \<longleftrightarrow> True"
| "talks _ \<longleftrightarrow> False"

inductive talk_step :: "cdt_pe list \<Rightarrow> cdt_pe list \<Rightarrow> bool" where
  talk: "talks e \<Longrightarrow> cdt_step e s = Inr s' \<Longrightarrow> s' \<noteq> s \<Longrightarrow> talk_step s s'"

text \<open>
  The measure: the results still to be received, and the rounds still to come. A round in which
  all contributions are up to date is the last.
\<close>

definition exact :: "collective_index \<Rightarrow> cdt_pe \<Rightarrow> bool" where
  "exact t x \<longleftrightarrow> (\<forall>c \<in> set (cp_sent x). cn_gcount c = sd_lcount (status_of t (cp_branch x)))"

definition pending :: "cdt_pe list \<Rightarrow> nat" where
  "pending s = sum_list (map (\<lambda>x. if cp_inbox x = [] then 0 else 1) s)"

definition rounds_left :: "collective_index \<Rightarrow> cdt_pe list \<Rightarrow> nat" where
  "rounds_left t s = (if \<exists>x \<in> set s. zero_pe t x then 0
     else if \<forall>x \<in> set s. exact t x then length s + 1 else 2 * length s + 2)"

lemma pending_le: "pending s \<le> length s"
  unfolding pending_def by (induction s) auto

lemma pending_update:
  "p < length s \<Longrightarrow> cp_inbox (s ! p) \<noteq> [] \<Longrightarrow> cp_inbox x = [] \<Longrightarrow> pending (s[p := x]) < pending s"
  using sum_list_map_update [of p s "\<lambda>x. if cp_inbox x = [] then 0 else 1" x]
  by (simp add: pending_def)

lemma pending_zero: "\<forall>x \<in> set s. cp_inbox x = [] \<Longrightarrow> pending s = 0"
  by (simp add: pending_def)

text \<open>Nothing is produced or consumed any more, and everything produced is consumed.\<close>

definition quiet_ok ::
  "collective_index \<Rightarrow> collective_index \<Rightarrow> destination \<Rightarrow> nat \<Rightarrow> (nat \<Rightarrow> nat) \<Rightarrow> (nat \<Rightarrow> nat)
    \<Rightarrow> cdt_pe list \<Rightarrow> bool" where
  "quiet_ok det t cb n P u s \<longleftrightarrow> sys_ok det t cb n P u {..<n} s \<and> sum u {..<n} = sum P {..<n}"

lemma ok_pe:
  "quiet_ok det t cb n P u s \<Longrightarrow> p < n \<Longrightarrow> length s = n \<and> pe_ok det t cb (P p) (u p) True (snap n P u) (s ! p)"
  by (auto simp: quiet_ok_def sys_ok_def)

lemma receive_step:
  assumes "quiet_ok det t cb n P u s" and p: "p < n" and ne: "cp_inbox (s ! p) \<noteq> []"
  shows "\<exists>s'. cdt_step (At p LReceive) s = Inr s' \<and> quiet_ok det t cb n P u s' \<and> s' \<noteq> s \<and>
    pending s' + rounds_left t s' < pending s + rounds_left t s"
proof -
  have len: "length s = n" and pe: "pe_ok det t cb (P p) (u p) True (snap n P u) (s ! p)"
    using ok_pe [OF assms(1) p] by auto
  have e: "cdt_event_ok n t cb (At p LReceive)" using p by simp
  obtain x where x: "local_step LReceive (s ! p) = Inr x" "cp_inbox x = []"
    "zero_pe t x = zero_pe t (s ! p)" "zero_pe t (s ! p) \<or> exact t x"
  proof -
    from pe show thesis
    proof (cases rule: local_receive_ok)
      case none
      then show thesis using ne by simp
    next
      case (again w)
      moreover have "\<not> zero_pe t (s ! p)" using pe again(2,3)
        by (auto simp: pe_ok_def stage_defs zero_pe_def)
      ultimately show thesis using that waiting_not_zero
        by (auto simp: again_pe_def Let_def exact_def contribution_def)
    next
      case complete
      then have "zero_pe t (s ! p)" "zero_pe t (done_pe t cb (s ! p))"
        by (auto simp: zero_pe_def contribution_def over_def)
      then show thesis using that complete by (simp add: over_def)
    qed
  qed
  have step: "cdt_step (At p LReceive) s = Inr (s[p := x])" using x(1) p len by simp
  obtain s' where s': "cdt_step (At p LReceive) s = Inr s'" "quiet_ok det t cb n P u s'"
    using sys_ok_step [of det t cb n P u "{..<n}" s "At p LReceive"] assms(1) e by (auto simp: quiet_ok_def)
  then have ok': "quiet_ok det t cb n P u (s[p := x])" using step by simp
  have "s[p := x] \<noteq> s" using x(2) ne p len by (metis nth_list_update_eq)
  moreover have "rounds_left t (s[p := x]) \<le> rounds_left t s"
  proof -
    have "map (zero_pe t) (s[p := x]) = map (zero_pe t) s"
      using x(3) p len by (simp add: map_update list_update_same_conv)
    then have "set (map (zero_pe t) (s[p := x])) = set (map (zero_pe t) s)" by (rule arg_cong)
    then have z: "(\<exists>y \<in> set (s[p := x]). zero_pe t y) \<longleftrightarrow> (\<exists>y \<in> set s. zero_pe t y)"
      unfolding set_map by (metis imageE imageI)
    have "exact t (s[p := x] ! q)" if "\<forall>y \<in> set s. exact t y" "\<not> (\<exists>y \<in> set s. zero_pe t y)" "q < n" for q
      using that x(4) len p by (cases "q = p") auto
    then have "\<forall>y \<in> set (s[p := x]). exact t y"
      if "\<forall>y \<in> set s. exact t y" "\<not> (\<exists>y \<in> set s. zero_pe t y)"
      using that len by (auto simp: all_set_conv_all_nth)
    then show ?thesis unfolding rounds_left_def z by auto
  qed
  ultimately show ?thesis
    using step ok' pending_update [of p s x] ne x(2) p len by fastforce
qed

lemma reduce_step:
  assumes "quiet_ok det t cb n P u s" and "mset ps = mset [0..<n]" and "\<forall>x \<in> set s. cp_sent x \<noteq> []" and "0 < n"
  shows "\<exists>s'. cdt_step (Reduce ps) s = Inr s' \<and> quiet_ok det t cb n P u s' \<and> s' \<noteq> s \<and>
    pending s' + rounds_left t s' < pending s + rounds_left t s"
proof -
  have len: "length s = n" using ok_pe [OF assms(1,4)] by simp
  obtain c where c: "combined (next_counts s ps) = Some c" "quiet_ok det t cb n P u (map (give_result c) s)"
    "cn_gcount c = (\<Sum>p<n. cn_gcount (hd (cp_sent (s ! p))))"
    using sys_ok_reduce [of det t cb n P u "{..<n}" s ps] assms by (auto simp: quiet_ok_def)
  let ?s = "map (give_result c) s"
  have step: "cdt_step (Reduce ps) s = Inr ?s" using assms(2,3) c(1) len by simp
  have w: "waiting t cb (P p) (u p) (s ! p)" if "p < n" for p
    using ok_pe [OF assms(1) that] assms(3) len that
    by (auto simp: pe_ok_def got_def over_def)
  then have "\<not> zero_pe t (s ! p)" "cp_inbox (s ! p) = []" if "p < n" for p
    using waiting_not_zero that by (blast, simp add: waiting_def)
  then have inbox: "\<forall>x \<in> set s. cp_inbox x = []" "\<forall>x \<in> set s. \<not> zero_pe t x"
    using len by (auto simp: all_set_conv_all_nth)
  have "tl (cp_sent (s ! p)) = []" if "p < n" for p using w [OF that] by (auto simp: waiting_def)
  then have sent: "\<forall>x \<in> set s. tl (cp_sent x) = []" using len by (auto simp: all_set_conv_all_nth)
  have "cp_inbox (?s ! 0) \<noteq> cp_inbox (s ! 0)" using inbox assms(4) len by (simp add: give_result_def)
  then have ne: "?s \<noteq> s" by metis
  have left: "pending s = 0" using inbox by (simp add: pending_zero)
  have "pending ?s \<le> n" using pending_le [of ?s] len by simp
  moreover have "rounds_left t ?s + n < rounds_left t s"
  proof (cases "\<forall>x \<in> set s. exact t x")
    case True
    have "cn_gcount c = (\<Sum>p<n. of_nat (P p) - of_nat (u p))"
    proof (unfold c(3), rule sum.cong)
      fix p assume "p \<in> {..<n}"
      then have p: "p < n" by simp
      then have "exact t (s ! p)" "cp_sent (s ! p) \<noteq> []" using True assms(3) len by auto
      then show "cn_gcount (hd (cp_sent (s ! p))) = of_nat (P p) - of_nat (u p)"
        using ok_pe [OF assms(1) p] by (simp add: exact_def pe_ok_def)
    qed simp
    also have "\<dots> = of_nat (sum P {..<n}) - of_nat (sum u {..<n})" by (simp add: sum_subtractf)
    finally have "cn_gcount c = 0" using assms(1) by (simp add: quiet_ok_def del: of_nat_sum)
    then have "\<forall>x \<in> set ?s. zero_pe t x" using inbox by (auto simp: zero_pe_def give_result_def)
    then have "rounds_left t ?s = 0" using assms(4) len by (cases s) (auto simp: rounds_left_def)
    then show ?thesis using True inbox(2) len by (simp add: rounds_left_def)
  next
    case False
    moreover have "\<forall>x \<in> set ?s. exact t x" using sent by (auto simp: exact_def give_result_def)
    ultimately show ?thesis using inbox(2) len by (auto simp: rounds_left_def)
  qed
  ultimately show ?thesis using step c(2) ne left by fastforce
qed

lemma talk_step_ok:
  assumes "talk_step s s'" and "quiet_ok det t cb n P u s"
  shows "quiet_ok det t cb n P u s' \<and> pending s' + rounds_left t s' < pending s + rounds_left t s"
  using assms
proof (cases rule: talk_step.cases)
  case (talk e)
  have len: "length s = n" using assms(2) by (simp add: quiet_ok_def sys_ok_def)
  from talk(1) consider p where "e = At p LReceive" | ps where "e = Reduce ps"
    by (cases e rule: talks.cases) auto
  then show ?thesis
  proof cases
    case 1
    then have "p < n" "cp_inbox (s ! p) \<noteq> []" using talk len by (auto split: if_splits)
    then show ?thesis using receive_step [OF assms(2)] talk 1 by fastforce
  next
    case 2
    have "mset ps = mset [0..<n] \<and> (\<forall>x \<in> set s. cp_sent x \<noteq> [])"
      using talk 2 len by (auto split: if_splits)
    moreover have "0 < n" using talk 2 len by (cases n) (auto simp: next_counts_def split: if_splits)
    ultimately show ?thesis using reduce_step [OF assms(2), of ps] talk 2 by fastforce
  qed
qed

lemma talk_steps_ok:
  "(talk_step ^^ k) s s' \<Longrightarrow> quiet_ok det t cb n P u s \<Longrightarrow> quiet_ok det t cb n P u s' \<and> pending s' + rounds_left t s' + k \<le> pending s + rounds_left t s"
proof (induction k arbitrary: s')
  case (Suc k)
  then obtain s1 where "(talk_step ^^ k) s s1" "talk_step s1 s'" by auto
  then show ?case using Suc.IH [of s1] talk_step_ok [of s1 s'] Suc.prems(2) by fastforce
qed simp

lemma stuck_over:
  assumes "quiet_ok det t cb n P u s" and stuck: "\<not> (\<exists>s'. talk_step s s')" and x: "x \<in> set s"
  shows "cp_notes x = [cb]"
proof -
  have len: "length s = n" using assms(1) by (simp add: quiet_ok_def sys_ok_def)
  then have n: "0 < n" using x by (cases s) auto
  have empty: "cp_inbox (s ! p) = []" if "p < n" for p
    using receive_step [OF assms(1) that] stuck talk_step.intros [of "At p LReceive" s] by force
  have "\<not> (\<forall>x \<in> set s. cp_sent x \<noteq> [])"
    using reduce_step [OF assms(1) refl _ n] stuck talk_step.intros [of "Reduce [0..<n]" s] by force
  then obtain q where q: "q < n" "cp_sent (s ! q) = []" using len by (auto simp: all_set_conv_all_nth)
  then have "over t cb (snap n P u) (s ! q)"
    using ok_pe [OF assms(1) q(1)] empty [OF q(1)] by (auto simp: pe_ok_def waiting_def got_def)
  then have "zero_pe t (s ! q)" by (simp add: over_def zero_pe_def)
  then have all: "\<forall>y \<in> set s. zero_pe t y"
    using assms(1) q len by (auto simp: quiet_ok_def sys_ok_def)
  obtain p where p: "p < n" "x = s ! p" using x len by (auto simp: in_set_conv_nth)
  then have "\<not> waiting t cb (P p) (u p) (s ! p)" using all x waiting_not_zero by blast
  then show ?thesis
    using ok_pe [OF assms(1) p(1)] empty [OF p(1)] p(2) by (auto simp: pe_ok_def got_def over_def)
qed

text \<open>
  C17. When everything produced has been consumed and every PE has started, the detection ends:
  at most \<open>3 n + 2\<close> further reductions and receipts of results can happen in total, no receipt
  fails, and when no more is possible every PE has sent its callback, once.
\<close>

theorem completion_detected:
  assumes "detection_run n t cb es1 es2" and "set (starters es2) = {..<n}"
    and "total (used t) n (es1 @ es2) = total (made t) n (es1 @ es2)"
  shows "\<exists>s. cdt_run (es1 @ es2) (cdt_init det n) = Inr s \<and>
    (\<forall>k s'. (talk_step ^^ k) s s' \<longrightarrow> k \<le> 3 * n + 2 \<and>
      (\<forall>p < n. \<exists>s''. cdt_step (At p LReceive) s' = Inr s'') \<and>
      (\<not> (\<exists>s''. talk_step s' s'') \<longrightarrow> (\<forall>x \<in> set s'. cp_notes x = [cb])))"
proof -
  let ?P = "\<lambda>p. made t p (es1 @ es2)" and ?u = "\<lambda>p. used t p (es1 @ es2)"
  obtain s where s: "cdt_run (es1 @ es2) (cdt_init det n) = Inr s"
    "sys_ok det t cb n ?P ?u (set (starters es2)) s"
    using detection_run_ok [OF assms(1)] by blast
  then have q: "quiet_ok det t cb n ?P ?u s" using assms(2,3) by (simp add: quiet_ok_def total_def)
  have len: "length s = n" using s(2) by (simp add: sys_ok_def)
  have "k \<le> 3 * n + 2 \<and> (\<forall>p < n. \<exists>s''. cdt_step (At p LReceive) s' = Inr s'') \<and>
      (\<not> (\<exists>s''. talk_step s' s'') \<longrightarrow> (\<forall>x \<in> set s'. cp_notes x = [cb]))"
    if k: "(talk_step ^^ k) s s'" for k s'
  proof (intro conjI)
    have ok: "quiet_ok det t cb n ?P ?u s'" and le: "pending s' + rounds_left t s' + k \<le> pending s + rounds_left t s"
      using talk_steps_ok [OF k q] by blast+
    have "pending s + rounds_left t s \<le> 3 * n + 2"
      using pending_le [of s] len by (simp add: rounds_left_def)
    then show "k \<le> 3 * n + 2" using le by linarith
    have "\<exists>s''. cdt_step (At p LReceive) s' = Inr s''" if "p < n" for p
      using sys_ok_step [of det t cb n ?P ?u "{..<n}" s' "At p LReceive"] ok that
      by (auto simp: quiet_ok_def)
    then show "\<forall>p < n. \<exists>s''. cdt_step (At p LReceive) s' = Inr s''" by blast
    show "\<not> (\<exists>s''. talk_step s' s'') \<longrightarrow> (\<forall>x \<in> set s'. cp_notes x = [cb])"
      using stuck_over [OF ok] by blast
  qed
  then show ?thesis using s(1) by blast
qed

section \<open>What goes wrong\<close>

lemmas cdt_eval = start_detection_def get_status_def put_status_def cd_produce_def cd_consume_def
  receive_count_def look_up_def new_status_def new_completion_def status_of_def

definition early_run :: "collective_index \<Rightarrow> destination \<Rightarrow> u64 \<Rightarrow> cdt_event list" where
  "early_run t cb k = [At 0 (LStart 16 t cb), At 0 (LProduce t k), At 1 (LConsume t k),
     At 1 (LProduce t k), At 1 (LStart 32 t cb), Reduce [0, 1], At 0 LReceive, At 1 LReceive]"

text \<open>
  C25. When events are still produced during the detection, completion is declared on all
  PEs while half of the events are outstanding: PE 0 contributes its count before it produces
  \<open>k\<close> events, PE 1 after it has consumed them and produced \<open>k\<close> new ones, so both contribute 0.
\<close>

theorem completion_premature:
  "\<exists>s. cdt_run (early_run t cb k) (cdt_init det 2) = Inr s \<and>
    (\<forall>x \<in> set s. sd_complete (status_of t (cp_branch x)) \<and> cp_notes x = [cb]) \<and>
    total (used t) 2 (early_run t cb k) = unat k \<and> total (made t) 2 (early_run t cb k) = 2 * unat k"
proof -
  have "total (used t) 2 (early_run t cb k) = unat k \<and> total (made t) 2 (early_run t cb k) = 2 * unat k"
    by (simp add: early_run_def total_def numeral_2_eq_2)
  moreover have "\<exists>s. cdt_run (early_run t cb k) (cdt_init det 2) = Inr s \<and>
      (\<forall>x \<in> set s. sd_complete (status_of t (cp_branch x)) \<and> cp_notes x = [cb])"
    by (simp add: early_run_def cdt_init_def numeral_2_eq_2 next_counts_def count_add_def
        give_result_def cdt_eval)
  ultimately show ?thesis by blast
qed

text \<open>All PEs do the same, from the same state.\<close>

lemma all_do_prefix:
  assumes "local_step l x = Inr y" and "k \<le> n"
  shows "cdt_run (map (\<lambda>p. At p l) [0..<k]) (replicate n x) = Inr (replicate k y @ replicate (n - k) x)"
  using assms(2)
proof (induction k)
  case (Suc k)
  then have "replicate (n - k) x = x # replicate (n - Suc k) x" by (metis Suc_diff_Suc Suc_le_lessD replicate_Suc)
  then show ?case using Suc assms(1)
    by (simp add: cdt_run_append nth_append list_update_append replicate_app_Cons_same)
qed simp

lemma all_do:
  "local_step l x = Inr y \<Longrightarrow> cdt_run (map (\<lambda>p. At p l) [0..<n]) (replicate n x) = Inr (replicate n y)"
  using all_do_prefix [of l x y n n] by simp

lemma all_reduce_alike:
  assumes "mset ps = mset [0..<n]" and "0 < n" and "cp_sent x = c # cs" and "cn_gcount c = 0"
  shows "cdt_step (Reduce ps) (replicate n x) = Inr (replicate n (give_result c x))"
proof -
  have set: "set ps = {..<n}" using mset_eq_setD [OF assms(1)] by (simp add: atLeast0LessThan)
  then have "next_counts (replicate n x) ps = replicate (length ps) c"
    using assms(3) by (auto simp: next_counts_def map_replicate_const [symmetric])
  moreover obtain q qs where "ps = q # qs" using set assms(2) by (cases ps) auto
  moreover have "foldl count_add c (replicate m c) = c" for m
    using assms(4) by (simp add: foldl_count_add sum_list_replicate)
  ultimately show ?thesis using assms by (simp add: map_replicate)
qed

text \<open>
  C26. Two detections of one collective, which the example's comment allows, crash every PE: both
  reductions complete it, the first result sends the second detection's message to its
  callback, the second result follows the pointer to that message again.
\<close>

theorem two_detections_crash:
  assumes "0 < n" and "a \<noteq> 0" and "b \<noteq> 0" and "a \<noteq> b" and "p < n" and "mset ps = mset [0..<n]"
  shows "cdt_run (map (\<lambda>p. At p (LStart a t cb)) [0..<n] @ map (\<lambda>p. At p (LStart b t cb2)) [0..<n]
    @ [Reduce ps, Reduce ps, At p LReceive, At p LReceive]) (cdt_init det n) = Inl BadPointer"
proof -
  define x where "x = \<lparr>cp_branch = new_completion det, cp_sent = [], cp_inbox = [], cp_notes = []\<rparr>"
  let ?c = "\<lparr>cn_detector = det, cn_target = t, cn_gcount = 0\<rparr>"
  define br where "br m M = \<lparr>cd_col = det, statii = [t \<mapsto> \<lparr>sd_msg = m, sd_lcount = 0, sd_complete = False\<rparr>],
    cd_msgs = M\<rparr>" for m M
  define y where "y = \<lparr>cp_branch = br a [a \<mapsto> (t, cb)], cp_sent = [?c], cp_inbox = [], cp_notes = []\<rparr>"
  define z where "z = \<lparr>cp_branch = br b [a \<mapsto> (t, cb), b \<mapsto> (t, cb2)], cp_sent = [?c, ?c],
    cp_inbox = [], cp_notes = []\<rparr>"
  have y: "local_step (LStart a t cb) x = Inr y" by (simp add: x_def y_def br_def cdt_eval)
  have z: "local_step (LStart b t cb2) y = Inr z" using assms(3)
    by (simp add: y_def z_def br_def cdt_eval)
  have sent: "cp_sent z = [?c, ?c]" by (simp add: z_def)
  let ?w = "give_result ?c (give_result ?c z)"
  have r1: "cdt_step (Reduce ps) (replicate n z) = Inr (replicate n (give_result ?c z))"
    by (rule all_reduce_alike [OF assms(6,1)]) (simp_all add: sent)
  have r2: "cdt_step (Reduce ps) (replicate n (give_result ?c z)) = Inr (replicate n ?w)"
    by (rule all_reduce_alike [OF assms(6,1)]) (simp_all add: sent give_result_def)
  obtain v where v: "local_step LReceive ?w = Inr v" "local_step LReceive v = Inl BadPointer"
    using assms(3) by (simp add: z_def br_def cdt_eval give_result_def)
  have i: "cdt_init det n = replicate n x" by (simp add: cdt_init_def x_def)
  show ?thesis
    unfolding i using all_do [OF y, of n] all_do [OF z, of n] r1 r2 v assms(5)
    by (simp add: cdt_run_append)
qed

section \<open>Instances\<close>

definition cdt_note :: destination where
  "cdt_note = \<lparr>d_kind = KCallback, d_w0 = 1, d_w1 = 0, d_w2 = 0, d_bc = 0\<rparr>"

text \<open>Two PEs; one event is consumed before the detection and one after the first round.\<close>

definition det_before :: "cdt_event list" where
  "det_before = [At 0 (LProduce (CIndex 0 2) 2), At 1 (LConsume (CIndex 0 2) 1)]"

definition det_after :: "cdt_event list" where
  "det_after = [At 0 (LStart 16 (CIndex 0 2) cdt_note), At 1 (LStart 16 (CIndex 0 2) cdt_note), Reduce [1, 0],
     At 1 LReceive, At 0 (LConsume (CIndex 0 2) 1), At 0 LReceive, Reduce [0, 1], At 0 LReceive]"

lemma two_pes: "{..<2 :: nat} = {0, 1}"
  by auto

lemma det_instance:
  "detection_run 2 (CIndex 0 2) cdt_note det_before det_after"
  "total (used (CIndex 0 2)) 2 (det_before @ det_after) = 2"
  "total (made (CIndex 0 2)) 2 (det_before @ det_after) = 2"
  "set (starters det_after) = {..<2}"
  by (simp_all add: detection_run_def det_before_def det_after_def total_def two_pes starters_def)

lemma completion_premature_witness:
  "\<exists>s. cdt_run (early_run (CIndex 0 2) cdt_note 5) (cdt_init (CIndex 0 1) 2) = Inr s \<and>
    total (used (CIndex 0 2)) 2 (early_run (CIndex 0 2) cdt_note 5) = 5 \<and>
    total (made (CIndex 0 2)) 2 (early_run (CIndex 0 2) cdt_note 5) = 10"
  using completion_premature [of "CIndex 0 2" cdt_note 5 "CIndex 0 1"] by auto

lemma completion_sound_witness:
  "\<exists>s. cdt_run (det_before @ det_after) (cdt_init (CIndex 0 1) 2) = Inr s"
  using completion_sound [OF det_instance(1), of "CIndex 0 1"] det_instance(2,3) by auto

lemma completion_detected_witness:
  "\<exists>s. cdt_run (det_before @ det_after) (cdt_init (CIndex 0 1) 2) = Inr s \<and>
    \<not> (talk_step ^^ 9) s s"
proof -
  obtain s where s: "cdt_run (det_before @ det_after) (cdt_init (CIndex 0 1) 2) = Inr s"
    "\<And>k s'. (talk_step ^^ k) s s' \<Longrightarrow> k \<le> 3 * 2 + 2"
    using completion_detected [OF det_instance(1,4), of "CIndex 0 1"] det_instance(2,3) by auto
  then show ?thesis using s(2) [of 9 s] by auto
qed

lemma two_detections_crash_witness:
  "cdt_run [At 0 (LStart 16 (CIndex 0 2) cdt_note), At 0 (LStart 32 (CIndex 0 2) cdt_note), Reduce [0],
    Reduce [0], At 0 LReceive, At 0 LReceive] (cdt_init (CIndex 0 1) 1) = Inl BadPointer"
  using two_detections_crash [of 1 16 32 0 "[0]" "CIndex 0 2" cdt_note cdt_note "CIndex 0 1"] by simp

end
