(* ===== verification/Cdt_Demo.thy ===== *)
theory Cdt_Demo
  imports Cdt_Detect
begin

text \<open>
  The demonstration in \<open>archive/charmlite/examples/cdt/pgm.cc\<close>: a group whose members each produce one
  event per PE, broadcast a message, and consume an event per message; the member at 0
  starts the detection when it consumes its first event.
\<close>

section \<open>The members\<close>

record test =
  ts_detector :: collective_index
  ts_started :: bool

definition new_test :: "collective_index \<Rightarrow> test" where
  "new_test detector = \<lparr>ts_detector = detector, ts_started = False\<rparr>"

text \<open>
  What a member sends: a message back to itself for the same method, the broadcast of \<open>consume\<close>
  to its group, and the broadcast of \<open>start_detection\<close> to the detector.
\<close>

datatype test_out =
    BackProduce
  | BackConsume
  | BcastConsume collective_index
  | BcastStart collective_index collective_index destination

text \<open>
  \<open>me\<close> is the member's collective, \<open>n\<close> the number of PEs, \<open>br\<close> the local branch of the detector (\<open>None\<close>
  where \<open>local_branch\<close> gives \<open>nullptr\<close>), \<open>exit\<close> the callback \<open>cmk::exit\<close> on all PEs.
\<close>

definition test_produce ::
  "collective_index \<Rightarrow> nat \<Rightarrow> completion option \<Rightarrow> test \<Rightarrow> test_out list \<times> completion option \<times> test" where
  "test_produce me n br x =
     (case br of
        None \<Rightarrow> ([BackProduce], None, x)
      | Some d \<Rightarrow> ([BcastConsume me], Some (cd_produce me (of_nat n) d), x))"

definition test_consume ::
  "collective_index \<Rightarrow> nat \<Rightarrow> destination \<Rightarrow> completion option \<Rightarrow> test
    \<Rightarrow> test_out list \<times> completion option \<times> test" where
  "test_consume me idx exit br x =
     (case br of
        None \<Rightarrow> ([BackConsume], None, x)
      | Some d \<Rightarrow>
          (let d1 = cd_consume me 1 d
           in if \<not> ts_started x \<and> idx = 0 then
                ([BcastStart (ts_detector x) me exit], Some d1, x\<lparr>ts_started := True\<rparr>)
              else ([], Some d1, x)))"

datatype test_call = CallProduce | CallConsume

fun test_calls ::
  "collective_index \<Rightarrow> nat \<Rightarrow> nat \<Rightarrow> destination \<Rightarrow> test_call list \<Rightarrow> completion option \<Rightarrow> test
    \<Rightarrow> test_out list \<times> completion option \<times> test" where
  "test_calls me n idx exit [] br x = ([], br, x)"
| "test_calls me n idx exit (c # cs) br x =
     (case (case c of CallProduce \<Rightarrow> test_produce me n br x | CallConsume \<Rightarrow> test_consume me idx exit br x) of
        (os, br1, x1) \<Rightarrow> (case test_calls me n idx exit cs br1 x1 of
          (os', br2, x2) \<Rightarrow> (os @ os', br2, x2)))"

section \<open>What a member's calls add up to\<close>

text \<open>
  Without a branch every message goes back to its sender. With one, the local count is the number of
  events produced less those consumed, each \<open>produce\<close> is announced, and the member at 0
  broadcasts one start, at its first \<open>consume\<close>.
\<close>

definition starts_of :: "collective_index \<Rightarrow> nat \<Rightarrow> destination \<Rightarrow> test_call list \<Rightarrow> test \<Rightarrow> test_out list" where
  "starts_of me idx exit cs x =
     (if idx = 0 \<and> \<not> ts_started x \<and> CallConsume \<in> set cs then [BcastStart (ts_detector x) me exit] else [])"

lemma test_calls_without:
  "test_calls me n idx exit cs None x
    = (map (\<lambda>c. case c of CallProduce \<Rightarrow> BackProduce | CallConsume \<Rightarrow> BackConsume) cs, None, x)"
  by (induction cs) (auto simp: test_produce_def test_consume_def split: test_call.split)

lemma test_calls_with:
  "\<exists>os d' x'. test_calls me n idx exit cs (Some d) x = (os, Some d', x') \<and>
    sd_lcount (status_of me d') = sd_lcount (status_of me d)
      + of_nat (n * count_list cs CallProduce) - of_nat (count_list cs CallConsume) \<and>
    mset os = replicate_mset (count_list cs CallProduce) (BcastConsume me) + mset (starts_of me idx exit cs x)"
proof (induction cs arbitrary: d x)
  case (Cons c cs)
  show ?case
  proof (cases c)
    case CallProduce
    then show ?thesis using Cons.IH [of "cd_produce me (of_nat n) d" x]
      by (auto simp: test_produce_def cd_produce_eq starts_of_def algebra_simps)
  next
    case CallConsume
    show ?thesis
    proof (cases "\<not> ts_started x \<and> idx = 0")
      case True
      then show ?thesis
        using Cons.IH [of "cd_consume me 1 d" "x\<lparr>ts_started := True\<rparr>"] CallConsume
        by (auto simp: test_consume_def cd_consume_eq starts_of_def Let_def algebra_simps)
    next
      case False
      then show ?thesis using Cons.IH [of "cd_consume me 1 d" x] CallConsume
        by (auto simp: test_consume_def cd_consume_eq starts_of_def Let_def algebra_simps)
    qed
  qed
qed (simp add: starts_of_def)

text \<open>
  On two PEs the demonstration can exit too early. The \<open>produce\<close> message of PE 1 arrives before
  its branch of the detector and is put back, behind a \<open>consume\<close> message of PE 0 and the
  start of the detection: PE 0 has produced two events and consumed one, PE 1 has consumed one.
\<close>

lemma demo_exits_early:
  assumes "test_calls me 2 0 exit [CallProduce, CallConsume] (Some (new_completion det)) (new_test det) = (os, Some d0, x0)"
    and "test_calls me 2 1 exit [CallProduce] None (new_test det) = (os1, None, x1)"
    and "test_calls me 2 1 exit [CallConsume] (Some (new_completion det)) x1 = (os2, Some d1, x2)"
  shows "os1 = [BackProduce] \<and> BcastStart det me exit \<in> set os \<and>
    sd_lcount (status_of me d0) + sd_lcount (status_of me d1) = 0"
  using assms
  by (auto simp: test_produce_def test_consume_def cdt_eval new_test_def Let_def split: if_splits)

end
