(* ===== verification/Lfq_Main.thy ===== *)
theory Lfq_Main
  imports Lfq_Progress Lfq_Open_Props
begin

text \<open>
  The whole program of \<open>archive/lfq/tester.cc\<close>: each of its two processes opens both queues and then runs
  its loops, and nothing makes one wait for the other. A step is one system call, the construction of a queue, or
  one access to the memory of a queue, in any interleaving; so a process can use a queue that the other has
  created and not yet constructed, and the construction then wipes out what it did (see \<open>Lfq_Open_Props\<close>). The
  closing of the queues, after the loops, is in \<open>Lfq_Open\<close> and \<open>Lfq_Close\<close>.
\<close>

section \<open>The program\<close>

text \<open>
  \<open>tn_calls i\<close> is where the calls on queue \<open>i\<close> are (the local variables of its producer and its consumer, with
  the histories); the memory of the queue is that of the shared object. \<open>tn_early\<close> is a history variable, read by no
  step: some process has used a queue that was not constructed.
\<close>

record 'k tmain =
  tn_sys :: "('k, int) osys"
  tn_proc :: "nat \<Rightarrow> tproc"
  tn_calls :: "nat \<Rightarrow> int lsys"
  tn_early :: bool

definition queue_name :: "nat \<Rightarrow> string" where
  "queue_name i = (if i = 0 then ''queue_0_'' else ''queue_1_'')"

text \<open>What is behind the pointer that \<open>open\<close> returned to process \<open>p\<close> for queue \<open>i\<close>.\<close>

definition object_of :: "'k posix \<Rightarrow> nat \<Rightarrow> nat \<Rightarrow> 'k tmain \<Rightarrow> nat option" where
  "object_of K p i s = Option.bind (map_of (op_got (procs (tn_sys s) p)) (queue_name i))
     (v_map (sys_view K (os (tn_sys s))) p)"

definition get_queue :: "nat \<Rightarrow> nat \<Rightarrow> 'k tmain \<Rightarrow> int lsys" where
  "get_queue ob i s = (tn_calls s i)\<lparr>lq := sh_q (shm (tn_sys s) ob)\<rparr>"

definition put_queue :: "nat \<Rightarrow> nat \<Rightarrow> int lsys \<Rightarrow> 'k tmain \<Rightarrow> 'k tmain" where
  "put_queue ob i q s =
     s\<lparr>tn_sys := (tn_sys s)\<lparr>shm := (shm (tn_sys s))(ob := (shm (tn_sys s) ob)\<lparr>sh_q := lq q\<rparr>)\<rparr>,
       tn_calls := (tn_calls s)(i := q)\<rparr>"

text \<open>The queue that the next access of a process goes to.\<close>

definition uses :: "tproc \<Rightarrow> nat \<Rightarrow> nat \<Rightarrow> nat option" where
  "uses pr mine theirs =
     (case tp_phase pr of Sending i \<Rightarrow> Some theirs | Receiving i \<Rightarrow> Some mine | _ \<Rightarrow> None)"

text \<open>Process \<open>p\<close> receives from queue \<open>p\<close>. A pointer with nothing behind it is a crash.\<close>

definition access_step :: "'k posix \<Rightarrow> nat \<Rightarrow> 'k tmain \<Rightarrow> 'k tmain" where
  "access_step K p s =
     (case (object_of K p p s, object_of K p (1 - p) s) of
        (Some m, Some t) \<Rightarrow>
          (case proc_step (tn_proc s p) (get_queue m p s) (get_queue t (1 - p) s) of (pr, mine, theirs) \<Rightarrow>
             (put_queue t (1 - p) theirs (put_queue m p mine s))
               \<lparr>tn_proc := (tn_proc s)(p := pr),
                tn_early := tn_early s \<or> (case uses (tn_proc s p) m t of None \<Rightarrow> False | Some ob \<Rightarrow> ob \<notin> set (built (tn_sys s)))\<rparr>)
      | _ \<Rightarrow> s\<lparr>tn_proc := (tn_proc s)(p := (tn_proc s p)\<lparr>tp_phase := Failed\<rparr>)\<rparr>)"

inductive main_step :: "'k posix \<Rightarrow> nat \<Rightarrow> 'k tmain \<Rightarrow> 'k tmain \<Rightarrow> bool" for K sz where
  m_open: "p < 2 \<Longrightarrow> op_todo (procs (tn_sys s) p) \<noteq> [] \<Longrightarrow>
    main_step K sz s (s\<lparr>tn_sys := open_step K sz p (tn_sys s)\<rparr>)"
| m_access: "p < 2 \<Longrightarrow> op_todo (procs (tn_sys s) p) = [] \<Longrightarrow> main_step K sz s (access_step K p s)"

definition main_start :: "'k \<Rightarrow> 'k tmain" where
  "main_start k = \<lparr>tn_sys = o_start num_msgs tester_queues k, tn_proc = (\<lambda>_. \<lparr>tp_it = 0, tp_phase = Sending 1\<rparr>),
     tn_calls = (\<lambda>_. l_start num_msgs 1), tn_early = False\<rparr>"

definition main_reach :: "'k posix \<Rightarrow> nat \<Rightarrow> 'k \<Rightarrow> 'k tmain \<Rightarrow> bool" where
  "main_reach K sz k = reach (\<lambda>s. s = main_start k) (main_step K sz)"

section \<open>Opening does not look into the queues\<close>

lemma open_step_frame:
  "os (open_step K sz p (s\<lparr>shm := m\<rparr>)) = os (open_step K sz p s)"
  "procs (open_step K sz p (s\<lparr>shm := m\<rparr>)) = procs (open_step K sz p s)"
  "built (open_step K sz p (s\<lparr>shm := m\<rparr>)) = built (open_step K sz p s)"
  by (auto simp: open_step_def ogoto_def Let_def split: list.splits opc.splits option.splits prod.splits)

lemma osys_shm_eq:
  fixes s t :: "('k, 'v) osys"
  shows "os s = os t \<Longrightarrow> procs s = procs t \<Longrightarrow> built s = built t \<Longrightarrow> s\<lparr>shm := shm t\<rparr> = t"
  by (cases s; cases t) simp

text \<open>The openings that a state of the program stems from, whatever was written into the queues since.\<close>

definition opens_ok :: "'k posix \<Rightarrow> nat \<Rightarrow> 'k \<Rightarrow> ('k, int) osys \<Rightarrow> bool" where
  "opens_ok K sz k s \<longleftrightarrow> (\<exists>m. o_reach K sz num_msgs tester_queues k (s\<lparr>shm := m\<rparr>))"

lemma opens_ok_shm: "opens_ok K sz k (s\<lparr>shm := m\<rparr>) \<longleftrightarrow> opens_ok K sz k s"
  by (simp add: opens_ok_def)

lemma opens_ok_step:
  assumes "opens_ok K sz k s"
  shows "opens_ok K sz k (open_step K sz p s)"
proof -
  obtain m where m: "o_reach K sz num_msgs tester_queues k (s\<lparr>shm := m\<rparr>)" using assms by (auto simp: opens_ok_def)
  let ?t = "open_step K sz p (s\<lparr>shm := m\<rparr>)"
  have "(open_step K sz p s)\<lparr>shm := shm ?t\<rparr> = ?t" by (rule osys_shm_eq) (simp_all add: open_step_frame)
  then show ?thesis using o_reach_step [OF m] unfolding opens_ok_def by metis
qed


lemma opens_ok_inv:
  assumes "posix_shm K" and "clean K tester_queues k" and "opens_ok K sz k s"
  obtains m where "o_inv K sz num_msgs tester_queues k (s\<lparr>shm := m\<rparr>)"
proof -
  obtain m where "o_reach K sz num_msgs tester_queues k (s\<lparr>shm := m\<rparr>)" using assms(3) by (auto simp: opens_ok_def)
  from that [OF o_reach_inv [OF assms(1,2) this]] show thesis .
qed

text \<open>What one step of a process that is still opening does, and that it comes nearer to the end.\<close>

definition opens_left :: "oproc \<Rightarrow> nat" where
  "opens_left pr = 4 * length (op_todo pr) - (case op_todo pr of [] \<Rightarrow> 0 | _ \<Rightarrow>
     (case op_pc pr of OExcl \<Rightarrow> 0 | OSize fd \<Rightarrow> 1 | OPlain \<Rightarrow> 1 | OMap fd init \<Rightarrow> 2 | OCons fd a \<Rightarrow> 3 | OFail e \<Rightarrow> 0))"

lemma open_step_effect:
  assumes K: "posix_shm K" and i: "o_inv K sz N names k (s\<lparr>shm := m\<rparr>)" and t: "op_todo (procs s p) \<noteq> []"
  obtains (quiet) pr k' where "open_step K sz p s = ogoto p pr (s\<lparr>os := k'\<rparr>)" "opens_left pr < opens_left (procs s p)"
      "v_name (sys_view K k') = v_name (sys_view K (os s))"
  | (created) pr k' n ob where "open_step K sz p s = ogoto p pr (s\<lparr>os := k'\<rparr>)" "opens_left pr < opens_left (procs s p)"
      "v_name (sys_view K (os s)) n = None" "v_size (sys_view K (os s)) ob = None"
      "v_name (sys_view K k') = (v_name (sys_view K (os s)))(n \<mapsto> ob)"
  | (constructed) pr fd ob where "open_step K sz p s =
        ogoto p pr (s\<lparr>shm := (shm s)(ob := construct fd (shm s ob)), built := built s @ [ob]\<rparr>)"
      "opens_left pr < opens_left (procs s p)" "ob \<notin> set (built s)"
proof -
  let ?v = "sys_view K (os s)"
  have P: "clean K names k" "open_inv N sz names (sys_view K k) ?v m (built s) (procs s)"
    "proc_inv sz (names p) (v_desc (sys_view K k) p) (v_map (sys_view K k) p) (v_name ?v) (v_size ?v)
      (v_desc ?v p) (v_map ?v p) (procs s p)"
    "objs_inv N sz names (v_name (sys_view K k)) (v_name ?v) (v_size ?v) m (built s) (procs s)"
    using o_inv_parts(1,2,4) [OF i] o_inv_parts(3) [OF i, of p] by simp_all
  obtain n r where t': "op_todo (procs s p) = n # r" using t by (cases "op_todo (procs s p)") auto
  have n0: "v_name (sys_view K k) n = None"
    using P(1) proc_inv_next [OF P(3) t'] nth_mem unfolding clean_def by metis
  note fd = proc_fd(3,4) [OF P(3) t']
  show ?thesis
  proof (cases "op_pc (procs s p)")
    case OExcl
    show ?thesis
    proof (cases "v_name ?v n")
      case None
      obtain fd ob k' where c: "open_step K sz p s = ogoto p (got_fd fd (OSize fd) (procs s p)) (s\<lparr>os := k'\<rparr>)"
        "v_size ?v ob = None" "sys_view K k' = ?v\<lparr>v_name := (v_name ?v)(n \<mapsto> ob), v_size := (v_size ?v)(ob \<mapsto> 0),
          v_desc := upd (v_desc ?v) p fd (Some ob)\<rparr>"
        using step_create [OF K t' OExcl None] by blast
      show ?thesis
        by (rule created [OF c(1) _ None c(2)]) (simp_all add: c(3) opens_left_def t' OExcl got_fd_def)
    next
      case (Some ob)
      obtain k' where c: "open_step K sz p s = ogoto p ((procs s p)\<lparr>op_pc := OPlain\<rparr>) (s\<lparr>os := k'\<rparr>)"
        "sys_view K k' = ?v" using step_taken [OF K t' OExcl Some] by blast
      show ?thesis by (rule quiet [OF c(1)]) (simp_all add: c(2) opens_left_def t' OExcl)
    qed
  next
    case (OSize d)
    then obtain ob where ob: "v_name ?v n = Some ob" "v_desc ?v p d = Some ob" using fd [of d] by auto
    obtain k' where c: "open_step K sz p s = ogoto p ((procs s p)\<lparr>op_pc := OMap d True\<rparr>) (s\<lparr>os := k'\<rparr>)"
      "sys_view K k' = ?v\<lparr>v_size := (v_size ?v)(ob \<mapsto> sz)\<rparr>"
      using step_size [OF K t' OSize ob(2) objs_invD(2) [OF P(4) ob(1)], of sz] by blast
    show ?thesis by (rule quiet [OF c(1)]) (simp_all add: c(2) opens_left_def t' OSize)
  next
    case OPlain
    obtain ob where ob: "v_name ?v n = Some ob" using proc_invD(11) [OF P(3)] OPlain t' by (auto simp: pc_inv_def)
    obtain d k' where c: "open_step K sz p s = ogoto p (got_fd d (OMap d False) (procs s p)) (s\<lparr>os := k'\<rparr>)"
      "sys_view K k' = ?v\<lparr>v_desc := upd (v_desc ?v) p d (Some ob)\<rparr>"
      using step_attach [OF K t' OPlain ob, of sz] by blast
    show ?thesis by (rule quiet [OF c(1)]) (simp_all add: c(2) opens_left_def t' OPlain got_fd_def)
  next
    case (OMap d init)
    then obtain ob where ob: "v_name ?v n = Some ob" "v_desc ?v p d = Some ob" using fd [of d] by auto
    obtain a k' where c: "open_step K sz p s =
        ogoto p (if init then (procs s p)\<lparr>op_pc := OCons d a\<rparr> else opened n a (procs s p)) (s\<lparr>os := k'\<rparr>)"
      "sys_view K k' = ?v\<lparr>v_map := upd (v_map ?v) p a (Some ob)\<rparr>"
      using step_map [OF K t' OMap ob(2), of sz] by blast
    show ?thesis by (rule quiet [OF c(1)]) (simp_all add: c(2) opens_left_def t' OMap opened_def split: list.split)
  next
    case (OCons d a)
    from open_inv_build [OF P(2) t' OCons n0] obtain ob where
      b: "v_map ?v p a = Some ob" "v_size ?v ob = Some sz" "ob \<notin> set (built s)" by blast
    show ?thesis
      by (rule constructed [OF step_construct [OF t' OCons b(1,2)] _ b(3)])
        (auto simp: opens_left_def t' OCons opened_def split: list.split)
  next
    case (OFail e)
    then show ?thesis using proc_invD(11) [OF P(3)] by (simp add: pc_inv_def)
  qed
qed


section \<open>The loops of the program\<close>

text \<open>
  As long as no queue was used too early, the program with its queues in shared memory is a state of the loops
  on constructed queues: a queue that is not constructed yet is untouched.
\<close>

definition name_of :: "'k posix \<Rightarrow> 'k tmain \<Rightarrow> nat \<Rightarrow> nat option" where
  "name_of K s i = v_name (sys_view K (os (tn_sys s))) (queue_name i)"

definition backs :: "'k posix \<Rightarrow> 'k tmain \<Rightarrow> nat \<Rightarrow> int lsys \<Rightarrow> bool" where
  "backs K s i q \<longleftrightarrow> (tn_calls s i)\<lparr>lq := lq q\<rparr> = q \<and>
     (\<forall>ob. name_of K s i = Some ob \<longrightarrow> ob \<in> set (built (tn_sys s)) \<longrightarrow> sh_q (shm (tn_sys s) ob) = lq q) \<and>
     ((\<forall>ob. name_of K s i = Some ob \<longrightarrow> ob \<notin> set (built (tn_sys s))) \<longrightarrow> q = l_start num_msgs 1)"

definition untouched :: "'k tmain \<Rightarrow> bool" where
  "untouched s \<longleftrightarrow> (\<forall>ob. ob \<notin> set (built (tn_sys s)) \<longrightarrow> sh_q (shm (tn_sys s) ob) = new_lfq num_msgs)"

definition sim :: "'k posix \<Rightarrow> 'k tmain \<Rightarrow> tsystem \<Rightarrow> bool" where
  "sim K s T \<longleftrightarrow> tn_proc s 0 = ts_p0 T \<and> tn_proc s 1 = ts_p1 T \<and> untouched s \<and>
     backs K s 0 (ts_q0 T) \<and> backs K s 1 (ts_q1 T)"

lemma get_queue_backs:
  assumes "backs K s i q" and "untouched s" and "name_of K s i = Some ob"
  shows "get_queue ob i s = q"
proof (cases "ob \<in> set (built (tn_sys s))")
  case True
  then show ?thesis using assms by (simp add: backs_def get_queue_def)
next
  case False
  then have "q = l_start num_msgs 1" "sh_q (shm (tn_sys s) ob) = new_lfq num_msgs"
    using assms by (auto simp: backs_def untouched_def)
  then show ?thesis using assms(1) by (simp add: backs_def get_queue_def l_start_def)
qed

text \<open>Opening leaves the loops where they are.\<close>

lemma backs_open:
  assumes b: "backs K s i q" and u: "untouched s" and K: "posix_shm K"
    and o: "o_inv K sz num_msgs tester_queues k ((tn_sys s)\<lparr>shm := m\<rparr>)" and t: "op_todo (procs (tn_sys s) p) \<noteq> []"
  shows "backs K (s\<lparr>tn_sys := open_step K sz p (tn_sys s)\<rparr>) i q \<and> untouched (s\<lparr>tn_sys := open_step K sz p (tn_sys s)\<rparr>)"
  using K o t
proof (cases rule: open_step_effect)
  case (quiet pr k')
  then show ?thesis using b u by (simp add: backs_def untouched_def name_of_def)
next
  case (created pr k' n ob)
  have "ob \<notin> set (built (tn_sys s))"
    using objs_invD(6) [OF o_inv_parts(4) [OF o], of ob] created(4) by (auto simp: constructed_def)
  then show ?thesis using b u created by (auto simp: backs_def untouched_def name_of_def)
next
  case (constructed pr fd ob)
  have c: "sh_q (construct fd (shm (tn_sys s) ob)) = lq (l_start num_msgs 1)"
    using u constructed(3) by (simp add: untouched_def construct_def new_lfq_def new_node_def l_start_def Let_def)
  then show ?thesis using b u constructed by (auto simp: backs_def untouched_def name_of_def)
qed

lemma sim_open:
  assumes "sim K s T" and "posix_shm K" and "o_inv K sz num_msgs tester_queues k ((tn_sys s)\<lparr>shm := m\<rparr>)"
    and "op_todo (procs (tn_sys s) p) \<noteq> []"
  shows "sim K (s\<lparr>tn_sys := open_step K sz p (tn_sys s)\<rparr>) T"
proof -
  have "untouched s" "backs K s 0 (ts_q0 T)" "backs K s 1 (ts_q1 T)" using assms(1) by (simp_all add: sim_def)
  then show ?thesis using assms(1) backs_open [OF _ _ assms(2-4)] by (simp add: sim_def)
qed

text \<open>A process that has opened both queues has the objects of the names.\<close>

lemma object_of_opened:
  assumes o: "o_inv K sz num_msgs tester_queues k ((tn_sys s)\<lparr>shm := m\<rparr>)" and p: "p < 2" and t: "op_todo (procs (tn_sys s) p) = []"
  obtains ob where "object_of K p i s = Some ob" "name_of K s i = Some ob"
proof -
  let ?pr = "procs (tn_sys s) p" and ?v = "sys_view K (os (tn_sys s))"
  have P: "proc_inv sz (tester_queues p) (v_desc (sys_view K k) p) (v_map (sys_view K k) p) (v_name ?v) (v_size ?v)
      (v_desc ?v p) (v_map ?v p) ?pr" using o_inv_parts(3) [OF o, of p] by simp
  note J = proc_invD [OF P]
  have n: "map fst (op_got ?pr) = [queue_name 0, queue_name 1]"
    using J(1) t p by (simp add: tester_queues_def queue_name_def)
  define j :: nat where "j = (if i = 0 then 0 else 1)"
  have q: "queue_name i = queue_name j" and j: "j < length (op_got ?pr)" "tester_queues p ! j = queue_name i"
    using arg_cong [OF n, of length] p by (simp_all add: j_def queue_name_def tester_queues_def)
  have f: "fst (op_got ?pr ! j) = queue_name i" using arg_cong [OF n, of "\<lambda>xs. xs ! j"] j(1) q by (simp add: j_def split: if_splits)
  have d: "distinct (map fst (op_got ?pr))" unfolding n by (simp add: queue_name_def)
  have "op_got ?pr ! j = (queue_name i, snd (op_got ?pr ! j))" using f by (metis prod.collapse)
  then have "(queue_name i, snd (op_got ?pr ! j)) \<in> set (op_got ?pr)" using j(1) by (metis nth_mem)
  then have m: "map_of (op_got ?pr) (queue_name i) = Some (snd (op_got ?pr ! j))" using map_of_is_SomeI [OF d] by blast
  have "addrs ?pr ! j = snd (op_got ?pr ! j)" "j < length (addrs ?pr)" using j(1) by (simp_all add: addrs_def nth_append)
  then have "v_map ?v p (snd (op_got ?pr ! j)) = v_name ?v (queue_name i)" using J(7) [of j] j(2) by simp
  moreover have "v_name ?v (queue_name i) \<noteq> None" using J(2) J(4) [of j] j by simp
  ultimately show thesis using that m by (auto simp: object_of_def name_of_def)
qed

lemma proc_step_uses:
  "proc_step pr mine theirs = (pr', mine', theirs') \<Longrightarrow> m \<noteq> t \<Longrightarrow>
    (uses pr m t \<noteq> Some m \<longrightarrow> mine' = mine) \<and> (uses pr m t \<noteq> Some t \<longrightarrow> theirs' = theirs)"
  by (auto simp: proc_step_def uses_def split: tphase.splits prod.splits)


lemma access_backs:
  assumes o: "o_inv K sz num_msgs tester_queues k ((tn_sys s)\<lparr>shm := m\<rparr>)" and p: "p < 2" and t: "op_todo (procs (tn_sys s) p) = []"
    and b: "backs K s p mine" "backs K s (1 - p) theirs" "untouched s"
    and st: "proc_step (tn_proc s p) mine theirs = (pr, mine', theirs')" and e: "\<not> tn_early (access_step K p s)"
  shows "tn_proc (access_step K p s) = (tn_proc s)(p := pr) \<and> untouched (access_step K p s) \<and>
    backs K (access_step K p s) p mine' \<and> backs K (access_step K p s) (1 - p) theirs'"
proof -
  obtain a where a: "object_of K p p s = Some a" "name_of K s p = Some a" by (rule object_of_opened [OF o p t])
  obtain c where c: "object_of K p (1 - p) s = Some c" "name_of K s (1 - p) = Some c" by (rule object_of_opened [OF o p t])
  have n: "queue_name p \<noteq> queue_name (1 - p)" "queue_name p \<in> set (tester_queues p)"
    using p by (auto simp: queue_name_def tester_queues_def less_2_cases_iff)
  then have "v_name (sys_view K k) (queue_name p) = None" using o_inv_parts(1) [OF o] by (simp add: clean_def)
  then have ac: "a \<noteq> c"
    using objs_invD(3) [OF o_inv_parts(4) [OF o], of "queue_name p" a "queue_name (1 - p)"] a(2) c(2) n(1) by (auto simp: name_of_def)
  note g = get_queue_backs [OF b(1,3) a(2)] get_queue_backs [OF b(2,3) c(2)]
  have eq: "access_step K p s = (put_queue c (1 - p) theirs' (put_queue a p mine' s))\<lparr>tn_proc := (tn_proc s)(p := pr),
      tn_early := tn_early s \<or> (case uses (tn_proc s p) a c of None \<Rightarrow> False | Some ob \<Rightarrow> ob \<notin> set (built (tn_sys s)))\<rparr>"
    unfolding access_step_def a(1) c(1) by (simp add: g st del: One_nat_def)
  then have u: "uses (tn_proc s p) a c = Some ob \<Longrightarrow> ob \<in> set (built (tn_sys s))" for ob using e by auto
  note un = proc_step_uses [OF st ac]
  have keep: "a \<notin> set (built (tn_sys s)) \<Longrightarrow> mine' = mine" "c \<notin> set (built (tn_sys s)) \<Longrightarrow> theirs' = theirs"
    using un u by blast+
  have old: "ob \<notin> set (built (tn_sys s)) \<Longrightarrow> sh_q (shm (tn_sys s) ob) = new_lfq num_msgs" for ob using b(3) by (simp add: untouched_def)
  have q: "lq mine = sh_q (shm (tn_sys s) a)" "lq theirs = sh_q (shm (tn_sys s) c)"
    using g by (auto simp: get_queue_def)
  have p1: "p \<noteq> 1 - p" using p by presburger
  have "backs K (access_step K p s) p mine'"
    using a(2) keep(1) b(1) ac p1 unfolding eq by (auto simp: backs_def name_of_def put_queue_def)
  moreover have "backs K (access_step K p s) (1 - p) theirs'"
    using c(2) keep(2) b(2) ac p1 unfolding eq by (auto simp: backs_def name_of_def put_queue_def)
  moreover have "untouched (access_step K p s)"
    using keep old q ac unfolding eq by (auto simp: untouched_def put_queue_def)
  ultimately show ?thesis by (simp add: eq)
qed

lemma sim_access:
  assumes s: "sim K s T" and o: "o_inv K sz num_msgs tester_queues k ((tn_sys s)\<lparr>shm := m\<rparr>)" and p: "p < 2"
    and t: "op_todo (procs (tn_sys s) p) = []" and e: "\<not> tn_early (access_step K p s)"
  shows "sim K (access_step K p s) (if p = 0 then tester_step0 T else tester_step1 T)"
proof -
  have b: "backs K s 0 (ts_q0 T)" "backs K s 1 (ts_q1 T)" "untouched s" "tn_proc s 0 = ts_p0 T" "tn_proc s 1 = ts_p1 T"
    using s by (simp_all add: sim_def)
  note A = access_backs [OF o p t _ _ b(3) _ e]
  show ?thesis
  proof (cases "p = 0")
    case True
    obtain pr mine theirs where st: "proc_step (ts_p0 T) (ts_q0 T) (ts_q1 T) = (pr, mine, theirs)" by (metis prod_cases3)
    then show ?thesis using True A [of "ts_q0 T" "ts_q1 T" pr mine theirs] b by (simp add: sim_def tester_steps_eq)
  next
    case False
    then have p1: "p = 1" using p by simp
    obtain pr mine theirs where st: "proc_step (ts_p1 T) (ts_q1 T) (ts_q0 T) = (pr, mine, theirs)" by (metis prod_cases3)
    then show ?thesis using p1 A [of "ts_q1 T" "ts_q0 T" pr mine theirs] b by (simp add: sim_def tester_steps_eq)
  qed
qed

lemma access_frame:
  "os (tn_sys (access_step K p s)) = os (tn_sys s)" "procs (tn_sys (access_step K p s)) = procs (tn_sys s)"
  "built (tn_sys (access_step K p s)) = built (tn_sys s)" "tn_early s \<Longrightarrow> tn_early (access_step K p s)"
  by (simp_all add: access_step_def put_queue_def split: option.split prod.split)

section \<open>Every reachable state\<close>

definition main_inv :: "'k posix \<Rightarrow> nat \<Rightarrow> 'k \<Rightarrow> 'k tmain \<Rightarrow> bool" where
  "main_inv K sz k s \<longleftrightarrow> opens_ok K sz k (tn_sys s) \<and> (\<not> tn_early s \<longrightarrow> (\<exists>T. tester_reach T \<and> sim K s T))"

lemma main_start_inv:
  assumes c: "clean K tester_queues k"
  shows "main_inv K sz k (main_start k)"
proof -
  have "tester_reach tester_start" unfolding tester_reach_def by (rule reach_init) simp
  moreover have "sim K (main_start k) tester_start"
    by (simp add: sim_def main_start_def tester_start_def untouched_def o_start_def zeroed_def backs_def l_start_def Let_def)
  moreover have "o_reach K sz num_msgs tester_queues k ((tn_sys (main_start k))\<lparr>shm := \<lambda>_. zeroed num_msgs\<rparr>)"
    unfolding o_reach_def by (rule reach_init) (simp add: main_start_def o_start_def)
  ultimately show ?thesis unfolding main_inv_def opens_ok_def by blast
qed

lemma main_inv_step:
  assumes K: "posix_shm K" and c: "clean K tester_queues k" and i: "main_inv K sz k s" and st: "main_step K sz s t"
  shows "main_inv K sz k t"
proof -
  obtain m where o: "o_inv K sz num_msgs tester_queues k ((tn_sys s)\<lparr>shm := m\<rparr>)"
    using opens_ok_inv [OF K c] i by (auto simp: main_inv_def)
  show ?thesis
    using st
  proof cases
    case (m_open p)
    have "\<exists>T. tester_reach T \<and> sim K t T" if "\<not> tn_early t"
    proof -
      have "\<not> tn_early s" using that unfolding m_open(1) by simp
      then obtain T where "tester_reach T" "sim K s T" using i by (auto simp: main_inv_def)
      then show ?thesis using sim_open [OF _ K o m_open(3)] unfolding m_open(1) by blast
    qed
    then show ?thesis using i opens_ok_step [of K sz k "tn_sys s" p] by (simp add: main_inv_def m_open(1))
  next
    case (m_access p)
    have "\<exists>T. tester_reach T \<and> sim K t T" if e: "\<not> tn_early t"
    proof -
      obtain T where T: "tester_reach T" "sim K s T"
        using i e access_frame(4) unfolding main_inv_def m_access(1) by blast
      have "tester_step T (if p = 0 then tester_step0 T else tester_step1 T)" by (auto intro: ts_0 ts_1)
      then have "tester_reach (if p = 0 then tester_step0 T else tester_step1 T)"
        using T(1) unfolding tester_reach_def by (rule reach_step [rotated])
      then show ?thesis using sim_access [OF T(2) o m_access(2,3)] e unfolding m_access(1) by blast
    qed
    moreover have "opens_ok K sz k (tn_sys t)"
    proof -
      have "tn_sys t = (tn_sys s)\<lparr>shm := shm (tn_sys t)\<rparr>"
        by (rule osys_shm_eq [symmetric]) (simp_all add: m_access(1) access_frame)
      then show ?thesis using i opens_ok_shm [of K sz k "shm (tn_sys t)" "tn_sys s"] by (simp add: main_inv_def)
    qed
    ultimately show ?thesis by (simp add: main_inv_def)
  qed
qed

interpretation main_safety: safety "\<lambda>s. s = main_start k" "main_step K sz"
    "\<lambda>s. posix_shm K \<longrightarrow> clean K tester_queues k \<longrightarrow> main_inv K sz k s" for K :: "'k posix" and sz k
proof
  show "posix_shm K \<longrightarrow> clean K tester_queues k \<longrightarrow> main_inv K sz k s" if "s = main_start k" for s
    using that main_start_inv [of K k sz] by simp
  show "posix_shm K \<longrightarrow> clean K tester_queues k \<longrightarrow> main_inv K sz k t"
    if "posix_shm K \<longrightarrow> clean K tester_queues k \<longrightarrow> main_inv K sz k s" and "main_step K sz s t" for s t
    using main_inv_step [of K k sz s t] that by simp
qed

text \<open>
  C19. The whole test, with its openings. Under the condition that no process has used a queue before it was constructed
  (nothing in the program ensures it), in every interleaving of system calls, constructions and accesses to shared memory
  no \<open>open\<close> fails and the test's check never fails: each process receives 1 to 16 in order in each of
  its 16 iterations. When both are finished, each has received all 256 messages and both queues are empty.
\<close>

theorem tester_never_fails:
  assumes "posix_shm K" and "clean K tester_queues k" and "main_reach K sz k s" and "\<not> tn_early s" and "p < 2"
  shows "op_pc (procs (tn_sys s) p) \<noteq> OFail e \<and> tp_phase (tn_proc s p) \<noteq> Failed \<and>
    (tp_phase (tn_proc s 0) = Finished \<and> tp_phase (tn_proc s 1) = Finished \<longrightarrow>
      returned (tn_calls s p) = map (\<lambda>k. Some (int (k mod 16 + 1))) [0..<256] \<and>
      issued (tn_calls s p) = map (\<lambda>k. int (k mod 16 + 1)) [0..<256])"
proof -
  have inv: "main_inv K sz k s" using main_safety.reach_inv [OF assms(3) [unfolded main_reach_def]] assms(1,2) by simp
  obtain T where T: "tester_reach T" "sim K s T" using inv assms(4) by (auto simp: main_inv_def)
  obtain m where "o_reach K sz num_msgs tester_queues k ((tn_sys s)\<lparr>shm := m\<rparr>)" using inv by (auto simp: main_inv_def opens_ok_def)
  then have "op_pc (procs (tn_sys s) p) \<noteq> OFail e" using open_shared(1) [OF assms(1,2)] by fastforce
  moreover have "issued (tn_calls s 0) = issued (ts_q0 T)" "returned (tn_calls s 0) = returned (ts_q0 T)"
    "issued (tn_calls s 1) = issued (ts_q1 T)" "returned (tn_calls s 1) = returned (ts_q1 T)"
    using T(2) unfolding sim_def backs_def by (metis lsys.select_convs(4,5) lsys.surjective lsys.update_convs(1))+
  ultimately show ?thesis using loops_never_fail [OF T(1)] T(2) assms(5) unfolding sim_def less_2_cases_iff by auto
qed


section \<open>Both processes can finish\<close>

lemma opens_left_le:
  assumes "o_inv K sz num_msgs tester_queues k ((tn_sys s)\<lparr>shm := m\<rparr>)"
  shows "opens_left (procs (tn_sys s) p) \<le> 8" "2 \<le> p \<Longrightarrow> op_todo (procs (tn_sys s) p) = []"
proof -
  have "map fst (op_got (procs (tn_sys s) p)) @ op_todo (procs (tn_sys s) p) = tester_queues p"
    using proc_invD(1) [OF o_inv_parts(3) [OF assms, of p]] by simp
  then have "length (op_todo (procs (tn_sys s) p)) \<le> length (tester_queues p)" by (metis le_add2 length_append)
  then show "opens_left (procs (tn_sys s) p) \<le> 8" "2 \<le> p \<Longrightarrow> op_todo (procs (tn_sys s) p) = []"
    unfolding opens_left_def by (simp_all add: tester_queues_def split: if_splits)
qed

text \<open>When all openings have returned, an access is not early.\<close>

lemma access_in_time:
  assumes o: "o_inv K sz num_msgs tester_queues k ((tn_sys s)\<lparr>shm := m\<rparr>)" and all: "all_open (tn_sys s)"
    and p: "p < 2" and e: "\<not> tn_early s"
  shows "\<not> tn_early (access_step K p s)"
proof -
  have t: "op_todo (procs (tn_sys s) p) = []" and all': "all_open ((tn_sys s)\<lparr>shm := m\<rparr>)" using all by (simp_all add: all_open_def)
  have b: "ob \<in> set (built (tn_sys s))" if ob: "name_of K s i = Some ob" for i ob
  proof -
    have n: "queue_name i \<in> set (tester_queues 0)" by (simp add: queue_name_def tester_queues_def)
    from all_open_built [OF o all' n] show ?thesis using ob by (auto simp: name_of_def)
  qed
  obtain a where a: "object_of K p p s = Some a" "name_of K s p = Some a" by (rule object_of_opened [OF o p t])
  obtain c where c: "object_of K p (1 - p) s = Some c" "name_of K s (1 - p) = Some c" by (rule object_of_opened [OF o p t])
  have "uses (tn_proc s p) a c = Some ob \<Longrightarrow> ob \<in> set (built (tn_sys s))" for ob
    using b [OF a(2)] b [OF c(2)] by (auto simp: uses_def split: tphase.splits)
  then show ?thesis using e unfolding access_step_def a(1) c(1) by (auto split: prod.split option.splits)
qed

definition main_left :: "'k posix \<Rightarrow> nat \<Rightarrow> 'k \<Rightarrow> nat \<Rightarrow> 'k tmain \<Rightarrow> bool" where
  "main_left K sz k w s \<longleftrightarrow> main_inv K sz k s \<and> \<not> tn_early s \<and>
     (\<exists>T. sim K s T \<and> tester_live T \<and>
        opens_left (procs (tn_sys s) 0) + opens_left (procs (tn_sys s) 1) + tester_work T \<le> w)"

lemma main_progress:
  assumes K: "posix_shm K" and c: "clean K tester_queues k" and l: "main_left K sz k w s"
    and nf: "\<not> (tp_phase (tn_proc s 0) = Finished \<and> tp_phase (tn_proc s 1) = Finished)"
  shows "\<exists>t w'. main_step K sz s t \<and> w' < w \<and> main_left K sz k w' t"
proof -
  have inv: "main_inv K sz k s" and e: "\<not> tn_early s" using l by (simp_all add: main_left_def)
  obtain T where T: "sim K s T" "tester_live T"
    "opens_left (procs (tn_sys s) 0) + opens_left (procs (tn_sys s) 1) + tester_work T \<le> w"
    using l by (auto simp: main_left_def)
  obtain m where o: "o_inv K sz num_msgs tester_queues k ((tn_sys s)\<lparr>shm := m\<rparr>)"
    using opens_ok_inv [OF K c] inv by (auto simp: main_inv_def)
  show ?thesis
  proof (cases "\<exists>p<2. op_todo (procs (tn_sys s) p) \<noteq> []")
    case True
    then obtain p where p: "p < 2" "op_todo (procs (tn_sys s) p) \<noteq> []" by blast
    let ?t = "s\<lparr>tn_sys := open_step K sz p (tn_sys s)\<rparr>"
    have st: "main_step K sz s ?t" by (rule m_open [OF p])
    obtain pr s' where "open_step K sz p (tn_sys s) = ogoto p pr s'" "procs s' = procs (tn_sys s)"
      "opens_left pr < opens_left (procs (tn_sys s) p)"
      using K o p(2) by (cases rule: open_step_effect) auto
    then have "opens_left (procs (tn_sys ?t) 0) + opens_left (procs (tn_sys ?t) 1)
        < opens_left (procs (tn_sys s) 0) + opens_left (procs (tn_sys s) 1)"
      using p(1) by (auto simp: less_2_cases_iff)
    moreover have "sim K ?t T" by (rule sim_open [OF T(1) K o p(2)])
    moreover have "main_inv K sz k ?t" by (rule main_inv_step [OF K c inv st])
    ultimately have "main_left K sz k (opens_left (procs (tn_sys ?t) 0) + opens_left (procs (tn_sys ?t) 1) + tester_work T) ?t"
      "opens_left (procs (tn_sys ?t) 0) + opens_left (procs (tn_sys ?t) 1) + tester_work T < w"
      using T e unfolding main_left_def by auto
    then show ?thesis using st by blast
  next
    case False
    then have all: "all_open (tn_sys s)" unfolding all_open_def using opens_left_le(2) [OF o] by (meson not_less)
    have "tp_phase (ts_p0 T) \<noteq> Finished \<or> tp_phase (ts_p1 T) \<noteq> Finished" using nf T(1) by (simp add: sim_def)
    from tester_progress [OF T(2) this] obtain T' where T': "tester_step T T'" "tester_work T' < tester_work T" by blast
    then obtain p :: nat where p: "p < 2" "T' = (if p = 0 then tester_step0 T else tester_step1 T)"
    proof cases
      case ts_0
      show thesis by (rule that [of 0]) (simp_all add: ts_0)
    next
      case ts_1
      show thesis by (rule that [of 1]) (simp_all add: ts_1)
    qed
    have t: "op_todo (procs (tn_sys s) p) = []" using all by (simp add: all_open_def)
    have e': "\<not> tn_early (access_step K p s)" by (rule access_in_time [OF o all p(1) e])
    have st: "main_step K sz s (access_step K p s)" by (rule m_access [OF p(1) t])
    have "sim K (access_step K p s) T'" using sim_access [OF T(1) o p(1) t e'] by (simp only: p(2))
    moreover have "main_inv K sz k (access_step K p s)" by (rule main_inv_step [OF K c inv st])
    moreover have "tester_live T'" by (rule tester_step_live [OF T(2) T'(1)])
    ultimately have "main_left K sz k (opens_left (procs (tn_sys s) 0) + opens_left (procs (tn_sys s) 1) + tester_work T') (access_step K p s)"
      using e' unfolding main_left_def by (auto simp: access_frame)
    then show ?thesis using st T'(2) T(3) by (intro exI conjI) (assumption, simp_all)
  qed
qed

interpretation main_end: progress "main_step K sz" "\<lambda>w s. posix_shm K \<and> clean K tester_queues k \<and> main_left K sz k w s"
    "\<lambda>s. tp_phase (tn_proc s 0) = Finished \<and> tp_phase (tn_proc s 1) = Finished" for K :: "'k posix" and sz k
proof
  fix w and s :: "'k tmain"
  assume "posix_shm K \<and> clean K tester_queues k \<and> main_left K sz k w s"
    and "\<not> (tp_phase (tn_proc s 0) = Finished \<and> tp_phase (tn_proc s 1) = Finished)"
  then show "\<exists>t w'. main_step K sz s t \<and> w' < w \<and> posix_shm K \<and> clean K tester_queues k \<and> main_left K sz k w' t"
    using main_progress [of K k sz w s] by blast
qed

text \<open>
  C18. The test of the queue cannot get stuck, unless a process has used a queue before it was constructed: from every other
  state of the whole program, wherever its two processes are in the openings or in their calls and however long they
  have been spinning, at most 10288 further steps (16 of them to open the queues), in a suitable order, finish both.
\<close>

theorem tester_can_finish:
  assumes "posix_shm K" and "clean K tester_queues k" and "main_reach K sz k s" and "\<not> tn_early s"
  shows "\<exists>n t. n \<le> 10288 \<and> (main_step K sz ^^ n) s t \<and>
    tp_phase (tn_proc t 0) = Finished \<and> tp_phase (tn_proc t 1) = Finished"
proof -
  have inv: "main_inv K sz k s" using main_safety.reach_inv [OF assms(3) [unfolded main_reach_def]] assms(1,2) by simp
  obtain T where T: "tester_reach T" "sim K s T" using inv assms(4) by (auto simp: main_inv_def)
  obtain m where o: "o_inv K sz num_msgs tester_queues k ((tn_sys s)\<lparr>shm := m\<rparr>)"
    using opens_ok_inv [OF assms(1,2)] inv by (auto simp: main_inv_def)
  have "tester_live T" using T(1) unfolding tester_reach_def by (rule tester_liveness.reach_inv)
  moreover have "opens_left (procs (tn_sys s) 0) + opens_left (procs (tn_sys s) 1) + tester_work T \<le> 10288"
    using opens_left_le(1) [OF o, of 0] opens_left_le(1) [OF o, of 1] work_bound [of T] by linarith
  ultimately have "main_left K sz k 10288 s" using inv assms(4) T(2) unfolding main_left_def by blast
  then show ?thesis using main_end.can_finish [of K k sz 10288 s] assms(1,2) by blast
qed

section \<open>Runs\<close>

text \<open>
  Both processes open their queues as in \<open>both_open\<close>, and process 1 sends its first message.
\<close>

definition main_run :: "nat list \<Rightarrow> kernel tmain \<Rightarrow> kernel tmain" where
  "main_run ps s = fold (\<lambda>p s. if op_todo (procs (tn_sys s) p) \<noteq> [] then s\<lparr>tn_sys := open_step sample_kernel 8 p (tn_sys s)\<rparr>
     else access_step sample_kernel p s) ps s"

definition main_demo :: "kernel tmain" where
  "main_demo = main_run [0, 1, 1, 0, 1, 1, 0, 0, 1, 1, 1, 0, 0, 0, 0, 1, 1, 0, 1, 1, 1] (main_start (first_kernel [Some 0, Some 1, Some 2]))"

lemma main_run_reach:
  "main_reach sample_kernel 8 k s \<Longrightarrow> \<forall>p \<in> set ps. p < 2 \<Longrightarrow> main_reach sample_kernel 8 k (main_run ps s)"
proof (induction ps arbitrary: s)
  case (Cons p ps)
  have p: "p < 2" using Cons.prems(2) by simp
  have "main_step sample_kernel 8 s (if op_todo (procs (tn_sys s) p) \<noteq> []
      then s\<lparr>tn_sys := open_step sample_kernel 8 p (tn_sys s)\<rparr> else access_step sample_kernel p s)"
    using m_open [OF p, of s sample_kernel 8] m_access [OF p, of s sample_kernel 8] by simp
  then have "main_reach sample_kernel 8 k (if op_todo (procs (tn_sys s) p) \<noteq> []
      then s\<lparr>tn_sys := open_step sample_kernel 8 p (tn_sys s)\<rparr> else access_step sample_kernel p s)"
    using Cons.prems(1) unfolding main_reach_def by (rule reach_step [rotated])
  from Cons.IH [OF this] show ?case using Cons.prems(2) by (simp add: main_run_def)
qed (simp add: main_run_def)

lemma main_demo_reach: "main_reach sample_kernel 8 (first_kernel [Some 0, Some 1, Some 2]) main_demo"
  unfolding main_demo_def by (rule main_run_reach) (simp_all add: main_reach_def reach_init)

lemma main_demo_facts: "\<not> tn_early main_demo" "issued (tn_calls main_demo 0) = [1]"
  by code_simp+

lemma tester_never_fails_witness:
  "issued (tn_calls main_demo 0) = [1] \<and> tp_phase (tn_proc main_demo 0) \<noteq> Failed"
  using tester_never_fails [OF sample_kernel_posix clean_first main_demo_reach main_demo_facts(1), of 0] main_demo_facts(2) by simp

lemma tester_can_finish_witness:
  "issued (tn_calls main_demo 0) = [1] \<and> (\<exists>n t. n \<le> 10288 \<and> (main_step sample_kernel 8 ^^ n) main_demo t \<and>
    tp_phase (tn_proc t 0) = Finished \<and> tp_phase (tn_proc t 1) = Finished)"
  using tester_can_finish [OF sample_kernel_posix clean_first main_demo_reach main_demo_facts(1)] main_demo_facts(2) by blast

end
