(* ===== verification/Workgroup.thy ===== *)
theory Workgroup
  imports Prelude
begin

text \<open>
  \<open>archive/path2.0/include/hypercomm/workgroup.hpp\<close>: tasks that live on the elements of a chare
  array. A task runs a continuation for each message addressed to it and names, before it
  returns, the continuation it waits for; messages for another continuation, or for a task
  that does not exist yet, are buffered. What a task's constructor and continuations do is the
  user's code, a parameter here: a function of the task's own data and the payload that gives the
  new data and the calls it made of \<open>task<T>\<close> (suspend, terminate, send, broadcast, reduce).
\<close>

section \<open>Messages and payloads\<close>

type_synonym 'd memory = "u64 \<Rightarrow> 'd option"

record task_id =
  tid_host :: int
  tid_task :: u32

text \<open>
  A message of Charm++ at an address, with its total size and reference number from the envelope.
  \<open>tm_at\<close> is the message's memory: what lies at each offset from its address, \<open>None\<close> where nothing was
  put. Only the pointer \<open>data\<close> says where the arguments are.
\<close>

record 'd task_message =
  tm_addr :: addr
  tm_total :: u64
  tm_ref :: u16
  tm_tid :: task_id
  tm_kind :: u32
  tm_data :: addr
  tm_at :: "'d memory"

definition sizeof_task_message :: u64 where
  "sizeof_task_message = 24"

text \<open>
  \<open>alloc\<close>: \<open>align\<close> is Charm++'s \<open>ALIGN_DEFAULT\<close>, \<open>m\<close> the address and \<open>env\<close> the envelope's size that
  \<open>CkAllocMsg\<close> gave.
\<close>

definition tm_alloc ::
  "(u64 \<Rightarrow> u64) \<Rightarrow> addr \<Rightarrow> u64 \<Rightarrow> u64 \<Rightarrow> u64 \<Rightarrow> task_id \<Rightarrow> u32 \<Rightarrow> 'd \<Rightarrow> 'd task_message" where
  "tm_alloc align m env sz data_size tid kind args =
     (let start = align sz; total_size = start + data_size
      in \<lparr>tm_addr = m, tm_total = env + total_size, tm_ref = 0, tm_tid = tid, tm_kind = kind,
          tm_data = m + start, tm_at = [start \<mapsto> args]\<rparr>)"

definition tm_pack :: "'d task_message \<Rightarrow> 'd task_message" where
  "tm_pack msg = msg\<lparr>tm_data := tm_data msg - tm_addr msg\<rparr>"

definition tm_unpack :: "'d task_message \<Rightarrow> 'd task_message" where
  "tm_unpack msg = msg\<lparr>tm_data := tm_addr msg + tm_data msg\<rparr>"

text \<open>
  \<open>task_payload\<close>: the message it owns, with that message's reference number and memory. What a reader
  finds behind the pointer \<open>data\<close> is what the message has at that distance from its address; a pointer
  to anywhere else is wild, and \<open>pl_read\<close> is \<open>None\<close>.
\<close>

record 'd payload =
  pl_src :: addr
  pl_ref :: u16
  pl_len :: u64
  pl_data :: addr
  pl_at :: "'d memory"

definition pl_read :: "'d payload \<Rightarrow> 'd option" where
  "pl_read p = pl_at p (pl_data p - pl_src p)"

definition pl_args :: "'d payload \<Rightarrow> 'd" where
  "pl_args p = the (pl_read p)"

lemma pl_args_simp [simp]:
  "pl_read \<lparr>pl_src = a, pl_ref = r, pl_len = n, pl_data = d, pl_at = m\<rparr> = m (d - a)"
  "pl_args \<lparr>pl_src = a, pl_ref = r, pl_len = n, pl_data = d, pl_at = m\<rparr> = the (m (d - a))"
  by (simp_all add: pl_args_def pl_read_def)

definition payload_of :: "'d task_message \<Rightarrow> 'd payload" where
  "payload_of msg = \<lparr>pl_src = tm_addr msg, pl_ref = tm_ref msg,
     pl_len = tm_total msg - sizeof_task_message, pl_data = tm_data msg, pl_at = tm_at msg\<rparr>"

text \<open>A reduction message and the elements that \<open>toTuple\<close> reads out of it.\<close>

record 'd tuple_element =
  te_size :: u64
  te_data :: addr
  te_val :: 'd

record 'd redn_message =
  rm_addr :: addr
  rm_ref :: u16
  rm_tuple :: "'d tuple_element list"

definition payload_of_redn :: "'d redn_message \<Rightarrow> 'd tuple_element \<Rightarrow> 'd payload" where
  "payload_of_redn msg elt = \<lparr>pl_src = rm_addr msg, pl_ref = rm_ref msg, pl_len = te_size elt,
     pl_data = te_data elt, pl_at = [te_data elt - rm_addr msg \<mapsto> te_val elt]\<rparr>"

section \<open>Tasks\<close>

text \<open>\<open>task_base_\<close>; the constructor sets every member but \<open>continuation_\<close>.\<close>

record 'u task =
  tb_active :: bool
  tb_kind :: u32
  tb_cont :: "u16 option"
  tb_user :: 'u

definition new_task :: "u32 \<Rightarrow> 'u \<Rightarrow> 'u task" where
  "new_task kind u = \<lparr>tb_active = True, tb_kind = kind, tb_cont = None, tb_user = u\<rparr>"

text \<open>What user code calls of Charm++ besides: printing (the arguments), shutting down, aborting.\<close>

datatype rt_call = CkPrintf "int list" | CkExit | CkAbort fault

text \<open>What user code calls on its task, with \<open>id_for<Fn>()\<close> already evaluated.\<close>

datatype 'd action =
    Suspend u16
  | Terminate
  | Send int u16 'd
  | Broadcast u16 'd
  | AllReduce u16 'd nat
  | ReduceTo int u16 'd nat
  | ReduceCb 'd nat nat
  | Runtime rt_call

text \<open>What leaves the element: messages to one or all elements, contributions, calls of Charm++.\<close>

datatype redn_target = RednAll u16 | RednElt int u16 | RednCb nat

datatype 'd out =
    OutMsg "int option" task_id u16 'd
  | OutRedn task_id 'd nat redn_target
  | OutCall rt_call

definition suspend :: "u16 \<Rightarrow> 'u task \<Rightarrow> 'u task" where
  "suspend c t = t\<lparr>tb_cont := Some c\<rparr>"

definition terminate :: "'u task \<Rightarrow> 'u task" where
  "terminate t = t\<lparr>tb_active := False\<rparr>"

definition task_reduce :: "task_id \<Rightarrow> 'd \<Rightarrow> nat \<Rightarrow> redn_target \<Rightarrow> 'd out" where
  "task_reduce active data ty cb = OutRedn active data ty cb"

definition task_send :: "task_id \<Rightarrow> int \<Rightarrow> u16 \<Rightarrow> 'd \<Rightarrow> 'd out" where
  "task_send active index c args = OutMsg (Some index) active c args"

definition task_broadcast :: "task_id \<Rightarrow> u16 \<Rightarrow> 'd \<Rightarrow> 'd out" where
  "task_broadcast active c args = OutMsg None active c args"

fun run_action :: "task_id \<Rightarrow> 'd action \<Rightarrow> 'u task \<times> 'd out list \<Rightarrow> 'u task \<times> 'd out list" where
  "run_action active (Suspend c) (t, os) = (suspend c t, os)"
| "run_action active Terminate (t, os) = (terminate t, os)"
| "run_action active (Send i c d) (t, os) = (t, os @ [task_send active i c d])"
| "run_action active (Broadcast c d) (t, os) = (t, os @ [task_broadcast active c d])"
| "run_action active (AllReduce c d ty) (t, os) = (t, os @ [task_reduce active d ty (RednAll c)])"
| "run_action active (ReduceTo i c d ty) (t, os) =
     (t, os @ [task_reduce active d ty (RednElt i c)])"
| "run_action active (ReduceCb d ty cb) (t, os) = (t, os @ [task_reduce active d ty (RednCb cb)])"
| "run_action active (Runtime c) (t, os) = (t, os @ [OutCall c])"

definition run_actions ::
  "task_id \<Rightarrow> 'd action list \<Rightarrow> 'u task \<times> 'd out list \<Rightarrow> 'u task \<times> 'd out list" where
  "run_actions active as to = fold (run_action active) as to"

section \<open>The tables of kinds and continuations\<close>

type_synonym ('u, 'd) creator = "'d payload \<Rightarrow> 'u \<times> 'd action list"
type_synonym ('u, 'd) continuation = "'u \<Rightarrow> 'd payload \<Rightarrow> 'u \<times> 'd action list"

record ('u, 'd) registry =
  records :: "('u, 'd) creator list"
  continuations :: "('u, 'd) continuation list"

definition get_task_creator :: "('u, 'd) registry \<Rightarrow> u32 \<Rightarrow> ('u, 'd) creator res" where
  "get_task_creator R kind = at (records R) (unat kind)"

definition get_continuation :: "('u, 'd) registry \<Rightarrow> u16 \<Rightarrow> ('u, 'd) continuation res" where
  "get_continuation R c = at (continuations R) (unat c)"

definition register_task ::
  "('u, 'd) creator \<Rightarrow> ('u, 'd) registry \<Rightarrow> u32 \<times> ('u, 'd) registry" where
  "register_task f R =
     (let kind = length (records R) in (of_nat kind, R\<lparr>records := records R @ [f]\<rparr>))"

definition register_continuation ::
  "('u, 'd) continuation \<Rightarrow> ('u, 'd) registry \<Rightarrow> u16 \<times> ('u, 'd) registry" where
  "register_continuation f R =
     (let c = length (continuations R)
      in (of_nat c, R\<lparr>continuations := continuations R @ [f]\<rparr>))"

section \<open>The workgroup element\<close>

text \<open>
  \<open>wg_out\<close> collects what was handed to Charm++. \<open>wg_log\<close> is a history variable: the payloads that
  continuations were invoked with; no operation reads it.
\<close>

record ('u, 'd) workgroup =
  wg_index :: int
  wg_active :: task_id
  wg_last :: u32
  wg_tasks :: "task_id \<Rightarrow> 'u task option"
  wg_buffers :: "task_id \<Rightarrow> (u16 \<Rightarrow> 'd payload list option) option"
  wg_out :: "'d out list"
  wg_log :: "(task_id \<times> u16 \<times> 'd payload) list"

text \<open>The constructor leaves \<open>active_\<close> unset, here \<open>junk\<close>.\<close>

definition new_workgroup :: "int \<Rightarrow> task_id \<Rightarrow> ('u, 'd) workgroup" where
  "new_workgroup i junk = \<lparr>wg_index = i, wg_active = junk, wg_last = 0, wg_tasks = Map.empty,
     wg_buffers = Map.empty, wg_out = [], wg_log = []\<rparr>"

definition generate_id :: "('u, 'd) workgroup \<Rightarrow> task_id \<times> ('u, 'd) workgroup" where
  "generate_id st = (\<lparr>tid_host = wg_index st, tid_task = wg_last st\<rparr>, st\<lparr>wg_last := wg_last st + 1\<rparr>)"

definition bucket :: "('u, 'd) workgroup \<Rightarrow> task_id \<Rightarrow> u16 \<Rightarrow> 'd payload list" where
  "bucket st tid c = (case wg_buffers st tid of None \<Rightarrow> []
     | Some m \<Rightarrow> (case m c of None \<Rightarrow> [] | Some ps \<Rightarrow> ps))"

text \<open>\<open>buffers_[tid]\<close> makes an empty entry when there is none.\<close>

definition touch :: "task_id \<Rightarrow> ('u, 'd) workgroup \<Rightarrow> ('u, 'd) workgroup" where
  "touch tid st = st\<lparr>wg_buffers := (wg_buffers st)(tid \<mapsto>
     (case wg_buffers st tid of None \<Rightarrow> Map.empty | Some m \<Rightarrow> m))\<rparr>"

definition set_bucket ::
  "task_id \<Rightarrow> u16 \<Rightarrow> 'd payload list \<Rightarrow> ('u, 'd) workgroup \<Rightarrow> ('u, 'd) workgroup" where
  "set_bucket tid c ps st = st\<lparr>wg_buffers := (wg_buffers st)(tid \<mapsto>
     (case wg_buffers st tid of None \<Rightarrow> Map.empty | Some m \<Rightarrow> m)(c \<mapsto> ps))\<rparr>"

definition buffer_payload ::
  "task_id \<Rightarrow> 'd payload \<Rightarrow> ('u, 'd) workgroup \<Rightarrow> ('u, 'd) workgroup" where
  "buffer_payload tid p st = set_bucket tid (pl_ref p) (bucket st tid (pl_ref p) @ [p]) st"

text \<open>The invocation of a continuation on a task, and what the element keeps of it.\<close>

definition invoke ::
  "('u, 'd) continuation \<Rightarrow> task_id \<Rightarrow> 'd payload \<Rightarrow> 'u task \<Rightarrow> 'u task \<times> 'd out list" where
  "invoke f tid p t =
     (case f (tb_user t) p of (u, as) \<Rightarrow> run_actions tid as (t\<lparr>tb_user := u\<rparr>, []))"

definition keep_task ::
  "task_id \<Rightarrow> 'd payload \<Rightarrow> 'u task \<times> 'd out list \<Rightarrow> ('u, 'd) workgroup \<Rightarrow> ('u, 'd) workgroup" where
  "keep_task tid p to st = st\<lparr>wg_active := tid,
     wg_tasks := (wg_tasks st)(tid := (if tb_active (fst to) then Some (fst to) else None)),
     wg_out := wg_out st @ snd to, wg_log := wg_log st @ [(tid, pl_ref p, p)]\<rparr>"

text \<open>
  \<open>resume(tid, payload, &active)\<close> up to the question who observes: whether the payload was
  accepted, and whether the task is still active.
\<close>

definition resume_core ::
  "('u, 'd) registry \<Rightarrow> task_id \<Rightarrow> 'd payload \<Rightarrow> ('u, 'd) workgroup
    \<Rightarrow> ((bool \<times> bool) \<times> ('u, 'd) workgroup) res" where
  "resume_core R tid p st =
     (case wg_tasks st tid of
        None \<Rightarrow> Inr ((False, False), st)
      | Some t \<Rightarrow>
          (case tb_cont t of
             None \<Rightarrow> Inl Uninitialised
           | Some c \<Rightarrow>
               if c \<noteq> pl_ref p then Inr ((False, False), st)
               else bind_res (get_continuation R c) (\<lambda>f.
                 let to = invoke f tid p t
                 in Inr ((True, tb_active (fst to)), keep_task tid p to st))))"

lemma resume_core_cases:
  assumes "resume_core R tid p st = Inr ((ok, keep), st')"
  obtains (refused) "\<not> ok" "\<not> keep" "st' = st"
      "\<And>t. wg_tasks st tid = Some t \<Longrightarrow> \<exists>c. tb_cont t = Some c \<and> c \<noteq> pl_ref p"
  | (taken) t f where "ok" "wg_tasks st tid = Some t" "tb_cont t = Some (pl_ref p)"
      "get_continuation R (pl_ref p) = Inr f" "keep \<longleftrightarrow> tb_active (fst (invoke f tid p t))"
      "st' = keep_task tid p (invoke f tid p t) st"
  using assms by (auto simp: resume_core_def bind_res_Inr_iff Let_def split: option.splits if_splits)

lemma resume_core_bucket: "resume_core R tid p st = Inr ((ok, keep), st') \<Longrightarrow> bucket st' = bucket st"
  by (erule resume_core_cases) (auto simp: keep_task_def bucket_def fun_eq_iff)

lemma resume_core_active:
  "resume_core R tid p st = Inr ((True, k), st') \<Longrightarrow> wg_active st' = tid"
  by (erule resume_core_cases) (auto simp: keep_task_def)

lemma bucket_set: "bucket (set_bucket tid c ps st) tid' c'
    = (if tid' = tid \<and> c' = c then ps else bucket st tid' c')"
  by (auto simp: bucket_def set_bucket_def split: option.splits)

lemma bucket_touch [simp]: "bucket (touch tid st) = bucket st"
  by (auto simp: bucket_def touch_def fun_eq_iff split: option.splits)

lemma touch_frame [simp]:
  "wg_tasks (touch tid st) = wg_tasks st" "wg_active (touch tid st) = wg_active st"
  "wg_log (touch tid st) = wg_log st" "wg_out (touch tid st) = wg_out st"
  by (simp_all add: touch_def)

lemma set_bucket_frame [simp]:
  "wg_tasks (set_bucket tid c ps st) = wg_tasks st"
  "wg_active (set_bucket tid c ps st) = wg_active st"
  "wg_log (set_bucket tid c ps st) = wg_log st"
  by (simp_all add: set_bucket_def)

definition queued :: "('u, 'd) workgroup \<Rightarrow> task_id \<Rightarrow> nat" where
  "queued st tid = (\<Sum>c\<in>UNIV. length (bucket st tid c))"

lemma queued_pop:
  assumes "bucket st' = bucket st" and "bucket st tid c = p # ps"
  shows "queued (set_bucket tid c ps st') tid < queued st tid"
  unfolding queued_def using assms by (intro sum_strict_mono_ex1) (auto simp: bucket_set)

text \<open>
  \<open>try_continue_\<close> at the iterator to the task \<open>k\<close>; the buffers it looks into are those of the
  active task. Each round delivers one buffered payload, so it ends.
\<close>

function try_continue ::
  "('u, 'd) registry \<Rightarrow> task_id \<Rightarrow> ('u, 'd) workgroup \<Rightarrow> ('u, 'd) workgroup res" where
  "try_continue R k st =
     (case wg_tasks st k of
        None \<Rightarrow> Inl BadPointer
      | Some t \<Rightarrow>
          (let tid = wg_active st; st1 = touch tid st
           in case tb_cont t of
                None \<Rightarrow> Inl Uninitialised
              | Some c \<Rightarrow>
                  (case bucket st1 tid c of
                     [] \<Rightarrow> Inr st1
                   | p # ps \<Rightarrow>
                       (case resume_core R tid p st1 of
                          Inl e \<Rightarrow> Inl e
                        | Inr ((ok, active), st2) \<Rightarrow>
                            if ok then
                              (let st3 = set_bucket tid c ps st2
                               in if active then try_continue R k st3 else Inr st3)
                            else Inr st2))))"
  by auto

termination
proof (relation "measure (\<lambda>(R, k, st). queued st (wg_active st))", goal_cases)
  case 1
  then show ?case by simp
next
  case (2 R k st t tid st1 c p ps r a st2 ok active st3)
  then have b: "bucket st2 = bucket st" and a: "wg_active st2 = tid" and c: "bucket st tid c = p # ps"
    by (auto dest: resume_core_bucket resume_core_active)
  then show ?case using queued_pop [OF b c] 2 by simp
qed

declare try_continue.simps [simp del]

lemma try_continue_empty:
  assumes "wg_tasks st k = Some t" and "tb_cont t = Some c" and "wg_active st = k"
    and "bucket st k c = []"
  shows "try_continue R k st = Inr (touch k st)"
  using assms by (subst try_continue.simps) (simp add: Let_def)

lemma try_continue_next:
  assumes "wg_tasks st k = Some t" and "tb_cont t = Some c" and "wg_active st = k"
    and "bucket st k c = p # ps"
  shows "try_continue R k st = bind_res (resume_core R k p (touch k st)) (\<lambda>((ok, active), st2).
    if ok then if active then try_continue R k (set_bucket k c ps st2) else Inr (set_bucket k c ps st2)
    else Inr st2)"
  using assms by (subst try_continue.simps) (simp add: Let_def split: sum.split prod.split)

lemma try_continue_InrE:
  assumes "try_continue R k st = Inr st'" and "wg_active st = k"
  obtains t c where "wg_tasks st k = Some t" and "tb_cont t = Some c"
  using assms by (subst (asm) try_continue.simps) (auto simp: Let_def split: option.splits)

definition resume_payload ::
  "('u, 'd) registry \<Rightarrow> task_id \<Rightarrow> 'd payload \<Rightarrow> ('u, 'd) workgroup \<Rightarrow> (bool \<times> ('u, 'd) workgroup) res" where
  "resume_payload R tid p st =
     bind_res (resume_core R tid p st) (\<lambda>((ok, keep), st1).
       if ok \<and> keep then bind_res (try_continue R tid st1) (\<lambda>st2. Inr (True, st2))
       else Inr (ok, st1))"

definition deliver ::
  "('u, 'd) registry \<Rightarrow> task_id \<Rightarrow> 'd payload \<Rightarrow> ('u, 'd) workgroup \<Rightarrow> ('u, 'd) workgroup res" where
  "deliver R tid p st =
     bind_res (resume_payload R tid p st) (\<lambda>(ok, st1).
       Inr (if ok then st1 else buffer_payload tid p st1))"

definition resume_message ::
  "('u, 'd) registry \<Rightarrow> 'd task_message \<Rightarrow> ('u, 'd) workgroup \<Rightarrow> ('u, 'd) workgroup res" where
  "resume_message R msg st = deliver R (tm_tid msg) (payload_of msg) st"

text \<open>\<open>as_tid\<close> reads a tuple element's bytes as a \<open>task_id\<close>, of eight bytes.\<close>

definition resume_redn ::
  "('d \<Rightarrow> task_id) \<Rightarrow> ('u, 'd) registry \<Rightarrow> 'd redn_message \<Rightarrow> ('u, 'd) workgroup
    \<Rightarrow> ('u, 'd) workgroup res" where
  "resume_redn as_tid R msg st =
     (case rm_tuple msg of
        [elt, val] \<Rightarrow>
          bind_res (check (te_size elt = 8)) (\<lambda>_.
            deliver R (as_tid (te_val elt)) (payload_of_redn msg val) st)
      | _ \<Rightarrow> Inl AssertFailed)"

definition create ::
  "('u, 'd) registry \<Rightarrow> 'd task_message \<Rightarrow> ('u, 'd) workgroup \<Rightarrow> ('u, 'd) workgroup res" where
  "create R msg st =
     bind_res (get_task_creator R (tm_kind msg)) (\<lambda>f.
       let tid = tm_tid msg;
           (u, as) = f (payload_of msg);
           (t, os) = run_actions tid as (new_task (tm_kind msg) u, []);
           st1 = st\<lparr>wg_active := tid, wg_out := wg_out st @ os\<rparr>
       in if tb_active t
          then bind_res (check (wg_tasks st1 tid = None)) (\<lambda>_.
            try_continue R tid (st1\<lparr>wg_tasks := (wg_tasks st1)(tid \<mapsto> t)\<rparr>))
          else Inr st1)"

text \<open>\<open>launch\<close>: the identifier comes from the first local element, the message goes to all elements.\<close>

definition launch ::
  "(task_id \<Rightarrow> 'd task_message) \<Rightarrow> ('u, 'd) workgroup list
    \<Rightarrow> (task_id \<times> 'd task_message \<times> ('u, 'd) workgroup list) res" where
  "launch pack elems =
     (case elems of
        [] \<Rightarrow> Inl AssertFailed
      | e # es \<Rightarrow> (let (tid, e1) = generate_id e in Inr (tid, pack tid, e1 # es)))"

section \<open>Migration\<close>

text \<open>
  \<open>task_payload::pup\<close>: packing writes the message, here its reference number and memory, the length
  and the offset of the data in the message; unpacking gets the message at a new address \<open>a\<close> and
  must make the data pointer point into it again.
\<close>

definition payload_pup :: "'d payload \<Rightarrow> (u16 \<times> 'd memory) \<times> u64 \<times> u64" where
  "payload_pup p = ((pl_ref p, pl_at p), pl_len p, pl_data p - pl_src p)"

definition payload_unpup :: "addr \<Rightarrow> (u16 \<times> 'd memory) \<times> u64 \<times> u64 \<Rightarrow> 'd payload" where
  "payload_unpup a x = (case x of ((ref, memory), len, offset) \<Rightarrow>
     \<lparr>pl_src = a, pl_ref = ref, pl_len = len, pl_data = a + offset, pl_at = memory\<rparr>)"

text \<open>
  \<open>pup_base_\<close> and the pointer helper: the kind, then the continuation of an active task, then
  \<open>T::pup\<close>, given as the packing \<open>up\<close> and, per kind, the unpacking in the column \<open>pupers\<close> of the
  task records.
\<close>

definition task_pup :: "('u \<Rightarrow> 'b) \<Rightarrow> 'u task \<Rightarrow> (u32 \<times> u16 \<times> 'b) res" where
  "task_pup up t = bind_res (check (tb_active t)) (\<lambda>_.
     case tb_cont t of None \<Rightarrow> Inl Uninitialised | Some c \<Rightarrow> Inr (tb_kind t, c, up (tb_user t)))"

definition task_unpup :: "('b \<Rightarrow> 'u) list \<Rightarrow> u32 \<times> u16 \<times> 'b \<Rightarrow> 'u task res" where
  "task_unpup pupers x = (case x of (kind, c, b) \<Rightarrow>
     bind_res (at pupers (unat kind)) (\<lambda>un.
       Inr \<lparr>tb_active = True, tb_kind = kind, tb_cont = Some c, tb_user = un b\<rparr>))"

end
