(* ===== verification/Workgroup_Inv.thy ===== *)
theory Workgroup_Inv
  imports Workgroup
begin

text \<open>
  What a workgroup element keeps between messages: only active tasks are stored, a stored task
  has no payload left in the buffer of the continuation it waits for, and per task and
  continuation the payloads are delivered in the order of their arrival, each once.
\<close>

section \<open>The invariant\<close>

definition buckets_wf :: "('u, 'd) workgroup \<Rightarrow> bool" where
  "buckets_wf st \<longleftrightarrow> (\<forall>tid c. \<forall>p \<in> set (bucket st tid c). pl_ref p = c)"

text \<open>The task waits for a continuation, and no payload for it is buffered.\<close>

definition waits :: "('u, 'd) workgroup \<Rightarrow> task_id \<Rightarrow> 'u task \<Rightarrow> bool" where
  "waits st tid t \<longleftrightarrow> (case tb_cont t of None \<Rightarrow> False | Some c \<Rightarrow> bucket st tid c = [])"

definition settled :: "('u, 'd) workgroup \<Rightarrow> bool" where
  "settled st \<longleftrightarrow> buckets_wf st \<and>
     (\<forall>tid t. wg_tasks st tid = Some t \<longrightarrow> tb_active t \<and> waits st tid t)"

text \<open>The same while task \<open>k\<close> is being served.\<close>

definition serving :: "task_id \<Rightarrow> ('u, 'd) workgroup \<Rightarrow> bool" where
  "serving k st \<longleftrightarrow> buckets_wf st \<and>
     (\<forall>tid t. wg_tasks st tid = Some t \<longrightarrow> tb_active t \<and> (tid \<noteq> k \<longrightarrow> waits st tid t))"

text \<open>All payloads that came for \<open>c\<close> of \<open>tid\<close> so far: those delivered, then those buffered.\<close>

definition stream :: "('u, 'd) workgroup \<Rightarrow> task_id \<Rightarrow> u16 \<Rightarrow> 'd payload list" where
  "stream st tid c = map (snd \<circ> snd) (filter (\<lambda>(t, d, p). t = tid \<and> d = c) (wg_log st)) @ bucket st tid c"

lemma keep_task_frame [simp]:
  "bucket (keep_task tid p to st) = bucket st" "wg_active (keep_task tid p to st) = tid"
  "wg_log (keep_task tid p to st) = wg_log st @ [(tid, pl_ref p, p)]"
  by (simp_all add: keep_task_def bucket_def fun_eq_iff)

lemma keep_task_tasks: "wg_tasks (keep_task tid p to st)
    = (wg_tasks st)(tid := (if tb_active (fst to) then Some (fst to) else None))"
  by (simp add: keep_task_def)

lemma same_buckets:
  assumes "bucket st' = bucket st"
  shows "buckets_wf st' \<longleftrightarrow> buckets_wf st" "waits st' = waits st"
    "wg_tasks st' = wg_tasks st \<Longrightarrow> serving k st' \<longleftrightarrow> serving k st"
    "wg_tasks st' = wg_tasks st \<Longrightarrow> settled st' \<longleftrightarrow> settled st"
    "wg_log st' = wg_log st \<Longrightarrow> stream st' = stream st"
proof -
  show b: "buckets_wf st' \<longleftrightarrow> buckets_wf st" "waits st' = waits st"
    by (simp_all add: buckets_wf_def waits_def fun_eq_iff assms split: option.split)
  show "wg_tasks st' = wg_tasks st \<Longrightarrow> serving k st' \<longleftrightarrow> serving k st"
    "wg_tasks st' = wg_tasks st \<Longrightarrow> settled st' \<longleftrightarrow> settled st"
    "wg_log st' = wg_log st \<Longrightarrow> stream st' = stream st"
    by (simp_all add: serving_def settled_def stream_def fun_eq_iff b assms)
qed

lemma touch_same [simp]:
  "buckets_wf (touch k st) \<longleftrightarrow> buckets_wf st" "waits (touch k st) = waits st"
  "stream (touch k st) = stream st" "serving j (touch k st) \<longleftrightarrow> serving j st"
  "settled (touch k st) \<longleftrightarrow> settled st"
  using same_buckets [of "touch k st" st] by simp_all

lemma settled_serving: "settled st \<Longrightarrow> serving k st"
  by (simp add: settled_def serving_def)

lemma serving_gone: "serving k st \<Longrightarrow> wg_tasks st k = None \<Longrightarrow> settled st"
  unfolding serving_def settled_def by (metis option.distinct(1))

lemma serving_done: "serving k st \<Longrightarrow> wg_tasks st k = Some t \<Longrightarrow> waits st k t \<Longrightarrow> settled st"
  unfolding serving_def settled_def by (metis option.inject)

lemma serving_keep: "serving k st \<Longrightarrow> serving k (keep_task k p to st)"
  using same_buckets(1,2) [of "keep_task k p to st" st]
  by (simp add: serving_def keep_task_tasks)

lemma serving_pop:
  assumes "serving k st" and "bucket st k c = p # ps"
  shows "serving k (set_bucket k c ps st)"
proof -
  have "set ps \<subseteq> set (bucket st k c)" using assms(2) by auto
  moreover have "waits (set_bucket k c ps st) tid t = waits st tid t" if "tid \<noteq> k" for tid t
    using that by (simp add: waits_def bucket_set split: option.split)
  ultimately show ?thesis using assms(1)
    unfolding serving_def buckets_wf_def by (auto simp: bucket_set)
qed

text \<open>A payload from the front of its buffer is delivered and taken off the buffer.\<close>

lemma pop_stream:
  assumes "bucket st tid c = p # ps" and "pl_ref p = c"
  shows "stream (set_bucket tid c ps (keep_task tid p to st)) = stream st"
  using assms by (auto simp: stream_def fun_eq_iff bucket_set)

section \<open>Serving a task\<close>

lemma try_continue_settles:
  assumes "try_continue R k st = Inr st'" and "wg_active st = k" and "serving k st"
  shows "settled st' \<and> stream st' = stream st"
  using assms
proof (induction "queued st k" arbitrary: st rule: less_induct)
  case less
  obtain t c where t: "wg_tasks st k = Some t" "tb_cont t = Some c"
    using less.prems(1,2) by (rule try_continue_InrE)
  show ?case
  proof (cases "bucket st k c")
    case Nil
    then have "st' = touch k st"
      using try_continue_empty [OF t less.prems(2)] less.prems(1) by simp
    moreover have "settled st"
      using serving_done [OF less.prems(3) t(1)] Nil t(2) by (simp add: waits_def)
    ultimately show ?thesis by simp
  next
    case (Cons p ps)
    have ref: "pl_ref p = c"
      using less.prems(3) Cons unfolding serving_def buckets_wf_def by (metis list.set_intros(1))
    note eq = less.prems(1) [unfolded try_continue_next [OF t less.prems(2) Cons]]
    obtain ok active st2 where r: "resume_core R k p (touch k st) = Inr ((ok, active), st2)"
      using eq by (auto simp: bind_res_Inr_iff)
    from r show ?thesis
    proof (cases rule: resume_core_cases)
      case refused
      then show ?thesis using t ref by auto
    next
      case (taken t1 f)
      let ?st3 = "set_bucket k c ps st2"
      have b: "bucket (touch k st) k c = p # ps" "bucket st2 = bucket st" using Cons taken by simp_all
      have sv: "serving k ?st3"
        using taken Cons less.prems(3) by (intro serving_pop [of k st2 c p ps]) (simp_all add: serving_keep)
      have str: "stream ?st3 = stream st"
        using pop_stream [OF b(1) ref] taken by simp
      show ?thesis
      proof (cases active)
        case True
        then have "try_continue R k ?st3 = Inr st'" using eq r taken by simp
        moreover have "wg_active ?st3 = k" using taken by simp
        ultimately show ?thesis
          using less.hyps [OF queued_pop [OF b(2) Cons]] sv str by simp
      next
        case False
        then have "st' = ?st3" using eq r taken by simp
        moreover have "wg_tasks ?st3 k = None"
          using taken False by (simp add: keep_task_tasks)
        ultimately show ?thesis using serving_gone [OF sv] str by simp
      qed
    qed
  qed
qed

lemma stream_deliver:
  assumes "bucket st tid (pl_ref p) = []"
  shows "stream (keep_task tid p to st) = (stream st)(tid := (stream st tid)
    (pl_ref p := stream st tid (pl_ref p) @ [p]))"
  using assms by (auto simp: stream_def fun_eq_iff)

lemma stream_buffer: "stream (buffer_payload tid p st) = (stream st)(tid := (stream st tid)
    (pl_ref p := stream st tid (pl_ref p) @ [p]))"
  by (auto simp: stream_def buffer_payload_def bucket_set fun_eq_iff)

lemma settled_buffer:
  assumes "settled st" and "\<And>t. wg_tasks st tid = Some t \<Longrightarrow> tb_cont t \<noteq> Some (pl_ref p)"
  shows "settled (buffer_payload tid p st)"
proof -
  have "waits (buffer_payload tid p st) j t" if "wg_tasks st j = Some t" for j t
    using assms that by (fastforce simp: settled_def waits_def buffer_payload_def bucket_set
        split: option.splits)
  moreover have "buckets_wf (buffer_payload tid p st)"
    using assms(1) by (auto simp: settled_def buckets_wf_def buffer_payload_def bucket_set)
  ultimately show ?thesis using assms(1)
    by (simp add: settled_def buffer_payload_def)
qed

text \<open>A payload that arrives goes to the end of its stream.\<close>

lemma deliver_settles:
  assumes "deliver R tid p st = Inr st'" and "settled st"
  shows "settled st' \<and> stream st' = (stream st)(tid := (stream st tid)
    (pl_ref p := stream st tid (pl_ref p) @ [p]))"
proof -
  obtain ok keep st1 where r: "resume_core R tid p st = Inr ((ok, keep), st1)"
    using assms(1) by (auto simp: deliver_def resume_payload_def bind_res_Inr_iff)
  from r show ?thesis
  proof (cases rule: resume_core_cases)
    case refused
    then have "st' = buffer_payload tid p st"
      using assms(1) r by (simp add: deliver_def resume_payload_def)
    then show ?thesis
      using refused settled_buffer [OF assms(2), of tid p] stream_buffer by fastforce
  next
    case (taken t f)
    have e: "bucket st tid (pl_ref p) = []"
      using assms(2) taken by (auto simp: settled_def waits_def split: option.splits)
    have sv: "serving tid st1" using taken assms(2) by (simp add: settled_serving serving_keep)
    have str: "stream st1 = (stream st)(tid := (stream st tid)
        (pl_ref p := stream st tid (pl_ref p) @ [p]))"
      using stream_deliver [OF e] taken by simp
    show ?thesis
    proof (cases keep)
      case True
      then have "try_continue R tid st1 = Inr st'"
        using assms(1) r taken by (auto simp: deliver_def resume_payload_def bind_res_Inr_iff)
      then show ?thesis
        using try_continue_settles [of R tid st1 st'] sv str taken by simp
    next
      case False
      then have "st' = st1" "wg_tasks st1 tid = None"
        using assms(1) r taken by (auto simp: deliver_def resume_payload_def keep_task_tasks)
      then show ?thesis using serving_gone [OF sv] str by simp
    qed
  qed
qed

lemma create_settles:
  assumes "create R msg st = Inr st'" and "settled st"
  shows "settled st' \<and> stream st' = stream st"
proof -
  obtain f where f: "get_task_creator R (tm_kind msg) = Inr f"
    using assms(1) by (auto simp: create_def bind_res_Inr_iff)
  obtain u as where u: "f (payload_of msg) = (u, as)" by (cases "f (payload_of msg)")
  obtain t os where t: "run_actions (tm_tid msg) as (new_task (tm_kind msg) u, []) = (t, os)"
    by (cases "run_actions (tm_tid msg) as (new_task (tm_kind msg) u, [])")
  let ?s = "st\<lparr>wg_active := tm_tid msg, wg_out := wg_out st @ os\<rparr>"
  have s: "bucket ?s = bucket st" by (simp add: bucket_def fun_eq_iff)
  have same: "settled ?s" "stream ?s = stream st"
    using assms(2) same_buckets [OF s] by simp_all
  show ?thesis
  proof (cases "tb_active t")
    case True
    let ?t = "?s\<lparr>wg_tasks := (wg_tasks ?s)(tm_tid msg \<mapsto> t)\<rparr>"
    have b: "bucket ?t = bucket st" by (simp add: bucket_def fun_eq_iff)
    have "try_continue R (tm_tid msg) ?t = Inr st'"
      using assms(1) f u t True by (auto simp: create_def Let_def bind_res_Inr_iff)
    moreover have "serving (tm_tid msg) ?t" "stream ?t = stream st"
      using assms(2) True same_buckets [OF b] by (simp_all add: settled_def serving_def)
    ultimately show ?thesis using try_continue_settles by fastforce
  next
    case False
    then have "st' = ?s" using assms(1) f u t by (simp add: create_def Let_def)
    then show ?thesis using same by simp
  qed
qed

end
