(* ===== verification/Workgroup_Spec.thy ===== *)
theory Workgroup_Spec
  imports Workgroup_Inv
begin

text \<open>
  Runs of a workgroup element: the messages it receives in any order, and what holds after them.
\<close>

section \<open>Runs\<close>

datatype 'd event =
    ECreate "'d task_message"
  | EMessage "'d task_message"
  | ERedn "'d redn_message"

fun wg_step ::
  "('d \<Rightarrow> task_id) \<Rightarrow> ('u, 'd) registry \<Rightarrow> 'd event \<Rightarrow> ('u, 'd) workgroup \<Rightarrow> ('u, 'd) workgroup res" where
  "wg_step as_tid R (ECreate m) st = create R m st"
| "wg_step as_tid R (EMessage m) st = resume_message R m st"
| "wg_step as_tid R (ERedn m) st = resume_redn as_tid R m st"

fun wg_run ::
  "('d \<Rightarrow> task_id) \<Rightarrow> ('u, 'd) registry \<Rightarrow> 'd event list \<Rightarrow> ('u, 'd) workgroup \<Rightarrow> ('u, 'd) workgroup res" where
  "wg_run as_tid R [] st = Inr st"
| "wg_run as_tid R (e # es) st = bind_res (wg_step as_tid R e st) (wg_run as_tid R es)"

text \<open>The payload an event brings, with the task it is for.\<close>

fun arrival :: "('d \<Rightarrow> task_id) \<Rightarrow> 'd event \<Rightarrow> (task_id \<times> 'd payload) list" where
  "arrival as_tid (ECreate m) = []"
| "arrival as_tid (EMessage m) = [(tm_tid m, payload_of m)]"
| "arrival as_tid (ERedn m) =
     (case rm_tuple m of [elt, val] \<Rightarrow> [(as_tid (te_val elt), payload_of_redn m val)] | _ \<Rightarrow> [])"

definition arrivals ::
  "('d \<Rightarrow> task_id) \<Rightarrow> 'd event list \<Rightarrow> task_id \<Rightarrow> u16 \<Rightarrow> 'd payload list" where
  "arrivals as_tid es tid c = map snd (filter (\<lambda>(t, p). t = tid \<and> pl_ref p = c)
     (concat (map (arrival as_tid) es)))"

lemma resume_redn_Inr: "resume_redn as_tid R m st = Inr st' \<longleftrightarrow>
    (\<exists>elt val. rm_tuple m = [elt, val] \<and> te_size elt = 8 \<and>
      deliver R (as_tid (te_val elt)) (payload_of_redn m val) st = Inr st')"
  by (auto simp: resume_redn_def bind_res_Inr_iff split: list.splits)

lemma wg_step_settles:
  assumes "wg_step as_tid R e st = Inr st'" and "settled st"
  shows "settled st' \<and> stream st' tid c = stream st tid c
    @ map snd (filter (\<lambda>(t, p). t = tid \<and> pl_ref p = c) (arrival as_tid e))"
proof (cases e)
  case (ECreate m)
  then show ?thesis using create_settles [of R m st st'] assms by simp
next
  case (EMessage m)
  then show ?thesis
    using deliver_settles [of R "tm_tid m" "payload_of m" st st'] assms
    by (auto simp: resume_message_def)
next
  case (ERedn m)
  then obtain elt val where m: "rm_tuple m = [elt, val]"
    and d: "deliver R (as_tid (te_val elt)) (payload_of_redn m val) st = Inr st'"
    using assms(1) by (auto simp: resume_redn_Inr)
  show ?thesis using deliver_settles [OF d assms(2)] m ERedn by auto
qed

interpretation wg_safety: safety "\<lambda>st. \<exists>i junk. st = new_workgroup i junk"
    "\<lambda>st st'. \<exists>e. wg_step as_tid R e st = Inr st'" settled for as_tid R
proof unfold_locales
  fix st :: "('u, 'd) workgroup"
  assume "\<exists>i junk. st = new_workgroup i junk"
  then show "settled st"
    by (auto simp: settled_def new_workgroup_def buckets_wf_def bucket_def)
qed (use wg_step_settles in blast)

lemma new_settled: "settled (new_workgroup i junk)"
  by (rule wg_safety.inv_init) blast

definition wg_reach ::
  "('d \<Rightarrow> task_id) \<Rightarrow> ('u, 'd) registry \<Rightarrow> ('u, 'd) workgroup \<Rightarrow> bool" where
  "wg_reach as_tid R = reach (\<lambda>st. \<exists>i junk. st = new_workgroup i junk)
     (\<lambda>st st'. \<exists>e. wg_step as_tid R e st = Inr st')"

lemma wg_reach_settled: "wg_reach as_tid R st \<Longrightarrow> settled st"
  unfolding wg_reach_def by (rule wg_safety.reach_inv)

lemma wg_reach_run:
  "wg_run as_tid R es st = Inr st' \<Longrightarrow> wg_reach as_tid R st \<Longrightarrow> wg_reach as_tid R st'"
proof (induction es arbitrary: st)
  case (Cons e es)
  then obtain st1 where "wg_step as_tid R e st = Inr st1" "wg_run as_tid R es st1 = Inr st'"
    by (auto simp: bind_res_Inr_iff)
  moreover from this have "wg_reach as_tid R st1"
    using Cons.prems(2) unfolding wg_reach_def by (blast intro: reach_step)
  ultimately show ?case using Cons.IH by blast
qed simp

lemma wg_reach_new: "wg_reach as_tid R (new_workgroup i junk)"
  unfolding wg_reach_def by (blast intro: reach_init)

lemma wg_run_settles:
  "wg_run as_tid R es st = Inr st' \<Longrightarrow> settled st \<Longrightarrow>
    settled st' \<and> stream st' tid c = stream st tid c @ arrivals as_tid es tid c"
proof (induction es arbitrary: st)
  case (Cons e es)
  then obtain st1 where 1: "wg_step as_tid R e st = Inr st1" "wg_run as_tid R es st1 = Inr st'"
    by (auto simp: bind_res_Inr_iff)
  show ?case
    using wg_step_settles [OF 1(1) Cons.prems(2), of tid c] Cons.IH [OF 1(2)]
    by (simp add: arrivals_def)
qed (simp add: arrivals_def)

section \<open>Runs that do not fail\<close>

text \<open>User code that names only registered continuations, and suspends or terminates a new task.\<close>

definition acts_ok :: "('u, 'd) registry \<Rightarrow> 'd action list \<Rightarrow> bool" where
  "acts_ok R as \<longleftrightarrow> (\<forall>c. Suspend c \<in> set as \<longrightarrow> unat c < length (continuations R))"

definition well_behaved :: "('u, 'd) registry \<Rightarrow> bool" where
  "well_behaved R \<longleftrightarrow>
     (\<forall>f \<in> set (records R). \<forall>p. acts_ok R (snd (f p)) \<and>
        (Terminate \<in> set (snd (f p)) \<or> (\<exists>c. Suspend c \<in> set (snd (f p))))) \<and>
     (\<forall>f \<in> set (continuations R). \<forall>u p. acts_ok R (snd (f u p)))"

text \<open>The message names a registered kind, the reduction has the two elements that \<open>reduce\<close> gave it.\<close>

fun event_ok :: "('u, 'd) registry \<Rightarrow> 'd event \<Rightarrow> bool" where
  "event_ok R (ECreate m) \<longleftrightarrow> unat (tm_kind m) < length (records R)"
| "event_ok R (EMessage m) \<longleftrightarrow> True"
| "event_ok R (ERedn m) \<longleftrightarrow> (\<exists>elt val. rm_tuple m = [elt, val] \<and> te_size elt = 8)"

fun created :: "'d event \<Rightarrow> task_id list" where
  "created (ECreate m) = [tm_tid m]"
| "created _ = []"

definition conts_ok :: "('u, 'd) registry \<Rightarrow> ('u, 'd) workgroup \<Rightarrow> bool" where
  "conts_ok R st \<longleftrightarrow> (\<forall>tid t. wg_tasks st tid = Some t \<longrightarrow>
     (\<exists>c. tb_cont t = Some c \<and> unat c < length (continuations R)))"

definition cont_in :: "('u, 'd) registry \<Rightarrow> 'u task \<Rightarrow> bool" where
  "cont_in R t \<longleftrightarrow> (\<forall>c. tb_cont t = Some c \<longrightarrow> unat c < length (continuations R))"

lemma run_actions_Cons: "run_actions tid (a # as) to = run_actions tid as (run_action tid a to)"
  by (simp add: run_actions_def)

lemma run_actions_Nil [simp]: "run_actions tid [] to = to"
  by (simp add: run_actions_def)

lemma run_actions_cont_in:
  "acts_ok R as \<Longrightarrow> cont_in R (fst to) \<Longrightarrow> cont_in R (fst (run_actions tid as to))"
proof (induction as arbitrary: to)
  case (Cons a as)
  have "cont_in R (fst (run_action tid a to))"
    using Cons.prems by (cases a; cases to) (auto simp: acts_ok_def cont_in_def suspend_def terminate_def)
  moreover have "acts_ok R as" using Cons.prems(1) by (simp add: acts_ok_def)
  ultimately show ?case using Cons.IH by (simp add: run_actions_Cons)
qed simp

lemma run_actions_set:
  assumes "tb_cont (fst to) \<noteq> None \<or> (\<exists>c. Suspend c \<in> set as)"
  shows "tb_cont (fst (run_actions tid as to)) \<noteq> None"
  using assms
proof (induction as arbitrary: to)
  case (Cons a as)
  have "tb_cont (fst (run_action tid a to)) \<noteq> None \<or> (\<exists>c. Suspend c \<in> set as)"
    using Cons.prems by (cases a; cases to) (auto simp: suspend_def terminate_def)
  then show ?case using Cons.IH by (simp add: run_actions_Cons)
qed simp

lemma run_actions_terminate:
  "Terminate \<in> set as \<or> \<not> tb_active (fst to) \<Longrightarrow> \<not> tb_active (fst (run_actions tid as to))"
proof (induction as arbitrary: to)
  case (Cons a as)
  have "Terminate \<in> set as \<or> \<not> tb_active (fst (run_action tid a to))"
    using Cons.prems by (cases a; cases to) (auto simp: suspend_def terminate_def)
  then show ?case using Cons.IH by (simp add: run_actions_Cons)
qed simp

lemma invoke_conts:
  assumes w: "well_behaved R" and f: "get_continuation R c = Inr f"
    and t: "tb_cont t = Some d" "unat d < length (continuations R)"
  shows "\<exists>e. tb_cont (fst (invoke f tid p t)) = Some e \<and> unat e < length (continuations R)"
proof -
  obtain u as where u: "f (tb_user t) p = (u, as)" by (cases "f (tb_user t) p")
  have "f \<in> set (continuations R)" using f by (auto simp: get_continuation_def)
  then have "acts_ok R (snd (f (tb_user t) p))" using w by (simp add: well_behaved_def)
  then have ok: "acts_ok R as" using u by simp
  have "tb_cont (fst (run_actions tid as (t\<lparr>tb_user := u\<rparr>, []))) \<noteq> None"
    by (rule run_actions_set) (simp add: t(1))
  moreover have "cont_in R (fst (run_actions tid as (t\<lparr>tb_user := u\<rparr>, [])))"
    by (rule run_actions_cont_in [OF ok]) (simp add: cont_in_def t)
  ultimately show ?thesis by (auto simp: invoke_def u cont_in_def)
qed

lemma resume_core_total:
  assumes w: "well_behaved R" and c: "conts_ok R st"
  shows "\<exists>ok keep st'. resume_core R tid p st = Inr ((ok, keep), st') \<and> conts_ok R st' \<and>
    dom (wg_tasks st') \<subseteq> dom (wg_tasks st)"
proof (cases "wg_tasks st tid")
  case (Some t)
  then obtain d where d: "tb_cont t = Some d" "unat d < length (continuations R)"
    using c by (auto simp: conts_ok_def)
  then obtain f where f: "get_continuation R d = Inr f" by (simp add: get_continuation_def)
  show ?thesis
    using Some d f c invoke_conts [OF w f d]
    by (auto simp: resume_core_def Let_def conts_ok_def keep_task_tasks)
next
  case None
  then have "resume_core R tid p st = Inr ((False, False), st)" by (simp add: resume_core_def)
  then show ?thesis using c by blast
qed

lemma conts_ok_frame [simp]:
  "conts_ok R (touch k st) \<longleftrightarrow> conts_ok R st" "conts_ok R (set_bucket k c ps st) \<longleftrightarrow> conts_ok R st"
  by (simp_all add: conts_ok_def)

lemma try_continue_total:
  assumes w: "well_behaved R" and "conts_ok R st" and "wg_active st = k"
    and "wg_tasks st k = Some t"
  shows "\<exists>st'. try_continue R k st = Inr st' \<and> conts_ok R st' \<and> dom (wg_tasks st') \<subseteq> dom (wg_tasks st)"
  using assms(2-4)
proof (induction "queued st k" arbitrary: st t rule: less_induct)
  case less
  obtain c where c: "tb_cont t = Some c" using less.prems by (auto simp: conts_ok_def)
  show ?case
  proof (cases "bucket st k c")
    case Nil
    then show ?thesis
      using try_continue_empty [OF less.prems(3) c less.prems(2)] less.prems(1) by simp
  next
    case (Cons p ps)
    note eq = try_continue_next [OF less.prems(3) c less.prems(2) Cons, of R]
    have "conts_ok R (touch k st)" using less.prems(1) by simp
    from resume_core_total [OF w this, of k p] obtain ok keep st2 where
      r: "resume_core R k p (touch k st) = Inr ((ok, keep), st2)" and s2: "conts_ok R st2"
      and dom: "dom (wg_tasks st2) \<subseteq> dom (wg_tasks st)" by auto
    from r show ?thesis
    proof (cases rule: resume_core_cases)
      case refused
      then show ?thesis using eq r s2 dom by simp
    next
      case (taken t1 f)
      let ?st3 = "set_bucket k c ps st2"
      have b: "bucket st2 = bucket st" using taken by simp
      show ?thesis
      proof (cases keep)
        case True
        then obtain t2 where "wg_tasks ?st3 k = Some t2" using taken by (auto simp: keep_task_tasks)
        then have "\<exists>st'. try_continue R k ?st3 = Inr st' \<and> conts_ok R st' \<and>
            dom (wg_tasks st') \<subseteq> dom (wg_tasks ?st3)"
          using less.hyps [OF queued_pop [OF b Cons], of t2] s2 taken by simp
        then show ?thesis using eq r taken True dom by (auto intro: subset_trans)
      next
        case False
        then show ?thesis using eq r taken s2 dom by simp
      qed
    qed
  qed
qed

lemma deliver_total:
  assumes w: "well_behaved R" and c: "conts_ok R st"
  shows "\<exists>st'. deliver R tid p st = Inr st' \<and> conts_ok R st' \<and> dom (wg_tasks st') \<subseteq> dom (wg_tasks st)"
proof -
  obtain ok keep st1 where r: "resume_core R tid p st = Inr ((ok, keep), st1)"
    and s1: "conts_ok R st1" and dom: "dom (wg_tasks st1) \<subseteq> dom (wg_tasks st)"
    using resume_core_total [OF w c] by blast
  show ?thesis
  proof (cases "ok \<and> keep")
    case True
    from r have "\<exists>t. wg_active st1 = tid \<and> wg_tasks st1 tid = Some t"
      using True by (cases rule: resume_core_cases) (auto simp: keep_task_tasks)
    then obtain st2 where "try_continue R tid st1 = Inr st2" "conts_ok R st2"
      "dom (wg_tasks st2) \<subseteq> dom (wg_tasks st1)"
      using try_continue_total [OF w s1] by blast
    then show ?thesis using True r dom
      by (auto simp: deliver_def resume_payload_def)
  next
    case False
    then show ?thesis using r s1 dom
      by (auto simp: deliver_def resume_payload_def buffer_payload_def)
  qed
qed

lemma create_total:
  assumes w: "well_behaved R" and c: "conts_ok R st" and k: "unat (tm_kind m) < length (records R)"
    and new: "wg_tasks st (tm_tid m) = None"
  shows "\<exists>st'. create R m st = Inr st' \<and> conts_ok R st' \<and>
    dom (wg_tasks st') \<subseteq> insert (tm_tid m) (dom (wg_tasks st))"
proof -
  define f where "f = records R ! unat (tm_kind m)"
  have f: "get_task_creator R (tm_kind m) = Inr f" using k by (simp add: get_task_creator_def f_def)
  have "f \<in> set (records R)" using k by (simp add: f_def)
  then have fp: "acts_ok R (snd (f (payload_of m))) \<and> (Terminate \<in> set (snd (f (payload_of m))) \<or>
      (\<exists>c. Suspend c \<in> set (snd (f (payload_of m)))))"
    using w unfolding well_behaved_def by blast
  obtain u as where u: "f (payload_of m) = (u, as)" by (cases "f (payload_of m)")
  let ?to = "(new_task (tm_kind m) u, []) :: 'a task \<times> 'b out list"
  obtain t os where t: "run_actions (tm_tid m) as ?to = (t, os)"
    by (cases "run_actions (tm_tid m) as ?to")
  show ?thesis
  proof (cases "tb_active t")
    case True
    have "Terminate \<notin> set as" using run_actions_terminate [of as ?to "tm_tid m"] t True by auto
    then have s: "\<exists>c. Suspend c \<in> set as" using fp u by simp
    have "tb_cont t \<noteq> None" using run_actions_set [of ?to as "tm_tid m"] s t by simp
    moreover have "cont_in R t"
      using run_actions_cont_in [of R as ?to "tm_tid m"] fp u t by (simp add: cont_in_def new_task_def)
    ultimately have "\<exists>c. tb_cont t = Some c \<and> unat c < length (continuations R)"
      by (auto simp: cont_in_def)
    then have "conts_ok R (st\<lparr>wg_active := tm_tid m, wg_out := wg_out st @ os,
        wg_tasks := (wg_tasks st)(tm_tid m \<mapsto> t)\<rparr>)" (is "conts_ok R ?st")
      using c by (simp add: conts_ok_def)
    then have "\<exists>st'. try_continue R (tm_tid m) ?st = Inr st' \<and> conts_ok R st' \<and>
        dom (wg_tasks st') \<subseteq> dom (wg_tasks ?st)"
      using try_continue_total [OF w] by fastforce
    then show ?thesis using f u t True new by (auto simp: create_def)
  next
    case False
    then show ?thesis using f u t c by (auto simp: create_def conts_ok_def)
  qed
qed

lemma wg_run_total:
  assumes "well_behaved R" and "conts_ok R st" and "\<forall>e \<in> set es. event_ok R e"
    and "distinct (concat (map created es))"
    and "\<forall>tid \<in> set (concat (map created es)). wg_tasks st tid = None"
  shows "\<exists>st'. wg_run as_tid R es st = Inr st'"
  using assms(2-5)
proof (induction es arbitrary: st)
  case (Cons e es)
  have e: "event_ok R e" using Cons.prems by simp
  have "\<exists>st1. wg_step as_tid R e st = Inr st1 \<and> conts_ok R st1 \<and>
      dom (wg_tasks st1) \<subseteq> set (created e) \<union> dom (wg_tasks st)"
  proof (cases e)
    case (ECreate m)
    then show ?thesis using create_total [OF assms(1) Cons.prems(1), of m] e Cons.prems(4) by simp
  next
    case (EMessage m)
    then show ?thesis using deliver_total [OF assms(1) Cons.prems(1)] by (simp add: resume_message_def)
  next
    case (ERedn m)
    then obtain elt val where "rm_tuple m = [elt, val]" "te_size elt = 8" using e by auto
    then show ?thesis using deliver_total [OF assms(1) Cons.prems(1)] ERedn
      by (simp add: resume_redn_def)
  qed
  then obtain st1 where 1: "wg_step as_tid R e st = Inr st1" "conts_ok R st1"
    and dom: "dom (wg_tasks st1) \<subseteq> set (created e) \<union> dom (wg_tasks st)" by blast
  have "\<forall>tid \<in> set (concat (map created es)). wg_tasks st1 tid = None"
  proof
    fix tid assume a: "tid \<in> set (concat (map created es))"
    then have "tid \<notin> set (created e)" using Cons.prems(3) by auto
    moreover have "wg_tasks st tid = None" using Cons.prems(4) a by simp
    ultimately have "tid \<notin> dom (wg_tasks st1)" using dom by blast
    then show "wg_tasks st1 tid = None" by blast
  qed
  then show ?case using Cons.IH [OF 1(2)] Cons.prems(2,3) 1(1) by simp
qed simp

end
