(* ===== verification/Workgroup_Props.thy ===== *)
theory Workgroup_Props
  imports Workgroup_Spec
begin

text \<open>
  The properties of the workgroup element: order and completeness of delivery, absence of
  failures, identifiers, relocation of messages, registration.
\<close>

section \<open>Delivery\<close>

text \<open>
  C13. Whatever order messages, reductions and task creations reach an element in, every payload
  for a task and a continuation is either already run or still buffered, exactly once, and the
  ones run come first, in their order of arrival: out-of-order messages are held back, never
  lost, repeated or overtaken by a later one for the same continuation.
\<close>

theorem workgroup_fifo:
  assumes "wg_run as_tid R es (new_workgroup i junk) = Inr st"
  shows "stream st tid c = arrivals as_tid es tid c"
proof -
  have "stream (new_workgroup i junk) tid c = []"
    by (simp add: stream_def new_workgroup_def bucket_def)
  then show ?thesis using wg_run_settles [OF assms new_settled] by simp
qed

text \<open>
  C31. Between messages an element stores only tasks that are active, each waits for some
  continuation, and no payload that the task could already take is left in the buffers.
\<close>

theorem workgroup_settled:
  assumes "wg_reach as_tid R st" and "wg_tasks st tid = Some t"
  shows "tb_active t \<and> (\<exists>c. tb_cont t = Some c \<and> bucket st tid c = [])"
proof -
  have "tb_active t \<and> waits st tid t"
    using wg_reach_settled [OF assms(1)] assms(2) by (simp add: settled_def)
  then show ?thesis by (auto simp: waits_def split: option.splits)
qed

text \<open>
  C29. An element never fails an assertion, reads outside its tables or runs forever: when the
  user's code names only registered continuations and a new task suspends or terminates, any
  sequence of messages with registered kinds, well-formed reductions and distinct new
  identifiers is handled to its end.
\<close>

theorem workgroup_total:
  assumes "well_behaved R" and "\<forall>e \<in> set es. event_ok R e" and "distinct (concat (map created es))"
  shows "\<exists>st. wg_run as_tid R es (new_workgroup i junk) = Inr st"
  using assms by (intro wg_run_total) (simp_all add: conts_ok_def new_workgroup_def)

section \<open>Identifiers\<close>

fun gen_ids :: "nat \<Rightarrow> ('u, 'd) workgroup \<Rightarrow> task_id list" where
  "gen_ids 0 st = []"
| "gen_ids (Suc n) st = (let (tid, st1) = generate_id st in tid # gen_ids n st1)"

lemma gen_ids_map: "gen_ids n st
    = map (\<lambda>i. \<lparr>tid_host = wg_index st, tid_task = wg_last st + of_nat i\<rparr>) [0 ..< n]"
proof (induction n arbitrary: st)
  case (Suc n)
  have "[0 ..< Suc n] = 0 # map Suc [0 ..< n]" by (simp add: upt_conv_Cons map_Suc_upt)
  then show ?case by (simp add: Suc generate_id_def algebra_simps)
qed simp

text \<open>
  An element's identifiers are pairwise different exactly as long as it launched at most
  \<open>2 ^ 32\<close> tasks: the counter has 32 bits and is not checked for wrap-around.
\<close>

theorem launch_ids_distinct: "distinct (gen_ids n st) \<longleftrightarrow> n \<le> 2 ^ 32"
proof
  assume d: "distinct (gen_ids n st)"
  show "n \<le> 2 ^ 32"
  proof (rule ccontr)
    assume n: "\<not> n \<le> 2 ^ 32"
    have "gen_ids n st ! 0 = gen_ids n st ! (2 ^ 32)"
      using n by (simp add: gen_ids_map)
    then show False
      using d n nth_eq_iff_index_eq [OF d, of 0 "2 ^ 32"] by (simp add: gen_ids_map)
  qed
next
  assume n: "n \<le> 2 ^ 32"
  have "inj_on (of_nat :: nat \<Rightarrow> u32) {0 ..< n}"
    using n by (intro inj_onI) (simp add: word_of_nat_eq_iff take_bit_nat_eq_self_iff take_bit_eq_mod)
  then show "distinct (gen_ids n st)"
    by (auto simp: gen_ids_map distinct_map inj_on_def)
qed

lemma run_actions_active:
  "Terminate \<notin> set as \<Longrightarrow> tb_active (fst (run_actions tid as to)) = tb_active (fst to)"
proof (induction as arbitrary: to)
  case (Cons a as)
  have "tb_active (fst (run_action tid a to)) = tb_active (fst to)"
    using Cons.prems by (cases a; cases to) (auto simp: suspend_def)
  then show ?case using Cons by (simp add: run_actions_Cons)
qed simp

text \<open>
  When an identifier comes back while its task is still stored, creating the second task
  fails the insertion's assertion, whatever the table of kinds holds.
\<close>

theorem create_duplicate_fails:
  assumes "wg_tasks st (tm_tid m) = Some t" and "get_task_creator R (tm_kind m) = Inr f"
    and "Terminate \<notin> set (snd (f (payload_of m)))"
  shows "create R m st = Inl AssertFailed"
proof -
  obtain u as where u: "f (payload_of m) = (u, as)" by (cases "f (payload_of m)")
  have "tb_active (fst (run_actions (tm_tid m) as (new_task (tm_kind m) u, [])))"
    using assms(3) u by (simp add: run_actions_active new_task_def)
  then show ?thesis
    using assms(1,2) u by (auto simp: create_def Let_def check_def split: prod.splits)
qed

section \<open>Messages move\<close>

text \<open>
  A message packed at one address and unpacked at another carries its data at the same
  offset as it was allocated with, and the payload made from it points to that data.
\<close>

theorem message_relocates:
  "payload_of (tm_unpack ((tm_pack (tm_alloc align m env sz n tid kind args))\<lparr>tm_addr := a\<rparr>))
   = \<lparr>pl_src = a, pl_ref = 0, pl_len = n + (env + align sz - 24), pl_data = a + align sz, pl_at = [align sz \<mapsto> args]\<rparr>"
  by (simp add: payload_of_def tm_unpack_def tm_pack_def tm_alloc_def sizeof_task_message_def
      Let_def algebra_simps)

text \<open>
  Migration keeps a payload's reference number, length and content and moves its data
  pointer with its message; an active task that waits for a continuation is rebuilt as it was,
  provided that the kind's registered unpacking undoes its packing.
\<close>

theorem migration_roundtrip:
  assumes "unat (tb_kind t) < length pupers" and "(pupers ! unat (tb_kind t)) (up (tb_user t)) = tb_user t"
    and "tb_active t" and "tb_cont t \<noteq> None"
  shows "bind_res (task_pup up t) (task_unpup pupers) = Inr t \<and>
    payload_unpup a (payload_pup p) = p\<lparr>pl_src := a, pl_data := a + (pl_data p - pl_src p)\<rparr> \<and>
    pl_read (payload_unpup a (payload_pup p)) = pl_read p"
  using assms by (auto simp: task_pup_def task_unpup_def payload_unpup_def payload_pup_def at_def pl_read_def)

section \<open>Registration\<close>

text \<open>
  Registration hands out the next index: the new entry is found under it, no earlier entry
  changes, and the index named nothing before - as long as a table has not outgrown the width of
  its index, 16 bits for continuations and 32 for kinds.
\<close>

theorem registration:
  assumes "register_continuation f R = (c, R1)" and "length (continuations R) < 2 ^ 16"
    and "register_task g R1 = (k, R2)" and "length (records R1) < 2 ^ 32"
  shows "get_continuation R2 c = Inr f \<and> get_task_creator R2 k = Inr g \<and>
    get_continuation R c = Inl OutOfBounds \<and> get_task_creator R k = Inl OutOfBounds \<and>
    (\<forall>c' f'. get_continuation R c' = Inr f' \<longrightarrow> get_continuation R2 c' = Inr f') \<and>
    (\<forall>k' g'. get_task_creator R k' = Inr g' \<longrightarrow> get_task_creator R2 k' = Inr g')"
proof -
  have c: "unat c = length (continuations R)" "continuations R1 = continuations R @ [f]"
    "records R1 = records R"
    using assms(1,2) by (auto simp: register_continuation_def Let_def unat_of_nat)
  have k: "unat k = length (records R)" "records R2 = records R @ [g]"
    "continuations R2 = continuations R1"
    using assms(3,4) c(3) by (auto simp: register_task_def Let_def unat_of_nat)
  show ?thesis
    using c k by (auto simp: get_continuation_def get_task_creator_def nth_append at_def split: if_splits)
qed

section \<open>A run\<close>

text \<open>
  Two continuations that record what they were given; the second sends a message and waits for
  the first again. One payload arrives before its task exists, one for the second continuation
  while the first is waited for.
\<close>

definition demo_registry :: "(nat list, nat) registry" where
  "demo_registry = \<lparr>records = [\<lambda>p. ([], [Suspend 0])],
     continuations = [\<lambda>u p. (u @ [pl_args p], [Suspend 1]),
       \<lambda>u p. (u @ [pl_args p], [Send 2 0 (pl_args p), if pl_args p = 9 then Terminate else Suspend 0])]\<rparr>"

definition demo_tid :: task_id where "demo_tid = \<lparr>tid_host = 3, tid_task = 0\<rparr>"

definition demo_msg :: "u16 \<Rightarrow> nat \<Rightarrow> nat task_message" where
  "demo_msg c d = \<lparr>tm_addr = 64, tm_total = 32, tm_ref = c, tm_tid = demo_tid, tm_kind = 0,
     tm_data = 88, tm_at = [24 \<mapsto> d]\<rparr>"

definition demo_events :: "nat event list" where
  "demo_events = [EMessage (demo_msg 1 7), ECreate (demo_msg 0 0), EMessage (demo_msg 1 8),
     EMessage (demo_msg 0 5)]"

lemmas wg_eval = demo_registry_def demo_tid_def demo_msg_def new_workgroup_def resume_message_def
  deliver_def resume_payload_def resume_core_def create_def payload_of_def get_task_creator_def
  get_continuation_def at_def buffer_payload_def set_bucket_def bucket_def touch_def new_task_def
  run_actions_def suspend_def terminate_def task_send_def invoke_def keep_task_def Let_def
  sizeof_task_message_def

definition demo_state :: "(nat list, nat) workgroup" where
  "demo_state = \<lparr>wg_index = 3, wg_active = demo_tid, wg_last = 0,
     wg_tasks = [demo_tid \<mapsto> \<lparr>tb_active = True, tb_kind = 0, tb_cont = Some 0, tb_user = [5, 7]\<rparr>],
     wg_buffers = [demo_tid \<mapsto> [1 \<mapsto> [payload_of (demo_msg 1 8)]]],
     wg_out = [OutMsg (Some 2) demo_tid 0 7],
     wg_log = [(demo_tid, 0, payload_of (demo_msg 0 5)), (demo_tid, 1, payload_of (demo_msg 1 7))]\<rparr>"

lemma demo_run: "wg_run as_tid demo_registry demo_events (new_workgroup 3 demo_tid) = Inr demo_state"
  by (simp add: demo_events_def demo_state_def wg_eval try_continue.simps)

lemma workgroup_fifo_witness:
  "stream demo_state demo_tid 1 = map payload_of [demo_msg 1 7, demo_msg 1 8]"
  using workgroup_fifo [OF demo_run, of demo_tid 1]
  by (simp add: arrivals_def demo_events_def demo_msg_def payload_of_def)

lemma workgroup_settled_witness:
  "\<exists>t. wg_tasks demo_state demo_tid = Some t \<and> tb_active t \<and>
    (\<exists>c. tb_cont t = Some c \<and> bucket demo_state demo_tid c = [])"
proof -
  have "wg_reach (\<lambda>d. demo_tid) demo_registry demo_state"
    using wg_reach_run [OF demo_run wg_reach_new] .
  moreover have "wg_tasks demo_state demo_tid
      = Some \<lparr>tb_active = True, tb_kind = 0, tb_cont = Some 0, tb_user = [5, 7]\<rparr>"
    by (simp add: demo_state_def)
  ultimately show ?thesis using workgroup_settled by fast
qed

lemma demo_well_behaved: "well_behaved demo_registry"
  by (auto simp: well_behaved_def demo_registry_def acts_ok_def split: if_splits)

lemma workgroup_total_witness:
  "\<exists>st. wg_run (\<lambda>d. demo_tid) demo_registry demo_events (new_workgroup 3 demo_tid) = Inr st"
  by (rule workgroup_total [OF demo_well_behaved])
    (simp_all add: demo_events_def demo_registry_def demo_msg_def)

lemma create_duplicate_fails_witness:
  "create demo_registry (demo_msg 0 0) demo_state = Inl AssertFailed"
  by (rule create_duplicate_fails [where f = "\<lambda>p. ([], [Suspend 0])"])
    (simp_all add: demo_state_def demo_msg_def get_task_creator_def demo_registry_def at_def)

lemma migration_roundtrip_witness:
  "bind_res (task_pup rev \<lparr>tb_active = True, tb_kind = 0, tb_cont = Some 0, tb_user = [5, 7::nat]\<rparr>)
     (task_unpup [rev]) = Inr \<lparr>tb_active = True, tb_kind = 0, tb_cont = Some 0, tb_user = [5, 7]\<rparr> \<and>
   pl_data (payload_unpup 128 (payload_pup (payload_of (demo_msg 1 8)))) = 152 \<and>
   pl_read (payload_unpup 128 (payload_pup (payload_of (demo_msg 1 8)))) = Some 8"
  using migration_roundtrip [of "\<lparr>tb_active = True, tb_kind = 0, tb_cont = Some 0, tb_user = [5, 7::nat]\<rparr>"
    "[rev]" rev 128 "payload_of (demo_msg 1 8)"] by (simp add: payload_of_def demo_msg_def)

lemma registration_witness:
  "\<exists>R2 :: (nat list, nat) registry. get_continuation R2 2 = Inr (\<lambda>u p. (u, [])) \<and> get_task_creator R2 1 = Inr (\<lambda>p. ([], [Terminate]))"
proof -
  let ?f = "\<lambda>u p. (u, [])" and ?g = "\<lambda>p. ([], [Terminate])"
  obtain R1 where 1: "register_continuation ?f demo_registry = (2, R1)" "length (records R1) < 2 ^ 32"
    by (auto simp: register_continuation_def demo_registry_def Let_def)
  obtain R2 where 2: "register_task ?g R1 = (1, R2)"
    using 1(1) by (auto simp: register_continuation_def register_task_def demo_registry_def Let_def)
  have "length (continuations demo_registry) < 2 ^ 16" by (simp add: demo_registry_def)
  from registration [OF 1(1) this 2 1(2)] show ?thesis by blast
qed

end
