(* ===== verification/Relaxation.thy ===== *)
theory Relaxation
  imports Complex_Main Workgroup_Props
begin

text \<open>
  \<open>archive/path2.0/examples/relaxation/pgm.cpp\<close>: user code of the workgroup library. \<open>n\<close> tasks, one
  per element, iterate: each sends a ghost to its neighbours, waits for theirs, and contributes
  its error to a reduction whose result decides whether to go on; at the end their indices are
  collected at task 0, which checks that all are there and shuts the program down. The continuations
  are functions for the workgroup's tables. A \<open>double\<close> is a rational: the code only doubles
  and compares, which is exact for finite values that do not overflow.
\<close>

section \<open>The task\<close>

text \<open>What a message's data are read as: the constructor's arguments, nothing, a \<open>double\<close>, an index, a set of them.\<close>

datatype rx_data = Args int int rat | Nothing | Double rat | Index int | Indices "int list" | TaskId task_id

record relaxation_task =
  rx_converged :: bool
  rx_hasLeft :: bool
  rx_hasRight :: bool
  rx_tolerance :: rat
  rx_nRecvd :: int
  rx_nNeighbors :: int
  rx_nWorkers :: int
  rx_it :: int
  rx_maxIters :: int

type_synonym rx_code = "relaxation_task \<times> rx_data action list"

text \<open>
  The identifiers of the continuations: those that their registration gives below. The order of the
  registrations is the linker's; only that they differ matters.
\<close>

definition receive_ghost_id :: u16 where "receive_ghost_id = 0"
definition receive_max_error_id :: u16 where "receive_max_error_id = 1"
definition receive_grid_id :: u16 where "receive_grid_id = 2"

text \<open>The reducers used: Charm++'s numbers, again only told apart.\<close>

definition max_double :: nat where "max_double = 0"
definition set_reducer :: nat where "set_reducer = 1"
definition bitvec_and_int :: nat where "bitvec_and_int = 2"

definition send_ghosts :: "int \<Rightarrow> relaxation_task \<Rightarrow> rx_data action list" where
  "send_ghosts idx self =
     (if rx_hasLeft self then [Send (idx - 1) receive_ghost_id Nothing] else []) @
     (if rx_hasRight self then [Send (idx + 1) receive_ghost_id Nothing] else [])"

definition check_and_compute :: "int \<Rightarrow> relaxation_task \<Rightarrow> rx_data action list" where
  "check_and_compute idx self = (let max_error = rx_tolerance self * 2
     in [Runtime (CkPrintf [idx, rx_it self]), AllReduce receive_max_error_id (Double max_error) max_double,
         Suspend receive_max_error_id])"

definition on_converge :: "int \<Rightarrow> rx_data action list" where
  "on_converge idx = (let root = 0
     in [ReduceTo root receive_grid_id (Index idx) set_reducer,
         if root = idx then Suspend receive_grid_id else Terminate])"

text \<open>\<open>it++\<close> is not evaluated when \<open>converged\<close>.\<close>

definition converge_loop :: "int \<Rightarrow> relaxation_task \<Rightarrow> rx_code" where
  "converge_loop idx self =
     (let self1 = (if rx_converged self then self else self\<lparr>rx_it := rx_it self + 1\<rparr>)
      in if \<not> rx_converged self \<and> rx_it self < rx_maxIters self then
           (let self2 = self1\<lparr>rx_nRecvd := 0\<rparr>
            in (self2, send_ghosts idx self2 @
                 (if rx_nNeighbors self2 = 0 then check_and_compute idx self2
                  else [Suspend receive_ghost_id])))
         else (self1, on_converge idx))"

definition receive_ghost :: "int \<Rightarrow> relaxation_task \<Rightarrow> rx_data payload \<Rightarrow> rx_code" where
  "receive_ghost idx self p =
     (let self1 = self\<lparr>rx_nRecvd := rx_nRecvd self + 1\<rparr>
      in (self1, if rx_nRecvd self1 \<ge> rx_nNeighbors self1 then check_and_compute idx self1
                 else [Suspend receive_ghost_id]))"

text \<open>Reading data of another type is a fault.\<close>

definition receive_max_error :: "int \<Rightarrow> relaxation_task \<Rightarrow> rx_data payload \<Rightarrow> rx_code" where
  "receive_max_error idx self p =
     (case pl_args p of
        Double max_error \<Rightarrow> converge_loop idx (self\<lparr>rx_converged := max_error \<le> rx_tolerance self\<rparr>)
      | _ \<Rightarrow> (self, [Runtime (CkAbort BadPointer)]))"

definition receive_grid :: "relaxation_task \<Rightarrow> rx_data payload \<Rightarrow> rx_code" where
  "receive_grid self p =
     (case pl_args p of
        Indices xs \<Rightarrow>
          (self, if rx_nWorkers self = int (card (set xs)) then [Terminate, Runtime CkExit]
                 else [Runtime (CkAbort AssertFailed)])
      | _ \<Rightarrow> (self, [Runtime (CkAbort BadPointer)]))"

text \<open>The constructor. It does not set \<open>it\<close>, which is \<open>it0\<close>.\<close>

definition relaxation_create :: "int \<Rightarrow> int \<Rightarrow> rx_data payload \<Rightarrow> rx_code" where
  "relaxation_create idx it0 p =
     (case pl_args p of
        Args n iters tol \<Rightarrow>
          (let hasLeft = idx > 0; hasRight = idx + 1 < n; nNeighbors = of_bool hasLeft + of_bool hasRight;
               (self, acts) = converge_loop idx \<lparr>rx_converged = False, rx_hasLeft = hasLeft,
                 rx_hasRight = hasRight, rx_tolerance = tol, rx_nRecvd = 0, rx_nNeighbors = nNeighbors,
                 rx_nWorkers = n, rx_it = it0, rx_maxIters = iters\<rparr>
           in (self, Runtime (CkPrintf [idx, n, nNeighbors]) # acts))
      | _ \<Rightarrow> (\<lparr>rx_converged = False, rx_hasLeft = False, rx_hasRight = False, rx_tolerance = -1,
          rx_nRecvd = 0, rx_nNeighbors = 0, rx_nWorkers = 0, rx_it = it0, rx_maxIters = 0\<rparr>,
          [Runtime (CkAbort BadPointer)]))"

text \<open>The tables of the process, for code that runs on the element \<open>idx\<close> (\<open>index()\<close> asks the active element).\<close>

definition relaxation_registry :: "int \<Rightarrow> int \<Rightarrow> (relaxation_task, rx_data) registry" where
  "relaxation_registry idx it0 =
     (let (kind, R1) = register_task (relaxation_create idx it0) \<lparr>records = [], continuations = []\<rparr>;
          (c0, R2) = register_continuation (receive_ghost idx) R1;
          (c1, R3) = register_continuation (receive_max_error idx) R2;
          (c2, R4) = register_continuation receive_grid R3
      in R4)"

text \<open>\<open>pup\<close>: the members in its order.\<close>

definition rx_pup :: "relaxation_task \<Rightarrow> bool \<times> rat \<times> bool \<times> bool \<times> int \<times> int \<times> int \<times> int \<times> int" where
  "rx_pup self = (rx_converged self, rx_tolerance self, rx_hasLeft self, rx_hasRight self, rx_nRecvd self,
     rx_nNeighbors self, rx_nWorkers self, rx_it self, rx_maxIters self)"

definition rx_unpup :: "bool \<times> rat \<times> bool \<times> bool \<times> int \<times> int \<times> int \<times> int \<times> int \<Rightarrow> relaxation_task" where
  "rx_unpup x = (case x of (conv, tol, left, right, recvd, neighbors, workers, iter, iters) \<Rightarrow>
     \<lparr>rx_converged = conv, rx_hasLeft = left, rx_hasRight = right, rx_tolerance = tol, rx_nRecvd = recvd,
      rx_nNeighbors = neighbors, rx_nWorkers = workers, rx_it = iter, rx_maxIters = iters\<rparr>)"

section \<open>The program\<close>

text \<open>
  The program's elements, and what Charm++ has still to deliver to each, in any order. The number
  of completed reductions says which contribution of every element is next. \<open>rs_steps\<close> is a history
  variable.
\<close>

record rx_sys =
  rs_elem :: "nat \<Rightarrow> (relaxation_task, rx_data) workgroup"
  rs_wire :: "nat \<Rightarrow> rx_data event multiset"
  rs_done :: nat
  rs_steps :: nat

text \<open>\<open>task::send\<close> and \<open>task::broadcast\<close>; where a message lies and how long it is does not matter here.\<close>

definition resume_msg :: "task_id \<Rightarrow> u16 \<Rightarrow> rx_data \<Rightarrow> rx_data event" where
  "resume_msg tid c d = EMessage ((tm_alloc id 0 0 24 0 tid 0 d)\<lparr>tm_ref := c\<rparr>)"

fun msgs_to :: "nat \<Rightarrow> rx_data out list \<Rightarrow> rx_data event list" where
  "msgs_to j [] = []"
| "msgs_to j (OutMsg dest tid c d # os) =
     (if dest = None \<or> dest = Some (int j) then resume_msg tid c d # msgs_to j os else msgs_to j os)"
| "msgs_to j (OutRedn tid d ty target # os) = msgs_to j os"
| "msgs_to j (OutCall c # os) = msgs_to j os"

fun redns :: "rx_data out list \<Rightarrow> (task_id \<times> rx_data \<times> nat \<times> redn_target) list" where
  "redns [] = []"
| "redns (OutRedn tid d ty target # os) = (tid, d, ty, target) # redns os"
| "redns (OutMsg dest tid c d # os) = redns os"
| "redns (OutCall c # os) = redns os"

text \<open>
  A reduction of contributions that agree on the reducer and the callback: \<open>task::reduce\<close> pairs the
  identifier with the value, and \<open>redn\<close> is Charm++'s reduction of values.
\<close>

definition redn_msg ::
  "(nat \<Rightarrow> rx_data list \<Rightarrow> rx_data) \<Rightarrow> u16 \<Rightarrow> nat \<Rightarrow> task_id list \<Rightarrow> rx_data list \<Rightarrow> rx_data event" where
  "redn_msg redn c ty tids ds = ERedn \<lparr>rm_addr = 0, rm_ref = c, rm_tuple =
     [\<lparr>te_size = 8, te_data = 0, te_val = redn bitvec_and_int (map TaskId tids)\<rparr>,
      \<lparr>te_size = 0, te_data = 0, te_val = redn ty ds\<rparr>]\<rparr>"

definition reduced ::
  "(nat \<Rightarrow> rx_data list \<Rightarrow> rx_data) \<Rightarrow> nat \<Rightarrow> (task_id \<times> rx_data \<times> nat \<times> redn_target) list
    \<Rightarrow> nat \<Rightarrow> rx_data event multiset" where
  "reduced redn n cs j =
     (case cs of
        [] \<Rightarrow> {#}
      | (tid, d, ty, target) # _ \<Rightarrow>
          (let msg = (\<lambda>c. {#redn_msg redn c ty (map fst cs) (map (fst \<circ> snd) cs)#})
           in case target of
                RednAll c \<Rightarrow> if j < n then msg c else {#}
              | RednElt k c \<Rightarrow> if k = int j then msg c else {#}
              | RednCb cb \<Rightarrow> {#}))"

definition rx_as_tid :: "rx_data \<Rightarrow> task_id" where
  "rx_as_tid d = (case d of TaskId t \<Rightarrow> t | _ \<Rightarrow> \<lparr>tid_host = 0, tid_task = 0\<rparr>)"

definition next_redns :: "nat \<Rightarrow> rx_sys \<Rightarrow> (task_id \<times> rx_data \<times> nat \<times> redn_target) list" where
  "next_redns n s = map (\<lambda>i. redns (wg_out (rs_elem s i)) ! rs_done s) [0..<n]"

definition can_reduce :: "nat \<Rightarrow> rx_sys \<Rightarrow> bool" where
  "can_reduce n s \<longleftrightarrow> (\<forall>i<n. rs_done s < length (redns (wg_out (rs_elem s i)))) \<and>
     (\<forall>c \<in> set (next_redns n s). \<forall>c' \<in> set (next_redns n s). snd (snd c) = snd (snd c'))"

inductive rx_step ::
  "(nat \<Rightarrow> rx_data list \<Rightarrow> rx_data) \<Rightarrow> (nat \<Rightarrow> int) \<Rightarrow> nat \<Rightarrow> rx_sys \<Rightarrow> rx_sys \<Rightarrow> bool"
  for redn it0 n where
  rx_deliver: "i < n \<Longrightarrow> e \<in># rs_wire s i \<Longrightarrow>
    wg_step rx_as_tid (relaxation_registry (int i) (it0 i)) e (rs_elem s i) = Inr st \<Longrightarrow>
    rx_step redn it0 n s (s\<lparr>rs_elem := (rs_elem s)(i := st),
      rs_wire := (\<lambda>j. ((rs_wire s)(i := rs_wire s i - {#e#})) j
        + mset (msgs_to j (drop (length (wg_out (rs_elem s i))) (wg_out st)))),
      rs_steps := Suc (rs_steps s)\<rparr>)"
| rx_reduce: "can_reduce n s \<Longrightarrow>
    rx_step redn it0 n s (s\<lparr>rs_wire := (\<lambda>j. rs_wire s j + reduced redn n (next_redns n s) j),
      rs_done := Suc (rs_done s), rs_steps := Suc (rs_steps s)\<rparr>)"

text \<open>
  \<open>pgm\<close>'s constructor, after the command line is read: the message that \<open>launch\<close> broadcasts goes to
  every element; \<open>junk\<close> is an element's unset \<open>active_\<close>. The kind is that of the task.
\<close>

definition create_msg :: "nat \<Rightarrow> int \<Rightarrow> rat \<Rightarrow> task_id \<Rightarrow> rx_data task_message" where
  "create_msg n iters tol tid = tm_alloc id 0 0 24 0 tid 0 (Args (int n) iters tol)"

definition rx_main :: "task_id \<Rightarrow> nat \<Rightarrow> int \<Rightarrow> rat \<Rightarrow> (task_id \<times> rx_sys) res" where
  "rx_main junk n iters tol =
     (if n = 0 then Inl Aborted
      else bind_res (launch (create_msg n iters tol) (map (\<lambda>i. new_workgroup (int i) junk) [0..<n]))
        (\<lambda>(tid, msg, elems). Inr (tid,
          \<lparr>rs_elem = (\<lambda>i. if i < n then elems ! i else new_workgroup (int i) junk),
           rs_wire = (\<lambda>i. if i < n then {#ECreate msg#} else {#}), rs_done = 0, rs_steps = 0\<rparr>)))"

definition rx_reach ::
  "(nat \<Rightarrow> rx_data list \<Rightarrow> rx_data) \<Rightarrow> (nat \<Rightarrow> int) \<Rightarrow> task_id \<Rightarrow> nat \<Rightarrow> int \<Rightarrow> rat \<Rightarrow> rx_sys \<Rightarrow> bool" where
  "rx_reach redn it0 junk n iters tol =
     reach (\<lambda>s. \<exists>tid. rx_main junk n iters tol = Inr (tid, s)) (rx_step redn it0 n)"

text \<open>
  What Charm++ documents of its reducers: the bitwise and of equal values is that value, the
  maximum of equal values too, and the set has the contributed elements, in no order that is promised.
\<close>

definition redn_ok :: "(nat \<Rightarrow> rx_data list \<Rightarrow> rx_data) \<Rightarrow> bool" where
  "redn_ok redn \<longleftrightarrow>
     (\<forall>k tid. redn bitvec_and_int (replicate (Suc k) (TaskId tid)) = TaskId tid) \<and>
     (\<forall>k x. redn max_double (replicate (Suc k) (Double x)) = Double x) \<and>
     (\<forall>xs. \<exists>ys. redn set_reducer (map Index xs) = Indices ys \<and> set ys = set xs)"

end
