(* ===== verification/Workgroup_Migrate.thy ===== *)
theory Workgroup_Migrate
  imports Workgroup_Props
begin

text \<open>
  Migration of a whole element: \<open>workgroup::pup\<close> in \<open>workgroup.hpp\<close>. The element is packed on one
  processor and rebuilt on another; messages that come afterwards must find it as it was.
\<close>

section \<open>Packing an element\<close>

text \<open>
  The members \<open>last_task_\<close>, \<open>tasks_\<close> and \<open>buffers_\<close>, in this order; \<open>active_\<close> is not packed. The maps and
  deques are packed by Charm++'s own code, here entry by entry. A task that cannot be packed fails.
\<close>

record ('b, 'd) wg_image =
  im_last :: u32
  im_tasks :: "task_id \<Rightarrow> (u32 \<times> u16 \<times> 'b) res option"
  im_buffers :: "task_id \<Rightarrow> (u16 \<Rightarrow> ((u16 \<times> 'd memory) \<times> u64 \<times> u64) list option) option"

definition wg_pup ::
  "('u \<Rightarrow> 'b) \<Rightarrow> ('u, 'd) workgroup \<Rightarrow> ('b, 'd) wg_image" where
  "wg_pup up st = \<lparr>im_last = wg_last st, im_tasks = (\<lambda>tid. map_option (task_pup up) (wg_tasks st tid)),
     im_buffers = (\<lambda>tid. map_option (\<lambda>m c. map_option (map payload_pup) (m c)) (wg_buffers st tid))\<rparr>"

text \<open>
  Unpacking into the element that Charm++'s migration constructor made: \<open>place tid c k\<close> is where the
  \<open>k\<close>-th message of a buffer comes to lie, \<open>junk\<close> the unset \<open>active_\<close>. The history starts anew.
\<close>

definition unpup_entry :: "('b \<Rightarrow> 'u) list \<Rightarrow> (u32 \<times> u16 \<times> 'b) res \<Rightarrow> 'u task option" where
  "unpup_entry pupers r = (case bind_res r (task_unpup pupers) of Inl _ \<Rightarrow> None | Inr t \<Rightarrow> Some t)"

definition wg_unpup ::
  "('b \<Rightarrow> 'u) list \<Rightarrow> (task_id \<Rightarrow> u16 \<Rightarrow> nat \<Rightarrow> addr) \<Rightarrow> int \<Rightarrow> task_id \<Rightarrow> ('b, 'd) wg_image \<Rightarrow> ('u, 'd) workgroup" where
  "wg_unpup pupers place i junk im = (new_workgroup i junk)\<lparr>wg_last := im_last im,
     wg_tasks := (\<lambda>tid. Option.bind (im_tasks im tid) (unpup_entry pupers)),
     wg_buffers := (\<lambda>tid. map_option (\<lambda>m c. map_option
       (\<lambda>xs. map (\<lambda>(k, x). payload_unpup (place tid c k) x) (enumerate 0 xs)) (m c)) (im_buffers im tid))\<rparr>"

section \<open>States that differ only in addresses\<close>

text \<open>
  What user code sees of a payload: the reference number, the length and what the message has behind
  the data pointer - nothing when the pointer has left the message.
\<close>

definition strip :: "'d payload \<Rightarrow> u16 \<times> u64 \<times> 'd option" where
  "strip p = (pl_ref p, pl_len p, pl_read p)"

text \<open>User code does not look at where a payload lies.\<close>

definition address_free :: "('u, 'd) registry \<Rightarrow> bool" where
  "address_free R \<longleftrightarrow> (\<forall>f \<in> set (continuations R). \<forall>u p p'. strip p = strip p' \<longrightarrow> f u p = f u p')"

definition similar :: "('u, 'd) workgroup \<Rightarrow> ('u, 'd) workgroup \<Rightarrow> bool" where
  "similar st st' \<longleftrightarrow> wg_index st = wg_index st' \<and> wg_last st = wg_last st' \<and> wg_tasks st = wg_tasks st' \<and>
     wg_out st = wg_out st' \<and> (\<forall>tid c. map strip (bucket st tid c) = map strip (bucket st' tid c)) \<and>
     map (\<lambda>(t, c, p). (t, c, strip p)) (wg_log st) = map (\<lambda>(t, c, p). (t, c, strip p)) (wg_log st')"

lemma strip_eq: "strip p = strip p' \<longleftrightarrow> pl_ref p = pl_ref p' \<and> pl_len p = pl_len p' \<and> pl_read p = pl_read p'"
  by (simp add: strip_def)

lemma similar_touch: "similar st st' \<Longrightarrow> similar (touch j st) (touch k st')"
  by (simp add: similar_def) (simp add: touch_def)

lemma similar_set_bucket:
  "similar st st' \<Longrightarrow> map strip ps = map strip ps' \<Longrightarrow> similar (set_bucket k c ps st) (set_bucket k c ps' st')"
  by (simp add: similar_def bucket_set) (simp add: set_bucket_def)

lemma similar_buffer:
  assumes "similar st st'" and "strip p = strip p'"
  shows "similar (buffer_payload tid p st) (buffer_payload tid p' st')"
proof -
  have "pl_ref p = pl_ref p'" using assms(2) by (simp add: strip_eq)
  moreover have "map strip (bucket st tid c @ [p]) = map strip (bucket st' tid c @ [p'])" for c
    using assms by (simp add: similar_def)
  ultimately show ?thesis unfolding buffer_payload_def using similar_set_bucket [OF assms(1)] by metis
qed

lemma similar_keep:
  assumes "similar st st'" and "strip p = strip p'"
  shows "similar (keep_task tid p to st) (keep_task tid p' to st')"
proof -
  have "pl_ref p = pl_ref p'" using assms(2) by (simp add: strip_eq)
  then show ?thesis using assms by (simp add: similar_def) (simp add: keep_task_def)
qed

lemma resume_core_similar:
  assumes R: "address_free R" and s: "similar st st'" and p: "strip p = strip p'"
  shows "rel_sum (=) (rel_prod (=) similar) (resume_core R tid p st) (resume_core R tid p' st')"
proof (cases "wg_tasks st tid")
  case None
  then show ?thesis using s by (auto simp: resume_core_def similar_def)
next
  case (Some t)
  then have t': "wg_tasks st' tid = Some t" using s by (simp add: similar_def)
  have ref: "pl_ref p = pl_ref p'" using p by (simp add: strip_eq)
  show ?thesis
  proof (cases "tb_cont t = Some (pl_ref p)")
    case False
    then show ?thesis using Some t' s ref by (auto simp: resume_core_def split: option.splits)
  next
    case True
    show ?thesis
    proof (cases "get_continuation R (pl_ref p)")
      case (Inl e)
      then show ?thesis using Some t' True ref by (simp add: resume_core_def)
    next
      case (Inr f)
      then have "f \<in> set (continuations R)" by (auto simp: get_continuation_def)
      then have "f (tb_user t) p = f (tb_user t) p'" using R p unfolding address_free_def by blast
      then have "invoke f tid p t = invoke f tid p' t" by (simp add: invoke_def)
      then show ?thesis
        using Some t' True Inr ref similar_keep [OF s p] by (simp add: resume_core_def Let_def)
    qed
  qed
qed

lemma rel_sum_bind:
  assumes "rel_sum (=) Q x y" and "\<And>a b. Q a b \<Longrightarrow> rel_sum (=) S (f a) (g b)"
  shows "rel_sum (=) S (bind_res x f) (bind_res y g)"
  using assms by (cases x; cases y) auto

lemma try_continue_similar:
  assumes R: "address_free R" and "similar st st'" and "wg_active st = k" and "wg_active st' = k"
  shows "rel_sum (=) similar (try_continue R k st) (try_continue R k st')"
  using assms(2-4)
proof (induction "queued st k" arbitrary: st st' rule: less_induct)
  case less
  note s = less.prems(1)
  have tasks: "wg_tasks st' = wg_tasks st" using s by (simp add: similar_def)
  show ?case
  proof (cases "\<exists>t c. wg_tasks st k = Some t \<and> tb_cont t = Some c")
    case False
    then show ?thesis using tasks
      by (subst (1 2) try_continue.simps) (auto simp: Let_def split: option.splits)
  next
    case True
    then obtain t c where t: "wg_tasks st k = Some t" "tb_cont t = Some c" by blast
    then have t': "wg_tasks st' k = Some t" by (simp add: tasks)
    have bk: "map strip (bucket st k c) = map strip (bucket st' k c)" using s by (simp add: similar_def)
    show ?thesis
    proof (cases "bucket st k c")
      case Nil
      then have "bucket st' k c = []" using bk by simp
      then show ?thesis
        using try_continue_empty [OF t less.prems(2) Nil] try_continue_empty [OF t' t(2) less.prems(3)]
          similar_touch [OF s] by simp
    next
      case (Cons p ps)
      then obtain p' ps' where b': "bucket st' k c = p' # ps'" and p: "strip p = strip p'" "map strip ps = map strip ps'"
        using bk by (cases "bucket st' k c") auto
      have rc: "rel_sum (=) (rel_prod (=) similar) (resume_core R k p (touch k st)) (resume_core R k p' (touch k st'))"
        by (rule resume_core_similar [OF R similar_touch [OF s] p(1)])
      note eqs = try_continue_next [OF t less.prems(2) Cons] try_continue_next [OF t' t(2) less.prems(3) b']
      show ?thesis
      proof (cases "resume_core R k p (touch k st)")
        case (Inl e)
        then have "resume_core R k p' (touch k st') = Inl e"
          using rc by (cases "resume_core R k p' (touch k st')") simp_all
        then show ?thesis using Inl by (simp add: eqs)
      next
        case (Inr x)
        obtain ok active st2 where x: "x = ((ok, active), st2)" by (metis prod.collapse)
        then obtain st2' where r: "resume_core R k p (touch k st) = Inr ((ok, active), st2)"
          "resume_core R k p' (touch k st') = Inr ((ok, active), st2')" and s2: "similar st2 st2'"
          using Inr rc by (cases "resume_core R k p' (touch k st')") auto
        have s3: "similar (set_bucket k c ps st2) (set_bucket k c ps' st2')" by (rule similar_set_bucket [OF s2 p(2)])
        have "rel_sum (=) similar (try_continue R k (set_bucket k c ps st2)) (try_continue R k (set_bucket k c ps' st2'))" if ok
        proof (rule less.hyps [OF _ s3])
          have "bucket st2 = bucket st" using resume_core_bucket [OF r(1)] by simp
          then show "queued (set_bucket k c ps st2) k < queued st k" using queued_pop Cons by blast
          show "wg_active (set_bucket k c ps st2) = k" "wg_active (set_bucket k c ps' st2') = k"
            using r that by (auto dest: resume_core_active)
        qed
        then show ?thesis using r s2 s3 by (simp add: eqs)
      qed
    qed
  qed
qed

lemma deliver_similar:
  assumes R: "address_free R" and s: "similar st st'" and p: "strip p = strip p'"
  shows "rel_sum (=) similar (deliver R tid p st) (deliver R tid p' st')"
proof -
  note rc = resume_core_similar [OF R s p, of tid]
  have eq: "deliver R tid q u = (case resume_core R tid q u of Inl e \<Rightarrow> Inl e
      | Inr ((ok, keep), u1) \<Rightarrow> if ok \<and> keep then try_continue R tid u1
          else Inr (if ok then u1 else buffer_payload tid q u1))" for q u
  proof (cases "resume_core R tid q u")
    case (Inr x)
    obtain ok keep u1 where "x = ((ok, keep), u1)" by (metis prod.collapse)
    then show ?thesis using Inr
      by (cases "try_continue R tid u1") (simp_all add: deliver_def resume_payload_def)
  qed (simp add: deliver_def resume_payload_def)
  show ?thesis
  proof (cases "resume_core R tid p st")
    case (Inl e)
    then have "resume_core R tid p' st' = Inl e" using rc by (cases "resume_core R tid p' st'") simp_all
    then show ?thesis using Inl by (simp add: eq)
  next
    case (Inr x)
    obtain ok keep u where x: "x = ((ok, keep), u)" by (metis prod.collapse)
    then obtain u' where r: "resume_core R tid p st = Inr ((ok, keep), u)"
      "resume_core R tid p' st' = Inr ((ok, keep), u')" and u: "similar u u'"
      using Inr rc by (cases "resume_core R tid p' st'") auto
    have "rel_sum (=) similar (try_continue R tid u) (try_continue R tid u')" if ok
      by (rule try_continue_similar [OF R u]) (use r that in \<open>auto dest: resume_core_active\<close>)
    then show ?thesis using r u similar_buffer [OF u p] by (simp add: eq)
  qed
qed

lemma create_similar:
  assumes R: "address_free R" and s: "similar st st'"
  shows "rel_sum (=) similar (create R m st) (create R m st')"
proof (cases "get_task_creator R (tm_kind m)")
  case (Inl e)
  then show ?thesis by (simp add: create_def)
next
  case (Inr f)
  obtain u as where u: "f (payload_of m) = (u, as)" by fastforce
  obtain t os where t: "run_actions (tm_tid m) as (new_task (tm_kind m) u, []) = (t, os)" by fastforce
  let ?s = "\<lambda>st. st\<lparr>wg_active := tm_tid m, wg_out := wg_out st @ os\<rparr>"
  let ?t = "\<lambda>st. (?s st)\<lparr>wg_tasks := (wg_tasks st)(tm_tid m \<mapsto> t)\<rparr>"
  have b: "bucket (?s x) = bucket x" "bucket (?t x) = bucket x" for x :: "('a, 'b) workgroup"
    by (simp_all add: bucket_def fun_eq_iff)
  have 1: "similar (?s st) (?s st')" using s unfolding similar_def b by simp
  have 2: "similar (?t st) (?t st')" using s unfolding similar_def b by simp
  have "wg_tasks st' = wg_tasks st" using s by (simp add: similar_def)
  then show ?thesis
    using Inr u t 1 try_continue_similar [OF R 2, of "tm_tid m"] by (simp add: create_def check_def Let_def)
qed

lemma wg_step_similar:
  assumes R: "address_free R" and s: "similar st st'"
  shows "rel_sum (=) similar (wg_step as_tid R e st) (wg_step as_tid R e st')"
proof (cases e)
  case (ECreate m)
  then show ?thesis using create_similar [OF R s] by simp
next
  case (EMessage m)
  then show ?thesis using deliver_similar [OF R s refl] by (simp add: resume_message_def)
next
  case (ERedn m)
  have "rel_sum (=) similar (resume_redn as_tid R m st) (resume_redn as_tid R m st')"
    using deliver_similar [OF R s refl] by (auto simp: resume_redn_def check_def split: list.split)
  then show ?thesis using ERedn by simp
qed

lemma wg_run_similar:
  "address_free R \<Longrightarrow> similar st st' \<Longrightarrow> rel_sum (=) similar (wg_run as_tid R es st) (wg_run as_tid R es st')"
proof (induction es arbitrary: st st')
  case (Cons e es)
  show ?case unfolding wg_run.simps
    by (rule rel_sum_bind [OF wg_step_similar [OF Cons.prems]]) (rule Cons.IH [OF Cons.prems(1)])
qed simp

section \<open>Migration\<close>

lemma strip_placed: "strip (payload_unpup a (payload_pup p)) = strip p"
  by (simp add: strip_def payload_unpup_def payload_pup_def pl_read_def)

lemma map_placed: "map (\<lambda>(k, x). strip (payload_unpup (f k) x)) (enumerate n (map payload_pup ps)) = map strip ps"
  by (induction ps arbitrary: n) (simp_all add: strip_placed)

lemma bucket_migrated:
  "map strip (bucket (wg_unpup pupers place i junk (wg_pup up st)) tid c) = map strip (bucket st tid c)"
proof (cases "wg_buffers st tid")
  case (Some m)
  then show ?thesis
    using map_placed [of "place tid c" 0] by (cases "m c")
      (simp_all add: bucket_def wg_unpup_def wg_pup_def comp_def case_prod_unfold)
qed (simp add: bucket_def wg_unpup_def wg_pup_def)

lemma similar_migrated:
  assumes "settled st" and "\<forall>tid t. wg_tasks st tid = Some t \<longrightarrow> unat (tb_kind t) < length pupers \<and>
      (pupers ! unat (tb_kind t)) (up (tb_user t)) = tb_user t"
  shows "similar (wg_unpup pupers place (wg_index st) junk (wg_pup up st)) (st\<lparr>wg_out := [], wg_log := []\<rparr>)"
proof -
  have e: "unpup_entry pupers (task_pup up t) = Some t" if t: "wg_tasks st tid = Some t" for tid t
  proof -
    have "tb_active t" "waits st tid t" using assms(1) t by (auto simp: settled_def)
    then obtain c where "tb_active t" "tb_cont t = Some c" by (auto simp: waits_def split: option.splits)
    then show ?thesis using assms(2) t by (simp add: unpup_entry_def task_pup_def task_unpup_def at_def)
  qed
  have tasks: "Option.bind (map_option (task_pup up) (wg_tasks st tid)) (unpup_entry pupers) = wg_tasks st tid" for tid
    using e by (cases "wg_tasks st tid") simp_all
  have "bucket (st\<lparr>wg_out := [], wg_log := []\<rparr>) = bucket st" by (simp add: bucket_def fun_eq_iff)
  then show ?thesis
    unfolding similar_def bucket_migrated by (simp add: wg_unpup_def wg_pup_def new_workgroup_def tasks)
qed

text \<open>
  C14. Migration is transparent: whatever messages come afterwards, an element that was packed between two messages
  and rebuilt elsewhere, its buffered messages at new addresses, their data pointers re-based and \<open>active_\<close> unset, does what it would have
  done without moving - it fails where that fails, and otherwise makes the same calls and ends with the same tasks
  and the same buffered payloads, in each of which the data pointer leads to the same data - as long as user code does not look at addresses and each registered
  unpacking undoes the packing of its tasks.
\<close>

theorem migration_transparent:
  assumes "address_free R" and "wg_reach as_tid R st"
    and "\<forall>tid t. wg_tasks st tid = Some t \<longrightarrow> unat (tb_kind t) < length pupers \<and>
      (pupers ! unat (tb_kind t)) (up (tb_user t)) = tb_user t"
  shows "rel_sum (=) similar
    (wg_run as_tid R es (wg_unpup pupers place (wg_index st) junk (wg_pup up st)))
    (wg_run as_tid R es (st\<lparr>wg_out := [], wg_log := []\<rparr>))"
  by (rule wg_run_similar [OF assms(1) similar_migrated [OF wg_reach_settled [OF assms(2)] assms(3)]])

text \<open>The element of the run in \<open>Workgroup_Props\<close> moves while it holds a buffered message, and gets one more.\<close>

lemma demo_address_free: "address_free demo_registry"
  by (auto simp: address_free_def demo_registry_def strip_eq pl_args_def)

lemma migration_transparent_witness:
  "\<exists>st st'. wg_run (\<lambda>d. demo_tid) demo_registry [EMessage (demo_msg 0 6)]
     (wg_unpup [rev] (\<lambda>tid c k. 4096 + of_nat k) 3 demo_tid (wg_pup rev demo_state)) = Inr st \<and>
   wg_run (\<lambda>d. demo_tid) demo_registry [EMessage (demo_msg 0 6)] (demo_state\<lparr>wg_out := [], wg_log := []\<rparr>) = Inr st' \<and>
   similar st st' \<and> wg_out st = [OutMsg (Some 2) demo_tid 0 8]"
proof -
  have r: "wg_reach (\<lambda>d. demo_tid) demo_registry demo_state" using wg_reach_run [OF demo_run wg_reach_new] .
  have t: "\<forall>tid t. wg_tasks demo_state tid = Some t \<longrightarrow> unat (tb_kind t) < length [rev :: nat list \<Rightarrow> nat list] \<and>
      ([rev] ! unat (tb_kind t)) (rev (tb_user t)) = tb_user t"
    by (simp add: demo_state_def)
  have i: "wg_index demo_state = 3" by (simp add: demo_state_def)
  obtain st' where st': "wg_run (\<lambda>d. demo_tid) demo_registry [EMessage (demo_msg 0 6)] (demo_state\<lparr>wg_out := [], wg_log := []\<rparr>) = Inr st'"
    "wg_out st' = [OutMsg (Some 2) demo_tid 0 8]"
    by (simp add: demo_state_def wg_eval try_continue.simps)
  show ?thesis
    using migration_transparent [OF demo_address_free r t, of "[EMessage (demo_msg 0 6)]" "\<lambda>tid c k. 4096 + of_nat k" demo_tid]
      st' unfolding i st'(1) by (cases "wg_run (\<lambda>d. demo_tid) demo_registry [EMessage (demo_msg 0 6)]
     (wg_unpup [rev] (\<lambda>tid c k. 4096 + of_nat k) 3 demo_tid (wg_pup rev demo_state))") (auto simp: similar_def)
qed

end
