(* ===== verification/Relaxation_Elem.thy ===== *)
theory Relaxation_Elem
  imports Relaxation Workgroup_Migrate
begin

text \<open>
  One element of the relaxation program: the phases a task goes through, and that each message moves
  the element from phase to phase, ghosts that come early being buffered by the workgroup.
\<close>

section \<open>Phases\<close>

text \<open>The run's parameters: tasks, bound, tolerance, the value \<open>it\<close> starts with, the task's identifier.\<close>

record rx_par =
  q_n :: nat
  q_iters :: int
  q_tol :: rat
  q_it0 :: int
  q_tid :: task_id

text \<open>How many iterations are made: twice a positive tolerance is never within the tolerance.\<close>

definition rounds :: "rx_par \<Rightarrow> nat" where
  "rounds q = (if q_tol q \<le> 0 then min 1 (nat (q_iters q - q_it0 q)) else nat (q_iters q - q_it0 q))"

definition nbrs :: "rx_par \<Rightarrow> nat \<Rightarrow> nat" where
  "nbrs q i = of_bool (0 < i) + of_bool (Suc i < q_n q)"

text \<open>
  Not created; in iteration \<open>a\<close> with \<open>g\<close> ghosts received; waiting for the error of iteration \<open>a\<close>; waiting
  for the indices; terminated.
\<close>

datatype rx_phase = Absent | Ghosts nat nat | Errs nat | Grid | Gone

definition begin_round :: "rx_par \<Rightarrow> nat \<Rightarrow> nat \<Rightarrow> rx_phase" where
  "begin_round q i a =
     (if a < rounds q then if nbrs q i = 0 then Errs (Suc a) else Ghosts (Suc a) 0
      else if i = 0 then Grid else Gone)"

text \<open>What \<open>b\<close> buffered ghosts do.\<close>

definition eat :: "rx_par \<Rightarrow> nat \<Rightarrow> rx_phase \<Rightarrow> nat \<Rightarrow> rx_phase \<times> nat" where
  "eat q i ph b = (case ph of
     Ghosts a g \<Rightarrow> if nbrs q i \<le> g + b then (Errs a, g + b - nbrs q i) else (Ghosts a (g + b), 0)
   | _ \<Rightarrow> (ph, b))"

definition ghosts :: "rx_par \<Rightarrow> nat \<Rightarrow> rx_data out list" where
  "ghosts q i = (if 0 < i then [OutMsg (Some (int i - 1)) (q_tid q) receive_ghost_id Nothing] else []) @
     (if Suc i < q_n q then [OutMsg (Some (int i + 1)) (q_tid q) receive_ghost_id Nothing] else [])"

definition max_error_redn :: "rx_par \<Rightarrow> rx_data out" where
  "max_error_redn q = OutRedn (q_tid q) (Double (q_tol q * 2)) max_double (RednAll receive_max_error_id)"

definition grid_redn :: "rx_par \<Rightarrow> nat \<Rightarrow> rx_data out" where
  "grid_redn q i = OutRedn (q_tid q) (Index (int i)) set_reducer (RednElt 0 receive_grid_id)"

definition computed :: "rx_par \<Rightarrow> nat \<Rightarrow> nat \<Rightarrow> rx_data out list" where
  "computed q i a = [OutCall (CkPrintf [int i, q_it0 q + int a]), max_error_redn q]"

text \<open>All that a task gave to Charm++ until the end of iteration \<open>a\<close>.\<close>

fun base :: "rx_par \<Rightarrow> nat \<Rightarrow> nat \<Rightarrow> rx_data out list" where
  "base q i 0 = [OutCall (CkPrintf [int i, int (q_n q), int (nbrs q i)])]"
| "base q i (Suc a) = base q i a @ ghosts q i @ computed q i (Suc a)"

definition outs :: "rx_par \<Rightarrow> nat \<Rightarrow> rx_phase \<Rightarrow> rx_data out list" where
  "outs q i ph = (case ph of
     Absent \<Rightarrow> []
   | Ghosts a g \<Rightarrow> base q i (a - 1) @ ghosts q i
   | Errs a \<Rightarrow> base q i a
   | Grid \<Rightarrow> base q i (rounds q) @ [grid_redn q i]
   | Gone \<Rightarrow> base q i (rounds q) @ [grid_redn q i] @ (if i = 0 then [OutCall CkExit] else []))"

definition phase_ok :: "rx_par \<Rightarrow> nat \<Rightarrow> rx_phase \<Rightarrow> bool" where
  "phase_ok q i ph = (case ph of
     Ghosts a g \<Rightarrow> 0 < a \<and> a \<le> rounds q \<and> g < nbrs q i
   | Errs a \<Rightarrow> 0 < a \<and> a \<le> rounds q
   | Grid \<Rightarrow> i = 0
   | _ \<Rightarrow> True)"

definition self_at :: "rx_par \<Rightarrow> nat \<Rightarrow> bool \<Rightarrow> nat \<Rightarrow> nat \<Rightarrow> relaxation_task" where
  "self_at q i cv g a = \<lparr>rx_converged = cv, rx_hasLeft = 0 < i, rx_hasRight = Suc i < q_n q,
     rx_tolerance = q_tol q, rx_nRecvd = int g, rx_nNeighbors = int (nbrs q i), rx_nWorkers = int (q_n q),
     rx_it = q_it0 q + int a, rx_maxIters = q_iters q\<rparr>"

definition waiting :: "u16 \<Rightarrow> relaxation_task \<Rightarrow> relaxation_task task" where
  "waiting c u = \<lparr>tb_active = True, tb_kind = 0, tb_cont = Some c, tb_user = u\<rparr>"

definition task_ok :: "rx_par \<Rightarrow> nat \<Rightarrow> rx_phase \<Rightarrow> relaxation_task task option \<Rightarrow> bool" where
  "task_ok q i ph t = (case ph of
     Ghosts a g \<Rightarrow> t = Some (waiting receive_ghost_id (self_at q i False g a))
   | Errs a \<Rightarrow> t = Some (waiting receive_max_error_id (self_at q i False (nbrs q i) a))
   | Grid \<Rightarrow> \<exists>u. rx_nWorkers u = int (q_n q) \<and> t = Some (waiting receive_grid_id u)
   | _ \<Rightarrow> t = None)"

text \<open>The type that each continuation reads its data at.\<close>

definition reads_at :: "u16 \<Rightarrow> rx_data \<Rightarrow> bool" where
  "reads_at c d \<longleftrightarrow> c = receive_ghost_id \<and> d = Nothing \<or> c = receive_max_error_id \<and> (\<exists>x. d = Double x) \<or>
     c = receive_grid_id \<and> (\<exists>xs. d = Indices xs)"

definition ghost_payload :: "rx_par \<Rightarrow> rx_data payload" where
  "ghost_payload q = \<lparr>pl_src = 0, pl_ref = receive_ghost_id, pl_len = 0, pl_data = 24, pl_at = [24 \<mapsto> Nothing]\<rparr>"

definition elem_ok ::
  "rx_par \<Rightarrow> nat \<Rightarrow> rx_phase \<Rightarrow> nat \<Rightarrow> (relaxation_task, rx_data) workgroup \<Rightarrow> bool" where
  "elem_ok q i ph b st \<longleftrightarrow> task_ok q i ph (wg_tasks st (q_tid q)) \<and>
     bucket st (q_tid q) = (\<lambda>c. if c = receive_ghost_id then replicate b (ghost_payload q) else []) \<and>
     wg_out st = outs q i ph \<and> (\<forall>(tid, c, p) \<in> set (wg_log st). reads_at c (pl_args p))"

lemmas id_defs = receive_ghost_id_def receive_max_error_id_def receive_grid_id_def

lemma ids_differ [simp]:
  "receive_ghost_id \<noteq> receive_max_error_id" "receive_max_error_id \<noteq> receive_ghost_id"
  "receive_ghost_id \<noteq> receive_grid_id" "receive_grid_id \<noteq> receive_ghost_id"
  "receive_max_error_id \<noteq> receive_grid_id" "receive_grid_id \<noteq> receive_max_error_id"
  by (simp_all add: id_defs)

lemma registry_eq: "relaxation_registry idx it0 = \<lparr>records = [relaxation_create idx it0],
    continuations = [receive_ghost idx, receive_max_error idx, receive_grid]\<rparr>"
  by (simp add: relaxation_registry_def register_task_def register_continuation_def Let_def)

text \<open>The identifiers are the registered ones.\<close>

lemma registered [simp]:
  "get_continuation (relaxation_registry idx it0) receive_ghost_id = Inr (receive_ghost idx)"
  "get_continuation (relaxation_registry idx it0) receive_max_error_id = Inr (receive_max_error idx)"
  "get_continuation (relaxation_registry idx it0) receive_grid_id = Inr receive_grid"
  "get_task_creator (relaxation_registry idx it0) 0 = Inr (relaxation_create idx it0)"
  by (simp_all add: registry_eq get_continuation_def get_task_creator_def at_def id_defs)

text \<open>A task of this program migrates: its \<open>pup\<close> keeps every member, and its code does not look at addresses.\<close>

lemma relaxation_migrates:
  assumes "settled st" and "\<forall>tid t. wg_tasks st tid = Some t \<longrightarrow> tb_kind t = 0"
  shows "rel_sum (=) similar
    (wg_run rx_as_tid (relaxation_registry idx z) es (wg_unpup [rx_unpup] place (wg_index st) junk (wg_pup rx_pup st)))
    (wg_run rx_as_tid (relaxation_registry idx z) es (st\<lparr>wg_out := [], wg_log := []\<rparr>))"
proof (rule wg_run_similar [OF _ similar_migrated [OF assms(1)]])
  show "address_free (relaxation_registry idx z)"
    by (auto simp: address_free_def registry_eq strip_eq pl_args_def receive_ghost_def receive_max_error_def receive_grid_def)
  show "\<forall>tid t. wg_tasks st tid = Some t \<longrightarrow> unat (tb_kind t) < length [rx_unpup] \<and>
      ([rx_unpup] ! unat (tb_kind t)) (rx_pup (tb_user t)) = tb_user t"
    using assms(2) by (simp add: rx_unpup_def rx_pup_def)
qed

section \<open>The task's code\<close>

lemma rounds_step:
  assumes "a \<le> rounds q"
  shows "(\<not> (0 < a \<and> q_tol q \<le> 0) \<and> q_it0 q + int a < q_iters q) \<longleftrightarrow> a < rounds q"
  using assms by (auto simp: rounds_def)

lemma run_actions_append: "run_actions tid (as @ bs) to = run_actions tid bs (run_actions tid as to)"
  by (simp add: run_actions_def)

lemmas run_simps = run_actions_append run_actions_Cons suspend_def terminate_def task_send_def task_reduce_def

lemma run_ghosts: "run_actions (q_tid q) (send_ghosts (int i) (self_at q i cv g a)) (t, os) = (t, os @ ghosts q i)"
  by (simp add: send_ghosts_def self_at_def ghosts_def run_simps)

lemma run_check: "run_actions (q_tid q) (check_and_compute (int i) (self_at q i cv g a)) (t, os)
    = (t\<lparr>tb_cont := Some receive_max_error_id\<rparr>, os @ computed q i a)"
  by (simp add: check_and_compute_def self_at_def computed_def max_error_redn_def Let_def run_simps)

text \<open>What \<open>converge_loop\<close> gives to Charm++ when \<open>a\<close> iterations were made.\<close>

definition begin_outs :: "rx_par \<Rightarrow> nat \<Rightarrow> nat \<Rightarrow> rx_data out list" where
  "begin_outs q i a = (if a < rounds q then ghosts q i @ (if nbrs q i = 0 then computed q i (Suc a) else [])
     else [grid_redn q i])"

lemma outs_begin: "outs q i (begin_round q i a) = base q i (min a (rounds q)) @ begin_outs q i a"
  by (auto simp: outs_def begin_round_def begin_outs_def min_def)

lemma phase_ok_begin: "phase_ok q i (begin_round q i a)"
  by (auto simp: phase_ok_def begin_round_def)

lemma converge_next:
  assumes "\<not> cv" and "q_it0 q + int a < q_iters q"
  shows "converge_loop (int i) (self_at q i cv g a) = (self_at q i False 0 (Suc a),
    send_ghosts (int i) (self_at q i False 0 (Suc a)) @ (if nbrs q i = 0
      then check_and_compute (int i) (self_at q i False 0 (Suc a)) else [Suspend receive_ghost_id]))"
proof -
  have s: "(self_at q i cv g a)\<lparr>rx_it := rx_it (self_at q i cv g a) + 1, rx_nRecvd := 0\<rparr>
      = self_at q i False 0 (Suc a)"
    using assms(1) by (simp add: self_at_def)
  have "\<not> rx_converged (self_at q i cv g a)" "rx_it (self_at q i cv g a) < rx_maxIters (self_at q i cv g a)"
    "rx_nNeighbors (self_at q i cv g a) = int (nbrs q i)"
    using assms by (simp_all add: self_at_def)
  then show ?thesis by (simp add: converge_loop_def Let_def s)
qed

lemma run_converge:
  assumes a: "a \<le> rounds q" and t: "tb_active t" "tb_kind t = 0"
    and cv: "cv \<longleftrightarrow> 0 < a \<and> q_tol q \<le> 0"
    and r: "converge_loop (int i) (self_at q i cv g a) = (u, as)"
      "run_actions (q_tid q) as (t\<lparr>tb_user := u\<rparr>, os) = (t', os')"
  shows "task_ok q i (begin_round q i a) (if tb_active t' then Some t' else None) \<and> os' = os @ begin_outs q i a"
proof (cases "a < rounds q")
  case True
  then have "\<not> cv" "q_it0 q + int a < q_iters q" using rounds_step [OF a] cv by simp_all
  from trans [OF r(1) [symmetric] converge_next [OF this]]
  have u: "u = self_at q i False 0 (Suc a)" and as: "as = send_ghosts (int i) (self_at q i False 0 (Suc a)) @
      (if nbrs q i = 0 then check_and_compute (int i) (self_at q i False 0 (Suc a)) else [Suspend receive_ghost_id])"
    by (simp_all only: prod.inject)
  show ?thesis
  proof (cases "nbrs q i = 0")
    case nb: True
    then have "t' = t\<lparr>tb_user := u, tb_cont := Some receive_max_error_id\<rparr>" "os' = os @ begin_outs q i a"
      using r(2) as True by (simp_all add: run_actions_append run_ghosts run_check begin_outs_def)
    then show ?thesis using True nb t u by (simp add: begin_round_def task_ok_def waiting_def)
  next
    case nb: False
    then have "t' = t\<lparr>tb_user := u, tb_cont := Some receive_ghost_id\<rparr>" "os' = os @ begin_outs q i a"
      using r(2) as True by (simp_all add: run_actions_append run_ghosts run_actions_Cons suspend_def begin_outs_def)
    then show ?thesis using True nb t u by (simp add: begin_round_def task_ok_def waiting_def)
  qed
next
  case False
  then have "\<not> (\<not> cv \<and> q_it0 q + int a < q_iters q)" using rounds_step [OF a] cv by simp
  then have "rx_nWorkers u = int (q_n q)" "as = on_converge (int i)"
    using r(1) by (auto simp: converge_loop_def self_at_def Let_def split: if_splits)
  moreover from this have "t' = (if i = 0 then t\<lparr>tb_user := u, tb_cont := Some receive_grid_id\<rparr>
      else t\<lparr>tb_user := u, tb_active := False\<rparr>)" "os' = os @ [grid_redn q i]"
    using r(2) by (auto simp: on_converge_def grid_redn_def run_simps Let_def split: if_splits)
  ultimately show ?thesis
    using False t by (cases t) (auto simp: begin_round_def begin_outs_def task_ok_def waiting_def)
qed

section \<open>Ghosts\<close>

lemma outs_computed: "0 < a \<Longrightarrow> outs q i (Errs a) = outs q i (Ghosts a g) @ computed q i a"
  by (cases a) (simp_all add: outs_def)

lemma resume_ghost:
  assumes e: "elem_ok q i (Ghosts a g) b st" and a: "0 < a" "g < nbrs q i"
  shows "\<exists>st'. resume_core (relaxation_registry (int i) z) (q_tid q) (ghost_payload q) st = Inr ((True, True), st') \<and>
    elem_ok q i (fst (eat q i (Ghosts a g) 1)) b st'"
proof -
  let ?s = "self_at q i False g a" and ?s' = "self_at q i False (Suc g) a"
  have t: "wg_tasks st (q_tid q) = Some (waiting receive_ghost_id ?s)"
    using e by (simp add: elem_ok_def task_ok_def)
  have s': "?s\<lparr>rx_nRecvd := rx_nRecvd ?s + 1\<rparr> = ?s'" by (simp add: self_at_def)
  have n: "rx_nNeighbors ?s' = int (nbrs q i)" "rx_nRecvd ?s' = int (Suc g)" by (simp_all add: self_at_def)
  let ?ph = "fst (eat q i (Ghosts a g) 1)"
  obtain t' os where to: "invoke (receive_ghost (int i)) (q_tid q) (ghost_payload q) (waiting receive_ghost_id ?s) = (t', os)"
    by fastforce
  have r: "task_ok q i ?ph (Some t')" "tb_active t'" "outs q i ?ph = outs q i (Ghosts a g) @ os"
  proof (atomize (full), cases "nbrs q i \<le> Suc g")
    case True
    then have "nbrs q i = Suc g" using a(2) by simp
    moreover from this have "(t', os) = ((waiting receive_ghost_id ?s')\<lparr>tb_cont := Some receive_max_error_id\<rparr>, computed q i a)"
      using to n by (simp add: invoke_def receive_ghost_def Let_def waiting_def s' run_check)
    ultimately show "task_ok q i ?ph (Some t') \<and> tb_active t' \<and> outs q i ?ph = outs q i (Ghosts a g) @ os"
      using outs_computed [OF a(1), of q i g] by (simp add: eat_def task_ok_def waiting_def)
  next
    case False
    then have "(t', os) = (waiting receive_ghost_id ?s', [])"
      using to n by (simp add: invoke_def receive_ghost_def Let_def waiting_def s' run_simps)
    then show "task_ok q i ?ph (Some t') \<and> tb_active t' \<and> outs q i ?ph = outs q i (Ghosts a g) @ os"
      using False by (simp add: eat_def task_ok_def waiting_def outs_def)
  qed
  have "resume_core (relaxation_registry (int i) z) (q_tid q) (ghost_payload q) st
      = Inr ((True, True), keep_task (q_tid q) (ghost_payload q) (t', os) st)"
    using t to r(2) by (simp add: resume_core_def waiting_def ghost_payload_def)
  moreover have "elem_ok q i ?ph b (keep_task (q_tid q) (ghost_payload q) (t', os) st)"
    using e r by (simp add: elem_ok_def keep_task_tasks) (simp add: keep_task_def ghost_payload_def reads_at_def)
  ultimately show ?thesis by blast
qed

lemma set_bucket_out [simp]: "wg_out (set_bucket tid c ps st) = wg_out st"
  by (simp add: set_bucket_def)

lemma elem_ok_frame:
  assumes "elem_ok q i ph b st" and "wg_tasks st' = wg_tasks st" and "wg_out st' = wg_out st"
    and "wg_log st' = wg_log st"
    and "bucket st' (q_tid q) = (\<lambda>c. if c = receive_ghost_id then replicate b' (ghost_payload q) else [])"
  shows "elem_ok q i ph b' st'"
  using assms by (simp add: elem_ok_def)

lemma elem_ok_touch: "elem_ok q i ph b st \<Longrightarrow> elem_ok q i ph b (touch k st)"
  by (simp add: elem_ok_def)

lemma waits_for:
  assumes "elem_ok q i ph b st" and "ph \<noteq> Absent" and "ph \<noteq> Gone"
  obtains t c where "wg_tasks st (q_tid q) = Some t" "tb_cont t = Some c" "tb_active t"
    "(\<exists>a g. ph = Ghosts a g) \<longleftrightarrow> c = receive_ghost_id"
  using assms by (cases ph) (auto simp: elem_ok_def task_ok_def waiting_def)

lemma try_eats:
  assumes "elem_ok q i ph b st" and "phase_ok q i ph" and "ph \<noteq> Absent" and "ph \<noteq> Gone"
    and "wg_active st = q_tid q"
  shows "\<exists>st'. try_continue (relaxation_registry (int i) z) (q_tid q) st = Inr st' \<and>
    elem_ok q i (fst (eat q i ph b)) (snd (eat q i ph b)) st'"
  using assms
proof (induction b arbitrary: ph st)
  case 0
  obtain t c where t: "wg_tasks st (q_tid q) = Some t" "tb_cont t = Some c"
    using waits_for [OF 0(1,3,4)] by metis
  have "bucket st (q_tid q) c = []" using 0(1) by (simp add: elem_ok_def)
  then have "try_continue (relaxation_registry (int i) z) (q_tid q) st = Inr (touch (q_tid q) st)"
    by (rule try_continue_empty [OF t 0(5)])
  moreover have "eat q i ph 0 = (ph, 0)"
    using 0(2) by (simp add: eat_def phase_ok_def split: rx_phase.splits)
  ultimately show ?case using elem_ok_touch [OF 0(1)] by simp
next
  case (Suc b)
  obtain t c where t: "wg_tasks st (q_tid q) = Some t" "tb_cont t = Some c"
    and c: "(\<exists>a g. ph = Ghosts a g) \<longleftrightarrow> c = receive_ghost_id"
    using waits_for [OF Suc.prems(1,3,4)] by metis
  show ?case
  proof (cases "c = receive_ghost_id")
    case False
    then have "bucket st (q_tid q) c = []" using Suc.prems(1) by (simp add: elem_ok_def)
    then have "try_continue (relaxation_registry (int i) z) (q_tid q) st = Inr (touch (q_tid q) st)"
      by (rule try_continue_empty [OF t Suc.prems(5)])
    moreover have "eat q i ph (Suc b) = (ph, Suc b)"
      using False c by (simp add: eat_def split: rx_phase.splits)
    ultimately show ?thesis using elem_ok_touch [OF Suc.prems(1)] by simp
  next
    case True
    then obtain a g where ph: "ph = Ghosts a g" using c by blast
    have ag: "0 < a" "a \<le> rounds q" "g < nbrs q i" using Suc.prems(2) ph by (simp_all add: phase_ok_def)
    have bk: "bucket st (q_tid q) c = ghost_payload q # replicate b (ghost_payload q)"
      using Suc.prems(1) True by (simp add: elem_ok_def)
    let ?ph = "fst (eat q i (Ghosts a g) 1)"
    obtain st2 where r: "resume_core (relaxation_registry (int i) z) (q_tid q) (ghost_payload q) (touch (q_tid q) st)
        = Inr ((True, True), st2)" and e2: "elem_ok q i ?ph (Suc b) st2"
      using resume_ghost [OF elem_ok_touch [OF Suc.prems(1) [unfolded ph]] ag(1,3)] by blast
    let ?st3 = "set_bucket (q_tid q) c (replicate b (ghost_payload q)) st2"
    have e3: "elem_ok q i ?ph b ?st3"
      by (rule elem_ok_frame [OF e2]) (use e2 True in \<open>auto simp: bucket_set elem_ok_def fun_eq_iff\<close>)
    have "phase_ok q i ?ph" "?ph \<noteq> Absent" "?ph \<noteq> Gone" using ag by (auto simp: eat_def phase_ok_def)
    moreover have "wg_active ?st3 = q_tid q" using resume_core_active [OF r] by simp
    ultimately have "\<exists>st'. try_continue (relaxation_registry (int i) z) (q_tid q) ?st3 = Inr st' \<and>
        elem_ok q i (fst (eat q i ?ph b)) (snd (eat q i ?ph b)) st'"
      by (rule Suc.IH [OF e3])
    moreover have "eat q i ?ph b = eat q i ph (Suc b)" using ag ph by (auto simp: eat_def)
    ultimately show ?thesis
      using try_continue_next [OF t Suc.prems(5) bk, of "relaxation_registry (int i) z"] r by simp
  qed
qed

section \<open>What each message does\<close>

lemma ghost_arrives:
  assumes e: "elem_ok q i ph b st" and ph: "phase_ok q i ph" "\<And>a g. ph = Ghosts a g \<Longrightarrow> b = 0"
  shows "\<exists>st'. wg_step rx_as_tid (relaxation_registry (int i) z) (resume_msg (q_tid q) receive_ghost_id Nothing) st = Inr st' \<and>
    elem_ok q i (fst (eat q i ph (Suc b))) (snd (eat q i ph (Suc b))) st'"
proof -
  let ?R = "relaxation_registry (int i) z"
  have step: "wg_step rx_as_tid ?R (resume_msg (q_tid q) receive_ghost_id Nothing) st
      = deliver ?R (q_tid q) (ghost_payload q) st"
    by (simp add: resume_msg_def resume_message_def payload_of_def tm_alloc_def sizeof_task_message_def
        ghost_payload_def Let_def)
  show ?thesis
  proof (cases "\<exists>a g. ph = Ghosts a g")
    case True
    then obtain a g where g: "ph = Ghosts a g" "b = 0" using ph(2) by blast
    have ag: "0 < a" "a \<le> rounds q" "g < nbrs q i" using ph(1) g by (simp_all add: phase_ok_def)
    let ?ph = "fst (eat q i (Ghosts a g) 1)"
    obtain st1 where r: "resume_core ?R (q_tid q) (ghost_payload q) st = Inr ((True, True), st1)"
      and e1: "elem_ok q i ?ph b st1"
      using resume_ghost [OF e [unfolded g(1)] ag(1,3)] by blast
    have "phase_ok q i ?ph" "?ph \<noteq> Absent" "?ph \<noteq> Gone" using ag by (auto simp: eat_def phase_ok_def)
    from try_eats [OF e1 this resume_core_active [OF r], of z] obtain st' where
      "try_continue ?R (q_tid q) st1 = Inr st'" "elem_ok q i (fst (eat q i ?ph b)) (snd (eat q i ?ph b)) st'"
      by blast
    moreover have "eat q i ?ph b = eat q i ph (Suc b)" using g ag by (auto simp: eat_def)
    ultimately show ?thesis using r step by (simp add: deliver_def resume_payload_def)
  next
    case False
    then have "eat q i ph (Suc b) = (ph, Suc b)" by (simp add: eat_def split: rx_phase.splits)
    moreover have "resume_core ?R (q_tid q) (ghost_payload q) st = Inr ((False, False), st)"
    proof (cases "ph = Absent \<or> ph = Gone")
      case True
      then have "wg_tasks st (q_tid q) = None" using e by (auto simp: elem_ok_def task_ok_def)
      then show ?thesis by (simp add: resume_core_def)
    next
      case live: False
      obtain t c where "wg_tasks st (q_tid q) = Some t" "tb_cont t = Some c" "c \<noteq> receive_ghost_id"
        using waits_for [OF e] live False by metis
      then show ?thesis by (simp add: resume_core_def ghost_payload_def)
    qed
    moreover have "elem_ok q i ph (Suc b) (buffer_payload (q_tid q) (ghost_payload q) st)"
      by (rule elem_ok_frame [OF e]) (use e in \<open>auto simp: buffer_payload_def bucket_set elem_ok_def
        fun_eq_iff ghost_payload_def replicate_append_same\<close>)
    ultimately show ?thesis using step by (simp add: deliver_def resume_payload_def)
  qed
qed

text \<open>The last part of a step that lets the task begin a round: buffered ghosts are taken if the task lives.\<close>

lemma begin_eats:
  assumes e: "elem_ok q i (begin_round q i a) b st" and act: "wg_active st = q_tid q"
  shows "if wg_tasks st (q_tid q) = None then snd (eat q i (begin_round q i a) b) = b \<and>
      fst (eat q i (begin_round q i a) b) = begin_round q i a
    else \<exists>st'. try_continue (relaxation_registry (int i) z) (q_tid q) st = Inr st' \<and>
      elem_ok q i (fst (eat q i (begin_round q i a) b)) (snd (eat q i (begin_round q i a) b)) st'"
proof (cases "begin_round q i a = Gone")
  case True
  then have "wg_tasks st (q_tid q) = None" using e by (simp add: elem_ok_def task_ok_def)
  then show ?thesis using True by (simp add: eat_def)
next
  case False
  have n: "begin_round q i a \<noteq> Absent" by (simp add: begin_round_def)
  have "wg_tasks st (q_tid q) \<noteq> None" by (rule waits_for [OF e n False]) simp
  then show ?thesis using try_eats [OF e phase_ok_begin n False act] by (simp only: if_False)
qed

lemma create_arrives:
  assumes e: "elem_ok q i Absent b st"
  defines "msg \<equiv> create_msg (q_n q) (q_iters q) (q_tol q) (q_tid q)"
    and "ph \<equiv> eat q i (begin_round q i 0) b"
  shows "\<exists>st'. wg_step rx_as_tid (relaxation_registry (int i) (q_it0 q)) (ECreate msg) st = Inr st' \<and>
    elem_ok q i (fst ph) (snd ph) st'"
proof -
  let ?R = "relaxation_registry (int i) (q_it0 q)" and ?s = "self_at q i False 0 0"
  have msg: "tm_kind msg = 0" "tm_tid msg = q_tid q" "pl_args (payload_of msg) = Args (int (q_n q)) (q_iters q) (q_tol q)"
    by (simp_all add: msg_def create_msg_def tm_alloc_def payload_of_def Let_def)
  obtain u as where u: "converge_loop (int i) ?s = (u, as)" by fastforce
  have s: "\<lparr>rx_converged = False, rx_hasLeft = int i > 0, rx_hasRight = int i + 1 < int (q_n q),
      rx_tolerance = q_tol q, rx_nRecvd = 0, rx_nNeighbors = int (nbrs q i),
      rx_nWorkers = int (q_n q), rx_it = q_it0 q, rx_maxIters = q_iters q\<rparr> = ?s"
    by (auto simp: self_at_def)
  have nb: "of_bool (int i > 0) + of_bool (int i + 1 < int (q_n q)) = int (nbrs q i)"
    by (simp add: nbrs_def)
  have f: "relaxation_create (int i) (q_it0 q) (payload_of msg)
      = (u, Runtime (CkPrintf [int i, int (q_n q), int (nbrs q i)]) # as)"
    by (simp only: relaxation_create_def msg rx_data.case Let_def nb s u prod.case)
  obtain t os where t: "run_actions (q_tid q) as ((new_task 0 u)\<lparr>tb_user := u\<rparr>, base q i 0) = (t, os)"
    by fastforce
  have rc: "task_ok q i (begin_round q i 0) (if tb_active t then Some t else None)"
    "os = base q i 0 @ begin_outs q i 0"
    using run_converge [OF _ _ _ _ u t] by (simp_all add: new_task_def)
  have t': "run_actions (q_tid q) (Runtime (CkPrintf [int i, int (q_n q), int (nbrs q i)]) # as) (new_task 0 u, []) = (t, os)"
    using t by (simp add: run_actions_Cons new_task_def)
  have none: "wg_tasks st (q_tid q) = None" and out: "wg_out st = []"
    using e by (simp_all add: elem_ok_def task_ok_def outs_def)
  define st1 where "st1 = st\<lparr>wg_active := q_tid q, wg_out := os,
    wg_tasks := (wg_tasks st)(q_tid q := (if tb_active t then Some t else None))\<rparr>"
  have b1: "bucket st1 = bucket st" by (simp add: st1_def bucket_def fun_eq_iff)
  have "os = outs q i (begin_round q i 0)" using rc(2) outs_begin [of q i 0] by simp
  then have e1: "elem_ok q i (begin_round q i 0) b st1"
    using e rc(1) b1 by (simp add: elem_ok_def st1_def)
  have act: "wg_active st1 = q_tid q" by (simp add: st1_def)
  have step: "create ?R msg st = (if tb_active t then try_continue ?R (q_tid q) st1 else Inr st1)"
    using none out t' by (simp add: create_def msg f st1_def Let_def fun_upd_idem)
  show ?thesis
  proof (cases "tb_active t")
    case True
    then show ?thesis using begin_eats [OF e1 act, of "q_it0 q"] step by (simp add: st1_def ph_def)
  next
    case False
    then have "wg_tasks st1 (q_tid q) = None" by (simp add: st1_def)
    then show ?thesis using begin_eats [OF e1 act] step e1 False by (simp add: ph_def)
  qed
qed

text \<open>A payload that the task waits for.\<close>

lemma payload_arrives:
  assumes "wg_tasks st tid = Some t" and "tb_cont t = Some (pl_ref p)"
    and "get_continuation R (pl_ref p) = Inr f" and "invoke f tid p t = (t', os)"
  shows "deliver R tid p st = (if tb_active t' then try_continue R tid (keep_task tid p (t', os) st)
    else Inr (keep_task tid p (t', os) st))"
  using assms by (cases "try_continue R tid (keep_task tid p (t', os) st)")
    (simp_all add: deliver_def resume_payload_def resume_core_def)

lemma error_arrives:
  assumes e: "elem_ok q i (Errs a) b st" and a: "0 < a" "a \<le> rounds q"
    and p: "pl_ref p = receive_max_error_id" "pl_args p = Double (q_tol q * 2)"
  defines "ph \<equiv> eat q i (begin_round q i a) b"
  shows "\<exists>st'. deliver (relaxation_registry (int i) z) (q_tid q) p st = Inr st' \<and> elem_ok q i (fst ph) (snd ph) st'"
proof -
  let ?R = "relaxation_registry (int i) z" and ?s = "self_at q i False (nbrs q i) a"
  let ?t = "waiting receive_max_error_id ?s"
  have t: "wg_tasks st (q_tid q) = Some ?t" using e by (simp add: elem_ok_def task_ok_def)
  define cv where "cv \<longleftrightarrow> q_tol q \<le> 0"
  have s: "?s\<lparr>rx_converged := q_tol q * 2 \<le> rx_tolerance ?s\<rparr> = self_at q i cv (nbrs q i) a"
    by (auto simp: self_at_def cv_def)
  obtain u as where u: "converge_loop (int i) (self_at q i cv (nbrs q i) a) = (u, as)" by fastforce
  obtain t' os where t': "run_actions (q_tid q) as (?t\<lparr>tb_user := u\<rparr>, []) = (t', os)" by fastforce
  have inv: "invoke (receive_max_error (int i)) (q_tid q) p ?t = (t', os)"
    using u t' s by (simp add: invoke_def receive_max_error_def p waiting_def)
  have rc: "task_ok q i (begin_round q i a) (if tb_active t' then Some t' else None)" "os = begin_outs q i a"
    using run_converge [OF a(2) _ _ _ u t'] a(1) by (simp_all add: waiting_def cv_def)
  let ?st1 = "keep_task (q_tid q) p (t', os) st"
  have "wg_out ?st1 = outs q i (begin_round q i a)"
    using e rc(2) outs_begin [of q i a] a(2) by (simp add: elem_ok_def keep_task_def outs_def)
  moreover have nt: "wg_tasks ?st1 (q_tid q) = (if tb_active t' then Some t' else None)"
    by (simp add: keep_task_tasks)
  ultimately have e1: "elem_ok q i (begin_round q i a) b ?st1"
    using e rc(1) p unfolding elem_ok_def nt by (simp add: reads_at_def)
  have step: "deliver ?R (q_tid q) p st = (if tb_active t' then try_continue ?R (q_tid q) ?st1 else Inr ?st1)"
    using payload_arrives [OF t _ _ inv] p by (simp add: waiting_def)
  have act: "wg_active ?st1 = q_tid q" by simp
  show ?thesis using begin_eats [OF e1 act, of z] step e1 nt by (auto simp: ph_def split: if_splits)
qed

lemma grid_arrives:
  assumes e: "elem_ok q 0 Grid b st"
    and p: "pl_ref p = receive_grid_id" "pl_args p = Indices ys" "card (set ys) = q_n q"
  shows "\<exists>st'. deliver (relaxation_registry 0 z) (q_tid q) p st = Inr st' \<and> elem_ok q 0 Gone b st'"
proof -
  obtain u where t: "wg_tasks st (q_tid q) = Some (waiting receive_grid_id u)" "rx_nWorkers u = int (q_n q)"
    using e by (auto simp: elem_ok_def task_ok_def)
  let ?t' = "(waiting receive_grid_id u)\<lparr>tb_active := False\<rparr>"
  have inv: "invoke receive_grid (q_tid q) p (waiting receive_grid_id u) = (?t', [OutCall CkExit])"
    using t(2) p by (simp add: invoke_def receive_grid_def waiting_def run_simps)
  let ?st1 = "keep_task (q_tid q) p (?t', [OutCall CkExit]) st"
  have "deliver (relaxation_registry 0 z) (q_tid q) p st = Inr ?st1"
    using payload_arrives [OF t(1) _ _ inv] p by (simp add: waiting_def)
  moreover have "wg_out ?st1 = outs q 0 Gone" using e by (simp add: elem_ok_def keep_task_def outs_def)
  then have "elem_ok q 0 Gone b ?st1"
    using e p by (simp add: elem_ok_def keep_task_tasks task_ok_def reads_at_def waiting_def)
  ultimately show ?thesis by blast
qed

end
