(* ===== verification/Relaxation_Inv.thy ===== *)
theory Relaxation_Inv
  imports Relaxation_Elem
begin

text \<open>
  The whole relaxation program: what is on its way to every element, as a function of the phases of
  all, and that every step keeps it so.
\<close>

section \<open>Counting\<close>

definition sent :: "rx_par \<Rightarrow> rx_phase \<Rightarrow> nat" where
  "sent q ph = (case ph of Absent \<Rightarrow> 0 | Ghosts a g \<Rightarrow> a | Errs a \<Rightarrow> a | _ \<Rightarrow> rounds q)"

definition used :: "rx_par \<Rightarrow> nat \<Rightarrow> rx_phase \<Rightarrow> nat" where
  "used q i ph = (case ph of Absent \<Rightarrow> 0 | Ghosts a g \<Rightarrow> (a - 1) * nbrs q i + g | Errs a \<Rightarrow> a * nbrs q i
     | _ \<Rightarrow> rounds q * nbrs q i)"

definition given :: "rx_par \<Rightarrow> rx_phase \<Rightarrow> nat" where
  "given q ph = (case ph of Absent \<Rightarrow> 0 | Ghosts a g \<Rightarrow> a - 1 | Errs a \<Rightarrow> a | _ \<Rightarrow> Suc (rounds q))"

definition heard :: "rx_par \<Rightarrow> rx_phase \<Rightarrow> nat" where
  "heard q ph = (case ph of Absent \<Rightarrow> 0 | Ghosts a g \<Rightarrow> a - 1 | Errs a \<Rightarrow> a - 1 | _ \<Rightarrow> rounds q)"

definition taken_by :: "rx_par \<Rightarrow> nat \<Rightarrow> rx_phase \<Rightarrow> nat \<Rightarrow> nat" where
  "taken_by q i ph b = of_bool (ph \<noteq> Absent) + (b + used q i ph) + heard q ph + of_bool (i = 0 \<and> ph = Gone)"

definition adjacent :: "nat \<Rightarrow> nat \<Rightarrow> bool" where
  "adjacent i j \<longleftrightarrow> i = Suc j \<or> j = Suc i"

lemmas counts = sent_def used_def given_def heard_def

lemma nbrs_sum:
  assumes "j < q_n q"
  shows "(\<Sum>i<q_n q. of_bool (adjacent i j)) = nbrs q j"
proof -
  have "(\<Sum>i<q_n q. of_bool (adjacent i j)) = card {i \<in> {..<q_n q}. adjacent i j}"
    by (simp add: Int_def)
  also have "{i \<in> {..<q_n q}. adjacent i j} = (if 0 < j then {j - 1} else {}) \<union> (if Suc j < q_n q then {Suc j} else {})"
    using assms by (auto simp: adjacent_def)
  also have "card \<dots> = nbrs q j" by (simp add: nbrs_def)
  finally show ?thesis .
qed

text \<open>The phase after a message, with what is left buffered.\<close>

definition moves :: "rx_par \<Rightarrow> nat \<Rightarrow> rx_phase \<Rightarrow> rx_phase \<Rightarrow> bool" where
  "moves q i ph ph' \<longleftrightarrow> phase_ok q i ph' \<and> sent q ph \<le> sent q ph' \<and> given q ph \<le> given q ph' \<and>
     (\<exists>os. outs q i ph' = outs q i ph @ os)"

lemma moves_refl: "phase_ok q i ph \<Longrightarrow> moves q i ph ph"
  by (simp add: moves_def)

lemma moves_trans: "moves q i ph ph1 \<Longrightarrow> moves q i ph1 ph2 \<Longrightarrow> moves q i ph ph2"
  unfolding moves_def by fastforce

lemma eat_facts:
  assumes "phase_ok q i ph" and "eat q i ph b = (ph', b')"
  shows "moves q i ph ph'" "sent q ph' = sent q ph" "b' + used q i ph' = b + used q i ph" "heard q ph' = heard q ph"
    "ph' = Ghosts a g \<Longrightarrow> b' = 0" "ph' = Absent \<longleftrightarrow> ph = Absent" "ph' = Gone \<longleftrightarrow> ph = Gone"
proof -
  have "moves q i ph ph' \<and> sent q ph' = sent q ph \<and> b' + used q i ph' = b + used q i ph \<and> heard q ph' = heard q ph \<and>
    (ph' = Ghosts a g \<longrightarrow> b' = 0) \<and> (ph' = Absent \<longleftrightarrow> ph = Absent) \<and> (ph' = Gone \<longleftrightarrow> ph = Gone)"
  proof (cases "\<exists>a g. ph = Ghosts a g")
    case False
    then have "ph' = ph" "b' = b" using assms(2) by (auto simp: eat_def split: rx_phase.splits)
    then show ?thesis using False moves_refl [OF assms(1)] by auto
  next
    case True
    then obtain a g where ph: "ph = Ghosts a g" by blast
    have a: "0 < a" "a \<le> rounds q" "g < nbrs q i" using assms(1) ph by (simp_all add: phase_ok_def)
    show ?thesis
    proof (cases "nbrs q i \<le> g + b")
      case True
      then have p: "ph' = Errs a" "b' = g + b - nbrs q i" using assms(2) ph by (auto simp: eat_def)
      have "a * nbrs q i = (a - 1) * nbrs q i + nbrs q i" using a(1) by (cases a) simp_all
      then show ?thesis
        using p ph a True outs_computed [OF a(1), of q i g] by (simp add: moves_def counts phase_ok_def)
    next
      case False
      then have p: "ph' = Ghosts a (g + b)" "b' = 0" using assms(2) ph by (auto simp: eat_def)
      then show ?thesis using ph a False by (simp add: moves_def counts phase_ok_def outs_def)
    qed
  qed
  then show "moves q i ph ph'" "sent q ph' = sent q ph" "b' + used q i ph' = b + used q i ph" "heard q ph' = heard q ph"
    "ph' = Ghosts a g \<Longrightarrow> b' = 0" "ph' = Absent \<longleftrightarrow> ph = Absent" "ph' = Gone \<longleftrightarrow> ph = Gone" by blast+
qed

lemma begin_counts:
  assumes "a \<le> rounds q"
  shows "used q i (begin_round q i a) = a * nbrs q i" "heard q (begin_round q i a) = a"
    "a \<le> sent q (begin_round q i a)" "a \<le> given q (begin_round q i a)" "begin_round q i a \<noteq> Absent"
  using assms by (auto simp: begin_round_def counts)

lemma begin_moves:
  assumes "a \<le> rounds q" and "ph = (if a = 0 then Absent else Errs a)"
  shows "moves q i ph (begin_round q i a)"
proof -
  have "base q i (min a (rounds q)) = outs q i ph @ (if a = 0 then base q i 0 else [])"
    using assms by (cases a) (simp_all add: outs_def)
  then have "outs q i (begin_round q i a) = outs q i ph @ (if a = 0 then base q i 0 else []) @ begin_outs q i a"
    by (simp only: outs_begin append_assoc)
  then show ?thesis
    using assms phase_ok_begin begin_counts [OF assms(1)] by (auto simp: moves_def counts)
qed

text \<open>A round begins, and the buffered ghosts are taken.\<close>

lemma begin_eat_facts:
  assumes a: "a \<le> rounds q" and ph: "ph = (if a = 0 then Absent else Errs a)"
    and e: "eat q i (begin_round q i a) b = (ph', b')"
  shows "moves q i ph ph'" "b' + used q i ph' = b + a * nbrs q i" "heard q ph' = a" "ph' = Ghosts c g \<Longrightarrow> b' = 0"
    "ph' \<noteq> Absent" "i = 0 \<Longrightarrow> ph' \<noteq> Gone"
proof -
  note E = eat_facts [OF phase_ok_begin e]
  show "moves q i ph ph'" using moves_trans [OF begin_moves [OF a ph] E(1)] .
  show "b' + used q i ph' = b + a * nbrs q i" "heard q ph' = a" "ph' = Ghosts c g \<Longrightarrow> b' = 0" "ph' \<noteq> Absent"
    using E begin_counts [OF a] by simp_all
  show "i = 0 \<Longrightarrow> ph' \<noteq> Gone" using E(7) by (simp add: begin_round_def)
qed

section \<open>What a task sent\<close>

lemma msgs_to_append [simp]: "msgs_to j (os @ os') = msgs_to j os @ msgs_to j os'"
  by (induction j os rule: msgs_to.induct) simp_all

lemma redns_append [simp]: "redns (os @ os') = redns os @ redns os'"
  by (induction os rule: redns.induct) simp_all

definition ghost_msg :: "rx_par \<Rightarrow> rx_data event" where
  "ghost_msg q = resume_msg (q_tid q) receive_ghost_id Nothing"

lemma msgs_to_ghosts:
  assumes "i < q_n q" and "j < q_n q"
  shows "msgs_to j (ghosts q i) = replicate (of_bool (adjacent i j)) (ghost_msg q)"
proof -
  consider "i = Suc j" | "j = Suc i" | "\<not> adjacent i j" by (auto simp: adjacent_def)
  then show ?thesis
  proof cases
    case 3
    then have "\<not> int i - 1 = int j" "\<not> int i + 1 = int j" unfolding adjacent_def by linarith+
    then show ?thesis using 3 by (simp add: ghosts_def)
  qed (use assms in \<open>simp_all add: ghosts_def adjacent_def ghost_msg_def\<close>)
qed

lemma msgs_to_base:
  assumes "i < q_n q" and "j < q_n q"
  shows "msgs_to j (base q i a) = replicate (of_bool (adjacent i j) * a) (ghost_msg q)"
  by (induction a) (simp_all add: msgs_to_ghosts [OF assms] computed_def max_error_redn_def flip: replicate_add)

lemma msgs_to_outs:
  assumes "i < q_n q" and "j < q_n q" and "phase_ok q i ph"
  shows "msgs_to j (outs q i ph) = replicate (of_bool (adjacent i j) * sent q ph) (ghost_msg q)"
proof (cases ph)
  case (Ghosts a g)
  then obtain a' where "a = Suc a'" using assms(3) by (cases a) (simp_all add: phase_ok_def)
  then show ?thesis using Ghosts
    by (simp add: outs_def sent_def msgs_to_base [OF assms(1,2)] msgs_to_ghosts [OF assms(1,2)] flip: replicate_add)
qed (simp_all add: outs_def sent_def msgs_to_base [OF assms(1,2)] grid_redn_def)

lemma msgs_to_outside:
  assumes "i < q_n q" and "q_n q \<le> j"
  shows "msgs_to j (outs q i ph) = []"
proof -
  have g: "msgs_to j (ghosts q i) = []" using assms by (auto simp: ghosts_def)
  have "msgs_to j (base q i a) = []" for a
    by (induction a) (simp_all add: g computed_def max_error_redn_def)
  then show ?thesis by (cases ph) (simp_all add: outs_def g grid_redn_def)
qed

definition max_redn :: "rx_par \<Rightarrow> task_id \<times> rx_data \<times> nat \<times> redn_target" where
  "max_redn q = (q_tid q, Double (q_tol q * 2), max_double, RednAll receive_max_error_id)"

definition set_redn :: "rx_par \<Rightarrow> nat \<Rightarrow> task_id \<times> rx_data \<times> nat \<times> redn_target" where
  "set_redn q i = (q_tid q, Index (int i), set_reducer, RednElt 0 receive_grid_id)"

lemma redns_ghosts: "redns (ghosts q i) = []"
  by (simp add: ghosts_def)

lemma redns_base: "redns (base q i a) = replicate a (max_redn q)"
  by (induction a) (simp_all add: redns_ghosts computed_def max_error_redn_def max_redn_def replicate_append_same)

lemma redns_outs:
  assumes "phase_ok q i ph"
  shows "redns (outs q i ph) = replicate (min (given q ph) (rounds q)) (max_redn q) @
    (if given q ph = Suc (rounds q) then [set_redn q i] else [])"
  using assms by (cases ph)
    (auto simp: outs_def given_def redns_base redns_ghosts grid_redn_def set_redn_def phase_ok_def min_def)

lemma redns_nth:
  assumes "phase_ok q i ph"
  shows "length (redns (outs q i ph)) = given q ph"
    "k < given q ph \<Longrightarrow> redns (outs q i ph) ! k = (if k < rounds q then max_redn q else set_redn q i)"
proof -
  have g: "given q ph \<le> Suc (rounds q)" using assms by (cases ph) (auto simp: given_def phase_ok_def)
  then show "length (redns (outs q i ph)) = given q ph" by (auto simp: redns_outs [OF assms] min_def)
  show "k < given q ph \<Longrightarrow> redns (outs q i ph) ! k = (if k < rounds q then max_redn q else set_redn q i)"
    using g by (auto simp: redns_outs [OF assms] nth_append min_def)
qed

lemma calls_base:
  "OutCall (CkAbort f) \<notin> set (ghosts q i)" "OutCall CkExit \<notin> set (ghosts q i)"
  "OutCall (CkAbort f) \<notin> set (base q i a)" "OutCall CkExit \<notin> set (base q i a)"
proof -
  show g: "OutCall (CkAbort f) \<notin> set (ghosts q i)" "OutCall CkExit \<notin> set (ghosts q i)"
    by (simp_all add: ghosts_def)
  show "OutCall (CkAbort f) \<notin> set (base q i a)" "OutCall CkExit \<notin> set (base q i a)"
    by (induction a) (use g in \<open>simp_all add: computed_def max_error_redn_def\<close>)
qed

lemma calls_outs:
  "OutCall (CkAbort f) \<notin> set (outs q i ph)" "OutCall CkExit \<in> set (outs q i ph) \<longleftrightarrow> i = 0 \<and> ph = Gone"
  by (cases ph; simp add: outs_def calls_base grid_redn_def)+

end
