(* ===== verification/Relaxation_Props.thy ===== *)
theory Relaxation_Props
  imports Relaxation_Inv
begin

text \<open>
  What holds in every run of the relaxation program: every payload has the type its continuation
  reads, no run gets stuck, and every run ends with all indices collected and one shutdown.
\<close>

section \<open>The invariant\<close>

definition err_msg :: "(nat \<Rightarrow> rx_data list \<Rightarrow> rx_data) \<Rightarrow> rx_par \<Rightarrow> rx_data event" where
  "err_msg redn q = redn_msg redn receive_max_error_id max_double (replicate (q_n q) (q_tid q))
     (replicate (q_n q) (Double (q_tol q * 2)))"

definition grid_msg :: "(nat \<Rightarrow> rx_data list \<Rightarrow> rx_data) \<Rightarrow> rx_par \<Rightarrow> rx_data event" where
  "grid_msg redn q = redn_msg redn receive_grid_id set_reducer (replicate (q_n q) (q_tid q))
     (map (\<lambda>i. Index (int i)) [0..<q_n q])"

definition new_msg :: "rx_par \<Rightarrow> rx_data event" where
  "new_msg q = ECreate (create_msg (q_n q) (q_iters q) (q_tol q) (q_tid q))"

definition inbox ::
  "(nat \<Rightarrow> rx_data list \<Rightarrow> rx_data) \<Rightarrow> rx_par \<Rightarrow> nat \<Rightarrow> nat \<Rightarrow> rx_phase \<Rightarrow> nat \<Rightarrow> rx_data event multiset" where
  "inbox redn q i done ph f = replicate_mset f (ghost_msg q) + (if ph = Absent then {#new_msg q#} else {#}) +
     replicate_mset (min done (rounds q) - heard q ph) (err_msg redn q) +
     (if done = Suc (rounds q) \<and> i = 0 \<and> ph \<noteq> Gone then {#grid_msg redn q#} else {#})"

definition inv_at ::
  "(nat \<Rightarrow> rx_data list \<Rightarrow> rx_data) \<Rightarrow> rx_par \<Rightarrow> rx_sys \<Rightarrow> (nat \<Rightarrow> rx_phase) \<Rightarrow> (nat \<Rightarrow> nat) \<Rightarrow> (nat \<Rightarrow> nat) \<Rightarrow> bool" where
  "inv_at redn q s ph b f \<longleftrightarrow>
     (\<forall>i<q_n q. elem_ok q i (ph i) (b i) (rs_elem s i) \<and> phase_ok q i (ph i) \<and>
        (\<forall>a g. ph i = Ghosts a g \<longrightarrow> b i = 0) \<and>
        rs_wire s i = inbox redn q i (rs_done s) (ph i) (f i) \<and>
        b i + f i + used q i (ph i) = (\<Sum>j<q_n q. of_bool (adjacent j i) * sent q (ph j)) \<and>
        rs_done s \<le> given q (ph i) \<and> heard q (ph i) \<le> rs_done s \<and>
        (i = 0 \<and> ph i = Gone \<longrightarrow> rs_done s = Suc (rounds q))) \<and>
     rs_steps s = (\<Sum>i<q_n q. taken_by q i (ph i) (b i)) + rs_done s"

definition rx_inv :: "(nat \<Rightarrow> rx_data list \<Rightarrow> rx_data) \<Rightarrow> rx_par \<Rightarrow> rx_sys \<Rightarrow> bool" where
  "rx_inv redn q s \<longleftrightarrow> 0 < q_n q \<and> (\<exists>ph b f. inv_at redn q s ph b f)"

lemma inv_atD:
  assumes "inv_at redn q s ph b f" and "i < q_n q"
  shows "elem_ok q i (ph i) (b i) (rs_elem s i)" "phase_ok q i (ph i)" "ph i = Ghosts a g \<Longrightarrow> b i = 0"
    "rs_wire s i = inbox redn q i (rs_done s) (ph i) (f i)"
    "b i + f i + used q i (ph i) = (\<Sum>j<q_n q. of_bool (adjacent j i) * sent q (ph j))"
    "rs_done s \<le> given q (ph i)" "heard q (ph i) \<le> rs_done s" "i = 0 \<Longrightarrow> ph i = Gone \<Longrightarrow> rs_done s = Suc (rounds q)"
  using assms unfolding inv_at_def by blast+

lemma sum_update:
  fixes g :: "nat \<Rightarrow> nat"
  assumes "i < n" and "\<And>k. k \<noteq> i \<Longrightarrow> h k = g k" and "h i = g i + d"
  shows "(\<Sum>k<n. h k) = (\<Sum>k<n. g k) + d"
proof -
  have "(\<Sum>k<n. h k) = h i + (\<Sum>k\<in>{..<n} - {i}. h k)" "(\<Sum>k<n. g k) = g i + (\<Sum>k\<in>{..<n} - {i}. g k)"
    using assms(1) by (simp_all add: sum.remove)
  moreover have "(\<Sum>k\<in>{..<n} - {i}. h k) = (\<Sum>k\<in>{..<n} - {i}. g k)"
    using assms(2) by (intro sum.cong) auto
  ultimately show ?thesis using assms(3) by simp
qed

lemma replicate_rest: "replicate m x = replicate k x @ ys \<Longrightarrow> ys = replicate (m - k) x"
  by (metis append_eq_conv_conj drop_replicate length_replicate)

lemma new_msgs:
  assumes "moves q i ph ph'" and "phase_ok q i ph" and "i < q_n q" and "j < q_n q"
  shows "msgs_to j (drop (length (outs q i ph)) (outs q i ph'))
    = replicate (of_bool (adjacent i j) * (sent q ph' - sent q ph)) (ghost_msg q)"
proof -
  obtain os where os: "outs q i ph' = outs q i ph @ os" using assms(1) by (auto simp: moves_def)
  have "replicate (of_bool (adjacent i j) * sent q ph') (ghost_msg q)
      = replicate (of_bool (adjacent i j) * sent q ph) (ghost_msg q) @ msgs_to j os"
    using os msgs_to_outs [OF assms(3,4)] assms(1,2) by (metis moves_def msgs_to_append)
  from replicate_rest [OF this] show ?thesis using os by (simp add: diff_mult_distrib2)
qed

lemma inbox_more: "inbox redn q i d ph (f + k) = inbox redn q i d ph f + replicate_mset k (ghost_msg q)"
  by (induction k) (simp_all add: inbox_def)

text \<open>One element moves on by one message.\<close>

lemma inv_move:
  assumes inv: "inv_at redn q s ph b f" and i: "i < q_n q"
    and e: "elem_ok q i p' b' st" and mv: "moves q i (ph i) p'" and gh: "\<And>a g. p' = Ghosts a g \<Longrightarrow> b' = 0"
    and bal: "b' + f' + used q i p' = b i + f i + used q i (ph i)" and hd: "heard q p' \<le> rs_done s"
    and gone: "i = 0 \<Longrightarrow> p' = Gone \<Longrightarrow> rs_done s = Suc (rounds q)"
    and w: "rs_wire s i - {#ev#} = inbox redn q i (rs_done s) p' f'"
    and tk: "taken_by q i p' b' = Suc (taken_by q i (ph i) (b i))"
  shows "inv_at redn q (s\<lparr>rs_elem := (rs_elem s)(i := st),
      rs_wire := (\<lambda>j. ((rs_wire s)(i := rs_wire s i - {#ev#})) j
        + mset (msgs_to j (drop (length (wg_out (rs_elem s i))) (wg_out st)))),
      rs_steps := Suc (rs_steps s)\<rparr>) (ph(i := p')) (b(i := b'))
    (\<lambda>j. (f(i := f')) j + of_bool (adjacent i j) * (sent q p' - sent q (ph i)))"
proof -
  let ?d = "sent q p' - sent q (ph i)"
  let ?f = "\<lambda>j. (f(i := f')) j + of_bool (adjacent i j) * ?d"
  let ?w = "\<lambda>j. ((rs_wire s)(i := rs_wire s i - {#ev#})) j
        + mset (msgs_to j (drop (length (wg_out (rs_elem s i))) (wg_out st)))"
  note I = inv_atD [OF inv]
  have o: "wg_out (rs_elem s i) = outs q i (ph i)" "wg_out st = outs q i p'"
    using I(1) [OF i] e by (simp_all add: elem_ok_def)
  have pk: "phase_ok q i p'" "given q (ph i) \<le> given q p'" "sent q (ph i) \<le> sent q p'"
    using mv by (simp_all add: moves_def)
  have new: "msgs_to j (drop (length (wg_out (rs_elem s i))) (wg_out st))
      = replicate (of_bool (adjacent i j) * ?d) (ghost_msg q)" if "j < q_n q" for j
    using new_msgs [OF mv I(2) [OF i] i that] o by simp
  have ni: "\<not> adjacent i i" by (simp add: adjacent_def)
  have wire: "?w j = inbox redn q j (rs_done s) ((ph(i := p')) j) (?f j)" if j: "j < q_n q" for j
    using w I(4) [OF j] new [OF j] by (simp add: inbox_more)
  have sum: "(\<Sum>k<q_n q. of_bool (adjacent k j) * sent q ((ph(i := p')) k))
      = (\<Sum>k<q_n q. of_bool (adjacent k j) * sent q (ph k)) + of_bool (adjacent i j) * ?d" for j
    using i pk(3) by (intro sum_update [of i]) (auto simp flip: distrib_left)
  have steps: "(\<Sum>k<q_n q. taken_by q k ((ph(i := p')) k) ((b(i := b')) k)) = (\<Sum>k<q_n q. taken_by q k (ph k) (b k)) + 1"
    using i tk by (intro sum_update [of i]) auto
  show ?thesis
    unfolding inv_at_def
  proof (intro conjI allI impI)
    fix j assume j: "j < q_n q"
    show "elem_ok q j ((ph(i := p')) j) ((b(i := b')) j) (rs_elem (s\<lparr>rs_elem := (rs_elem s)(i := st), rs_wire := ?w,
        rs_steps := Suc (rs_steps s)\<rparr>) j)" using e I(1) [OF j] by simp
    show "phase_ok q j ((ph(i := p')) j)" using pk I(2) [OF j] by simp
    show "(b(i := b')) j = 0" if "(ph(i := p')) j = Ghosts a g" for a g
      using that gh I(3) [OF j] by (cases "j = i") auto
    show "(b(i := b')) j + ?f j + used q j ((ph(i := p')) j)
        = (\<Sum>k<q_n q. of_bool (adjacent k j) * sent q ((ph(i := p')) k))"
      using bal I(5) [OF i] I(5) [OF j] ni unfolding sum by (cases "j = i") simp_all
    show "rs_done (s\<lparr>rs_elem := (rs_elem s)(i := st), rs_wire := ?w, rs_steps := Suc (rs_steps s)\<rparr>) = Suc (rounds q)"
      if "j = 0 \<and> (ph(i := p')) j = Gone"
      using that gone I(8) [OF j] by (cases "j = i") auto
  qed (use wire steps hd pk I(6,7) inv in \<open>auto simp: inv_at_def intro: le_trans\<close>)
qed

section \<open>Every message is handled\<close>

definition advances ::
  "(nat \<Rightarrow> rx_data list \<Rightarrow> rx_data) \<Rightarrow> rx_par \<Rightarrow> nat \<Rightarrow> nat \<Rightarrow> rx_phase \<Rightarrow> nat \<Rightarrow> nat
    \<Rightarrow> rx_data event \<Rightarrow> rx_phase \<Rightarrow> nat \<Rightarrow> nat \<Rightarrow> bool" where
  "advances redn q i done ph b f ev p' b' f' \<longleftrightarrow> moves q i ph p' \<and> (\<forall>a g. p' = Ghosts a g \<longrightarrow> b' = 0) \<and>
     b' + f' + used q i p' = b + f + used q i ph \<and> heard q p' \<le> done \<and>
     (i = 0 \<longrightarrow> p' = Gone \<longrightarrow> done = Suc (rounds q)) \<and>
     inbox redn q i done ph f - {#ev#} = inbox redn q i done p' f' \<and>
     taken_by q i p' b' = Suc (taken_by q i ph b)"

lemma redn_arrives:
  assumes "redn_ok redn" and "n = Suc k"
  shows "wg_step rx_as_tid R (redn_msg redn c ty (replicate n tid) ds) st
    = deliver R tid \<lparr>pl_src = 0, pl_ref = c, pl_len = 0, pl_data = 0, pl_at = [0 \<mapsto> redn ty ds]\<rparr> st"
proof -
  have "redn bitvec_and_int (map TaskId (replicate n tid)) = TaskId tid"
    unfolding assms(2) map_replicate using assms(1) unfolding redn_ok_def by blast
  then show ?thesis
    by (simp add: redn_msg_def resume_redn_def payload_of_redn_def rx_as_tid_def del: map_replicate)
qed

lemma in_inbox:
  assumes "ev \<in># inbox redn q i done ph f"
  obtains (ghost) f' where "ev = ghost_msg q" "f = Suc f'"
  | (new) "ev = new_msg q" "ph = Absent"
  | (err) "ev = err_msg redn q" "heard q ph < done" "heard q ph < rounds q"
  | (grid) "ev = grid_msg redn q" "done = Suc (rounds q)" "i = 0" "ph \<noteq> Gone"
proof -
  have "(ev = ghost_msg q \<and> 0 < f) \<or> (ev = new_msg q \<and> ph = Absent) \<or>
      (ev = err_msg redn q \<and> heard q ph < done \<and> heard q ph < rounds q) \<or>
      (ev = grid_msg redn q \<and> done = Suc (rounds q) \<and> i = 0 \<and> ph \<noteq> Gone)"
    using assms by (auto simp: inbox_def split: if_splits)
  then show thesis using ghost [of "f - 1"] new err grid by fastforce
qed

lemma ghost_advances:
  assumes "phase_ok q i ph" and "heard q ph \<le> done" and "i = 0 \<Longrightarrow> ph = Gone \<Longrightarrow> done = Suc (rounds q)"
    and "eat q i ph (Suc b) = (p', b')"
  shows "advances redn q i done ph b (Suc f') (ghost_msg q) p' b' f'"
proof -
  note E = eat_facts [OF assms(1,4)]
  have "inbox redn q i done ph (Suc f') - {#ghost_msg q#} = inbox redn q i done p' f'"
    using E(4,6,7) by (simp add: inbox_def)
  then show ?thesis
    using E assms(2,3) by (simp add: advances_def taken_by_def)
qed

lemma new_advances:
  assumes "eat q i (begin_round q i 0) b = (p', b')"
  shows "advances redn q i done Absent b f (new_msg q) p' b' f"
proof -
  note E = begin_eat_facts [OF le0 refl [of "if 0 = (0::nat) then Absent else Errs 0"] assms]
  have "inbox redn q i done Absent f - {#new_msg q#} = inbox redn q i done p' f"
    using E(3,5,6) by (simp add: inbox_def counts)
  then show ?thesis
    using E by (auto simp: advances_def taken_by_def counts)
qed

lemma err_advances:
  assumes "phase_ok q i (Errs a)" and "a \<le> done" and "eat q i (begin_round q i a) b = (p', b')"
  shows "advances redn q i done (Errs a) b f (err_msg redn q) p' b' f"
proof -
  have a: "a \<le> rounds q" "0 < a" using assms(1) by (simp_all add: phase_ok_def)
  have "Errs a = (if a = 0 then Absent else Errs a)" using a by simp
  note E = begin_eat_facts [OF a(1) this assms(3)]
  have "min done (rounds q) - heard q (Errs a) = Suc (min done (rounds q) - heard q p')"
    using E(3) a assms(2) by (simp add: counts)
  then have "inbox redn q i done (Errs a) f - {#err_msg redn q#} = inbox redn q i done p' f"
    using E(5,6) by (simp add: inbox_def)
  then show ?thesis
    using E a assms(2) by (auto simp: advances_def taken_by_def counts)
qed

lemma grid_advances:
  "advances redn q 0 (Suc (rounds q)) Grid b f (grid_msg redn q) Gone b f"
  by (simp add: advances_def moves_def phase_ok_def taken_by_def counts inbox_def outs_def)

lemma handled:
  assumes inv: "inv_at redn q s ph b f" and i: "i < q_n q" and ok: "redn_ok redn"
    and ev: "ev \<in># rs_wire s i"
  shows "\<exists>st p' b' f'. wg_step rx_as_tid (relaxation_registry (int i) (q_it0 q)) ev (rs_elem s i) = Inr st \<and>
    elem_ok q i p' b' st \<and> advances redn q i (rs_done s) (ph i) (b i) (f i) ev p' b' f'"
proof -
  note I = inv_atD [OF inv i]
  obtain k where n: "q_n q = Suc k" using i by (cases "q_n q") simp_all
  have "ev \<in># inbox redn q i (rs_done s) (ph i) (f i)" using ev I(4) by simp
  then show ?thesis
  proof (cases rule: in_inbox)
    case (ghost f')
    obtain p' b' where p: "eat q i (ph i) (Suc (b i)) = (p', b')" by fastforce
    show ?thesis
      using ghost_arrives [where z = "q_it0 q", OF I(1,2,3)] ghost_advances [OF I(2,7,8) p] p
      unfolding ghost(1) ghost(2) ghost_msg_def [symmetric] by fastforce
  next
    case new
    obtain p' b' where p: "eat q i (begin_round q i 0) (b i) = (p', b')" by fastforce
    show ?thesis
      using create_arrives [OF I(1) [unfolded new(2)]] new_advances [OF p] p
      unfolding new(1) new(2) new_msg_def [symmetric] by fastforce
  next
    case err
    obtain a where a: "ph i = Errs a" "a \<le> rs_done s"
      using err I(2,6) by (cases "ph i") (auto simp: counts phase_ok_def)
    have ar: "0 < a" "a \<le> rounds q" using I(2) a by (simp_all add: phase_ok_def)
    obtain p' b' where p: "eat q i (begin_round q i a) (b i) = (p', b')" by fastforce
    let ?p = "\<lparr>pl_src = 0, pl_ref = receive_max_error_id, pl_len = 0, pl_data = 0, pl_at = [0 \<mapsto> Double (q_tol q * 2)]\<rparr>"
    have "redn max_double (replicate (q_n q) (Double (q_tol q * 2))) = Double (q_tol q * 2)"
      using ok unfolding n redn_ok_def by blast
    then have "wg_step rx_as_tid (relaxation_registry (int i) (q_it0 q)) ev (rs_elem s i)
        = deliver (relaxation_registry (int i) (q_it0 q)) (q_tid q) ?p (rs_elem s i)"
      unfolding err(1) err_msg_def redn_arrives [OF ok n] by simp
    then show ?thesis
      using error_arrives [OF I(1) [unfolded a(1)] ar, of ?p "q_it0 q"] p
        err_advances [OF I(2) [unfolded a(1)] a(2) p, of redn "f i"] err(1) a(1) by fastforce
  next
    case grid
    then have g: "ph 0 = Grid" using I(2,6) by (cases "ph 0") (auto simp: counts phase_ok_def)
    obtain ys where ys: "redn set_reducer (map (\<lambda>i. Index (int i)) [0..<q_n q]) = Indices ys"
      "set ys = int ` {..<q_n q}"
    proof -
      have "\<exists>ys. redn set_reducer (map Index (map int [0..<q_n q])) = Indices ys \<and> set ys = set (map int [0..<q_n q])"
        using ok unfolding redn_ok_def by blast
      then show thesis using that by (auto simp: comp_def atLeast0LessThan)
    qed
    have card: "card (set ys) = q_n q" by (simp add: ys(2) card_image)
    let ?p = "\<lparr>pl_src = 0, pl_ref = receive_grid_id, pl_len = 0, pl_data = 0, pl_at = [0 \<mapsto> Indices ys]\<rparr>"
    have "wg_step rx_as_tid (relaxation_registry 0 (q_it0 q)) ev (rs_elem s 0)
        = deliver (relaxation_registry 0 (q_it0 q)) (q_tid q) ?p (rs_elem s 0)"
      unfolding grid(1) grid_msg_def redn_arrives [OF ok n] ys(1) by simp
    moreover obtain st where "deliver (relaxation_registry 0 (q_it0 q)) (q_tid q) ?p (rs_elem s 0) = Inr st"
      "elem_ok q 0 Gone (b 0) st"
      using grid_arrives [of q "b 0" "rs_elem s 0" ?p ys "q_it0 q"] I(1) g grid(3) card by auto
    ultimately show ?thesis
      using grid_advances [of redn q "b 0" "f 0"] grid g by fastforce
  qed
qed

lemma inv_deliver:
  assumes inv: "rx_inv redn q s" and i: "i < q_n q" and ok: "redn_ok redn" and ev: "ev \<in># rs_wire s i"
    and st: "wg_step rx_as_tid (relaxation_registry (int i) (q_it0 q)) ev (rs_elem s i) = Inr st"
  shows "rx_inv redn q (s\<lparr>rs_elem := (rs_elem s)(i := st),
      rs_wire := (\<lambda>j. ((rs_wire s)(i := rs_wire s i - {#ev#})) j
        + mset (msgs_to j (drop (length (wg_out (rs_elem s i))) (wg_out st)))),
      rs_steps := Suc (rs_steps s)\<rparr>)"
proof -
  obtain ph b f where I: "inv_at redn q s ph b f" using inv by (auto simp: rx_inv_def)
  obtain p' b' f' where e: "elem_ok q i p' b' st"
    and a: "advances redn q i (rs_done s) (ph i) (b i) (f i) ev p' b' f'"
    using handled [OF I i ok ev] st by auto
  have "rs_wire s i - {#ev#} = inbox redn q i (rs_done s) p' f'"
    using a inv_atD(4) [OF I i] by (simp add: advances_def)
  from inv_move [OF I i e _ _ _ _ _ this] a show ?thesis
    using inv unfolding rx_inv_def advances_def by blast
qed

section \<open>Reductions\<close>

lemma next_redns_inv:
  assumes inv: "inv_at redn q s ph b f" and can: "\<forall>i<q_n q. rs_done s < given q (ph i)"
  shows "next_redns (q_n q) s = (if rs_done s < rounds q then replicate (q_n q) (max_redn q) else map (set_redn q) [0..<q_n q])"
proof -
  have "redns (wg_out (rs_elem s i)) ! rs_done s = (if rs_done s < rounds q then max_redn q else set_redn q i)"
    if "i < q_n q" for i
    using inv_atD(1,2) [OF inv that] can that redns_nth(2) [OF inv_atD(2) [OF inv that]] by (simp add: elem_ok_def)
  then show ?thesis by (auto simp: next_redns_def intro!: nth_equalityI)
qed

lemma can_reduce_inv:
  assumes inv: "inv_at redn q s ph b f"
  shows "can_reduce (q_n q) s \<longleftrightarrow> (\<forall>i<q_n q. rs_done s < given q (ph i))"
proof -
  have "length (redns (wg_out (rs_elem s i))) = given q (ph i)" if "i < q_n q" for i
    using inv_atD(1,2) [OF inv that] redns_nth(1) by (simp add: elem_ok_def)
  then show ?thesis
    using next_redns_inv [OF inv] by (auto simp: can_reduce_def max_redn_def set_redn_def split: if_splits)
qed

lemma reduced_inv:
  assumes inv: "inv_at redn q s ph b f" and can: "\<forall>i<q_n q. rs_done s < given q (ph i)" and n: "0 < q_n q"
  shows "reduced redn (q_n q) (next_redns (q_n q) s) j =
    (if rs_done s < rounds q then if j < q_n q then {#err_msg redn q#} else {#}
     else if j = 0 then {#grid_msg redn q#} else {#})"
proof -
  obtain k where k: "q_n q = Suc k" using n by (cases "q_n q") simp_all
  show ?thesis
  proof (cases "rs_done s < rounds q")
    case True
    then have e: "next_redns (q_n q) s = replicate (q_n q) (max_redn q)" using next_redns_inv [OF inv can] by simp
    then have "next_redns (q_n q) s = max_redn q # replicate k (max_redn q)" using k by simp
    then have "reduced redn (q_n q) (next_redns (q_n q) s) j = (if j < q_n q then {#redn_msg redn receive_max_error_id
        max_double (map fst (next_redns (q_n q) s)) (map (fst \<circ> snd) (next_redns (q_n q) s))#} else {#})"
      by (simp add: reduced_def max_redn_def)
    then show ?thesis using True by (simp add: e err_msg_def max_redn_def)
  next
    case False
    then have e: "next_redns (q_n q) s = map (set_redn q) [0..<q_n q]" using next_redns_inv [OF inv can] by simp
    then have "next_redns (q_n q) s = set_redn q 0 # map (set_redn q) [1..<q_n q]"
      using n by (simp add: upt_conv_Cons)
    then have "reduced redn (q_n q) (next_redns (q_n q) s) j = (if j = 0 then {#redn_msg redn receive_grid_id
        set_reducer (map fst (next_redns (q_n q) s)) (map (fst \<circ> snd) (next_redns (q_n q) s))#} else {#})"
      by (auto simp: reduced_def set_redn_def)
    then show ?thesis using False by (simp add: e grid_msg_def set_redn_def comp_def map_replicate_const)
  qed
qed

lemma inv_reduce:
  assumes inv: "rx_inv redn q s" and can: "can_reduce (q_n q) s"
  shows "rx_inv redn q (s\<lparr>rs_wire := (\<lambda>j. rs_wire s j + reduced redn (q_n q) (next_redns (q_n q) s) j),
      rs_done := Suc (rs_done s), rs_steps := Suc (rs_steps s)\<rparr>)"
proof -
  obtain ph b f where I: "inv_at redn q s ph b f" and n: "0 < q_n q" using inv by (auto simp: rx_inv_def)
  have g: "\<forall>i<q_n q. rs_done s < given q (ph i)" using can can_reduce_inv [OF I] by simp
  note D = inv_atD [OF I]
  have top: "rs_done s \<le> rounds q"
    using D(2) [OF n] g n by (cases "ph 0") (auto simp: counts phase_ok_def)
  have w: "rs_wire s i + reduced redn (q_n q) (next_redns (q_n q) s) i = inbox redn q i (Suc (rs_done s)) (ph i) (f i)"
    if i: "i < q_n q" for i
  proof (cases "rs_done s < rounds q")
    case True
    then have "min (Suc (rs_done s)) (rounds q) - heard q (ph i) = Suc (min (rs_done s) (rounds q) - heard q (ph i))"
      using D(7) [OF i] by simp
    then show ?thesis using True i D(4) [OF i] by (simp add: reduced_inv [OF I g n] inbox_def)
  next
    case False
    then have "rs_done s = rounds q" using top by simp
    then show ?thesis using i D(4,8) [OF i] by (auto simp: reduced_inv [OF I g n] inbox_def)
  qed
  have "inv_at redn q (s\<lparr>rs_wire := (\<lambda>j. rs_wire s j + reduced redn (q_n q) (next_redns (q_n q) s) j),
      rs_done := Suc (rs_done s), rs_steps := Suc (rs_steps s)\<rparr>) ph b f"
    unfolding inv_at_def
  proof (intro conjI allI impI)
    fix i assume i: "i < q_n q"
    show "rs_done (s\<lparr>rs_wire := (\<lambda>j. rs_wire s j + reduced redn (q_n q) (next_redns (q_n q) s) j),
      rs_done := Suc (rs_done s), rs_steps := Suc (rs_steps s)\<rparr>) = Suc (rounds q)" if "i = 0 \<and> ph i = Gone"
      using that D(8) [OF i] top by auto
  qed (use w D g I in \<open>auto simp: inv_at_def Suc_leI intro: le_SucI\<close>)
  then show ?thesis using n unfolding rx_inv_def by blast
qed

end
