(* ===== verification/Relaxation_Ends.thy ===== *)
theory Relaxation_Ends
  imports Relaxation_Props
begin

text \<open>
  The theorems about the relaxation program, from the invariant of \<open>Relaxation_Props\<close>, for runs in
  which \<open>it\<close>, which no constructor sets, starts from the same value in all tasks. \<open>Relaxation_Uneven\<close> has the
  other runs.
\<close>

section \<open>Reachable states\<close>

text \<open>The identifier that \<open>launch\<close> takes from element 0.\<close>

definition first_tid :: task_id where "first_tid = \<lparr>tid_host = 0, tid_task = 0\<rparr>"

definition par :: "nat \<Rightarrow> int \<Rightarrow> rat \<Rightarrow> int \<Rightarrow> rx_par" where
  "par n iters tol z = \<lparr>q_n = n, q_iters = iters, q_tol = tol, q_it0 = z, q_tid = first_tid\<rparr>"

lemma par_simps [simp]: "q_n (par n iters tol z) = n" "q_iters (par n iters tol z) = iters"
  "q_tol (par n iters tol z) = tol" "q_it0 (par n iters tol z) = z" "q_tid (par n iters tol z) = first_tid"
  by (simp_all add: par_def)

lemma new_elem_ok: "elem_ok q i Absent 0 ((new_workgroup (int i) junk)\<lparr>wg_last := k\<rparr>)"
  by (simp add: elem_ok_def task_ok_def new_workgroup_def bucket_def outs_def fun_eq_iff)

lemma main_eq:
  assumes n: "0 < n"
  shows "rx_main junk n iters tol = Inr (first_tid,
      \<lparr>rs_elem = (\<lambda>i. if i < n then ((new_workgroup 0 junk)\<lparr>wg_last := 1\<rparr> # map (\<lambda>i. new_workgroup (int i) junk) [Suc 0..<n]) ! i
           else new_workgroup (int i) junk),
       rs_wire = (\<lambda>i. if i < n then {#ECreate (create_msg n iters tol first_tid)#} else {#}), rs_done = 0, rs_steps = 0\<rparr>)"
proof -
  have l: "map (\<lambda>i. new_workgroup (int i) junk) [0..<n]
      = (new_workgroup 0 junk :: (relaxation_task, rx_data) workgroup) # map (\<lambda>i. new_workgroup (int i) junk) [Suc 0..<n]"
    using n by (simp add: upt_conv_Cons)
  have g: "generate_id (new_workgroup 0 junk :: (relaxation_task, rx_data) workgroup)
      = (first_tid, (new_workgroup 0 junk)\<lparr>wg_last := 1\<rparr>)"
    by (simp add: generate_id_def new_workgroup_def first_tid_def)
  show ?thesis using n by (simp add: rx_main_def launch_def l g)
qed

lemma main_exists: "0 < n \<Longrightarrow> \<exists>s. rx_main junk n iters tol = Inr (first_tid, s)"
  using main_eq by blast

lemma main_start:
  assumes "rx_main junk n iters tol = Inr (tid, s)"
  shows "0 < n" "tid = first_tid" "rs_done s = 0" "rs_steps s = 0"
    "i < n \<Longrightarrow> elem_ok q i Absent 0 (rs_elem s i)" "i < n \<Longrightarrow> rs_wire s i = {#new_msg (par n iters tol z)#}"
proof -
  show n: "0 < n" using assms by (simp add: rx_main_def split: if_splits)
  note m = main_eq [OF n, of junk iters tol]
  show "tid = first_tid" "rs_done s = 0" "rs_steps s = 0" "i < n \<Longrightarrow> rs_wire s i = {#new_msg (par n iters tol z)#}"
    using assms m by (auto simp: new_msg_def)
  show "elem_ok q i Absent 0 (rs_elem s i)" if i: "i < n"
  proof (cases i)
    case 0
    then show ?thesis using m assms n new_elem_ok [where q = q and i = 0 and junk = junk and k = 1] by auto
  next
    case (Suc j)
    then have "rs_elem s i = new_workgroup (int i) junk" using m assms i by auto
    then show ?thesis using new_elem_ok [where q = q and i = i and junk = junk and k = 0] by (simp add: new_workgroup_def)
  qed
qed

lemma inv_start:
  assumes "rx_main junk n iters tol = Inr (tid, s)"
  shows "rx_inv redn (par n iters tol z) s"
proof -
  note M = main_start [OF assms]
  have "inv_at redn (par n iters tol z) s (\<lambda>i. Absent) (\<lambda>i. 0) (\<lambda>i. 0)"
    unfolding inv_at_def
    using M(3,4) M(5) [of _ "par n iters tol z"] M(6) [of _ z]
    by (simp add: inbox_def counts taken_by_def phase_ok_def)
  then show ?thesis using M(1) unfolding rx_inv_def by auto
qed

interpretation relaxation_safety: safety "\<lambda>s. \<exists>tid. rx_main junk n iters tol = Inr (tid, s)"
    "rx_step redn (\<lambda>i. z) n" "\<lambda>s. redn_ok redn \<longrightarrow> rx_inv redn (par n iters tol z) s" for junk n iters tol redn z
proof
  show "redn_ok redn \<longrightarrow> rx_inv redn (par n iters tol z) s" if "\<exists>tid. rx_main junk n iters tol = Inr (tid, s)" for s
    using that inv_start by blast
  show "redn_ok redn \<longrightarrow> rx_inv redn (par n iters tol z) t"
    if "redn_ok redn \<longrightarrow> rx_inv redn (par n iters tol z) s" and "rx_step redn (\<lambda>i. z) n s t" for s t
    using that(2)
  proof cases
    case (rx_deliver i e st)
    then show ?thesis using inv_deliver [of redn "par n iters tol z" s i e st] that(1) by simp
  next
    case rx_reduce
    then show ?thesis using inv_reduce [of redn "par n iters tol z" s] that(1) by simp
  qed
qed

lemma reach_rx_inv:
  "rx_reach redn (\<lambda>i. z) junk n iters tol s \<Longrightarrow> redn_ok redn \<Longrightarrow> rx_inv redn (par n iters tol z) s"
  unfolding rx_reach_def using relaxation_safety.reach_inv by blast

text \<open>
  C15. Under the condition that every task happens to start from the same value of \<open>it\<close>, which the constructor
  does not set, each payload that a continuation ever gets has the type that the
  continuation reads it at (nothing, the error, the set of indices); so no task reads data of another type,
  \<open>receive_grid\<close>'s assertion never fails, and the element can handle every message on its way to it.
\<close>

theorem relaxation_typed:
  assumes "rx_reach redn (\<lambda>i. z) junk n iters tol s" and "redn_ok redn" and "i < n"
  shows "(\<forall>(tid, c, p) \<in> set (wg_log (rs_elem s i)). reads_at c (pl_args p)) \<and>
    (\<forall>f. OutCall (CkAbort f) \<notin> set (wg_out (rs_elem s i))) \<and>
    (\<forall>ev \<in># rs_wire s i. \<exists>st. wg_step rx_as_tid (relaxation_registry (int i) z) ev (rs_elem s i) = Inr st)"
proof -
  obtain ph b f where I: "inv_at redn (par n iters tol z) s ph b f"
    using reach_rx_inv [OF assms(1,2)] by (auto simp: rx_inv_def)
  have i: "i < q_n (par n iters tol z)" using assms(3) by simp
  have "elem_ok (par n iters tol z) i (ph i) (b i) (rs_elem s i)" by (rule inv_atD(1) [OF I i])
  moreover have "\<exists>st. wg_step rx_as_tid (relaxation_registry (int i) z) ev (rs_elem s i) = Inr st"
    if "ev \<in># rs_wire s i" for ev
    using handled [OF I i assms(2) that] by auto
  ultimately show ?thesis using calls_outs(1) by (simp add: elem_ok_def)
qed

section \<open>The end\<close>

lemma sent_le: "phase_ok q i ph \<Longrightarrow> sent q ph \<le> rounds q"
  by (cases ph) (auto simp: counts phase_ok_def)

lemma heard_le: "phase_ok q i ph \<Longrightarrow> heard q ph \<le> rounds q"
  by (cases ph) (auto simp: counts phase_ok_def)

lemma given_le: "phase_ok q i ph \<Longrightarrow> given q ph \<le> Suc (rounds q)"
  by (cases ph) (auto simp: counts phase_ok_def)

lemma nbrs_total: "0 < q_n q \<Longrightarrow> (\<Sum>i<q_n q. nbrs q i) = 2 * (q_n q - 1)"
proof -
  assume n: "0 < q_n q"
  have "(\<Sum>i<q_n q. of_bool (0 < i)) = card {i \<in> {..<q_n q}. 0 < i}" by (simp add: Int_def)
  also have "{i \<in> {..<q_n q}. 0 < i} = {1..<q_n q}" by auto
  finally have 1: "(\<Sum>i<q_n q. of_bool (0 < i)) = q_n q - 1" by simp
  have "(\<Sum>i<q_n q. of_bool (Suc i < q_n q)) = card {i \<in> {..<q_n q}. Suc i < q_n q}" by (simp add: Int_def)
  also have "{i \<in> {..<q_n q}. Suc i < q_n q} = {..<q_n q - 1}" by auto
  finally have 2: "(\<Sum>i<q_n q. of_bool (Suc i < q_n q)) = q_n q - 1" by simp
  have "(\<Sum>i<q_n q. nbrs q i) = (\<Sum>i<q_n q. of_bool (0 < i)) + (\<Sum>i<q_n q. of_bool (Suc i < q_n q))"
    unfolding nbrs_def by (rule sum.distrib)
  then show ?thesis unfolding 1 2 by simp
qed

definition all_taken :: "rx_par \<Rightarrow> nat \<Rightarrow> nat" where
  "all_taken q i = 1 + rounds q * nbrs q i + rounds q + of_bool (i = 0)"

lemma all_taken_sum:
  assumes "0 < q_n q"
  shows "(\<Sum>i<q_n q. all_taken q i) + Suc (rounds q) = q_n q + 2 * (q_n q - 1) * rounds q + q_n q * rounds q + rounds q + 2"
proof -
  have "(\<Sum>i<q_n q. of_bool (i = 0)) = card {i \<in> {..<q_n q}. i = 0}" by (simp add: Int_def)
  also have "{i \<in> {..<q_n q}. i = 0} = {0}" using assms by auto
  finally have z: "(\<Sum>i<q_n q. of_bool (i = 0)) = (1::nat)" by simp
  have "(\<Sum>i<q_n q. all_taken q i) = (\<Sum>i<q_n q. 1) + rounds q * (\<Sum>i<q_n q. nbrs q i) + (\<Sum>i<q_n q. rounds q)
      + (\<Sum>i<q_n q. of_bool (i = 0))"
    unfolding all_taken_def sum_distrib_left by (simp only: sum.distrib)
  then show ?thesis unfolding z nbrs_total [OF assms] by (simp add: algebra_simps)
qed

lemma taken_le:
  assumes I: "inv_at redn q s ph b f" and i: "i < q_n q"
  shows "taken_by q i (ph i) (b i) \<le> all_taken q i"
proof -
  note D = inv_atD [OF I i]
  have "(\<Sum>j<q_n q. of_bool (adjacent j i) * sent q (ph j)) \<le> (\<Sum>j<q_n q. of_bool (adjacent j i) * rounds q)"
    using sent_le inv_atD(2) [OF I] by (intro sum_mono mult_le_mono2) blast
  also have "\<dots> = rounds q * nbrs q i"
    unfolding nbrs_sum [OF i, symmetric] sum_distrib_left by (simp only: mult.commute)
  finally have "b i + used q i (ph i) \<le> rounds q * nbrs q i" using D(5) by simp
  moreover have "of_bool (ph i \<noteq> Absent) \<le> (1::nat)" "of_bool (i = 0 \<and> ph i = Gone) \<le> (of_bool (i = 0) :: nat)"
    by simp_all
  ultimately show ?thesis using heard_le [OF D(2)] unfolding taken_by_def all_taken_def by linarith
qed

lemma steps_le:
  assumes "rx_inv redn q s"
  shows "rs_steps s \<le> (\<Sum>i<q_n q. all_taken q i) + Suc (rounds q)"
proof -
  obtain ph b f where I: "inv_at redn q s ph b f" and n: "0 < q_n q" using assms by (auto simp: rx_inv_def)
  have "(\<Sum>i<q_n q. taken_by q i (ph i) (b i)) \<le> (\<Sum>i<q_n q. all_taken q i)"
    by (rule sum_mono) (simp add: taken_le [OF I])
  moreover have "rs_done s \<le> Suc (rounds q)"
    using inv_atD(2,6) [OF I n] given_le le_trans by blast
  moreover have "rs_steps s = (\<Sum>i<q_n q. taken_by q i (ph i) (b i)) + rs_done s" using I by (simp add: inv_at_def)
  ultimately show ?thesis by simp
qed

text \<open>Nothing is on its way and no reduction is complete only at the end.\<close>

lemma waiting_round:
  assumes I: "inv_at redn q s ph b f" and i: "i < q_n q" and w: "\<forall>j<q_n q. rs_wire s j = {#}" and d: "rs_done s < rounds q"
  shows "given q (ph i) = Suc (rs_done s)"
proof -
  have e: "f j = 0 \<and> heard q (ph j) = rs_done s \<and> ph j \<noteq> Absent" if j: "j < q_n q" for j
    using w inv_atD(4,7) [OF I j] j d by (auto simp: inbox_def split: if_splits)
  have st: "sent q (ph j) = Suc (rs_done s)" if j: "j < q_n q" for j
    using e [OF j] inv_atD(2) [OF I j] d by (cases "ph j") (auto simp: counts phase_ok_def)
  have "(\<Sum>j<q_n q. of_bool (adjacent j i) * sent q (ph j)) = (\<Sum>j<q_n q. of_bool (adjacent j i) * Suc (rs_done s))"
    using st by (intro sum.cong) simp_all
  also have "\<dots> = Suc (rs_done s) * nbrs q i"
    unfolding nbrs_sum [OF i, symmetric] sum_distrib_left by (simp only: mult.commute)
  finally have u: "b i + used q i (ph i) = Suc (rs_done s) * nbrs q i"
    using inv_atD(5) [OF I i] e [OF i] by simp
  show ?thesis
    using e [OF i] u inv_atD(2,3) [OF I i] d by (cases "ph i") (auto simp: counts phase_ok_def)
qed

lemma stuck_end:
  assumes inv: "rx_inv redn q s" and w: "\<forall>i<q_n q. rs_wire s i = {#}" and c: "\<not> can_reduce (q_n q) s"
  shows "rs_steps s = (\<Sum>i<q_n q. all_taken q i) + Suc (rounds q)" "i < q_n q \<Longrightarrow> \<exists>b. elem_ok q i Gone b (rs_elem s i)"
proof -
  obtain ph b f where I: "inv_at redn q s ph b f" and n: "0 < q_n q" using inv by (auto simp: rx_inv_def)
  obtain i0 where i0: "i0 < q_n q" "\<not> rs_done s < given q (ph i0)" using c can_reduce_inv [OF I] by blast
  have top: "rounds q \<le> rs_done s" using waiting_round [OF I i0(1) w] i0(2) by fastforce
  have fin: "ph j = Grid \<or> ph j = Gone" "f j = 0" if j: "j < q_n q" for j
    using w inv_atD(2,4) [OF I j] j top by (auto simp: inbox_def counts phase_ok_def split: rx_phase.splits if_splits)
  then have gv: "given q (ph j) = Suc (rounds q)" if "j < q_n q" for j
    using fin(1) [OF that] by (auto simp: counts)
  have d: "rs_done s = Suc (rounds q)" using i0 gv inv_atD(6) [OF I i0(1)] by simp
  have gone: "ph j = Gone" if j: "j < q_n q" for j
  proof (cases "j = 0")
    case True
    then show ?thesis using w inv_atD(4) [OF I j] j d by (auto simp: inbox_def split: if_splits)
  next
    case False
    then show ?thesis using fin(1) [OF j] inv_atD(2) [OF I j] by (auto simp: phase_ok_def)
  qed
  have b: "b j = 0" if j: "j < q_n q" for j
  proof -
    have "(\<Sum>k<q_n q. of_bool (adjacent k j) * sent q (ph k)) = (\<Sum>k<q_n q. of_bool (adjacent k j) * rounds q)"
      using gone by (intro sum.cong) (simp_all add: counts)
    also have "\<dots> = rounds q * nbrs q j"
      unfolding nbrs_sum [OF j, symmetric] sum_distrib_left by (simp only: mult.commute)
    finally show ?thesis using inv_atD(5) [OF I j] gone [OF j] by (simp add: counts)
  qed
  have "(\<Sum>j<q_n q. taken_by q j (ph j) (b j)) = (\<Sum>j<q_n q. all_taken q j)"
    using gone b by (intro sum.cong) (simp_all add: taken_by_def all_taken_def counts)
  then show "rs_steps s = (\<Sum>i<q_n q. all_taken q i) + Suc (rounds q)"
    using I d by (simp add: inv_at_def)
  show "\<exists>b. elem_ok q i Gone b (rs_elem s i)" if "i < q_n q"
    using inv_atD(1) [OF I that] gone [OF that] by auto
qed

text \<open>
  C3. Under the condition that every task happens to start from the same value \<open>z\<close> of \<open>it\<close>, which the constructor
  does not set, the program always ends: with \<open>n\<close> tasks that make \<open>K\<close> iterations (as many as \<open>maxIters\<close> leaves
  for a positive tolerance, at most one otherwise), in whatever order messages arrive, a run has exactly \<open>n + 2 (n - 1) K + n K + K + 2\<close> steps: it never gets stuck before, and then every
  task has contributed \<open>K + 1\<close> times and is gone, nothing is on its way, and task 0 has called \<open>CkExit\<close>.
\<close>

theorem relaxation_ends:
  assumes "rx_reach redn (\<lambda>i. z) junk n iters tol s" and "redn_ok redn"
    and "K = (if tol \<le> 0 then min 1 (nat (iters - z)) else nat (iters - z))"
    and "N = n + 2 * (n - 1) * K + n * K + K + 2"
  shows "rs_steps s \<le> N \<and> ((\<exists>s'. rx_step redn (\<lambda>i. z) n s s') \<longleftrightarrow> rs_steps s < N) \<and>
    (rs_steps s = N \<longrightarrow> OutCall CkExit \<in> set (wg_out (rs_elem s 0)) \<and>
      (\<forall>i<n. wg_tasks (rs_elem s i) first_tid = None \<and> length (redns (wg_out (rs_elem s i))) = Suc K \<and>
        rs_wire s i = {#}))"
proof -
  let ?q = "par n iters tol z"
  have K: "rounds ?q = K" by (simp add: rounds_def assms(3))
  have inv: "rx_inv redn ?q s" by (rule reach_rx_inv [OF assms(1,2)])
  then have n: "0 < n" by (simp add: rx_inv_def)
  have N: "(\<Sum>i<q_n ?q. all_taken ?q i) + Suc (rounds ?q) = N"
    using all_taken_sum [of ?q] n K assms(4) by simp
  have le: "rs_steps t \<le> N" if "rx_inv redn ?q t" for t using steps_le [OF that] N by simp
  have more: "rs_steps s < N" if "rx_step redn (\<lambda>i. z) n s t" for t
  proof -
    have "rx_reach redn (\<lambda>i. z) junk n iters tol t"
      using assms(1) that unfolding rx_reach_def by (rule reach_step)
    moreover have "rs_steps t = Suc (rs_steps s)" using that by cases simp_all
    ultimately show ?thesis using le [of t] reach_rx_inv assms(2) by fastforce
  qed
  have stuck: "(\<forall>i<n. rs_wire s i = {#}) \<and> \<not> can_reduce n s" if no: "\<nexists>s'. rx_step redn (\<lambda>i. z) n s s'"
  proof (intro conjI allI impI)
    show "\<not> can_reduce n s" using no rx_reduce [of n s redn "\<lambda>i. z"] by blast
    fix i assume i: "i < n"
    show "rs_wire s i = {#}"
    proof (rule ccontr)
      assume "rs_wire s i \<noteq> {#}"
      then obtain ev where ev: "ev \<in># rs_wire s i" by blast
      obtain ph b f where "inv_at redn ?q s ph b f" using inv by (auto simp: rx_inv_def)
      from handled [OF this _ assms(2) ev] i
      obtain st where "wg_step rx_as_tid (relaxation_registry (int i) z) ev (rs_elem s i) = Inr st" by auto
      then show False using no rx_deliver [OF i ev, of "\<lambda>i. z" st redn] by blast
    qed
  qed
  have fin: "rs_steps s = N \<and> OutCall CkExit \<in> set (wg_out (rs_elem s 0)) \<and>
      (\<forall>i<n. wg_tasks (rs_elem s i) first_tid = None \<and> length (redns (wg_out (rs_elem s i))) = Suc K \<and> rs_wire s i = {#})"
    if no: "\<nexists>s'. rx_step redn (\<lambda>i. z) n s s'"
  proof -
    have w: "\<forall>i<q_n ?q. rs_wire s i = {#}" "\<not> can_reduce (q_n ?q) s" using stuck [OF no] by simp_all
    have "\<exists>b. elem_ok ?q i Gone b (rs_elem s i)" if "i < n" for i using stuck_end(2) [OF inv w] that by simp
    moreover have "length (redns (outs ?q i Gone)) = Suc K" for i
      using redns_nth(1) [of ?q i Gone] K by (simp add: phase_ok_def counts)
    ultimately have "\<forall>i<n. wg_tasks (rs_elem s i) first_tid = None \<and> length (redns (wg_out (rs_elem s i))) = Suc K"
      "OutCall CkExit \<in> set (wg_out (rs_elem s 0))"
      using n calls_outs(2) [of ?q 0 Gone] by (auto simp: elem_ok_def task_ok_def)
    then show ?thesis using stuck_end(1) [OF inv w] N w(1) by simp
  qed
  show ?thesis using le [OF inv] more fin by (metis less_irrefl order_le_imp_less_or_eq)
qed

section \<open>Instances\<close>

text \<open>Reductions as Charm++ documents them; \<open>pgm\<close>'s default bound and tolerance, on one processor.\<close>

definition demo_redn :: "nat \<Rightarrow> rx_data list \<Rightarrow> rx_data" where
  "demo_redn ty ds = (if ty = set_reducer then Indices (map (\<lambda>d. case d of Index x \<Rightarrow> x | _ \<Rightarrow> 0) ds) else hd ds)"

lemma demo_redn_ok: "redn_ok demo_redn"
  by (simp add: redn_ok_def demo_redn_def max_double_def set_reducer_def bitvec_and_int_def comp_def)

lemma relaxation_typed_witness:
  "\<exists>s. rx_main first_tid 4 100 (1 / 200) = Inr (first_tid, s) \<and>
    (\<forall>ev \<in># rs_wire s 3. \<exists>st. wg_step rx_as_tid (relaxation_registry 3 0) ev (rs_elem s 3) = Inr st)"
proof -
  obtain s where s: "rx_main first_tid 4 100 (1 / 200) = Inr (first_tid, s)" using main_exists by fastforce
  have r: "rx_reach demo_redn (\<lambda>i. 0) first_tid 4 100 (1 / 200) s"
    unfolding rx_reach_def by (rule reach_init) (use s in blast)
  have "(3::nat) < 4" by simp
  from relaxation_typed [OF r demo_redn_ok this] s show ?thesis by auto
qed

lemma relaxation_ends_witness:
  "\<exists>s. rx_main first_tid 4 100 (1 / 200) = Inr (first_tid, s) \<and> (\<exists>s'. rx_step demo_redn (\<lambda>i. 0) 4 s s')"
proof -
  obtain s where s: "rx_main first_tid 4 100 (1 / 200) = Inr (first_tid, s)" using main_exists by fastforce
  have r: "rx_reach demo_redn (\<lambda>i. 0) first_tid 4 100 (1 / 200) s"
    unfolding rx_reach_def by (rule reach_init) (use s in blast)
  show ?thesis using relaxation_ends [OF r demo_redn_ok refl refl] s main_start(4) [OF s] by auto
qed

end
