(* ===== verification/Relaxation_Uneven.thy ===== *)
theory Relaxation_Uneven
  imports Relaxation_Ends
begin

text \<open>
  The relaxation program when the tasks start from different values of \<open>it\<close>, which no constructor sets: if some
  task makes an iteration and a neighbour makes none, every run hangs.
\<close>

section \<open>The invariant\<close>

text \<open>
  \<open>it0 k\<close> is what task \<open>k\<close> finds in \<open>it\<close>. As long as no reduction is complete, every task is in its first
  iteration or made none; what is on its way follows from the phases as before, each with its own start.
\<close>

definition uneven_at ::
  "(nat \<Rightarrow> rx_par) \<Rightarrow> nat \<Rightarrow> rx_sys \<Rightarrow> (nat \<Rightarrow> rx_phase) \<Rightarrow> (nat \<Rightarrow> nat) \<Rightarrow> (nat \<Rightarrow> nat) \<Rightarrow> bool" where
  "uneven_at Q n s ph b f \<longleftrightarrow> rs_done s = 0 \<and> rs_steps s = (\<Sum>k<n. taken_by (Q k) k (ph k) (b k)) \<and>
     (\<forall>k<n. elem_ok (Q k) k (ph k) (b k) (rs_elem s k) \<and> phase_ok (Q k) k (ph k) \<and>
        (\<forall>a g. ph k = Ghosts a g \<longrightarrow> b k = 0) \<and> heard (Q k) (ph k) = 0 \<and> (k = 0 \<longrightarrow> ph k \<noteq> Gone) \<and>
        rs_wire s k = inbox (\<lambda>ty. hd) (Q k) k 0 (ph k) (f k) \<and>
        b k + f k + used (Q k) k (ph k) = (\<Sum>m<n. of_bool (adjacent m k) * sent (Q m) (ph m)))"

lemma unevenD:
  assumes "uneven_at Q n s ph b f" and "k < n"
  shows "elem_ok (Q k) k (ph k) (b k) (rs_elem s k)" "phase_ok (Q k) k (ph k)" "ph k = Ghosts a g \<Longrightarrow> b k = 0"
    "heard (Q k) (ph k) = 0" "k = 0 \<Longrightarrow> ph k \<noteq> Gone" "rs_wire s k = inbox (\<lambda>ty. hd) (Q k) k 0 (ph k) (f k)"
    "b k + f k + used (Q k) k (ph k) = (\<Sum>m<n. of_bool (adjacent m k) * sent (Q m) (ph m))"
  using assms unfolding uneven_at_def by blast+

lemma inbox_start: "inbox redn q i 0 ph f = replicate_mset f (ghost_msg q) + (if ph = Absent then {#new_msg q#} else {#})"
  by (simp add: inbox_def)

text \<open>What one delivery does to an element.\<close>

lemma uneven_handled:
  assumes I: "uneven_at (\<lambda>k. par n iters tol (it0 k)) n s ph b f" and k: "k < n" and ev: "ev \<in># rs_wire s k"
  shows "\<exists>st p' b' f'. wg_step rx_as_tid (relaxation_registry (int k) (it0 k)) ev (rs_elem s k) = Inr st \<and>
    elem_ok (par n iters tol (it0 k)) k p' b' st \<and>
    advances (\<lambda>ty. hd) (par n iters tol (it0 k)) k 0 (ph k) (b k) (f k) ev p' b' f' \<and> (k = 0 \<longrightarrow> p' \<noteq> Gone)"
proof -
  let ?q = "par n iters tol (it0 k)"
  note D = unevenD [OF I k]
  consider (ghost) f' where "ev = ghost_msg ?q" "f k = Suc f'" | (new) "ev = new_msg ?q" "ph k = Absent"
    using ev unfolding D(6) inbox_start by (cases "f k") (auto split: if_splits)
  then show ?thesis
  proof cases
    case (ghost f')
    obtain p' b' where p: "eat ?q k (ph k) (Suc (b k)) = (p', b')" by fastforce
    have "advances (\<lambda>ty. hd) ?q k 0 (ph k) (b k) (Suc f') (ghost_msg ?q) p' b' f'"
      using ghost_advances [OF D(2) _ _ p] D(4,5) by simp
    moreover have "p' = Gone \<longleftrightarrow> ph k = Gone" using eat_facts(7) [OF D(2) p] .
    moreover obtain st where "wg_step rx_as_tid (relaxation_registry (int k) (it0 k)) ev (rs_elem s k) = Inr st"
      "elem_ok ?q k p' b' st"
      using ghost_arrives [where z = "it0 k", OF D(1,2,3)] p unfolding ghost(1) ghost_msg_def by fastforce
    ultimately show ?thesis unfolding ghost using ghost(1) D(5) by fastforce
  next
    case new
    obtain p' b' where p: "eat ?q k (begin_round ?q k 0) (b k) = (p', b')" by fastforce
    have g: "k = 0 \<Longrightarrow> p' \<noteq> Gone" using begin_eat_facts(6) [OF le0 refl p] by simp
    show ?thesis
      using create_arrives [OF D(1) [unfolded new(2)]] new_advances [OF p, of "\<lambda>ty. hd" 0 "f k"] p g
      unfolding new(1) new(2) new_msg_def [symmetric] by fastforce
  qed
qed

lemma uneven_deliver:
  assumes I: "uneven_at (\<lambda>k. par n iters tol (it0 k)) n s ph b f" and i: "i < n" and ev: "ev \<in># rs_wire s i"
    and e: "elem_ok (par n iters tol (it0 i)) i p' b' st" and g: "i = 0 \<longrightarrow> p' \<noteq> Gone"
    and a: "advances (\<lambda>ty. hd) (par n iters tol (it0 i)) i 0 (ph i) (b i) (f i) ev p' b' f'"
  defines "d \<equiv> sent (par n iters tol (it0 i)) p' - sent (par n iters tol (it0 i)) (ph i)"
  shows "uneven_at (\<lambda>k. par n iters tol (it0 k)) n (s\<lparr>rs_elem := (rs_elem s)(i := st),
      rs_wire := (\<lambda>j. ((rs_wire s)(i := rs_wire s i - {#ev#})) j
        + mset (msgs_to j (drop (length (wg_out (rs_elem s i))) (wg_out st)))),
      rs_steps := Suc (rs_steps s)\<rparr>) (ph(i := p')) (b(i := b'))
    (\<lambda>j. (f(i := f')) j + of_bool (adjacent i j) * d)"
proof -
  let ?q = "\<lambda>k. par n iters tol (it0 k)"
  let ?w = "\<lambda>j. ((rs_wire s)(i := rs_wire s i - {#ev#})) j
        + mset (msgs_to j (drop (length (wg_out (rs_elem s i))) (wg_out st)))"
  note D = unevenD [OF I i]
  have mv: "moves (?q i) i (ph i) p'" and A: "\<And>a g. p' = Ghosts a g \<Longrightarrow> b' = 0"
    "b' + f' + used (?q i) i p' = b i + f i + used (?q i) i (ph i)" "heard (?q i) p' = 0"
    "rs_wire s i - {#ev#} = inbox (\<lambda>ty. hd) (?q i) i 0 p' f'"
    "taken_by (?q i) i p' b' = Suc (taken_by (?q i) i (ph i) (b i))"
    using a D(6) by (simp_all add: advances_def)
  have o: "wg_out (rs_elem s i) = outs (?q i) i (ph i)" "wg_out st = outs (?q i) i p'"
    using D(1) e by (simp_all add: elem_ok_def)
  have ghost: "ghost_msg (?q k) = ghost_msg (?q 0)" for k by (simp add: ghost_msg_def)
  have new: "msgs_to j (drop (length (wg_out (rs_elem s i))) (wg_out st))
      = replicate (of_bool (adjacent i j) * d) (ghost_msg (?q j))" if "j < n" for j
    using new_msgs [OF mv D(2), of j] i that by (simp add: o d_def ghost [of i] ghost [of j])
  have ni: "\<not> adjacent i i" by (simp add: adjacent_def)
  have up: "sent (?q i) p' = sent (?q i) (ph i) + d" using mv by (simp add: moves_def d_def)
  have sum: "(\<Sum>m<n. of_bool (adjacent m j) * sent (?q m) ((ph(i := p')) m))
      = (\<Sum>m<n. of_bool (adjacent m j) * sent (?q m) (ph m)) + of_bool (adjacent i j) * d" for j
    using i up by (intro sum_update [of i]) (auto simp flip: distrib_left)
  have wire: "?w j = inbox (\<lambda>ty. hd) (?q j) j 0 ((ph(i := p')) j) ((f(i := f')) j + of_bool (adjacent i j) * d)" if j: "j < n" for j
    using A(4) unevenD(6) [OF I j] new [OF j] by (cases "j = i") (simp_all add: inbox_more)
  show ?thesis
    unfolding uneven_at_def
  proof (intro conjI allI impI)
    show "rs_steps (s\<lparr>rs_elem := (rs_elem s)(i := st), rs_wire := ?w, rs_steps := Suc (rs_steps s)\<rparr>)
        = (\<Sum>k<n. taken_by (?q k) k ((ph(i := p')) k) ((b(i := b')) k))"
      using I i A(5) sum_update [of i n "\<lambda>k. taken_by (?q k) k ((ph(i := p')) k) ((b(i := b')) k)"
        "\<lambda>k. taken_by (?q k) k (ph k) (b k)" 1] by (simp add: uneven_at_def)
    fix j assume j: "j < n"
    show "(b(i := b')) j + ((f(i := f')) j + of_bool (adjacent i j) * d) + used (?q j) j ((ph(i := p')) j)
        = (\<Sum>m<n. of_bool (adjacent m j) * sent (?q m) ((ph(i := p')) m))"
      using A(2) D(7) unevenD(7) [OF I j] ni unfolding sum by (cases "j = i") simp_all
    show "(b(i := b')) j = 0" if "(ph(i := p')) j = Ghosts a g" for a g
      using that A(1) unevenD(3) [OF I j] by (cases "j = i") auto
    show "phase_ok (?q j) j ((ph(i := p')) j)" using mv unevenD(2) [OF I j] by (cases "j = i") (simp_all add: moves_def)
    show "(ph(i := p')) j \<noteq> Gone" if "j = 0" using g unevenD(5) [OF I j that] by (cases "j = i") (use that in simp_all)
  qed (use I A(3) e wire unevenD(1,4) [OF I] in \<open>simp_all add: uneven_at_def\<close>)
qed


lemma uneven_start:
  assumes "rx_main junk n iters tol = Inr (tid, s)"
  shows "uneven_at (\<lambda>k. par n iters tol (it0 k)) n s (\<lambda>k. Absent) (\<lambda>k. 0) (\<lambda>k. 0)"
proof -
  note M = main_start [OF assms]
  show ?thesis
    unfolding uneven_at_def using M(3,4) M(5) M(6) [where z = "it0 _"]
    by (simp add: inbox_start counts taken_by_def phase_ok_def)
qed

text \<open>
  A task \<open>i\<close> that makes an iteration, beside a task \<open>j\<close> that makes none, never has all its ghosts, so it
  contributes to no reduction.
\<close>

lemma uneven_waits:
  assumes I: "uneven_at (\<lambda>k. par n iters tol (it0 k)) n s ph b f" and i: "i < n" and j: "j < n" "adjacent i j"
    and z: "it0 i < iters" "iters \<le> it0 j"
  shows "ph i = Absent \<or> (\<exists>g. ph i = Ghosts 1 g)"
proof -
  let ?q = "\<lambda>k. par n iters tol (it0 k)"
  note D = unevenD [OF I i]
  have r: "rounds (?q i) \<noteq> 0" "rounds (?q j) = 0" using z by (simp_all add: rounds_def)
  have s1: "sent (?q m) (ph m) \<le> 1" if "m < n" for m
    using unevenD(2,4) [OF I that] by (cases "ph m") (auto simp: counts phase_ok_def)
  have "sent (?q j) (ph j) = 0" using unevenD(2) [OF I j(1)] r(2) by (cases "ph j") (auto simp: counts phase_ok_def)
  then have "of_bool (adjacent j i) * sent (?q j) (ph j) < (of_bool (adjacent j i) :: nat)"
    using j(2) by (auto simp: adjacent_def)
  moreover have "of_bool (adjacent m i) * sent (?q m) (ph m) \<le> (of_bool (adjacent m i) :: nat)" if "m < n" for m
    using s1 [OF that] by (cases "adjacent m i") simp_all
  ultimately have "(\<Sum>m<n. of_bool (adjacent m i) * sent (?q m) (ph m)) < (\<Sum>m<n. of_bool (adjacent m i) :: nat)"
    using j(1) by (intro sum_strict_mono_ex1) auto
  then have "used (?q i) i (ph i) < nbrs (?q i) i" using D(7) nbrs_sum [of i "?q i"] i by simp
  then show ?thesis using D(2,4) r(1) by (cases "ph i") (auto simp: counts phase_ok_def)
qed

lemma uneven_bound:
  assumes I: "uneven_at (\<lambda>k. par n iters tol (it0 k)) n s ph b f" and n: "0 < n"
  shows "rs_steps s \<le> n + 2 * (n - 1)"
proof -
  let ?q = "\<lambda>k. par n iters tol (it0 k)" and ?p = "par n iters tol 0"
  have "taken_by (?q k) k (ph k) (b k) \<le> 1 + nbrs ?p k" if k: "k < n" for k
  proof -
    note D = unevenD [OF I k]
    have "sent (?q m) (ph m) \<le> 1" if "m < n" for m
      using unevenD(2,4) [OF I that] by (cases "ph m") (auto simp: counts phase_ok_def)
    then have "(\<Sum>m<n. of_bool (adjacent m k) * sent (?q m) (ph m)) \<le> (\<Sum>m<n. of_bool (adjacent m k) :: nat)"
      by (intro sum_mono) auto
    then have "b k + used (?q k) k (ph k) \<le> nbrs ?p k" using D(7) nbrs_sum [of k ?p] k by simp
    moreover have "of_bool (k = 0 \<and> ph k = Gone) = (0::nat)" "of_bool (ph k \<noteq> Absent) \<le> (1::nat)" using D(5) by auto
    ultimately show ?thesis using D(4) unfolding taken_by_def by linarith
  qed
  then have "(\<Sum>k<n. taken_by (?q k) k (ph k) (b k)) \<le> (\<Sum>k<n. 1 + nbrs ?p k)" by (intro sum_mono) simp
  also have "\<dots> = n + 2 * (n - 1)" using nbrs_total [of ?p] n unfolding sum.distrib by simp
  finally show ?thesis using I by (simp add: uneven_at_def)
qed

definition stalls :: "(nat \<Rightarrow> int) \<Rightarrow> nat \<Rightarrow> int \<Rightarrow> rat \<Rightarrow> rx_sys \<Rightarrow> bool" where
  "stalls it0 n iters tol s \<longleftrightarrow> 0 < n \<and> (\<exists>ph b f. uneven_at (\<lambda>k. par n iters tol (it0 k)) n s ph b f)"

lemma stalls_step:
  assumes z: "\<exists>i j. i < n \<and> j < n \<and> adjacent i j \<and> it0 i < iters \<and> iters \<le> it0 j"
    and s: "stalls it0 n iters tol s" and st: "rx_step redn it0 n s t"
  shows "stalls it0 n iters tol t"
proof -
  let ?q = "\<lambda>k. par n iters tol (it0 k)"
  obtain ph b f where I: "uneven_at ?q n s ph b f" and n: "0 < n" using s by (auto simp: stalls_def)
  obtain i j where ij: "i < n" "j < n" "adjacent i j" "it0 i < iters" "iters \<le> it0 j" using z by blast
  show ?thesis
    using st
  proof cases
    case (rx_deliver k e st)
    obtain st' p' b' f' where h: "wg_step rx_as_tid (relaxation_registry (int k) (it0 k)) e (rs_elem s k) = Inr st'"
      "elem_ok (?q k) k p' b' st'" "advances (\<lambda>ty. hd) (?q k) k 0 (ph k) (b k) (f k) e p' b' f'" "k = 0 \<longrightarrow> p' \<noteq> Gone"
      using uneven_handled [OF I rx_deliver(2,3)] by blast
    then have "st' = st" using rx_deliver(4) by simp
    then show ?thesis
      using uneven_deliver [OF I rx_deliver(2,3) h(2,4,3)] n unfolding stalls_def rx_deliver(1) by blast
  next
    case rx_reduce
    have "given (?q i) (ph i) = 0" using uneven_waits [OF I ij] by (auto simp: counts)
    then have "redns (wg_out (rs_elem s i)) = []"
      using unevenD(1,2) [OF I ij(1)] redns_nth(1) [of "?q i" i "ph i"] by (simp add: elem_ok_def)
    then show ?thesis using rx_reduce(2) ij(1) by (auto simp: can_reduce_def)
  qed
qed

interpretation uneven_safety: safety "\<lambda>s. \<exists>tid. rx_main junk n iters tol = Inr (tid, s)" "rx_step redn it0 n"
    "\<lambda>s. (\<exists>i j. i < n \<and> j < n \<and> adjacent i j \<and> it0 i < iters \<and> iters \<le> it0 j) \<longrightarrow> stalls it0 n iters tol s"
    for junk n iters tol redn it0
proof
  fix s assume "\<exists>tid. rx_main junk n iters tol = Inr (tid, s)"
  then show "(\<exists>i j. i < n \<and> j < n \<and> adjacent i j \<and> it0 i < iters \<and> iters \<le> it0 j) \<longrightarrow> stalls it0 n iters tol s"
    using uneven_start main_start(1) unfolding stalls_def by blast
qed (use stalls_step in blast)

text \<open>
  C28. The constructor does not set \<open>it\<close>, so each task starts from what lies there. If that is below \<open>maxIters\<close> in some
  task \<open>i\<close> and not below it in a neighbour \<open>j\<close>, then the program hangs: in every run, whatever the order of
  delivery, no task calls \<open>CkExit\<close> and no reduction is ever complete, the run ends after at most
  \<open>n + 2 (n - 1)\<close> deliveries, and when nothing more can happen task \<open>i\<close> waits for a ghost.
\<close>

theorem uninitialised_iteration_hangs:
  assumes "rx_reach redn it0 junk n iters tol s"
    and "i < n" and "j < n" and "adjacent i j" and "it0 i < iters" and "iters \<le> it0 j"
  shows "(\<forall>k<n. OutCall CkExit \<notin> set (wg_out (rs_elem s k))) \<and> rs_done s = 0 \<and> rs_steps s \<le> n + 2 * (n - 1) \<and>
    ((\<nexists>s'. rx_step redn it0 n s s') \<longrightarrow>
      (\<exists>t. wg_tasks (rs_elem s i) first_tid = Some t \<and> tb_active t \<and> tb_cont t = Some receive_ghost_id))"
proof -
  let ?q = "\<lambda>k. par n iters tol (it0 k)"
  have "stalls it0 n iters tol s"
    using uneven_safety.reach_inv assms unfolding rx_reach_def by blast
  then obtain ph b f where I: "uneven_at ?q n s ph b f" and n: "0 < n" by (auto simp: stalls_def)
  have "OutCall CkExit \<notin> set (wg_out (rs_elem s k))" if "k < n" for k
    using unevenD(1,5) [OF I that] calls_outs(2) [of "?q k" k "ph k"] by (auto simp: elem_ok_def)
  moreover have "\<exists>t. wg_tasks (rs_elem s i) first_tid = Some t \<and> tb_active t \<and> tb_cont t = Some receive_ghost_id"
    if no: "\<nexists>s'. rx_step redn it0 n s s'"
  proof -
    have "ph i \<noteq> Absent"
    proof
      assume "ph i = Absent"
      then have ev: "new_msg (?q i) \<in># rs_wire s i" using unevenD(6) [OF I assms(2)] by (simp add: inbox_start)
      obtain st where "wg_step rx_as_tid (relaxation_registry (int i) (it0 i)) (new_msg (?q i)) (rs_elem s i) = Inr st"
        using uneven_handled [OF I assms(2) ev] by blast
      then show False using no rx_deliver [OF assms(2) ev] by blast
    qed
    then obtain g where "ph i = Ghosts 1 g" using uneven_waits [OF I assms(2-6)] by blast
    then show ?thesis using unevenD(1) [OF I assms(2)] by (simp add: elem_ok_def task_ok_def waiting_def)
  qed
  ultimately show ?thesis using I uneven_bound [OF I n] by (simp add: uneven_at_def)
qed

section \<open>An instance\<close>

lemma uneven_ends:
  assumes "rx_reach redn it0 junk n iters tol s" and "stalls it0 n iters tol s"
    and z: "\<exists>i j. i < n \<and> j < n \<and> adjacent i j \<and> it0 i < iters \<and> iters \<le> it0 j"
  shows "\<exists>t. rx_reach redn it0 junk n iters tol t \<and> (\<nexists>u. rx_step redn it0 n t u)"
  using assms(1,2)
proof (induction "n + 2 * (n - 1) - rs_steps s" arbitrary: s rule: less_induct)
  case less
  show ?case
  proof (cases "\<exists>u. rx_step redn it0 n s u")
    case True
    then obtain u where u: "rx_step redn it0 n s u" by blast
    have st: "stalls it0 n iters tol u" by (rule stalls_step [OF z less.prems(2) u])
    have "rs_steps u = Suc (rs_steps s)" using u by cases simp_all
    moreover have "rs_steps u \<le> n + 2 * (n - 1)" using st uneven_bound unfolding stalls_def by blast
    ultimately have "n + 2 * (n - 1) - rs_steps u < n + 2 * (n - 1) - rs_steps s" by simp
    then show ?thesis using less.hyps st less.prems(1) u unfolding rx_reach_def by (blast intro: reach_step)
  qed (use less.prems(1) in blast)
qed

text \<open>\<open>pgm\<close>'s bound and tolerance with four tasks; task 2 finds 100 in \<open>it\<close> and the others find 0.\<close>

lemma uninitialised_iteration_hangs_witness:
  "\<exists>s. rx_reach demo_redn ((\<lambda>k. 0)(2 := 100)) first_tid 4 100 (1 / 200) s \<and>
    (\<nexists>s'. rx_step demo_redn ((\<lambda>k. 0)(2 := 100)) 4 s s') \<and> (\<forall>k<4. OutCall CkExit \<notin> set (wg_out (rs_elem s k))) \<and>
    rs_steps s \<le> 10 \<and> (\<exists>t. wg_tasks (rs_elem s 1) first_tid = Some t \<and> tb_cont t = Some receive_ghost_id)"
proof -
  let ?it = "(\<lambda>k :: nat. 0)(2 := 100 :: int)"
  obtain s where s: "rx_main first_tid 4 100 (1 / 200) = Inr (first_tid, s)" using main_exists by fastforce
  have r: "rx_reach demo_redn ?it first_tid 4 100 (1 / 200) s"
    unfolding rx_reach_def by (rule reach_init) (use s in blast)
  have st: "stalls ?it 4 100 (1 / 200) s" using uneven_start [OF s, of ?it] unfolding stalls_def by auto
  have c: "(1::nat) < 4" "(2::nat) < 4" "adjacent 1 2" "?it 1 < 100" "100 \<le> ?it 2" by (simp_all add: adjacent_def)
  have "\<exists>i j. i < 4 \<and> j < 4 \<and> adjacent i j \<and> ?it i < 100 \<and> 100 \<le> ?it j" using c by blast
  from uneven_ends [OF r st this]
  obtain t where t: "rx_reach demo_redn ?it first_tid 4 100 (1 / 200) t" "\<nexists>u. rx_step demo_redn ?it 4 t u" by blast
  note H = uninitialised_iteration_hangs [OF t(1) c]
  then obtain u where "wg_tasks (rs_elem t 1) first_tid = Some u" "tb_cont u = Some receive_ghost_id" using t(2) by blast
  moreover have "rs_steps t \<le> 10" using H by simp
  ultimately show ?thesis using H t by blast
qed

end
