(* ===== verification/Charm_Core.thy ===== *)
theory Charm_Core
  imports Charm_Msg
begin

text \<open>
  The delivery of messages on one PE: \<open>archive/charmlite\<close>, \<open>core.cc\<close>, \<open>collective.hh\<close>, \<open>locmgr.hh\<close>
  and \<open>chare.hh\<close>. The functions call each other and the user's entry methods recursively - a
  method that sends to a local chare is back in \<open>deliver\<close> before it returns - so the model is an
  abstract machine: a state of the PE and a stack of the calls that are still to be made. One
  step pops a call, changes the state and pushes the calls its body makes, in order.
\<close>

section \<open>The environment\<close>

text \<open>
  What an entry method may call. A method is a list of segments: each reads and updates the
  chare's data and makes calls; the calls are finished before the next segment starts.
\<close>

datatype 'b action =
    ADeliver "'b msg"
  | ASend "'b msg"
  | AReduce "'b msg"
  | AExit "'b msg"

type_synonym ('u, 'b) segments = "('u \<Rightarrow> 'u \<times> 'b action list) list"

text \<open>A constructor gives the chare's data first (\<open>en_init\<close>).\<close>

record ('u, 'b) entry_fn =
  en_init :: "'b msg \<Rightarrow> 'u"
  en_body :: "'b msg \<Rightarrow> ('u, 'b) segments"

datatype mapper = Default_mapper | Group_mapper

text \<open>Converse's PE numbers and spanning tree, and the tables.\<close>

record ('u, 'b) env =
  my_pe :: nat
  num_pes :: nat
  span_children :: "nat \<Rightarrow> nat list"
  span_parent :: "nat \<Rightarrow> nat option"
  entries :: "(('u, 'b) entry_fn \<times> bool) list"
  kinds :: "mapper list"
  callbacks :: "('b msg \<Rightarrow> 'b action list) list"

section \<open>The location manager\<close>

definition pe_for :: "('u, 'b) env \<Rightarrow> u64 \<Rightarrow> nat" where
  "pe_for E idx = unat idx mod num_pes E"

definition loc_root :: "('u, 'b) env \<Rightarrow> mapper \<Rightarrow> u64 res" where
  "loc_root E mp = (case mp of
       Default_mapper \<Rightarrow> Inl Aborted
     | Group_mapper \<Rightarrow> bind_res (check (span_parent E 0 = None)) (\<lambda>_. Inr 0))"

text \<open>
  The vector has as many elements as the PE of \<open>idx\<close> has children, and is filled with the children
  of the PE that runs the code.
\<close>

definition upstream :: "('u, 'b) env \<Rightarrow> mapper \<Rightarrow> u64 \<Rightarrow> u64 list res" where
  "upstream E mp idx = (case mp of
       Default_mapper \<Rightarrow> Inl Aborted
     | Group_mapper \<Rightarrow>
         (let n_children = length (span_children E (pe_for E idx)); kids = span_children E (my_pe E)
          in if n_children = 0 then Inr []
             else if length kids > n_children then Inl OutOfBounds
             else Inr (map of_nat (kids @ replicate (n_children - length kids) 0))))"

definition downstream :: "('u, 'b) env \<Rightarrow> mapper \<Rightarrow> u64 \<Rightarrow> u64 list res" where
  "downstream E mp idx = (case mp of
       Default_mapper \<Rightarrow> Inl Aborted
     | Group_mapper \<Rightarrow> (case span_parent E (pe_for E idx) of
           None \<Rightarrow> Inr [] | Some p \<Rightarrow> Inr [of_nat p]))"

section \<open>Chares, collectives and the PE\<close>

record 'u chare =
  ch_parent :: collective_index
  ch_index :: u64
  ch_last :: u16
  ch_user :: 'u

text \<open>A buffer that does not exist and an empty one behave alike everywhere; both are \<open>[]\<close>.\<close>

record ('u, 'b) coll =
  co_mapper :: mapper
  co_buffers :: "u64 \<Rightarrow> 'b msg list"
  co_chares :: "u64 \<Rightarrow> 'u chare option"

definition new_coll :: "mapper \<Rightarrow> ('u, 'b) coll" where
  "new_coll mp = \<lparr>co_mapper = mp, co_buffers = (\<lambda>_. []), co_chares = Map.empty\<rparr>"

datatype 'b net =
    NSend nat "'b msg"
  | NPush "'b msg"
  | NBcast "'b msg"
  | NBcastAll "'b msg"
  | NReduce "'b msg"

text \<open>
  \<open>pe_out\<close> is what was given to Converse. \<open>pe_log\<close> is a history variable: the entry methods
  invoked, with chare and message.
\<close>

record ('u, 'b) pe =
  pe_cols :: "collective_index \<Rightarrow> ('u, 'b) coll option"
  pe_waiting :: "collective_index \<Rightarrow> 'b msg list"
  pe_count :: u32
  pe_out :: "'b net list"
  pe_exit :: bool
  pe_log :: "(collective_index \<times> u64 \<times> 'b msg) list"

definition new_pe :: "('u, 'b) pe" where
  "new_pe = \<lparr>pe_cols = Map.empty, pe_waiting = (\<lambda>_. []), pe_count = 0, pe_out = [],
     pe_exit = False, pe_log = []\<rparr>"

definition lookup_col :: "collective_index \<Rightarrow> ('u, 'b) pe \<Rightarrow> ('u, 'b) coll res" where
  "lookup_col c st = (case pe_cols st c of None \<Rightarrow> Inl BadPointer | Some co \<Rightarrow> Inr co)"

definition lookup_chare :: "u64 \<Rightarrow> ('u, 'b) coll \<Rightarrow> 'u chare res" where
  "lookup_chare idx co = (case co_chares co idx of None \<Rightarrow> Inl BadPointer | Some ch \<Rightarrow> Inr ch)"

definition put_col :: "collective_index \<Rightarrow> ('u, 'b) coll \<Rightarrow> ('u, 'b) pe \<Rightarrow> ('u, 'b) pe" where
  "put_col c co st = st\<lparr>pe_cols := (pe_cols st)(c \<mapsto> co)\<rparr>"

definition put_chare :: "u64 \<Rightarrow> 'u chare \<Rightarrow> ('u, 'b) coll \<Rightarrow> ('u, 'b) coll" where
  "put_chare idx ch co = co\<lparr>co_chares := (co_chares co)(idx \<mapsto> ch)\<rparr>"

definition put_buffer :: "u64 \<Rightarrow> 'b msg list \<Rightarrow> ('u, 'b) coll \<Rightarrow> ('u, 'b) coll" where
  "put_buffer idx ms co = co\<lparr>co_buffers := (co_buffers co)(idx := ms)\<rparr>"

definition emit :: "'b net list \<Rightarrow> ('u, 'b) pe \<Rightarrow> ('u, 'b) pe" where
  "emit ns st = st\<lparr>pe_out := pe_out st @ ns\<rparr>"

definition send_helper :: "('u, 'b) env \<Rightarrow> nat \<Rightarrow> 'b msg \<Rightarrow> 'b net" where
  "send_helper E p m = (if p = my_pe E then NPush m else NSend p m)"

section \<open>Calls\<close>

datatype ('u, 'b) job =
    JDeliver "'b msg"
  | JSend "'b msg"
  | JAct "'b action"
  | JEndpoint bool "'b msg"
  | JDrain bool collective_index
  | JCol bool collective_index "'b msg"
  | JHandle collective_index u64 "(('u, 'b) entry_fn \<times> bool) option" "'b msg"
  | JFlush collective_index u64
  | JPop collective_index u64 "'b msg"
  | JBody collective_index u64 "('u, 'b) segments"

type_synonym ('u, 'b) outcome = "(('u, 'b) pe \<times> ('u, 'b) job list) res"

text \<open>\<open>rec->fn_\<close> on a chare: a constructor sets the data and, as a member initialiser, \<open>last_bcast_\<close>.\<close>

definition invoke_entry ::
  "collective_index \<Rightarrow> u64 \<Rightarrow> (('u, 'b) entry_fn \<times> bool) option \<Rightarrow> 'u chare \<Rightarrow> 'b msg \<Rightarrow> ('u, 'b) pe
    \<Rightarrow> ('u, 'b) outcome" where
  "invoke_entry c idx rec ch m st = (case rec of
       None \<Rightarrow> Inl BadPointer
     | Some (e, is_ctor) \<Rightarrow>
         bind_res (lookup_col c st) (\<lambda>co.
           let ch1 = (if is_ctor then ch\<lparr>ch_last := 0, ch_user := en_init e m\<rparr> else ch)
           in Inr ((put_col c (put_chare idx ch1 co) st)\<lparr>pe_log := pe_log st @ [(c, idx, m)]\<rparr>,
                   [JBody c idx (en_body e m)])))"

definition buffer_msg :: "collective_index \<Rightarrow> 'b msg \<Rightarrow> ('u, 'b) pe \<Rightarrow> ('u, 'b) pe res" where
  "buffer_msg c m st =
     bind_res (lookup_col c st) (\<lambda>co. bind_res (endpoint_of (m_dst m)) (\<lambda>ep.
       Inr (put_col c (put_buffer (ep_chare ep) (co_buffers co (ep_chare ep) @ [m]) co) st)))"

text \<open>\<open>try_deliver\<close>: \<open>None\<close> where it returns \<open>false\<close>; otherwise it makes the calls and returns \<open>true\<close>.\<close>

definition try_deliver ::
  "('u, 'b) env \<Rightarrow> collective_index \<Rightarrow> 'b msg \<Rightarrow> ('u, 'b) pe
    \<Rightarrow> (('u, 'b) pe \<times> ('u, 'b) job list) option res" where
  "try_deliver E c m st =
     bind_res (lookup_col c st) (\<lambda>co.
     bind_res (endpoint_of (m_dst m)) (\<lambda>ep.
     bind_res (called (entry_at (entries E) (ep_entry ep))) (\<lambda>rec.
       let idx = ep_chare ep; p = pe_for E idx
       in if snd rec \<and> p = my_pe E then
            (if co_chares co idx \<noteq> None then Inl BadPointer
             else let ch = \<lparr>ch_parent = c, ch_index = idx, ch_last = 0, ch_user = en_init (fst rec) m\<rparr>
               in bind_res (invoke_entry c idx (Some rec) ch m st) (\<lambda>(st1, js).
                    Inr (Some (st1, js @ [JFlush c idx]))))
          else (case co_chares co idx of
              None \<Rightarrow> if p = my_pe E then Inr None else Inr (Some (emit [NSend p m] st, []))
            | Some ch \<Rightarrow> Inr (Some (st, [JHandle c idx (Some rec) m]))))))"

definition set_bcast :: "u64 \<Rightarrow> u16 \<Rightarrow> 'b msg \<Rightarrow> 'b msg" where
  "set_bcast ch b m = m\<lparr>m_dst := (m_dst m)\<lparr>d_w1 := ch, d_bc := b\<rparr>\<rparr>"

definition deliver_now :: "('u, 'b) env \<Rightarrow> collective_index \<Rightarrow> 'b msg \<Rightarrow> ('u, 'b) pe \<Rightarrow> ('u, 'b) outcome" where
  "deliver_now E c m st =
     bind_res (lookup_col c st) (\<lambda>co.
     bind_res (endpoint_of (m_dst m)) (\<lambda>ep.
       if ep_chare ep = chare_bcast_root then
         bind_res (loc_root E (co_mapper co)) (\<lambda>root.
           case co_chares co root of
             None \<Rightarrow> Inr (emit [send_helper E (pe_for E root) m] st, [])
           | Some obj \<Rightarrow>
               bind_res (entry_at (entries E) (ep_entry ep)) (\<lambda>rec.
                 Inr (st, [JHandle c root rec (set_bcast root (ch_last obj + 1) m)])))
       else bind_res (try_deliver E c m st) (\<lambda>r.
         case r of
           None \<Rightarrow> bind_res (buffer_msg c m st) (\<lambda>st1. Inr (st1, []))
         | Some x \<Rightarrow> Inr x)))"

definition deliver_later :: "('u, 'b) env \<Rightarrow> 'b msg \<Rightarrow> 'b net res" where
  "deliver_later E m =
     bind_res (endpoint_of (m_dst m)) (\<lambda>ep. Inr (send_helper E (pe_for E (ep_chare ep)) m))"

definition clone_to :: "u64 \<Rightarrow> 'b msg \<Rightarrow> 'b msg" where
  "clone_to child m = m\<lparr>m_dst := (m_dst m)\<lparr>d_w1 := child\<rparr>\<rparr>"

text \<open>
  \<open>handle_\<close>. The broadcast number is compared with \<open>last_bcast_ + 1\<close> as an \<open>int\<close>; the increment is
  done in 16 bits.
\<close>

definition handle_msg ::
  "('u, 'b) env \<Rightarrow> collective_index \<Rightarrow> u64 \<Rightarrow> (('u, 'b) entry_fn \<times> bool) option \<Rightarrow> 'b msg \<Rightarrow> ('u, 'b) pe
    \<Rightarrow> ('u, 'b) outcome" where
  "handle_msg E c k rec m st =
     bind_res (lookup_col c st) (\<lambda>co.
     bind_res (lookup_chare k co) (\<lambda>ch.
       if is_broadcast (m_dst m) then
         bind_res (endpoint_of (m_dst m)) (\<lambda>ep.
           if unat (ep_bcast ep) = unat (ch_last ch) + 1 then
             let idx = ch_index ch; ch1 = ch\<lparr>ch_last := ch_last ch + 1\<rparr>
             in bind_res (upstream E (co_mapper co) idx) (\<lambda>children.
                let clones = map (\<lambda>child. clone_to child m) children;
                    outs = map (\<lambda>cl. send_helper E (pe_for E (d_w1 (m_dst cl))) cl) clones
                in bind_res (invoke_entry c k rec ch1 m (emit outs st)) (\<lambda>(st1, js).
                     Inr (st1, js @ [JFlush c idx])))
           else bind_res (buffer_msg c m st) (\<lambda>st1. Inr (st1, [])))
       else invoke_entry c k rec ch m st))"

definition flush_buffers :: "('u, 'b) env \<Rightarrow> collective_index \<Rightarrow> u64 \<Rightarrow> ('u, 'b) pe \<Rightarrow> ('u, 'b) outcome" where
  "flush_buffers E c idx st =
     bind_res (lookup_col c st) (\<lambda>co.
       case co_buffers co idx of
         [] \<Rightarrow> Inr (st, [])
       | m # ms \<Rightarrow> bind_res (try_deliver E c m st) (\<lambda>r.
           case r of
             None \<Rightarrow> Inr (st, [])
           | Some (st1, js) \<Rightarrow> Inr (st1, js @ [JPop c idx m, JFlush c idx])))"

text \<open>
  \<open>release\<close> and \<open>pop_front\<close>, through the reference to the front taken before the delivery: it
  dangles when the delivery has popped that element.
\<close>

definition pop_buffer :: "collective_index \<Rightarrow> u64 \<Rightarrow> 'b msg \<Rightarrow> ('u, 'b) pe \<Rightarrow> ('u, 'b) outcome" where
  "pop_buffer c idx m st =
     bind_res (lookup_col c st) (\<lambda>co.
       case co_buffers co idx of
         [] \<Rightarrow> Inl BadPointer
       | m' # ms \<Rightarrow> if m' = m then Inr (put_col c (put_buffer idx ms co) st, []) else Inl BadPointer)"

definition deliver_to_endpoint :: "('u, 'b) env \<Rightarrow> bool \<Rightarrow> 'b msg \<Rightarrow> ('u, 'b) pe \<Rightarrow> ('u, 'b) outcome" where
  "deliver_to_endpoint E imm m st =
     bind_res (endpoint_of (m_dst m)) (\<lambda>ep.
       let c = ep_col ep
       in if m_creates m then
            bind_res (at (kinds E) (unat (ep_entry ep - 1))) (\<lambda>mp.
            bind_res (check (pe_cols st c = None)) (\<lambda>_.
              Inr (put_col c (new_coll mp) st, [JDrain imm c])))
          else (case pe_cols st c of
              None \<Rightarrow> Inr (st\<lparr>pe_waiting := (pe_waiting st)(c := pe_waiting st c @ [m])\<rparr>, [])
            | Some co \<Rightarrow> Inr (st, [JCol imm c m])))"

definition drain :: "bool \<Rightarrow> collective_index \<Rightarrow> ('u, 'b) pe \<Rightarrow> ('u, 'b) outcome" where
  "drain imm c st = (case pe_waiting st c of
       [] \<Rightarrow> Inr (st, [])
     | m # ms \<Rightarrow> Inr (st\<lparr>pe_waiting := (pe_waiting st)(c := ms)\<rparr>, [JCol imm c m, JDrain imm c]))"

text \<open>Charm++ is built with its error checks, so the callback's PE is enforced.\<close>

definition deliver_to_callback :: "('u, 'b) env \<Rightarrow> 'b msg \<Rightarrow> ('u, 'b) pe \<Rightarrow> ('u, 'b) outcome" where
  "deliver_to_callback E m st =
     bind_res (callback_fn (m_dst m)) (\<lambda>(i, p). bind_res (check (p = all_pes \<or> p = of_nat (my_pe E))) (\<lambda>_.
       bind_res (called (callback_for (callbacks E) m)) (\<lambda>f. Inr (st, map JAct (f m)))))"

definition deliver_msg :: "('u, 'b) env \<Rightarrow> 'b msg \<Rightarrow> ('u, 'b) pe \<Rightarrow> ('u, 'b) outcome" where
  "deliver_msg E m st = (case d_kind (m_dst m) of
       KEndpoint \<Rightarrow> Inr (st, [JEndpoint True m])
     | KCallback \<Rightarrow> deliver_to_callback E m st
     | KInvalid \<Rightarrow> Inl Aborted)"

definition send_msg :: "'b msg \<Rightarrow> ('u, 'b) pe \<Rightarrow> ('u, 'b) outcome" where
  "send_msg m st = (case d_kind (m_dst m) of
       KCallback \<Rightarrow> bind_res (callback_fn (m_dst m)) (\<lambda>(i, p).
         if p = all_pes then Inr (emit [NBcastAll m] st, [])
         else Inr (emit [NSend (unat p) m] st, []))
     | KEndpoint \<Rightarrow> bind_res (check (\<not> m_creates m)) (\<lambda>_. Inr (st, [JEndpoint False m]))
     | KInvalid \<Rightarrow> Inl Aborted)"

definition exit_msg :: "'b msg \<Rightarrow> ('u, 'b) pe \<Rightarrow> ('u, 'b) outcome" where
  "exit_msg m st =
     (if is_broadcast (m_dst m) then Inr (st\<lparr>pe_exit := True\<rparr>, [])
      else bind_res (callback_fn (m_dst m)) (\<lambda>(i, p).
        Inr ((emit [NBcast (m\<lparr>m_dst := dest_callback i all_pes (m_dst m)\<rparr>)] st)\<lparr>pe_exit := True\<rparr>, [])))"

fun run_act :: "'b action \<Rightarrow> ('u, 'b) pe \<Rightarrow> ('u, 'b) outcome" where
  "run_act (ADeliver m) st = Inr (st, [JDeliver m])"
| "run_act (ASend m) st = Inr (st, [JSend m])"
| "run_act (AReduce m) st = Inr (emit [NReduce m] st, [])"
| "run_act (AExit m) st = exit_msg m st"

fun run_body :: "collective_index \<Rightarrow> u64 \<Rightarrow> ('u, 'b) segments \<Rightarrow> ('u, 'b) pe \<Rightarrow> ('u, 'b) outcome" where
  "run_body c k [] st = Inr (st, [])"
| "run_body c k (f # fs) st =
     bind_res (lookup_col c st) (\<lambda>co. bind_res (lookup_chare k co) (\<lambda>ch.
       case f (ch_user ch) of (u, as) \<Rightarrow>
         Inr (put_col c (put_chare k (ch\<lparr>ch_user := u\<rparr>) co) st, map JAct as @ [JBody c k fs])))"

fun job_step :: "('u, 'b) env \<Rightarrow> ('u, 'b) job \<Rightarrow> ('u, 'b) pe \<Rightarrow> ('u, 'b) outcome" where
  "job_step E (JDeliver m) st = deliver_msg E m st"
| "job_step E (JSend m) st = send_msg m st"
| "job_step E (JAct a) st = run_act a st"
| "job_step E (JEndpoint imm m) st = deliver_to_endpoint E imm m st"
| "job_step E (JDrain imm c) st = drain imm c st"
| "job_step E (JCol imm c m) st =
     (if imm then deliver_now E c m st
      else bind_res (deliver_later E m) (\<lambda>n. Inr (emit [n] st, [])))"
| "job_step E (JHandle c k rec m) st = handle_msg E c k rec m st"
| "job_step E (JFlush c k) st = flush_buffers E c k st"
| "job_step E (JPop c k m) st = pop_buffer c k m st"
| "job_step E (JBody c k fs) st = run_body c k fs st"

text \<open>
  The machine for at most \<open>n\<close> steps: \<open>None\<close> when the calls are not finished by then.
\<close>

fun exec :: "('u, 'b) env \<Rightarrow> nat \<Rightarrow> ('u, 'b) pe \<Rightarrow> ('u, 'b) job list \<Rightarrow> ('u, 'b) pe res option" where
  "exec E n st [] = Some (Inr st)"
| "exec E 0 st (j # js) = None"
| "exec E (Suc n) st (j # js) =
     (case job_step E j st of Inl e \<Rightarrow> Some (Inl e) | Inr (st1, ks) \<Rightarrow> exec E n st1 (ks @ js))"

text \<open>The calls \<open>js\<close> return, with the state \<open>st'\<close>; they never return.\<close>

definition returns :: "('u, 'b) env \<Rightarrow> ('u, 'b) pe \<Rightarrow> ('u, 'b) job list \<Rightarrow> ('u, 'b) pe \<Rightarrow> bool" where
  "returns E st js st' \<longleftrightarrow> (\<exists>n. exec E n st js = Some (Inr st'))"

definition diverges :: "('u, 'b) env \<Rightarrow> ('u, 'b) pe \<Rightarrow> ('u, 'b) job list \<Rightarrow> bool" where
  "diverges E st js \<longleftrightarrow> (\<forall>n. exec E n st js = None)"

definition fails :: "('u, 'b) env \<Rightarrow> ('u, 'b) pe \<Rightarrow> ('u, 'b) job list \<Rightarrow> fault \<Rightarrow> bool" where
  "fails E st js e \<longleftrightarrow> (\<exists>n. exec E n st js = Some (Inl e))"

section \<open>Runs of the machine\<close>

lemma exec_mono: "exec E n st js = Some r \<Longrightarrow> n \<le> k \<Longrightarrow> exec E k st js = Some r"
proof (induction n arbitrary: k st js)
  case 0
  then show ?case by (cases js) auto
next
  case (Suc n)
  then obtain k' where "k = Suc k'" "n \<le> k'" by (cases k) auto
  then show ?case using Suc by (cases js) (auto split: sum.splits)
qed

lemma exec_append:
  assumes "exec E n st js = Some (Inr st1)" and "exec E k st1 ks = Some r"
  shows "exec E (n + k) st (js @ ks) = Some r"
  using assms(1)
proof (induction n arbitrary: st js)
  case 0
  then show ?case using assms(2) by (cases js) auto
next
  case (Suc n)
  show ?case
  proof (cases js)
    case Nil
    then show ?thesis using Suc.prems assms(2) exec_mono [of E k st1 ks r "Suc n + k"] by simp
  next
    case (Cons j js')
    then show ?thesis using Suc by (auto split: sum.splits simp flip: append_assoc)
  qed
qed

lemma returns_Nil [intro]: "returns E st [] st"
  by (auto simp: returns_def)

lemma returns_append: "returns E st js st1 \<Longrightarrow> returns E st1 ks st2 \<Longrightarrow> returns E st (js @ ks) st2"
  unfolding returns_def using exec_append by blast

lemma returns_step:
  assumes "job_step E j st = Inr (st1, ks)" and "returns E st1 (ks @ js) st2"
  shows "returns E st (j # js) st2"
  using assms unfolding returns_def by (metis exec.simps(3) old.sum.simps(6) prod.case)

lemma returns_last: "job_step E j st = Inr (st1, []) \<Longrightarrow> returns E st [j] st1"
  by (rule returns_step) auto

lemma returns_Cons: "returns E st [j] st1 \<Longrightarrow> returns E st1 js st2 \<Longrightarrow> returns E st (j # js) st2"
  using returns_append [of E st "[j]" st1 js st2] by simp

lemma fails_step:
  assumes "job_step E j st = Inr (st1, ks)" and "fails E st1 (ks @ js) e"
  shows "fails E st (j # js) e"
  using assms unfolding fails_def by (metis exec.simps(3) old.sum.simps(6) prod.case)

lemma fails_now: "job_step E j st = Inl e \<Longrightarrow> fails E st (j # js) e"
  unfolding fails_def by (intro exI [of _ "Suc 0"]) simp

lemma fails_append: "returns E st js st1 \<Longrightarrow> fails E st1 ks e \<Longrightarrow> fails E st (js @ ks) e"
  unfolding returns_def fails_def using exec_append by blast

text \<open>The outcome of a run is unique.\<close>

lemma exec_unique: "exec E n st js = Some r \<Longrightarrow> exec E k st js = Some r' \<Longrightarrow> r = r'"
  by (metis exec_mono nat_le_linear option.inject)

lemma returns_unique: "returns E st js st1 \<Longrightarrow> returns E st js st2 \<Longrightarrow> st1 = st2"
  unfolding returns_def using exec_unique by fastforce

lemma diverges_iff: "diverges E st js \<longleftrightarrow> \<not> (\<exists>st'. returns E st js st') \<and> \<not> (\<exists>e. fails E st js e)"
proof -
  have "r = None \<or> (\<exists>st'. r = Some (Inr st')) \<or> (\<exists>e. r = Some (Inl e))"
    for r :: "('a, 'b) pe res option"
    by (metis old.sum.exhaust option.exhaust)
  then show ?thesis unfolding diverges_def returns_def fails_def by (metis option.distinct(1))
qed

text \<open>Exactly \<open>m\<close> steps, none of which fails or finds the stack empty.\<close>

fun steps ::
  "('u, 'b) env \<Rightarrow> nat \<Rightarrow> ('u, 'b) pe \<Rightarrow> ('u, 'b) job list \<Rightarrow> (('u, 'b) pe \<times> ('u, 'b) job list) option" where
  "steps E 0 st js = Some (st, js)"
| "steps E (Suc m) st [] = None"
| "steps E (Suc m) st (j # js) =
     (case job_step E j st of Inl e \<Rightarrow> None | Inr (st1, ks) \<Rightarrow> steps E m st1 (ks @ js))"

lemma exec_steps:
  "steps E m st js = Some (st1, js1) \<Longrightarrow>
    exec E n st js = (if n < m then None else exec E (n - m) st1 js1)"
proof (induction m arbitrary: n st js)
  case (Suc m)
  then show ?case by (cases js; cases n) (auto split: sum.splits)
qed simp

text \<open>
  Configurations each of which leads, in one step or more, to another of them never return.
\<close>

lemma diverges_coinduct:
  assumes "P st js"
    and again: "\<And>st js. P st js \<Longrightarrow> \<exists>m st1 js1. steps E (Suc m) st js = Some (st1, js1) \<and> P st1 js1"
  shows "diverges E st js"
proof -
  have "exec E n st js = None" if "P st js" for n st js
    using that
  proof (induction n arbitrary: st js rule: less_induct)
    case (less n)
    obtain m st1 js1 where 1: "steps E (Suc m) st js = Some (st1, js1)" "P st1 js1"
      using again [OF less.prems] by blast
    show ?case
      using exec_steps [OF 1(1), of n] less.IH [OF _ 1(2), of "n - Suc m"] by (cases "n < Suc m") auto
  qed
  then show ?thesis using assms(1) by (simp add: diverges_def)
qed

lemma diverges_steps:
  "steps E m st js = Some (st1, js1) \<Longrightarrow> diverges E st1 js1 \<Longrightarrow> diverges E st js"
  unfolding diverges_def using exec_steps by metis

end
