(* ===== verification/Charm_Proxy.thy ===== *)
theory Charm_Proxy
  imports Charm_Core
begin

text \<open>
  What user code calls: the proxies of \<open>archive/charmlite/include/proxy.hh\<close>, callbacks
  (\<open>callback.hh\<close>), and the sending half of reductions (\<open>reduction.hh\<close>). Each prepares a message's
  destination and hands it to \<open>deliver\<close>, \<open>send\<close> or Converse.
\<close>

section \<open>Elements\<close>

definition to_element :: "collective_index \<Rightarrow> u64 \<Rightarrow> u64 \<Rightarrow> 'b msg \<Rightarrow> 'b msg" where
  "to_element c idx ent m = m\<lparr>m_dst := dest_endpoint c idx ent (m_dst m)\<rparr>"

definition proxy_insert :: "collective_index \<Rightarrow> u64 \<Rightarrow> u64 \<Rightarrow> 'b msg \<Rightarrow> 'b action" where
  "proxy_insert c idx ctor m = ADeliver (to_element c idx ctor m)"

definition proxy_send :: "collective_index \<Rightarrow> u64 \<Rightarrow> u64 \<Rightarrow> 'b msg \<Rightarrow> 'b action" where
  "proxy_send c idx ent m = ADeliver (to_element c idx ent m)"

definition proxy_broadcast :: "collective_index \<Rightarrow> u64 \<Rightarrow> 'b msg \<Rightarrow> 'b action" where
  "proxy_broadcast c ent m = ASend (to_element c chare_bcast_root ent m)"

text \<open>\<open>index_view<int>\<close>: an \<open>int\<close> as a chare index, its sign extended.\<close>

definition encode_int :: "int \<Rightarrow> u64" where
  "encode_int i = word_of_int i"

definition local_branch :: "('u, 'b) env \<Rightarrow> collective_index \<Rightarrow> ('u, 'b) pe \<Rightarrow> 'u chare option" where
  "local_branch E c st = (case pe_cols st c of None \<Rightarrow> None
     | Some co \<Rightarrow> co_chares co (encode_int (int (my_pe E))))"

section \<open>Callbacks and reductions\<close>

definition callback_send :: "destination \<Rightarrow> 'b msg \<Rightarrow> 'b action" where
  "callback_send d m = ASend (m\<lparr>m_dst := d\<rparr>)"

definition reduce_send :: "u64 \<Rightarrow> u64 \<Rightarrow> 'b msg \<Rightarrow> 'b action" where
  "reduce_send comb cb m = AReduce (reduce_dst comb cb m)"

definition all_reduce_impl :: "u64 \<Rightarrow> 'b msg \<Rightarrow> ('u, 'b) pe \<Rightarrow> ('u, 'b) outcome" where
  "all_reduce_impl cb m st =
     (let m1 = m\<lparr>m_dst := dest_callback cb all_pes (m_dst m)\<rparr> in Inr (emit [NBcast m1] st, [JDeliver m1]))"

section \<open>Constructing collectives\<close>

definition creation_msg :: "u64 \<Rightarrow> destination \<Rightarrow> 'b \<Rightarrow> collective_index \<Rightarrow> u64 \<Rightarrow> 'b msg" where
  "creation_msg sz bytes b c kind =
     (let m = new_message sz bytes b
      in (m\<lparr>m_dst := dest_endpoint c (- 1) kind (m_dst m)\<rparr>)\<lparr>m_creates := True\<rparr>)"

text \<open>\<open>collective_proxy::construct\<close>: the counter is read, then incremented.\<close>

definition collective_construct ::
  "('u, 'b) env \<Rightarrow> u64 \<Rightarrow> (collective_index \<Rightarrow> u64 \<Rightarrow> 'b msg) \<Rightarrow> ('u, 'b) pe \<Rightarrow> collective_index \<times> ('u, 'b) pe" where
  "collective_construct E kind mk st =
     (let c = CIndex (of_nat (my_pe E)) (pe_count st)
      in (c, emit [NBcastAll (mk c kind)] (st\<lparr>pe_count := pe_count st + 1\<rparr>)))"

text \<open>
  \<open>broadcast_helper_\<close>: a loop that changes the message's destination before each send; the
  messages sent are copies.
\<close>

fun helper_loop :: "nat list \<Rightarrow> 'b msg \<Rightarrow> 'b net list \<Rightarrow> 'b msg \<times> 'b net list" where
  "helper_loop [] m ns = (m, ns)"
| "helper_loop (i # is) m ns =
     (let m1 = m\<lparr>m_dst := (m_dst m)\<lparr>d_w1 := encode_int (int i)\<rparr>\<rparr>
      in helper_loop is m1 (ns @ [NSend i m1]))"

definition broadcast_helper :: "('u, 'b) env \<Rightarrow> 'b msg \<Rightarrow> 'b net list" where
  "broadcast_helper E m =
     (let (m1, ns) = helper_loop [1 ..< num_pes E] m [];
          m2 = m1\<lparr>m_dst := (m_dst m1)\<lparr>d_w1 := encode_int 0\<rparr>\<rparr>
      in ns @ [NSend 0 m2])"

text \<open>\<open>group_proxy::construct\<close>: the counter is incremented, then read.\<close>

definition group_construct ::
  "('u, 'b) env \<Rightarrow> u64 \<Rightarrow> u64 \<Rightarrow> (collective_index \<Rightarrow> u64 \<Rightarrow> 'b msg) \<Rightarrow> 'b msg \<Rightarrow> ('u, 'b) pe
    \<Rightarrow> collective_index \<times> ('u, 'b) pe" where
  "group_construct E kind ctor mk m st =
     (let c = CIndex (of_nat (my_pe E)) (pe_count st + 1);
          st1 = emit [NBcastAll (mk c kind)] (st\<lparr>pe_count := pe_count st + 1\<rparr>)
      in (c, emit (broadcast_helper E (m\<lparr>m_dst := dest_endpoint c chare_bcast_root ctor (m_dst m)\<rparr>)) st1))"

section \<open>Properties\<close>

lemma helper_loop_eq: "helper_loop is m ns
    = (if is = [] then m else clone_to (encode_int (int (last is))) m,
       ns @ map (\<lambda>i. NSend i (clone_to (encode_int (int i)) m)) is)"
  by (induction "is" arbitrary: m ns) (simp_all add: clone_to_def Let_def)

lemma broadcast_helper_eq: "broadcast_helper E m
    = map (\<lambda>i. NSend i (clone_to (encode_int (int i)) m)) ([1 ..< num_pes E] @ [0])"
  by (simp add: broadcast_helper_def helper_loop_eq clone_to_def Let_def)

text \<open>
  The constructor message of a group reaches every PE exactly once, addressed to the chare whose
  index is that PE's number and otherwise as it was; no other PE gets one.
\<close>

theorem group_reaches_every_pe:
  assumes "0 < num_pes E"
  shows "length (broadcast_helper E m) = num_pes E \<and>
    (\<forall>p < num_pes E. NSend p (clone_to (of_nat p) m) \<in> set (broadcast_helper E m)) \<and>
    distinct (broadcast_helper E m)"
proof -
  have "distinct ([1 ..< num_pes E] @ [0])" by simp
  moreover have "inj_on (\<lambda>i. NSend i (clone_to (encode_int (int i)) m)) A" for A
    by (rule inj_onI) simp
  ultimately have "distinct (broadcast_helper E m)"
    unfolding broadcast_helper_eq distinct_map by blast
  moreover have "NSend p (clone_to (of_nat p) m) \<in> set (broadcast_helper E m)" if "p < num_pes E" for p
  proof -
    have "p \<in> set ([1 ..< num_pes E] @ [0])" using that by (cases p) auto
    moreover have "encode_int (int p) = of_nat p" by (simp add: encode_int_def)
    ultimately show ?thesis unfolding broadcast_helper_eq by (metis (no_types, lifting) image_eqI set_map)
  qed
  ultimately show ?thesis using assms by (simp add: broadcast_helper_eq)
qed

text \<open>
  C37. A group constructed and right after it a collective, on the same PE, get the same index: one
  increments the counter before reading it, the other after. Every PE that receives the two
  creation messages in order fails the assertion that the second was inserted.
\<close>

theorem group_then_collective_collide:
  assumes "group_construct E kg ctor (creation_msg sz bytes b) m st = (g, st1)"
    and "collective_construct E kc (creation_msg sz bytes b) st1 = (c, st2)"
    and "at (kinds E') (unat (kg - 1)) = Inr mg" and "at (kinds E') (unat (kc - 1)) = Inr mc"
  shows "c = g \<and> fails E' new_pe
    [JDeliver (creation_msg sz bytes b g kg), JDeliver (creation_msg sz bytes b c kc)] AssertFailed"
proof -
  have same: "c = g"
    using assms(1,2) by (auto simp: group_construct_def collective_construct_def Let_def emit_def)
  let ?m = "creation_msg sz bytes b g"
  have m: "d_kind (m_dst (?m k)) = KEndpoint" "m_creates (?m k)"
    "endpoint_of (m_dst (?m k)) = Inr \<lparr>ep_col = g, ep_chare = - 1, ep_entry = k, ep_bcast = 0\<rparr>" for k
    by (simp_all add: creation_msg_def Let_def dest_endpoint_def endpoint_of_def)
  let ?st = "put_col g (new_coll mg) new_pe"
  have first: "job_step E' (JEndpoint True (?m kg)) new_pe = Inr (?st, [JDrain True g])"
    using assms(3) m by (simp add: deliver_to_endpoint_def Let_def new_pe_def at_def split: if_splits)
  have drained: "job_step E' (JDrain True g) ?st = Inr (?st, [])"
    by (simp add: drain_def put_col_def new_pe_def)
  have second: "job_step E' (JEndpoint True (?m kc)) ?st = Inl AssertFailed"
    using assms(4) m by (simp add: deliver_to_endpoint_def Let_def check_def put_col_def at_def split: if_splits)
  have d: "job_step E' (JDeliver (?m k)) s = Inr (s, [JEndpoint True (?m k)])" for k s
    using m by (simp add: deliver_msg_def)
  have "fails E' ?st [JDeliver (?m kc)] AssertFailed"
    by (rule fails_step [OF d]) (simp add: fails_now [OF second])
  then have "fails E' ?st [JDrain True g, JDeliver (?m kc)] AssertFailed"
    by (intro fails_step [OF drained]) simp
  then have "fails E' new_pe [JEndpoint True (?m kg), JDeliver (?m kc)] AssertFailed"
    by (intro fails_step [OF first]) simp
  then have "fails E' new_pe [JDeliver (?m kg), JDeliver (?m kc)] AssertFailed"
    by (intro fails_step [OF d]) simp
  then show ?thesis using same by simp
qed

definition two_kinds :: "(unit, nat) env" where
  "two_kinds = \<lparr>my_pe = 0, num_pes = 3, span_children = (\<lambda>p. if p = 0 then [1, 2] else []),
     span_parent = (\<lambda>p. if p = 0 then None else Some 0), entries = [],
     kinds = [Group_mapper, Default_mapper], callbacks = []\<rparr>"

definition no_bytes :: destination where
  "no_bytes = \<lparr>d_kind = KInvalid, d_w0 = 0, d_w1 = 0, d_w2 = 0, d_bc = 0\<rparr>"

definition note_msg :: "nat msg" where
  "note_msg = new_message 64 no_bytes 5"

lemma group_reaches_every_pe_witness:
  "NSend 2 (clone_to 2 note_msg) \<in> set (broadcast_helper two_kinds note_msg)"
proof -
  have n: "0 < num_pes two_kinds" "2 < num_pes two_kinds" by (simp_all add: two_kinds_def)
  then have "NSend 2 (clone_to (of_nat 2) note_msg) \<in> set (broadcast_helper two_kinds note_msg)"
    using group_reaches_every_pe [OF n(1), of note_msg] by blast
  then show ?thesis by simp
qed

lemma group_then_collective_collide_witness:
  "fails two_kinds new_pe [JDeliver (creation_msg 64 no_bytes (0 :: nat) (CIndex 0 1) 1),
     JDeliver (creation_msg 64 no_bytes 0 (CIndex 0 1) 2)] AssertFailed"
proof -
  let ?mk = "creation_msg 64 no_bytes (0 :: nat)"
  have k: "at (kinds two_kinds) (unat (1 - 1 :: u64)) = Inr Group_mapper"
    "at (kinds two_kinds) (unat (2 - 1 :: u64)) = Inr Default_mapper"
    by (simp_all add: two_kinds_def)
  obtain st1 where g: "group_construct two_kinds 1 1 ?mk note_msg new_pe = (CIndex 0 1, st1)" "pe_count st1 = 1"
    by (simp add: group_construct_def two_kinds_def new_pe_def emit_def Let_def)
  obtain st2 where "collective_construct two_kinds 2 ?mk st1 = (CIndex 0 1, st2)"
    using g(2) by (simp add: collective_construct_def two_kinds_def Let_def)
  from group_then_collective_collide [OF g(1) this k] show ?thesis by simp
qed

end
