(* ===== verification/Charm_Reduction.thy ===== *)
theory Charm_Reduction
  imports Charm_Msg
begin

text \<open>
  \<open>archive/charmlite/include/reduction.hh\<close>: how the contributions to a reduction are combined on one
  PE. Messages live at addresses; a combiner gets two addresses and returns one of them, or
  that of a message it allocated. The runtime afterwards frees the messages left in the array
  of remote contributions and passes the returned one on.
\<close>

type_synonym 'b store = "addr \<Rightarrow> 'b msg option"
type_synonym 'b comb = "addr \<Rightarrow> addr \<Rightarrow> 'b store \<Rightarrow> (addr \<times> 'b store) res"

definition deref :: "'b store \<Rightarrow> addr \<Rightarrow> 'b msg res" where
  "deref s p = (case s p of None \<Rightarrow> Inl BadPointer | Some m \<Rightarrow> Inr m)"

text \<open>\<open>message::free\<close>: \<open>nullptr\<close> is ignored, a dead message is freed twice.\<close>

definition free_msg :: "addr \<Rightarrow> 'b store \<Rightarrow> 'b store res" where
  "free_msg p s = (if p = 0 then Inr s else bind_res (deref s p) (\<lambda>_. Inr (s(p := None))))"

text \<open>
  The loop over the remote contributions: \<open>sum\<close>, the array's entries already visited and those to
  come. \<open>lhs\<close> and \<open>rhs\<close> are references, so the swap exchanges \<open>sum\<close> and the array's entry.
\<close>

fun combine_loop ::
  "'b comb option \<Rightarrow> addr \<Rightarrow> addr list \<Rightarrow> addr list \<Rightarrow> 'b store \<Rightarrow> (addr \<times> addr list \<times> 'b store) res" where
  "combine_loop comb acc seen [] s = Inr (acc, seen, s)"
| "combine_loop comb acc seen (r # rs) s =
     (case comb of
        None \<Rightarrow> Inl BadPointer
      | Some f \<Rightarrow> bind_res (f acc r s) (\<lambda>(p, s1).
          if p = acc then combine_loop comb acc (seen @ [r]) rs s1
          else if p = r then combine_loop comb r (seen @ [acc]) rs s1
          else bind_res (free_msg acc s1) (\<lambda>s2. combine_loop comb acc (seen @ [r]) rs s2)))"

text \<open>The returned size - an \<open>int\<close>, to which the 64-bit size is cast -, message and array.\<close>

definition int_of_size :: "u64 \<Rightarrow> int" where
  "int_of_size sz = sint (ucast sz :: 32 word)"

lemma int_of_size_small:
  assumes "sz < 2 ^ 31"
  shows "int_of_size sz = uint sz"
proof -
  have "uint sz < 2 ^ 31" using assms by (simp add: word_less_def)
  moreover from this have "signed_take_bit 31 (uint sz) = uint sz"
    by (intro signed_take_bit_int_eq_self order_trans [OF _ uint_nonnegative]) simp_all
  ultimately show ?thesis by (simp add: int_of_size_def sint_uint unsigned_ucast_eq take_bit_int_eq_self)
qed

definition converse_combiner ::
  "'b comb list \<Rightarrow> addr \<Rightarrow> addr list \<Rightarrow> 'b store \<Rightarrow> (int \<times> addr \<times> addr list \<times> 'b store) res" where
  "converse_combiner combs local remote s =
     bind_res (deref s local) (\<lambda>m. bind_res (combiner_for combs m) (\<lambda>comb.
     bind_res (combine_loop comb local [] remote s) (\<lambda>(acc, arr, s1).
     bind_res (deref s1 acc) (\<lambda>res. Inr (int_of_size (m_size res), acc, arr, s1)))))"

definition nop_comb :: "'b comb" where
  "nop_comb l r s = Inr (l, s)"

definition add_comb :: "('b :: plus) comb" where
  "add_comb l r s = bind_res (deref s l) (\<lambda>ml. bind_res (deref s r) (\<lambda>mr.
     Inr (l, s(l \<mapsto> ml\<lparr>m_body := m_body ml + m_body mr\<rparr>))))"

section \<open>Combiners that work in place\<close>

text \<open>
  The contract of a combiner that keeps its result in one of its arguments: it returns for live
  messages, the result is \<open>opr\<close> of them, the other one stays live and nothing else changes.
\<close>

locale in_place =
  fixes f :: "'b comb" and opr :: "'b msg \<Rightarrow> 'b msg \<Rightarrow> 'b msg"
  assumes combines: "l \<noteq> r \<Longrightarrow> s l = Some ml \<Longrightarrow> s r = Some mr \<Longrightarrow>
    \<exists>p q s1 mq. f l r s = Inr (p, s1) \<and> {p, q} = {l, r} \<and> s1 = s(p \<mapsto> opr ml mr, q \<mapsto> mq) \<and> p \<noteq> q"
begin

lemma loop:
  assumes "distinct (acc # seen @ rs)" and "s acc = Some m" and "map s rs = map Some ms"
    and "\<forall>p \<in> set seen. s p \<noteq> None"
  shows "\<exists>acc1 arr s1. combine_loop (Some f) acc seen rs s = Inr (acc1, arr, s1) \<and>
    s1 acc1 = Some (foldl opr m ms) \<and> mset (acc1 # arr) = mset (acc # seen @ rs) \<and>
    (\<forall>p \<in> set arr. s1 p \<noteq> None) \<and> (\<forall>p. p \<notin> set (acc # seen @ rs) \<longrightarrow> s1 p = s p)"
  using assms
proof (induction rs arbitrary: acc seen s m ms)
  case (Cons r rs)
  obtain mr ms' where ms: "ms = mr # ms'" "s r = Some mr" "map s rs = map Some ms'"
    using Cons.prems(3) by auto
  obtain p q s1 mq where c: "f acc r s = Inr (p, s1)" "{p, q} = {acc, r}"
    "s1 = s(p \<mapsto> opr m mr, q \<mapsto> mq)" "p \<noteq> q"
    using combines [of acc r s m mr] Cons.prems(1,2) ms(2) by auto
  have d: "distinct (p # (seen @ [q]) @ rs)" and same: "mset (p # (seen @ [q]) @ rs) = mset (acc # seen @ r # rs)"
    using c(2,4) Cons.prems(1) by (auto simp: doubleton_eq_iff)
  have sets: "set (p # (seen @ [q]) @ rs) = set (acc # seen @ r # rs)"
    using same by (metis set_mset_mset)
  have "s1 p = Some (opr m mr)" using c(3,4) by simp
  moreover have "map s1 rs = map Some ms'"
  proof -
    have "s1 x = s x" if "x \<in> set rs" for x using that d c(3) by auto
    then show ?thesis using ms(3) by (metis map_cong)
  qed
  moreover have "\<forall>x \<in> set (seen @ [q]). s1 x \<noteq> None" using Cons.prems(4) c(3) by auto
  ultimately obtain acc1 arr s2 where r: "combine_loop (Some f) p (seen @ [q]) rs s1 = Inr (acc1, arr, s2)"
    and rest: "s2 acc1 = Some (foldl opr (opr m mr) ms')" "mset (acc1 # arr) = mset (p # (seen @ [q]) @ rs)"
      "\<forall>x \<in> set arr. s2 x \<noteq> None" "\<forall>x. x \<notin> set (p # (seen @ [q]) @ rs) \<longrightarrow> s2 x = s1 x"
    using Cons.IH [OF d] by blast
  have "combine_loop (Some f) acc seen (r # rs) s = Inr (acc1, arr, s2)"
    using c r Cons.prems(1) by (auto simp: doubleton_eq_iff)
  moreover have "s1 x = s x" if "x \<notin> set (acc # seen @ r # rs)" for x
    using that c(2,3) by (auto simp: doubleton_eq_iff)
  ultimately show ?case using rest same sets ms(1) by auto
qed simp

end

interpretation nop_combiner: in_place nop_comb "\<lambda>ml mr. ml"
proof
  fix l r :: addr and s :: "'b store" and ml mr
  assume "l \<noteq> r" "s l = Some ml" "s r = Some mr"
  then show "\<exists>p q s1 mq. nop_comb l r s = Inr (p, s1) \<and> {p, q} = {l, r} \<and>
      s1 = s(p \<mapsto> ml, q \<mapsto> mq) \<and> p \<noteq> q"
    by (intro exI [of _ l] exI [of _ r] exI [of _ s] exI [of _ mr])
      (auto simp: nop_comb_def fun_eq_iff)
qed

interpretation add_combiner: in_place add_comb "\<lambda>ml mr. ml\<lparr>m_body := m_body ml + m_body mr\<rparr>"
proof
  fix l r :: addr and s :: "'b :: plus store" and ml mr
  assume "l \<noteq> r" "s l = Some ml" "s r = Some mr"
  then show "\<exists>p q s1 mq. add_comb l r s = Inr (p, s1) \<and> {p, q} = {l, r} \<and>
      s1 = s(p \<mapsto> ml\<lparr>m_body := m_body ml + m_body mr\<rparr>, q \<mapsto> mq) \<and> p \<noteq> q"
    by (intro exI [of _ l] exI [of _ r] exI [of _ "s(l \<mapsto> ml\<lparr>m_body := m_body ml + m_body mr\<rparr>)"]
        exI [of _ mr]) (auto simp: add_comb_def deref_def fun_eq_iff)
qed

lemma foldl_add_body:
  fixes m :: "('b :: comm_monoid_add) msg"
  shows "foldl (\<lambda>a b. a\<lparr>m_body := m_body a + m_body b\<rparr>) m ms
    = m\<lparr>m_body := m_body m + sum_list (map m_body ms)\<rparr>"
  by (induction ms arbitrary: m) (simp_all add: add.assoc)

text \<open>
  C23. A reduction with \<open>add\<close> returns a message whose value is the sum of all contributions, with its size as an
  \<open>int\<close> (exact below 2 GiB); every
  contribution is afterwards either the returned message or an entry of the array, once, and
  still live, so that the runtime frees each exactly once; other messages are untouched.
\<close>

theorem add_reduction_sums:
  fixes m :: "('b :: comm_monoid_add) msg"
  assumes "distinct (loc # remote)" and "s loc = Some m" and "map s remote = map Some ms"
    and "combiner_for combs m = Inr (Some add_comb)"
  shows "\<exists>p arr s1 res. converse_combiner combs loc remote s = Inr (int_of_size (m_size m), p, arr, s1) \<and>
    (m_size m < 2 ^ 31 \<longrightarrow> int_of_size (m_size m) = uint (m_size m)) \<and>
    s1 p = Some res \<and> m_body res = m_body m + sum_list (map m_body ms) \<and>
    mset (p # arr) = mset (loc # remote) \<and> (\<forall>q \<in> set arr. s1 q \<noteq> None) \<and>
    (\<forall>q. q \<notin> set (loc # remote) \<longrightarrow> s1 q = s q)"
proof -
  have "distinct (loc # [] @ remote)" using assms(1) by simp
  from add_combiner.loop [OF this assms(2,3)] obtain p arr s1 where
    l: "combine_loop (Some add_comb) loc [] remote s = Inr (p, arr, s1)"
      "s1 p = Some (m\<lparr>m_body := m_body m + sum_list (map m_body ms)\<rparr>)"
      "mset (p # arr) = mset (loc # remote)" "\<forall>q \<in> set arr. s1 q \<noteq> None"
      "\<forall>q. q \<notin> set (loc # remote) \<longrightarrow> s1 q = s q"
    unfolding foldl_add_body by auto
  then have "converse_combiner combs loc remote s = Inr (int_of_size (m_size m), p, arr, s1)"
    using assms(2,4) by (simp add: converse_combiner_def deref_def)
  then show ?thesis using l(2-5) int_of_size_small [of "m_size m"] by fastforce
qed

text \<open>
  A combiner that allocates its result makes the reduction use a freed message: the loop frees
  \<open>sum\<close> but never stores the new message in it, so the next combination, or the final read of the
  size, follows a dangling pointer.
\<close>

theorem fresh_result_dangles:
  assumes "s loc = Some m" and "combiner_for combs m = Inr (Some f)" and "loc \<noteq> 0"
    and fresh: "f loc r s = Inr (p, s1)" "p \<noteq> loc" "p \<noteq> r" "s1 loc \<noteq> None"
    and reads: "\<And>l r' s'. s' l = None \<Longrightarrow> f l r' s' = Inl BadPointer"
  shows "converse_combiner combs loc (r # rs) s = Inl BadPointer"
proof -
  have "free_msg loc s1 = Inr (s1(loc := None))"
    using assms(3) fresh(4) by (auto simp: free_msg_def deref_def)
  then have "combine_loop (Some f) loc [] (r # rs) s = combine_loop (Some f) loc [r] rs (s1(loc := None))"
    using fresh(1-3) by simp
  moreover have "combine_loop (Some f) loc [r] rs (s1(loc := None)) = Inl BadPointer"
    if "rs \<noteq> []"
    using that reads [of "s1(loc := None)" loc] by (cases rs) simp_all
  ultimately show ?thesis using assms(1,2)
    by (cases "rs = []") (simp_all add: converse_combiner_def deref_def)
qed

section \<open>Three contributions\<close>

definition red_msg :: "nat \<Rightarrow> nat msg" where
  "red_msg d = reduce_dst 1 4 \<lparr>m_combines = False, m_creates = False, m_kind = 2,
     m_dst = \<lparr>d_kind = KInvalid, d_w0 = 0, d_w1 = 0, d_w2 = 0, d_bc = 0\<rparr>, m_size = 72, m_body = d\<rparr>"

lemma red_msg_combiner: "combiner_for [f] (red_msg d) = Inr (Some f)"
  by (simp add: red_msg_def reduce_dst_def combiner_for_def combiner_def set_combiner_def
      entry_at_def at_def)

lemma add_reduction_sums_witness:
  "\<exists>p arr s1 res. converse_combiner [add_comb] 16 [32, 48]
      [16 \<mapsto> red_msg 1, 32 \<mapsto> red_msg 20, 48 \<mapsto> red_msg 300] = Inr (72, p, arr, s1) \<and>
    s1 p = Some res \<and> m_body res = 321"
proof -
  let ?s = "[16 \<mapsto> red_msg 1, 32 \<mapsto> red_msg 20, 48 \<mapsto> red_msg 300] :: nat store"
  have s: "distinct [16, 32, 48 :: addr]" "?s 16 = Some (red_msg 1)"
    "map ?s [32, 48] = map Some [red_msg 20, red_msg 300]" by simp_all
  have "int_of_size (m_size (red_msg 1)) = 72" "m_body (red_msg 1) + sum_list (map m_body [red_msg 20, red_msg 300]) = 321"
    by (simp_all add: int_of_size_def red_msg_def reduce_dst_def set_combiner_def)
  with add_reduction_sums [OF s red_msg_combiner] show ?thesis by auto
qed

text \<open>A combiner that allocates its result at address 64.\<close>

definition fresh_comb :: "nat comb" where
  "fresh_comb l r s = bind_res (deref s l) (\<lambda>ml. bind_res (deref s r) (\<lambda>mr.
     Inr (64, s(64 \<mapsto> ml\<lparr>m_body := m_body ml + m_body mr\<rparr>))))"

lemma fresh_result_dangles_witness:
  "converse_combiner [fresh_comb] 16 [32] [16 \<mapsto> red_msg 1, 32 \<mapsto> red_msg 20] = Inl BadPointer"
  by (rule fresh_result_dangles [OF _ red_msg_combiner])
    (auto simp: fresh_comb_def deref_def)

end
