(* ===== verification/Charm_Net.thy ===== *)
theory Charm_Net
  imports Charm_Proxy Charm_Reduction
begin

text \<open>
  Several PEs of \<open>archive/charmlite\<close>: each handles the messages that arrive for it one at a time, by
  \<open>deliver\<close>, until its scheduler is told to exit. Converse's network delivers messages in any order, and its
  reduction takes one contribution of every PE and gives the result to PE 0; \<open>red\<close> is what its combiner makes of them.
\<close>

section \<open>The network\<close>

record ('u, 'b) cnet =
  cn_pe :: "nat \<Rightarrow> ('u, 'b) pe"
  cn_flight :: "(nat \<times> 'b msg) list"
  cn_reds :: "nat \<Rightarrow> 'b msg list"
  cn_done :: nat

text \<open>Where PE \<open>p\<close> sends a message, and what it gives to the reduction.\<close>

fun routed :: "nat \<Rightarrow> nat \<Rightarrow> 'b net \<Rightarrow> (nat \<times> 'b msg) list" where
  "routed n p (NSend q m) = [(q, m)]"
| "routed n p (NPush m) = [(p, m)]"
| "routed n p (NBcast m) = map (\<lambda>q. (q, m)) (filter (\<lambda>q. q \<noteq> p) [0..<n])"
| "routed n p (NBcastAll m) = map (\<lambda>q. (q, m)) [0..<n]"
| "routed n p (NReduce m) = []"

fun contributed :: "'b net \<Rightarrow> 'b msg list" where
  "contributed (NReduce m) = [m]"
| "contributed _ = []"

definition put_out :: "nat \<Rightarrow> nat \<Rightarrow> ('u, 'b) pe \<Rightarrow> ('u, 'b) cnet \<Rightarrow> ('u, 'b) cnet" where
  "put_out n p st net = net\<lparr>cn_pe := (cn_pe net)(p := st\<lparr>pe_out := []\<rparr>),
     cn_flight := cn_flight net @ concat (map (routed n p) (pe_out st)),
     cn_reds := (cn_reds net)(p := cn_reds net p @ concat (map contributed (pe_out st)))\<rparr>"

inductive cnet_step ::
  "nat \<Rightarrow> (nat \<Rightarrow> ('u, 'b) env) \<Rightarrow> ('b msg list \<Rightarrow> 'b msg) \<Rightarrow> ('u, 'b) cnet \<Rightarrow> ('u, 'b) cnet \<Rightarrow> bool"
  for n E red where
  arrive: "cn_flight net = as @ (p, m) # bs \<Longrightarrow> p < n \<Longrightarrow> \<not> pe_exit (cn_pe net p) \<Longrightarrow>
    returns (E p) (cn_pe net p) [JDeliver m] st \<Longrightarrow>
    cnet_step n E red net (put_out n p st (net\<lparr>cn_flight := as @ bs\<rparr>))"
| reduced: "\<forall>p<n. cn_done net < length (cn_reds net p) \<Longrightarrow>
    m = red (map (\<lambda>p. cn_reds net p ! cn_done net) [0..<n]) \<Longrightarrow>
    cnet_step n E red net (net\<lparr>cn_flight := cn_flight net @ [(0, m)], cn_done := Suc (cn_done net)\<rparr>)"

text \<open>The result of a reduction with \<open>nop\<close> is what the root PE itself gave.\<close>

definition nop_reduce :: "'b msg list \<Rightarrow> 'b msg" where
  "nop_reduce ms = foldl (\<lambda>ml mr. ml) (hd ms) (tl ms)"

lemma nop_reduce_hd: "nop_reduce ms = hd ms"
proof -
  have "foldl (\<lambda>ml mr. ml) m ms = m" for m and ms :: "'a msg list" by (induction ms) simp_all
  then show ?thesis by (simp add: nop_reduce_def)
qed

lemma nop_reduction_keeps:
  assumes "distinct (loc # remote)" and "s loc = Some m" and "map s remote = map Some ms"
    and "combiner_for combs m = Inr (Some nop_comb)"
  shows "\<exists>p arr s1. converse_combiner combs loc remote s = Inr (int_of_size (m_size m), p, arr, s1) \<and> s1 p = Some (nop_reduce (m # ms))"
proof -
  obtain p arr s1 where l: "combine_loop (Some nop_comb) loc [] remote s = Inr (p, arr, s1)"
    "s1 p = Some (foldl (\<lambda>ml mr. ml) m ms)"
    using nop_combiner.loop [of loc "[]" remote s m ms] assms(1-3) by auto
  then have "s1 p = Some (nop_reduce (m # ms))" by (simp add: nop_reduce_def)
  moreover from this have "s1 p = Some m" by (simp add: nop_reduce_hd)
  ultimately show ?thesis
    using l(1) assms(2,4) by (simp add: converse_combiner_def deref_def)
qed

section \<open>The program \<open>examples/basic\<close>\<close>

text \<open>
  \<open>archive/charmlite/examples/basic/pgm.cc\<close>. A message carries an \<open>int\<close>; \<open>B\<close> are its size and the bytes of its
  memory before it is constructed. \<open>foo_out\<close> is what the chare printed: its index, the PE, its value, the message's, and their sum.
\<close>

record foo =
  foo_val :: int
  foo_out :: "(int \<times> nat \<times> int \<times> int \<times> int) list"

definition test_message :: "u64 \<times> destination \<Rightarrow> int \<Rightarrow> int msg" where
  "test_message B i = new_data_message 1 (fst B) (snd B) i"

definition foo_foo :: "(foo, int) entry_fn" where
  "foo_foo = \<lparr>en_init = (\<lambda>m. \<lparr>foo_val = m_body m, foo_out = []\<rparr>), en_body = (\<lambda>m. [])\<rparr>"

text \<open>\<open>index()\<close>: the low half of the chare's index as an \<open>int\<close>; the method runs on the chare that the message names.
  Only a constructor's \<open>en_init\<close> is used.\<close>

definition decode_int :: "u64 \<Rightarrow> int" where
  "decode_int w = sint (ucast w :: 32 word)"

definition foo_bar :: "nat \<Rightarrow> (foo, int) entry_fn" where
  "foo_bar pe = \<lparr>en_init = (\<lambda>m. \<lparr>foo_val = 0, foo_out = []\<rparr>), en_body = (\<lambda>m. [\<lambda>u.
     (u\<lparr>foo_out := foo_out u @ [(decode_int (d_w1 (m_dst m)), pe, foo_val u, m_body m, foo_val u + m_body m)]\<rparr>,
      [reduce_send 1 1 m])])\<rparr>"

text \<open>The tables of the program; its only combiner is \<open>nop\<close>, its only callback \<open>exit\<close>.\<close>

definition basic_env :: "nat \<Rightarrow> nat \<Rightarrow> (foo, int) env" where
  "basic_env n p = \<lparr>my_pe = p, num_pes = n, span_children = (\<lambda>_. []), span_parent = (\<lambda>_. None),
     entries = [(foo_foo, True), (foo_bar p, False)], kinds = [Default_mapper], callbacks = [\<lambda>m. [AExit m]]\<rparr>"

text \<open>
  \<open>operator[]\<close> of a collective's proxy, and \<open>main\<close> on PE 0, up to the scheduler. The element proxy of the source keeps a
  reference to an index that is gone when \<open>operator[]\<close> returns; reading it is undefined there, and the model
  takes the value that the reference was bound to.
\<close>

definition proxy_at :: "collective_index \<Rightarrow> int \<Rightarrow> collective_index \<times> u64" where
  "proxy_at arr i = (arr, encode_int i)"

definition basic_body :: "u64 \<times> destination \<Rightarrow> nat \<Rightarrow> collective_index \<Rightarrow> (foo, int) job list" where
  "basic_body B n arr = concat (map (\<lambda>i. case proxy_at arr (int i) of (col, idx) \<Rightarrow>
     [JAct (proxy_insert col idx 1 (test_message B (int i))),
      JAct (proxy_send col idx 2 (test_message B (int i + 1)))]) [0..<n])"

definition basic_main :: "u64 \<times> destination \<Rightarrow> nat \<Rightarrow> (foo, int) pe \<Rightarrow> bool" where
  "basic_main B n st \<longleftrightarrow>
     (case collective_construct (basic_env n 0) 1 (creation_msg (fst B) (snd B) 0) new_pe of (arr, st0) \<Rightarrow>
        returns (basic_env n 0) st0 (basic_body B n arr) st)"

definition basic_start :: "u64 \<times> destination \<Rightarrow> nat \<Rightarrow> (foo, int) cnet \<Rightarrow> bool" where
  "basic_start B n net \<longleftrightarrow> (\<exists>st. basic_main B n st \<and>
     net = put_out n 0 st \<lparr>cn_pe = (\<lambda>_. new_pe), cn_flight = [], cn_reds = (\<lambda>_. []), cn_done = 0\<rparr>)"

abbreviation basic_step :: "nat \<Rightarrow> (foo, int) cnet \<Rightarrow> (foo, int) cnet \<Rightarrow> bool" where
  "basic_step n \<equiv> cnet_step n (basic_env n) nop_reduce"

lemma decode_encode_int:
  assumes "- (2 ^ 31) \<le> i" and "i < 2 ^ 31"
  shows "decode_int (encode_int i) = i"
proof -
  have "ucast (word_of_int i :: u64) = (word_of_int i :: 32 word)"
    by (rule bit_word_eqI) (simp add: bit_simps)
  then show ?thesis using assms by (simp add: decode_int_def encode_int_def signed_of_int signed_take_bit_int_eq_self)
qed

end
