(* ===== verification/Charm_Basic.thy ===== *)
theory Charm_Basic
  imports Charm_Net
begin

text \<open>
  \<open>examples/basic\<close> on one PE: its state as a function of what it has received, and what each message does to it.
\<close>

section \<open>Messages and states\<close>

datatype bkind = Ins | Bar

lemma bkind_UNIV: "(UNIV :: bkind set) = {Ins, Bar}"
  by (auto intro: bkind.exhaust)

definition barr :: collective_index where
  "barr = CIndex 0 0"

abbreviation bidx :: "nat \<Rightarrow> u64" where
  "bidx p \<equiv> encode_int (int p)"

definition bmsg :: "u64 \<times> destination \<Rightarrow> nat \<Rightarrow> bkind \<Rightarrow> int msg" where
  "bmsg B p k = (case k of Ins \<Rightarrow> to_element barr (bidx p) 1 (test_message B (int p))
     | Bar \<Rightarrow> to_element barr (bidx p) 2 (test_message B (int p + 1)))"

definition bnew :: "u64 \<times> destination \<Rightarrow> int msg" where
  "bnew B = creation_msg (fst B) (snd B) 0 barr 1"

definition bred :: "u64 \<times> destination \<Rightarrow> nat \<Rightarrow> int msg" where
  "bred B p = reduce_dst 1 1 (bmsg B p Bar)"

definition bexit :: "u64 \<times> destination \<Rightarrow> int msg" where
  "bexit B = (bred B 0)\<lparr>m_dst := dest_callback 1 all_pes (m_dst (bred B 0))\<rparr>"

text \<open>A PE with the messages \<open>ws\<close> that wait for the collective, and the collective, if there.\<close>

definition bpe ::
  "nat \<Rightarrow> int msg list \<Rightarrow> (foo, int) coll option \<Rightarrow> int net list \<Rightarrow> (collective_index \<times> u64 \<times> int msg) list \<Rightarrow> (foo, int) pe" where
  "bpe p ws co out log = \<lparr>pe_cols = (case co of None \<Rightarrow> Map.empty | Some co \<Rightarrow> [barr \<mapsto> co]),
     pe_waiting = (\<lambda>_. [])(barr := ws), pe_count = (if p = 0 then 1 else 0), pe_out = out, pe_exit = False, pe_log = log\<rparr>"

definition bco :: "nat \<Rightarrow> int msg list \<Rightarrow> foo chare option \<Rightarrow> (foo, int) coll" where
  "bco p buf ch = \<lparr>co_mapper = Default_mapper, co_buffers = (\<lambda>_. [])(bidx p := buf),
     co_chares = (case ch of None \<Rightarrow> Map.empty | Some ch \<Rightarrow> [bidx p \<mapsto> ch])\<rparr>"

definition bchare :: "nat \<Rightarrow> (int \<times> nat \<times> int \<times> int \<times> int) list \<Rightarrow> foo chare" where
  "bchare p out = \<lparr>ch_parent = barr, ch_index = bidx p, ch_last = 0, ch_user = \<lparr>foo_val = int p, foo_out = out\<rparr>\<rparr>"

text \<open>What the chare of PE \<open>p\<close> prints.\<close>

definition bline :: "nat \<Rightarrow> int \<times> nat \<times> int \<times> int \<times> int" where
  "bline p = (int p, p, int p, int p + 1, 2 * int p + 1)"

text \<open>After the messages \<open>S\<close> of the two, in either order: the collective, the calls of methods, the contribution.\<close>

definition bpost :: "u64 \<times> destination \<Rightarrow> nat \<Rightarrow> bkind set \<Rightarrow> (foo, int) coll" where
  "bpost B p S = bco p (if Bar \<in> S \<and> Ins \<notin> S then [bmsg B p Bar] else [])
     (if Ins \<in> S then Some (bchare p (if Bar \<in> S then [bline p] else [])) else None)"

definition blog :: "u64 \<times> destination \<Rightarrow> nat \<Rightarrow> bkind set \<Rightarrow> (collective_index \<times> u64 \<times> int msg) list" where
  "blog B p S = (if Ins \<in> S then [(barr, bidx p, bmsg B p Ins)] else []) @
     (if Ins \<in> S \<and> Bar \<in> S then [(barr, bidx p, bmsg B p Bar)] else [])"

definition bouts :: "u64 \<times> destination \<Rightarrow> nat \<Rightarrow> bkind set \<Rightarrow> int net list" where
  "bouts B p S = (if Ins \<in> S \<and> Bar \<in> S then [NReduce (bred B p)] else [])"

section \<open>Single calls\<close>

lemma bidx_facts:
  assumes "p < 2 ^ 30"
  shows "unat (bidx p) = p" "bidx p \<noteq> chare_bcast_root"
proof -
  show u: "unat (bidx p) = p" using assms by (simp add: encode_int_def unat_of_nat take_bit_nat_eq_self)
  show "bidx p \<noteq> chare_bcast_root"
  proof
    assume "bidx p = chare_bcast_root"
    then have "p = unat chare_bcast_root" using u by metis
    then show False using assms by (simp add: chare_bcast_root_def unsigned_minus_1_eq_mask mask_eq_exp_minus_1)
  qed
qed

lemma bidx_inj: "p < 2 ^ 30 \<Longrightarrow> q < 2 ^ 30 \<Longrightarrow> bidx p = bidx q \<longleftrightarrow> p = q"
  using bidx_facts(1) by metis

lemma foo_foo_simps: "en_init foo_foo m = \<lparr>foo_val = m_body m, foo_out = []\<rparr>" "en_body foo_foo m = []"
  by (simp_all add: foo_foo_def)

lemma benv_simps [simp]:
  "my_pe (basic_env n p) = p" "num_pes (basic_env n p) = n"
  "entries (basic_env n p) = [(foo_foo, True), (foo_bar p, False)]" "kinds (basic_env n p) = [Default_mapper]"
  "callbacks (basic_env n p) = [\<lambda>m. [AExit m]]"
  by (simp_all add: basic_env_def)

lemma bpe_for: "q < n \<Longrightarrow> n < 2 ^ 30 \<Longrightarrow> pe_for (basic_env n p) (bidx q) = q"
  by (simp add: pe_for_def bidx_facts)

lemma bmsg_dst:
  "m_dst (bmsg B p k) = \<lparr>d_kind = KEndpoint, d_w0 = ci_view barr, d_w1 = bidx p, d_w2 = (case k of Ins \<Rightarrow> 1 | Bar \<Rightarrow> 2), d_bc = 0\<rparr>"
  "\<not> m_creates (bmsg B p k)" "m_body (bmsg B p k) = (case k of Ins \<Rightarrow> int p | Bar \<Rightarrow> int p + 1)"
  by (simp_all add: bmsg_def to_element_def dest_endpoint_def test_message_def new_data_message_def dest_none_def split: bkind.split)

lemma bmsg_inj:
  assumes "p < 2 ^ 30" and "q < 2 ^ 30"
  shows "bmsg B p k = bmsg B q l \<longleftrightarrow> p = q \<and> k = l"
proof
  assume e: "bmsg B p k = bmsg B q l"
  have "m_dst (bmsg B p k) = m_dst (bmsg B q l)" by (simp only: e)
  then show "p = q \<and> k = l" using bidx_inj [OF assms] by (simp add: bmsg_dst split: bkind.splits)
qed simp

lemma bpe_simps [simp]:
  "pe_cols (bpe p ws (Some co) out log) = [barr \<mapsto> co]" "pe_cols (bpe p ws None out log) = Map.empty"
  "pe_waiting (bpe p ws co' out log) barr = ws" "pe_log (bpe p ws co' out log) = log" "pe_out (bpe p ws co' out log) = out"
  "\<not> pe_exit (bpe p ws co' out log)"
  "put_col barr co (bpe p ws co' out log) = bpe p ws (Some co) out log"
  "(bpe p ws co' out log)\<lparr>pe_log := log'\<rparr> = bpe p ws co' out log'"
  "(bpe p ws co' out log)\<lparr>pe_out := out'\<rparr> = bpe p ws co' out' log"
  "emit ns (bpe p ws co' out log) = bpe p ws co' (out @ ns) log"
  "(bpe p ws co' out log)\<lparr>pe_waiting := (pe_waiting (bpe p ws co' out log))(barr := ws')\<rparr> = bpe p ws' co' out log"
  by (auto simp: bpe_def put_col_def emit_def split: option.splits)

lemma bco_simps [simp]:
  "co_chares (bco p buf (Some ch)) = [bidx p \<mapsto> ch]" "co_chares (bco p buf None) = Map.empty"
  "co_buffers (bco p buf c) (bidx p) = buf"
  "put_chare (bidx p) ch (bco p buf c) = bco p buf (Some ch)" "put_buffer (bidx p) buf' (bco p buf c) = bco p buf' c"
  by (auto simp: bco_def put_chare_def put_buffer_def split: option.splits)

lemma new_bco: "new_coll Default_mapper = bco p [] None"
  by (auto simp: new_coll_def bco_def)

lemma bdeliver: "job_step E (JDeliver (bmsg B q k)) st = Inr (st, [JEndpoint True (bmsg B q k)])"
  by (simp add: deliver_msg_def bmsg_dst)

lemma brec: "entry_at (entries (basic_env n p)) (case k of Ins \<Rightarrow> 1 | Bar \<Rightarrow> 2)
    = Inr (Some (case k of Ins \<Rightarrow> (foo_foo, True) | Bar \<Rightarrow> (foo_bar p, False)))"
  by (simp add: entry_at_def at_def split: bkind.split)

lemma bwait: "job_step E (JEndpoint True (bmsg B q k)) (bpe p ws None out log)
    = Inr (bpe p (ws @ [bmsg B q k]) None out log, [])"
  by (simp add: deliver_to_endpoint_def endpoint_of_def bmsg_dst)

lemma bthere: "job_step E (JEndpoint True (bmsg B q k)) (bpe p ws (Some co) out log)
    = Inr (bpe p ws (Some co) out log, [JCol True barr (bmsg B q k)])"
  by (simp add: deliver_to_endpoint_def endpoint_of_def bmsg_dst)

lemma bcreate:
  "job_step E (JDeliver (bnew B)) st = Inr (st, [JEndpoint True (bnew B)])"
  "job_step (basic_env n p) (JEndpoint True (bnew B)) (bpe p ws None out log)
    = Inr (bpe p ws (Some (bco p [] None)) out log, [JDrain True barr])"
  by (simp_all add: bnew_def creation_msg_def Let_def dest_endpoint_def deliver_msg_def deliver_to_endpoint_def
      endpoint_of_def at_def check_def new_bco [of p])

lemma bdrain:
  "job_step E (JDrain True barr) (bpe p [] co out log) = Inr (bpe p [] co out log, [])"
  "job_step E (JDrain True barr) (bpe p (m # ws) co out log) = Inr (bpe p ws co out log, [JCol True barr m, JDrain True barr])"
  by (simp_all add: drain_def)

lemma bcol_ins:
  assumes "p < n" and "n < 2 ^ 30"
  shows "job_step (basic_env n p) (JCol True barr (bmsg B p Ins)) (bpe p ws (Some (bco p buf None)) out log)
    = Inr (bpe p ws (Some (bco p buf (Some (bchare p [])))) out (log @ [(barr, bidx p, bmsg B p Ins)]),
           [JBody barr (bidx p) [], JFlush barr (bidx p)])"
  using bpe_for [OF assms] bidx_facts [of p] assms
  by (simp add: deliver_now_def try_deliver_def lookup_col_def endpoint_of_def bmsg_dst brec [of n p Ins, simplified] called_def invoke_entry_def Let_def
      foo_foo_simps bmsg_dst bchare_def)

lemma bcol_bar:
  assumes "p < n" and "n < 2 ^ 30"
  shows "job_step (basic_env n p) (JCol True barr (bmsg B p Bar)) (bpe p ws (Some (bco p buf None)) out log)
      = Inr (bpe p ws (Some (bco p (buf @ [bmsg B p Bar]) None)) out log, [])"
    "job_step (basic_env n p) (JCol True barr (bmsg B p Bar)) (bpe p ws (Some (bco p buf (Some ch))) out log)
      = Inr (bpe p ws (Some (bco p buf (Some ch))) out log, [JHandle barr (bidx p) (Some (foo_bar p, False)) (bmsg B p Bar)])"
  using bpe_for [OF assms] bidx_facts [of p] assms
  by (simp_all add: deliver_now_def try_deliver_def lookup_col_def endpoint_of_def bmsg_dst brec [of n p Bar, simplified] called_def buffer_msg_def Let_def)

lemma bcol_other:
  assumes "p < n" and "n < 2 ^ 30" and "q < n" and "q \<noteq> p"
  shows "job_step (basic_env n p) (JCol True barr (bmsg B q k)) (bpe p ws (Some (bco p buf ch)) out log)
    = Inr (bpe p ws (Some (bco p buf ch)) (out @ [NSend q (bmsg B q k)]) log, [])"
proof -
  have "bidx q \<noteq> bidx p" "bidx q \<noteq> chare_bcast_root" using assms bidx_inj [of q p] bidx_facts [of q] by simp_all
  then show ?thesis
    using bpe_for [OF assms(3,2)] assms(4)
    by (cases ch) (simp_all add: deliver_now_def try_deliver_def lookup_col_def endpoint_of_def bmsg_dst brec [simplified] called_def Let_def)
qed

lemma bhandle:
  assumes "p < 2 ^ 30"
  shows "returns (basic_env n p) (bpe p ws (Some (bco p buf (Some (bchare p [])))) out log)
      [JHandle barr (bidx p) (Some (foo_bar p, False)) (bmsg B p Bar)]
      (bpe p ws (Some (bco p buf (Some (bchare p [bline p])))) (out @ [NReduce (bred B p)])
        (log @ [(barr, bidx p, bmsg B p Bar)]))"
  (is "returns ?E ?st [?h] ?st3")
proof -
  have d: "decode_int (bidx p) = int p" using assms by (intro decode_encode_int) simp_all
  let ?st1 = "bpe p ws (Some (bco p buf (Some (bchare p [])))) out (log @ [(barr, bidx p, bmsg B p Bar)])"
  let ?st2 = "bpe p ws (Some (bco p buf (Some (bchare p [bline p])))) out (log @ [(barr, bidx p, bmsg B p Bar)])"
  have 1: "job_step ?E ?h ?st = Inr (?st1, [JBody barr (bidx p) (en_body (foo_bar p) (bmsg B p Bar))])"
    using bidx_facts [OF assms]
    by (simp add: handle_msg_def invoke_entry_def lookup_col_def lookup_chare_def is_broadcast_def bmsg_dst)
  have 2: "job_step ?E (JBody barr (bidx p) (en_body (foo_bar p) (bmsg B p Bar))) ?st1
      = Inr (?st2, [JAct (AReduce (bred B p)), JBody barr (bidx p) []])"
    by (simp add: foo_bar_def lookup_col_def lookup_chare_def bchare_def bline_def bmsg_dst d reduce_send_def bred_def)
  have 3: "job_step ?E (JAct (AReduce (bred B p))) ?st2 = Inr (?st3, [])" by simp
  have 4: "job_step ?E (JBody barr (bidx p) []) ?st3 = Inr (?st3, [])" by simp
  show ?thesis
    by (rule returns_step [OF 1]) (simp add: returns_step [OF 2] returns_step [OF 3] returns_step [OF 4] returns_Nil)
qed

lemma bflush:
  assumes "p < n" and "n < 2 ^ 30"
  shows "job_step E (JFlush barr (bidx p)) (bpe p ws (Some (bco p [] ch)) out log) = Inr (bpe p ws (Some (bco p [] ch)) out log, [])"
    "job_step (basic_env n p) (JFlush barr (bidx p)) (bpe p ws (Some (bco p [bmsg B p Bar] (Some c))) out log)
      = Inr (bpe p ws (Some (bco p [bmsg B p Bar] (Some c))) out log, [JHandle barr (bidx p) (Some (foo_bar p, False)) (bmsg B p Bar),
          JPop barr (bidx p) (bmsg B p Bar), JFlush barr (bidx p)])"
    "job_step E (JPop barr (bidx p) (bmsg B p Bar)) (bpe p ws (Some (bco p [bmsg B p Bar] ch)) out log)
      = Inr (bpe p ws (Some (bco p [] ch)) out log, [])"
  using bpe_for [OF assms] bidx_facts [of p] assms
  by (simp_all add: flush_buffers_def try_deliver_def lookup_col_def endpoint_of_def bmsg_dst brec [of n p Bar, simplified] called_def Let_def pop_buffer_def)

section \<open>Handled messages\<close>

text \<open>One of the two messages, or all that waited, once the collective is there.\<close>

lemma bcol_step:
  assumes p: "p < n" "n < 2 ^ 30" and k: "k \<notin> S"
  shows "returns (basic_env n p) (bpe p ws (Some (bpost B p S)) (out @ bouts B p S) (blog B p S)) [JCol True barr (bmsg B p k)]
    (bpe p ws (Some (bpost B p (insert k S))) (out @ bouts B p (insert k S)) (blog B p (insert k S)))"
proof -
  have p30: "p < 2 ^ 30" using p by simp
  consider (ins) "k = Ins" "Bar \<notin> S" "Ins \<notin> S" | (flush) "k = Ins" "Bar \<in> S" "Ins \<notin> S"
    | (early) "k = Bar" "Ins \<notin> S" "Bar \<notin> S" | (bar) "k = Bar" "Ins \<in> S" "Bar \<notin> S"
    using k by (cases k) auto
  then show ?thesis
  proof cases
    case ins
    then show ?thesis
      by (simp add: bpost_def blog_def bouts_def)
        (rule returns_step [OF bcol_ins [OF p]], simp, rule returns_step, simp, simp,
          rule returns_last, rule bflush(1) [OF p])
  next
    case flush
    have "returns (basic_env n p) (bpe p ws (Some (bco p [bmsg B p Bar] None)) out []) [JCol True barr (bmsg B p Ins)]
      (bpe p ws (Some (bco p [] (Some (bchare p [bline p])))) (out @ [NReduce (bred B p)])
        ([(barr, bidx p, bmsg B p Ins)] @ [(barr, bidx p, bmsg B p Bar)]))"
      by (rule returns_step [OF bcol_ins [OF p]], simp, rule returns_step, simp, simp,
          rule returns_step [OF bflush(2) [OF p]], simp, rule returns_Cons [OF bhandle [OF p30]],
          rule returns_step [OF bflush(3) [OF p]], simp, rule returns_last, rule bflush(1) [OF p])
    then show ?thesis using flush by (simp add: bpost_def blog_def bouts_def)
  next
    case early
    have "returns (basic_env n p) (bpe p ws (Some (bco p [] None)) out []) [JCol True barr (bmsg B p Bar)]
      (bpe p ws (Some (bco p ([] @ [bmsg B p Bar]) None)) out [])"
      by (rule returns_last, rule bcol_bar(1) [OF p])
    then show ?thesis using early by (simp add: bpost_def blog_def bouts_def)
  next
    case bar
    have "returns (basic_env n p) (bpe p ws (Some (bco p [] (Some (bchare p [])))) out [(barr, bidx p, bmsg B p Ins)])
      [JCol True barr (bmsg B p Bar)]
      (bpe p ws (Some (bco p [] (Some (bchare p [bline p])))) (out @ [NReduce (bred B p)])
        ([(barr, bidx p, bmsg B p Ins)] @ [(barr, bidx p, bmsg B p Bar)]))"
      by (rule returns_step [OF bcol_bar(2) [OF p]], rule returns_append [OF bhandle [OF p30] returns_Nil])
    then show ?thesis using bar by (simp add: bpost_def blog_def bouts_def)
  qed
qed

lemma bdrained: "returns E (bpe p [] co out log) [JDrain True barr] (bpe p [] co out log)"
  by (rule returns_last, rule bdrain(1))

lemma bdrain_own:
  assumes p: "p < n" "n < 2 ^ 30"
  shows "distinct ks \<Longrightarrow> set ks \<inter> S = {} \<Longrightarrow>
    returns (basic_env n p) (bpe p ws (Some (bpost B p (S \<union> set ks))) (out @ bouts B p (S \<union> set ks)) (blog B p (S \<union> set ks)))
      [JDrain True barr] st \<Longrightarrow>
    returns (basic_env n p) (bpe p (map (bmsg B p) ks @ ws) (Some (bpost B p S)) (out @ bouts B p S) (blog B p S))
      [JDrain True barr] st"
proof (induction ks arbitrary: S)
  case (Cons k ks)
  have k: "k \<notin> S" and u: "S \<union> set (k # ks) = insert k S \<union> set ks" using Cons.prems(2) by auto
  have ih: "returns (basic_env n p) (bpe p (map (bmsg B p) ks @ ws) (Some (bpost B p (insert k S))) (out @ bouts B p (insert k S)) (blog B p (insert k S)))
      [JDrain True barr] st"
    by (rule Cons.IH) (use Cons.prems in \<open>auto simp: u\<close>)
  show ?case
    unfolding list.map append_Cons
    by (rule returns_step [OF bdrain(2)], simp, rule returns_Cons [OF bcol_step [OF p k] ih])
qed simp

lemma bdrain_other:
  assumes p: "p < n" "n < 2 ^ 30"
  shows "\<forall>(q, k) \<in> set qs. q < n \<and> q \<noteq> p \<Longrightarrow>
    returns (basic_env n p) (bpe p (map (\<lambda>(q, k). bmsg B q k) qs) (Some (bco p buf ch)) out log) [JDrain True barr]
      (bpe p [] (Some (bco p buf ch)) (out @ map (\<lambda>(q, k). NSend q (bmsg B q k)) qs) log)"
proof (induction qs arbitrary: out)
  case Nil
  show ?case by (simp add: bdrained)
next
  case (Cons e qs)
  obtain q k where e: "e = (q, k)" by fastforce
  have q: "q < n" "q \<noteq> p" and rest: "\<forall>(q, k) \<in> set qs. q < n \<and> q \<noteq> p" using Cons.prems e by auto
  have "returns (basic_env n p) (bpe p (map (\<lambda>(q, k). bmsg B q k) qs) (Some (bco p buf ch)) out log) [JCol True barr (bmsg B q k)]
      (bpe p (map (\<lambda>(q, k). bmsg B q k) qs) (Some (bco p buf ch)) (out @ [NSend q (bmsg B q k)]) log)"
    by (rule returns_last, rule bcol_other [OF p q])
  from returns_Cons [OF this Cons.IH [OF rest]] show ?case
    unfolding e list.map prod.case by (intro returns_step [OF bdrain(2)]) simp
qed

text \<open>The state of a PE: which messages wait for the collective, or what came when it is there.\<close>

datatype bphase = Pre "bkind list" | Post "bkind set"

fun got :: "bphase \<Rightarrow> bkind set" where
  "got (Pre ks) = set ks"
| "got (Post S) = S"

fun is_post :: "bphase \<Rightarrow> bool" where
  "is_post (Pre ks) = False"
| "is_post (Post S) = True"

definition ball :: "nat \<Rightarrow> (nat \<times> bkind) list" where
  "ball n = concat (map (\<lambda>q. [(q, Ins), (q, Bar)]) [0..<n])"

text \<open>On PE 0 all messages wait for the collective.\<close>

fun bstate :: "u64 \<times> destination \<Rightarrow> nat \<Rightarrow> nat \<Rightarrow> bphase \<Rightarrow> int net list \<Rightarrow> (foo, int) pe" where
  "bstate B n p (Pre ks) out = bpe p (if p = 0 then map (\<lambda>(q, k). bmsg B q k) (ball n) else map (bmsg B p) ks) None out []"
| "bstate B n p (Post S) out = bpe p [] (Some (bpost B p S)) out (blog B p S)"

text \<open>The phase after a message for the chare, and after the one that creates the collective.\<close>

fun on_msg :: "bkind \<Rightarrow> bphase \<Rightarrow> bphase" where
  "on_msg k (Pre ks) = Pre (ks @ [k])"
| "on_msg k (Post S) = Post (insert k S)"

fun phase_outs :: "u64 \<times> destination \<Rightarrow> nat \<Rightarrow> bphase \<Rightarrow> int net list" where
  "phase_outs B p (Pre ks) = []"
| "phase_outs B p (Post S) = bouts B p S"

lemma bdeliver_post:
  "returns E (bpe p ws (Some co) out log) [JCol True barr (bmsg B q k)] st \<Longrightarrow>
    returns E (bpe p ws (Some co) out log) [JDeliver (bmsg B q k)] st"
  by (rule returns_step [OF bdeliver], simp, rule returns_step [OF bthere], simp)

lemma handle_msg_elem:
  assumes p: "p < n" "n < 2 ^ 30" "p \<noteq> 0" and k: "k \<notin> got ph"
  shows "returns (basic_env n p) (bstate B n p ph []) [JDeliver (bmsg B p k)] (bstate B n p (on_msg k ph) (phase_outs B p (on_msg k ph)))"
proof (cases ph)
  case (Pre ks)
  have "returns (basic_env n p) (bpe p (map (bmsg B p) ks) None [] []) [JDeliver (bmsg B p k)]
      (bpe p (map (bmsg B p) ks @ [bmsg B p k]) None [] [])"
    by (rule returns_step [OF bdeliver], simp, rule returns_last, rule bwait)
  then show ?thesis using Pre p(3) by simp
next
  case (Post S)
  then have k: "k \<notin> S" using k by simp
  then have "bouts B p S = []" by (cases k) (auto simp: bouts_def)
  then show ?thesis
    using bdeliver_post [OF bcol_step [OF p(1,2) k, where B = B and ws = "[]" and out = "[]"]] Post by simp
qed

lemma bcreated:
  assumes "returns (basic_env n p) (bpe p ws (Some (bco p [] None)) out log) [JDrain True barr] st"
  shows "returns (basic_env n p) (bpe p ws None out log) [JDeliver (bnew B)] st"
  by (rule returns_step [OF bcreate(1)], simp, rule returns_step [OF bcreate(2)], simp add: assms)

lemma bpost_none: "bpost B p {} = bco p [] None" "blog B p {} = []" "bouts B p {} = []"
  by (simp_all add: bpost_def blog_def bouts_def)

lemma handle_new_elem:
  assumes p: "p < n" "n < 2 ^ 30" "p \<noteq> 0" and ks: "distinct ks"
  shows "returns (basic_env n p) (bstate B n p (Pre ks) []) [JDeliver (bnew B)] (bstate B n p (Post (set ks)) (bouts B p (set ks)))"
proof -
  have "returns (basic_env n p) (bpe p (map (bmsg B p) ks @ []) (Some (bpost B p {})) ([] @ bouts B p {}) (blog B p {}))
      [JDrain True barr] (bpe p [] (Some (bpost B p (set ks))) (bouts B p (set ks)) (blog B p (set ks)))"
    by (rule bdrain_own [OF p(1,2) ks]) (simp_all add: bdrained)
  then show ?thesis using bcreated [of n p] p(3) by (simp add: bpost_none)
qed

lemma ball_split: "0 < n \<Longrightarrow> ball n = [(0, Ins), (0, Bar)] @ concat (map (\<lambda>q. [(q, Ins), (q, Bar)]) [1..<n])"
  by (simp add: ball_def upt_conv_Cons)

definition bsends :: "u64 \<times> destination \<Rightarrow> nat \<Rightarrow> int net list" where
  "bsends B n = map (\<lambda>(q, k). NSend q (bmsg B q k)) (concat (map (\<lambda>q. [(q, Ins), (q, Bar)]) [1..<n]))"

lemma handle_new_root:
  assumes n: "0 < n" "n < 2 ^ 30"
  shows "returns (basic_env n 0) (bstate B n 0 (Pre ks) []) [JDeliver (bnew B)]
    (bstate B n 0 (Post UNIV) (bouts B 0 UNIV @ bsends B n))"
proof -
  let ?qs = "concat (map (\<lambda>q. [(q, Ins), (q, Bar)]) [1..<n])" and ?ks = "[Ins, Bar]"
  have u: "{} \<union> set ?ks = UNIV" by (simp add: bkind_UNIV)
  have other: "\<forall>(q, k) \<in> set ?qs. q < n \<and> q \<noteq> 0" by auto
  obtain buf ch where co: "bpost B 0 UNIV = bco 0 buf ch" by (simp add: bpost_def)
  have "returns (basic_env n 0) (bpe 0 (map (\<lambda>(q, k). bmsg B q k) ?qs) (Some (bpost B 0 UNIV)) ([] @ bouts B 0 UNIV) (blog B 0 UNIV))
      [JDrain True barr] (bpe 0 [] (Some (bpost B 0 UNIV)) (([] @ bouts B 0 UNIV) @ map (\<lambda>(q, k). NSend q (bmsg B q k)) ?qs) (blog B 0 UNIV))"
    unfolding co by (rule bdrain_other [OF n other])
  then have "returns (basic_env n 0) (bpe 0 (map (bmsg B 0) ?ks @ map (\<lambda>(q, k). bmsg B q k) ?qs) (Some (bpost B 0 {})) ([] @ bouts B 0 {}) (blog B 0 {}))
      [JDrain True barr] (bpe 0 [] (Some (bpost B 0 UNIV)) (([] @ bouts B 0 UNIV) @ map (\<lambda>(q, k). NSend q (bmsg B q k)) ?qs) (blog B 0 UNIV))"
    by (intro bdrain_own [OF n]) (simp_all only: u, simp_all)
  then show ?thesis
    using bcreated [of n 0] by (simp add: bpost_none ball_split [OF n(1)] bsends_def)
qed

end
