(* ===== verification/Charm_Deliver.thy ===== *)
theory Charm_Deliver
  imports Charm_Core
begin

text \<open>
  What \<open>deliver\<close> does with messages that arrive early, in order and out of order
  (\<open>archive/charmlite/include/collective.hh\<close>, \<open>src/core.cc\<close>).
\<close>

section \<open>Calls that return\<close>

lemma exec_steps_append:
  "exec E n st js = Some (Inr st1) \<Longrightarrow> \<exists>m. \<forall>ks. steps E m st (js @ ks) = Some (st1, ks)"
proof (induction n arbitrary: st js)
  case 0
  then show ?case by (cases js) (auto intro: exI [of _ 0])
next
  case (Suc n)
  show ?case
  proof (cases js)
    case Nil
    then show ?thesis using Suc.prems by (auto intro: exI [of _ 0])
  next
    case (Cons j js')
    then obtain st2 ks where j: "job_step E j st = Inr (st2, ks)" "exec E n st2 (ks @ js') = Some (Inr st1)"
      using Suc.prems by (auto split: sum.splits)
    from Suc.IH [OF j(2)] obtain m where "\<forall>xs. steps E m st2 ((ks @ js') @ xs) = Some (st1, xs)"
      by blast
    then have "\<forall>xs. steps E (Suc m) st (js @ xs) = Some (st1, xs)" using j(1) Cons by simp
    then show ?thesis by blast
  qed
qed

lemma diverges_after: "returns E st js st1 \<Longrightarrow> diverges E st1 ks \<Longrightarrow> diverges E st (js @ ks)"
  unfolding returns_def using exec_steps_append diverges_steps by blast

lemma diverges_step:
  "job_step E j st = Inr (st1, ks) \<Longrightarrow> diverges E st1 (ks @ js) \<Longrightarrow> diverges E st (j # js)"
  using diverges_steps [of E 1 st "j # js" st1 "ks @ js"] by simp

text \<open>Methods that make no calls, and their effect on the chare's data.\<close>

definition quiet :: "('u, 'b) segments \<Rightarrow> bool" where
  "quiet fs \<longleftrightarrow> (\<forall>f \<in> set fs. \<forall>u. snd (f u) = [])"

definition run_segs :: "('u, 'b) segments \<Rightarrow> 'u \<Rightarrow> 'u" where
  "run_segs fs u = fold (\<lambda>f u. fst (f u)) fs u"

named_theorems state "the components of an updated PE or collective"

lemma put_col_simps [state]:
  "pe_cols (put_col c co st) = (pe_cols st)(c \<mapsto> co)" "pe_log (put_col c co st) = pe_log st"
  "pe_out (put_col c co st) = pe_out st" "pe_waiting (put_col c co st) = pe_waiting st"
  "put_col c co1 (put_col c co2 st) = put_col c co1 st"
  by (simp_all add: put_col_def)

lemma put_chare_simps [state]:
  "co_chares (put_chare k ch co) = (co_chares co)(k \<mapsto> ch)"
  "co_buffers (put_chare k ch co) = co_buffers co" "co_mapper (put_chare k ch co) = co_mapper co"
  "put_chare k ch1 (put_chare k ch2 co) = put_chare k ch1 co"
  by (simp_all add: put_chare_def)

lemma put_buffer_simps [state]:
  "co_chares (put_buffer k ms co) = co_chares co" "co_mapper (put_buffer k ms co) = co_mapper co"
  "co_buffers (put_buffer k ms co) = (co_buffers co)(k := ms)"
  "put_buffer k ms1 (put_buffer k ms2 co) = put_buffer k ms1 co"
  by (simp_all add: put_buffer_def)

lemma emit_simps [state]:
  "pe_cols (emit ns st) = pe_cols st" "pe_log (emit ns st) = pe_log st"
  "pe_out (emit ns st) = pe_out st @ ns" "pe_waiting (emit ns st) = pe_waiting st"
  by (simp_all add: emit_def)

lemma put_same: "pe_cols st c = Some co \<Longrightarrow> put_col c co st = st"
  by (simp add: put_col_def fun_upd_idem)

lemma put_chare_same: "co_chares co k = Some ch \<Longrightarrow> put_chare k ch co = co"
  by (simp add: put_chare_def fun_upd_idem)

lemma body_returns:
  assumes "quiet fs" and "pe_cols st c = Some co" and "co_chares co k = Some ch"
  shows "returns E st [JBody c k fs]
    (put_col c (put_chare k (ch\<lparr>ch_user := run_segs fs (ch_user ch)\<rparr>) co) st)"
  using assms
proof (induction fs arbitrary: st co ch)
  case Nil
  then have "job_step E (JBody c k []) st = Inr (st, [])" by simp
  then show ?case
    using Nil by (auto intro!: returns_step simp: run_segs_def put_chare_same put_same)
next
  case (Cons f fs)
  have q: "quiet fs" and "snd (f (ch_user ch)) = []" using Cons.prems(1) by (auto simp: quiet_def)
  then obtain u where f: "f (ch_user ch) = (u, [])" by (metis prod.collapse)
  let ?ch = "ch\<lparr>ch_user := u\<rparr>" and ?co = "put_chare k (ch\<lparr>ch_user := u\<rparr>) co"
  have "job_step E (JBody c k (f # fs)) st = Inr (put_col c ?co st, [JBody c k fs])"
    using Cons.prems f by (simp add: lookup_col_def lookup_chare_def)
  moreover have "returns E (put_col c ?co st) [JBody c k fs]
      (put_col c (put_chare k (?ch\<lparr>ch_user := run_segs fs (ch_user ?ch)\<rparr>) ?co) (put_col c ?co st))"
    using q by (intro Cons.IH) (simp_all add: state)
  ultimately show ?case
    using f by (auto intro!: returns_step simp: run_segs_def state)
qed

text \<open>An endpoint message to chare \<open>k\<close> of \<open>c\<close> that runs the method \<open>e\<close>.\<close>

definition to_chare ::
  "('u, 'b) env \<Rightarrow> collective_index \<Rightarrow> u64 \<Rightarrow> 'b msg \<Rightarrow> ('u, 'b) entry_fn \<Rightarrow> bool \<Rightarrow> bool" where
  "to_chare E c k m e is_ctor \<longleftrightarrow> d_kind (m_dst m) = KEndpoint \<and> d_w0 (m_dst m) = ci_view c \<and>
     d_w1 (m_dst m) = k \<and> k \<noteq> chare_bcast_root \<and> \<not> m_creates m \<and>
     entry_at (entries E) (d_w2 (m_dst m)) = Inr (Some (e, is_ctor)) \<and> quiet (en_body e m)"

lemma to_chare_ep: "to_chare E c k m e b \<Longrightarrow> endpoint_of (m_dst m)
    = Inr \<lparr>ep_col = c, ep_chare = k, ep_entry = d_w2 (m_dst m), ep_bcast = d_bc (m_dst m)\<rparr>"
  by (simp add: to_chare_def endpoint_of_def)

lemma to_chare_rec: "to_chare E c k m e b \<Longrightarrow>
    called (entry_at (entries E) (d_w2 (m_dst m))) = Inr (e, b)"
  by (simp add: to_chare_def called_def)

lemma to_chare_bcast: "to_chare E c k m e b \<Longrightarrow> is_broadcast (m_dst m) \<longleftrightarrow> d_bc (m_dst m) \<noteq> 0"
  by (simp add: to_chare_def is_broadcast_def)

section \<open>Broadcasts in the buffer\<close>

text \<open>The buffer of \<open>k\<close> holds just the broadcast \<open>b\<close>, whose turn it is not.\<close>

definition stuck :: "collective_index \<Rightarrow> u64 \<Rightarrow> 'b msg \<Rightarrow> ('u, 'b) pe \<Rightarrow> bool" where
  "stuck c k b st \<longleftrightarrow> (\<exists>co ch. pe_cols st c = Some co \<and> co_chares co k = Some ch \<and>
     co_buffers co k = [b] \<and> unat (d_bc (m_dst b)) \<noteq> unat (ch_last ch) + 1)"

lemma stuck_cycle:
  assumes b: "to_chare E c k b e False" "d_bc (m_dst b) \<noteq> 0" and st: "stuck c k b st"
  shows "\<exists>st1. steps E 3 st (JFlush c k # js) = Some (st1, JFlush c k # js) \<and> stuck c k b st1"
proof -
  obtain co ch where co: "pe_cols st c = Some co" "co_chares co k = Some ch" "co_buffers co k = [b]"
    "unat (d_bc (m_dst b)) \<noteq> unat (ch_last ch) + 1"
    using st by (auto simp: stuck_def)
  let ?st1 = "put_col c (put_buffer k [b, b] co) st"
  let ?st2 = "put_col c (put_buffer k [b] co) st"
  have "job_step E (JFlush c k) st = Inr (st, [JHandle c k (Some (e, False)) b, JPop c k b, JFlush c k])"
    using co to_chare_ep [OF b(1)] to_chare_rec [OF b(1)]
    by (simp add: flush_buffers_def try_deliver_def lookup_col_def Let_def)
  moreover have "job_step E (JHandle c k (Some (e, False)) b) st = Inr (?st1, [])"
    using co b to_chare_ep [OF b(1)] to_chare_bcast [OF b(1)]
    by (simp add: handle_msg_def buffer_msg_def lookup_col_def lookup_chare_def)
  moreover have "job_step E (JPop c k b) ?st1 = Inr (?st2, [])"
    by (simp add: pop_buffer_def lookup_col_def state)
  ultimately have "steps E 3 st (JFlush c k # js) = Some (?st2, JFlush c k # js)"
    by (simp add: eval_nat_numeral)
  moreover have "stuck c k b ?st2" using co by (auto simp: stuck_def state)
  ultimately show ?thesis by blast
qed

lemma stuck_diverges:
  assumes b: "to_chare E c k b e False" "d_bc (m_dst b) \<noteq> 0" and st: "stuck c k b st"
  shows "diverges E st (JFlush c k # js)"
proof (rule diverges_coinduct [where P = "\<lambda>st js'. js' = JFlush c k # js \<and> stuck c k b st"])
  show "JFlush c k # js = JFlush c k # js \<and> stuck c k b st" using st by simp
next
  fix st :: "('a, 'b) pe" and js'
  assume P: "js' = JFlush c k # js \<and> stuck c k b st"
  then obtain st1 where "steps E 3 st js' = Some (st1, JFlush c k # js)" "stuck c k b st1"
    using stuck_cycle [OF b] by blast
  then show "\<exists>m st1 js1. steps E (Suc m) st js' = Some (st1, js1) \<and> js1 = JFlush c k # js \<and> stuck c k b st1"
    using numeral_3_eq_3 by metis
qed

text \<open>In-order broadcasts at a chare: numbers, forwarding, execution.\<close>

definition forwards :: "('u, 'b) env \<Rightarrow> u64 list \<Rightarrow> 'b msg \<Rightarrow> 'b net list" where
  "forwards E kids m = map (\<lambda>child. send_helper E (pe_for E child) (clone_to child m)) kids"

text \<open>The state after a broadcast in its turn, before the buffer is flushed.\<close>

definition bcast_state ::
  "('u, 'b) env \<Rightarrow> collective_index \<Rightarrow> u64 \<Rightarrow> ('u, 'b) entry_fn \<Rightarrow> u64 list \<Rightarrow> 'b msg \<Rightarrow> ('u, 'b) coll \<Rightarrow> 'u chare
    \<Rightarrow> ('u, 'b) pe \<Rightarrow> ('u, 'b) pe" where
  "bcast_state E c k e kids b co ch st =
     put_col c (put_chare k (ch\<lparr>ch_last := ch_last ch + 1, ch_user := run_segs (en_body e b) (ch_user ch)\<rparr>) co)
       ((emit (forwards E kids b) st)\<lparr>pe_log := pe_log st @ [(c, k, b)]\<rparr>)"

lemma handle_exact:
  assumes b: "to_chare E c k b e False" "d_bc (m_dst b) \<noteq> 0"
    and co: "pe_cols st c = Some co" "co_chares co k = Some ch" "ch_index ch = k"
    and turn: "unat (d_bc (m_dst b)) = unat (ch_last ch) + 1"
    and up: "upstream E (co_mapper co) k = Inr kids"
  shows "diverges E (bcast_state E c k e kids b co ch st) (JFlush c k # js) \<Longrightarrow>
        diverges E st (JHandle c k (Some (e, False)) b # js)"
    and "returns E (bcast_state E c k e kids b co ch st) (JFlush c k # js) st2 \<Longrightarrow>
        returns E st (JHandle c k (Some (e, False)) b # js) st2"
proof -
  let ?ch = "ch\<lparr>ch_last := ch_last ch + 1\<rparr>"
  let ?st = "(put_col c (put_chare k ?ch co) (emit (forwards E kids b) st))
    \<lparr>pe_log := pe_log st @ [(c, k, b)]\<rparr>"
  let ?ch1 = "?ch\<lparr>ch_user := run_segs (en_body e b) (ch_user ?ch)\<rparr>"
  let ?st1 = "put_col c (put_chare k ?ch1 (put_chare k ?ch co)) ?st"
  have st1: "bcast_state E c k e kids b co ch st = ?st1"
    by (simp add: bcast_state_def state) (simp add: put_col_def)
  have out: "map (\<lambda>cl. send_helper E (pe_for E (d_w1 (m_dst cl))) cl) (map (\<lambda>child. clone_to child b) kids)
      = forwards E kids b"
    by (simp add: forwards_def clone_to_def)
  have j: "job_step E (JHandle c k (Some (e, False)) b) st
      = Inr (?st, [JBody c k (en_body e b), JFlush c k])"
    using co b turn up to_chare_ep [OF b(1)] to_chare_bcast [OF b(1)] out
    by (simp add: handle_msg_def invoke_entry_def lookup_col_def lookup_chare_def Let_def state
        del: map_map)
  have q: "quiet (en_body e b)" using b(1) by (simp add: to_chare_def)
  have r: "returns E ?st [JBody c k (en_body e b)] ?st1"
    by (rule body_returns [OF q]) (simp_all add: state)
  show "diverges E (bcast_state E c k e kids b co ch st) (JFlush c k # js) \<Longrightarrow>
      diverges E st (JHandle c k (Some (e, False)) b # js)"
    using diverges_after [OF r, of "JFlush c k # js"] unfolding st1 by (intro diverges_step [OF j]) simp
  show "returns E (bcast_state E c k e kids b co ch st) (JFlush c k # js) st2 \<Longrightarrow>
      returns E st (JHandle c k (Some (e, False)) b # js) st2"
    using returns_append [OF r, of "JFlush c k # js"] unfolding st1 by (intro returns_step [OF j]) simp
qed

lemma handle_in_order:
  assumes b: "to_chare E c k b e False" "d_bc (m_dst b) \<noteq> 0"
    and co: "pe_cols st c = Some co" "co_chares co k = Some ch" "ch_index ch = k"
    and turn: "unat (d_bc (m_dst b)) = unat (ch_last ch) + 1"
    and up: "upstream E (co_mapper co) k = Inr kids"
  shows "\<exists>st1 co1 ch1. (\<forall>js. diverges E st1 (JFlush c k # js) \<longrightarrow>
        diverges E st (JHandle c k (Some (e, False)) b # js)) \<and>
      (\<forall>js st2. returns E st1 (JFlush c k # js) st2 \<longrightarrow>
        returns E st (JHandle c k (Some (e, False)) b # js) st2) \<and>
      pe_cols st1 c = Some co1 \<and> co_buffers co1 = co_buffers co \<and> co_mapper co1 = co_mapper co \<and>
      co_chares co1 k = Some ch1 \<and> ch_index ch1 = k \<and> ch_last ch1 = ch_last ch + 1 \<and>
      ch_user ch1 = run_segs (en_body e b) (ch_user ch) \<and>
      pe_log st1 = pe_log st @ [(c, k, b)] \<and> pe_out st1 = pe_out st @ forwards E kids b"
proof -
  let ?st1 = "bcast_state E c k e kids b co ch st"
  let ?ch1 = "ch\<lparr>ch_last := ch_last ch + 1, ch_user := run_segs (en_body e b) (ch_user ch)\<rparr>"
  have "pe_cols ?st1 c = Some (put_chare k ?ch1 co)" "co_chares (put_chare k ?ch1 co) k = Some ?ch1"
    "pe_log ?st1 = pe_log st @ [(c, k, b)]" "pe_out ?st1 = pe_out st @ forwards E kids b"
    by (simp_all add: bcast_state_def state)
  then show ?thesis using co(3) handle_exact [OF assms]
    by (intro exI [of _ ?st1] exI [of _ "put_chare k ?ch1 co"] exI [of _ ?ch1] conjI allI impI)
      (simp_all add: state)
qed

end
