(* ===== verification/Charm_Props.thy ===== *)
theory Charm_Props
  imports Charm_Deliver
begin

text \<open>
  The properties of charmlite's delivery on one PE: early messages wait for their collective and
  their chare and then run in order; broadcasts that arrive in order run once each and are
  forwarded; a broadcast that has to wait hangs the PE; broadcast numbers end after 16 bits.
\<close>

section \<open>Messages to one chare\<close>

definition entry_of :: "('u, 'b) env \<Rightarrow> 'b msg \<Rightarrow> ('u, 'b) entry_fn" where
  "entry_of E m = fst (entries E ! unat (d_w2 (m_dst m) - 1))"

text \<open>What a method that makes no calls does to the chare's data.\<close>

definition effect :: "('u, 'b) env \<Rightarrow> 'b msg \<Rightarrow> 'u \<Rightarrow> 'u" where
  "effect E m u = run_segs (en_body (entry_of E m) m) u"

definition plain :: "('u, 'b) env \<Rightarrow> collective_index \<Rightarrow> u64 \<Rightarrow> 'b msg \<Rightarrow> bool" where
  "plain E c k m \<longleftrightarrow> to_chare E c k m (entry_of E m) False \<and> d_bc (m_dst m) = 0"

lemma entry_ofI: "entry_at (entries E) (d_w2 (m_dst m)) = Inr (Some (e, b)) \<Longrightarrow> entry_of E m = e"
  by (auto simp: entry_at_def entry_of_def bind_res_Inr_iff split: if_splits)

lemma plain_runs:
  assumes m: "plain E c k m" and co: "pe_cols st c = Some co" "co_chares co k = Some ch"
  shows "\<exists>st1. returns E st [JHandle c k (Some (entry_of E m, False)) m] st1 \<and>
    pe_cols st1 = (pe_cols st)(c \<mapsto> put_chare k (ch\<lparr>ch_user := effect E m (ch_user ch)\<rparr>) co) \<and>
    pe_log st1 = pe_log st @ [(c, k, m)] \<and> pe_out st1 = pe_out st \<and> pe_waiting st1 = pe_waiting st"
proof -
  have t: "to_chare E c k m (entry_of E m) False" and bc: "d_bc (m_dst m) = 0"
    using m by (simp_all add: plain_def)
  let ?st = "(put_col c (put_chare k ch co) st)\<lparr>pe_log := pe_log st @ [(c, k, m)]\<rparr>"
  have j: "job_step E (JHandle c k (Some (entry_of E m, False)) m) st
      = Inr (?st, [JBody c k (en_body (entry_of E m) m)])"
    using co to_chare_bcast [OF t] bc
    by (simp add: handle_msg_def invoke_entry_def lookup_col_def lookup_chare_def)
  have "quiet (en_body (entry_of E m) m)" using t by (simp add: to_chare_def)
  then have "returns E ?st [JBody c k (en_body (entry_of E m) m)]
      (put_col c (put_chare k (ch\<lparr>ch_user := effect E m (ch_user ch)\<rparr>) (put_chare k ch co)) ?st)"
    unfolding effect_def by (rule body_returns) (simp_all add: state)
  then have "returns E st [JHandle c k (Some (entry_of E m, False)) m]
      (put_col c (put_chare k (ch\<lparr>ch_user := effect E m (ch_user ch)\<rparr>) (put_chare k ch co)) ?st)"
    by (intro returns_step [OF j]) simp
  then show ?thesis by (auto simp: state)
qed

lemma flush_plain:
  assumes "\<forall>m \<in> set ms. plain E c k m" and "pe_cols st c = Some co" and "co_chares co k = Some ch"
    and "co_buffers co k = ms"
  shows "\<exists>st1. returns E st [JFlush c k] st1 \<and>
    pe_cols st1 = (pe_cols st)(c \<mapsto> put_chare k (ch\<lparr>ch_user := fold (effect E) ms (ch_user ch)\<rparr>)
      (put_buffer k [] co)) \<and>
    pe_log st1 = pe_log st @ map (\<lambda>m. (c, k, m)) ms \<and> pe_out st1 = pe_out st \<and>
    pe_waiting st1 = pe_waiting st"
  using assms
proof (induction ms arbitrary: st co ch)
  case Nil
  then have "put_buffer k [] co = co" by (simp add: put_buffer_def fun_upd_idem)
  moreover have "job_step E (JFlush c k) st = Inr (st, [])"
    using Nil by (simp add: flush_buffers_def lookup_col_def)
  ultimately show ?case
    using Nil by (auto intro!: returns_step exI [of _ st] simp: put_chare_same fun_upd_idem)
next
  case (Cons m ms)
  have m: "plain E c k m" using Cons.prems(1) by simp
  then have t: "to_chare E c k m (entry_of E m) False" by (simp add: plain_def)
  let ?ch = "ch\<lparr>ch_user := effect E m (ch_user ch)\<rparr>"
  let ?co = "put_chare k ?ch co"
  have j: "job_step E (JFlush c k) st
      = Inr (st, [JHandle c k (Some (entry_of E m, False)) m, JPop c k m, JFlush c k])"
    using Cons.prems to_chare_ep [OF t] to_chare_rec [OF t]
    by (simp add: flush_buffers_def try_deliver_def lookup_col_def Let_def)
  obtain st1 where r: "returns E st [JHandle c k (Some (entry_of E m, False)) m] st1"
    and st1: "pe_cols st1 = (pe_cols st)(c \<mapsto> ?co)" "pe_log st1 = pe_log st @ [(c, k, m)]"
      "pe_out st1 = pe_out st" "pe_waiting st1 = pe_waiting st"
    using plain_runs [OF m Cons.prems(2,3)] by blast
  let ?co2 = "put_buffer k ms ?co" and ?st2 = "put_col c (put_buffer k ms (put_chare k (ch\<lparr>ch_user := effect E m (ch_user ch)\<rparr>) co)) st1"
  have p: "job_step E (JPop c k m) st1 = Inr (?st2, [])"
    using st1(1) Cons.prems(4) by (simp add: pop_buffer_def lookup_col_def state)
  have "\<exists>st3. returns E ?st2 [JFlush c k] st3 \<and>
      pe_cols st3 = (pe_cols ?st2)(c \<mapsto> put_chare k (?ch\<lparr>ch_user := fold (effect E) ms (ch_user ?ch)\<rparr>)
        (put_buffer k [] ?co2)) \<and>
      pe_log st3 = pe_log ?st2 @ map (\<lambda>m. (c, k, m)) ms \<and> pe_out st3 = pe_out ?st2 \<and>
      pe_waiting st3 = pe_waiting ?st2"
    using Cons.prems(1) by (intro Cons.IH) (simp_all add: state)
  then obtain st3 where f: "returns E ?st2 [JFlush c k] st3"
    and st3: "pe_cols st3 = (pe_cols ?st2)(c \<mapsto> put_chare k (?ch\<lparr>ch_user := fold (effect E) ms (ch_user ?ch)\<rparr>)
        (put_buffer k [] ?co2))"
      "pe_log st3 = pe_log ?st2 @ map (\<lambda>m. (c, k, m)) ms" "pe_out st3 = pe_out ?st2"
      "pe_waiting st3 = pe_waiting ?st2" by blast
  have "returns E st1 [JPop c k m, JFlush c k] st3"
    using f by (intro returns_step [OF p]) simp
  then have "returns E st ([JHandle c k (Some (entry_of E m, False)) m] @ [JPop c k m, JFlush c k]) st3"
    by (rule returns_append [OF r])
  then have "returns E st [JFlush c k] st3" by (intro returns_step [OF j]) simp
  moreover have "pe_cols st3 = (pe_cols st)(c \<mapsto> put_chare k
      (ch\<lparr>ch_user := fold (effect E) (m # ms) (ch_user ch)\<rparr>) (put_buffer k [] co))"
    unfolding st3(1) by (simp add: st1(1) put_chare_def put_buffer_def put_col_def)
  ultimately show ?case using st1 st3 by (auto simp: state)
qed

section \<open>A broadcast that has to wait\<close>

text \<open>
  When the one buffered message of a chare is a broadcast, flushing the chare's buffer never
  returns, whether or not it is the broadcast's turn: the message is still at the front of the
  buffer while it is delivered, so the delivery (or the flush nested in it) buffers it again
  behind itself, and the loop that empties the buffer pops one copy for each copy it adds.
\<close>

theorem buffered_broadcast_hangs:
  assumes b: "to_chare E c k b e False" "d_bc (m_dst b) \<noteq> 0"
    and co: "pe_cols st c = Some co" "co_chares co k = Some ch" "ch_index ch = k" "co_buffers co k = [b]"
    and up: "upstream E (co_mapper co) k = Inr kids"
  shows "diverges E st (JFlush c k # js)"
proof (cases "unat (d_bc (m_dst b)) = unat (ch_last ch) + 1")
  case False
  then show ?thesis using co by (intro stuck_diverges [OF b]) (auto simp: stuck_def)
next
  case True
  obtain st1 co1 ch1 where
    d: "\<forall>js. diverges E st1 (JFlush c k # js) \<longrightarrow> diverges E st (JHandle c k (Some (e, False)) b # js)"
    and st1: "pe_cols st1 c = Some co1" "co_buffers co1 = co_buffers co" "co_chares co1 k = Some ch1"
      "ch_last ch1 = ch_last ch + 1"
    using handle_in_order [OF b co(1-3) True up] by blast
  have "unat (d_bc (m_dst b)) < 2 ^ 16" using unsigned_less [of "d_bc (m_dst b)"] by simp
  then have "unat (ch_last ch1) = unat (ch_last ch) + 1"
    using True st1(4) by (simp add: unat_word_ariths)
  then have "stuck c k b st1" using st1 co(4) True by (auto simp: stuck_def)
  then have "diverges E st1 (JFlush c k # JPop c k b # JFlush c k # js)"
    by (rule stuck_diverges [OF b])
  then have h: "diverges E st (JHandle c k (Some (e, False)) b # JPop c k b # JFlush c k # js)"
    using d by blast
  have "job_step E (JFlush c k) st = Inr (st, [JHandle c k (Some (e, False)) b, JPop c k b, JFlush c k])"
    using co to_chare_ep [OF b(1)] to_chare_rec [OF b(1)]
    by (simp add: flush_buffers_def try_deliver_def lookup_col_def Let_def)
  then show ?thesis by (rule diverges_step) (use h in simp)
qed

section \<open>Early messages\<close>

lemma col_deliver_found:
  assumes t: "to_chare E c k m e False" and co: "pe_cols st c = Some co" "co_chares co k = Some ch"
  shows "job_step E (JCol True c m) st = Inr (st, [JHandle c k (Some (e, False)) m])"
  using co to_chare_ep [OF t] to_chare_rec [OF t] t
  by (simp add: deliver_now_def try_deliver_def lookup_col_def Let_def to_chare_def)

lemma col_deliver_early:
  assumes t: "to_chare E c k m e False" and co: "pe_cols st c = Some co" "co_chares co k = None"
    and home: "pe_for E k = my_pe E"
  shows "job_step E (JCol True c m) st
    = Inr (put_col c (put_buffer k (co_buffers co k @ [m]) co) st, [])"
  using co to_chare_ep [OF t] to_chare_rec [OF t] t home
  by (simp add: deliver_now_def try_deliver_def lookup_col_def Let_def to_chare_def buffer_msg_def)

lemma create_chare:
  assumes t: "to_chare E c k m (entry_of E m) True" and home: "pe_for E k = my_pe E"
    and co: "pe_cols st c = Some co" "co_chares co k = None"
    and ms: "\<forall>m \<in> set (co_buffers co k). plain E c k m"
  shows "\<exists>st1. returns E st [JCol True c m] st1 \<and>
    pe_cols st1 = (pe_cols st)(c \<mapsto> put_chare k
      \<lparr>ch_parent = c, ch_index = k, ch_last = 0,
       ch_user = fold (effect E) (m # co_buffers co k) (en_init (entry_of E m) m)\<rparr> (put_buffer k [] co)) \<and>
    pe_log st1 = pe_log st @ map (\<lambda>m. (c, k, m)) (m # co_buffers co k) \<and>
    pe_out st1 = pe_out st \<and> pe_waiting st1 = pe_waiting st"
proof -
  let ?e = "entry_of E m"
  let ?ch = "\<lparr>ch_parent = c, ch_index = k, ch_last = 0, ch_user = en_init ?e m\<rparr>"
  let ?st = "(put_col c (put_chare k ?ch co) st)\<lparr>pe_log := pe_log st @ [(c, k, m)]\<rparr>"
  have j: "job_step E (JCol True c m) st = Inr (?st, [JBody c k (en_body ?e m), JFlush c k])"
    using co to_chare_ep [OF t] to_chare_rec [OF t] t home
    by (simp add: deliver_now_def try_deliver_def lookup_col_def Let_def to_chare_def
        invoke_entry_def)
  let ?ch1 = "?ch\<lparr>ch_user := effect E m (ch_user ?ch)\<rparr>"
  let ?co1 = "put_chare k ?ch1 (put_chare k ?ch co)"
  have "quiet (en_body ?e m)" using t by (simp add: to_chare_def)
  then have b: "returns E ?st [JBody c k (en_body ?e m)] (put_col c ?co1 ?st)"
    unfolding effect_def by (rule body_returns) (simp_all add: state)
  have "\<exists>st1. returns E (put_col c ?co1 ?st) [JFlush c k] st1 \<and>
      pe_cols st1 = (pe_cols (put_col c ?co1 ?st))(c \<mapsto> put_chare k
        (?ch1\<lparr>ch_user := fold (effect E) (co_buffers co k) (ch_user ?ch1)\<rparr>) (put_buffer k [] ?co1)) \<and>
      pe_log st1 = pe_log (put_col c ?co1 ?st) @ map (\<lambda>m. (c, k, m)) (co_buffers co k) \<and>
      pe_out st1 = pe_out (put_col c ?co1 ?st) \<and> pe_waiting st1 = pe_waiting (put_col c ?co1 ?st)"
    using ms by (intro flush_plain) (simp_all add: state)
  then obtain st1 where f: "returns E (put_col c ?co1 ?st) [JFlush c k] st1"
    and st1: "pe_cols st1 = (pe_cols (put_col c ?co1 ?st))(c \<mapsto> put_chare k
        (?ch1\<lparr>ch_user := fold (effect E) (co_buffers co k) (ch_user ?ch1)\<rparr>) (put_buffer k [] ?co1))"
      "pe_log st1 = pe_log (put_col c ?co1 ?st) @ map (\<lambda>m. (c, k, m)) (co_buffers co k)"
      "pe_out st1 = pe_out (put_col c ?co1 ?st)" "pe_waiting st1 = pe_waiting (put_col c ?co1 ?st)"
    by blast
  have "returns E st [JCol True c m] st1"
    using returns_append [OF b f] by (intro returns_step [OF j]) simp
  moreover have "pe_cols st1 = (pe_cols st)(c \<mapsto> put_chare k
      \<lparr>ch_parent = c, ch_index = k, ch_last = 0,
       ch_user = fold (effect E) (m # co_buffers co k) (en_init ?e m)\<rparr> (put_buffer k [] co))"
    unfolding st1(1) by (simp add: put_chare_def put_buffer_def put_col_def)
  ultimately show ?thesis using st1 by (auto simp: state)
qed

lemma deliver_endpoint_steps:
  assumes "d_kind (m_dst m) = KEndpoint" and "returns E st (JEndpoint True m # js) st1"
  shows "returns E st (JDeliver m # js) st1"
  using assms by (intro returns_step [of E "JDeliver m" st st "[JEndpoint True m]"])
    (simp_all add: deliver_msg_def)

lemma wait_for_collective:
  assumes "\<forall>m \<in> set ms. plain E c k m" and "pe_cols st c = None"
  shows "returns E st (map JDeliver ms) (st\<lparr>pe_waiting := (pe_waiting st)(c := pe_waiting st c @ ms)\<rparr>)"
  using assms
proof (induction ms arbitrary: st)
  case (Cons m ms)
  have t: "to_chare E c k m (entry_of E m) False" using Cons.prems by (simp add: plain_def)
  let ?st = "st\<lparr>pe_waiting := (pe_waiting st)(c := pe_waiting st c @ [m])\<rparr>"
  have "job_step E (JEndpoint True m) st = Inr (?st, [])"
    using to_chare_ep [OF t] t Cons.prems(2) by (simp add: deliver_to_endpoint_def to_chare_def)
  moreover have "returns E ?st (map JDeliver ms)
      (?st\<lparr>pe_waiting := (pe_waiting ?st)(c := pe_waiting ?st c @ ms)\<rparr>)"
    using Cons.prems by (intro Cons.IH) simp_all
  ultimately have "returns E st (JEndpoint True m # map JDeliver ms)
      (?st\<lparr>pe_waiting := (pe_waiting ?st)(c := pe_waiting ?st c @ ms)\<rparr>)"
    by (auto intro: returns_step)
  then have "returns E st (JDeliver m # map JDeliver ms)
      (?st\<lparr>pe_waiting := (pe_waiting ?st)(c := pe_waiting ?st c @ ms)\<rparr>)"
    using t by (intro deliver_endpoint_steps) (simp_all add: to_chare_def)
  then show ?case by (simp only: list.map) (simp add: fun_upd_def [symmetric])
qed (simp add: returns_Nil fun_upd_idem)

lemma drain_early:
  assumes "\<forall>m \<in> set ms. plain E c k m" and "pe_waiting st c = ms" and "pe_for E k = my_pe E"
    and "pe_cols st c = Some co" and "co_chares co k = None"
  shows "\<exists>st1. returns E st [JDrain True c] st1 \<and>
    pe_cols st1 = (pe_cols st)(c \<mapsto> put_buffer k (co_buffers co k @ ms) co) \<and>
    pe_log st1 = pe_log st \<and> pe_out st1 = pe_out st \<and> pe_waiting st1 = (pe_waiting st)(c := [])"
  using assms
proof (induction ms arbitrary: st co)
  case Nil
  have "put_buffer k (co_buffers co k) co = co" by (simp add: put_buffer_def)
  moreover have "job_step E (JDrain True c) st = Inr (st, [])" using Nil by (simp add: drain_def)
  ultimately show ?case
    using Nil by (auto intro!: returns_step exI [of _ st] simp: fun_upd_idem)
next
  case (Cons m ms)
  have t: "to_chare E c k m (entry_of E m) False" using Cons.prems by (simp add: plain_def)
  let ?st = "st\<lparr>pe_waiting := (pe_waiting st)(c := ms)\<rparr>"
  let ?co = "put_buffer k (co_buffers co k @ [m]) co"
  have j: "job_step E (JDrain True c) st = Inr (?st, [JCol True c m, JDrain True c])"
    using Cons.prems by (simp add: drain_def)
  have j2: "job_step E (JCol True c m) ?st = Inr (put_col c ?co ?st, [])"
    using Cons.prems by (intro col_deliver_early [OF t]) simp_all
  have "\<exists>st1. returns E (put_col c ?co ?st) [JDrain True c] st1 \<and>
      pe_cols st1 = (pe_cols (put_col c ?co ?st))(c \<mapsto> put_buffer k (co_buffers ?co k @ ms) ?co) \<and>
      pe_log st1 = pe_log (put_col c ?co ?st) \<and> pe_out st1 = pe_out (put_col c ?co ?st) \<and>
      pe_waiting st1 = (pe_waiting (put_col c ?co ?st))(c := [])"
    using Cons.prems by (intro Cons.IH) (simp_all add: state)
  then obtain st1 where r: "returns E (put_col c ?co ?st) [JDrain True c] st1"
    and st1: "pe_cols st1 = (pe_cols (put_col c ?co ?st))(c \<mapsto> put_buffer k (co_buffers ?co k @ ms) ?co)"
      "pe_log st1 = pe_log st" "pe_out st1 = pe_out st" "pe_waiting st1 = (pe_waiting st)(c := [])"
    by (auto simp: state)
  have "returns E ?st [JCol True c m, JDrain True c] st1"
    using r by (intro returns_step [OF j2]) simp
  then have "returns E st [JDrain True c] st1" by (intro returns_step [OF j]) simp
  then show ?case using st1 by (auto simp: state)
qed

text \<open>
  C2. Messages that are no broadcasts, for methods that make no calls, and for a chare whose constructor makes none
  either (an early broadcast can hang the PE, see \<open>Charm_Bcast\<close>), wait for the collective when it does not exist yet, then for
  the chare, and run once each and in their order of arrival when the chare is created, right
  after its constructor: creation order and message order may race, the chare's data end up as
  if everything had come in order, and no buffer keeps anything.
\<close>

theorem early_messages_run_in_order:
  assumes ms: "\<forall>m \<in> set ms. plain E c k m" and home: "pe_for E k = my_pe E"
    and ctor: "to_chare E c k m0 (entry_of E m0) True"
    and new: "d_kind (m_dst mc) = KEndpoint" "d_w0 (m_dst mc) = ci_view c" "m_creates mc"
      "at (kinds E) (unat (d_w2 (m_dst mc) - 1)) = Inr mp"
    and st: "pe_cols st c = None" "pe_waiting st c = []"
  shows "\<exists>st1 co ch. returns E st (map JDeliver ms @ [JDeliver mc, JDeliver m0]) st1 \<and>
    pe_log st1 = pe_log st @ map (\<lambda>m. (c, k, m)) (m0 # ms) \<and> pe_out st1 = pe_out st \<and>
    pe_waiting st1 c = [] \<and> pe_cols st1 c = Some co \<and> co_buffers co k = [] \<and>
    co_chares co k = Some ch \<and> ch_user ch = fold (effect E) (m0 # ms) (en_init (entry_of E m0) m0)"
proof -
  let ?st1 = "st\<lparr>pe_waiting := (pe_waiting st)(c := ms)\<rparr>"
  have r1: "returns E st (map JDeliver ms) ?st1"
    using wait_for_collective [OF ms st(1)] st(2) by simp
  let ?st2 = "put_col c (new_coll mp) ?st1"
  have j2: "job_step E (JEndpoint True mc) ?st1 = Inr (?st2, [JDrain True c])"
    using new st(1) by (simp add: deliver_to_endpoint_def endpoint_of_def Let_def at_def split: if_splits)
  have w: "pe_waiting ?st2 c = ms" "pe_cols ?st2 c = Some (new_coll mp)" "co_chares (new_coll mp) k = None"
    by (simp_all add: state new_coll_def)
  note drain_early [OF ms w(1) home w(2,3)]
  then obtain st3 co where r3: "returns E ?st2 [JDrain True c] st3"
    and st3: "pe_cols st3 c = Some co" "co_chares co k = None" "co_buffers co k = ms"
      "pe_log st3 = pe_log st" "pe_out st3 = pe_out st" "pe_waiting st3 c = []"
    by (auto simp: state new_coll_def)
  have r2: "returns E ?st1 [JDeliver mc] st3"
    using r3 new(1) by (intro deliver_endpoint_steps returns_step [OF j2]) simp_all
  have "\<forall>m \<in> set (co_buffers co k). plain E c k m" using ms st3(3) by simp
  note create_chare [OF ctor home st3(1,2) this]
  then obtain st4 where r4: "returns E st3 [JCol True c m0] st4"
    and st4: "pe_cols st4 = (pe_cols st3)(c \<mapsto> put_chare k
      \<lparr>ch_parent = c, ch_index = k, ch_last = 0,
       ch_user = fold (effect E) (m0 # ms) (en_init (entry_of E m0) m0)\<rparr> (put_buffer k [] co))"
    "pe_log st4 = pe_log st @ map (\<lambda>m. (c, k, m)) (m0 # ms)"
    "pe_out st4 = pe_out st" "pe_waiting st4 c = []"
    unfolding st3(3-5) using st3(6) by auto
  have j4: "job_step E (JEndpoint True m0) st3 = Inr (st3, [JCol True c m0])"
    using ctor to_chare_ep [OF ctor] st3(1) by (simp add: deliver_to_endpoint_def to_chare_def)
  have "returns E st3 [JDeliver m0] st4"
    using ctor r4 by (intro deliver_endpoint_steps returns_step [OF j4]) (simp_all add: to_chare_def)
  then have "returns E st (map JDeliver ms @ [JDeliver mc, JDeliver m0]) st4"
    using returns_append [OF r1 returns_Cons [OF r2]] by simp
  then show ?thesis using st4
    by (intro exI [of _ st4]) (auto simp: state)
qed

end
