(* ===== verification/Charm_Bcast.thy ===== *)
theory Charm_Bcast
  imports Charm_Props
begin

text \<open>
  Broadcasts at one chare: a series in order, and the end of the numbers; and a demonstration
  environment for the properties of charmlite's delivery.
\<close>

section \<open>A series of broadcasts\<close>

text \<open>Broadcasts to chare \<open>k\<close> with the numbers after \<open>n\<close>, one by one.\<close>

fun numbered :: "('u, 'b) env \<Rightarrow> collective_index \<Rightarrow> u64 \<Rightarrow> nat \<Rightarrow> 'b msg list \<Rightarrow> bool" where
  "numbered E c k n [] \<longleftrightarrow> True"
| "numbered E c k n (b # bs) \<longleftrightarrow> to_chare E c k b (entry_of E b) False \<and>
     unat (d_bc (m_dst b)) = Suc n \<and> numbered E c k (Suc n) bs"

lemma bcast_once:
  assumes b: "to_chare E c k b (entry_of E b) False" and turn: "unat (d_bc (m_dst b)) = unat (ch_last ch) + 1"
    and co: "pe_cols st c = Some co" "co_chares co k = Some ch" "ch_index ch = k" "co_buffers co k = []"
    and up: "upstream E (co_mapper co) k = Inr kids"
  shows "\<exists>st1 co1 ch1. returns E st [JCol True c b] st1 \<and> pe_cols st1 c = Some co1 \<and>
    co_buffers co1 k = [] \<and> co_mapper co1 = co_mapper co \<and> co_chares co1 k = Some ch1 \<and>
    ch_index ch1 = k \<and> unat (ch_last ch1) = unat (ch_last ch) + 1 \<and> ch_user ch1 = effect E b (ch_user ch) \<and>
    pe_log st1 = pe_log st @ [(c, k, b)] \<and> pe_out st1 = pe_out st @ forwards E kids b"
proof -
  have bc: "d_bc (m_dst b) \<noteq> 0" using turn by auto
  obtain st1 co1 ch1 where
    r: "\<forall>js st2. returns E st1 (JFlush c k # js) st2 \<longrightarrow>
        returns E st (JHandle c k (Some (entry_of E b, False)) b # js) st2"
    and st1: "pe_cols st1 c = Some co1" "co_buffers co1 = co_buffers co" "co_mapper co1 = co_mapper co"
      "co_chares co1 k = Some ch1" "ch_index ch1 = k" "ch_last ch1 = ch_last ch + 1"
      "ch_user ch1 = run_segs (en_body (entry_of E b) b) (ch_user ch)"
      "pe_log st1 = pe_log st @ [(c, k, b)]" "pe_out st1 = pe_out st @ forwards E kids b"
    using handle_in_order [OF b bc co(1-3) turn up] by blast
  have "job_step E (JFlush c k) st1 = Inr (st1, [])"
    using st1 co(4) by (simp add: flush_buffers_def lookup_col_def)
  then have "returns E st1 [JFlush c k] st1" by (rule returns_last)
  then have "returns E st [JHandle c k (Some (entry_of E b, False)) b] st1" using r by blast
  then have "returns E st [JCol True c b] st1"
    by (intro returns_step [OF col_deliver_found [OF b co(1,2)]]) simp
  moreover have "unat (ch_last ch1) = unat (ch_last ch) + 1"
  proof -
    have "unat (d_bc (m_dst b)) < 2 ^ 16" using unsigned_less [of "d_bc (m_dst b)"] by simp
    then show ?thesis using st1(6) turn by (simp add: unat_word_ariths)
  qed
  ultimately show ?thesis using st1 co(4) by (auto simp: effect_def)
qed

text \<open>
  C12. A chare that gets broadcasts in order, none waiting, runs each exactly once in that order and
  forwards a copy of each to every one of its children in the spanning tree before it runs it;
  its broadcast counter ends at the last number and nothing stays buffered.
\<close>

theorem broadcasts_in_order:
  assumes bs: "numbered E c k (unat (ch_last ch)) bs"
    and co: "pe_cols st c = Some co" "co_chares co k = Some ch" "ch_index ch = k" "co_buffers co k = []"
    and up: "upstream E (co_mapper co) k = Inr kids"
  shows "\<exists>st1 co1 ch1. returns E st (map (JCol True c) bs) st1 \<and> pe_cols st1 c = Some co1 \<and>
    co_buffers co1 k = [] \<and> co_chares co1 k = Some ch1 \<and>
    unat (ch_last ch1) = unat (ch_last ch) + length bs \<and> ch_user ch1 = fold (effect E) bs (ch_user ch) \<and>
    pe_log st1 = pe_log st @ map (\<lambda>b. (c, k, b)) bs \<and>
    pe_out st1 = pe_out st @ concat (map (forwards E kids) bs)"
  using assms
proof (induction bs arbitrary: st co ch)
  case Nil
  then show ?case by (auto intro!: exI [of _ st])
next
  case (Cons b bs)
  have b: "to_chare E c k b (entry_of E b) False" "unat (d_bc (m_dst b)) = unat (ch_last ch) + 1"
    using Cons.prems(1) by simp_all
  obtain st1 co1 ch1 where r: "returns E st [JCol True c b] st1"
    and st1: "pe_cols st1 c = Some co1" "co_buffers co1 k = []" "co_mapper co1 = co_mapper co"
      "co_chares co1 k = Some ch1" "ch_index ch1 = k" "unat (ch_last ch1) = unat (ch_last ch) + 1"
      "ch_user ch1 = effect E b (ch_user ch)" "pe_log st1 = pe_log st @ [(c, k, b)]"
      "pe_out st1 = pe_out st @ forwards E kids b"
    using bcast_once [OF b Cons.prems(2-6)] by blast
  have n: "numbered E c k (unat (ch_last ch1)) bs" using Cons.prems(1) st1(6) by simp
  have "upstream E (co_mapper co1) k = Inr kids" using Cons.prems(6) st1(3) by simp
  from Cons.IH [OF n st1(1,4,5,2) this] obtain st2 co2 ch2 where
    r2: "returns E st1 (map (JCol True c) bs) st2" and st2: "pe_cols st2 c = Some co2"
      "co_buffers co2 k = []" "co_chares co2 k = Some ch2"
      "unat (ch_last ch2) = unat (ch_last ch1) + length bs"
      "ch_user ch2 = fold (effect E) bs (ch_user ch1)"
      "pe_log st2 = pe_log st1 @ map (\<lambda>b. (c, k, b)) bs"
      "pe_out st2 = pe_out st1 @ concat (map (forwards E kids) bs)" by blast
  have "returns E st (map (JCol True c) (b # bs)) st2"
    using returns_Cons [OF r r2] by simp
  then show ?case using st1 st2 by (intro exI [of _ st2] exI [of _ co2] exI [of _ ch2]) simp
qed

section \<open>The end of the numbers\<close>

text \<open>
  Once the root chare of a group has numbered 65535 broadcasts, a further one gets the number
  0 and counts as an ordinary message: it runs at the root only, is forwarded to nobody, and
  leaves the counter where it was, so the same holds for every later broadcast.
\<close>

theorem broadcast_numbers_end:
  assumes b: "d_kind (m_dst b) = KEndpoint" "d_w1 (m_dst b) = chare_bcast_root"
    "entry_at (entries E) (d_w2 (m_dst b)) = Inr (Some (e, False))"
    "quiet (en_body e (set_bcast 0 0 b))"
    and root: "span_parent E 0 = None"
    and co: "pe_cols st c = Some co" "co_mapper co = Group_mapper" "co_chares co 0 = Some ch"
    and full: "ch_last ch = 65535"
  shows "\<exists>st1 co1 ch1. returns E st [JCol True c b] st1 \<and> pe_out st1 = pe_out st \<and>
    pe_log st1 = pe_log st @ [(c, 0, set_bcast 0 0 b)] \<and>
    pe_cols st1 c = Some co1 \<and> co_chares co1 0 = Some ch1 \<and> ch_last ch1 = 65535"
proof -
  let ?m = "set_bcast 0 0 b"
  have "ch_last ch + 1 = 0" using full by simp
  then have j: "job_step E (JCol True c b) st = Inr (st, [JHandle c 0 (Some (e, False)) ?m])"
    using b co root
    by (simp add: deliver_now_def lookup_col_def endpoint_of_def loc_root_def)
  let ?st = "(put_col c (put_chare 0 ch co) st)\<lparr>pe_log := pe_log st @ [(c, 0, ?m)]\<rparr>"
  have nb: "\<not> is_broadcast (m_dst ?m)"
    using b by (simp add: is_broadcast_def set_bcast_def chare_bcast_root_def)
  have j2: "job_step E (JHandle c 0 (Some (e, False)) ?m) st = Inr (?st, [JBody c 0 (en_body e ?m)])"
    using co nb by (simp add: handle_msg_def invoke_entry_def lookup_col_def lookup_chare_def)
  have "returns E ?st [JBody c 0 (en_body e ?m)]
      (put_col c (put_chare 0 (ch\<lparr>ch_user := run_segs (en_body e ?m) (ch_user ch)\<rparr>) (put_chare 0 ch co)) ?st)"
    by (rule body_returns [OF b(4)]) (simp_all add: state)
  then have "returns E st [JHandle c 0 (Some (e, False)) ?m]
      (put_col c (put_chare 0 (ch\<lparr>ch_user := run_segs (en_body e ?m) (ch_user ch)\<rparr>) (put_chare 0 ch co)) ?st)"
    by (intro returns_step [OF j2]) simp
  then have "returns E st [JCol True c b]
      (put_col c (put_chare 0 (ch\<lparr>ch_user := run_segs (en_body e ?m) (ch_user ch)\<rparr>) (put_chare 0 ch co)) ?st)"
    by (intro returns_step [OF j]) simp
  then show ?thesis using full by (auto simp: state)
qed

section \<open>Creating and routing\<close>

text \<open>
  A second creation message for a collective that a PE already has fails the assertion of its
  insertion, before anything is buffered, delivered or sent.
\<close>

theorem collective_created_twice_fails:
  assumes "d_kind (m_dst m) = KEndpoint" and "m_creates m"
    and "at (kinds E) (unat (d_w2 (m_dst m) - 1)) = Inr mp"
    and "pe_cols st (ci_of_view (d_w0 (m_dst m))) = Some co"
  shows "fails E st (JDeliver m # js) AssertFailed"
proof -
  have "job_step E (JEndpoint True m) st = Inl AssertFailed"
    using assms by (simp add: deliver_to_endpoint_def endpoint_of_def Let_def check_def at_def split: if_splits)
  then show ?thesis
    using assms(1) by (intro fails_step [of E "JDeliver m" st st "[JEndpoint True m]"])
      (auto simp: deliver_msg_def intro: fails_now)
qed

text \<open>
  A message for a chare that is neither here nor at home here is passed on, unchanged and
  once, to the chare's home PE, and nothing runs; one for a chare at home here that does not
  exist yet is kept.
\<close>

theorem absent_chare:
  assumes t: "to_chare E c k m e False" and co: "pe_cols st c = Some co" "co_chares co k = None"
  shows "returns E st [JCol True c m]
    (if pe_for E k = my_pe E then put_col c (put_buffer k (co_buffers co k @ [m]) co) st
     else emit [NSend (pe_for E k) m] st)"
proof (cases "pe_for E k = my_pe E")
  case True
  then show ?thesis
    using returns_last [OF col_deliver_early [OF t co True]] by simp
next
  case False
  have "job_step E (JCol True c m) st = Inr (emit [NSend (pe_for E k) m] st, [])"
    using co to_chare_ep [OF t] to_chare_rec [OF t] t False
    by (simp add: deliver_now_def try_deliver_def lookup_col_def Let_def to_chare_def)
  then show ?thesis using False returns_last by fastforce
qed

section \<open>A group of two PEs\<close>

text \<open>A chare that records what it is sent, on PE 0 of two; PE 1 is its child.\<close>

definition demo_env :: "(nat list, nat) env" where
  "demo_env = \<lparr>my_pe = 0, num_pes = 2, span_children = (\<lambda>p. if p = 0 then [1] else []),
     span_parent = (\<lambda>p. if p = 0 then None else Some 0),
     entries = [(\<lparr>en_init = (\<lambda>m. [m_body m]), en_body = (\<lambda>m. [])\<rparr>, True),
       (\<lparr>en_init = (\<lambda>m. []), en_body = (\<lambda>m. [\<lambda>u. (u @ [m_body m], [])])\<rparr>, False)],
     kinds = [Group_mapper], callbacks = []\<rparr>"

definition demo_col :: collective_index where
  "demo_col = CIndex 0 7"

definition demo_m :: "u64 \<Rightarrow> u64 \<Rightarrow> u16 \<Rightarrow> nat \<Rightarrow> nat msg" where
  "demo_m ch ent bc d = \<lparr>m_combines = False, m_creates = False, m_kind = 0,
     m_dst = \<lparr>d_kind = KEndpoint, d_w0 = ci_view demo_col, d_w1 = ch, d_w2 = ent, d_bc = bc\<rparr>,
     m_size = 64, m_body = d\<rparr>"

definition demo_chare :: "u16 \<Rightarrow> nat list chare" where
  "demo_chare n = \<lparr>ch_parent = demo_col, ch_index = 0, ch_last = n, ch_user = []\<rparr>"

definition demo_coll :: "u16 \<Rightarrow> nat msg list \<Rightarrow> (nat list, nat) coll" where
  "demo_coll n ms = \<lparr>co_mapper = Group_mapper, co_buffers = (\<lambda>_. [])(0 := ms),
     co_chares = [0 \<mapsto> demo_chare n]\<rparr>"

definition demo_pe :: "u16 \<Rightarrow> nat msg list \<Rightarrow> (nat list, nat) pe" where
  "demo_pe n ms = new_pe\<lparr>pe_cols := [demo_col \<mapsto> demo_coll n ms]\<rparr>"

lemma demo_state:
  "pe_cols (demo_pe n ms) demo_col = Some (demo_coll n ms)" "co_chares (demo_coll n ms) 0 = Some (demo_chare n)"
  "ch_index (demo_chare n) = 0" "co_buffers (demo_coll n ms) 0 = ms" "ch_last (demo_chare n) = n"
  "co_mapper (demo_coll n ms) = Group_mapper" "pe_out (demo_pe n ms) = []" "pe_log (demo_pe n ms) = []"
  by (simp_all add: demo_pe_def demo_coll_def demo_chare_def new_pe_def)

lemma demo_to_chare:
  "to_chare demo_env demo_col 0 (demo_m 0 2 bc d) (entry_of demo_env (demo_m 0 2 bc d)) False"
  "to_chare demo_env demo_col 0 (demo_m 0 1 bc d) (entry_of demo_env (demo_m 0 1 bc d)) True"
  by (simp_all add: to_chare_def entry_of_def demo_env_def demo_m_def chare_bcast_root_def entry_at_def
      at_def quiet_def)

lemma demo_upstream: "upstream demo_env (co_mapper (demo_coll n ms)) 0 = Inr [1]"
  by (simp add: upstream_def pe_for_def demo_env_def demo_state)

lemma buffered_broadcast_hangs_witness:
  "diverges demo_env (demo_pe 0 [demo_m 0 2 1 9]) [JFlush demo_col 0]"
  by (rule buffered_broadcast_hangs [OF demo_to_chare(1) _ demo_state(1-4) demo_upstream])
    (simp add: demo_m_def)

lemma demo_effects: "fold (effect demo_env) [demo_m 0 1 0 4, demo_m 0 2 0 5, demo_m 0 2 0 6]
    (en_init (entry_of demo_env (demo_m 0 1 0 4)) (demo_m 0 1 0 4)) = [4, 5, 6]"
  by (simp add: effect_def entry_of_def run_segs_def demo_env_def demo_m_def)

lemma early_messages_run_in_order_witness:
  "\<exists>st1 co ch. returns demo_env new_pe [JDeliver (demo_m 0 2 0 5), JDeliver (demo_m 0 2 0 6),
      JDeliver ((demo_m 0 1 0 0)\<lparr>m_creates := True\<rparr>), JDeliver (demo_m 0 1 0 4)] st1 \<and>
    pe_cols st1 demo_col = Some co \<and> co_chares co 0 = Some ch \<and> ch_user ch = [4, 5, 6]"
proof -
  let ?ms = "[demo_m 0 2 0 5, demo_m 0 2 0 6]" and ?mc = "(demo_m 0 1 0 0)\<lparr>m_creates := True\<rparr>"
  have ms: "\<forall>m \<in> set ?ms. plain demo_env demo_col 0 m"
    using demo_to_chare(1) [of 0 5] demo_to_chare(1) [of 0 6] by (simp add: plain_def) (simp add: demo_m_def)
  have home: "pe_for demo_env 0 = my_pe demo_env" by (simp add: pe_for_def demo_env_def)
  have mc: "d_kind (m_dst ?mc) = KEndpoint" "d_w0 (m_dst ?mc) = ci_view demo_col" "m_creates ?mc"
    "at (kinds demo_env) (unat (d_w2 (m_dst ?mc) - 1)) = Inr Group_mapper"
    by (simp_all add: demo_m_def demo_env_def)
  have "pe_cols (new_pe :: (nat list, nat) pe) demo_col = None"
    "pe_waiting (new_pe :: (nat list, nat) pe) demo_col = []"
    by (simp_all add: new_pe_def)
  from early_messages_run_in_order [OF ms home demo_to_chare(2) [of 0 4] mc this]
  show ?thesis unfolding demo_effects by (simp only: list.map append_Cons append_Nil) blast
qed

lemma broadcasts_in_order_witness:
  "\<exists>st1. returns demo_env (demo_pe 2 []) [JCol True demo_col (demo_m 0 2 3 5), JCol True demo_col (demo_m 0 2 4 6)] st1 \<and>
    pe_out st1 = [NSend 1 (demo_m 1 2 3 5), NSend 1 (demo_m 1 2 4 6)]"
proof -
  let ?bs = "[demo_m 0 2 3 5, demo_m 0 2 4 6]"
  have n: "numbered demo_env demo_col 0 (unat (ch_last (demo_chare 2))) ?bs"
    using demo_to_chare(1) [of 3 5] demo_to_chare(1) [of 4 6] by (simp add: demo_state) (simp add: demo_m_def)
  have f: "concat (map (forwards demo_env [1]) ?bs) = [NSend 1 (demo_m 1 2 3 5), NSend 1 (demo_m 1 2 4 6)]"
    by (simp add: forwards_def send_helper_def pe_for_def clone_to_def demo_env_def demo_m_def)
  from broadcasts_in_order [OF n demo_state(1-4) demo_upstream] show ?thesis
    unfolding f demo_state by (simp only: list.map append_Nil) blast
qed

lemma broadcast_numbers_end_witness:
  "\<exists>st1. returns demo_env (demo_pe 65535 []) [JCol True demo_col (demo_m chare_bcast_root 2 0 5)] st1 \<and>
    pe_out st1 = []"
proof -
  let ?b = "demo_m chare_bcast_root 2 0 5" and ?e = "fst (entries demo_env ! 1)"
  have b: "d_kind (m_dst ?b) = KEndpoint" "d_w1 (m_dst ?b) = chare_bcast_root"
    "entry_at (entries demo_env) (d_w2 (m_dst ?b)) = Inr (Some (?e, False))"
    "quiet (en_body ?e (set_bcast 0 0 ?b))" "span_parent demo_env 0 = None"
    by (simp_all add: demo_m_def demo_env_def entry_at_def at_def quiet_def)
  from broadcast_numbers_end [OF b demo_state(1) demo_state(6) demo_state(2) demo_state(5)]
  show ?thesis unfolding demo_state by blast
qed

lemma collective_created_twice_fails_witness:
  "fails demo_env (demo_pe 0 []) [JDeliver ((demo_m 0 1 0 0)\<lparr>m_creates := True\<rparr>)] AssertFailed"
  by (rule collective_created_twice_fails [where mp = Group_mapper and co = "demo_coll 0 []"])
    (simp_all add: demo_m_def demo_env_def demo_state)

lemma absent_chare_witness:
  "returns demo_env (demo_pe 0 []) [JCol True demo_col (demo_m 1 2 0 5)]
    (emit [NSend 1 (demo_m 1 2 0 5)] (demo_pe 0 []))"
proof -
  have t: "to_chare demo_env demo_col 1 (demo_m 1 2 0 5) (entry_of demo_env (demo_m 1 2 0 5)) False"
    by (simp add: to_chare_def entry_of_def demo_env_def demo_m_def chare_bcast_root_def entry_at_def
        at_def quiet_def)
  have n: "co_chares (demo_coll 0 []) 1 = None" by (simp add: demo_coll_def)
  have p: "pe_for demo_env 1 = 1" "my_pe demo_env = 0" by (simp_all add: pe_for_def demo_env_def)
  from absent_chare [OF t demo_state(1) n] show ?thesis unfolding p by simp
qed

end
