(* ===== verification/Charm_Group.thy ===== *)
theory Charm_Group
  imports Charm_Basic Charm_Bcast
begin

text \<open>
  Groups on all PEs of a network: a chare per PE, created by \<open>group_proxy::construct\<close> and reached by broadcasts
  over the spanning tree (\<open>archive/charmlite\<close>, \<open>proxy.hh\<close>, \<open>collective.hh\<close>, \<open>locmgr.hh\<close>). This theory has what each
  message does to the PE that it arrives at; the methods of the group make no calls.
\<close>

section \<open>The spanning tree\<close>

text \<open>
  What Converse's \<open>CmiSpanTreeChildren\<close> and \<open>CmiSpanTreeParent\<close> answer for \<open>n\<close> PEs: a tree with root 0
  that reaches every PE.
\<close>

definition spanning :: "nat \<Rightarrow> (nat \<Rightarrow> nat list) \<Rightarrow> (nat \<Rightarrow> nat option) \<Rightarrow> bool" where
  "spanning n kids par \<longleftrightarrow> par 0 = None \<and> (\<forall>p<n. distinct (kids p)) \<and>
     (\<forall>p<n. \<forall>q. q \<in> set (kids p) \<longleftrightarrow> q < n \<and> par q = Some p) \<and>
     (\<forall>q<n. (0, q) \<in> {(p, q). p < n \<and> q \<in> set (kids p)}\<^sup>*)"

lemma spanning_kids:
  assumes "spanning n kids par" and "p < n" and "q \<in> set (kids p)"
  shows "q < n" "par q = Some p" "q \<noteq> 0"
proof -
  have "q < n \<and> par q = Some p" and "par 0 = None" using assms by (simp_all add: spanning_def)
  then show "q < n" "par q = Some p" "q \<noteq> 0" by (cases "q = 0"; simp)+
qed

lemma spanning_all:
  assumes t: "spanning n kids par" and z: "0 \<in> R" and c: "\<And>p q. p \<in> R \<Longrightarrow> p < n \<Longrightarrow> q \<in> set (kids p) \<Longrightarrow> q \<in> R"
    and q: "q < n"
  shows "q \<in> R"
proof -
  have "(0, q) \<in> {(p, q). p < n \<and> q \<in> set (kids p)}\<^sup>*" using t q by (simp add: spanning_def)
  then show ?thesis by (induction rule: rtrancl_induct) (use z c in auto)
qed

lemma spanning_loop:
  assumes t: "spanning n kids par" and p: "p < n"
  shows "p \<notin> set (kids p)"
proof
  assume k: "p \<in> set (kids p)"
  then have "p \<noteq> 0" using spanning_kids [OF t p] by blast
  have "p \<in> {q. q \<noteq> p}"
  proof (rule spanning_all [OF t _ _ p])
    show "0 \<in> {q. q \<noteq> p}" using \<open>p \<noteq> 0\<close> by simp
    fix r q assume "r \<in> {q. q \<noteq> p}" "r < n" "q \<in> set (kids r)"
    then show "q \<in> {q. q \<noteq> p}" using spanning_kids(2) [OF t p k] spanning_kids(2) [OF t] by auto
  qed
  then show False by simp
qed

section \<open>Members\<close>

definition group_env :: "nat \<Rightarrow> (nat \<Rightarrow> nat list) \<Rightarrow> (nat \<Rightarrow> nat option) \<Rightarrow> (nat \<Rightarrow> ('u, 'b) env) \<Rightarrow> bool" where
  "group_env n kids par E \<longleftrightarrow> 0 < n \<and> n < 2 ^ 30 \<and> spanning n kids par \<and>
     (\<forall>p<n. my_pe (E p) = p \<and> num_pes (E p) = n \<and> span_children (E p) = kids \<and> span_parent (E p) = par)"

text \<open>The method \<open>ent\<close> on each PE; it makes no calls.\<close>

definition method_at :: "nat \<Rightarrow> (nat \<Rightarrow> ('u, 'b) env) \<Rightarrow> u64 \<Rightarrow> (nat \<Rightarrow> ('u, 'b) entry_fn) \<Rightarrow> bool \<Rightarrow> bool" where
  "method_at n E ent e is_ctor \<longleftrightarrow> (\<forall>p<n. entry_at (entries (E p)) ent = Inr (Some (e p, is_ctor)) \<and>
     (\<forall>m. quiet (en_body (e p) m)))"

text \<open>PE \<open>p\<close> has the group \<open>c\<close> and its own chare, which has received \<open>l\<close> broadcasts, and nothing waits.\<close>

definition member :: "collective_index \<Rightarrow> nat \<Rightarrow> u16 \<Rightarrow> 'u \<Rightarrow> ('u, 'b) pe \<Rightarrow> bool" where
  "member c p l u st \<longleftrightarrow> (\<exists>co ch. pe_cols st c = Some co \<and> co_mapper co = Group_mapper \<and>
     co_chares co = [of_nat p \<mapsto> ch] \<and> co_buffers co = (\<lambda>_. []) \<and>
     ch_parent ch = c \<and> ch_index ch = of_nat p \<and> ch_last ch = l \<and> ch_user ch = u)"

definition same_rest :: "collective_index \<Rightarrow> ('u, 'b) pe \<Rightarrow> ('u, 'b) pe \<Rightarrow> bool" where
  "same_rest c st st' \<longleftrightarrow> (\<forall>d. d \<noteq> c \<longrightarrow> pe_cols st' d = pe_cols st d \<and> pe_waiting st' d = pe_waiting st d) \<and>
     pe_count st' = pe_count st \<and> pe_exit st' = pe_exit st"

lemma same_rest_trans: "same_rest c st st1 \<Longrightarrow> same_rest c st1 st2 \<Longrightarrow> same_rest c st st2"
  by (simp add: same_rest_def)

lemma same_rest_refl [simp]: "same_rest c st st"
  by (simp add: same_rest_def)

text \<open>What the chare of PE \<open>p\<close> runs for the broadcast \<open>m\<close>, its number \<open>b\<close>.\<close>

abbreviation copy_for :: "nat \<Rightarrow> u16 \<Rightarrow> 'b msg \<Rightarrow> 'b msg" where
  "copy_for p b m \<equiv> set_bcast (of_nat p) b m"

definition received ::
  "collective_index \<Rightarrow> nat \<Rightarrow> u16 \<Rightarrow> ('u, 'b) entry_fn \<Rightarrow> 'b msg \<Rightarrow> ('u, 'b) pe \<Rightarrow> ('u, 'b) pe \<Rightarrow> bool" where
  "received c p l e m st st' \<longleftrightarrow> same_rest c st st' \<and> pe_waiting st' = pe_waiting st \<and>
     pe_log st' = pe_log st @ [(c, of_nat p, copy_for p (l + 1) m)] \<and>
     (\<forall>u. member c p l u st \<longrightarrow> member c p (l + 1) (run_segs (en_body e (copy_for p (l + 1) m)) u) st')"

lemma pe_for_of_nat:
  assumes "group_env n kids par E" and "p < n" and "q < n"
  shows "pe_for (E p) (of_nat q) = q" "unat (of_nat q :: u64) = q" "of_nat q \<noteq> chare_bcast_root"
proof -
  have q: "q < 2 ^ 30" and n: "num_pes (E p) = n" using assms by (auto simp: group_env_def)
  then show "unat (of_nat q :: u64) = q" by (simp add: unat_of_nat take_bit_nat_eq_self)
  then show "pe_for (E p) (of_nat q) = q" using n assms(3) by (simp add: pe_for_def)
  show "of_nat q \<noteq> chare_bcast_root"
    using bidx_facts(2) [OF q] by (simp add: encode_int_def)
qed

lemma of_nat_eq:
  assumes "group_env n kids par E" and "p < n" and "q < n"
  shows "(of_nat p :: u64) = of_nat q \<longleftrightarrow> p = q"
  using pe_for_of_nat(2) [OF assms(1,2)] assms by metis

definition group_bcast :: "collective_index \<Rightarrow> u64 \<Rightarrow> 'b msg \<Rightarrow> 'b msg" where
  "group_bcast c ent m = to_element c chare_bcast_root ent m"

lemma group_bcast_dst:
  "m_dst (group_bcast c ent m) = \<lparr>d_kind = KEndpoint, d_w0 = ci_view c, d_w1 = chare_bcast_root, d_w2 = ent, d_bc = 0\<rparr>"
  "m_creates (group_bcast c ent m) = m_creates m"
  by (simp_all add: group_bcast_def to_element_def dest_endpoint_def)

lemma copy_to_chare:
  assumes E: "group_env n kids par E" and e: "method_at n E ent e False" and m: "\<not> m_creates m" and p: "p < n"
  shows "to_chare (E p) c (of_nat p) (copy_for p b (group_bcast c ent m)) (e p) False"
    "m_dst (copy_for p b (group_bcast c ent m)) =
      \<lparr>d_kind = KEndpoint, d_w0 = ci_view c, d_w1 = of_nat p, d_w2 = ent, d_bc = b\<rparr>"
  using e p m pe_for_of_nat(3) [OF E p p]
  by (auto simp: to_chare_def set_bcast_def group_bcast_dst method_at_def)

lemma forwards_copies:
  assumes E: "group_env n kids par E" and p: "p < n"
  shows "forwards (E p) (map of_nat (kids p)) (copy_for p b m) = map (\<lambda>q. NSend q (copy_for q b m)) (kids p)"
proof -
  have t: "spanning n kids par" and my: "my_pe (E p) = p" using E p by (simp_all add: group_env_def)
  have "send_helper (E p) (pe_for (E p) (of_nat q)) (clone_to (of_nat q) (copy_for p b m)) = NSend q (copy_for q b m)"
    if "q \<in> set (kids p)" for q
  proof -
    have "q < n" "q \<noteq> p" using spanning_kids [OF t p that] spanning_loop [OF t p] that by auto
    then show ?thesis using pe_for_of_nat(1) [OF E p] my by (simp add: send_helper_def clone_to_def set_bcast_def)
  qed
  then show ?thesis by (simp add: forwards_def)
qed

lemma upstream_kids:
  assumes E: "group_env n kids par E" and p: "p < n"
  shows "upstream (E p) Group_mapper (of_nat p) = Inr (map of_nat (kids p))"
  using E p pe_for_of_nat(1) [OF E p p] by (simp add: upstream_def group_env_def Let_def)

text \<open>A broadcast in its turn, at the chare it is addressed to.\<close>

lemma member_handles:
  assumes E: "group_env n kids par E" and e: "method_at n E ent e False" and m: "\<not> m_creates m" and p: "p < n"
    and mem: "member c p l u st" and l: "unat l < 65535"
  defines "b \<equiv> copy_for p (l + 1) (group_bcast c ent m)"
  shows "\<exists>st'. returns (E p) st [JHandle c (of_nat p) (Some (e p, False)) b] st' \<and>
    received c p l (e p) (group_bcast c ent m) st st' \<and>
    pe_out st' = pe_out st @ map (\<lambda>q. NSend q (copy_for q (l + 1) (group_bcast c ent m))) (kids p)"
proof -
  obtain co ch where co: "pe_cols st c = Some co" "co_mapper co = Group_mapper" "co_chares co = [of_nat p \<mapsto> ch]"
    "co_buffers co = (\<lambda>_. [])" "ch_parent ch = c" "ch_index ch = of_nat p" "ch_last ch = l" "ch_user ch = u"
    using mem by (auto simp: member_def)
  note t = copy_to_chare [OF E e m p, where c = c and b = "l + 1", folded b_def]
  have turn: "unat (d_bc (m_dst b)) = unat (ch_last ch) + 1"
    using t(2) co(7) l by (simp add: unat_word_ariths)
  then have nz: "d_bc (m_dst b) \<noteq> 0" by auto
  have up: "upstream (E p) (co_mapper co) (of_nat p) = Inr (map of_nat (kids p))"
    using upstream_kids [OF E p] co(2) by simp
  have ch: "co_chares co (of_nat p) = Some ch" using co(3) by simp
  define st' where "st' = bcast_state (E p) c (of_nat p) (e p) (map of_nat (kids p)) b co ch st"
  let ?ch = "ch\<lparr>ch_last := ch_last ch + 1, ch_user := run_segs (en_body (e p) b) (ch_user ch)\<rparr>"
  have cols: "pe_cols st' = (pe_cols st)(c \<mapsto> put_chare (of_nat p) ?ch co)"
    by (simp add: st'_def bcast_state_def state)
  have "job_step (E p) (JFlush c (of_nat p)) st' = Inr (st', [])"
    using co(4) by (simp add: flush_buffers_def lookup_col_def cols state)
  then have "returns (E p) st' [JFlush c (of_nat p)] st'" by (rule returns_last)
  then have r: "returns (E p) st [JHandle c (of_nat p) (Some (e p, False)) b] st'"
    unfolding st'_def by (rule handle_exact(2) [OF t(1) nz co(1) ch co(6) turn up])
  have "same_rest c st st'" "pe_waiting st' = pe_waiting st" "pe_log st' = pe_log st @ [(c, of_nat p, b)]"
    by (simp_all add: same_rest_def st'_def bcast_state_def put_col_def emit_def)
  moreover have "member c p (l + 1) (run_segs (en_body (e p) b) v) st'" if "member c p l v st" for v
  proof -
    have "v = u" using that co by (auto simp: member_def dest: map_upd_eqD1)
    then show ?thesis unfolding member_def
      using co by (intro exI [of _ "put_chare (of_nat p) ?ch co"] exI [of _ ?ch]) (simp add: cols state)
  qed
  moreover have "pe_out st' = pe_out st @ forwards (E p) (map of_nat (kids p)) b"
    by (simp add: st'_def bcast_state_def state)
  ultimately show ?thesis
    using r forwards_copies [OF E p] by (intro exI [of _ st']) (simp add: received_def b_def)
qed

lemma copy_delivered:
  assumes E: "group_env n kids par E" and e: "method_at n E ent e False" and m: "\<not> m_creates m" and p: "p < n"
    and mem: "member c p l u st" and l: "unat l < 65535"
  shows "\<exists>st'. returns (E p) st [JDeliver (copy_for p (l + 1) (group_bcast c ent m))] st' \<and>
    received c p l (e p) (group_bcast c ent m) st st' \<and>
    pe_out st' = pe_out st @ map (\<lambda>q. NSend q (copy_for q (l + 1) (group_bcast c ent m))) (kids p)"
proof -
  let ?b = "copy_for p (l + 1) (group_bcast c ent m)"
  obtain co ch where co: "pe_cols st c = Some co" "co_chares co (of_nat p) = Some ch"
    using mem by (auto simp: member_def)
  note t = copy_to_chare [OF E e m p, where c = c and b = "l + 1"]
  obtain st' where r: "returns (E p) st [JHandle c (of_nat p) (Some (e p, False)) ?b] st'"
    and st': "received c p l (e p) (group_bcast c ent m) st st'"
      "pe_out st' = pe_out st @ map (\<lambda>q. NSend q (copy_for q (l + 1) (group_bcast c ent m))) (kids p)"
    using member_handles [OF E e m p mem l] by blast
  have e2: "entry_at (entries (E p)) ent = Inr (Some (e p, False))" using e p by (simp add: method_at_def)
  have 1: "job_step (E p) (JDeliver ?b) st = Inr (st, [JEndpoint True ?b])" by (simp add: deliver_msg_def t(2))
  have 2: "job_step (E p) (JEndpoint True ?b) st = Inr (st, [JCol True c ?b])"
    using m co(1) by (simp add: deliver_to_endpoint_def endpoint_of_def t(2)) (simp add: set_bcast_def group_bcast_dst)
  have 3: "job_step (E p) (JCol True c ?b) st = Inr (st, [JHandle c (of_nat p) (Some (e p, False)) ?b])"
    by (rule col_deliver_found [OF t(1) co])
  have "returns (E p) st [JDeliver ?b] st'"
    by (rule returns_step [OF 1], simp, rule returns_step [OF 2], simp, rule returns_step [OF 3], simp add: r)
  then show ?thesis using st' by blast
qed

text \<open>A broadcast without a number: at the root it gets one, another PE passes it on.\<close>

lemma bcast_deliver_steps:
  assumes m: "\<not> m_creates m" and co: "pe_cols st c = Some co"
    and r: "returns E st [JCol True c (group_bcast c ent m)] st'"
  shows "returns E st [JDeliver (group_bcast c ent m)] st'"
proof -
  have 1: "job_step E (JDeliver (group_bcast c ent m)) st = Inr (st, [JEndpoint True (group_bcast c ent m)])"
    by (simp add: deliver_msg_def group_bcast_dst)
  have 2: "job_step E (JEndpoint True (group_bcast c ent m)) st = Inr (st, [JCol True c (group_bcast c ent m)])"
    using m co by (simp add: deliver_to_endpoint_def endpoint_of_def group_bcast_dst)
  show ?thesis by (rule returns_step [OF 1], simp, rule returns_step [OF 2], simp add: r)
qed

lemma root_delivered:
  assumes E: "group_env n kids par E" and e: "method_at n E ent e False" and m: "\<not> m_creates m"
    and mem: "member c 0 l u st" and l: "unat l < 65535"
  shows "\<exists>st'. returns (E 0) st [JDeliver (group_bcast c ent m)] st' \<and>
    received c 0 l (e 0) (group_bcast c ent m) st st' \<and>
    pe_out st' = pe_out st @ map (\<lambda>q. NSend q (copy_for q (l + 1) (group_bcast c ent m))) (kids 0)"
proof -
  have p: "0 < n" and par: "span_parent (E 0) 0 = None" using E by (auto simp: group_env_def spanning_def)
  obtain co ch where co: "pe_cols st c = Some co" "co_mapper co = Group_mapper" "co_chares co 0 = Some ch" "ch_last ch = l"
    using mem by (auto simp: member_def)
  obtain st' where r: "returns (E 0) st [JHandle c (of_nat 0) (Some (e 0, False)) (copy_for 0 (l + 1) (group_bcast c ent m))] st'"
    and st': "received c 0 l (e 0) (group_bcast c ent m) st st'"
      "pe_out st' = pe_out st @ map (\<lambda>q. NSend q (copy_for q (l + 1) (group_bcast c ent m))) (kids 0)"
    using member_handles [OF E e m p mem l] by blast
  have "entry_at (entries (E 0)) ent = Inr (Some (e 0, False))" using e p by (simp add: method_at_def)
  then have 3: "job_step (E 0) (JCol True c (group_bcast c ent m)) st
      = Inr (st, [JHandle c 0 (Some (e 0, False)) (set_bcast 0 (l + 1) (group_bcast c ent m))])"
    using co par by (simp add: deliver_now_def lookup_col_def endpoint_of_def group_bcast_dst loc_root_def)
  have "returns (E 0) st [JCol True c (group_bcast c ent m)] st'"
    by (rule returns_step [OF 3]) (use r in simp)
  then show ?thesis using bcast_deliver_steps [OF m co(1)] st' by blast
qed

lemma relay_delivered:
  assumes E: "group_env n kids par E" and m: "\<not> m_creates m" and p: "p < n" "p \<noteq> 0" and mem: "member c p l u st"
  shows "returns (E p) st [JDeliver (group_bcast c ent m)] (emit [NSend 0 (group_bcast c ent m)] st)"
proof -
  have z: "0 < n" and par: "span_parent (E p) 0 = None" and my: "my_pe (E p) = p"
    using E p by (auto simp: group_env_def spanning_def)
  have ne: "(of_nat p :: u64) \<noteq> 0" using of_nat_eq [OF E p(1) z] p(2) by simp
  obtain co ch where co: "pe_cols st c = Some co" "co_mapper co = Group_mapper" "co_chares co = [of_nat p \<mapsto> ch]"
    using mem by (auto simp: member_def)
  have "job_step (E p) (JCol True c (group_bcast c ent m)) st = Inr (emit [NSend 0 (group_bcast c ent m)] st, [])"
    using co par ne my p(2) pe_for_of_nat(1) [OF E p(1) z]
    by (simp add: deliver_now_def lookup_col_def endpoint_of_def group_bcast_dst loc_root_def send_helper_def)
  from returns_last [OF this] show ?thesis by (rule bcast_deliver_steps [OF m co(1)])
qed

text \<open>The call that starts a broadcast, on any PE: the message goes to the PE that the number of the broadcast root stands for.\<close>

definition bcast_home :: "nat \<Rightarrow> nat" where
  "bcast_home n = unat chare_bcast_root mod n"

lemma broadcast_called:
  assumes E: "group_env n kids par E" and m: "\<not> m_creates m" and p: "p < n" and mem: "member c p l u st"
  shows "returns (E p) st [JAct (proxy_broadcast c ent m)]
    (emit [if bcast_home n = p then NPush (group_bcast c ent m) else NSend (bcast_home n) (group_bcast c ent m)] st)"
proof -
  obtain co where co: "pe_cols st c = Some co" using mem by (auto simp: member_def)
  have my: "my_pe (E p) = p" "num_pes (E p) = n" using E p by (auto simp: group_env_def)
  let ?b = "group_bcast c ent m"
  have 1: "job_step (E p) (JAct (proxy_broadcast c ent m)) st = Inr (st, [JSend ?b])"
    by (simp add: proxy_broadcast_def group_bcast_def)
  have 2: "job_step (E p) (JSend ?b) st = Inr (st, [JEndpoint False ?b])"
    using m by (simp add: send_msg_def group_bcast_dst)
  have 3: "job_step (E p) (JEndpoint False ?b) st = Inr (st, [JCol False c ?b])"
    using m co by (simp add: deliver_to_endpoint_def endpoint_of_def group_bcast_dst)
  have 4: "job_step (E p) (JCol False c ?b) st
      = Inr (emit [if bcast_home n = p then NPush ?b else NSend (bcast_home n) ?b] st, [])"
    using my by (simp add: deliver_later_def endpoint_of_def group_bcast_dst send_helper_def pe_for_def bcast_home_def)
  note r4 = returns_last [OF 4]
  have r3: "returns (E p) st [JEndpoint False ?b]
      (emit [if bcast_home n = p then NPush ?b else NSend (bcast_home n) ?b] st)"
    by (rule returns_step [OF 3]) (use r4 in simp)
  have r2: "returns (E p) st [JSend ?b] (emit [if bcast_home n = p then NPush ?b else NSend (bcast_home n) ?b] st)"
    by (rule returns_step [OF 2]) (use r3 in simp)
  show ?thesis by (rule returns_step [OF 1]) (use r2 in simp)
qed

end
