(* ===== verification/Charm_Group_Net.thy ===== *)
theory Charm_Group_Net
  imports Charm_Group
begin

text \<open>
  Broadcasts to a group on a network. The interface \<open>deliveries\<close> is what a phase of a program on the network promises
  when each message of the phase is handled and lowers the number of deliveries left; its lemma holds of every order of delivery.
\<close>

section \<open>Phases of deliveries\<close>

locale deliveries =
  fixes n :: nat
    and E :: "nat \<Rightarrow> ('u, 'b) env"
    and red :: "'b msg list \<Rightarrow> 'b msg"
    and left :: "nat \<Rightarrow> ('u, 'b) cnet \<Rightarrow> bool"
  assumes handled: "left w net \<Longrightarrow> cn_flight net = as @ (p, m) # bs \<Longrightarrow> p < n \<and> \<not> pe_exit (cn_pe net p) \<and>
      (\<exists>st w'. returns (E p) (cn_pe net p) [JDeliver m] st \<and> w = Suc w' \<and> left w' (put_out n p st (net\<lparr>cn_flight := as @ bs\<rparr>)))"
    and pending: "left w net \<Longrightarrow> 0 < w \<Longrightarrow> cn_flight net \<noteq> []"
    and no_reduction: "left w net \<Longrightarrow> \<exists>p<n. length (cn_reds net p) \<le> cn_done net"
begin

lemma one_delivery:
  assumes l: "left w net" and s: "cnet_step n E red net net'"
  shows "\<exists>w'. w = Suc w' \<and> left w' net'"
  using s
proof cases
  case (arrive as p m bs st)
  from handled [OF l arrive(2)] obtain st' w' where "returns (E p) (cn_pe net p) [JDeliver m] st'" "w = Suc w'"
    "left w' (put_out n p st' (net\<lparr>cn_flight := as @ bs\<rparr>))" by blast
  then show ?thesis using arrive returns_unique by blast
next
  case (reduced m)
  then show ?thesis using no_reduction [OF l] by (metis not_le)
qed

end

sublocale deliveries \<subseteq> countdown "cnet_step n E red" left
  by unfold_locales (rule one_delivery)

context deliveries
begin

lemma all_runs:
  assumes l: "left w net0" and r: "(cnet_step n E red ^^ k) net0 net"
  shows "k \<le> w \<and> (k < w \<longrightarrow> (\<exists>net'. cnet_step n E red net net')) \<and>
    (\<forall>p m. (p, m) \<in> set (cn_flight net) \<longrightarrow> p < n \<and> (\<exists>st. returns (E p) (cn_pe net p) [JDeliver m] st)) \<and>
    left (w - k) net"
proof -
  have k: "k \<le> w" "left (w - k) net" using counted_runs [OF l r] by simp_all
  have "\<exists>net'. cnet_step n E red net net'" if kw: "k < w"
  proof -
    obtain p m bs where f: "cn_flight net = [] @ (p, m) # bs"
      using pending [OF k(2)] kw by (cases "cn_flight net") auto
    from handled [OF k(2) f] obtain st where "p < n" "\<not> pe_exit (cn_pe net p)" "returns (E p) (cn_pe net p) [JDeliver m] st"
      by blast
    then show ?thesis using arrive [where as = "[]" and bs = bs, OF f] by blast
  qed
  moreover have "p < n \<and> (\<exists>st. returns (E p) (cn_pe net p) [JDeliver m] st)" if "(p, m) \<in> set (cn_flight net)" for p m
    using handled [OF k(2)] that by (meson split_list)
  ultimately show ?thesis using k by blast
qed

end

section \<open>A broadcast on its way\<close>

text \<open>A call from outside of a method, such as in \<open>main\<close>, on PE \<open>p\<close>.\<close>

definition cnet_call :: "nat \<Rightarrow> ('u, 'b) env \<Rightarrow> nat \<Rightarrow> ('u, 'b) job list \<Rightarrow> ('u, 'b) cnet \<Rightarrow> ('u, 'b) cnet \<Rightarrow> bool" where
  "cnet_call n E p js net net' \<longleftrightarrow> (\<exists>st. returns E (cn_pe net p) js st \<and> net' = put_out n p st net)"

text \<open>All members of the group are there, have received \<open>l\<close> broadcasts, and nothing is on its way.\<close>

definition settled_pe :: "('u, 'b) pe \<Rightarrow> bool" where
  "settled_pe st \<longleftrightarrow> pe_out st = [] \<and> \<not> pe_exit st"

definition no_reds :: "nat \<Rightarrow> ('u, 'b) cnet \<Rightarrow> bool" where
  "no_reds n net \<longleftrightarrow> (\<exists>p<n. length (cn_reds net p) \<le> cn_done net)"

definition group_ready :: "nat \<Rightarrow> collective_index \<Rightarrow> u16 \<Rightarrow> ('u, 'b) cnet \<Rightarrow> bool" where
  "group_ready n c l net \<longleftrightarrow> cn_flight net = [] \<and> no_reds n net \<and>
     (\<forall>p<n. settled_pe (cn_pe net p) \<and> (\<exists>u. member c p l u (cn_pe net p)))"

text \<open>The broadcast \<open>M\<close> has been received on the PEs \<open>R\<close>; copies are on their way to their children.\<close>

definition bcast_spread ::
  "nat \<Rightarrow> (nat \<Rightarrow> nat option) \<Rightarrow> collective_index \<Rightarrow> u16 \<Rightarrow> (nat \<Rightarrow> ('u, 'b) entry_fn) \<Rightarrow> 'b msg \<Rightarrow> ('u, 'b) cnet
    \<Rightarrow> nat set \<Rightarrow> ('u, 'b) cnet \<Rightarrow> bool" where
  "bcast_spread n par c l e M net0 R net \<longleftrightarrow> R \<subseteq> {..<n} \<and> 0 \<in> R \<and> (\<forall>q\<in>R. q \<noteq> 0 \<longrightarrow> (\<exists>p\<in>R. par q = Some p)) \<and>
     (\<exists>qs. distinct qs \<and> set qs = {q. q < n \<and> q \<notin> R \<and> (\<exists>p\<in>R. par q = Some p)} \<and>
       cn_flight net = map (\<lambda>q. (q, copy_for q (l + 1) M)) qs) \<and>
     (\<forall>p\<in>R. received c p l (e p) M (cn_pe net0 p) (cn_pe net p) \<and> settled_pe (cn_pe net p)) \<and>
     (\<forall>p. p \<notin> R \<longrightarrow> cn_pe net p = cn_pe net0 p)"

definition bcast_left ::
  "nat \<Rightarrow> (nat \<Rightarrow> nat option) \<Rightarrow> collective_index \<Rightarrow> u16 \<Rightarrow> (nat \<Rightarrow> ('u, 'b) entry_fn) \<Rightarrow> 'b msg \<Rightarrow> ('u, 'b) cnet
    \<Rightarrow> nat \<Rightarrow> ('u, 'b) cnet \<Rightarrow> bool" where
  "bcast_left n par c l e M net0 w net \<longleftrightarrow> cn_reds net = cn_reds net0 \<and> cn_done net = cn_done net0 \<and>
     ((\<exists>q<n. cn_flight net = [(q, M)] \<and> cn_pe net = cn_pe net0 \<and> w = n + (if q = 0 then 0 else 1)) \<or>
      (\<exists>R. bcast_spread n par c l e M net0 R net \<and> w + card R = n))"

lemma received_out:
  "received c p l e M st (st'\<lparr>pe_out := ns\<rparr>) = received c p l e M st st'"
  by (simp add: received_def same_rest_def member_def)

lemma put_out_simps:
  "cn_pe (put_out n p st net) = (cn_pe net)(p := st\<lparr>pe_out := []\<rparr>)"
  "cn_flight (put_out n p st net) = cn_flight net @ concat (map (routed n p) (pe_out st))"
  "cn_done (put_out n p st net) = cn_done net"
  by (simp_all add: put_out_def)

lemma put_out_reds: "concat (map contributed (pe_out st)) = [] \<Longrightarrow> cn_reds (put_out n p st net) = cn_reds net"
  by (simp add: put_out_def del: concat_eq_Nil_conv)

lemma routed_sends:
  "concat (map (routed n p) (map (\<lambda>q. NSend q (f q)) qs)) = map (\<lambda>q. (q, f q)) qs"
  "concat (map contributed (map (\<lambda>q. NSend q (f q)) qs)) = []"
  by (induction qs) simp_all

lemma spread_flight:
  assumes "bcast_spread n par c l e M net0 R net"
  obtains qs where "set qs = {q. q < n \<and> q \<notin> R \<and> (\<exists>p\<in>R. par q = Some p)}"
    "cn_flight net = map (\<lambda>q. (q, copy_for q (l + 1) M)) qs" "distinct qs"
  using assms unfolding bcast_spread_def by (elim conjE exE) (rule that)

lemma map_split: "map f qs = as @ y # bs \<Longrightarrow> \<exists>q1 q q2. qs = q1 @ q # q2 \<and> as = map f q1 \<and> y = f q \<and> bs = map f q2"
  by (auto simp: map_eq_append_conv map_eq_Cons_conv)

lemma spread_root:
  assumes E: "group_env n kids par E" and r: "received c 0 l (e 0) M (cn_pe net0 0) st" and ex: "\<not> pe_exit (cn_pe net0 0)"
    and out: "pe_out st = map (\<lambda>q. NSend q (copy_for q (l + 1) M)) (kids 0)"
    and net: "cn_pe net = cn_pe net0" "cn_flight net = []"
  shows "bcast_spread n par c l e M net0 {0} (put_out n 0 st net)"
proof -
  have n: "0 < n" and t: "spanning n kids par" using E by (auto simp: group_env_def)
  have k: "distinct (kids 0)" "set (kids 0) = {q. q < n \<and> q \<notin> {0} \<and> (\<exists>p\<in>{0}. par q = Some p)}"
    using t n spanning_kids(3) [OF t n] by (auto simp: spanning_def)
  have f: "cn_flight (put_out n 0 st net) = map (\<lambda>q. (q, copy_for q (l + 1) M)) (kids 0)"
    using net routed_sends(1) [of n 0 "\<lambda>q. copy_for q (l + 1) M" "kids 0"] by (simp add: put_out_simps out)
  have s: "settled_pe (st\<lparr>pe_out := []\<rparr>)" using r ex by (simp add: settled_pe_def received_def same_rest_def)
  show ?thesis unfolding bcast_spread_def
    using n k f s r net by (auto simp: put_out_simps received_out)
qed

lemma spread_next:
  assumes E: "group_env n kids par E" and s: "bcast_spread n par c l e M net0 R net"
    and f: "cn_flight net = as @ (p, x) # bs"
    and r: "received c p l (e p) M (cn_pe net0 p) st" and ex: "\<not> pe_exit (cn_pe net0 p)"
    and out: "pe_out st = map (\<lambda>q. NSend q (copy_for q (l + 1) M)) (kids p)"
  shows "bcast_spread n par c l e M net0 (insert p R) (put_out n p st (net\<lparr>cn_flight := as @ bs\<rparr>))" and "p \<notin> R"
proof -
  have t: "spanning n kids par" using E by (auto simp: group_env_def)
  obtain qs where qs: "distinct qs" "set qs = {q. q < n \<and> q \<notin> R \<and> (\<exists>p\<in>R. par q = Some p)}"
    "cn_flight net = map (\<lambda>q. (q, copy_for q (l + 1) M)) qs" using s by (auto simp: bcast_spread_def)
  obtain q1 q2 where q: "qs = q1 @ p # q2" "as = map (\<lambda>q. (q, copy_for q (l + 1) M)) q1" "bs = map (\<lambda>q. (q, copy_for q (l + 1) M)) q2"
    using f qs(3) by (auto simp: map_eq_append_conv map_eq_Cons_conv append_eq_map_conv Cons_eq_map_conv)
  have p: "p < n" "p \<notin> R" "\<exists>r\<in>R. par p = Some r" using qs(2) q(1) by auto
  then show "p \<notin> R" by blast
  have R: "R \<subseteq> {..<n}" "0 \<in> R" "\<forall>q\<in>R. q \<noteq> 0 \<longrightarrow> (\<exists>p\<in>R. par q = Some p)"
    "\<forall>p\<in>R. received c p l (e p) M (cn_pe net0 p) (cn_pe net p) \<and> settled_pe (cn_pe net p)"
    "\<forall>p. p \<notin> R \<longrightarrow> cn_pe net p = cn_pe net0 p" using s by (simp_all add: bcast_spread_def)
  have k: "distinct (kids p)" "set (kids p) = {q. q < n \<and> par q = Some p}"
    using t p(1) by (auto simp: spanning_def)
  have kR: "q \<notin> R" if "q \<in> set (kids p)" for q
  proof
    assume "q \<in> R"
    moreover have "par q = Some p" using that k(2) by simp
    moreover have "q \<noteq> 0" using spanning_kids(3) [OF t p(1) that] .
    ultimately show False using R(3) p(2) by fastforce
  qed
  have S: "set (q1 @ q2) = {q. q < n \<and> q \<notin> R \<and> (\<exists>r\<in>R. par q = Some r)} - {p}"
    using qs(1) q(1) unfolding qs(2) [symmetric] by auto
  have "set (q1 @ q2) \<inter> set (kids p) = {}" unfolding S k(2) using p(2) by auto
  then have "distinct (q1 @ q2 @ kids p)" using qs(1) q(1) k(1) by auto
  moreover have "set (q1 @ q2 @ kids p) = {q. q < n \<and> q \<notin> insert p R \<and> (\<exists>r\<in>insert p R. par q = Some r)}"
  proof -
    have "q \<noteq> p" if "q \<in> set (kids p)" for q using spanning_loop [OF t p(1)] that by blast
    moreover have "set (q1 @ q2 @ kids p) = set (q1 @ q2) \<union> set (kids p)" by auto
    ultimately show ?thesis using kR unfolding S k(2) by blast
  qed
  moreover have "cn_flight (put_out n p st (net\<lparr>cn_flight := as @ bs\<rparr>)) = map (\<lambda>q. (q, copy_for q (l + 1) M)) (q1 @ q2 @ kids p)"
    using q(2,3) routed_sends(1) [of n p "\<lambda>q. copy_for q (l + 1) M" "kids p"] by (simp add: put_out_simps out)
  moreover have "settled_pe (st\<lparr>pe_out := []\<rparr>)" using r ex by (simp add: settled_pe_def received_def same_rest_def)
  ultimately show "bcast_spread n par c l e M net0 (insert p R) (put_out n p st (net\<lparr>cn_flight := as @ bs\<rparr>))"
    unfolding bcast_spread_def using R p r
    by (intro conjI exI [of _ "q1 @ q2 @ kids p"]) (auto simp: put_out_simps received_out)
qed

lemma spread_open:
  assumes E: "group_env n kids par E" and s: "bcast_spread n par c l e M net0 R net"
  shows "cn_flight net = [] \<longleftrightarrow> R = {..<n}" and "card R \<le> n" and "card R = n \<longleftrightarrow> R = {..<n}"
proof -
  have t: "spanning n kids par" using E by (auto simp: group_env_def)
  have R: "R \<subseteq> {..<n}" "0 \<in> R" using s by (simp_all add: bcast_spread_def)
  obtain qs where qs: "set qs = {q. q < n \<and> q \<notin> R \<and> (\<exists>p\<in>R. par q = Some p)}"
    "cn_flight net = map (\<lambda>q. (q, copy_for q (l + 1) M)) qs" using s by (auto simp: bcast_spread_def)
  have f: "cn_flight net = [] \<longleftrightarrow> {q. q < n \<and> q \<notin> R \<and> (\<exists>p\<in>R. par q = Some p)} = {}"
    unfolding qs(1) [symmetric] qs(2) by simp
  show "cn_flight net = [] \<longleftrightarrow> R = {..<n}"
  proof
    assume "cn_flight net = []"
    then have c: "q \<in> R" if "p \<in> R" "p < n" "q \<in> set (kids p)" for p q
      using f that t by (auto simp: spanning_def)
    have "q \<in> R" if "q < n" for q by (rule spanning_all [OF t R(2) _ that]) (rule c)
    then show "R = {..<n}" using R(1) by blast
  qed (use f in auto)
  show "card R \<le> n" using card_mono [OF _ R(1)] by simp
  show "card R = n \<longleftrightarrow> R = {..<n}" using card_subset_eq [OF _ R(1)] by auto
qed


text \<open>The broadcast as sent by the call, to be delivered within \<open>n\<close> or \<open>n + 1\<close> messages.\<close>

definition bcast_steps :: "nat \<Rightarrow> nat" where
  "bcast_steps n = n + (if bcast_home n = 0 then 0 else 1)"

definition bcast_setting ::
  "nat \<Rightarrow> (nat \<Rightarrow> nat list) \<Rightarrow> (nat \<Rightarrow> nat option) \<Rightarrow> (nat \<Rightarrow> ('u, 'b) env) \<Rightarrow> collective_index \<Rightarrow> u64 \<Rightarrow> u16
    \<Rightarrow> (nat \<Rightarrow> ('u, 'b) entry_fn) \<Rightarrow> 'b msg \<Rightarrow> ('u, 'b) cnet \<Rightarrow> bool" where
  "bcast_setting n kids par E c ent l e m net0 \<longleftrightarrow> group_env n kids par E \<and> method_at n E ent e False \<and> \<not> m_creates m \<and>
     unat l < 65535 \<and> group_ready n c l net0"

lemma put_out_same:
  assumes "pe_out (cn_pe net p) = []"
  shows "cn_pe (put_out n p (emit ns (cn_pe net p)) net) = cn_pe net"
proof -
  have "(cn_pe net p)\<lparr>pe_out := []\<rparr> = cn_pe net p" using assms by (cases "cn_pe net p") simp
  then show ?thesis by (simp add: put_out_simps emit_def fun_upd_idem)
qed

lemma bcast_handled:
  assumes S: "bcast_setting n kids par E c ent l e m net0" and w: "bcast_left n par c l e (group_bcast c ent m) net0 w net"
    and f: "cn_flight net = as @ (p, x) # bs"
  shows "p < n \<and> \<not> pe_exit (cn_pe net p) \<and> (\<exists>st w'. returns (E p) (cn_pe net p) [JDeliver x] st \<and> w = Suc w' \<and>
    bcast_left n par c l e (group_bcast c ent m) net0 w' (put_out n p st (net\<lparr>cn_flight := as @ bs\<rparr>)))"
proof -
  let ?M = "group_bcast c ent m"
  have E: "group_env n kids par E" and e: "method_at n E ent e False" and m: "\<not> m_creates m" and l: "unat l < 65535"
    and ready: "\<And>p. p < n \<Longrightarrow> settled_pe (cn_pe net0 p) \<and> (\<exists>u. member c p l u (cn_pe net0 p))" and n: "0 < n"
    using S by (auto simp: bcast_setting_def group_ready_def group_env_def)
  have rd: "cn_reds net = cn_reds net0" "cn_done net = cn_done net0" using w by (simp_all add: bcast_left_def)
  consider (start) q where "q < n" "cn_flight net = [(q, ?M)]" "cn_pe net = cn_pe net0" "w = n + (if q = 0 then 0 else 1)"
    | (spread) R where "bcast_spread n par c l e ?M net0 R net" "w + card R = n"
    using w unfolding bcast_left_def by blast
  then show ?thesis
  proof cases
    case start
    then have e1: "p = q" "x = ?M" "as = []" "bs = []" using f unfolding start(2) by (cases as; simp)+
    have st: "settled_pe (cn_pe net p)" "\<exists>u. member c p l u (cn_pe net p)" using ready start e1 by simp_all
    then have pe: "p < n" "\<not> pe_exit (cn_pe net p)" "pe_out (cn_pe net p) = []" using start(1) e1 by (simp_all add: settled_pe_def)
    show ?thesis
    proof (cases "p = 0")
      case True
      from st True obtain u where "member c 0 l u (cn_pe net 0)" by auto
      from root_delivered [OF E e m this l] pe True obtain st' where r: "returns (E 0) (cn_pe net 0) [JDeliver ?M] st'"
        "received c 0 l (e 0) ?M (cn_pe net 0) st'" "pe_out st' = map (\<lambda>q. NSend q (copy_for q (l + 1) ?M)) (kids 0)" by auto
      have "bcast_spread n par c l e ?M net0 {0} (put_out n 0 st' (net\<lparr>cn_flight := as @ bs\<rparr>))"
        by (rule spread_root [OF E _ _ r(3)]) (use r(2) pe True start e1 in simp_all)
      moreover have "w = Suc (n - 1)" "n - 1 + card {0 :: nat} = n" using start(4) e1 True n by simp_all
      ultimately have "bcast_left n par c l e ?M net0 (n - 1) (put_out n 0 st' (net\<lparr>cn_flight := as @ bs\<rparr>))"
        unfolding bcast_left_def using rd r(3) by (auto simp: put_out_reds routed_sends put_out_simps)
      then show ?thesis using pe True e1 r(1) \<open>w = Suc (n - 1)\<close> by blast
    next
      case False
      from st obtain u where "member c p l u (cn_pe net p)" by auto
      note r = relay_delivered [OF E m pe(1) False this, of ent]
      have "bcast_left n par c l e ?M net0 n (put_out n p (emit [NSend 0 ?M] (cn_pe net p)) (net\<lparr>cn_flight := as @ bs\<rparr>))"
        unfolding bcast_left_def
        using put_out_same [of "net\<lparr>cn_flight := as @ bs\<rparr>" p n "[NSend 0 ?M]"] pe n start e1 rd
        by (intro conjI disjI1 exI [of _ 0]) (simp_all add: put_out_simps put_out_reds emit_def)
      then show ?thesis using pe e1 r start(4) False by auto
    qed
  next
    case spread
    obtain qs where qs: "set qs = {q. q < n \<and> q \<notin> R \<and> (\<exists>p\<in>R. par q = Some p)}"
      "cn_flight net = map (\<lambda>q. (q, copy_for q (l + 1) ?M)) qs" using spread(1) by (rule spread_flight)
    from map_split [OF qs(2) [symmetric, unfolded f]] have x: "x = copy_for p (l + 1) ?M" and "p \<in> set qs" by auto
    then have p: "p < n" "p \<notin> R" unfolding qs(1) by simp_all
    have same: "cn_pe net p = cn_pe net0 p" using spread(1) p(2) by (simp add: bcast_spread_def)
    have pe: "\<not> pe_exit (cn_pe net p)" "pe_out (cn_pe net p) = []" using ready [OF p(1)] same by (simp_all add: settled_pe_def)
    obtain u where "member c p l u (cn_pe net p)" using ready [OF p(1)] same by auto
    from copy_delivered [OF E e m p(1) this l] pe obtain st' where r: "returns (E p) (cn_pe net p) [JDeliver x] st'"
      "received c p l (e p) ?M (cn_pe net p) st'" "pe_out st' = map (\<lambda>q. NSend q (copy_for q (l + 1) ?M)) (kids p)"
      unfolding x by auto
    have next': "bcast_spread n par c l e ?M net0 (insert p R) (put_out n p st' (net\<lparr>cn_flight := as @ bs\<rparr>))"
      by (rule spread_next(1) [OF E spread(1) f _ _ r(3)]) (use r(2) same pe in simp_all)
    have "finite R" using spread(1) finite_subset [of R "{..<n}"] by (simp add: bcast_spread_def)
    then have c: "card (insert p R) = Suc (card R)" using p(2) by simp
    moreover have "card (insert p R) \<le> n" by (rule spread_open(2) [OF E next'])
    ultimately obtain w' where w': "w = Suc w'" "w' + card (insert p R) = n"
      using spread(2) by (cases w) auto
    have "bcast_left n par c l e ?M net0 w' (put_out n p st' (net\<lparr>cn_flight := as @ bs\<rparr>))"
      unfolding bcast_left_def using rd r(3) next' w'(2) by (auto simp: put_out_reds routed_sends put_out_simps)
    then show ?thesis using p(1) pe r(1) w'(1) by blast
  qed
qed

interpretation bcast_net: deliveries n E red
    "\<lambda>w net. bcast_setting n kids par E c ent l e m net0 \<and> bcast_left n par c l e (group_bcast c ent m) net0 w net"
  for n E red kids par c ent l e m net0
proof
  fix w net as p x bs
  assume "bcast_setting n kids par E c ent l e m net0 \<and> bcast_left n par c l e (group_bcast c ent m) net0 w net"
    and "cn_flight net = as @ (p, x) # bs"
  then show "p < n \<and> \<not> pe_exit (cn_pe net p) \<and> (\<exists>st w'. returns (E p) (cn_pe net p) [JDeliver x] st \<and> w = Suc w' \<and>
      bcast_setting n kids par E c ent l e m net0 \<and>
      bcast_left n par c l e (group_bcast c ent m) net0 w' (put_out n p st (net\<lparr>cn_flight := as @ bs\<rparr>)))"
    using bcast_handled by blast
next
  fix w net
  assume a: "bcast_setting n kids par E c ent l e m net0 \<and> bcast_left n par c l e (group_bcast c ent m) net0 w net"
    and "0 < w"
  have E: "group_env n kids par E" using a by (simp add: bcast_setting_def)
  have "cn_flight net \<noteq> []" if "bcast_spread n par c l e (group_bcast c ent m) net0 R net" "w + card R = n" for R
    using spread_open(1,3) [OF E that(1)] that(2) \<open>0 < w\<close> by auto
  then show "cn_flight net \<noteq> []" using a unfolding bcast_left_def by auto
next
  fix w net
  assume "bcast_setting n kids par E c ent l e m net0 \<and> bcast_left n par c l e (group_bcast c ent m) net0 w net"
  then show "\<exists>p<n. length (cn_reds net p) \<le> cn_done net"
    by (simp add: bcast_setting_def group_ready_def no_reds_def bcast_left_def)
qed

lemma bcast_left_done:
  assumes S: "bcast_setting n kids par E c ent l e m net0" and w: "bcast_left n par c l e (group_bcast c ent m) net0 0 net"
  shows "group_ready n c (l + 1) net \<and> (\<forall>p<n. received c p l (e p) (group_bcast c ent m) (cn_pe net0 p) (cn_pe net p))"
proof -
  have E: "group_env n kids par E" "0 < n" and g: "group_ready n c l net0" using S by (auto simp: bcast_setting_def group_env_def)
  obtain R where R: "bcast_spread n par c l e (group_bcast c ent m) net0 R net" "card R = n"
    using w E(2) by (auto simp: bcast_left_def)
  then have all: "R = {..<n}" "cn_flight net = []" using spread_open(1,3) [OF E(1) R(1)] by simp_all
  have rec: "received c p l (e p) (group_bcast c ent m) (cn_pe net0 p) (cn_pe net p) \<and> settled_pe (cn_pe net p)" if "p < n" for p
    using R(1) all(1) that by (simp add: bcast_spread_def)
  moreover have "\<exists>u. member c p (l + 1) u (cn_pe net p)" if "p < n" for p
    using rec [OF that] g that by (auto simp: received_def group_ready_def)
  moreover have "no_reds n net" using w g by (simp add: bcast_left_def group_ready_def no_reds_def)
  ultimately show ?thesis using all(2) by (auto simp: group_ready_def)
qed



section \<open>A group of two PEs\<close>

lemma extend_run:
  assumes "\<And>k t. (step ^^ k) s t \<Longrightarrow> k < w \<Longrightarrow> \<exists>u. step t u"
  shows "\<exists>t. (step ^^ w) s t"
  using assms
proof (induction w)
  case (Suc w)
  then obtain t where "(step ^^ w) s t" by (metis less_SucI)
  moreover from this obtain u where "step t u" using Suc.prems by blast
  ultimately show ?case by (meson relpowp_Suc_I)
qed auto

definition pair_env :: "nat \<Rightarrow> (nat list, nat) env" where
  "pair_env p = demo_env\<lparr>my_pe := p\<rparr>"

definition pair_kids :: "nat \<Rightarrow> nat list" where
  "pair_kids p = (if p = 0 then [1] else [])"

definition pair_par :: "nat \<Rightarrow> nat option" where
  "pair_par p = (if p = 0 then None else Some 0)"

lemma pair_group: "group_env 2 pair_kids pair_par pair_env"
proof -
  have "(0, q) \<in> {(p, q). p < 2 \<and> q \<in> set (pair_kids p)}\<^sup>*" if "q < 2" for q
  proof (cases "q = 0")
    case False
    then have "(0, q) \<in> {(p, q). p < 2 \<and> q \<in> set (pair_kids p)}" using that by (simp add: pair_kids_def)
    then show ?thesis by (rule r_into_rtrancl)
  qed simp
  moreover have "q \<in> set (pair_kids p) \<longleftrightarrow> q < 2 \<and> pair_par q = Some p" if "p < 2" for p q
    using that by (auto simp: pair_kids_def pair_par_def)
  ultimately have "spanning 2 pair_kids pair_par"
    by (simp add: spanning_def) (simp add: pair_kids_def pair_par_def)
  moreover have "my_pe (pair_env p) = p \<and> num_pes (pair_env p) = 2 \<and> span_children (pair_env p) = pair_kids \<and>
      span_parent (pair_env p) = pair_par" for p
    by (simp add: pair_env_def demo_env_def pair_kids_def pair_par_def fun_eq_iff)
  ultimately show ?thesis by (simp add: group_env_def)
qed

definition pair_ctor :: "nat \<Rightarrow> (nat list, nat) entry_fn" where
  "pair_ctor p = fst (entries (pair_env p) ! 0)"

definition pair_note :: "nat \<Rightarrow> (nat list, nat) entry_fn" where
  "pair_note p = fst (entries (pair_env p) ! 1)"

lemma pair_methods: "method_at 2 pair_env 1 pair_ctor True" "method_at 2 pair_env 2 pair_note False"
  "at (kinds (pair_env p)) (unat (1 - 1 :: u64)) = Inr Group_mapper"
  by (simp_all add: method_at_def pair_ctor_def pair_note_def pair_env_def demo_env_def entry_at_def at_def quiet_def)

text \<open>The two members, each with an empty list.\<close>

definition pair_pe :: "nat \<Rightarrow> (nat list, nat) pe" where
  "pair_pe p = put_col demo_col (put_chare (of_nat p)
     \<lparr>ch_parent = demo_col, ch_index = of_nat p, ch_last = 0, ch_user = []\<rparr> (new_coll Group_mapper)) new_pe"

definition pair_net :: "(nat list, nat) cnet" where
  "pair_net = \<lparr>cn_pe = pair_pe, cn_flight = [], cn_reds = (\<lambda>_. []), cn_done = 0\<rparr>"

lemma pair_ready: "group_ready 2 demo_col 0 pair_net"
proof -
  have "member demo_col p 0 [] (pair_pe p)" for p
    unfolding member_def pair_pe_def
    by (intro exI [of _ "put_chare (of_nat p) \<lparr>ch_parent = demo_col, ch_index = of_nat p, ch_last = 0, ch_user = []\<rparr>
        (new_coll Group_mapper)"] exI [of _ "\<lparr>ch_parent = demo_col, ch_index = of_nat p, ch_last = 0, ch_user = []\<rparr>"])
      (simp add: state, simp add: new_coll_def)
  moreover have "settled_pe (pair_pe p)" for p by (simp add: settled_pe_def pair_pe_def put_col_def new_pe_def)
  moreover have "no_reds 2 pair_net" unfolding no_reds_def by (rule exI [of _ 0]) (simp add: pair_net_def)
  ultimately show ?thesis by (auto simp: group_ready_def pair_net_def)
qed


end
