(* ===== verification/Charm_Group_Props.thy ===== *)
theory Charm_Group_Props
  imports Charm_Group_Net
begin

text \<open>
  The construction of a group on a network: every PE gets the message that creates the collective and the one that constructs its
  chare, in either order. And what happens when the group is used before that: a broadcast that overtakes a constructor hangs its PE.
\<close>

section \<open>The two messages of a PE\<close>

datatype gkind = GCreate | GMake

lemma gkind_ex: "(\<exists>k. P k) \<longleftrightarrow> P GCreate \<or> P GMake"
  by (metis gkind.exhaust)

abbreviation ctor_for :: "nat \<Rightarrow> collective_index \<Rightarrow> u64 \<Rightarrow> 'b msg \<Rightarrow> 'b msg" where
  "ctor_for p c ctor m \<equiv> copy_for p 0 (group_bcast c ctor m)"

definition made_state :: "collective_index \<Rightarrow> nat \<Rightarrow> ('u, 'b) entry_fn \<Rightarrow> 'b msg \<Rightarrow> ('u, 'b) pe \<Rightarrow> ('u, 'b) pe" where
  "made_state c p e K st = (put_col c (put_chare (of_nat p) \<lparr>ch_parent = c, ch_index = of_nat p, ch_last = 0,
     ch_user = run_segs (en_body e K) (en_init e K)\<rparr> (new_coll Group_mapper)) st)\<lparr>pe_log := pe_log st @ [(c, of_nat p, K)]\<rparr>"

text \<open>The PE after the messages \<open>S\<close> of the two.\<close>

definition gstate :: "collective_index \<Rightarrow> nat \<Rightarrow> ('u, 'b) entry_fn \<Rightarrow> 'b msg \<Rightarrow> gkind set \<Rightarrow> ('u, 'b) pe \<Rightarrow> ('u, 'b) pe" where
  "gstate c p e K S st =
     (if GCreate \<in> S then (if GMake \<in> S then made_state c p e K st else put_col c (new_coll Group_mapper) st)
      else (if GMake \<in> S then st\<lparr>pe_waiting := (pe_waiting st)(c := [K])\<rparr> else st))"

definition fresh_pe :: "collective_index \<Rightarrow> ('u, 'b) pe \<Rightarrow> bool" where
  "fresh_pe c st \<longleftrightarrow> pe_cols st c = None \<and> pe_waiting st c = [] \<and> settled_pe st"

lemma ctor_to_chare:
  assumes E: "group_env n kids par E" and e: "method_at n E ctor e True" and m: "\<not> m_creates m" and p: "p < n"
  shows "to_chare (E p) c (of_nat p) (ctor_for p c ctor m) (e p) True"
    "m_dst (ctor_for p c ctor m) = \<lparr>d_kind = KEndpoint, d_w0 = ci_view c, d_w1 = of_nat p, d_w2 = ctor, d_bc = 0\<rparr>"
    "\<not> m_creates (ctor_for p c ctor m)"
  using e p m pe_for_of_nat(3) [OF E p p]
  by (auto simp: to_chare_def set_bcast_def group_bcast_dst method_at_def)

text \<open>The constructor's message at a collective without the chare, up to the flush of the buffer.\<close>

lemma ctor_runs:
  assumes E: "group_env n kids par E" and e: "method_at n E ctor e True" and m: "\<not> m_creates m" and p: "p < n"
    and co: "pe_cols st c = Some co" "co_chares co = Map.empty"
  defines "K \<equiv> ctor_for p c ctor m"
  defines "st' \<equiv> (put_col c (put_chare (of_nat p) \<lparr>ch_parent = c, ch_index = of_nat p, ch_last = 0,
     ch_user = run_segs (en_body (e p) K) (en_init (e p) K)\<rparr> co) st)\<lparr>pe_log := pe_log st @ [(c, of_nat p, K)]\<rparr>"
  shows "returns (E p) st' (JFlush c (of_nat p) # js) st2 \<Longrightarrow> returns (E p) st (JCol True c K # js) st2"
    and "diverges (E p) st' (JFlush c (of_nat p) # js) \<Longrightarrow> diverges (E p) st (JCol True c K # js)"
proof -
  note t = ctor_to_chare [OF E e m p, where c = c, folded K_def]
  have home: "pe_for (E p) (of_nat p) = my_pe (E p)" using pe_for_of_nat(1) [OF E p p] E p by (simp add: group_env_def)
  let ?ch = "\<lparr>ch_parent = c, ch_index = of_nat p, ch_last = 0, ch_user = en_init (e p) K\<rparr>"
  let ?st = "(put_col c (put_chare (of_nat p) ?ch co) st)\<lparr>pe_log := pe_log st @ [(c, of_nat p, K)]\<rparr>"
  have j: "job_step (E p) (JCol True c K) st = Inr (?st, [JBody c (of_nat p) (en_body (e p) K), JFlush c (of_nat p)])"
    using co to_chare_ep [OF t(1)] to_chare_rec [OF t(1)] t(1) home
    by (simp add: deliver_now_def try_deliver_def lookup_col_def Let_def to_chare_def invoke_entry_def)
  have "quiet (en_body (e p) K)" using t(1) by (simp add: to_chare_def)
  then have "returns (E p) ?st [JBody c (of_nat p) (en_body (e p) K)] (put_col c (put_chare (of_nat p)
      (?ch\<lparr>ch_user := run_segs (en_body (e p) K) (ch_user ?ch)\<rparr>) (put_chare (of_nat p) ?ch co)) ?st)"
    by (rule body_returns) (simp_all add: state)
  moreover have "put_col c (put_chare (of_nat p)
      (?ch\<lparr>ch_user := run_segs (en_body (e p) K) (ch_user ?ch)\<rparr>) (put_chare (of_nat p) ?ch co)) ?st = st'"
    by (simp add: st'_def state) (simp add: put_col_def)
  ultimately have b: "returns (E p) ?st [JBody c (of_nat p) (en_body (e p) K)] st'" by simp
  show "returns (E p) st' (JFlush c (of_nat p) # js) st2 \<Longrightarrow> returns (E p) st (JCol True c K # js) st2"
    using returns_append [OF b, of "JFlush c (of_nat p) # js"] by (intro returns_step [OF j]) simp
  show "diverges (E p) st' (JFlush c (of_nat p) # js) \<Longrightarrow> diverges (E p) st (JCol True c K # js)"
    using diverges_after [OF b, of "JFlush c (of_nat p) # js"] by (intro diverges_step [OF j]) simp
qed

lemma ctor_col:
  assumes E: "group_env n kids par E" and e: "method_at n E ctor e True" and m: "\<not> m_creates m" and p: "p < n"
    and co: "pe_cols st c = Some (new_coll Group_mapper)"
  shows "returns (E p) st [JCol True c (ctor_for p c ctor m)] (made_state c p (e p) (ctor_for p c ctor m) st)"
proof (rule ctor_runs(1) [OF E e m p co])
  show "co_chares (new_coll Group_mapper :: ('a, 'b) coll) = Map.empty" by (simp add: new_coll_def)
  have "job_step (E p) (JFlush c (of_nat p)) (made_state c p (e p) (ctor_for p c ctor m) st)
      = Inr (made_state c p (e p) (ctor_for p c ctor m) st, [])"
    by (simp add: flush_buffers_def lookup_col_def made_state_def state) (simp add: new_coll_def)
  then show "returns (E p) ((put_col c (put_chare (of_nat p) \<lparr>ch_parent = c, ch_index = of_nat p, ch_last = 0,
      ch_user = run_segs (en_body (e p) (ctor_for p c ctor m)) (en_init (e p) (ctor_for p c ctor m))\<rparr> (new_coll Group_mapper)) st)
      \<lparr>pe_log := pe_log st @ [(c, of_nat p, ctor_for p c ctor m)]\<rparr>) [JFlush c (of_nat p)] (made_state c p (e p) (ctor_for p c ctor m) st)"
    unfolding made_state_def [symmetric] by (rule returns_last)
qed

lemma ctor_deliver:
  assumes "group_env n kids par E" and "method_at n E ctor e True" and "\<not> m_creates m" and "p < n"
  shows "job_step (E p) (JDeliver (ctor_for p c ctor m)) st = Inr (st, [JEndpoint True (ctor_for p c ctor m)])"
    "pe_cols st c = Some co \<Longrightarrow>
      job_step (E p) (JEndpoint True (ctor_for p c ctor m)) st = Inr (st, [JCol True c (ctor_for p c ctor m)])"
    "pe_cols st c = None \<Longrightarrow> job_step (E p) (JEndpoint True (ctor_for p c ctor m)) st
      = Inr (st\<lparr>pe_waiting := (pe_waiting st)(c := pe_waiting st c @ [ctor_for p c ctor m])\<rparr>, [])"
  using ctor_to_chare(2,3) [OF assms, of c]
  by (simp_all add: deliver_msg_def deliver_to_endpoint_def endpoint_of_def)

text \<open>The creation message.\<close>

lemma creation_deliver:
  assumes k: "at (kinds E) (unat (kind - 1)) = Inr Group_mapper" and co: "pe_cols st c = None"
    and r: "returns E (put_col c (new_coll Group_mapper) st) [JDrain True c] st'"
  shows "returns E st [JDeliver (creation_msg sz bytes b c kind)] st'"
proof -
  let ?C = "creation_msg sz bytes b c kind"
  have 1: "job_step E (JDeliver ?C) st = Inr (st, [JEndpoint True ?C])"
    by (simp add: deliver_msg_def creation_msg_def Let_def dest_endpoint_def)
  have 2: "job_step E (JEndpoint True ?C) st = Inr (put_col c (new_coll Group_mapper) st, [JDrain True c])"
    using k co by (simp add: deliver_to_endpoint_def endpoint_of_def creation_msg_def Let_def dest_endpoint_def check_def at_def split: if_splits)
  show ?thesis by (rule returns_step [OF 1], simp, rule returns_step [OF 2], simp add: r)
qed

definition gmsg :: "u64 \<Rightarrow> destination \<Rightarrow> 'b \<Rightarrow> u64 \<Rightarrow> collective_index \<Rightarrow> u64 \<Rightarrow> 'b msg \<Rightarrow> gkind \<Rightarrow> nat \<Rightarrow> 'b msg" where
  "gmsg sz bytes b kind c ctor m k p = (case k of GCreate \<Rightarrow> creation_msg sz bytes b c kind | GMake \<Rightarrow> ctor_for p c ctor m)"

lemma gmsg_delivered:
  assumes E: "group_env n kids par E" and e: "method_at n E ctor e True" and m: "\<not> m_creates m" and p: "p < n"
    and kd: "at (kinds (E p)) (unat (kind - 1)) = Inr Group_mapper" and f: "fresh_pe c st" and k: "k \<notin> S"
  shows "returns (E p) (gstate c p (e p) (ctor_for p c ctor m) S st) [JDeliver (gmsg sz bytes b kind c ctor m k p)]
    (gstate c p (e p) (ctor_for p c ctor m) (insert k S) st)"
proof -
  let ?K = "ctor_for p c ctor m"
  have fr: "pe_cols st c = None" "pe_waiting st c = []" using f by (simp_all add: fresh_pe_def)
  note d = ctor_deliver [OF E e m p, where c = c]
  have nodrain: "returns (E p) s [JDrain True c] s" if "pe_waiting s c = []" for s
    by (rule returns_last) (simp add: drain_def that)
  show ?thesis
  proof (cases k)
    case GCreate
    show ?thesis
    proof (cases "GMake \<in> S")
      case False
      then have "gstate c p (e p) ?K S st = st" using k GCreate by (simp add: gstate_def)
      moreover have "returns (E p) st [JDeliver (creation_msg sz bytes b c kind)] (put_col c (new_coll Group_mapper) st)"
        by (rule creation_deliver [OF kd fr(1) nodrain]) (simp add: state fr)
      ultimately show ?thesis using False GCreate by (simp add: gstate_def gmsg_def)
    next
      case True
      let ?w = "st\<lparr>pe_waiting := (pe_waiting st)(c := [?K])\<rparr>"
      let ?s = "put_col c (new_coll Group_mapper) ?w"
      have 1: "job_step (E p) (JDrain True c) ?s = Inr (put_col c (new_coll Group_mapper) st, [JCol True c ?K, JDrain True c])"
        using fr(2) by (simp add: drain_def put_col_def fun_upd_idem)
      have 2: "returns (E p) (put_col c (new_coll Group_mapper) st) [JCol True c ?K] (made_state c p (e p) ?K st)"
        using ctor_col [OF E e m p, of "put_col c (new_coll Group_mapper) st" c] by (simp add: made_state_def state)
      have 3: "returns (E p) (made_state c p (e p) ?K st) [JDrain True c] (made_state c p (e p) ?K st)"
        by (rule nodrain) (simp add: made_state_def state fr)
      have "returns (E p) ?s [JDrain True c] (made_state c p (e p) ?K st)"
        by (rule returns_step [OF 1]) (use returns_Cons [OF 2 3] in simp)
      then have "returns (E p) ?w [JDeliver (creation_msg sz bytes b c kind)] (made_state c p (e p) ?K st)"
        by (intro creation_deliver [OF kd]) (simp_all add: fr)
      then show ?thesis using True k GCreate by (simp add: gstate_def gmsg_def)
    qed
  next
    case GMake
    show ?thesis
    proof (cases "GCreate \<in> S")
      case False
      have "job_step (E p) (JEndpoint True ?K) st = Inr (st\<lparr>pe_waiting := (pe_waiting st)(c := [?K])\<rparr>, [])"
        using d(3) [OF fr(1)] fr(2) by simp
      from returns_last [OF this]
      have "returns (E p) st [JDeliver ?K] (st\<lparr>pe_waiting := (pe_waiting st)(c := [?K])\<rparr>)"
        by (intro returns_step [OF d(1)]) simp
      then show ?thesis using False k GMake by (simp add: gstate_def gmsg_def)
    next
      case True
      let ?s = "put_col c (new_coll Group_mapper) st"
      have co: "pe_cols ?s c = Some (new_coll Group_mapper)" by (simp add: state)
      have "returns (E p) ?s [JCol True c ?K] (made_state c p (e p) ?K st)"
        using ctor_col [OF E e m p co] by (simp add: made_state_def state)
      then have "returns (E p) ?s [JEndpoint True ?K] (made_state c p (e p) ?K st)"
        by (intro returns_step [OF d(2) [OF co]]) simp
      then have "returns (E p) ?s [JDeliver ?K] (made_state c p (e p) ?K st)"
        by (intro returns_step [OF d(1)]) simp
      then show ?thesis using True k GMake by (simp add: gstate_def gmsg_def)
    qed
  qed
qed


lemma gstate_facts:
  assumes "fresh_pe c st"
  shows "\<not> pe_exit (gstate c p e K S st)" "pe_out (gstate c p e K S st) = []"
    "(gstate c p e K S st)\<lparr>pe_out := []\<rparr> = gstate c p e K S st"
proof -
  have st: "\<not> pe_exit st" "pe_out st = []" using assms by (simp_all add: fresh_pe_def settled_pe_def)
  then show "\<not> pe_exit (gstate c p e K S st)" and o: "pe_out (gstate c p e K S st) = []"
    by (simp_all add: gstate_def made_state_def state) (simp_all add: put_col_def)
  show "(gstate c p e K S st)\<lparr>pe_out := []\<rparr> = gstate c p e K S st" using o by (cases "gstate c p e K S st") simp
qed

lemma made_member: "member c p 0 (run_segs (en_body e K) (en_init e K)) (made_state c p e K st)"
  unfolding member_def
  by (intro exI [of _ "put_chare (of_nat p) \<lparr>ch_parent = c, ch_index = of_nat p, ch_last = 0,
      ch_user = run_segs (en_body e K) (en_init e K)\<rparr> (new_coll Group_mapper)"]
    exI [of _ "\<lparr>ch_parent = c, ch_index = of_nat p, ch_last = 0, ch_user = run_segs (en_body e K) (en_init e K)\<rparr>"])
    (simp add: made_state_def state, simp add: new_coll_def)

lemma made_rest: "same_rest c st (made_state c p e K st)" "pe_log (made_state c p e K st) = pe_log st @ [(c, of_nat p, K)]"
  by (simp_all add: same_rest_def made_state_def put_col_def)

section \<open>The construction of a group\<close>

definition construct_setting ::
  "nat \<Rightarrow> (nat \<Rightarrow> nat list) \<Rightarrow> (nat \<Rightarrow> nat option) \<Rightarrow> (nat \<Rightarrow> ('u, 'b) env) \<Rightarrow> collective_index \<Rightarrow> u64 \<Rightarrow> u64
    \<Rightarrow> (nat \<Rightarrow> ('u, 'b) entry_fn) \<Rightarrow> 'b msg \<Rightarrow> ('u, 'b) cnet \<Rightarrow> bool" where
  "construct_setting n kids par E c kind ctor e m net0 \<longleftrightarrow> group_env n kids par E \<and> method_at n E ctor e True \<and> \<not> m_creates m \<and>
     (\<forall>p<n. at (kinds (E p)) (unat (kind - 1)) = Inr Group_mapper \<and> fresh_pe c (cn_pe net0 p)) \<and> no_reds n net0"

text \<open>\<open>net0\<close> is the network after the call; each PE has got the messages \<open>S p\<close>, the others are on their way.\<close>

definition construct_left ::
  "nat \<Rightarrow> collective_index \<Rightarrow> (nat \<Rightarrow> ('u, 'b) entry_fn) \<Rightarrow> (gkind \<Rightarrow> nat \<Rightarrow> 'b msg) \<Rightarrow> ('u, 'b) cnet
    \<Rightarrow> nat \<Rightarrow> ('u, 'b) cnet \<Rightarrow> bool" where
  "construct_left n c e ms net0 w net \<longleftrightarrow> w = length (cn_flight net) \<and> cn_reds net = cn_reds net0 \<and> cn_done net = cn_done net0 \<and>
     distinct (cn_flight net) \<and> (\<exists>S. set (cn_flight net) = {(p, ms k p) | p k. p < n \<and> k \<notin> S p} \<and>
       (\<forall>p<n. cn_pe net p = gstate c p (e p) (ms GMake p) (S p) (cn_pe net0 p)))"

lemma gmsg_inj:
  assumes "\<not> m_creates m"
  shows "gmsg sz bytes b kind c ctor m k p = gmsg sz bytes b kind c ctor m k' p \<longleftrightarrow> k = k'"
proof -
  have c: "m_creates (gmsg sz bytes b kind c ctor m k p) \<longleftrightarrow> k = GCreate" for k
    using assms by (cases k) (simp_all add: gmsg_def creation_msg_def Let_def set_bcast_def group_bcast_dst)
  show ?thesis
  proof
    assume "gmsg sz bytes b kind c ctor m k p = gmsg sz bytes b kind c ctor m k' p"
    then have "k = GCreate \<longleftrightarrow> k' = GCreate" using c [of k] c [of k'] by simp
    then show "k = k'" by (cases k; cases k') simp_all
  qed simp
qed

lemma construct_handled:
  assumes S: "construct_setting n kids par E c kind ctor e m net0"
    and w: "construct_left n c e (gmsg sz bytes b kind c ctor m) net0 w net" and f: "cn_flight net = as @ (p, x) # bs"
  shows "p < n \<and> \<not> pe_exit (cn_pe net p) \<and> (\<exists>st w'. returns (E p) (cn_pe net p) [JDeliver x] st \<and> w = Suc w' \<and>
    construct_left n c e (gmsg sz bytes b kind c ctor m) net0 w' (put_out n p st (net\<lparr>cn_flight := as @ bs\<rparr>)))"
proof -
  let ?ms = "gmsg sz bytes b kind c ctor m"
  have E: "group_env n kids par E" and e: "method_at n E ctor e True" and m: "\<not> m_creates m"
    and fr: "\<And>p. p < n \<Longrightarrow> at (kinds (E p)) (unat (kind - 1)) = Inr Group_mapper \<and> fresh_pe c (cn_pe net0 p)"
    using S by (auto simp: construct_setting_def)
  obtain S where fl: "set (cn_flight net) = {(p, ?ms k p) | p k. p < n \<and> k \<notin> S p}"
    and pe_all: "\<forall>p<n. cn_pe net p = gstate c p (e p) (?ms GMake p) (S p) (cn_pe net0 p)"
    and rest: "w = length (cn_flight net)" "cn_reds net = cn_reds net0" "cn_done net = cn_done net0" "distinct (cn_flight net)"
    using w unfolding construct_left_def by (elim conjE exE) (rule that)
  have pe: "cn_pe net p = gstate c p (e p) (?ms GMake p) (S p) (cn_pe net0 p)" if "p < n" for p using pe_all that by simp
  have "(p, x) \<in> set (cn_flight net)" by (simp add: f)
  then obtain k where k: "x = ?ms k p" "p < n" "k \<notin> S p" unfolding fl by blast
  note g = gstate_facts [OF conjunct2 [OF fr [OF k(2)]]]
  have K: "?ms GMake p = ctor_for p c ctor m" by (simp add: gmsg_def)
  let ?st = "gstate c p (e p) (?ms GMake p) (insert k (S p)) (cn_pe net0 p)"
  have r: "returns (E p) (cn_pe net p) [JDeliver x] ?st"
    using gmsg_delivered [OF E e m k(2) _ _ k(3), of kind c "cn_pe net0 p" sz bytes b] fr [OF k(2)] pe [OF k(2)] k(1) K by simp
  let ?net = "put_out n p ?st (net\<lparr>cn_flight := as @ bs\<rparr>)"
  have fl': "cn_flight ?net = as @ bs" using g(2) by (simp add: put_out_simps)
  have "set (as @ bs) = set (cn_flight net) - {(p, x)}" using rest(4) unfolding f by auto
  also have "\<dots> = {(q, ?ms j q) | q j. q < n \<and> j \<notin> (S(p := insert k (S p))) q}"
    unfolding fl k(1) using gmsg_inj [OF m] by auto
  finally have "set (cn_flight ?net) = {(q, ?ms j q) | q j. q < n \<and> j \<notin> (S(p := insert k (S p))) q}" unfolding fl' .
  moreover have "\<forall>q<n. cn_pe ?net q = gstate c q (e q) (?ms GMake q) ((S(p := insert k (S p))) q) (cn_pe net0 q)"
    using pe g(3) by (simp add: put_out_simps)
  moreover have "w = Suc (length (as @ bs))" "distinct (as @ bs)" using rest(1,4) by (simp_all add: f)
  moreover have "cn_reds ?net = cn_reds net0" "cn_done ?net = cn_done net0"
    using rest(2,3) g(2) by (simp_all add: put_out_simps put_out_reds)
  ultimately have "construct_left n c e ?ms net0 (length (as @ bs)) ?net" "w = Suc (length (as @ bs))"
    unfolding construct_left_def fl' by blast+
  moreover have "\<not> pe_exit (cn_pe net p)" using pe [OF k(2)] g(1) by simp
  ultimately show ?thesis using r k(2) by blast
qed

interpretation construct_net: deliveries n E red
    "\<lambda>w net. construct_setting n kids par E c kind ctor e m net0 \<and> construct_left n c e (gmsg sz bytes b kind c ctor m) net0 w net"
  for n E red kids par c kind ctor e m net0 sz bytes b
proof
  fix w net as p x bs
  assume "construct_setting n kids par E c kind ctor e m net0 \<and> construct_left n c e (gmsg sz bytes b kind c ctor m) net0 w net"
    and "cn_flight net = as @ (p, x) # bs"
  then show "p < n \<and> \<not> pe_exit (cn_pe net p) \<and> (\<exists>st w'. returns (E p) (cn_pe net p) [JDeliver x] st \<and> w = Suc w' \<and>
      construct_setting n kids par E c kind ctor e m net0 \<and>
      construct_left n c e (gmsg sz bytes b kind c ctor m) net0 w' (put_out n p st (net\<lparr>cn_flight := as @ bs\<rparr>)))"
    using construct_handled [of n kids par E c kind ctor e m net0 sz bytes b w net as p x bs] by blast
next
  fix w net
  assume "construct_setting n kids par E c kind ctor e m net0 \<and> construct_left n c e (gmsg sz bytes b kind c ctor m) net0 w net"
    and "0 < w"
  then show "cn_flight net \<noteq> []" by (auto simp: construct_left_def)
next
  fix w net
  assume "construct_setting n kids par E c kind ctor e m net0 \<and> construct_left n c e (gmsg sz bytes b kind c ctor m) net0 w net"
  then show "\<exists>p<n. length (cn_reds net p) \<le> cn_done net"
    by (simp add: construct_setting_def no_reds_def construct_left_def)
qed


lemma construct_done:
  assumes S: "construct_setting n kids par E c kind ctor e m net0"
    and w: "construct_left n c e (gmsg sz bytes b kind c ctor m) net0 0 net"
  shows "group_ready n c 0 net \<and> (\<forall>p<n. cn_pe net p = made_state c p (e p) (ctor_for p c ctor m) (cn_pe net0 p))"
proof -
  have fl: "cn_flight net = []" and rd: "cn_reds net = cn_reds net0" "cn_done net = cn_done net0"
    using w by (simp_all add: construct_left_def)
  obtain S where S0: "set (cn_flight net) = {(p, gmsg sz bytes b kind c ctor m k p) | p k. p < n \<and> k \<notin> S p}"
    and pe: "\<forall>p<n. cn_pe net p = gstate c p (e p) (gmsg sz bytes b kind c ctor m GMake p) (S p) (cn_pe net0 p)"
    using w unfolding construct_left_def by (elim conjE exE) (rule that)
  have all: "k \<in> S p" if "p < n" for p k using S0 that unfolding fl by fastforce
  have made: "cn_pe net p = made_state c p (e p) (ctor_for p c ctor m) (cn_pe net0 p)" if "p < n" for p
    using pe all [OF that] that by (simp add: gstate_def gmsg_def)
  have "settled_pe (cn_pe net p) \<and> (\<exists>u. member c p 0 u (cn_pe net p))" if p: "p < n" for p
  proof -
    have "fresh_pe c (cn_pe net0 p)" using S p by (simp add: construct_setting_def)
    from gstate_facts(1,2) [OF this, where S = UNIV] have "settled_pe (cn_pe net p)"
      unfolding made [OF p] by (simp add: settled_pe_def gstate_def)
    then show ?thesis using made_member unfolding made [OF p] by blast
  qed
  then show ?thesis using made fl rd S by (simp add: group_ready_def no_reds_def construct_setting_def)
qed

text \<open>What the call puts on its way.\<close>

lemma clone_copy: "d_bc (m_dst m) = 0 \<Longrightarrow> clone_to k m = set_bcast k 0 m"
  by (simp add: clone_to_def set_bcast_def)

definition construct_outs ::
  "nat \<Rightarrow> u64 \<Rightarrow> destination \<Rightarrow> 'b \<Rightarrow> u64 \<Rightarrow> collective_index \<Rightarrow> u64 \<Rightarrow> 'b msg \<Rightarrow> 'b net list" where
  "construct_outs n sz bytes b kind c ctor m = NBcastAll (creation_msg sz bytes b c kind) #
     map (\<lambda>i. NSend i (ctor_for i c ctor m)) ([1..<n] @ [0])"

lemma construct_state:
  assumes "group_construct E kind ctor (creation_msg sz bytes b) m st = (c, st1)"
  shows "c = CIndex (of_nat (my_pe E)) (pe_count st + 1)"
    "st1 = emit (construct_outs (num_pes E) sz bytes b kind c ctor m) (st\<lparr>pe_count := pe_count st + 1\<rparr>)"
proof -
  have c: "c = CIndex (of_nat (my_pe E)) (pe_count st + 1)" using assms by (auto simp: group_construct_def Let_def)
  have "m\<lparr>m_dst := dest_endpoint c chare_bcast_root ctor (m_dst m)\<rparr> = group_bcast c ctor m"
    by (simp add: group_bcast_def to_element_def)
  then show "c = CIndex (of_nat (my_pe E)) (pe_count st + 1)"
    "st1 = emit (construct_outs (num_pes E) sz bytes b kind c ctor m) (st\<lparr>pe_count := pe_count st + 1\<rparr>)"
    using assms c
    by (auto simp: group_construct_def Let_def broadcast_helper_eq construct_outs_def emit_def encode_int_def
        clone_copy group_bcast_dst)
qed

lemma construct_routed:
  fixes n p :: nat and sz kind ctor :: u64 and bytes :: destination and b :: 'b and c :: collective_index and m :: "'b msg"
  assumes n: "0 < n" and m: "\<not> m_creates m"
  defines "fl \<equiv> concat (map (routed n p) (construct_outs n sz bytes b kind c ctor m))"
  shows "distinct fl" "length fl = 2 * n" "set fl = {(q, gmsg sz bytes b kind c ctor m k q) | q k. q < n \<and> k \<notin> ({} :: gkind set)}"
    "concat (map contributed (construct_outs n sz bytes b kind c ctor m)) = []"
proof -
  let ?ms = "gmsg sz bytes b kind c ctor m"
  have fl: "fl = map (\<lambda>q. (q, ?ms GCreate q)) [0..<n] @ map (\<lambda>q. (q, ?ms GMake q)) ([1..<n] @ [0])"
    unfolding fl_def construct_outs_def list.map concat.simps routed_sends by (simp add: gmsg_def)
  have d: "?ms GCreate q \<noteq> ?ms GMake q" for q using gmsg_inj [OF m, of sz bytes b kind c ctor GCreate q GMake] by simp
  then show "distinct fl" unfolding fl by (auto simp: distinct_map inj_on_def d [symmetric])
  show "length fl = 2 * n" using n by (simp add: fl)
  have idx: "set ([1..<n] @ [0]) = {..<n}" using n by auto
  have "set fl = set (map (\<lambda>q. (q, ?ms GCreate q)) [0..<n]) \<union> set (map (\<lambda>q. (q, ?ms GMake q)) ([1..<n] @ [0]))"
    unfolding fl by (rule set_append)
  then have two: "set fl = (\<lambda>q. (q, ?ms GCreate q)) ` {..<n} \<union> (\<lambda>q. (q, ?ms GMake q)) ` {..<n}"
    unfolding set_map idx by (simp add: atLeast0LessThan)
  have "{(q, ?ms k q) | q k. q < n \<and> k \<notin> ({} :: gkind set)} = (\<lambda>q. (q, ?ms GCreate q)) ` {..<n} \<union> (\<lambda>q. (q, ?ms GMake q)) ` {..<n}"
    by (auto simp: gkind_ex)
  then show "set fl = {(q, ?ms k q) | q k. q < n \<and> k \<notin> ({} :: gkind set)}"
    using two by simp
  show "concat (map contributed (construct_outs n sz bytes b kind c ctor m)) = []"
    unfolding construct_outs_def list.map concat.simps routed_sends by simp
qed

text \<open>
  C6. A group is constructed on every PE: after \<open>group_proxy::construct\<close> on any PE, in every order in which the messages arrive,
  no assertion fails, the construction ends after exactly \<open>2n\<close> deliveries, and then each PE has the group with one member, whose constructor
  has run once on its own copy of the message; nothing else on any PE has changed, and the group is ready for its first broadcast.
\<close>

theorem group_created:
  assumes E: "group_env n kids par E" and e: "method_at n E ctor e True" and m: "\<not> m_creates m" and p: "p < n"
    and kd: "\<And>q. q < n \<Longrightarrow> at (kinds (E q)) (unat (kind - 1)) = Inr Group_mapper"
    and call: "group_construct (E p) kind ctor (creation_msg sz bytes b) m (cn_pe net0 p) = (c, st)" and net1: "net1 = put_out n p st net0"
    and fresh: "\<And>q. q < n \<Longrightarrow> fresh_pe c (cn_pe net0 q)" and fl: "cn_flight net0 = []" and rd: "no_reds n net0"
    and run: "(cnet_step n E red ^^ k) net1 net"
  shows "k \<le> 2 * n \<and> (k < 2 * n \<longrightarrow> (\<exists>net'. cnet_step n E red net net')) \<and>
    (\<forall>p m. (p, m) \<in> set (cn_flight net) \<longrightarrow> p < n \<and> (\<exists>st. returns (E p) (cn_pe net p) [JDeliver m] st)) \<and>
    (k = 2 * n \<longrightarrow> group_ready n c 0 net \<and> (\<forall>q<n.
      member c q 0 (run_segs (en_body (e q) (ctor_for q c ctor m)) (en_init (e q) (ctor_for q c ctor m))) (cn_pe net q) \<and>
      pe_log (cn_pe net q) = pe_log (cn_pe net0 q) @ [(c, of_nat q, ctor_for q c ctor m)] \<and>
      same_rest c (cn_pe net1 q) (cn_pe net q)))"
proof -
  let ?ms = "gmsg sz bytes b kind c ctor m"
  have n: "0 < n" "num_pes (E p) = n" using E p by (auto simp: group_env_def)
  have out: "pe_out (cn_pe net0 p) = []" using fresh [OF p] by (simp add: fresh_pe_def settled_pe_def)
  note st = construct_state(2) [OF call, unfolded n(2)]
  note routed = construct_routed [OF n(1) m, where sz = sz and bytes = bytes and b = b and kind = kind and c = c and ctor = ctor]
  have no_outs: "(cn_pe net0 p)\<lparr>pe_count := x, pe_out := []\<rparr> = (cn_pe net0 p)\<lparr>pe_count := x\<rparr>" for x
    using out by (cases "cn_pe net0 p") simp
  have f1: "cn_flight net1 = concat (map (routed n p) (construct_outs n sz bytes b kind c ctor m))"
    and r1: "cn_reds net1 = cn_reds net0" "cn_done net1 = cn_done net0"
    and pe1: "cn_pe net1 = (cn_pe net0)(p := (cn_pe net0 p)\<lparr>pe_count := pe_count (cn_pe net0 p) + 1\<rparr>)"
    using fl routed(4) out unfolding net1 st
    by (simp_all add: put_out_simps put_out_reds emit_def no_outs del: concat_eq_Nil_conv)
  have fresh1: "fresh_pe c (cn_pe net1 q)" if "q < n" for q
    using fresh [OF that] by (auto simp: pe1 fresh_pe_def settled_pe_def)
  have S: "construct_setting n kids par E c kind ctor e m net1"
    using E e m kd fresh1 rd r1 by (simp add: construct_setting_def no_reds_def)
  have "construct_left n c e ?ms net1 (2 * n) net1"
    unfolding construct_left_def f1
    by (intro conjI exI [of _ "\<lambda>_. {}"]) (simp_all only: routed(1,2,3), simp_all add: gstate_def)
  with S have L: "construct_setting n kids par E c kind ctor e m net1 \<and> construct_left n c e ?ms net1 (2 * n) net1" ..
  have log1: "pe_log (cn_pe net1 q) = pe_log (cn_pe net0 q)" for q by (simp add: pe1)
  have fin: "group_ready n c 0 net \<and> (\<forall>q<n.
      member c q 0 (run_segs (en_body (e q) (ctor_for q c ctor m)) (en_init (e q) (ctor_for q c ctor m))) (cn_pe net q) \<and>
      pe_log (cn_pe net q) = pe_log (cn_pe net0 q) @ [(c, of_nat q, ctor_for q c ctor m)] \<and>
      same_rest c (cn_pe net1 q) (cn_pe net q))" if "construct_left n c e ?ms net1 0 net"
    using construct_done [OF S that] by (auto simp: made_member made_rest log1)
  from construct_net.all_runs [OF L run] show ?thesis using fin by auto
qed


text \<open>Two PEs with nothing on them.\<close>

definition empty_net :: "(nat list, nat) cnet" where
  "empty_net = \<lparr>cn_pe = (\<lambda>_. new_pe), cn_flight = [], cn_reds = (\<lambda>_. []), cn_done = 0\<rparr>"

lemma empty_facts: "fresh_pe c (cn_pe empty_net p)" "cn_flight empty_net = []" "no_reds 2 empty_net"
  unfolding no_reds_def by (auto simp: empty_net_def fresh_pe_def settled_pe_def new_pe_def intro!: exI [of _ 0])

definition pair_group_pe :: "(nat list, nat) pe" where
  "pair_group_pe = snd (group_construct (pair_env 0) 1 1 (creation_msg 64 no_bytes 0) (demo_m 0 0 0 5) (cn_pe empty_net 0))"

lemma pair_construct:
  "group_construct (pair_env 0) 1 1 (creation_msg 64 no_bytes 0) (demo_m 0 0 0 5) (cn_pe empty_net 0) = (CIndex 0 1, pair_group_pe)"
  by (simp add: pair_group_pe_def group_construct_def Let_def empty_net_def new_pe_def pair_env_def demo_env_def)

theorem group_created_witness:
  "\<exists>net. (cnet_step 2 pair_env nop_reduce ^^ 4) (put_out 2 0 pair_group_pe empty_net) net \<and> group_ready 2 (CIndex 0 1) 0 net \<and>
     pe_log (cn_pe net 1) = [(CIndex 0 1, 1, ctor_for 1 (CIndex 0 1) 1 (demo_m 0 0 0 5))]"
proof -
  have m: "\<not> m_creates (demo_m 0 0 0 5)" by (simp add: demo_m_def)
  have p: "(0 :: nat) < 2" by simp
  note props = group_created [OF pair_group pair_methods(1) m p pair_methods(3) pair_construct refl empty_facts(1-3), where red = nop_reduce]
  obtain net where run: "(cnet_step 2 pair_env nop_reduce ^^ 4) (put_out 2 0 pair_group_pe empty_net) net"
    using extend_run [of "cnet_step 2 pair_env nop_reduce" "put_out 2 0 pair_group_pe empty_net" 4] props by fastforce
  have fin: "group_ready 2 (CIndex 0 1) 0 net \<and> (\<forall>q<2.
      member (CIndex 0 1) q 0 (run_segs (en_body (pair_ctor q) (ctor_for q (CIndex 0 1) 1 (demo_m 0 0 0 5)))
        (en_init (pair_ctor q) (ctor_for q (CIndex 0 1) 1 (demo_m 0 0 0 5)))) (cn_pe net q) \<and>
      pe_log (cn_pe net q) = pe_log (cn_pe empty_net q) @ [(CIndex 0 1, of_nat q, ctor_for q (CIndex 0 1) 1 (demo_m 0 0 0 5))] \<and>
      same_rest (CIndex 0 1) (cn_pe (put_out 2 0 pair_group_pe empty_net) q) (cn_pe net q))"
    using props [OF run] by simp
  then have "pe_log (cn_pe net 1) = pe_log (cn_pe empty_net 1) @ [(CIndex 0 1, of_nat 1, ctor_for 1 (CIndex 0 1) 1 (demo_m 0 0 0 5))]"
    by simp
  then show ?thesis using run fin by (auto simp: empty_net_def new_pe_def)
qed

section \<open>A broadcast that is too early\<close>

text \<open>A message that is delivered leaves the others on their way.\<close>

lemma deliver_one:
  assumes "(p, x) \<in> set (cn_flight net)" and "p < n" and "\<not> pe_exit (cn_pe net p)"
    and "returns (E p) (cn_pe net p) [JDeliver x] st"
  shows "\<exists>net'. cnet_step n E red net net' \<and> cn_pe net' = (cn_pe net)(p := st\<lparr>pe_out := []\<rparr>) \<and>
    set (cn_flight net) - {(p, x)} \<subseteq> set (cn_flight net') \<and> set (concat (map (routed n p) (pe_out st))) \<subseteq> set (cn_flight net')"
proof -
  obtain as bs where f: "cn_flight net = as @ (p, x) # bs" using assms(1) by (meson split_list)
  have "cnet_step n E red net (put_out n p st (net\<lparr>cn_flight := as @ bs\<rparr>))"
    by (rule arrive) (fact f, fact assms(2), fact assms(3), fact assms(4))
  then show ?thesis
    by (intro exI [of _ "put_out n p st (net\<lparr>cn_flight := as @ bs\<rparr>)"]) (auto simp: put_out_simps f)
qed

text \<open>The root's PE: creation with a broadcast that waits, which is sent round again as the chare is not there.\<close>

lemma root_creation:
  assumes E: "group_env n kids par E" and m: "\<not> m_creates m" and kd: "at (kinds (E 0)) (unat (kind - 1)) = Inr Group_mapper"
    and f: "pe_cols st c = None" "pe_waiting st c = []"
  shows "returns (E 0) (st\<lparr>pe_waiting := (pe_waiting st)(c := [group_bcast c ent m])\<rparr>) [JDeliver (creation_msg sz bytes b c kind)]
    (emit [NPush (group_bcast c ent m)] (put_col c (new_coll Group_mapper) st))"
proof (rule creation_deliver [OF kd])
  let ?B = "group_bcast c ent m" and ?st = "st\<lparr>pe_waiting := (pe_waiting st)(c := [group_bcast c ent m])\<rparr>"
  let ?s = "put_col c (new_coll Group_mapper) st"
  have n: "0 < n" "my_pe (E 0) = 0" "span_parent (E 0) 0 = None" using E by (auto simp: group_env_def spanning_def)
  have 1: "job_step (E 0) (JDrain True c) (put_col c (new_coll Group_mapper) ?st) = Inr (?s, [JCol True c ?B, JDrain True c])"
    using f(2) by (simp add: drain_def put_col_def fun_upd_idem)
  have 2: "job_step (E 0) (JCol True c ?B) ?s = Inr (emit [NPush ?B] ?s, [])"
    using n pe_for_of_nat(1) [OF E n(1) n(1)]
    by (simp add: deliver_now_def lookup_col_def endpoint_of_def group_bcast_dst loc_root_def state)
      (simp add: new_coll_def send_helper_def)
  have 3: "job_step (E 0) (JDrain True c) (emit [NPush ?B] ?s) = Inr (emit [NPush ?B] ?s, [])"
    using f(2) by (simp add: drain_def state)
  show "returns (E 0) (put_col c (new_coll Group_mapper) ?st) [JDrain True c] (emit [NPush ?B] ?s)"
    by (rule returns_step [OF 1]) (use returns_Cons [OF returns_last [OF 2] returns_last [OF 3]] in simp)
qed (use f in simp)

text \<open>The PE that the copy overtakes the constructor on.\<close>

definition overtaken :: "collective_index \<Rightarrow> nat \<Rightarrow> 'b msg \<Rightarrow> ('u, 'b) pe \<Rightarrow> ('u, 'b) pe" where
  "overtaken c q x st = put_col c (put_buffer (of_nat q) [x] (new_coll Group_mapper)) st"

lemma copy_overtakes:
  assumes E: "group_env n kids par E" and e: "method_at n E ent e False" and m: "\<not> m_creates m" and q: "q < n"
  shows "returns (E q) (put_col c (new_coll Group_mapper) st) [JDeliver (copy_for q bc (group_bcast c ent m))]
    (overtaken c q (copy_for q bc (group_bcast c ent m)) st)"
proof -
  let ?x = "copy_for q bc (group_bcast c ent m)" and ?s = "put_col c (new_coll Group_mapper) st"
  note t = copy_to_chare [OF E e m q, where c = c and b = bc]
  have home: "pe_for (E q) (of_nat q) = my_pe (E q)" using pe_for_of_nat(1) [OF E q q] E q by (simp add: group_env_def)
  have 1: "job_step (E q) (JDeliver ?x) ?s = Inr (?s, [JEndpoint True ?x])" by (simp add: deliver_msg_def t(2))
  have 2: "job_step (E q) (JEndpoint True ?x) ?s = Inr (?s, [JCol True c ?x])"
    using t(1) by (simp add: deliver_to_endpoint_def endpoint_of_def t(2) to_chare_def state)
  have 3: "job_step (E q) (JCol True c ?x) ?s = Inr (overtaken c q ?x st, [])"
    using col_deliver_early [OF t(1) _ _ home, of ?s "new_coll Group_mapper"]
    by (simp add: overtaken_def state) (simp add: new_coll_def put_col_def)
  have "returns (E q) ?s [JEndpoint True ?x] (overtaken c q ?x st)"
    by (rule returns_step [OF 2]) (use returns_last [OF 3] in simp)
  then show ?thesis by (intro returns_step [OF 1]) simp
qed

lemma overtaken_hangs:
  assumes E: "group_env n kids par E" and e: "method_at n E ctor e True" and e2: "method_at n E ent e' False"
    and m: "\<not> m_creates m" "\<not> m_creates m2" and q: "q < n" and bc: "bc \<noteq> 0"
  shows "diverges (E q) (overtaken c q (copy_for q bc (group_bcast c ent m2)) st) [JDeliver (ctor_for q c ctor m)]"
proof -
  let ?K = "ctor_for q c ctor m" and ?x = "copy_for q bc (group_bcast c ent m2)"
  let ?co = "put_buffer (of_nat q) [?x] (new_coll Group_mapper)" and ?s = "overtaken c q ?x st"
  let ?ch = "\<lparr>ch_parent = c, ch_index = of_nat q, ch_last = 0, ch_user = run_segs (en_body (e q) ?K) (en_init (e q) ?K)\<rparr>"
  let ?st' = "(put_col c (put_chare (of_nat q) ?ch ?co) ?s)\<lparr>pe_log := pe_log ?s @ [(c, of_nat q, ?K)]\<rparr>"
  have co: "pe_cols ?s c = Some ?co" "co_chares ?co = Map.empty"
    by (simp_all add: overtaken_def state) (simp add: new_coll_def)
  note t = copy_to_chare [OF E e2 m(2) q, where c = c and b = bc]
  note d = ctor_deliver [OF E e m(1) q, where c = c]
  have up: "upstream (E q) (co_mapper (put_chare (of_nat q) ?ch ?co)) (of_nat q) = Inr (map of_nat (kids q))"
    using upstream_kids [OF E q] by (simp add: state) (simp add: new_coll_def)
  have "diverges (E q) ?st' [JFlush c (of_nat q)]"
    by (rule buffered_broadcast_hangs [where ch = ?ch, OF t(1) _ _ _ _ _ up]) (use bc t(2) in \<open>simp_all add: state\<close>)
  then have "diverges (E q) ?s [JCol True c ?K]" by (rule ctor_runs(2) [OF E e m(1) q co])
  then have "diverges (E q) ?s [JEndpoint True ?K]" by (intro diverges_step [OF d(2) [OF co(1)]]) simp
  then show ?thesis by (intro diverges_step [OF d(1)]) simp
qed


lemma out_id: "pe_out st = [] \<Longrightarrow> st\<lparr>pe_out := []\<rparr> = st"
  by (cases st) simp

lemma early_broadcast:
  assumes m: "\<not> m_creates m" and st: "pe_cols st c = None" "pe_waiting st c = []"
  shows "returns E st [JAct (proxy_broadcast c ent m)] (st\<lparr>pe_waiting := (pe_waiting st)(c := [group_bcast c ent m])\<rparr>)"
proof -
  let ?B = "group_bcast c ent m"
  have 1: "job_step E (JAct (proxy_broadcast c ent m)) st = Inr (st, [JSend ?B])"
    by (simp add: proxy_broadcast_def group_bcast_def)
  have 2: "job_step E (JSend ?B) st = Inr (st, [JEndpoint False ?B])"
    using m by (simp add: send_msg_def group_bcast_dst)
  have 3: "job_step E (JEndpoint False ?B) st = Inr (st\<lparr>pe_waiting := (pe_waiting st)(c := [?B])\<rparr>, [])"
    using m st by (simp add: deliver_to_endpoint_def endpoint_of_def group_bcast_dst)
  have "returns E st [JSend ?B] (st\<lparr>pe_waiting := (pe_waiting st)(c := [?B])\<rparr>)"
    by (rule returns_step [OF 2]) (use returns_last [OF 3] in simp)
  then show ?thesis by (intro returns_step [OF 1]) simp
qed

lemma early_messages_differ:
  assumes "\<not> m_creates m" and "\<not> m_creates m2"
  shows "ctor_for p c ctor m \<noteq> creation_msg sz bytes b c kind"
    "group_bcast c ent m2 \<noteq> ctor_for 0 c ctor m"
    "copy_for p 1 (group_bcast c ent m2) \<noteq> creation_msg sz bytes b c kind"
    "ctor_for p c ctor m \<noteq> copy_for p 1 (group_bcast c ent m2)"
proof -
  have c: "m_creates (creation_msg sz bytes b c kind)" "\<not> m_creates (copy_for p bc (group_bcast c ent m2))"
    "\<not> m_creates (ctor_for p c ctor m)" for bc
    using assms by (simp_all add: creation_msg_def Let_def set_bcast_def group_bcast_dst)
  show "ctor_for p c ctor m \<noteq> creation_msg sz bytes b c kind" "copy_for p 1 (group_bcast c ent m2) \<noteq> creation_msg sz bytes b c kind"
    using c by metis+
  have "d_w1 (m_dst (group_bcast c ent m2)) \<noteq> d_w1 (m_dst (ctor_for 0 c ctor m))"
    by (simp add: set_bcast_def group_bcast_dst chare_bcast_root_def)
  then show "group_bcast c ent m2 \<noteq> ctor_for 0 c ctor m" by metis
  have "d_bc (m_dst (ctor_for p c ctor m)) \<noteq> d_bc (m_dst (copy_for p 1 (group_bcast c ent m2)))"
    by (simp add: set_bcast_def)
  then show "ctor_for p c ctor m \<noteq> copy_for p 1 (group_bcast c ent m2)" by metis
qed

text \<open>The state after the two calls, and the three messages at PE 0: creation, constructor, and the broadcast sent round.\<close>

lemma overtake_start:
  assumes E: "group_env n kids par E" and m: "\<not> m_creates m" "\<not> m_creates m2" and fresh: "fresh_pe c (cn_pe net0 0)"
    and call: "group_construct (E 0) kind ctor (creation_msg sz bytes b) m (cn_pe net0 0) = (c, st)"
    and bcast: "returns (E 0) st [JAct (proxy_broadcast c ent m2)] st'" and net1: "net1 = put_out n 0 st' net0"
  defines "s0 \<equiv> (cn_pe net0 0)\<lparr>pe_count := pe_count (cn_pe net0 0) + 1\<rparr>"
  shows "cn_pe net1 = (cn_pe net0)(0 := s0\<lparr>pe_waiting := (pe_waiting s0)(c := [group_bcast c ent m2])\<rparr>)" and "fresh_pe c s0"
    and "p < n \<Longrightarrow> (p, gmsg sz bytes b kind c ctor m k p) \<in> set (cn_flight net1)"
proof -
  let ?B = "group_bcast c ent m2" and ?outs = "construct_outs n sz bytes b kind c ctor m"
  have n: "0 < n" "num_pes (E 0) = n" using E by (auto simp: group_env_def)
  have f0: "pe_cols s0 c = None" "pe_waiting s0 c = []" "pe_out s0 = []" and out: "pe_out (cn_pe net0 0) = []"
    using fresh by (simp_all add: fresh_pe_def settled_pe_def s0_def)
  show "fresh_pe c s0" using fresh by (simp add: fresh_pe_def settled_pe_def s0_def)
  note st = construct_state(2) [OF call, unfolded n(2), folded s0_def]
  have "pe_cols st c = None" "pe_waiting st c = []" using f0 by (simp_all add: st state)
  from early_broadcast [OF m(2) this]
  have b1: "returns (E 0) st [JAct (proxy_broadcast c ent m2)] (st\<lparr>pe_waiting := (pe_waiting st)(c := [?B])\<rparr>)" .
  have st': "st' = emit ?outs (s0\<lparr>pe_waiting := (pe_waiting s0)(c := [?B])\<rparr>)"
    using returns_unique [OF bcast b1] by (simp add: st emit_def)
  have no_outs: "(cn_pe net0 0)\<lparr>pe_count := x, pe_waiting := w, pe_out := []\<rparr> = (cn_pe net0 0)\<lparr>pe_count := x, pe_waiting := w\<rparr>" for x w
    using out by (cases "cn_pe net0 0") simp
  then show "cn_pe net1 = (cn_pe net0)(0 := s0\<lparr>pe_waiting := (pe_waiting s0)(c := [?B])\<rparr>)"
    by (simp add: net1 st' put_out_simps emit_def s0_def)
  have "set (concat (map (routed n 0) (pe_out st'))) \<subseteq> set (cn_flight net1)" by (simp add: net1 put_out_simps)
  moreover have "pe_out st' = ?outs" using f0(3) by (simp add: st' emit_def)
  ultimately have sub: "set (concat (map (routed n 0) ?outs)) \<subseteq> set (cn_flight net1)" by simp
  note routed = construct_routed(3) [OF n(1) m(1), where p = 0 and sz = sz and bytes = bytes and b = b and kind = kind and c = c and ctor = ctor]
  show "p < n \<Longrightarrow> (p, gmsg sz bytes b kind c ctor m k p) \<in> set (cn_flight net1)"
    by (rule subsetD [OF sub]) (unfold routed, blast)
qed

lemma overtake_root:
  assumes E: "group_env n kids par E" and q: "q \<in> set (kids 0)" and e: "method_at n E ctor e True" "\<not> m_creates m"
    and e2: "method_at n E ent e' False" "\<not> m_creates m2" and kd: "at (kinds (E 0)) (unat (kind - 1)) = Inr Group_mapper"
    and fresh: "fresh_pe c s0" and pe1: "cn_pe net1 0 = s0\<lparr>pe_waiting := (pe_waiting s0)(c := [group_bcast c ent m2])\<rparr>"
    and fl1: "\<And>p k. p < n \<Longrightarrow> (p, gmsg sz bytes b kind c ctor m k p) \<in> set (cn_flight net1)"
  shows "\<exists>net4. (cnet_step n E red ^^ 3) net1 net4 \<and> cn_pe net4 q = cn_pe net1 q \<and>
    (q, copy_for q 1 (group_bcast c ent m2)) \<in> set (cn_flight net4) \<and>
    (\<forall>k. (q, gmsg sz bytes b kind c ctor m k q) \<in> set (cn_flight net4))"
proof -
  have n: "0 < n" and t: "spanning n kids par" using E by (auto simp: group_env_def)
  have qn: "q < n" "q \<noteq> 0" using spanning_kids [OF t n q] by simp_all
  let ?C = "creation_msg sz bytes b c kind" and ?B = "group_bcast c ent m2" and ?K = "ctor_for 0 c ctor m"
  let ?s1 = "put_col c (new_coll Group_mapper) s0" and ?s2 = "made_state c 0 (e 0) ?K s0"
  have f0: "pe_cols s0 c = None" "pe_waiting s0 c = []" "pe_out s0 = []" "\<not> pe_exit s0"
    using fresh by (simp_all add: fresh_pe_def settled_pe_def)
  have ne: "?K \<noteq> ?C" "?B \<noteq> ?K" by (rule early_messages_differ [OF e(2) e2(2)])+
  have "returns (E 0) (cn_pe net1 0) [JDeliver ?C] (emit [NPush ?B] ?s1)"
    unfolding pe1 by (rule root_creation [OF E e2(2) kd f0(1,2)])
  moreover have "\<not> pe_exit (cn_pe net1 0)" using f0(4) by (simp add: pe1)
  moreover have "(0, ?C) \<in> set (cn_flight net1)" "(0, ?K) \<in> set (cn_flight net1)"
    using fl1 [OF n, of GCreate] fl1 [OF n, of GMake] by (simp_all add: gmsg_def)
  ultimately obtain net2 where 2: "cnet_step n E red net1 net2" "cn_pe net2 = (cn_pe net1)(0 := (emit [NPush ?B] ?s1)\<lparr>pe_out := []\<rparr>)"
    "set (cn_flight net1) - {(0, ?C)} \<subseteq> set (cn_flight net2)" "(0, ?K) \<in> set (cn_flight net2)"
    "set (concat (map (routed n 0) (pe_out (emit [NPush ?B] ?s1)))) \<subseteq> set (cn_flight net2)"
    using deliver_one [where red = red, of 0 ?C net1 n E] n ne(1) by blast
  have pe2: "cn_pe net2 0 = ?s1" using f0(3) by (simp add: 2(2) emit_def out_id) (simp add: put_col_def out_id)
  have B2: "(0, ?B) \<in> set (cn_flight net2)" using 2(5) f0(3) by (simp add: state)
  note o2 = gstate_facts [OF fresh, where S = "{GMake, GCreate}" and p = 0 and e = "e 0" and K = ?K]
  have "returns (E 0) (cn_pe net2 0) [JDeliver ?K] ?s2"
    using gmsg_delivered [OF E e n kd fresh, of GMake "{GCreate}" sz bytes b] by (simp add: pe2 gstate_def gmsg_def)
  moreover have "\<not> pe_exit (cn_pe net2 0)" using f0(4) by (simp add: pe2 put_col_def)
  ultimately obtain net3 where 3: "cnet_step n E red net2 net3" "cn_pe net3 = (cn_pe net2)(0 := ?s2\<lparr>pe_out := []\<rparr>)"
    "set (cn_flight net2) - {(0, ?K)} \<subseteq> set (cn_flight net3)"
    using deliver_one [where red = red, OF 2(4) n] by blast
  have pe3: "cn_pe net3 0 = ?s2" using o2(3) by (simp add: 3(2) gstate_def)
  have l0: "unat (0 :: u16) < 65535" by simp
  obtain s3 where s3: "returns (E 0) ?s2 [JDeliver ?B] s3"
    "pe_out s3 = pe_out ?s2 @ map (\<lambda>q. NSend q (copy_for q (0 + 1) ?B)) (kids 0)"
    using root_delivered [OF E e2 made_member l0] by blast
  have "(0, ?B) \<in> set (cn_flight net3)" using 3(3) B2 ne(2) by blast
  moreover have "\<not> pe_exit (cn_pe net3 0)" using o2(1) by (simp add: pe3 gstate_def)
  ultimately obtain net4 where 4: "cnet_step n E red net3 net4" "cn_pe net4 = (cn_pe net3)(0 := s3\<lparr>pe_out := []\<rparr>)"
    "set (cn_flight net3) - {(0, ?B)} \<subseteq> set (cn_flight net4)" "set (concat (map (routed n 0) (pe_out s3))) \<subseteq> set (cn_flight net4)"
    using deliver_one [where red = red, of 0 ?B net3 n E s3] n s3(1) by (auto simp: pe3)
  have "(q, copy_for q 1 ?B) \<in> set (cn_flight net4)" using 4(4) q by (auto simp: s3(2))
  moreover have "(q, gmsg sz bytes b kind c ctor m k q) \<in> set (cn_flight net4)" for k
    using 4(3) 3(3) 2(3) fl1 [OF qn(1), of k] qn(2) by blast
  moreover have "(cnet_step n E red ^^ Suc (Suc (Suc 0))) net1 net4" using 2(1) 3(1) 4(1) by (meson relpowp_0_I relpowp_Suc_I)
  then have "(cnet_step n E red ^^ 3) net1 net4" by (simp add: eval_nat_numeral)
  moreover have "cn_pe net4 q = cn_pe net1 q" using qn(2) by (simp add: 4(2) 3(2) 2(2))
  ultimately show ?thesis by blast
qed

text \<open>And the two messages at the child.\<close>

lemma overtake_child:
  assumes E: "group_env n kids par E" and q: "q < n" and e: "method_at n E ctor e True" "\<not> m_creates m"
    and e2: "method_at n E ent e' False" "\<not> m_creates m2" and kd: "at (kinds (E q)) (unat (kind - 1)) = Inr Group_mapper"
    and fresh: "fresh_pe c (cn_pe net4 q)" and fl: "\<And>k. (q, gmsg sz bytes b kind c ctor m k q) \<in> set (cn_flight net4)"
    and x4: "(q, copy_for q 1 (group_bcast c ent m2)) \<in> set (cn_flight net4)"
  shows "\<exists>net. (cnet_step n E red ^^ 2) net4 net \<and> (q, ctor_for q c ctor m) \<in> set (cn_flight net) \<and>
    diverges (E q) (cn_pe net q) [JDeliver (ctor_for q c ctor m)]"
proof -
  let ?C = "creation_msg sz bytes b c kind" and ?x = "copy_for q 1 (group_bcast c ent m2)" and ?K = "ctor_for q c ctor m"
  let ?t1 = "put_col c (new_coll Group_mapper) (cn_pe net4 q)"
  have ne: "?K \<noteq> ?C" "?x \<noteq> ?C" "?K \<noteq> ?x" by (rule early_messages_differ [OF e(2) e2(2)])+
  have fq: "pe_out (cn_pe net4 q) = []" "\<not> pe_exit (cn_pe net4 q)" using fresh by (simp_all add: fresh_pe_def settled_pe_def)
  have "returns (E q) (cn_pe net4 q) [JDeliver ?C] ?t1"
    using gmsg_delivered [OF E e q kd fresh, of GCreate "{}" sz bytes b] by (simp add: gstate_def gmsg_def)
  moreover have C: "(q, ?C) \<in> set (cn_flight net4)" and K: "(q, ?K) \<in> set (cn_flight net4)"
    using fl [of GCreate] fl [of GMake] by (simp_all add: gmsg_def)
  ultimately obtain net5 where 5: "cnet_step n E red net4 net5" "cn_pe net5 = (cn_pe net4)(q := ?t1\<lparr>pe_out := []\<rparr>)"
    "set (cn_flight net4) - {(q, ?C)} \<subseteq> set (cn_flight net5)"
    using deliver_one [where red = red, OF C q fq(2)] by blast
  have pe5: "cn_pe net5 q = ?t1" using fq(1) out_id [of ?t1] by (simp add: 5(2) state)
  have "returns (E q) (cn_pe net5 q) [JDeliver ?x] (overtaken c q ?x (cn_pe net4 q))"
    unfolding pe5 by (rule copy_overtakes [OF E e2 q])
  moreover have x5: "(q, ?x) \<in> set (cn_flight net5)" using 5(3) x4 ne(2) by blast
  moreover have ex5: "\<not> pe_exit (cn_pe net5 q)" using fq(2) by (simp add: pe5 put_col_def)
  ultimately obtain net6 where 6: "cnet_step n E red net5 net6"
    "cn_pe net6 = (cn_pe net5)(q := (overtaken c q ?x (cn_pe net4 q))\<lparr>pe_out := []\<rparr>)"
    "set (cn_flight net5) - {(q, ?x)} \<subseteq> set (cn_flight net6)"
    using deliver_one [where red = red, OF x5 q ex5] by blast
  have "cn_pe net6 q = overtaken c q ?x (cn_pe net4 q)"
    using fq(1) out_id [of "overtaken c q ?x (cn_pe net4 q)"] by (simp add: 6(2) overtaken_def state)
  then have "diverges (E q) (cn_pe net6 q) [JDeliver ?K]"
    using overtaken_hangs [OF E e(1) e2(1) e(2) e2(2) q, of 1 c "cn_pe net4 q"] by simp
  moreover have "(q, ?K) \<in> set (cn_flight net6)" using 6(3) 5(3) K ne(1,3) by blast
  moreover have "(cnet_step n E red ^^ Suc (Suc 0)) net4 net6" using 5(1) 6(1) by (meson relpowp_0_I relpowp_Suc_I)
  then have "(cnet_step n E red ^^ 2) net4 net6" by (simp add: eval_nat_numeral)
  ultimately show ?thesis by blast
qed

text \<open>
  C7. A broadcast can overtake a constructor, and then hangs its PE for ever: when a program constructs a group on PE 0 and at once broadcasts to
  it, as the \<open>main\<close> of the completion detection example does, there is for every child \<open>q\<close> of PE 0 in the spanning tree an order of
  delivery in which, after five messages, the constructor's message for \<open>q\<close> is still on its way, and handling it never returns.
\<close>

theorem broadcast_overtakes_constructor:
  assumes E: "group_env n kids par E" and q: "q \<in> set (kids 0)"
    and e: "method_at n E ctor e True" "\<not> m_creates m" and e2: "method_at n E ent e' False" "\<not> m_creates m2"
    and kd: "\<And>p. p < n \<Longrightarrow> at (kinds (E p)) (unat (kind - 1)) = Inr Group_mapper"
    and fresh: "\<And>p. p < n \<Longrightarrow> fresh_pe c (cn_pe net0 p)"
    and call: "group_construct (E 0) kind ctor (creation_msg sz bytes b) m (cn_pe net0 0) = (c, st)"
    and bcast: "returns (E 0) st [JAct (proxy_broadcast c ent m2)] st'" and net1: "net1 = put_out n 0 st' net0"
  shows "\<exists>net. (cnet_step n E red ^^ 5) net1 net \<and> (q, ctor_for q c ctor m) \<in> set (cn_flight net) \<and>
    diverges (E q) (cn_pe net q) [JDeliver (ctor_for q c ctor m)]"
proof -
  have n: "0 < n" and t: "spanning n kids par" using E by (auto simp: group_env_def)
  have qn: "q < n" "q \<noteq> 0" using spanning_kids [OF t n q] by simp_all
  note start = overtake_start [OF E e(2) e2(2) fresh [OF n] call bcast net1]
  obtain net4 where 4: "(cnet_step n E red ^^ 3) net1 net4" "cn_pe net4 q = cn_pe net1 q"
    "(q, copy_for q 1 (group_bcast c ent m2)) \<in> set (cn_flight net4)"
    "\<And>k. (q, gmsg sz bytes b kind c ctor m k q) \<in> set (cn_flight net4)"
    using overtake_root [OF E q e e2 kd [OF n] start(2) _ start(3), of red] start(1) by auto
  have "fresh_pe c (cn_pe net4 q)" using fresh [OF qn(1)] qn(2) by (simp add: 4(2) start(1))
  from overtake_child [OF E qn(1) e e2 kd [OF qn(1)] this 4(4,3), of red] obtain net where
    net: "(cnet_step n E red ^^ 2) net4 net" "(q, ctor_for q c ctor m) \<in> set (cn_flight net)"
    "diverges (E q) (cn_pe net q) [JDeliver (ctor_for q c ctor m)]" by blast
  have "(cnet_step n E red ^^ (3 + 2)) net1 net" unfolding relpowp_add using 4(1) net(1) by blast
  then show ?thesis using net(2,3) by auto
qed

theorem broadcast_overtakes_constructor_witness:
  "\<exists>net1 net. (cnet_step 2 pair_env nop_reduce ^^ 5) net1 net \<and>
     diverges (pair_env 1) (cn_pe net 1) [JDeliver (ctor_for 1 (CIndex 0 1) 1 (demo_m 0 0 0 5))]"
proof -
  have m: "\<not> m_creates (demo_m 0 0 0 5)" "\<not> m_creates (demo_m 0 0 0 7)" by (simp_all add: demo_m_def)
  have q: "1 \<in> set (pair_kids 0)" by (simp add: pair_kids_def)
  have "pe_cols pair_group_pe (CIndex 0 1) = None" "pe_waiting pair_group_pe (CIndex 0 1) = []"
    unfolding construct_state(2) [OF pair_construct] by (simp_all add: state empty_net_def new_pe_def)
  from broadcast_overtakes_constructor [OF pair_group q pair_methods(1) m(1) pair_methods(2) m(2) pair_methods(3) empty_facts(1)
      pair_construct early_broadcast [OF m(2) this] refl]
  show ?thesis by blast
qed

end
