(* ===== verification/Charm_Basic_Props.thy ===== *)
theory Charm_Basic_Props
  imports Charm_Basic
begin

text \<open>
  \<open>examples/basic\<close> on all PEs: what is on its way as a function of the phases of the PEs, and that every
  run of the program ends as it should.
\<close>

section \<open>Start and exit\<close>

lemma main_waits:
  "returns E (bpe p ws None out log) (map (\<lambda>(q, k). JAct (ADeliver (bmsg B q k))) qs)
    (bpe p (ws @ map (\<lambda>(q, k). bmsg B q k) qs) None out log)"
proof (induction qs arbitrary: ws)
  case (Cons e qs)
  obtain q k where e: "e = (q, k)" by fastforce
  have "returns E (bpe p ws None out log) [JAct (ADeliver (bmsg B q k))] (bpe p (ws @ [bmsg B q k]) None out log)"
    by (rule returns_step [of _ _ _ _ "[JDeliver (bmsg B q k)]"], simp, simp, rule returns_step [OF bdeliver], simp,
        rule returns_last, rule bwait)
  from returns_Cons [OF this Cons.IH] show ?case by (simp add: e)
qed (simp add: returns_Nil)

lemma basic_main_state:
  assumes "basic_main B n st"
  shows "st = bstate B n 0 (Pre []) [NBcastAll (bnew B)]"
proof -
  have c: "collective_construct (basic_env n 0) 1 (creation_msg (fst B) (snd B) 0) new_pe
      = (barr, bpe 0 [] None [NBcastAll (bnew B)] [])"
    by (auto simp: collective_construct_def Let_def new_pe_def emit_def bpe_def barr_def bnew_def)
  have "basic_body B n barr = map (\<lambda>(q, k). JAct (ADeliver (bmsg B q k))) (ball n)"
    by (simp add: basic_body_def ball_def proxy_at_def map_concat proxy_insert_def proxy_send_def bmsg_def comp_def)
  then have "returns (basic_env n 0) (bpe 0 [] None [NBcastAll (bnew B)] [])
      (map (\<lambda>(q, k). JAct (ADeliver (bmsg B q k))) (ball n)) st"
    using assms c by (simp add: basic_main_def)
  from returns_unique [OF this main_waits] show ?thesis by simp
qed

lemma basic_main_exists: "\<exists>st. basic_main B n st"
proof -
  have c: "collective_construct (basic_env n 0) 1 (creation_msg (fst B) (snd B) 0) new_pe
      = (barr, bpe 0 [] None [NBcastAll (bnew B)] [])"
    by (auto simp: collective_construct_def Let_def new_pe_def emit_def bpe_def barr_def bnew_def)
  have b: "basic_body B n barr = map (\<lambda>(q, k). JAct (ADeliver (bmsg B q k))) (ball n)"
    by (simp add: basic_body_def ball_def proxy_at_def map_concat proxy_insert_def proxy_send_def bmsg_def comp_def)
  show ?thesis unfolding basic_main_def c prod.case b by (rule exI, rule main_waits)
qed

lemma bred_dst: "m_dst (bred B p) = \<lparr>d_kind = KCallback, d_w0 = 1, d_w1 = bidx p AND NOT (mask 32), d_w2 = 1, d_bc = 0\<rparr>"
  by (simp add: bred_def reduce_dst_def set_combiner_def dest_callback_def bmsg_dst)

lemma bexit_dst: "d_kind (m_dst (bexit B)) = KCallback" "d_w0 (m_dst (bexit B)) = 1"
  "ucast (d_w1 (m_dst (bexit B))) = all_pes"
  by (simp_all add: bexit_def dest_callback_def bred_dst low_half)

lemma low_clear: "ucast (w AND NOT (mask 32) :: u64) = (0 :: u32)"
  by (rule bit_word_eqI) (simp add: bit_simps)

lemma exit_callback:
  assumes "d_kind (m_dst m) = KCallback" and "d_w0 (m_dst m) = 1"
    and "ucast (d_w1 (m_dst m)) = all_pes \<or> ucast (d_w1 (m_dst m)) = (of_nat p :: u32)"
  shows "job_step (basic_env n p) (JDeliver m) st = Inr (st, [JAct (AExit m)])"
  using assms by (simp add: deliver_msg_def deliver_to_callback_def callback_for_def callback_fn_def check_def called_def entry_at_def at_def basic_env_def)

lemma exit_root:
  "returns (basic_env n 0) (bstate B n 0 ph []) [JDeliver (bred B 0)] ((bstate B n 0 ph [NBcast (bexit B)])\<lparr>pe_exit := True\<rparr>)"
proof -
  have 1: "job_step (basic_env n 0) (JDeliver (bred B 0)) (bstate B n 0 ph []) = Inr (bstate B n 0 ph [], [JAct (AExit (bred B 0))])"
    by (rule exit_callback) (simp_all add: bred_dst low_clear)
  have nb: "\<not> is_broadcast (m_dst (bred B 0))" by (simp add: is_broadcast_def bred_dst low_clear all_pes_def)
  have 2: "job_step (basic_env n 0) (JAct (AExit (bred B 0))) (bstate B n 0 ph [])
      = Inr ((bstate B n 0 ph [NBcast (bexit B)])\<lparr>pe_exit := True\<rparr>, [])"
    using nb by (cases ph) (simp_all add: exit_msg_def callback_fn_def check_def bred_dst bexit_def)
  show ?thesis by (rule returns_step [OF 1]) (simp add: returns_last [OF 2])
qed

lemma exit_elem: "returns (basic_env n p) st [JDeliver (bexit B)] (st\<lparr>pe_exit := True\<rparr>)"
proof -
  have 1: "job_step (basic_env n p) (JDeliver (bexit B)) st = Inr (st, [JAct (AExit (bexit B))])"
    by (rule exit_callback) (simp_all add: bexit_dst)
  have 2: "job_step (basic_env n p) (JAct (AExit (bexit B))) st = Inr (st\<lparr>pe_exit := True\<rparr>, [])"
    by (simp add: exit_msg_def is_broadcast_def bexit_dst)
  show ?thesis by (rule returns_step [OF 1]) (simp add: returns_last [OF 2])
qed

text \<open>Different messages.\<close>

lemma kinds_differ:
  "bmsg B p k \<noteq> bnew B" "bred B p \<noteq> bnew B" "bexit B \<noteq> bnew B" "bred B q \<noteq> bmsg B p k" "bexit B \<noteq> bmsg B p k" "bred B q \<noteq> bexit B"
proof -
  have c: "m_creates (bnew B)" "d_kind (m_dst (bnew B)) = KEndpoint"
    by (simp_all add: bnew_def creation_msg_def Let_def dest_endpoint_def)
  have k: "d_kind (m_dst (bred B r)) = KCallback" "d_kind (m_dst (bmsg B p k)) = KEndpoint" for r
    by (simp_all add: bred_dst bmsg_dst)
  show "bmsg B p k \<noteq> bnew B" using c(1) bmsg_dst(2) by metis
  show "bred B p \<noteq> bnew B" using c(2) k(1) by (metis destination_kind.distinct(5))
  show "bexit B \<noteq> bnew B" using c(2) bexit_dst(1) by (metis destination_kind.distinct(5))
  show "bred B q \<noteq> bmsg B p k" using k by (metis destination_kind.distinct(5))
  show "bexit B \<noteq> bmsg B p k" using bexit_dst(1) k(2) by (metis destination_kind.distinct(5))
  have "ucast (d_w1 (m_dst (bred B q))) \<noteq> all_pes" by (simp add: bred_dst low_clear all_pes_def)
  then show "bred B q \<noteq> bexit B" using bexit_dst(3) by metis
qed

section \<open>The invariant\<close>

text \<open>The messages on their way, when the PEs are in the phases \<open>ph\<close>, \<open>d\<close> tells that the reduction is done and \<open>ex\<close> who has exited.\<close>

definition due :: "u64 \<times> destination \<Rightarrow> nat \<Rightarrow> (nat \<Rightarrow> bphase) \<Rightarrow> bool \<Rightarrow> (nat \<Rightarrow> bool) \<Rightarrow> nat \<times> int msg \<Rightarrow> bool" where
  "due B n ph d ex e \<longleftrightarrow> (case e of (p, m) \<Rightarrow> p < n \<and>
     (m = bnew B \<and> \<not> is_post (ph p) \<or> (\<exists>k. m = bmsg B p k \<and> 0 < p \<and> is_post (ph 0) \<and> k \<notin> got (ph p)) \<or>
      m = bred B 0 \<and> p = 0 \<and> d \<and> \<not> ex 0 \<or> m = bexit B \<and> 0 < p \<and> ex 0 \<and> \<not> ex p))"

definition bphases :: "nat \<Rightarrow> (nat \<Rightarrow> bphase) \<Rightarrow> bool \<Rightarrow> (nat \<Rightarrow> bool) \<Rightarrow> bool" where
  "bphases n ph d ex \<longleftrightarrow> (\<forall>p<n. \<forall>ks. ph p = Pre ks \<longrightarrow> distinct ks) \<and> (ph 0 = Pre [] \<or> ph 0 = Post UNIV) \<and>
     (\<not> is_post (ph 0) \<longrightarrow> (\<forall>p. 0 < p \<longrightarrow> p < n \<longrightarrow> got (ph p) = {})) \<and>
     (d \<longrightarrow> (\<forall>p<n. ph p = Post UNIV)) \<and> (\<forall>p<n. ex p \<longrightarrow> d \<and> ex 0)"

definition binv :: "u64 \<times> destination \<Rightarrow> nat \<Rightarrow> (nat \<Rightarrow> bphase) \<Rightarrow> bool \<Rightarrow> (nat \<Rightarrow> bool) \<Rightarrow> (foo, int) cnet \<Rightarrow> bool" where
  "binv B n ph d ex net \<longleftrightarrow> bphases n ph d ex \<and>
     (\<forall>p<n. cn_pe net p = (bstate B n p (ph p) [])\<lparr>pe_exit := ex p\<rparr>) \<and>
     distinct (cn_flight net) \<and> set (cn_flight net) = Collect (due B n ph d ex) \<and>
     (\<forall>p<n. cn_reds net p = (if ph p = Post UNIV then [bred B p] else [])) \<and> cn_done net = (if d then 1 else 0)"

text \<open>How many steps are left.\<close>

definition bweight :: "nat \<Rightarrow> bphase \<Rightarrow> bool \<Rightarrow> nat" where
  "bweight p ph x = (if is_post ph then 0 else 1) + (if p = 0 then 0 else 2 - card (got ph)) + (if x then 0 else 1)"

definition bleft :: "nat \<Rightarrow> (nat \<Rightarrow> bphase) \<Rightarrow> bool \<Rightarrow> (nat \<Rightarrow> bool) \<Rightarrow> nat" where
  "bleft n ph d ex = (\<Sum>p<n. bweight p (ph p) (ex p)) + (if d then 0 else 1)"

lemma bleft_upd:
  assumes "p < n" and "bweight p (ph p) (ex p) = Suc (bweight p x y)"
  shows "bleft n ph d ex = Suc (bleft n (ph(p := x)) d (ex(p := y)))"
proof -
  have "(\<Sum>q<n. bweight q (ph q) (ex q)) = bweight p (ph p) (ex p) + (\<Sum>q\<in>{..<n} - {p}. bweight q (ph q) (ex q))"
    using assms(1) by (intro sum.remove) simp_all
  moreover have "(\<Sum>q<n. bweight q ((ph(p := x)) q) ((ex(p := y)) q))
      = bweight p x y + (\<Sum>q\<in>{..<n} - {p}. bweight q ((ph(p := x)) q) ((ex(p := y)) q))"
    using assms(1) by (subst sum.remove [of _ p]) simp_all
  moreover have "(\<Sum>q\<in>{..<n} - {p}. bweight q ((ph(p := x)) q) ((ex(p := y)) q)) = (\<Sum>q\<in>{..<n} - {p}. bweight q (ph q) (ex q))"
    by (rule sum.cong) simp_all
  ultimately show ?thesis using assms(2) by (simp add: bleft_def)
qed

text \<open>One message leaves, others come.\<close>

lemma flight_change:
  assumes fl: "fl = as @ e # bs" "distinct fl" "set fl = Collect P" and os: "distinct os" "\<forall>x \<in> set os. \<not> P x"
    and Q: "\<And>x. Q x \<longleftrightarrow> P x \<and> x \<noteq> e \<or> x \<in> set os"
  shows "distinct ((as @ bs) @ os)" "set ((as @ bs) @ os) = Collect Q"
proof -
  have s: "set (as @ bs) = Collect P - {e}" using fl by auto
  then have "set (as @ bs) \<inter> set os = {}" using os(2) by blast
  then show "distinct ((as @ bs) @ os)" using fl(1,2) os(1) by auto
  show "set ((as @ bs) @ os) = Collect Q" using s Q by auto
qed

lemma binv_arrive:
  assumes inv: "binv B n ph d ex net" and fl: "cn_flight net = as @ (p, m) # bs" and p: "p < n"
    and phases: "bphases n (ph(p := x)) d (ex(p := y))"
    and os: "os = concat (map (routed n p) outs)" "distinct os" "\<forall>e \<in> set os. \<not> due B n ph d ex e"
    and due: "\<And>e. due B n (ph(p := x)) d (ex(p := y)) e \<longleftrightarrow> due B n ph d ex e \<and> e \<noteq> (p, m) \<or> e \<in> set os"
    and reds: "concat (map contributed outs) = (if x = Post UNIV \<and> ph p \<noteq> Post UNIV then [bred B p] else [])"
      "ph p = Post UNIV \<Longrightarrow> x = Post UNIV"
  shows "binv B n (ph(p := x)) d (ex(p := y)) (put_out n p ((bstate B n p x outs)\<lparr>pe_exit := y\<rparr>) (net\<lparr>cn_flight := as @ bs\<rparr>))"
proof -
  have "distinct (cn_flight net)" "set (cn_flight net) = Collect (due B n ph d ex)" using inv by (simp_all add: binv_def)
  note flight = flight_change [OF fl this os(2,3) due]
  have "(bstate B n p x outs)\<lparr>pe_exit := y, pe_out := []\<rparr> = (bstate B n p x [])\<lparr>pe_exit := y\<rparr>"
    by (cases x) (simp_all add: bpe_def)
  moreover have "pe_out ((bstate B n p x outs)\<lparr>pe_exit := y\<rparr>) = outs" by (cases x) simp_all
  ultimately show ?thesis
    using inv phases flight reds by (auto simp: binv_def put_out_def os(1))
qed

section \<open>What each message does\<close>

lemma due_cases:
  assumes "due B n ph d ex (p, m)"
  obtains (new) "p < n" "m = bnew B" "\<not> is_post (ph p)"
  | (elem) k where "p < n" "m = bmsg B p k" "0 < p" "is_post (ph 0)" "k \<notin> got (ph p)"
  | (root) "p < n" "m = bred B 0" "p = 0" "d" "\<not> ex 0"
  | (exit) "p < n" "m = bexit B" "0 < p" "ex 0" "\<not> ex p"
  using assms unfolding due_def by blast

lemma bstate_exit: "(bstate B n p ph out)\<lparr>pe_exit := False\<rparr> = bstate B n p ph out"
  by (cases ph) (simp_all add: bpe_def)

lemma UNIV_iff: "S = UNIV \<longleftrightarrow> Ins \<in> S \<and> Bar \<in> S"
  by (metis UNIV_I UNIV_eq_I bkind.exhaust)

lemma phase_contribution:
  "concat (map (routed n p) (bouts B p S)) = []"
  "concat (map contributed (bouts B p S)) = (if S = UNIV then [bred B p] else [])"
  by (simp_all add: bouts_def UNIV_iff)

lemma card_got:
  assumes "k \<notin> got ph"
  shows "2 - card (got ph) = Suc (2 - card (insert k (got ph)))"
proof -
  have "card (insert k (got ph)) \<le> card (UNIV :: bkind set)" by (rule card_mono [OF _ subset_UNIV]) (simp add: bkind_UNIV)
  then have le: "card (insert k (got ph)) \<le> 2" by (simp add: bkind_UNIV)
  have "finite (UNIV :: bkind set)" by (simp add: bkind_UNIV)
  then have "finite (got ph)" by (rule finite_subset [OF subset_UNIV])
  then show ?thesis using assms le by simp
qed

text \<open>A message for a chare.\<close>

lemma step_elem:
  assumes n: "n < 2 ^ 30" and inv: "binv B n ph d ex net" and fl: "cn_flight net = as @ (p, bmsg B p k) # bs"
    and e: "p < n" "0 < p" "is_post (ph 0)" "k \<notin> got (ph p)" "\<not> ex p"
  shows "returns (basic_env n p) (cn_pe net p) [JDeliver (bmsg B p k)] (bstate B n p (on_msg k (ph p)) (phase_outs B p (on_msg k (ph p))))"
    "binv B n (ph(p := on_msg k (ph p))) d (ex(p := False))
      (put_out n p ((bstate B n p (on_msg k (ph p)) (phase_outs B p (on_msg k (ph p))))\<lparr>pe_exit := False\<rparr>) (net\<lparr>cn_flight := as @ bs\<rparr>))"
    "bleft n ph d ex = Suc (bleft n (ph(p := on_msg k (ph p))) d (ex(p := False)))"
proof -
  let ?x = "on_msg k (ph p)"
  have ph: "bphases n ph d ex" using inv by (simp add: binv_def)
  have x: "got ?x = insert k (got (ph p))" "is_post ?x = is_post (ph p)" by (cases "ph p"; auto)+
  have pe: "cn_pe net p = bstate B n p (ph p) []" using inv e bstate_exit by (simp add: binv_def)
  show "returns (basic_env n p) (cn_pe net p) [JDeliver (bmsg B p k)] (bstate B n p ?x (phase_outs B p ?x))"
    unfolding pe by (rule handle_msg_elem) (use e n in simp_all)
  have notU: "ph p \<noteq> Post UNIV" using e(4) by auto
  then have nd: "\<not> d" using ph e(1) by (auto simp: bphases_def)
  have os: "[] = concat (map (routed n p) (phase_outs B p ?x))" by (cases "ph p") (simp_all add: phase_contribution)
  have "bphases n (ph(p := ?x)) d (ex(p := False))"
    using ph e nd by (cases "ph p") (auto simp: bphases_def)
  moreover have "due B n (ph(p := ?x)) d (ex(p := False)) e' \<longleftrightarrow> due B n ph d ex e' \<and> e' \<noteq> (p, bmsg B p k) \<or> e' \<in> set []" for e'
  proof -
    obtain q m where e': "e' = (q, m)" by fastforce
    have inj: "bmsg B p k' = bmsg B p k \<longleftrightarrow> k' = k" for k' using bmsg_inj [of p p] e(1) n by simp
    have z: "(ph(p := ?x)) 0 = ph 0" "(ex(p := False)) 0 = ex 0" using e(2) by simp_all
    show ?thesis
    proof (cases "q = p")
      case False
      then show ?thesis by (simp add: e' due_def z del: fun_upd_apply) (simp add: fun_upd_other)
    next
      case True
      have "(\<exists>k'. m = bmsg B p k' \<and> k' \<notin> insert k (got (ph p))) \<longleftrightarrow> (\<exists>k'. m = bmsg B p k' \<and> k' \<notin> got (ph p)) \<and> m \<noteq> bmsg B p k"
        using inj by auto
      moreover have "bnew B \<noteq> bmsg B p k" "bexit B \<noteq> bmsg B p k" using kinds_differ by metis+
      moreover have "due B n (ph(p := ?x)) d (ex(p := False)) (p, m) \<longleftrightarrow>
          m = bnew B \<and> \<not> is_post (ph p) \<or> (\<exists>k'. m = bmsg B p k' \<and> k' \<notin> insert k (got (ph p))) \<or> m = bexit B \<and> ex 0"
        using e x z by (simp add: due_def)
      moreover have "due B n ph d ex (p, m) \<longleftrightarrow>
          m = bnew B \<and> \<not> is_post (ph p) \<or> (\<exists>k'. m = bmsg B p k' \<and> k' \<notin> got (ph p)) \<or> m = bexit B \<and> ex 0"
        using e by (simp add: due_def)
      ultimately show ?thesis unfolding e' True by auto
    qed
  qed
  moreover have "concat (map contributed (phase_outs B p ?x)) = (if ?x = Post UNIV \<and> ph p \<noteq> Post UNIV then [bred B p] else [])"
    using notU by (cases "ph p") (simp_all add: phase_contribution)
  ultimately show "binv B n (ph(p := ?x)) d (ex(p := False)) (put_out n p ((bstate B n p ?x (phase_outs B p ?x))\<lparr>pe_exit := False\<rparr>) (net\<lparr>cn_flight := as @ bs\<rparr>))"
    using notU by (intro binv_arrive [OF inv fl e(1) _ os]) simp_all
  show "bleft n ph d ex = Suc (bleft n (ph(p := ?x)) d (ex(p := False)))"
    by (rule bleft_upd [OF e(1)]) (use e x card_got [OF e(4)] in \<open>simp add: bweight_def\<close>)
qed

text \<open>The creation of the collective on a PE other than 0.\<close>

lemma step_new:
  assumes n: "n < 2 ^ 30" and inv: "binv B n ph d ex net" and fl: "cn_flight net = as @ (p, bnew B) # bs"
    and e: "p < n" "0 < p" "\<not> is_post (ph p)" "\<not> ex p"
  defines "S \<equiv> got (ph p)"
  shows "returns (basic_env n p) (cn_pe net p) [JDeliver (bnew B)] (bstate B n p (Post S) (bouts B p S))"
    "binv B n (ph(p := Post S)) d (ex(p := False))
      (put_out n p ((bstate B n p (Post S) (bouts B p S))\<lparr>pe_exit := False\<rparr>) (net\<lparr>cn_flight := as @ bs\<rparr>))"
    "bleft n ph d ex = Suc (bleft n (ph(p := Post S)) d (ex(p := False)))"
proof -
  have ph: "bphases n ph d ex" using inv by (simp add: binv_def)
  obtain ks where ks: "ph p = Pre ks" using e(3) by (cases "ph p") auto
  have S: "S = set ks" by (simp add: S_def ks)
  have pe: "cn_pe net p = bstate B n p (Pre ks) []" using inv e ks bstate_exit by (simp add: binv_def)
  have dist: "distinct ks" using ph e(1) ks by (simp add: bphases_def)
  show "returns (basic_env n p) (cn_pe net p) [JDeliver (bnew B)] (bstate B n p (Post S) (bouts B p S))"
    unfolding pe S by (rule handle_new_elem) (use e n dist in simp_all)
  have nd: "\<not> d" using ph e(1) ks by (auto simp: bphases_def)
  have "\<not> is_post (ph 0) \<Longrightarrow> got (ph p) = {}" using ph e(1,2) by (simp add: bphases_def)
  then have none: "ph 0 = Pre [] \<Longrightarrow> ks = []" using ks by simp
  have os: "[] = concat (map (routed n p) (bouts B p S))" by (simp add: phase_contribution)
  have "bphases n (ph(p := Post S)) d (ex(p := False))"
    using ph e nd ks none by (auto simp: bphases_def S_def)
  moreover have "due B n (ph(p := Post S)) d (ex(p := False)) e' \<longleftrightarrow> due B n ph d ex e' \<and> e' \<noteq> (p, bnew B) \<or> e' \<in> set []" for e'
  proof -
    obtain q m where e': "e' = (q, m)" by fastforce
    show ?thesis
      using e by (cases "q = p") (auto simp: e' due_def kinds_differ S_def)
  qed
  moreover have "concat (map contributed (bouts B p S)) = (if Post S = Post UNIV \<and> ph p \<noteq> Post UNIV then [bred B p] else [])"
    using ks by (simp add: phase_contribution)
  ultimately show "binv B n (ph(p := Post S)) d (ex(p := False)) (put_out n p ((bstate B n p (Post S) (bouts B p S))\<lparr>pe_exit := False\<rparr>) (net\<lparr>cn_flight := as @ bs\<rparr>))"
    using ks by (intro binv_arrive [OF inv fl e(1) _ os]) simp_all
  show "bleft n ph d ex = Suc (bleft n (ph(p := Post S)) d (ex(p := False)))"
    by (rule bleft_upd [OF e(1)]) (use e in \<open>simp add: bweight_def S_def\<close>)
qed

text \<open>The creation of the collective on PE 0, which sends all that waited on.\<close>

lemma root_sends:
  "concat (map (routed n 0) (bouts B 0 UNIV @ bsends B n))
    = map (\<lambda>(q, k). (q, bmsg B q k)) (concat (map (\<lambda>q. [(q, Ins), (q, Bar)]) [1..<n]))"
proof -
  have "concat (map (routed n 0) (map (\<lambda>(q, k). NSend q (bmsg B q k)) qs)) = map (\<lambda>(q, k). (q, bmsg B q k)) qs" for qs
    by (induction qs) auto
  then show ?thesis by (simp add: phase_contribution bsends_def)
qed

lemma root_sends_set:
  "set (concat (map (\<lambda>q. [(q, Ins), (q, Bar)]) [1..<n])) = {(q, k). 0 < q \<and> q < n}"
proof -
  have "(q, k) \<in> set (concat (map (\<lambda>q. [(q, Ins), (q, Bar)]) [1..<n])) \<longleftrightarrow> 0 < q \<and> q < n" for q k by (cases k) auto
  then show ?thesis by auto
qed

lemma root_sends_distinct:
  assumes "n < 2 ^ 30"
  shows "distinct (map (\<lambda>(q, k). (q, bmsg B q k)) (concat (map (\<lambda>q. [(q, Ins), (q, Bar)]) [1..<n])))"
proof -
  have "distinct (concat (map (\<lambda>q. [(q, Ins), (q, Bar)]) [a..<b]))" for a b
    by (rule distinct_concat) (auto simp: distinct_map inj_on_def)
  moreover have "inj_on (\<lambda>(q, k). (q, bmsg B q k)) {(q, k). 0 < q \<and> q < n}"
    using assms by (auto simp: inj_on_def bmsg_inj)
  ultimately show ?thesis unfolding distinct_map root_sends_set by blast
qed

lemma step_root:
  assumes n: "n < 2 ^ 30" and inv: "binv B n ph d ex net" and fl: "cn_flight net = as @ (0, bnew B) # bs"
    and e: "0 < n" "\<not> is_post (ph 0)" "\<not> ex 0"
  defines "outs \<equiv> bouts B 0 UNIV @ bsends B n"
  shows "returns (basic_env n 0) (cn_pe net 0) [JDeliver (bnew B)] (bstate B n 0 (Post UNIV) outs)"
    "binv B n (ph(0 := Post UNIV)) d (ex(0 := False))
      (put_out n 0 ((bstate B n 0 (Post UNIV) outs)\<lparr>pe_exit := False\<rparr>) (net\<lparr>cn_flight := as @ bs\<rparr>))"
    "bleft n ph d ex = Suc (bleft n (ph(0 := Post UNIV)) d (ex(0 := False)))"
proof -
  have ph: "bphases n ph d ex" using inv by (simp add: binv_def)
  have pre: "ph 0 = Pre []" using ph e(2) by (auto simp: bphases_def)
  have pe: "cn_pe net 0 = bstate B n 0 (Pre []) []" using inv e pre bstate_exit by (simp add: binv_def)
  show "returns (basic_env n 0) (cn_pe net 0) [JDeliver (bnew B)] (bstate B n 0 (Post UNIV) outs)"
    unfolding pe outs_def by (rule handle_new_root) (use e n in simp_all)
  have none: "got (ph q) = {}" if "0 < q" "q < n" for q using ph e(2) that by (simp add: bphases_def)
  have nd: "\<not> d" using ph e(1) pre by (auto simp: bphases_def)
  let ?os = "map (\<lambda>(q, k). (q, bmsg B q k)) (concat (map (\<lambda>q. [(q, Ins), (q, Bar)]) [1..<n]))"
  have os: "?os = concat (map (routed n 0) outs)" unfolding outs_def by (rule root_sends [symmetric])
  have set_os: "set ?os = {(q, m). 0 < q \<and> q < n \<and> (\<exists>k. m = bmsg B q k)}"
    unfolding set_map root_sends_set by auto
  have "bphases n (ph(0 := Post UNIV)) d (ex(0 := False))" using ph e nd pre by (auto simp: bphases_def)
  have "\<not> due B n ph d ex (q, bmsg B q k)" if "0 < q" for q k
    using e that by (simp add: due_def kinds_differ)
  then have "\<forall>e \<in> set ?os. \<not> due B n ph d ex e" unfolding set_os by auto
  moreover note \<open>bphases n (ph(0 := Post UNIV)) d (ex(0 := False))\<close>
  moreover have "due B n (ph(0 := Post UNIV)) d (ex(0 := False)) e' \<longleftrightarrow> due B n ph d ex e' \<and> e' \<noteq> (0, bnew B) \<or> e' \<in> set ?os" for e'
  proof -
    obtain q m where e': "e' = (q, m)" by fastforce
    show ?thesis
      unfolding e' set_os using e nd none by (cases "q = 0") (simp_all add: due_def, auto simp: none)
  qed
  moreover have "concat (map contributed outs) = (if Post UNIV = Post UNIV \<and> ph 0 \<noteq> Post UNIV then [bred B 0] else [])"
  proof -
    have "concat (map contributed (map (\<lambda>(q, k). NSend q (bmsg B q k)) qs)) = []" for qs by (induction qs) auto
    then show ?thesis using pre by (simp add: outs_def bsends_def phase_contribution)
  qed
  ultimately show "binv B n (ph(0 := Post UNIV)) d (ex(0 := False))
      (put_out n 0 ((bstate B n 0 (Post UNIV) outs)\<lparr>pe_exit := False\<rparr>) (net\<lparr>cn_flight := as @ bs\<rparr>))"
    using root_sends_distinct [OF n, of B] by (intro binv_arrive [OF inv fl e(1) _ os]) simp_all
  show "bleft n ph d ex = Suc (bleft n (ph(0 := Post UNIV)) d (ex(0 := False)))"
    by (rule bleft_upd [OF e(1)]) (use e in \<open>simp add: bweight_def\<close>)
qed

text \<open>The end of the reduction, and the exit.\<close>

lemma step_reduced:
  assumes n: "0 < n" and inv: "binv B n ph d ex net" and all: "\<forall>p<n. cn_done net < length (cn_reds net p)"
  shows "\<not> d" "nop_reduce (map (\<lambda>p. cn_reds net p ! cn_done net) [0..<n]) = bred B 0"
    "binv B n ph True ex (net\<lparr>cn_flight := cn_flight net @ [(0, bred B 0)], cn_done := Suc (cn_done net)\<rparr>)"
    "bleft n ph d ex = Suc (bleft n ph True ex)"
proof -
  have ph: "bphases n ph d ex" and reds: "\<And>p. p < n \<Longrightarrow> cn_reds net p = (if ph p = Post UNIV then [bred B p] else [])"
    and don: "cn_done net = (if d then 1 else 0)" using inv by (simp_all add: binv_def)
  show nd: "\<not> d" using all n reds [OF n] don by (auto split: if_splits)
  have post: "ph p = Post UNIV" if "p < n" for p using all reds [OF that] that by (auto split: if_splits)
  have noex: "\<not> ex p" if "p < n" for p using ph nd that by (simp add: bphases_def)
  show "nop_reduce (map (\<lambda>p. cn_reds net p ! cn_done net) [0..<n]) = bred B 0"
    using n nd don reds [OF n] post [OF n] by (simp add: nop_reduce_hd hd_map hd_upt)
  have "\<not> due B n ph d ex (0, bred B 0)" using nd kinds_differ [where B = B] by (auto simp: due_def)
  then have new: "(0, bred B 0) \<notin> set (cn_flight net)" using inv by (simp add: binv_def)
  have "due B n ph True ex e \<longleftrightarrow> due B n ph d ex e \<or> e = (0, bred B 0)" for e
    using nd noex n by (cases e) (auto simp: due_def)
  then have "Collect (due B n ph True ex) = insert (0, bred B 0) (Collect (due B n ph d ex))" by blast
  moreover have "bphases n ph True ex" using ph post noex by (simp add: bphases_def)
  ultimately show "binv B n ph True ex (net\<lparr>cn_flight := cn_flight net @ [(0, bred B 0)], cn_done := Suc (cn_done net)\<rparr>)"
    using inv new nd don by (simp add: binv_def)
  show "bleft n ph d ex = Suc (bleft n ph True ex)" using nd by (simp add: bleft_def)
qed

lemma step_exit_root:
  assumes inv: "binv B n ph d ex net" and fl: "cn_flight net = as @ (0, bred B 0) # bs" and e: "0 < n" "d" "\<not> ex 0"
  shows "returns (basic_env n 0) (cn_pe net 0) [JDeliver (bred B 0)] ((bstate B n 0 (ph 0) [NBcast (bexit B)])\<lparr>pe_exit := True\<rparr>)"
    "binv B n (ph(0 := ph 0)) d (ex(0 := True))
      (put_out n 0 ((bstate B n 0 (ph 0) [NBcast (bexit B)])\<lparr>pe_exit := True\<rparr>) (net\<lparr>cn_flight := as @ bs\<rparr>))"
    "bleft n ph d ex = Suc (bleft n (ph(0 := ph 0)) d (ex(0 := True)))"
proof -
  have ph: "bphases n ph d ex" using inv by (simp add: binv_def)
  have pe: "cn_pe net 0 = bstate B n 0 (ph 0) []" using inv e bstate_exit by (simp add: binv_def)
  show "returns (basic_env n 0) (cn_pe net 0) [JDeliver (bred B 0)] ((bstate B n 0 (ph 0) [NBcast (bexit B)])\<lparr>pe_exit := True\<rparr>)"
    unfolding pe by (rule exit_root)
  have post: "ph p = Post UNIV" if "p < n" for p using ph e that by (simp add: bphases_def)
  have noex: "\<not> ex p" if "p < n" for p using ph e that by (simp add: bphases_def)
  let ?os = "map (\<lambda>q. (q, bexit B)) (filter (\<lambda>q. q \<noteq> 0) [0..<n])"
  have os: "?os = concat (map (routed n 0) [NBcast (bexit B)])" by simp
  have "bphases n (ph(0 := ph 0)) d (ex(0 := True))" using ph e by (auto simp: bphases_def)
  moreover have "distinct ?os" by (simp add: distinct_map inj_on_def)
  moreover have "\<forall>e \<in> set ?os. \<not> due B n ph d ex e" using e kinds_differ [where B = B] post by (auto simp: due_def)
  moreover have "due B n (ph(0 := ph 0)) d (ex(0 := True)) e' \<longleftrightarrow> due B n ph d ex e' \<and> e' \<noteq> (0, bred B 0) \<or> e' \<in> set ?os" for e'
  proof -
    obtain q m where e': "e' = (q, m)" by fastforce
    show ?thesis unfolding e' using e post noex by (cases "q = 0"; cases "q < n") (auto simp: due_def)
  qed
  moreover have "concat (map contributed [NBcast (bexit B)]) = (if ph 0 = Post UNIV \<and> ph 0 \<noteq> Post UNIV then [bred B 0] else [])" by simp
  ultimately show "binv B n (ph(0 := ph 0)) d (ex(0 := True))
      (put_out n 0 ((bstate B n 0 (ph 0) [NBcast (bexit B)])\<lparr>pe_exit := True\<rparr>) (net\<lparr>cn_flight := as @ bs\<rparr>))"
    by (intro binv_arrive [OF inv fl e(1) _ os])
  show "bleft n ph d ex = Suc (bleft n (ph(0 := ph 0)) d (ex(0 := True)))"
    by (rule bleft_upd [OF e(1)]) (use e in \<open>simp add: bweight_def\<close>)
qed

lemma step_exit_elem:
  assumes inv: "binv B n ph d ex net" and fl: "cn_flight net = as @ (p, bexit B) # bs" and e: "p < n" "0 < p" "ex 0" "\<not> ex p"
  shows "returns (basic_env n p) (cn_pe net p) [JDeliver (bexit B)] ((bstate B n p (ph p) [])\<lparr>pe_exit := True\<rparr>)"
    "binv B n (ph(p := ph p)) d (ex(p := True))
      (put_out n p ((bstate B n p (ph p) [])\<lparr>pe_exit := True\<rparr>) (net\<lparr>cn_flight := as @ bs\<rparr>))"
    "bleft n ph d ex = Suc (bleft n (ph(p := ph p)) d (ex(p := True)))"
proof -
  have ph: "bphases n ph d ex" using inv by (simp add: binv_def)
  have pe: "cn_pe net p = bstate B n p (ph p) []" using inv e bstate_exit by (simp add: binv_def)
  show "returns (basic_env n p) (cn_pe net p) [JDeliver (bexit B)] ((bstate B n p (ph p) [])\<lparr>pe_exit := True\<rparr>)"
    unfolding pe by (rule exit_elem)
  have d: "d" using ph e by (auto simp: bphases_def)
  then have post: "ph q = Post UNIV" if "q < n" for q using ph that by (simp add: bphases_def)
  have os: "[] = concat (map (routed n p) [])" by simp
  have "bphases n (ph(p := ph p)) d (ex(p := True))" using ph e by (auto simp: bphases_def)
  moreover have "due B n (ph(p := ph p)) d (ex(p := True)) e' \<longleftrightarrow> due B n ph d ex e' \<and> e' \<noteq> (p, bexit B) \<or> e' \<in> set []" for e'
  proof -
    obtain q m where e': "e' = (q, m)" by fastforce
    show ?thesis unfolding e' using e post d by (cases "q = p"; cases "q < n") (auto simp: due_def)
  qed
  moreover have "concat (map contributed []) = (if ph p = Post UNIV \<and> ph p \<noteq> Post UNIV then [bred B p] else [])" by simp
  ultimately show "binv B n (ph(p := ph p)) d (ex(p := True))
      (put_out n p ((bstate B n p (ph p) [])\<lparr>pe_exit := True\<rparr>) (net\<lparr>cn_flight := as @ bs\<rparr>))"
    by (intro binv_arrive [OF inv fl e(1) _ os]) simp_all
  show "bleft n ph d ex = Suc (bleft n (ph(p := ph p)) d (ex(p := True)))"
    by (rule bleft_upd [OF e(1)]) (use e in \<open>simp add: bweight_def\<close>)
qed

section \<open>Every run\<close>

lemma binv_start:
  assumes n: "0 < n" "n < 2 ^ 30" and st: "basic_start B n net"
  shows "binv B n (\<lambda>_. Pre []) False (\<lambda>_. False) net"
proof -
  let ?ph = "\<lambda>_. Pre []" and ?ex = "\<lambda>_. False"
  obtain st0 where st0: "basic_main B n st0"
    "net = put_out n 0 st0 \<lparr>cn_pe = (\<lambda>_. new_pe), cn_flight = [], cn_reds = (\<lambda>_. []), cn_done = 0\<rparr>"
    using st by (auto simp: basic_start_def)
  have net: "net = put_out n 0 (bstate B n 0 (Pre []) [NBcastAll (bnew B)])
      \<lparr>cn_pe = (\<lambda>_. new_pe), cn_flight = [], cn_reds = (\<lambda>_. []), cn_done = 0\<rparr>"
    using st0 basic_main_state by simp
  have new: "new_pe = bpe p [] None [] []" if "p \<noteq> 0" for p
    using that by (auto simp: new_pe_def bpe_def)
  have "cn_pe net p = (bstate B n p (Pre []) [])\<lparr>pe_exit := False\<rparr>" if "p < n" for p
    unfolding bstate_exit using new [of p] by (simp add: net put_out_def)
  moreover have "distinct (cn_flight net)" "set (cn_flight net) = Collect (due B n ?ph False ?ex)"
    by (auto simp: net put_out_def distinct_map inj_on_def due_def)
  moreover have "bphases n ?ph False ?ex" by (simp add: bphases_def)
  ultimately show ?thesis by (simp add: binv_def) (simp add: net put_out_def)
qed

lemma binv_due:
  assumes "binv B n ph d ex net" and "cn_flight net = as @ (p, m) # bs"
  shows "due B n ph d ex (p, m)"
proof -
  have "(p, m) \<in> Collect (due B n ph d ex)" using assms by (metis binv_def in_set_conv_decomp)
  then show ?thesis by simp
qed

text \<open>Handling a message that is on its way to a PE that has not exited.\<close>

lemma basic_handles:
  assumes n: "n < 2 ^ 30" and inv: "binv B n ph d ex net" and fl: "cn_flight net = as @ (p, m) # bs" and x: "\<not> ex p"
  shows "\<exists>st ph' ex'. returns (basic_env n p) (cn_pe net p) [JDeliver m] st \<and>
    binv B n ph' d ex' (put_out n p st (net\<lparr>cn_flight := as @ bs\<rparr>)) \<and> bleft n ph d ex = Suc (bleft n ph' d ex')"
  using binv_due [OF inv fl]
proof (cases rule: due_cases)
  case new
  show ?thesis
  proof (cases "p = 0")
    case True
    have "cn_flight net = as @ (0, bnew B) # bs" "\<not> is_post (ph 0)" "\<not> ex 0" "0 < n" using fl new True x by simp_all
    note step = step_root [OF n inv this(1) this(4,2,3)]
    show ?thesis using step(1) step(2) [unfolded bstate_exit] step(3) unfolding new(2) True by blast
  next
    case False
    have "cn_flight net = as @ (p, bnew B) # bs" using fl new by simp
    note step = step_new [OF n inv this new(1) _ new(3) x]
    show ?thesis using step(1) step(2) [unfolded bstate_exit] step(3) False unfolding new(2) by blast
  qed
next
  case (elem k)
  have "cn_flight net = as @ (p, bmsg B p k) # bs" using fl elem by simp
  note step = step_elem [OF n inv this elem(1,3,4,5) x]
  show ?thesis using step(1) step(2) [unfolded bstate_exit] step(3) unfolding elem(2) by blast
next
  case root
  have "cn_flight net = as @ (0, bred B 0) # bs" "0 < n" using fl root by simp_all
  note step = step_exit_root [OF inv this root(4,5)]
  show ?thesis using step unfolding root(2,3) by blast
next
  case exit
  have "cn_flight net = as @ (p, bexit B) # bs" using fl exit by simp
  note step = step_exit_elem [OF inv this exit(1,3,4,5)]
  show ?thesis using step unfolding exit(2) by blast
qed

lemma binv_step:
  assumes n: "0 < n" "n < 2 ^ 30" and inv: "binv B n ph d ex net" and step: "basic_step n net net'"
  shows "\<exists>ph' d' ex'. binv B n ph' d' ex' net' \<and> bleft n ph d ex = Suc (bleft n ph' d' ex')"
  using step
proof cases
  case (arrive as p m bs st)
  have "\<not> ex p" using inv arrive by (cases "ex p") (auto simp: binv_def)
  from basic_handles [OF n(2) inv arrive(2) this] show ?thesis
    using arrive returns_unique by metis
next
  case (reduced m)
  note r = step_reduced [OF n(1) inv reduced(2)]
  show ?thesis using r(3,4) unfolding reduced(1,3) r(2) by blast
qed

lemma binv_steps:
  assumes n: "0 < n" "n < 2 ^ 30" and st: "basic_start B n net0"
  shows "(basic_step n ^^ k) net0 net \<Longrightarrow> \<exists>ph d ex. binv B n ph d ex net \<and> k + bleft n ph d ex = 4 * n - 1"
proof (induction k arbitrary: net)
  case 0
  have "(\<Sum>p<m. bweight p (Pre []) False) = 4 * m - 2" if "0 < m" for m
    using that
  proof (induction m)
    case (Suc m)
    then show ?case by (cases m) (simp_all add: bweight_def)
  qed simp
  then have "bleft n (\<lambda>_. Pre []) False (\<lambda>_. False) = 4 * n - 1" using n(1) by (simp add: bleft_def)
  then show ?case using binv_start [OF n st] 0 by auto
next
  case (Suc k)
  then obtain net1 where 1: "(basic_step n ^^ k) net0 net1" "basic_step n net1 net" by auto
  obtain ph d ex where inv: "binv B n ph d ex net1" "k + bleft n ph d ex = 4 * n - 1" using Suc.IH [OF 1(1)] by blast
  from binv_step [OF n inv(1) 1(2)] show ?case using inv(2) by fastforce
qed

text \<open>As long as not every PE has exited, a step is possible.\<close>

lemma basic_progress:
  assumes n: "0 < n" "n < 2 ^ 30" and inv: "binv B n ph d ex net" and p: "p < n" "\<not> ex p"
  shows "\<exists>net'. basic_step n net net'"
proof -
  have ph: "bphases n ph d ex" and flight: "set (cn_flight net) = Collect (due B n ph d ex)" using inv by (simp_all add: binv_def)
  have go: "\<exists>net'. basic_step n net net'" if due: "due B n ph d ex (q, m)" and noexit: "\<not> ex q" for q m
  proof -
    have "(q, m) \<in> set (cn_flight net)" using flight due by simp
    then obtain as bs where fl: "cn_flight net = as @ (q, m) # bs" by (meson split_list)
    obtain st where st: "returns (basic_env n q) (cn_pe net q) [JDeliver m] st"
      using basic_handles [OF n(2) inv fl noexit] by blast
    have q: "q < n" using due by (simp add: due_def)
    have "\<not> pe_exit (cn_pe net q)" using inv q noexit by (simp add: binv_def)
    from arrive [where net = net and red = nop_reduce and E = "basic_env n", OF fl q this st] show ?thesis by blast
  qed
  show ?thesis
  proof (cases d)
    case True
    show ?thesis
    proof (cases "ex 0")
      case False
      then show ?thesis using go [of 0 "bred B 0"] True n(1) by (simp add: due_def)
    next
      case 0: True
      then have "0 < p" using p(2) by (cases p) simp_all
      then show ?thesis using go [of p "bexit B"] 0 p by (simp add: due_def)
    qed
  next
    case False
    have noex: "\<not> ex q" if "q < n" for q using ph False that by (simp add: bphases_def)
    show ?thesis
    proof (cases "\<forall>q<n. ph q = Post UNIV")
      case True
      then have all: "\<forall>q<n. cn_done net < length (cn_reds net q)" using inv False by (simp add: binv_def)
      show ?thesis using reduced [OF all refl] by blast
    next
      case notall: False
      then obtain q where q: "q < n" "ph q \<noteq> Post UNIV" by blast
      show ?thesis
      proof (cases "is_post (ph q)")
        case False
        then show ?thesis using go [of q "bnew B"] q noex by (simp add: due_def)
      next
        case True
        then obtain S k where S: "ph q = Post S" "k \<notin> S" using q(2) by (cases "ph q") auto
        have q0: "0 < q" using ph S by (cases q) (auto simp: bphases_def)
        show ?thesis
        proof (cases "is_post (ph 0)")
          case True
          then show ?thesis using go [of q "bmsg B q k"] q q0 noex S by (auto simp: due_def)
        next
          case False
          then show ?thesis using go [of 0 "bnew B"] n(1) noex by (simp add: due_def)
        qed
      qed
    qed
  qed
qed

text \<open>
  C4. The program \<open>examples/basic\<close> on \<open>n\<close> PEs, whatever the order in which the network delivers: every message that
  reaches a PE is handled without a fault, every run has at most \<open>4 n - 1\<close> steps and can go on until then, and
  then every PE has exited, nothing is on its way, and on each PE \<open>p\<close> the constructor and then \<open>bar\<close> have run once, on the
  chare \<open>p\<close>, which has printed one line, \<open>p\<close> plus \<open>p + 1\<close>.
\<close>

theorem basic_completes:
  assumes "0 < n" and "n < 2 ^ 30" and "basic_start B n net0" and "(basic_step n ^^ k) net0 net"
  shows "k \<le> 4 * n - 1 \<and> (k < 4 * n - 1 \<longrightarrow> (\<exists>net'. basic_step n net net')) \<and>
    (\<forall>p m. (p, m) \<in> set (cn_flight net) \<longrightarrow> p < n \<and> (\<exists>st. returns (basic_env n p) (cn_pe net p) [JDeliver m] st)) \<and>
    (k = 4 * n - 1 \<longrightarrow> cn_flight net = [] \<and> (\<forall>p<n. pe_exit (cn_pe net p) \<and>
      pe_log (cn_pe net p) = [(barr, bidx p, bmsg B p Ins), (barr, bidx p, bmsg B p Bar)] \<and>
      (\<exists>co. pe_cols (cn_pe net p) = [barr \<mapsto> co] \<and> co_chares co = [bidx p \<mapsto> bchare p [(int p, p, int p, int p + 1, 2 * int p + 1)]])))"
proof -
  obtain ph d ex where inv: "binv B n ph d ex net" and left: "k + bleft n ph d ex = 4 * n - 1"
    using binv_steps [OF assms] by blast
  have ph: "bphases n ph d ex" and flight: "set (cn_flight net) = Collect (due B n ph d ex)"
    and pes: "\<And>p. p < n \<Longrightarrow> cn_pe net p = (bstate B n p (ph p) [])\<lparr>pe_exit := ex p\<rparr>" using inv by (simp_all add: binv_def)
  have more: "\<exists>net'. basic_step n net net'" if "k < 4 * n - 1"
  proof (cases "\<forall>p<n. ex p")
    case False
    then show ?thesis using basic_progress [OF assms(1,2) inv] by blast
  next
    case True
    then have "d" "\<And>p. p < n \<Longrightarrow> ph p = Post UNIV" using ph assms(1) by (auto simp: bphases_def)
    then have "bleft n ph d ex = 0" using True by (simp add: bleft_def bweight_def bkind_UNIV)
    then show ?thesis using left that by simp
  qed
  have handled: "p < n \<and> (\<exists>st. returns (basic_env n p) (cn_pe net p) [JDeliver m] st)" if m: "(p, m) \<in> set (cn_flight net)" for p m
  proof -
    have due: "due B n ph d ex (p, m)" using flight m by simp
    obtain as bs where fl: "cn_flight net = as @ (p, m) # bs" using m by (meson split_list)
    have "\<not> ex p" using due ph by (auto simp: due_def bphases_def)
    from basic_handles [OF assms(2) inv fl this] due show ?thesis by (auto simp: due_def)
  qed
  have done_: "cn_flight net = [] \<and> (\<forall>p<n. pe_exit (cn_pe net p) \<and>
      pe_log (cn_pe net p) = [(barr, bidx p, bmsg B p Ins), (barr, bidx p, bmsg B p Bar)] \<and>
      (\<exists>co. pe_cols (cn_pe net p) = [barr \<mapsto> co] \<and> co_chares co = [bidx p \<mapsto> bchare p [(int p, p, int p, int p + 1, 2 * int p + 1)]]))"
    if k: "k = 4 * n - 1"
  proof -
    have "bleft n ph d ex = 0" using left k by simp
    then have d: d and ex: "\<And>p. p < n \<Longrightarrow> ex p" by (auto simp: bleft_def bweight_def split: if_splits)
    then have post: "\<And>p. p < n \<Longrightarrow> ph p = Post UNIV" using ph by (simp add: bphases_def)
    have "\<not> due B n ph d ex e" for e using post ex assms(1) by (auto simp: due_def)
    then have "Collect (due B n ph d ex) = {}" by blast
    then have "cn_flight net = []" unfolding flight [symmetric] by (simp only: set_empty)
    moreover have "\<exists>co. [barr \<mapsto> bpost B p UNIV] = [barr \<mapsto> co] \<and> co_chares co = [bidx p \<mapsto> bchare p [bline p]]" for p
      by (rule exI [of _ "bpost B p UNIV"]) (simp add: bpost_def)
    ultimately show ?thesis using pes post ex by (simp add: blog_def bline_def)
  qed
  show ?thesis using left more handled done_ by auto
qed

theorem basic_completes_witness:
  "\<exists>net0 net. basic_start (128, no_bytes) 1 net0 \<and> (basic_step 1 ^^ 1) net0 net \<and> (\<exists>net'. basic_step 1 net net')"
proof -
  let ?B = "(128 :: u64, no_bytes)"
  obtain net0 where start: "basic_start ?B 1 net0"
    using basic_main_exists [of ?B 1] by (auto simp: basic_start_def)
  have zero: "(basic_step 1 ^^ 0) net0 net0" by simp
  obtain net where "basic_step 1 net0 net"
    using basic_completes [OF _ _ start zero] by auto
  then have one: "(basic_step 1 ^^ 1) net0 net" by (simp only: relpowp_1)
  then have "\<exists>net'. basic_step 1 net net'" using basic_completes [OF _ _ start one] by simp
  then show ?thesis using start one by blast
qed

end
