(* ===== verification/Warp.thy ===== *)
theory Warp
  imports Prelude
begin

text \<open>
  \<open>warp/warp.hpp\<close>: tasks on the ranks of an MPI program, driven by receives. A task requests a
  message for one of its entry points; the loop \<open>__run_once\<close> tests the posted receives and
  runs the entry point of each that has completed. What MPI answers (which tests succeed, with
  which bytes, what a probe finds) is an argument; what a task does is the user's code, a
  parameter.
\<close>

section \<open>Messages, entry points and the state of a rank\<close>

text \<open>
  The header travels with the payload, so a completed receive overwrites all of it.
\<close>

record 'b wmsg =
  wm_obj :: u64
  wm_ep :: u64
  wm_size :: u64
  wm_tag :: int
  wm_body :: 'b

definition sizeof_wmsg :: u64 where
  "sizeof_wmsg = 32"

definition set_properties :: "u64 \<Rightarrow> u64 \<Rightarrow> int \<Rightarrow> 'b wmsg \<Rightarrow> 'b wmsg" where
  "set_properties obj ep tag m = m\<lparr>wm_obj := obj, wm_ep := ep, wm_tag := tag\<rparr>"

text \<open>\<open>allocate\<close> sets the size only; \<open>junk\<close> is what the memory held.\<close>

definition w_allocate :: "'b wmsg \<Rightarrow> u64 \<Rightarrow> 'b wmsg" where
  "w_allocate junk sz = junk\<lparr>wm_size := sz\<rparr>"

definition total_size :: "'b wmsg \<Rightarrow> u64" where
  "total_size m = wm_size m + sizeof_wmsg"

text \<open>What an entry point calls, and what it does besides (\<open>WUser\<close>).\<close>

datatype ('b, 'x) wact =
    WRequestBuf "'b wmsg"
  | WRequest u64 u64 int
  | WSend int u64 u64 int "'b wmsg"
  | WUser 'x

record ('u, 'b, 'x) entry_info =
  ei_fn :: "'u option \<Rightarrow> 'b wmsg \<Rightarrow> ('u option \<times> ('b, 'x) wact list) res"
  ei_size :: "u64 option"

datatype 'b mpi_call = Irecv nat u64 int | Isend nat int "'b wmsg"

text \<open>
  Active requests have distinct handles, so \<open>receives\<close> and \<open>sends\<close> are maps from requests, here
  numbered in the order of their creation. \<open>w_calls\<close> are the calls of MPI, \<open>w_log\<close> (a history
  variable) the messages that entry points were run with.
\<close>

record ('u, 'b, 'x) warp =
  w_entries :: "('u, 'b, 'x) entry_info list"
  w_tasks :: "'u option list"
  w_receives :: "nat \<Rightarrow> 'b wmsg option"
  w_sends :: "nat \<Rightarrow> 'b wmsg option"
  w_probes :: "(u64 \<times> u64 \<times> int) list"
  w_next :: nat
  w_calls :: "'b mpi_call list"
  w_user :: "'x list"
  w_log :: "'b wmsg list"

section \<open>Requests and sends\<close>

definition request_buf :: "'b wmsg \<Rightarrow> ('u, 'b, 'x) warp \<Rightarrow> ('u, 'b, 'x) warp" where
  "request_buf m st = st\<lparr>w_receives := (w_receives st)(w_next st \<mapsto> m), w_next := Suc (w_next st),
     w_calls := w_calls st @ [Irecv (w_next st) (total_size m) (wm_tag m)]\<rparr>"

definition request_sized ::
  "'b wmsg \<Rightarrow> u64 \<Rightarrow> u64 \<Rightarrow> u64 \<Rightarrow> int \<Rightarrow> ('u, 'b, 'x) warp \<Rightarrow> ('u, 'b, 'x) warp" where
  "request_sized junk obj ep sz tag st = request_buf (set_properties obj ep tag (w_allocate junk sz)) st"

definition request ::
  "'b wmsg \<Rightarrow> u64 \<Rightarrow> u64 \<Rightarrow> int \<Rightarrow> ('u, 'b, 'x) warp \<Rightarrow> ('u, 'b, 'x) warp res" where
  "request junk obj ep tag st = bind_res (at (w_entries st) (unat ep)) (\<lambda>e.
     Inr (case ei_size e of
            Some sz \<Rightarrow> request_sized junk obj ep sz tag st
          | None \<Rightarrow> st\<lparr>w_probes := w_probes st @ [(obj, ep, tag)]\<rparr>))"

definition w_send ::
  "int \<Rightarrow> u64 \<Rightarrow> u64 \<Rightarrow> int \<Rightarrow> 'b wmsg \<Rightarrow> ('u, 'b, 'x) warp \<Rightarrow> ('u, 'b, 'x) warp" where
  "w_send dest obj ep tag msg st = (let m = set_properties obj ep tag msg
     in st\<lparr>w_sends := (w_sends st)(w_next st \<mapsto> m), w_next := Suc (w_next st),
          w_calls := w_calls st @ [Isend (w_next st) dest m]\<rparr>)"

fun run_wact :: "'b wmsg \<Rightarrow> ('b, 'x) wact \<Rightarrow> ('u, 'b, 'x) warp \<Rightarrow> ('u, 'b, 'x) warp res" where
  "run_wact junk (WRequestBuf m) st = Inr (request_buf m st)"
| "run_wact junk (WRequest obj ep tag) st = request junk obj ep tag st"
| "run_wact junk (WSend dest obj ep tag m) st = Inr (w_send dest obj ep tag m st)"
| "run_wact junk (WUser x) st = Inr (st\<lparr>w_user := w_user st @ [x]\<rparr>)"

fun run_wacts :: "'b wmsg \<Rightarrow> ('b, 'x) wact list \<Rightarrow> ('u, 'b, 'x) warp \<Rightarrow> ('u, 'b, 'x) warp res" where
  "run_wacts junk [] st = Inr st"
| "run_wacts junk (a # as) st = bind_res (run_wact junk a st) (run_wacts junk as)"

section \<open>The scheduler's loop\<close>

text \<open>The callback of the receives' loop, with the bytes that have arrived.\<close>

definition trigger :: "'b wmsg \<Rightarrow> 'b wmsg \<Rightarrow> ('u, 'b, 'x) warp \<Rightarrow> ('u, 'b, 'x) warp res" where
  "trigger junk m st =
     bind_res (at (w_entries st) (unat (wm_ep m))) (\<lambda>entry.
     bind_res (at (w_tasks st) (unat (wm_obj m))) (\<lambda>t.
     bind_res (ei_fn entry t m) (\<lambda>(t', as).
       run_wacts junk as (st\<lparr>w_tasks := (w_tasks st)[unat (wm_obj m) := t'], w_log := w_log st @ [m]\<rparr>))))"

definition erase_recv :: "nat \<Rightarrow> ('u, 'b, 'x) warp \<Rightarrow> ('u, 'b, 'x) warp" where
  "erase_recv i st = st\<lparr>w_receives := (w_receives st)(i := None)\<rparr>"

text \<open>
  \<open>__foreach_request\<close> over the receives: the requests in the order of the map's iteration, each with
  the answer of its test, the message when it has completed. The callback may insert requests, which the
  iteration visits or not, depending on their handles. Over the sends: the requests that are done.
\<close>

fun foreach_recv ::
  "'b wmsg \<Rightarrow> (nat \<times> 'b wmsg option) list \<Rightarrow> ('u, 'b, 'x) warp \<Rightarrow> ('u, 'b, 'x) warp res" where
  "foreach_recv junk [] st = Inr st"
| "foreach_recv junk ((i, None) # ts) st = foreach_recv junk ts st"
| "foreach_recv junk ((i, Some m) # ts) st =
     bind_res (trigger junk m st) (\<lambda>st1. foreach_recv junk ts (erase_recv i st1))"

definition foreach_send :: "(nat \<times> bool) list \<Rightarrow> ('u, 'b, 'x) warp \<Rightarrow> ('u, 'b, 'x) warp" where
  "foreach_send ts st = st\<lparr>w_sends := (\<lambda>i. if (i, True) \<in> set ts then None else w_sends st i)\<rparr>"

text \<open>
  The loop over the probes, with the answers of \<open>MPI_Iprobe\<close>: the count of bytes when there is a
  message. It stops at the first probe that finds none.
\<close>

fun probe_loop :: "'b wmsg \<Rightarrow> u64 option list \<Rightarrow> ('u, 'b, 'x) warp \<Rightarrow> ('u, 'b, 'x) warp" where
  "probe_loop junk (Some cnt # qs) st =
     (case w_probes st of
        [] \<Rightarrow> st
      | (obj, ep, tag) # ps \<Rightarrow>
          probe_loop junk qs ((request_sized junk obj ep (cnt - sizeof_wmsg) tag st)\<lparr>w_probes := ps\<rparr>))"
| "probe_loop junk _ st = st"

definition run_once ::
  "'b wmsg \<Rightarrow> (nat \<times> bool) list \<Rightarrow> (nat \<times> 'b wmsg option) list \<Rightarrow> u64 option list
    \<Rightarrow> ('u, 'b, 'x) warp \<Rightarrow> ('u, 'b, 'x) warp res" where
  "run_once junk sts rts ps st =
     bind_res (foreach_recv junk rts (foreach_send sts st)) (\<lambda>st1. Inr (probe_loop junk ps st1))"

section \<open>Start-up\<close>

text \<open>
  The calls of MPI in \<open>initialize\<close> and their results, and what it returns. The results are
  combined with \<open>&=\<close>, starting at \<open>MPI_SUCCESS\<close>; that of \<open>MPI_Init\<close> is dropped.
\<close>

definition MPI_SUCCESS :: "32 word" where
  "MPI_SUCCESS = 0"

definition initialize :: "32 word list \<Rightarrow> bool" where
  "initialize results = (foldl (AND) MPI_SUCCESS results = MPI_SUCCESS)"

section \<open>What the loop does with the requests\<close>

definition pending :: "('u, 'b, 'x) warp \<Rightarrow> nat set" where
  "pending st = dom (w_receives st) \<union> dom (w_sends st)"

text \<open>No request has the number of a later one, or is both a receive and a send.\<close>

definition fresh_ok :: "('u, 'b, 'x) warp \<Rightarrow> bool" where
  "fresh_ok st \<longleftrightarrow> pending st \<subseteq> {..<w_next st} \<and> dom (w_receives st) \<inter> dom (w_sends st) = {}"

text \<open>One state extends another: requests were only added, under new numbers.\<close>

definition extends :: "('u, 'b, 'x) warp \<Rightarrow> ('u, 'b, 'x) warp \<Rightarrow> bool" where
  "extends st st' \<longleftrightarrow> fresh_ok st' \<and> w_log st' = w_log st \<and> w_next st \<le> w_next st' \<and>
     pending st' = pending st \<union> {w_next st..<w_next st'} \<and>
     dom (w_receives st') \<inter> {..<w_next st} = dom (w_receives st)"

lemma fresh_ok_frame:
  "w_receives st' = w_receives st \<Longrightarrow> w_sends st' = w_sends st \<Longrightarrow> w_next st' = w_next st \<Longrightarrow>
    fresh_ok st' = fresh_ok st \<and> pending st' = pending st"
  by (simp add: fresh_ok_def pending_def)

lemma fresh_receives: "fresh_ok st \<Longrightarrow> dom (w_receives st) \<inter> {..<w_next st} = dom (w_receives st)"
  by (auto simp: fresh_ok_def pending_def)

lemma extends_refl:
  assumes "fresh_ok st" and "w_receives st' = w_receives st" and "w_sends st' = w_sends st"
    and "w_next st' = w_next st" and "w_log st' = w_log st"
  shows "extends st st'"
  using assms fresh_ok_frame [OF assms(2-4)] fresh_receives [OF assms(1)] by (simp add: extends_def)

lemma extends_trans:
  assumes "extends a b" and "extends b c"
  shows "extends a c"
proof -
  have n: "w_next a \<le> w_next b" "w_next b \<le> w_next c" using assms by (simp_all add: extends_def)
  then have "{w_next a..<w_next b} \<union> {w_next b..<w_next c} = {w_next a..<w_next c}" by auto
  then have "pending c = pending a \<union> {w_next a..<w_next c}"
    using assms by (simp add: extends_def Un_assoc)
  moreover have "dom (w_receives c) \<inter> {..<w_next a} = dom (w_receives c) \<inter> {..<w_next b} \<inter> {..<w_next a}"
    using n by auto
  ultimately show ?thesis using assms n by (simp add: extends_def)
qed

lemma extends_frame:
  assumes "extends st a" and "w_receives b = w_receives a" and "w_sends b = w_sends a"
    and "w_next b = w_next a" and "w_log b = w_log a"
  shows "extends st b"
  using assms fresh_ok_frame [OF assms(2-4)] by (simp add: extends_def)

lemma extends_recv:
  assumes "fresh_ok st"
  shows "extends st (request_buf m st)"
proof -
  have f: "w_next st \<notin> dom (w_receives st) \<union> dom (w_sends st)"
    using assms unfolding fresh_ok_def pending_def by blast
  then show ?thesis
    using assms fresh_receives [OF assms]
    unfolding extends_def fresh_ok_def pending_def request_buf_def by auto
qed

lemma extends_send:
  assumes "fresh_ok st"
  shows "extends st (w_send dest obj ep tag m st)"
proof -
  have f: "w_next st \<notin> dom (w_receives st) \<union> dom (w_sends st)"
    using assms unfolding fresh_ok_def pending_def by blast
  then show ?thesis
    using assms fresh_receives [OF assms]
    unfolding extends_def fresh_ok_def pending_def w_send_def Let_def by auto
qed

lemma extends_request:
  assumes "fresh_ok st" and "request junk obj ep tag st = Inr st'"
  shows "extends st st'"
proof -
  define e where "e = w_entries st ! unat ep"
  have e: "st' = (case ei_size e of Some sz \<Rightarrow> request_sized junk obj ep sz tag st
    | None \<Rightarrow> st\<lparr>w_probes := w_probes st @ [(obj, ep, tag)]\<rparr>)"
    using assms(2) by (auto simp: request_def bind_res_Inr_iff e_def)
  show ?thesis
  proof (cases "ei_size e")
    case None
    then show ?thesis using e extends_refl [OF assms(1)] by simp
  next
    case (Some sz)
    then show ?thesis using e extends_recv [OF assms(1)] by (simp add: request_sized_def)
  qed
qed

lemma extends_act:
  assumes "fresh_ok st" and "run_wact junk a st = Inr st'"
  shows "extends st st'"
proof (cases a)
  case (WUser x)
  then have "st' = st\<lparr>w_user := w_user st @ [x]\<rparr>" using assms(2) by simp
  then show ?thesis using extends_refl [OF assms(1)] by simp
qed (use assms extends_recv extends_request extends_send in auto)

lemma extends_acts:
  "fresh_ok st \<Longrightarrow> run_wacts junk as st = Inr st' \<Longrightarrow> extends st st'"
proof (induction as arbitrary: st)
  case (Cons a as)
  then obtain st1 where 1: "run_wact junk a st = Inr st1" "run_wacts junk as st1 = Inr st'"
    by (auto simp: bind_res_Inr_iff)
  have e: "extends st st1" by (rule extends_act [OF Cons.prems(1) 1(1)])
  then have "extends st1 st'" using Cons.IH [OF _ 1(2)] by (simp add: extends_def)
  then show ?case by (rule extends_trans [OF e])
qed (simp add: extends_refl)

lemma trigger_extends:
  assumes "fresh_ok st" and "trigger junk m st = Inr st'"
  shows "extends (st\<lparr>w_log := w_log st @ [m]\<rparr>) st'"
proof -
  obtain t' as where r: "run_wacts junk as (st\<lparr>w_tasks := (w_tasks st)[unat (wm_obj m) := t'],
      w_log := w_log st @ [m]\<rparr>) = Inr st'"
    using assms(2) by (auto simp: trigger_def bind_res_Inr_iff)
  have "fresh_ok (st\<lparr>w_tasks := (w_tasks st)[unat (wm_obj m) := t'], w_log := w_log st @ [m]\<rparr>)"
    using assms(1) by (simp add: fresh_ok_def pending_def)
  from extends_acts [OF this r] show ?thesis by (simp add: extends_def pending_def)
qed

text \<open>The errors of start-up are never reported: \<open>0 AND r\<close> is 0.\<close>

lemma initialize_never_fails: "initialize results"
proof -
  have "foldl (AND) 0 rs = (0 :: 32 word)" for rs by (induction rs) simp_all
  then show ?thesis by (simp add: initialize_def MPI_SUCCESS_def)
qed

text \<open>The iteration visits requests that are in the map at that moment.\<close>

fun visits_ok :: "'b wmsg \<Rightarrow> (nat \<times> 'b wmsg option) list \<Rightarrow> ('u, 'b, 'x) warp \<Rightarrow> bool" where
  "visits_ok junk [] st \<longleftrightarrow> True"
| "visits_ok junk ((i, None) # ts) st \<longleftrightarrow> w_receives st i \<noteq> None \<and> visits_ok junk ts st"
| "visits_ok junk ((i, Some m) # ts) st \<longleftrightarrow> w_receives st i \<noteq> None \<and>
     (\<forall>st1. trigger junk m st = Inr st1 \<longrightarrow> visits_ok junk ts (erase_recv i st1))"

definition completed :: "(nat \<times> 'b wmsg option) list \<Rightarrow> nat set" where
  "completed ts = {i. \<exists>m. (i, Some m) \<in> set ts}"

definition arrived :: "(nat \<times> 'b wmsg option) list \<Rightarrow> 'b wmsg list" where
  "arrived ts = concat (map (\<lambda>(i, r). case r of None \<Rightarrow> [] | Some m \<Rightarrow> [m]) ts)"

lemma completed_simps [simp]:
  "completed [] = {}" "completed ((i, None) # ts) = completed ts"
  "completed ((i, Some m) # ts) = insert i (completed ts)"
  by (auto simp: completed_def)

lemma arrived_simps [simp]:
  "arrived [] = []" "arrived ((i, None) # ts) = arrived ts" "arrived ((i, Some m) # ts) = m # arrived ts"
  by (simp_all add: arrived_def)

lemma request_sets:
  fixes n0 n1 n2 :: nat
  assumes "C \<subseteq> {..<n1}" and "D \<subseteq> {..<n0}" and "n0 \<le> n1" and "n1 \<le> n2"
  shows "(P - D) \<union> {n0..<n1} - C \<union> {n1..<n2} = P \<union> {n0..<n2} - C - D"
  using assms by auto

lemma erase_ok:
  assumes "fresh_ok st" and "w_receives st i \<noteq> None"
  shows "fresh_ok (erase_recv i st) \<and> pending (erase_recv i st) = pending st - {i} \<and> i < w_next st"
proof -
  have "w_sends st i = None" using assms unfolding fresh_ok_def by blast
  moreover have "i < w_next st" using assms unfolding fresh_ok_def pending_def by blast
  ultimately show ?thesis using assms unfolding fresh_ok_def pending_def erase_recv_def by auto
qed

lemma foreach_recv_ok:
  "foreach_recv junk ts st = Inr st' \<Longrightarrow> fresh_ok st \<Longrightarrow> visits_ok junk ts st \<Longrightarrow>
    fresh_ok st' \<and> w_next st \<le> w_next st' \<and> w_log st' = w_log st @ arrived ts \<and>
    completed ts \<subseteq> {..<w_next st'} \<and>
    pending st' = pending st \<union> {w_next st..<w_next st'} - completed ts"
proof (induction junk ts st rule: foreach_recv.induct)
  case (1 junk st)
  then show ?case by simp
next
  case (2 junk i ts st)
  then show ?case by simp
next
  case (3 junk i m ts st)
  then obtain st1 where t: "trigger junk m st = Inr st1"
    and f: "foreach_recv junk ts (erase_recv i st1) = Inr st'" by (auto simp: bind_res_Inr_iff)
  note ex = trigger_extends [OF 3(3) t]
  have i: "w_receives st i \<noteq> None" using 3(4) by simp
  have st1: "fresh_ok st1" "w_log st1 = w_log st @ [m]" "w_next st \<le> w_next st1"
    "pending st1 = pending st \<union> {w_next st..<w_next st1}"
    "dom (w_receives st1) \<inter> {..<w_next st} = dom (w_receives st)"
    using ex by (simp_all add: extends_def pending_def)
  have r1: "w_receives st1 i \<noteq> None" using i st1(5) by blast
  note e = erase_ok [OF st1(1) r1]
  have lt: "i < w_next st" using 3(3) i unfolding fresh_ok_def pending_def by blast
  have v: "visits_ok junk ts (erase_recv i st1)" using 3(4) t by simp
  have n: "w_next (erase_recv i st1) = w_next st1" "w_log (erase_recv i st1) = w_log st1"
    by (simp_all add: erase_recv_def)
  have IH: "fresh_ok st'" "w_next st1 \<le> w_next st'" "w_log st' = w_log st1 @ arrived ts"
    "completed ts \<subseteq> {..<w_next st'}"
    "pending st' = pending (erase_recv i st1) \<union> {w_next st1..<w_next st'} - completed ts"
    using 3(1) [OF f conjunct1 [OF e] v] unfolding n by auto
  have "{w_next st..<w_next st1} \<union> {w_next st1..<w_next st'} = {w_next st..<w_next st'}"
    using st1(3) IH(2) by auto
  then have "pending st' = pending st \<union> {w_next st..<w_next st'} - insert i (completed ts)"
    using IH(5) e st1(4) lt IH(2) st1(3) by auto
  then show ?case using IH(1-4) st1(2,3) lt by auto
qed

lemma probe_loop_ok:
  "fresh_ok st \<Longrightarrow> fresh_ok (probe_loop junk qs st) \<and> w_next st \<le> w_next (probe_loop junk qs st) \<and>
    w_log (probe_loop junk qs st) = w_log st \<and>
    pending (probe_loop junk qs st) = pending st \<union> {w_next st..<w_next (probe_loop junk qs st)}"
proof (induction junk qs st rule: probe_loop.induct)
  case (1 junk cnt qs st)
  show ?case
  proof (cases "w_probes st")
    case Nil
    then show ?thesis using 1(2) by simp
  next
    case (Cons q ps)
    obtain obj ep tag where q: "q = (obj, ep, tag)" by (cases q)
    define st1 where "st1 = (request_sized junk obj ep (cnt - sizeof_wmsg) tag st)\<lparr>w_probes := ps\<rparr>"
    have e: "extends st st1"
      by (rule extends_frame [OF extends_recv [OF 1(2)]]) (simp_all add: st1_def request_sized_def)
    have eq: "probe_loop junk (Some cnt # qs) st = probe_loop junk qs st1" using Cons q by (simp add: st1_def)
    have "fresh_ok (probe_loop junk qs st1) \<and> w_next st1 \<le> w_next (probe_loop junk qs st1) \<and>
        w_log (probe_loop junk qs st1) = w_log st1 \<and>
        pending (probe_loop junk qs st1) = pending st1 \<union> {w_next st1..<w_next (probe_loop junk qs st1)}"
      using 1(1) [OF Cons, of obj "(ep, tag)" ep tag] q e by (simp add: st1_def [symmetric] extends_def)
    moreover have "{w_next st..<w_next st1} \<union> {w_next st1..<n} = {w_next st..<n}" if "w_next st1 \<le> n" for n
      using that e by (auto simp: extends_def)
    ultimately show ?thesis unfolding eq using e by (auto simp: extends_def)
  qed
qed auto

text \<open>
  One pass of the loop runs an entry point once for each receive whose test succeeded, in the
  order of the tests and with the message that arrived, and forgets exactly these receives and
  the sends that are done. Every other request stays pending, the ones made during the pass
  by entry points and probes included.
\<close>

theorem run_once_requests:
  assumes "run_once junk sts rts qs st = Inr st'" and "fresh_ok st"
    and "visits_ok junk rts (foreach_send sts st)" and "\<forall>i. (i, True) \<in> set sts \<longrightarrow> i \<in> dom (w_sends st)"
  shows "fresh_ok st' \<and> w_log st' = w_log st @ arrived rts \<and>
    pending st' = pending st \<union> {w_next st..<w_next st'} - completed rts - {i. (i, True) \<in> set sts}"
proof -
  let ?st0 = "foreach_send sts st" and ?D = "{i. (i, True) \<in> set sts}"
  obtain st1 where r: "foreach_recv junk rts ?st0 = Inr st1" and st': "st' = probe_loop junk qs st1"
    using assms(1) by (auto simp: run_once_def bind_res_Inr_iff)
  have s: "w_receives ?st0 = w_receives st" "w_next ?st0 = w_next st" "w_log ?st0 = w_log st"
    by (simp_all add: foreach_send_def)
  have ds: "dom (w_sends ?st0) = dom (w_sends st) - ?D"
    by (auto simp: foreach_send_def split: if_splits)
  have D: "?D \<subseteq> {..<w_next st}" "?D \<inter> dom (w_receives st) = {}"
    using assms(2,4) unfolding fresh_ok_def pending_def by blast+
  have p0: "pending ?st0 = pending st - ?D" using D(2) unfolding pending_def ds s by blast
  have f0: "fresh_ok ?st0" using assms(2) unfolding fresh_ok_def pending_def ds s by blast
  note R = foreach_recv_ok [OF r f0 assms(3), unfolded p0 s]
  note Q = probe_loop_ok [of st1 junk qs, folded st']
  have "pending st' = pending st \<union> {w_next st..<w_next st'} - completed rts - ?D"
    using request_sets [of "completed rts" "w_next st1" ?D "w_next st" "w_next st'" "pending st"] R Q D(1)
    by simp
  then show ?thesis using R Q by simp
qed

end
