(* ===== verification/Warp_Pingpong.thy ===== *)
theory Warp_Pingpong
  imports Warp
begin

text \<open>
  \<open>warp/pingpong.cpp\<close>: two tasks that send a message back and forth, for a warm-up and a measured
  series of \<open>nIters\<close> round trips, on two ranks or on one. The clock is left out.
\<close>

section \<open>The task\<close>

record pingpong =
  pg_index :: nat
  pg_it :: int
  pg_warmup :: bool

definition new_pingpong :: "nat \<Rightarrow> pingpong" where
  "new_pingpong index = \<lparr>pg_index = index, pg_it = 0, pg_warmup = True\<rparr>"

text \<open>The time is printed; \<open>running\<close> is set to \<open>false\<close>.\<close>

datatype pg_out = Print | StopRank

definition finish :: "nat \<Rightarrow> pingpong \<Rightarrow> bool \<times> pingpong \<times> pg_out list" where
  "finish rk self =
     (let self1 = self\<lparr>pg_it := 0\<rparr>
      in if \<not> pg_warmup self then
           (True, self1, (if pg_index self = 0 then [Print] else []) @ (if pg_index self = rk then [StopRank] else []))
         else (False, self1\<lparr>pg_warmup := False\<rparr>, []))"

text \<open>\<open>receive_index\<close> is 0, the only entry point.\<close>

definition pg_receive ::
  "nat \<Rightarrow> nat \<Rightarrow> int \<Rightarrow> pingpong option \<Rightarrow> 'b wmsg \<Rightarrow> (pingpong option \<times> ('b, pg_out) wact list) res" where
  "pg_receive rk nRanks nIters obj msg =
     (case obj of
        None \<Rightarrow> Inl BadPointer
      | Some self \<Rightarrow>
          (let peer = (pg_index self + 1) mod 2;
               self1 = self\<lparr>pg_it := pg_it self + 1\<rparr>;
               (done, self2, outs) = (if pg_it self1 \<ge> nIters then finish rk self1 else (False, self1, []))
           in Inr (Some self2,
                map WUser outs @ [WSend (int (peer mod nRanks)) (of_nat peer) 0 (int peer) msg] @
                (if \<not> done then [WRequest (of_nat (pg_index self)) 0 (int (pg_index self))] else []))))"

section \<open>The ranks\<close>

type_synonym 'b pg_rank = "(pingpong, 'b, pg_out) warp"

definition pg_empty :: "nat \<Rightarrow> nat \<Rightarrow> int \<Rightarrow> u64 \<Rightarrow> 'b pg_rank" where
  "pg_empty rk nRanks nIters msg_size =
     \<lparr>w_entries = [\<lparr>ei_fn = pg_receive rk nRanks nIters, ei_size = Some msg_size\<rparr>], w_tasks = [],
      w_receives = Map.empty, w_sends = Map.empty, w_probes = [], w_next = 0, w_calls = [], w_user = [],
      w_log = []\<rparr>"

definition pg_construct :: "'b wmsg \<Rightarrow> nat \<Rightarrow> u64 \<Rightarrow> 'b pg_rank \<Rightarrow> 'b pg_rank" where
  "pg_construct junk index msg_size st =
     request_sized junk (of_nat index) 0 msg_size (int index) (st\<lparr>w_tasks := w_tasks st @ [Some (new_pingpong index)]\<rparr>)"

definition pg_main :: "'b wmsg \<Rightarrow> nat \<Rightarrow> nat \<Rightarrow> int \<Rightarrow> u64 \<Rightarrow> 'b pg_rank" where
  "pg_main junk rk nRanks nIters msg_size =
     (let st = pg_empty rk nRanks nIters msg_size
      in if rk = 0 then
           (let st1 = pg_construct junk 0 msg_size st;
                st2 = (if nRanks = 1 then pg_construct junk 1 msg_size st1 else st1)
            in w_send (int ((rk + 1) mod nRanks)) 1 0 1 (w_allocate junk msg_size) st2)
         else if rk = 1 then pg_construct junk 1 msg_size (st\<lparr>w_tasks := w_tasks st @ [None]\<rparr>)
         else st\<lparr>w_user := [StopRank]\<rparr>)"

text \<open>
  All ranks, and the messages that were sent and not yet received. \<open>ps_handled\<close> counts the
  receives (a history variable). MPI matches a posted receive with any message for the rank that has
  its tag.
\<close>

record 'b pg_sys =
  ps_rank :: "nat \<Rightarrow> 'b pg_rank"
  ps_wire :: "(nat \<times> 'b wmsg) list"
  ps_handled :: nat

fun sent_of :: "'b mpi_call list \<Rightarrow> (nat \<times> 'b wmsg) list" where
  "sent_of [] = []"
| "sent_of (Isend i dest m # cs) = (nat dest, m) # sent_of cs"
| "sent_of (Irecv i n tag # cs) = sent_of cs"

definition new_sends :: "'b pg_rank \<Rightarrow> 'b pg_rank \<Rightarrow> (nat \<times> 'b wmsg) list" where
  "new_sends st st' = sent_of (drop (length (w_calls st)) (w_calls st'))"

definition pg_start :: "'b wmsg \<Rightarrow> nat \<Rightarrow> int \<Rightarrow> u64 \<Rightarrow> 'b pg_sys" where
  "pg_start junk R nIters msg_size =
     \<lparr>ps_rank = (\<lambda>r. pg_main junk r R nIters msg_size),
      ps_wire = concat (map (\<lambda>r. sent_of (w_calls (pg_main junk r R nIters msg_size))) [0..<R]),
      ps_handled = 0\<rparr>"

definition matches :: "nat \<Rightarrow> 'b pg_sys \<Rightarrow> nat \<Rightarrow> nat \<Rightarrow> 'b wmsg \<Rightarrow> bool" where
  "matches R s r i m \<longleftrightarrow> r < R \<and> (r, m) \<in> set (ps_wire s) \<and>
     (\<exists>b. w_receives (ps_rank s r) i = Some b \<and> wm_tag b = wm_tag m)"

text \<open>
  \<open>main\<close> runs the passes of a rank while its \<open>running\<close> is set; a pass that clears it goes on to its end. The steps do not
  consult it and so allow every rank to go on; \<open>pingpong_ends\<close> shows that a rank that can receive is running.
\<close>

definition pg_running :: "'b pg_rank \<Rightarrow> bool" where
  "pg_running st \<longleftrightarrow> StopRank \<notin> set (w_user st)"

inductive pg_step :: "'b wmsg \<Rightarrow> nat \<Rightarrow> 'b pg_sys \<Rightarrow> 'b pg_sys \<Rightarrow> bool" for junk R where
  pg_recv: "matches R s r i m \<Longrightarrow> foreach_recv junk [(i, Some m)] (ps_rank s r) = Inr st \<Longrightarrow>
    pg_step junk R s (s\<lparr>ps_rank := (ps_rank s)(r := st),
      ps_wire := remove1 (r, m) (ps_wire s) @ new_sends (ps_rank s r) st, ps_handled := Suc (ps_handled s)\<rparr>)"
| pg_sent: "r < R \<Longrightarrow>
    pg_step junk R s (s\<lparr>ps_rank := (ps_rank s)(r := foreach_send [(i, True)] (ps_rank s r))\<rparr>)"

definition pg_reach :: "'b wmsg \<Rightarrow> nat \<Rightarrow> int \<Rightarrow> u64 \<Rightarrow> 'b pg_sys \<Rightarrow> bool" where
  "pg_reach junk R nIters msg_size = reach (\<lambda>s. s = pg_start junk R nIters msg_size) (pg_step junk R)"

section \<open>One receive\<close>

text \<open>The number of receives of a series, and what a task is after \<open>c\<close> receives.\<close>

definition series :: "int \<Rightarrow> nat" where
  "series nIters = nat (max 1 nIters)"

definition task_after :: "int \<Rightarrow> nat \<Rightarrow> nat \<Rightarrow> pingpong" where
  "task_after nIters i c = (let N = series nIters
     in \<lparr>pg_index = i, pg_it = int (if c < N then c else if c < 2 * N then c - N else 0), pg_warmup = c < N\<rparr>)"

definition outs_after :: "int \<Rightarrow> nat \<Rightarrow> nat \<Rightarrow> nat \<Rightarrow> pg_out list" where
  "outs_after nIters rk i c = (if c = 2 * series nIters then
     (if i = 0 then [Print] else []) @ (if i = rk then [StopRank] else []) else [])"

lemma series_ge: "1 \<le> series nIters"
  by (simp add: series_def)

lemma pg_receive_after:
  assumes c: "c < 2 * series nIters" and i: "i < 2"
  shows "pg_receive rk R nIters (Some (task_after nIters i c)) msg = Inr (Some (task_after nIters i (Suc c)),
    map WUser (outs_after nIters rk i (Suc c)) @
    [WSend (int ((Suc i mod 2) mod R)) (of_nat (Suc i mod 2)) 0 (int (Suc i mod 2)) msg] @
    (if Suc c < 2 * series nIters then [WRequest (of_nat i) 0 (int i)] else []))"
proof -
  let ?N = "series nIters"
  have N: "int ?N = max 1 nIters" by (simp add: series_def)
  consider "Suc c < ?N" | "Suc c = ?N" | "?N \<le> c" "Suc c < 2 * ?N" | "Suc c = 2 * ?N"
    using c by linarith
  then show ?thesis
  proof cases
    case 1
    then have "int c + 1 < nIters" using N by linarith
    then show ?thesis using 1
      by (simp add: pg_receive_def task_after_def outs_after_def Let_def)
  next
    case 2
    then have "nIters \<le> int c + 1" using N by linarith
    then show ?thesis using 2 series_ge [of nIters]
      by (simp add: pg_receive_def task_after_def outs_after_def Let_def finish_def)
  next
    case 3
    then have "int (c - ?N) + 1 < nIters" using N by linarith
    then show ?thesis using 3
      by (simp add: pg_receive_def task_after_def outs_after_def Let_def)
  next
    case 4
    then have c': "?N \<le> c" "c < 2 * ?N" using series_ge [of nIters] by linarith+
    then have "nIters \<le> int (c - ?N) + 1" using N 4 by linarith
    then show ?thesis using 4 c'
      by (simp add: pg_receive_def task_after_def outs_after_def Let_def finish_def)
  qed
qed

definition entry_of_rank :: "nat \<Rightarrow> nat \<Rightarrow> int \<Rightarrow> u64 \<Rightarrow> (pingpong, 'b, pg_out) entry_info" where
  "entry_of_rank rk R nIters sz = \<lparr>ei_fn = pg_receive rk R nIters, ei_size = Some sz\<rparr>"

lemma run_wacts_append: "run_wacts junk (as @ bs) st = bind_res (run_wacts junk as st) (run_wacts junk bs)"
proof (induction as arbitrary: st)
  case (Cons a as)
  then show ?case by (cases "run_wact junk a st") auto
qed simp

lemma run_wacts_user:
  "run_wacts junk (map WUser xs) st = Inr (st\<lparr>w_user := w_user st @ xs\<rparr>)"
  by (induction xs arbitrary: st) simp_all

definition posted :: "nat \<Rightarrow> 'b pg_rank \<Rightarrow> nat set" where
  "posted d st = {i. \<exists>b. w_receives st i = Some b \<and> wm_tag b = int d}"

text \<open>A rank after it has received the message \<open>m\<close> with the request \<open>i\<close> for its task \<open>d\<close>.\<close>

definition received ::
  "'b wmsg \<Rightarrow> nat \<Rightarrow> nat \<Rightarrow> int \<Rightarrow> u64 \<Rightarrow> nat \<Rightarrow> nat \<Rightarrow> nat \<Rightarrow> 'b wmsg \<Rightarrow> 'b pg_rank \<Rightarrow> 'b pg_rank" where
  "received junk rk R nIters sz d c i m st =
     (let peer = Suc d mod 2;
          st1 = w_send (int (peer mod R)) (of_nat peer) 0 (int peer) m (st\<lparr>
            w_tasks := (w_tasks st)[d := Some (task_after nIters d (Suc c))], w_log := w_log st @ [m],
            w_user := w_user st @ outs_after nIters rk d (Suc c)\<rparr>)
      in erase_recv i (if Suc c < 2 * series nIters
           then request_sized junk (of_nat d) 0 sz (int d) st1 else st1))"

lemma foreach_recv_one:
  assumes e: "w_entries st = [entry_of_rank rk R nIters sz]" and d: "d < 2" "d < length (w_tasks st)"
    and t: "w_tasks st ! d = Some (task_after nIters d c)" and c: "c < 2 * series nIters"
    and m: "wm_obj m = of_nat d" "wm_ep m = 0"
  shows "foreach_recv junk [(i, Some m)] st = Inr (received junk rk R nIters sz d c i m st)"
proof -
  have u: "unat (of_nat d :: u64) = d" using d(1) by (simp add: unat_of_nat take_bit_nat_eq_self)
  have r: "request junk (of_nat d) 0 (int d) st1 = Inr (request_sized junk (of_nat d) 0 sz (int d) st1)"
    if "w_entries st1 = [entry_of_rank rk R nIters sz]" for st1 :: "'a pg_rank"
    using that by (simp add: request_def at_def entry_of_rank_def)
  have s: "w_entries (w_send a b g h m st1) = w_entries st1" for a b g h and st1 :: "'a pg_rank"
    by (simp add: w_send_def Let_def)
  have "trigger junk m st = Inr (let peer = Suc d mod 2;
          st1 = w_send (int (peer mod R)) (of_nat peer) 0 (int peer) m (st\<lparr>
            w_tasks := (w_tasks st)[d := Some (task_after nIters d (Suc c))], w_log := w_log st @ [m],
            w_user := w_user st @ outs_after nIters rk d (Suc c)\<rparr>)
      in if Suc c < 2 * series nIters then request_sized junk (of_nat d) 0 sz (int d) st1 else st1)"
    using d t m u e r s
    by (simp add: trigger_def at_def entry_of_rank_def pg_receive_after [OF c d(1)] run_wacts_append
        run_wacts_user Let_def)
  then show ?thesis by (simp add: received_def Let_def)
qed

lemma fresh_erase: "fresh_ok st \<Longrightarrow> fresh_ok (erase_recv i st)"
  by (auto simp: fresh_ok_def pending_def erase_recv_def split: if_splits)

lemma received_facts:
  assumes f: "fresh_ok st" and i: "i \<in> posted d st" and d: "d < 2" "d < length (w_tasks st)"
    and st'_def: "st' = received junk rk R nIters sz d c i m st"
  shows "w_entries st' = w_entries st" "length (w_tasks st') = length (w_tasks st)"
    "w_tasks st' ! d = Some (task_after nIters d (Suc c))"
    "d' \<noteq> d \<Longrightarrow> w_tasks st' ! d' = w_tasks st ! d'"
    "w_user st' = w_user st @ outs_after nIters rk d (Suc c)"
    "new_sends st st' = [(Suc d mod 2 mod R, set_properties (of_nat (Suc d mod 2)) 0 (int (Suc d mod 2)) m)]"
    "d' \<noteq> d \<Longrightarrow> posted d' st' = posted d' st"
    "posted d st' = posted d st - {i} \<union> (if Suc c < 2 * series nIters then {Suc (w_next st)} else {})"
    "fresh_ok st'"
proof -
  have lt: "w_receives st j = None" if "w_next st \<le> j" for j
    using f that unfolding fresh_ok_def pending_def by (meson Un_iff domIff lessThan_iff not_le subsetD)
  have il: "i < w_next st" using i lt by (force simp: posted_def not_le [symmetric])
  note D = st'_def received_def Let_def w_send_def request_sized_def request_buf_def erase_recv_def
    set_properties_def w_allocate_def
  show "w_entries st' = w_entries st" "length (w_tasks st') = length (w_tasks st)"
    "w_tasks st' ! d = Some (task_after nIters d (Suc c))"
    "d' \<noteq> d \<Longrightarrow> w_tasks st' ! d' = w_tasks st ! d'"
    "w_user st' = w_user st @ outs_after nIters rk d (Suc c)"
    using d(2) by (simp_all add: D)
  show "new_sends st st' = [(Suc d mod 2 mod R, set_properties (of_nat (Suc d mod 2)) 0 (int (Suc d mod 2)) m)]"
    by (simp add: new_sends_def D)
  show "posted d' st' = posted d' st" if "d' \<noteq> d"
    using that lt il i by (auto simp: posted_def D split: if_splits)
  show "posted d st' = posted d st - {i} \<union> (if Suc c < 2 * series nIters then {Suc (w_next st)} else {})"
    using lt il by (auto simp: posted_def D split: if_splits)
  define st0 where "st0 = st\<lparr>w_tasks := (w_tasks st)[d := Some (task_after nIters d (Suc c))],
    w_log := w_log st @ [m], w_user := w_user st @ outs_after nIters rk d (Suc c)\<rparr>"
  define st1 where "st1 = w_send (int (Suc d mod 2 mod R)) (of_nat (Suc d mod 2)) 0 (int (Suc d mod 2)) m st0"
  have "fresh_ok st0" using f fresh_ok_frame [of st0 st] by (simp add: st0_def)
  then have 1: "fresh_ok st1" unfolding st1_def by (rule extends_send [unfolded extends_def, THEN conjunct1])
  then have "fresh_ok (request_sized junk (of_nat d) 0 sz (int d) st1)"
    unfolding request_sized_def by (rule extends_recv [unfolded extends_def, THEN conjunct1])
  with 1 show "fresh_ok st'"
    unfolding st'_def received_def Let_def st0_def [symmetric] st1_def [symmetric]
    by (simp add: fresh_erase)
qed

section \<open>The invariant\<close>

text \<open>How often the task \<open>i\<close> has received after \<open>k\<close> receives; the first is by task 1.\<close>

definition received_by :: "nat \<Rightarrow> nat \<Rightarrow> nat" where
  "received_by i k = (if i = 0 then k div 2 else Suc k div 2)"

text \<open>The task \<open>i\<close> on its rank, after \<open>k\<close> receives.\<close>

definition home_ok :: "nat \<Rightarrow> int \<Rightarrow> u64 \<Rightarrow> nat \<Rightarrow> nat \<Rightarrow> 'b pg_rank \<Rightarrow> bool" where
  "home_ok R nIters sz k i st \<longleftrightarrow> (let c = received_by i k
     in w_entries st = [entry_of_rank (i mod R) R nIters sz] \<and> i < length (w_tasks st) \<and>
        w_tasks st ! i = Some (task_after nIters i c) \<and> fresh_ok st \<and>
        (if c < 2 * series nIters then is_singleton (posted i st) else posted i st = {}) \<and>
        (i mod R = i \<longrightarrow> w_user st = outs_after nIters i i c))"

definition pg_inv :: "nat \<Rightarrow> int \<Rightarrow> u64 \<Rightarrow> 'b pg_sys \<Rightarrow> bool" where
  "pg_inv R nIters sz s \<longleftrightarrow> 0 < R \<and> ps_handled s \<le> 4 * series nIters \<and>
     home_ok R nIters sz (ps_handled s) 0 (ps_rank s (0 mod R)) \<and>
     home_ok R nIters sz (ps_handled s) 1 (ps_rank s (1 mod R)) \<and>
     (\<exists>m. ps_wire s = [(Suc (ps_handled s) mod 2 mod R, m)] \<and>
        wm_obj m = of_nat (Suc (ps_handled s) mod 2) \<and> wm_ep m = 0 \<and>
        wm_tag m = int (Suc (ps_handled s) mod 2))"

lemma received_by_step:
  "d = Suc k mod 2 \<Longrightarrow> received_by d (Suc k) = Suc (received_by d k)"
  "d = Suc k mod 2 \<Longrightarrow> i < 2 \<Longrightarrow> i \<noteq> d \<Longrightarrow> received_by i (Suc k) = received_by i k"
proof -
  assume d: "d = Suc k mod 2"
  show "received_by d (Suc k) = Suc (received_by d k)"
    using d by (cases "even k") (auto simp: received_by_def elim!: evenE oddE)
  show "received_by i (Suc k) = received_by i k" if "i < 2" "i \<noteq> d"
    using d that by (cases "even k") (auto simp: received_by_def less_2_cases_iff elim!: evenE oddE)
qed

lemma received_by_less:
  "d = Suc k mod 2 \<Longrightarrow> received_by d k < 2 * N \<Longrightarrow> Suc k \<le> 4 * N"
  by (cases "even k") (auto simp: received_by_def elim!: evenE oddE)

lemma received_by_over:
  "d = Suc k mod 2 \<Longrightarrow> \<not> received_by d k < 2 * N \<Longrightarrow> k \<le> 4 * N \<Longrightarrow> k = 4 * N"
  by (cases "even k") (auto simp: received_by_def elim!: evenE oddE)

text \<open>The task on the other side is not touched.\<close>

lemma home_ok_other:
  assumes h: "home_ok R nIters sz k i st" and f: "fresh_ok st'" and r: "received_by i k' = received_by i k"
    and e: "w_entries st' = w_entries st" "length (w_tasks st') = length (w_tasks st)"
      "w_tasks st' ! i = w_tasks st ! i" "posted i st' = posted i st"
    and u: "i mod R = i \<Longrightarrow> w_user st' = w_user st"
  shows "home_ok R nIters sz k' i st'"
  using assms by (simp add: home_ok_def Let_def)

lemma home_ok_received:
  assumes h: "home_ok R nIters sz k d st" and d: "d = Suc k mod 2" and i: "i \<in> posted d st"
    and c: "c = received_by d k" and st': "st' = received junk (d mod R) R nIters sz d c i m st"
  shows "home_ok R nIters sz (Suc k) d st'"
proof -
  have d2: "d < 2" using d by simp
  have H: "w_entries st = [entry_of_rank (d mod R) R nIters sz]" "d < length (w_tasks st)" "fresh_ok st"
    "c < 2 * series nIters" "is_singleton (posted d st)" "d mod R = d \<longrightarrow> w_user st = outs_after nIters d d c"
    using h i c by (auto simp: home_ok_def Let_def split: if_splits)
  note F = received_facts [OF H(3) i d2 H(2) st']
  have one: "posted d st = {i}" using H(5) i by (auto simp: is_singleton_def)
  have "outs_after nIters d d c = []" using H(4) by (simp add: outs_after_def)
  then show ?thesis
    using F(1-3,5,8,9) H one received_by_step(1) [OF d] c
    by (simp add: home_ok_def Let_def)
qed

lemma pg_inv_recv:
  assumes inv: "pg_inv R nIters sz s" and m: "matches R s r i m"
    and f: "foreach_recv junk [(i, Some m)] (ps_rank s r) = Inr st"
  shows "pg_inv R nIters sz (s\<lparr>ps_rank := (ps_rank s)(r := st),
      ps_wire := remove1 (r, m) (ps_wire s) @ new_sends (ps_rank s r) st, ps_handled := Suc (ps_handled s)\<rparr>)"
proof -
  define k where "k = ps_handled s"
  define d where "d = Suc k mod 2"
  define e where "e = Suc d mod 2"
  have R: "0 < R" using inv by (simp add: pg_inv_def)
  have w: "ps_wire s = [(d mod R, m)]" "r = d mod R" "wm_obj m = of_nat d" "wm_ep m = 0" "wm_tag m = int d"
    using inv m by (auto simp: pg_inv_def matches_def k_def d_def)
  have de: "d < 2" "e < 2" "e \<noteq> d" "Suc (Suc k) mod 2 = e" by (auto simp: d_def e_def mod_Suc)
  have H: "home_ok R nIters sz k x (ps_rank s (x mod R))" if "x < 2" for x
    using inv that by (auto simp: pg_inv_def k_def less_2_cases_iff)
  note hd = H [OF de(1)]
  have i: "i \<in> posted d (ps_rank s r)" using m w(2,5) by (auto simp: matches_def posted_def)
  have c: "received_by d k < 2 * series nIters"
    using hd i w(2) by (auto simp: home_ok_def Let_def split: if_splits)
  have st: "st = received junk (d mod R) R nIters sz d (received_by d k) i m (ps_rank s r)"
    using foreach_recv_one [of "ps_rank s r" "d mod R" R nIters sz d "received_by d k" m junk i] hd f c w de(1)
    by (simp add: home_ok_def Let_def)
  have hd': "home_ok R nIters sz (Suc k) d st"
    by (rule home_ok_received [OF hd [folded w(2)] d_def i refl st])
  have F: "fresh_ok (ps_rank s r)" "d < length (w_tasks (ps_rank s r))"
    using hd w(2) by (auto simp: home_ok_def Let_def)
  note R' = received_facts [OF F(1) i de(1) F(2) st]
  have other: "home_ok R nIters sz (Suc k) e (((ps_rank s)(r := st)) (e mod R))"
  proof (cases "e mod R = r")
    case False
    then show ?thesis using H [OF de(2)] received_by_step(2) [OF d_def de(2,3)]
      by (simp add: home_ok_def)
  next
    case True
    have "R = 1"
    proof (rule ccontr)
      assume "R \<noteq> 1"
      then have "e mod R = e" "d mod R = d" using R de by simp_all
      then show False using True w(2) de(3) by simp
    qed
    then have user: "e mod R = e \<Longrightarrow> w_user st = w_user (ps_rank s r)"
      using R'(5) de \<open>R = 1\<close> by (simp add: outs_after_def)
    have "home_ok R nIters sz (Suc k) e st"
      by (rule home_ok_other [OF H [OF de(2), unfolded True] R'(9) received_by_step(2) [OF d_def de(2,3)]
            R'(1,2) R'(4) [OF de(3)] R'(7) [OF de(3)] user])
    then show ?thesis using True by simp
  qed
  have dd: "home_ok R nIters sz (Suc k) d (((ps_rank s)(r := st)) (d mod R))" using hd' w(2) by simp
  have both: "home_ok R nIters sz (Suc k) x (((ps_rank s)(r := st)) (x mod R))" if "x < 2" for x
    using dd other that de by (metis less_2_cases_iff)
  have "Suc k \<le> 4 * series nIters" by (rule received_by_less [OF d_def c])
  moreover have "remove1 (r, m) (ps_wire s) @ new_sends (ps_rank s r) st
      = [(e mod R, set_properties (of_nat e) 0 (int e) m)]"
    using w(1,2) R'(6) by (simp add: e_def)
  ultimately show ?thesis
    using R both [of 0] both [of 1] de(4) by (simp add: pg_inv_def k_def [symmetric] set_properties_def)
qed

lemma pg_inv_sent:
  assumes inv: "pg_inv R nIters sz s"
  shows "pg_inv R nIters sz (s\<lparr>ps_rank := (ps_rank s)(r := foreach_send ts (ps_rank s r))\<rparr>)"
proof -
  have f: "fresh_ok (foreach_send ts st)" if "fresh_ok st" for st :: "'a pg_rank"
  proof -
    have *: "A \<union> C' \<subseteq> N \<and> A \<inter> C' = {}" if "A \<union> C \<subseteq> N \<and> A \<inter> C = {}" "C' \<subseteq> C" for A C C' N :: "nat set"
      using that by blast
    have sub: "dom (w_sends (foreach_send ts st)) \<subseteq> dom (w_sends st)"
      by (auto simp: foreach_send_def split: if_splits)
    have e: "w_receives (foreach_send ts st) = w_receives st" "w_next (foreach_send ts st) = w_next st"
      by (simp_all add: foreach_send_def)
    show ?thesis using * [OF that [unfolded fresh_ok_def pending_def] sub] by (simp only: fresh_ok_def pending_def e)
  qed
  have "home_ok R nIters sz k i (foreach_send ts st)" if "home_ok R nIters sz k i st"
    for k i and st :: "'a pg_rank"
    by (rule home_ok_other [OF that f refl]) (use that in \<open>simp_all add: home_ok_def Let_def foreach_send_def posted_def\<close>)
  then show ?thesis using inv by (auto simp: pg_inv_def)
qed

lemmas pg_main_defs = pg_main_def pg_empty_def pg_construct_def request_sized_def request_buf_def
  w_send_def w_allocate_def set_properties_def Let_def

lemma sent_of_main:
  "sent_of (w_calls (pg_main junk r R nIters sz)) = (if r = 0 then
     [(1 mod R, set_properties 1 0 1 (w_allocate junk sz))] else [])"
  by (auto simp: pg_main_defs)

lemma start_wire:
  assumes "0 < R"
  shows "ps_wire (pg_start junk R nIters sz) = [(1 mod R, set_properties 1 0 1 (w_allocate junk sz))]"
proof -
  have "[0..<R] = 0 # [1..<R]" using assms by (simp add: upt_conv_Cons)
  moreover have "concat (map (\<lambda>r. sent_of (w_calls (pg_main junk r R nIters sz))) [1..<R]) = []"
    by (auto simp: sent_of_main)
  ultimately show ?thesis by (simp add: pg_start_def sent_of_main)
qed

lemma pg_inv_start:
  assumes R: "0 < R"
  shows "pg_inv R nIters sz (pg_start junk R nIters sz)"
proof -
  note N = series_ge [of nIters]
  have t: "task_after nIters i 0 = new_pingpong i" for i
    using N by (simp add: task_after_def new_pingpong_def)
  have o: "outs_after nIters i i 0 = []" for i using N by (simp add: outs_after_def)
  have "home_ok R nIters sz 0 i (pg_main junk (i mod R) R nIters sz)" if i: "i < 2" for i
  proof (cases "R = 1")
    case True
    have "posted 0 (pg_main junk 0 1 nIters sz) = {0}" "posted 1 (pg_main junk 0 1 nIters sz) = {1}"
      by (auto simp: posted_def pg_main_defs split: if_splits)
    then show ?thesis using True i N t o
      by (auto simp: home_ok_def received_by_def less_2_cases_iff entry_of_rank_def pg_main_defs fresh_ok_def
          pending_def split: if_splits)
  next
    case False
    then have m: "i mod R = i" using i R by simp
    have "posted i (pg_main junk i R nIters sz) = {0}"
      using i False by (auto simp: posted_def pg_main_defs less_2_cases_iff split: if_splits)
    then show ?thesis using False i N t o unfolding m
      by (auto simp: home_ok_def received_by_def less_2_cases_iff entry_of_rank_def pg_main_defs fresh_ok_def
          pending_def split: if_splits)
  qed
  from this [of 0] this [of 1] show ?thesis
    using R start_wire [OF R, of junk nIters sz]
    by (simp add: pg_inv_def pg_start_def set_properties_def)
qed

interpretation pingpong_safety: safety
    "\<lambda>s. 0 < R \<and> s = pg_start junk R nIters sz" "pg_step junk R" "pg_inv R nIters sz" for junk R nIters sz
proof
  show "pg_inv R nIters sz s" if "0 < R \<and> s = pg_start junk R nIters sz" for s
    using that pg_inv_start by blast
  show "pg_inv R nIters sz s'" if "pg_inv R nIters sz s" "pg_step junk R s s'" for s s'
    using that(2)
  proof cases
    case (pg_recv r i m st)
    then show ?thesis using pg_inv_recv [OF that(1)] by simp
  next
    case (pg_sent r i)
    then show ?thesis using pg_inv_sent [OF that(1)] by simp
  qed
qed

text \<open>
  C20. On any number of ranks the program handles at most four series of \<open>nIters\<close> receives (two by each
  task; at least one per series), a matching receive never fails and its rank is still running, and while fewer are handled a receive is
  possible. When none is, exactly that many were handled, the time was printed once on rank 0,
  which has stopped, and so has rank 1 when there is one; and one message, the last one
  sent, is on its way to task 1, which no longer waits for it.
\<close>

theorem pingpong_ends:
  assumes "pg_reach junk R nIters sz s" and "0 < R"
  shows "ps_handled s \<le> 4 * nat (max 1 nIters) \<and>
    (\<forall>r i m. matches R s r i m \<longrightarrow> pg_running (ps_rank s r) \<and>
      (\<exists>st. foreach_recv junk [(i, Some m)] (ps_rank s r) = Inr st)) \<and>
    ((\<exists>r i m. matches R s r i m) \<longleftrightarrow> ps_handled s < 4 * nat (max 1 nIters)) \<and>
    (ps_handled s = 4 * nat (max 1 nIters) \<longrightarrow> w_user (ps_rank s 0) = [Print, StopRank] \<and>
      (1 < R \<longrightarrow> w_user (ps_rank s 1) = [StopRank]) \<and> (\<exists>m. ps_wire s = [(1 mod R, m)]))"
proof -
  let ?N = "series nIters"
  have N: "nat (max 1 nIters) = ?N" by (simp add: series_def)
  have "reach (\<lambda>s. 0 < R \<and> s = pg_start junk R nIters sz) (pg_step junk R) s"
    using assms by (simp add: pg_reach_def)
  then have inv: "pg_inv R nIters sz s" by (rule pingpong_safety.reach_inv)
  define k where "k = ps_handled s"
  define d where "d = Suc k mod 2"
  have d2: "d < 2" by (simp add: d_def)
  have H: "home_ok R nIters sz k x (ps_rank s (x mod R))" if "x < 2" for x
    using inv that by (auto simp: pg_inv_def k_def less_2_cases_iff)
  obtain m where w: "ps_wire s = [(d mod R, m)]" "wm_obj m = of_nat d" "wm_ep m = 0" "wm_tag m = int d"
    using inv by (auto simp: pg_inv_def k_def d_def)
  have le: "k \<le> 4 * ?N" using inv by (simp add: pg_inv_def k_def)
  let ?st = "ps_rank s (d mod R)"
  have mt: "matches R s r i m' \<longleftrightarrow> r = d mod R \<and> m' = m \<and> i \<in> posted d ?st" for r i m'
    using w assms(2) by (auto simp: matches_def posted_def)
  have run: "\<exists>st. foreach_recv junk [(i, Some m')] (ps_rank s r) = Inr st" if "matches R s r i m'" for r i m'
  proof -
    have "received_by d k < 2 * ?N" using that mt H [OF d2] by (auto simp: home_ok_def Let_def split: if_splits)
    then show ?thesis
      using foreach_recv_one [of ?st "d mod R" R nIters sz d "received_by d k" m junk i] H [OF d2] d2 w that mt
      by (auto simp: home_ok_def Let_def)
  qed
  have on: "pg_running (ps_rank s r)" if "matches R s r i m'" for r i m'
  proof -
    have r: "r = d mod R" and c: "received_by d k < 2 * ?N" using that mt H [OF d2] by (auto simp: home_ok_def Let_def split: if_splits)
    show ?thesis
    proof (cases "R = 1")
      case True
      have "received_by 0 k \<le> received_by d k" using d_def by (auto simp: received_by_def)
      then have "received_by 0 k \<noteq> 2 * ?N" using c by simp
      then show ?thesis using True r H [of 0] by (simp add: home_ok_def Let_def outs_after_def pg_running_def)
    next
      case False
      then have m: "d mod R = d" using assms(2) d2 by simp
      then show ?thesis using r c H [OF d2] m by (simp add: home_ok_def Let_def outs_after_def pg_running_def)
    qed
  qed
  have ex: "(\<exists>r i m. matches R s r i m) \<longleftrightarrow> k < 4 * ?N"
  proof (cases "received_by d k < 2 * ?N")
    case True
    then obtain a where "posted d ?st = {a}" using H [OF d2] by (auto simp: home_ok_def Let_def is_singleton_def)
    then show ?thesis using mt received_by_less [OF d_def True] by auto
  next
    case False
    then have "posted d ?st = {}" using H [OF d2] by (simp add: home_ok_def Let_def)
    then show ?thesis using mt received_by_over [OF d_def False le] by auto
  qed
  have fin: "w_user (ps_rank s 0) = [Print, StopRank] \<and> (1 < R \<longrightarrow> w_user (ps_rank s 1) = [StopRank]) \<and>
      (\<exists>m. ps_wire s = [(1 mod R, m)])" if k: "k = 4 * ?N"
  proof -
    have "d = 1" unfolding d_def k by presburger
    moreover have "received_by 0 k = 2 * ?N" "received_by 1 k = 2 * ?N" using k by (simp_all add: received_by_def)
    ultimately show ?thesis using H [of 0] H [of 1] w(1) by (auto simp: home_ok_def Let_def outs_after_def)
  qed
  show ?thesis unfolding N using le run on ex fin unfolding k_def by blast
qed

section \<open>Instances\<close>

definition blank :: "unit wmsg" where
  "blank = \<lparr>wm_obj = 0, wm_ep = 0, wm_size = 0, wm_tag = 0, wm_body = ()\<rparr>"

lemma pingpong_ends_witness:
  "\<exists>r i m. matches 2 (pg_start blank 2 128 1024) r i m"
proof -
  have r: "pg_reach blank 2 128 1024 (pg_start blank 2 128 1024)"
    unfolding pg_reach_def by (rule reach_init) simp
  show ?thesis using pingpong_ends [OF r] by (simp add: pg_start_def)
qed

text \<open>Rank 1 receives the first message, in one pass of its loop, while its send is pending.\<close>

definition ball :: "unit wmsg" where
  "ball = set_properties 1 0 1 (w_allocate blank 1024)"

lemma run_once_requests_witness:
  "\<exists>st. run_once blank [] [(0, Some ball)] [] (pg_main blank 1 2 128 1024) = Inr st \<and>
    w_log st = [ball] \<and> fresh_ok st"
proof -
  let ?st = "pg_main blank 1 2 128 1024"
  have e: "foreach_send [] st = st" for st :: "unit pg_rank" by (simp add: foreach_send_def)
  have f: "fresh_ok ?st" by (auto simp: fresh_ok_def pending_def pg_main_defs split: if_splits)
  have v: "visits_ok blank [(0, Some ball)] ?st" by (simp add: pg_main_defs)
  have "w_tasks ?st ! 1 = Some (task_after 128 1 0)"
    by (simp add: pg_main_defs task_after_def new_pingpong_def series_def)
  then have "foreach_recv blank [(0, Some ball)] ?st = Inr (received blank 1 2 128 1024 1 0 0 ball ?st)"
    by (intro foreach_recv_one) (simp_all add: pg_main_defs entry_of_rank_def series_def ball_def)
  then have r: "run_once blank [] [(0, Some ball)] [] ?st = Inr (received blank 1 2 128 1024 1 0 0 ball ?st)"
    by (simp add: run_once_def e)
  have l: "w_log ?st = []" by (simp add: pg_main_defs)
  show ?thesis using run_once_requests [OF r f] v r l by (simp add: e)
qed

end
