(* ===== verification/Comex.thy ===== *)
theory Comex
  imports Prelude
begin

text \<open>
  \<open>archive/tests/comex\<close>: components with typed input and output ports. A component collects values
  until every input port has one, runs its action on the set, and relays the results to the
  components its outputs are wired to, in the same call. \<open>component.hh\<close>, \<open>outbox.hh\<close>, \<open>values.hh\<close> and
  \<open>locality.hh\<close>; the programs that use them are in \<open>Comex_Tester\<close>.
\<close>

section \<open>Calls that may recur\<close>

text \<open>
  A relay calls the receiving component before it returns, so a cycle of wires may recur for
  ever: \<open>None\<close> says that the fuel was not enough.
\<close>

text \<open>Calls one after another.\<close>

fun run_all :: "('e \<Rightarrow> 's \<Rightarrow> 's run) \<Rightarrow> 'e list \<Rightarrow> 's \<Rightarrow> 's run" where
  "run_all f [] s = Some (Inr s)"
| "run_all f (e # es) s = bind_run (f e s) (run_all f es)"

lemma run_all_append: "run_all f (es @ es') s = bind_run (run_all f es s) (run_all f es')"
  by (induction es arbitrary: s) (simp_all add: bind_run_assoc fun_eq_iff cong: bind_run_cong)

section \<open>Components\<close>

text \<open>
  A value is null or not; a set of inputs is a list of values, the port its index. \<open>co_action\<close> is the user's
  code: the values for the output ports, and what it prints. \<open>co_version\<close> counts the changes
  of the deque \<open>incoming_\<close> that invalidate iterators.
\<close>

record ('v, 'ty, 'x) component =
  co_types :: "'ty list"
  co_active :: bool
  co_activated :: bool
  co_persistent :: bool
  co_incoming :: "'v option list list"
  co_version :: nat
  co_buffer :: "'v option list list"
  co_conn :: "(nat \<times> nat) option list"
  co_action :: "'v option list \<Rightarrow> 'v option list \<times> 'x list"

definition n_inputs :: "('v, 'ty, 'x) component \<Rightarrow> nat" where
  "n_inputs c = length (co_types c)"

definition new_component ::
  "'ty list \<Rightarrow> nat \<Rightarrow> ('v option list \<Rightarrow> 'v option list \<times> 'x list) \<Rightarrow> ('v, 'ty, 'x) component" where
  "new_component types outs act = \<lparr>co_types = types, co_active = False, co_activated = False,
     co_persistent = False, co_incoming = [], co_version = 0, co_buffer = replicate outs [],
     co_conn = replicate outs None, co_action = act\<rparr>"

text \<open>
  The components of one locality by their ids, the balance of \<open>QdCreate\<close> and \<open>QdProcess\<close>, what was printed,
  and how often \<open>notify_listeners_\<close> was called. \<open>lo_log\<close>, a history variable, has the sets
  that actions were run on.
\<close>

record ('v, 'ty, 'x) locality =
  lo_comps :: "nat \<Rightarrow> ('v, 'ty, 'x) component option"
  lo_qd :: int
  lo_out :: "'x list"
  lo_notes :: nat
  lo_log :: "(nat \<times> 'v option list) list"

type_synonym ('v, 'ty, 'x) relay = "nat \<Rightarrow> nat \<Rightarrow> 'v option \<Rightarrow> ('v, 'ty, 'x) locality \<Rightarrow> ('v, 'ty, 'x) locality run"

text \<open>\<open>components_[com]\<close> inserts a null pointer when there is no component; it is dereferenced at once.\<close>

definition with_comp ::
  "nat \<Rightarrow> ('v, 'ty, 'x) locality \<Rightarrow> (('v, 'ty, 'x) component \<Rightarrow> 'a run) \<Rightarrow> 'a run" where
  "with_comp com st f = (case lo_comps st com of None \<Rightarrow> Some (Inl BadPointer) | Some c \<Rightarrow> f c)"

definition set_comp ::
  "nat \<Rightarrow> ('v, 'ty, 'x) component \<Rightarrow> ('v, 'ty, 'x) locality \<Rightarrow> ('v, 'ty, 'x) locality" where
  "set_comp com c st = st\<lparr>lo_comps := (lo_comps st)(com \<mapsto> c)\<rparr>"

definition qd_add :: "int \<Rightarrow> ('v, 'ty, 'x) locality \<Rightarrow> ('v, 'ty, 'x) locality" where
  "qd_add k st = st\<lparr>lo_qd := lo_qd st + k\<rparr>"

section \<open>Outboxes\<close>

definition connector_relay ::
  "('v, 'ty, 'x) relay \<Rightarrow> (nat \<times> nat) option \<Rightarrow> 'v option \<Rightarrow> ('v, 'ty, 'x) locality \<Rightarrow> ('v, 'ty, 'x) locality run" where
  "connector_relay relay con v st =
     (case con of None \<Rightarrow> Some (Inl Aborted) | Some (com, port) \<Rightarrow> relay com port v st)"

definition outbox_deliver ::
  "('v, 'ty, 'x) relay \<Rightarrow> nat \<Rightarrow> nat \<Rightarrow> 'v option \<Rightarrow> ('v, 'ty, 'x) locality \<Rightarrow> ('v, 'ty, 'x) locality run" where
  "outbox_deliver relay com i v st = with_comp com st (\<lambda>c.
     if co_conn c ! i \<noteq> None then connector_relay relay (co_conn c ! i) v st
     else Some (Inr (set_comp com (c\<lparr>co_buffer := (co_buffer c)[i := co_buffer c ! i @ [v]]\<rparr>) st)))"

text \<open>\<open>unspool_\<close> goes from the last port to the first; the number is one more than the port.\<close>

fun unspool ::
  "('v, 'ty, 'x) relay \<Rightarrow> nat \<Rightarrow> 'v option list \<Rightarrow> nat \<Rightarrow> ('v, 'ty, 'x) locality \<Rightarrow> ('v, 'ty, 'x) locality run" where
  "unspool relay com vs 0 st = Some (Inr st)"
| "unspool relay com vs (Suc i) st =
     bind_run (outbox_deliver relay com i (vs ! i) st) (unspool relay com vs i)"

text \<open>The outbox of a component without outputs is never empty.\<close>

definition outbox_empty :: "('v, 'ty, 'x) component \<Rightarrow> bool" where
  "outbox_empty c = (if co_buffer c = [] then False else list_all (\<lambda>b. b = []) (co_buffer c))"

definition connect_to ::
  "nat \<Rightarrow> nat \<Rightarrow> nat \<Rightarrow> ('v, 'ty, 'x) component \<Rightarrow> bool \<times> ('v, 'ty, 'x) component" where
  "connect_to i com port c = (co_conn c ! i \<noteq> None, c\<lparr>co_conn := (co_conn c)[i := Some (com, port)]\<rparr>)"

text \<open>The loop of \<open>try_flush\<close>, with the number of its rounds as fuel; the value stays at the front while it is relayed.\<close>

fun try_flush ::
  "('v, 'ty, 'x) relay \<Rightarrow> nat \<Rightarrow> nat \<Rightarrow> nat \<Rightarrow> ('v, 'ty, 'x) locality \<Rightarrow> ('v, 'ty, 'x) locality run" where
  "try_flush relay 0 com i st = None"
| "try_flush relay (Suc k) com i st = with_comp com st (\<lambda>c.
     case co_buffer c ! i of
       [] \<Rightarrow> Some (Inr st)
     | v # vs \<Rightarrow> bind_run (connector_relay relay (co_conn c ! i) v st) (\<lambda>st1. with_comp com st1 (\<lambda>c1.
         try_flush relay k com i (set_comp com (c1\<lparr>co_buffer := (co_buffer c1)[i := tl (co_buffer c1 ! i)]\<rparr>) st1))))"

section \<open>Input sets\<close>

definition is_ready :: "'v option list \<Rightarrow> bool" where
  "is_ready s \<longleftrightarrow> list_all (\<lambda>v. v \<noteq> None) s"

text \<open>The first set that is ready, from the front of the deque, and the first without a value for port \<open>i\<close>, from its back.\<close>

fun find_ready :: "'v option list list \<Rightarrow> nat option" where
  "find_ready [] = None"
| "find_ready (s # ss) = (if is_ready s then Some 0 else map_option Suc (find_ready ss))"

fun find_gap :: "nat \<Rightarrow> 'v option list list \<Rightarrow> nat option" where
  "find_gap i [] = None"
| "find_gap i (s # ss) =
     (case find_gap i ss of Some k \<Rightarrow> Some (Suc k) | None \<Rightarrow> if s ! i = None then Some 0 else None)"

text \<open>\<open>stage_action\<close> on a set: whether it was consumed.\<close>

definition stage_set ::
  "('v, 'ty, 'x) relay \<Rightarrow> nat \<Rightarrow> 'v option list \<Rightarrow> ('v, 'ty, 'x) locality \<Rightarrow> (bool \<times> ('v, 'ty, 'x) locality) run" where
  "stage_set relay com s st = with_comp com st (\<lambda>c.
     if co_active c then
       (let (res, xs) = co_action c s;
            st1 = st\<lparr>lo_out := lo_out st @ xs, lo_log := lo_log st @ [(com, s)]\<rparr>
        in bind_run (unspool relay com res (length (co_buffer c)) st1) (\<lambda>st2. with_comp com st2 (\<lambda>c2.
             let st3 = set_comp com (c2\<lparr>co_active := co_persistent c2\<rparr>) st2
             in Some (Inr (True, if co_persistent c2 then st3 else st3\<lparr>lo_notes := Suc (lo_notes st3)\<rparr>)))))
     else Some (Inr (False, st)))"

text \<open>\<open>stage_action\<close> on an iterator, the index \<open>k\<close>: using it after the deque has changed is a fault.\<close>

definition stage_action ::
  "('v, 'ty, 'x) relay \<Rightarrow> nat \<Rightarrow> nat \<Rightarrow> ('v, 'ty, 'x) locality \<Rightarrow> ('v, 'ty, 'x) locality run" where
  "stage_action relay com k st = with_comp com st (\<lambda>c.
     bind_run (stage_set relay com (co_incoming c ! k) st) (\<lambda>(consumed, st1).
       if \<not> consumed then Some (Inr st1)
       else with_comp com st1 (\<lambda>c1.
         if co_version c1 \<noteq> co_version c then Some (Inl BadPointer)
         else Some (Inr (qd_add (- int (n_inputs c1)) (set_comp com (c1\<lparr>
           co_incoming := take k (co_incoming c1) @ drop (Suc k) (co_incoming c1),
           co_version := Suc (co_version c1)\<rparr>) st1))))))"

definition push_set :: "'v option list \<Rightarrow> ('v, 'ty, 'x) component \<Rightarrow> ('v, 'ty, 'x) component" where
  "push_set s c = c\<lparr>co_incoming := s # co_incoming c, co_version := Suc (co_version c)\<rparr>"

definition buffer_ready_set ::
  "nat \<Rightarrow> 'v option list \<Rightarrow> ('v, 'ty, 'x) locality \<Rightarrow> ('v, 'ty, 'x) locality run" where
  "buffer_ready_set com s st = with_comp com st (\<lambda>c.
     Some (Inr (qd_add (int (n_inputs c)) (set_comp com (push_set s c) st))))"

definition direct_stage ::
  "('v, 'ty, 'x) relay \<Rightarrow> nat \<Rightarrow> 'v option \<Rightarrow> ('v, 'ty, 'x) locality \<Rightarrow> ('v, 'ty, 'x) locality run" where
  "direct_stage relay com v st =
     (if v = None then Some (Inl Aborted)
      else bind_run (stage_set relay com [v] st) (\<lambda>(consumed, st1).
        if consumed then Some (Inr st1) else buffer_ready_set com [v] st1))"

text \<open>\<open>component::accept\<close> of a value of the port's type.\<close>

definition accept_typed ::
  "('v, 'ty, 'x) relay \<Rightarrow> nat \<Rightarrow> nat \<Rightarrow> 'v option \<Rightarrow> ('v, 'ty, 'x) locality \<Rightarrow> ('v, 'ty, 'x) locality run" where
  "accept_typed relay com i v st = with_comp com st (\<lambda>c.
     if n_inputs c = 1 then direct_stage relay com v st
     else if v \<noteq> None then
       (case find_gap i (co_incoming c) of
          None \<Rightarrow> Some (Inr (qd_add 1 (set_comp com (push_set ((replicate (n_inputs c) None)[i := v]) c) st)))
        | Some k \<Rightarrow>
            (let s = (co_incoming c ! k)[i := v];
                 st1 = qd_add 1 (set_comp com (c\<lparr>co_incoming := (co_incoming c)[k := s]\<rparr>) st)
             in if is_ready s then stage_action relay com k st1 else Some (Inr st1)))
     else Some (Inl Aborted))"

text \<open>
  \<open>component_base_::accept\<close>: of a value, with the check of its type (a \<open>void\<close> value has none), and of a message,
  whose bytes are read at the port's type; \<open>vt\<close> gives the type of a value. Messages to \<open>void\<close> ports are left out.
\<close>

definition accept_value ::
  "('v \<Rightarrow> 'ty option) \<Rightarrow> ('v, 'ty, 'x) relay \<Rightarrow> nat \<Rightarrow> nat \<Rightarrow> 'v option \<Rightarrow> ('v, 'ty, 'x) locality
    \<Rightarrow> ('v, 'ty, 'x) locality run" where
  "accept_value vt relay com port v st = with_comp com st (\<lambda>c.
     case v of
       None \<Rightarrow> Some (Inl BadPointer)
     | Some x \<Rightarrow>
         if vt x \<noteq> None \<and> port < n_inputs c \<and> vt x = Some (co_types c ! port)
         then accept_typed relay com port v st else Some (Inl Aborted))"

definition accept_msg ::
  "('v \<Rightarrow> 'ty option) \<Rightarrow> ('v, 'ty, 'x) relay \<Rightarrow> nat \<Rightarrow> nat \<Rightarrow> 'v \<Rightarrow> ('v, 'ty, 'x) locality
    \<Rightarrow> ('v, 'ty, 'x) locality run" where
  "accept_msg vt relay com port x st = with_comp com st (\<lambda>c.
     if \<not> port < n_inputs c then Some (Inl AssertFailed)
     else if vt x \<noteq> Some (co_types c ! port) then Some (Inl BadPointer)
     else accept_typed relay com port (Some x) st)"

text \<open>A locality's \<open>accept\<close>, which relays go through: \<open>k\<close> bounds how deep they nest.\<close>

fun relay_value ::
  "('v \<Rightarrow> 'ty option) \<Rightarrow> nat \<Rightarrow> ('v, 'ty, 'x) relay" where
  "relay_value vt 0 com port v st = None"
| "relay_value vt (Suc k) com port v st = accept_value vt (relay_value vt k) com port v st"

section \<open>Wiring and activation\<close>

definition output_to ::
  "('v, 'ty, 'x) relay \<Rightarrow> nat \<Rightarrow> nat \<Rightarrow> nat \<Rightarrow> nat \<Rightarrow> nat \<Rightarrow> ('v, 'ty, 'x) locality \<Rightarrow> ('v, 'ty, 'x) locality run" where
  "output_to relay fuel com i peer port st = with_comp com st (\<lambda>c.
     let (prev, c1) = connect_to i peer port c; st1 = set_comp com c1 st
     in if co_active c1 \<and> prev then Some (Inl AssertFailed)
        else if co_active c1 then try_flush relay fuel com i st1
        else Some (Inr st1))"

definition collectible :: "('v, 'ty, 'x) component \<Rightarrow> bool" where
  "collectible c \<longleftrightarrow> co_activated c \<and> \<not> co_active c \<and> outbox_empty c"

text \<open>The loop of \<open>activate\<close>, with the number of its rounds as fuel.\<close>

fun activate_loop ::
  "('v, 'ty, 'x) relay \<Rightarrow> nat \<Rightarrow> nat \<Rightarrow> ('v, 'ty, 'x) locality \<Rightarrow> ('v, 'ty, 'x) locality run" where
  "activate_loop relay 0 com st = None"
| "activate_loop relay (Suc k) com st = with_comp com st (\<lambda>c.
     if \<not> co_active c then Some (Inr st)
     else case find_ready (co_incoming c) of
       None \<Rightarrow> Some (Inr st)
     | Some j \<Rightarrow> bind_run (stage_action relay com j st) (activate_loop relay k com))"

definition activate ::
  "('v, 'ty, 'x) relay \<Rightarrow> nat \<Rightarrow> nat \<Rightarrow> ('v, 'ty, 'x) locality \<Rightarrow> ('v, 'ty, 'x) locality run" where
  "activate relay fuel com st = with_comp com st (\<lambda>c.
     if co_active c then Some (Inl AssertFailed)
     else activate_loop relay fuel com (set_comp com (c\<lparr>co_active := True, co_activated := True\<rparr>) st))"

end
