(* ===== verification/Comex_Props.thy ===== *)
theory Comex_Props
  imports Comex
begin

text \<open>
  What holds of every locality of components, however they are wired: quiescence detection counts
  exactly the values that wait in incomplete sets, and no iterator is used after it was invalidated
  without a fault.
\<close>

section \<open>The balance of quiescence detection\<close>

definition filled :: "'v option list \<Rightarrow> nat" where
  "filled s = length (filter (\<lambda>v. v \<noteq> None) s)"

definition held :: "('v, 'ty, 'x) component \<Rightarrow> nat" where
  "held c = sum_list (map filled (co_incoming c))"

definition comp_ok :: "('v, 'ty, 'x) component \<Rightarrow> bool" where
  "comp_ok c \<longleftrightarrow> (\<forall>s \<in> set (co_incoming c). length s = n_inputs c)"

definition balanced :: "('v, 'ty, 'x) locality \<Rightarrow> bool" where
  "balanced st \<longleftrightarrow> finite (dom (lo_comps st)) \<and> (\<forall>com c. lo_comps st com = Some c \<longrightarrow> comp_ok c) \<and>
     lo_qd st = (\<Sum>com\<in>dom (lo_comps st). int (held (the (lo_comps st com))))"

text \<open>What a call keeps of a component: its ports, and, if no iterator was invalidated, its complete sets.\<close>

definition kept :: "('v, 'ty, 'x) component \<Rightarrow> ('v, 'ty, 'x) component \<Rightarrow> bool" where
  "kept c c' \<longleftrightarrow> co_types c' = co_types c \<and> co_version c \<le> co_version c' \<and>
     (co_version c' = co_version c \<longrightarrow> length (co_incoming c') = length (co_incoming c) \<and>
       (\<forall>k < length (co_incoming c). is_ready (co_incoming c ! k) \<longrightarrow> co_incoming c' ! k = co_incoming c ! k))"

definition grows :: "('v, 'ty, 'x) locality \<Rightarrow> ('v, 'ty, 'x) locality \<Rightarrow> bool" where
  "grows st st' \<longleftrightarrow> balanced st' \<and>
     (\<forall>com c. lo_comps st com = Some c \<longrightarrow> (\<exists>c'. lo_comps st' com = Some c' \<and> kept c c'))"

lemma kept_refl: "kept c c"
  by (simp add: kept_def)

lemma kept_trans: "kept c c1 \<Longrightarrow> kept c1 c2 \<Longrightarrow> kept c c2"
  unfolding kept_def by (auto dest: le_antisym)

lemma grows_refl: "balanced st \<Longrightarrow> grows st st"
  by (simp add: grows_def kept_refl)

lemma grows_trans: "grows st st1 \<Longrightarrow> grows st1 st2 \<Longrightarrow> grows st st2"
  unfolding grows_def by (meson kept_trans)

lemma grows_balanced: "grows st st' \<Longrightarrow> balanced st'"
  by (simp add: grows_def)

lemma grows_comp:
  assumes "grows st st'" and "lo_comps st com = Some c"
  obtains c' where "lo_comps st' com = Some c'" "kept c c'" "n_inputs c' = n_inputs c"
  using assms unfolding grows_def kept_def n_inputs_def by metis

text \<open>A relay that keeps this, and the operations over such a relay.\<close>

definition safe_relay :: "('v, 'ty, 'x) relay \<Rightarrow> bool" where
  "safe_relay relay \<longleftrightarrow> (\<forall>com port v st st'. balanced st \<longrightarrow> relay com port v st = Some (Inr st') \<longrightarrow> grows st st')"

lemma with_comp_Inr: "with_comp com st f = Some (Inr x) \<longleftrightarrow> (\<exists>c. lo_comps st com = Some c \<and> f c = Some (Inr x))"
  by (simp add: with_comp_def split: option.split)

text \<open>One component is replaced, and the counter follows.\<close>

lemma grows_set:
  assumes b: "balanced st" and c: "lo_comps st com = Some c" and k: "kept c c'" and ok: "comp_ok c'"
    and q: "int (held c') = int (held c) + d"
  shows "grows st (qd_add d (set_comp com c' st))"
proof -
  let ?m = "lo_comps st"
  have f: "finite (dom ?m)" and qd: "lo_qd st = (\<Sum>i\<in>dom ?m. int (held (the (?m i))))"
    using b by (simp_all add: balanced_def)
  have i: "com \<in> dom ?m" using c by blast
  have "(\<Sum>i\<in>dom ?m. int (held (the ((?m(com \<mapsto> c')) i)))) = int (held c') + (\<Sum>i\<in>dom ?m - {com}. int (held (the (?m i))))"
    using f i by (simp add: sum.remove)
  moreover have "lo_qd st = int (held c) + (\<Sum>i\<in>dom ?m - {com}. int (held (the (?m i))))"
    using f i c by (simp add: qd sum.remove)
  ultimately have "lo_qd st + d = (\<Sum>i\<in>dom ?m. int (held (the ((?m(com \<mapsto> c')) i))))" using q by simp
  then have "balanced (qd_add d (set_comp com c' st))"
    using b ok i by (simp add: balanced_def qd_add_def set_comp_def insert_absorb)
  then show ?thesis using c k kept_refl by (auto simp: grows_def qd_add_def set_comp_def)
qed

lemma qd_add_0 [simp]: "qd_add 0 st = st"
  by (simp add: qd_add_def)

lemma grows_same:
  assumes "balanced st" and "lo_comps st com = Some c" and "co_types c' = co_types c"
    and "co_incoming c' = co_incoming c" and "co_version c' = co_version c"
  shows "grows st (set_comp com c' st)"
proof -
  have "comp_ok c" using assms(1,2) by (simp add: balanced_def)
  then show ?thesis
    using grows_set [OF assms(1,2), of c' 0] assms(3-5)
    by (simp add: kept_def comp_ok_def held_def n_inputs_def)
qed

lemma grows_other:
  assumes "balanced st" and "lo_comps st' = lo_comps st" and "lo_qd st' = lo_qd st"
  shows "grows st st'"
  using assms by (simp add: grows_def balanced_def kept_refl)

lemma connector_relay_safe:
  "safe_relay relay \<Longrightarrow> balanced st \<Longrightarrow> connector_relay relay con v st = Some (Inr st') \<Longrightarrow> grows st st'"
  by (auto simp: connector_relay_def safe_relay_def split: option.splits prod.splits)

lemma outbox_deliver_safe:
  assumes "safe_relay relay" and "balanced st" and "outbox_deliver relay com i v st = Some (Inr st')"
  shows "grows st st'"
  using assms connector_relay_safe [OF assms(1,2)] grows_same [OF assms(2)]
  by (fastforce simp: outbox_deliver_def with_comp_Inr split: if_splits)

lemma unspool_safe:
  "safe_relay relay \<Longrightarrow> balanced st \<Longrightarrow> unspool relay com vs n st = Some (Inr st') \<Longrightarrow> grows st st'"
proof (induction n arbitrary: st)
  case (Suc n)
  then obtain st1 where 1: "outbox_deliver relay com n (vs ! n) st = Some (Inr st1)" "unspool relay com vs n st1 = Some (Inr st')"
    by (auto simp: bind_run_Inr_iff)
  have "grows st st1" using outbox_deliver_safe [OF Suc.prems(1,2) 1(1)] .
  then show ?case using Suc.IH [OF Suc.prems(1) _ 1(2)] grows_trans grows_balanced by blast
qed (simp add: grows_refl)

lemma try_flush_safe:
  "safe_relay relay \<Longrightarrow> balanced st \<Longrightarrow> try_flush relay k com i st = Some (Inr st') \<Longrightarrow> grows st st'"
proof (induction k arbitrary: st)
  case (Suc k)
  obtain c where c: "lo_comps st com = Some c" using Suc.prems(3) by (auto simp: with_comp_Inr)
  show ?case
  proof (cases "co_buffer c ! i")
    case Nil
    then show ?thesis using Suc.prems c by (simp add: with_comp_def grows_refl)
  next
    case (Cons v vs)
    then obtain st1 c1 where 1: "connector_relay relay (co_conn c ! i) v st = Some (Inr st1)" "lo_comps st1 com = Some c1"
      "try_flush relay k com i (set_comp com (c1\<lparr>co_buffer := (co_buffer c1)[i := tl (co_buffer c1 ! i)]\<rparr>) st1) = Some (Inr st')"
      using Suc.prems(3) [unfolded try_flush.simps with_comp_Inr bind_run_Inr_iff] c Cons
      by (auto simp only: list.case option.inject bind_run_Inr_iff with_comp_Inr)
    have g: "grows st st1" by (rule connector_relay_safe [OF Suc.prems(1,2) 1(1)])
    have g1: "grows st1 (set_comp com (c1\<lparr>co_buffer := (co_buffer c1)[i := tl (co_buffer c1 ! i)]\<rparr>) st1)"
      by (rule grows_same [OF grows_balanced [OF g] 1(2)]) simp_all
    show ?thesis
      using Suc.IH [OF Suc.prems(1) grows_balanced [OF g1] 1(3)] g g1 grows_trans by blast
  qed
qed simp

lemma stage_set_safe:
  assumes r: "safe_relay relay" and b: "balanced st" and s: "stage_set relay com s st = Some (Inr (ok, st'))"
  shows "grows st st'"
proof -
  obtain c where c: "lo_comps st com = Some c" using s by (auto simp: stage_set_def with_comp_Inr)
  show ?thesis
  proof (cases "co_active c")
    case False
    then show ?thesis using s c b by (simp add: stage_set_def with_comp_def grows_refl)
  next
    case True
    obtain res xs where a: "co_action c s = (res, xs)" by fastforce
    let ?st1 = "st\<lparr>lo_out := lo_out st @ xs, lo_log := lo_log st @ [(com, s)]\<rparr>"
    obtain st2 c2 where 2: "unspool relay com res (length (co_buffer c)) ?st1 = Some (Inr st2)" "lo_comps st2 com = Some c2"
      and st': "st' = (let st3 = set_comp com (c2\<lparr>co_active := co_persistent c2\<rparr>) st2
        in if co_persistent c2 then st3 else st3\<lparr>lo_notes := Suc (lo_notes st3)\<rparr>)"
      using s [unfolded stage_set_def with_comp_Inr] c True a by (auto simp: bind_run_Inr_iff with_comp_Inr Let_def)
    have g1: "grows st ?st1" by (rule grows_other [OF b]) simp_all
    have g2: "grows ?st1 st2" by (rule unspool_safe [OF r grows_balanced [OF g1] 2(1)])
    have g3: "grows st2 (set_comp com (c2\<lparr>co_active := co_persistent c2\<rparr>) st2)"
      by (rule grows_same [OF grows_balanced [OF g2] 2(2)]) simp_all
    have "grows (set_comp com (c2\<lparr>co_active := co_persistent c2\<rparr>) st2) st'"
      by (rule grows_other [OF grows_balanced [OF g3]]) (simp_all add: st' Let_def)
    then show ?thesis using g1 g2 g3 grows_trans by blast
  qed
qed

lemma held_erase:
  assumes "k < length ss"
  shows "sum_list (map filled (take k ss @ drop (Suc k) ss)) + filled (ss ! k) = sum_list (map filled ss)"
proof -
  have "ss = take k ss @ ss ! k # drop (Suc k) ss" using assms by (rule id_take_nth_drop)
  then have "sum_list (map filled ss) = sum_list (map filled (take k ss @ ss ! k # drop (Suc k) ss))" by simp
  then show ?thesis by simp
qed

lemma filled_ready: "is_ready s \<Longrightarrow> filled s = length s"
  by (simp add: is_ready_def filled_def list_all_iff)

lemma stage_action_safe:
  assumes r: "safe_relay relay" and b: "balanced st" and s: "stage_action relay com k st = Some (Inr st')"
    and c: "lo_comps st com = Some c" and k: "k < length (co_incoming c)" and ready: "is_ready (co_incoming c ! k)"
  shows "grows st st'"
proof -
  obtain ok st1 where 1: "stage_set relay com (co_incoming c ! k) st = Some (Inr (ok, st1))"
    using s c by (auto simp: stage_action_def with_comp_Inr bind_run_Inr_iff)
  have g: "grows st st1" by (rule stage_set_safe [OF r b 1])
  show ?thesis
  proof (cases ok)
    case False
    then show ?thesis using s c 1 g by (simp add: stage_action_def with_comp_def)
  next
    case True
    obtain c1 where c1: "lo_comps st1 com = Some c1" "kept c c1" using grows_comp [OF g c] by metis
    let ?c2 = "c1\<lparr>co_incoming := take k (co_incoming c1) @ drop (Suc k) (co_incoming c1), co_version := Suc (co_version c1)\<rparr>"
    have v: "co_version c1 = co_version c" and st': "st' = qd_add (- int (n_inputs c1)) (set_comp com ?c2 st1)"
      using s c 1 True c1(1) by (auto simp: stage_action_def with_comp_def split: if_splits)
    have i: "k < length (co_incoming c1)" "co_incoming c1 ! k = co_incoming c ! k" using c1(2) v k ready by (auto simp: kept_def)
    have ok1: "comp_ok c1" using grows_balanced [OF g] c1(1) by (simp add: balanced_def)
    have "filled (co_incoming c1 ! k) = n_inputs c1"
      using filled_ready [OF ready] ok1 i unfolding comp_ok_def by (metis nth_mem)
    then have "int (held ?c2) = int (held c1) + - int (n_inputs c1)"
      using held_erase [OF i(1)] by (simp add: held_def)
    moreover have "comp_ok ?c2" using ok1 by (auto simp: comp_ok_def n_inputs_def dest: in_set_takeD in_set_dropD)
    moreover have "kept c1 ?c2" by (simp add: kept_def)
    ultimately have "grows st1 st'" unfolding st' using grows_set [OF grows_balanced [OF g] c1(1)] by blast
    then show ?thesis using g grows_trans by blast
  qed
qed

lemma push_grows:
  assumes "balanced st" and "lo_comps st com = Some c" and "length s = n_inputs c" and "int (filled s) = d"
  shows "grows st (qd_add d (set_comp com (push_set s c) st))"
proof (rule grows_set [OF assms(1,2)])
  have "comp_ok c" using assms(1,2) by (simp add: balanced_def)
  then show "comp_ok (push_set s c)" using assms(3) by (simp add: comp_ok_def push_set_def n_inputs_def)
  show "kept c (push_set s c)" by (simp add: kept_def push_set_def)
  show "int (held (push_set s c)) = int (held c) + d" using assms(4) by (simp add: held_def push_set_def)
qed

lemma direct_stage_safe:
  assumes r: "safe_relay relay" and b: "balanced st" and n: "lo_comps st com = Some c" "n_inputs c = 1"
    and d: "direct_stage relay com v st = Some (Inr st')"
  shows "grows st st'"
proof -
  obtain ok st1 where v: "v \<noteq> None" and 1: "stage_set relay com [v] st = Some (Inr (ok, st1))"
    and st': "(if ok then Some (Inr st1) else buffer_ready_set com [v] st1) = Some (Inr st')"
    using d by (auto simp: direct_stage_def bind_run_Inr_iff split: if_splits)
  have g: "grows st st1" by (rule stage_set_safe [OF r b 1])
  show ?thesis
  proof (cases ok)
    case True
    then show ?thesis using st' g by simp
  next
    case False
    obtain c1 where c1: "lo_comps st1 com = Some c1" "n_inputs c1 = 1"
      using grows_comp [OF g n(1)] n(2) by metis
    then have "st' = qd_add (int (n_inputs c1)) (set_comp com (push_set [v] c1) st1)"
      using False st' by (simp add: buffer_ready_set_def with_comp_def)
    moreover have "grows st1 (qd_add (int (n_inputs c1)) (set_comp com (push_set [v] c1) st1))"
      using c1 v by (intro push_grows [OF grows_balanced [OF g]]) (auto simp: filled_def)
    ultimately show ?thesis using g grows_trans by blast
  qed
qed

lemma find_gap_Some:
  "find_gap i ss = Some k \<Longrightarrow> k < length ss \<and> ss ! k ! i = None"
  by (induction ss arbitrary: k) (auto split: option.splits if_splits)

lemma filled_update:
  assumes "i < length s" and "s ! i = None"
  shows "filled (s[i := Some x]) = Suc (filled s)"
  using assms
proof (induction s arbitrary: i)
  case (Cons a s)
  then show ?case by (cases i) (auto simp: filled_def)
qed simp

lemma accept_typed_safe:
  assumes r: "safe_relay relay" and b: "balanced st" and i: "lo_comps st com = Some c" "i < n_inputs c"
    and a: "accept_typed relay com i v st = Some (Inr st')"
  shows "grows st st'"
proof -
  have ok: "comp_ok c" using b i by (simp add: balanced_def)
  consider (direct) "n_inputs c = 1" "direct_stage relay com v st = Some (Inr st')"
    | (new) x where "v = Some x" "find_gap i (co_incoming c) = None"
        "st' = qd_add 1 (set_comp com (push_set ((replicate (n_inputs c) None)[i := v]) c) st)"
    | (fill) x k where "v = Some x" "find_gap i (co_incoming c) = Some k"
        "(let s = (co_incoming c ! k)[i := v]; st1 = qd_add 1 (set_comp com (c\<lparr>co_incoming := (co_incoming c)[k := s]\<rparr>) st)
          in if is_ready s then stage_action relay com k st1 else Some (Inr st1)) = Some (Inr st')"
    using a i by (auto simp: accept_typed_def with_comp_def split: if_splits option.splits)
  then show ?thesis
  proof cases
    case direct
    then show ?thesis using direct_stage_safe [OF r b i(1)] by blast
  next
    case new
    have "filled ((replicate (n_inputs c) None)[i := v]) = 1"
      using i(2) new(1) by (simp add: filled_update) (simp add: filled_def)
    then show ?thesis unfolding new(3) using push_grows [OF b i(1)] by simp
  next
    case fill
    let ?s = "(co_incoming c ! k)[i := v]"
    let ?c1 = "c\<lparr>co_incoming := (co_incoming c)[k := ?s]\<rparr>"
    let ?st1 = "qd_add 1 (set_comp com ?c1 st)"
    have k: "k < length (co_incoming c)" "co_incoming c ! k ! i = None" using find_gap_Some [OF fill(2)] by simp_all
    have len: "length (co_incoming c ! k) = n_inputs c" using ok k(1) by (simp add: comp_ok_def)
    have f: "filled ?s = Suc (filled (co_incoming c ! k))"
      unfolding fill(1) by (rule filled_update) (use len i(2) k(2) in simp_all)
    have nr: "\<not> is_ready (co_incoming c ! k)" using k(2) len i(2) by (auto simp: is_ready_def list_all_length)
    have g: "grows st ?st1"
    proof (rule grows_set [OF b i(1)])
      show "comp_ok ?c1" using ok len k(1) by (auto simp: comp_ok_def n_inputs_def dest: set_update_subset_insert [THEN subsetD])
      show "kept c ?c1" using nr k(1) by (auto simp: kept_def nth_list_update)
      show "int (held ?c1) = int (held c) + 1"
        using sum_list_map_update [OF k(1), of filled ?s] f by (simp add: held_def)
    qed
    show ?thesis
    proof (cases "is_ready ?s")
      case False
      then show ?thesis using fill(3) g by (simp add: Let_def)
    next
      case True
      then have s: "stage_action relay com k ?st1 = Some (Inr st')" using fill(3) by (simp add: Let_def)
      have c1: "lo_comps ?st1 com = Some ?c1" by (simp add: qd_add_def set_comp_def)
      have "grows ?st1 st'"
        by (rule stage_action_safe [OF r grows_balanced [OF g] s c1]) (use k(1) True in simp_all)
      then show ?thesis using g grows_trans by blast
    qed
  qed
qed

lemma relay_value_safe: "safe_relay (relay_value vt k)"
proof (induction k)
  case (Suc k)
  show ?case
    unfolding safe_relay_def
  proof (intro allI impI)
    fix com port v and st st' :: "('a, 'b, 'c) locality"
    assume b: "balanced st" and a: "relay_value vt (Suc k) com port v st = Some (Inr st')"
    then obtain c x where "lo_comps st com = Some c" "port < n_inputs c" "v = Some x"
      "accept_typed (relay_value vt k) com port v st = Some (Inr st')"
      by (auto simp: accept_value_def with_comp_Inr split: option.splits if_splits)
    then show "grows st st'" using accept_typed_safe [OF Suc b] by blast
  qed
qed (simp add: safe_relay_def)

lemma accept_msg_safe:
  assumes "balanced st" and "accept_msg vt (relay_value vt k) com port x st = Some (Inr st')"
  shows "grows st st'"
proof -
  obtain c where "lo_comps st com = Some c" "port < n_inputs c"
    "accept_typed (relay_value vt k) com port (Some x) st = Some (Inr st')"
    using assms(2) by (auto simp: accept_msg_def with_comp_Inr split: if_splits)
  then show ?thesis using accept_typed_safe [OF relay_value_safe assms(1)] by blast
qed

lemma output_to_safe:
  assumes b: "balanced st" and o: "output_to (relay_value vt k) fuel com i peer port st = Some (Inr st')"
  shows "grows st st'"
proof -
  obtain c where c: "lo_comps st com = Some c" using o by (auto simp: output_to_def with_comp_Inr)
  let ?c = "c\<lparr>co_conn := (co_conn c)[i := Some (peer, port)]\<rparr>"
  have g: "grows st (set_comp com ?c st)" by (rule grows_same [OF b c]) simp_all
  have "st' = set_comp com ?c st \<or> try_flush (relay_value vt k) fuel com i (set_comp com ?c st) = Some (Inr st')"
    using o c by (auto simp: output_to_def connect_to_def with_comp_def Let_def split: if_splits)
  then show ?thesis
    using g try_flush_safe [OF relay_value_safe grows_balanced [OF g]] grows_trans by blast
qed

lemma find_ready_Some: "find_ready ss = Some k \<Longrightarrow> k < length ss \<and> is_ready (ss ! k)"
  by (induction ss arbitrary: k) (auto split: if_splits)

lemma activate_loop_safe:
  "safe_relay relay \<Longrightarrow> balanced st \<Longrightarrow> activate_loop relay k com st = Some (Inr st') \<Longrightarrow> grows st st'"
proof (induction k arbitrary: st)
  case (Suc k)
  obtain c where c: "lo_comps st com = Some c" using Suc.prems(3) by (auto simp: with_comp_Inr)
  show ?case
  proof (cases "co_active c \<and> find_ready (co_incoming c) \<noteq> None")
    case False
    then show ?thesis using Suc.prems c by (auto simp: with_comp_def grows_refl split: if_splits)
  next
    case True
    then obtain j where j: "find_ready (co_incoming c) = Some j" by blast
    then obtain st1 where 1: "stage_action relay com j st = Some (Inr st1)" "activate_loop relay k com st1 = Some (Inr st')"
      using Suc.prems(3) c True by (auto simp: with_comp_def bind_run_Inr_iff)
    have "grows st st1"
      using stage_action_safe [OF Suc.prems(1,2) 1(1) c] find_ready_Some [OF j] by simp
    then show ?thesis using Suc.IH [OF Suc.prems(1) _ 1(2)] grows_trans grows_balanced by blast
  qed
qed simp

lemma activate_safe:
  assumes b: "balanced st" and a: "activate (relay_value vt k) fuel com st = Some (Inr st')"
  shows "grows st st'"
proof -
  obtain c where c: "lo_comps st com = Some c" "activate_loop (relay_value vt k) fuel com
      (set_comp com (c\<lparr>co_active := True, co_activated := True\<rparr>) st) = Some (Inr st')"
    using a by (auto simp: activate_def with_comp_Inr split: if_splits)
  have g: "grows st (set_comp com (c\<lparr>co_active := True, co_activated := True\<rparr>) st)"
    by (rule grows_same [OF b c(1)]) simp_all
  show ?thesis using activate_loop_safe [OF relay_value_safe grows_balanced [OF g] c(2)] g grows_trans by blast
qed

section \<open>Runs\<close>

text \<open>The calls that a locality's owner makes, with any fuel that is enough; fresh components, none wired.\<close>

inductive comex_step :: "('v \<Rightarrow> 'ty option) \<Rightarrow> ('v, 'ty, 'x) locality \<Rightarrow> ('v, 'ty, 'x) locality \<Rightarrow> bool" for vt where
  by_value: "relay_value vt k com port v st = Some (Inr st') \<Longrightarrow> comex_step vt st st'"
| by_msg: "accept_msg vt (relay_value vt k) com port x st = Some (Inr st') \<Longrightarrow> comex_step vt st st'"
| by_wire: "output_to (relay_value vt k) fuel com i peer port st = Some (Inr st') \<Longrightarrow> comex_step vt st st'"
| by_activate: "activate (relay_value vt k) fuel com st = Some (Inr st') \<Longrightarrow> comex_step vt st st'"
| by_setting: "lo_comps st com = Some c \<Longrightarrow>
    comex_step vt st (set_comp com (c\<lparr>co_persistent := b\<rparr>) st)"

definition fresh_locality :: "('v, 'ty, 'x) locality \<Rightarrow> bool" where
  "fresh_locality st \<longleftrightarrow> finite (dom (lo_comps st)) \<and> lo_qd st = 0 \<and>
     (\<forall>com c. lo_comps st com = Some c \<longrightarrow> (\<exists>types outs act. c = new_component types outs act))"

lemma fresh_balanced: "fresh_locality st \<Longrightarrow> balanced st"
proof -
  assume f: "fresh_locality st"
  have "co_incoming c = []" if c: "lo_comps st com = Some c" for com c
  proof -
    obtain types outs act where "c = new_component types outs act" using f c unfolding fresh_locality_def by blast
    then show ?thesis by (simp add: new_component_def)
  qed
  then show ?thesis
    using f by (auto simp: balanced_def fresh_locality_def comp_ok_def held_def intro!: sum.neutral)
qed

lemma comex_step_grows: "balanced st \<Longrightarrow> comex_step vt st st' \<Longrightarrow> grows st st'"
proof (erule comex_step.cases, goal_cases)
  case (1 k com port v st st')
  then show ?case using relay_value_safe unfolding safe_relay_def by blast
next
  case (2 k com port x st st')
  then show ?case by (auto intro: accept_msg_safe)
next
  case (3 k fuel com i peer port st st')
  then show ?case by (auto intro: output_to_safe)
next
  case (4 k fuel com st st')
  then show ?case by (auto intro: activate_safe)
next
  case (5 st com c b)
  then show ?case using grows_same [of st com c] by simp
qed

interpretation comex_safety: safety fresh_locality "comex_step vt" balanced for vt
  by unfold_locales (use fresh_balanced comex_step_grows grows_balanced in blast)+

definition comex_reach :: "('v \<Rightarrow> 'ty option) \<Rightarrow> ('v, 'ty, 'x) locality \<Rightarrow> bool" where
  "comex_reach vt = reach fresh_locality (comex_step vt)"

text \<open>
  C30. However components are wired, also in cycles, and in whatever order values and messages arrive and
  components are wired and activated: between these calls the balance that quiescence detection sees is
  the number of values that wait in incomplete or unprocessed sets. So it is zero, and the
  program can be found quiescent, exactly when no component holds a value.
\<close>

theorem quiescence_balanced:
  assumes "comex_reach vt st"
  shows "lo_qd st = (\<Sum>com\<in>dom (lo_comps st). int (held (the (lo_comps st com)))) \<and>
    (lo_qd st = 0 \<longleftrightarrow> (\<forall>com c s. lo_comps st com = Some c \<longrightarrow> s \<in> set (co_incoming c) \<longrightarrow> filled s = 0))"
proof -
  have b: "balanced st" using assms unfolding comex_reach_def by (rule comex_safety.reach_inv)
  then have "lo_qd st = 0 \<longleftrightarrow> (\<forall>com \<in> dom (lo_comps st). held (the (lo_comps st com)) = 0)"
    by (simp add: balanced_def sum_nonneg_eq_0_iff)
  also have "\<dots> \<longleftrightarrow> (\<forall>com c. lo_comps st com = Some c \<longrightarrow> held c = 0)" by force
  also have "\<dots> \<longleftrightarrow> (\<forall>com c s. lo_comps st com = Some c \<longrightarrow> s \<in> set (co_incoming c) \<longrightarrow> filled s = 0)"
    by (auto simp: held_def)
  finally show ?thesis using b by (simp add: balanced_def)
qed

theorem quiescence_balanced_witness:
  "\<exists>st :: (nat, nat, nat) locality. comex_reach Some st \<and> lo_qd st = 1 \<and>
    lo_qd st = (\<Sum>com\<in>dom (lo_comps st). int (held (the (lo_comps st com))))"
proof -
  let ?c = "new_component [3, 4] 0 (\<lambda>_. ([], []))" and ?vt = "Some :: nat \<Rightarrow> nat option"
  let ?st0 = "\<lparr>lo_comps = [0 \<mapsto> ?c], lo_qd = 0, lo_out = [], lo_notes = 0, lo_log = []\<rparr> :: (nat, nat, nat) locality"
  let ?st1 = "qd_add 1 (set_comp 0 (push_set [Some 3, None] ?c) ?st0)"
  have "fresh_locality ?st0" by (auto simp: fresh_locality_def)
  then have "comex_reach ?vt ?st0" unfolding comex_reach_def by (rule reach_init)
  moreover have "relay_value ?vt 1 0 0 (Some 3) ?st0 = Some (Inr ?st1)"
    by (simp add: accept_value_def accept_typed_def with_comp_def new_component_def n_inputs_def)
  then have "comex_step ?vt ?st0 ?st1" by (rule by_value)
  ultimately have "comex_reach ?vt ?st1" unfolding comex_reach_def by (rule reach_step)
  moreover have "lo_qd ?st1 = 1" by (simp add: qd_add_def set_comp_def)
  ultimately show ?thesis using quiescence_balanced [of ?vt ?st1] by blast
qed

end
