(* ===== verification/Comex_Pairs.thy ===== *)
theory Comex_Pairs
  imports Comex_Props
begin

text \<open>
  How a component with several inputs combines them: as a queue per port would, the heads taken as soon
  as no queue is empty. The locale \<open>pairing\<close> is the contract of one component in a locality; \<open>Comex_Order\<close> gives it
  for a component without wires and \<open>Comex_Tester\<close> for the adder of the tester, which relays to its consumer.
\<close>

section \<open>Queues\<close>

text \<open>The specification: a queue per port; the heads are taken as soon as no queue is empty.\<close>

definition nth_opt :: "'v list \<Rightarrow> nat \<Rightarrow> 'v option" where
  "nth_opt xs j = (if j < length xs then Some (xs ! j) else None)"

definition row :: "nat \<Rightarrow> (nat \<Rightarrow> 'v list) \<Rightarrow> nat \<Rightarrow> 'v option list" where
  "row n q j = map (\<lambda>i. nth_opt (q i) j) [0..<n]"

definition feed ::
  "nat \<Rightarrow> nat \<times> 'v \<Rightarrow> (nat \<Rightarrow> 'v list) \<times> 'v option list list \<Rightarrow> (nat \<Rightarrow> 'v list) \<times> 'v option list list" where
  "feed n e s = (case e of (i, x) \<Rightarrow> case s of (q, fired) \<Rightarrow>
     (let q1 = q(i := q i @ [x])
      in if \<forall>j<n. q1 j \<noteq> [] then (\<lambda>j. tl (q1 j), fired @ [row n q1 0]) else (q1, fired)))"

text \<open>The deque \<open>incoming_\<close>, from its back, has the rows of the queues.\<close>

definition rows_of :: "nat \<Rightarrow> (nat \<Rightarrow> 'v list) \<Rightarrow> 'v option list list \<Rightarrow> bool" where
  "rows_of n q ss \<longleftrightarrow> rev ss = map (row n q) [0..<length ss] \<and> (\<forall>i<n. length (q i) \<le> length ss) \<and>
     (ss \<noteq> [] \<longrightarrow> (\<exists>i<n. length (q i) = length ss))"

lemma row_nth: "i < n \<Longrightarrow> row n q j ! i = nth_opt (q i) j"
  by (simp add: row_def)

lemma row_ready: "is_ready (row n q j) \<longleftrightarrow> (\<forall>i<n. j < length (q i))"
  by (auto simp: is_ready_def row_def list_all_iff nth_opt_def split: if_splits)

lemma rows_nth:
  assumes "rows_of n q ss" and "k < length ss"
  shows "ss ! k = row n q (length ss - Suc k)"
proof -
  have "rev ss ! (length ss - Suc k) = ss ! k" using assms(2) by (simp add: rev_nth)
  then show ?thesis using assms by (simp add: rows_of_def)
qed

lemma find_gap_last:
  assumes "k < length ss" and "ss ! k ! i = None" and "\<And>j. k < j \<Longrightarrow> j < length ss \<Longrightarrow> ss ! j ! i \<noteq> None"
  shows "find_gap i ss = Some k"
  using assms
proof (induction ss arbitrary: k)
  case (Cons s ss)
  show ?case
  proof (cases k)
    case 0
    have "find_gap i ss = None"
    proof (rule ccontr)
      assume "find_gap i ss \<noteq> None"
      then obtain j where "j < length ss" "ss ! j ! i = None" using find_gap_Some by blast
      then show False using Cons.prems(3) [of "Suc j"] 0 by simp
    qed
    then show ?thesis using 0 Cons.prems by simp
  next
    case (Suc k')
    have "find_gap i ss = Some k'"
      by (rule Cons.IH) (use Cons.prems(1,2) Cons.prems(3) [of "Suc j" for j] Suc in auto)
    then show ?thesis using Suc by simp
  qed
qed simp

lemma find_gap_rows:
  assumes r: "rows_of n q ss" and i: "i < n"
  shows "find_gap i ss = (if length (q i) < length ss then Some (length ss - Suc (length (q i))) else None)"
proof (cases "length (q i) < length ss")
  case True
  have "find_gap i ss = Some (length ss - Suc (length (q i)))"
    by (rule find_gap_last) (use True i in \<open>auto simp: rows_nth [OF r] row_nth nth_opt_def\<close>)
  then show ?thesis using True by simp
next
  case False
  have "find_gap i ss = None"
  proof (rule ccontr)
    assume "find_gap i ss \<noteq> None"
    then obtain k where "k < length ss" "ss ! k ! i = None" using find_gap_Some by blast
    then show False using False i rows_nth [OF r, of k] by (auto simp: row_nth nth_opt_def split: if_splits)
  qed
  then show ?thesis using False by simp
qed

text \<open>A value arrives: the rows after it, when no set becomes complete and when the oldest does.\<close>

lemma rows_new:
  assumes r: "rows_of n q ss" and i: "i < n" and full: "length (q i) = length ss"
  shows "rows_of n (q(i := q i @ [x])) ((replicate n None)[i := Some x] # ss)"
proof -
  let ?q = "q(i := q i @ [x])"
  have le: "length (q j) \<le> length ss" if "j < n" for j using r that by (simp add: rows_of_def)
  have old: "row n ?q j = row n q j" if "j < length ss" for j
    using that full by (auto simp: row_def nth_opt_def nth_append)
  have "row n ?q (length ss) = (replicate n None)[i := Some x]"
  proof (rule nth_equalityI)
    fix j assume "j < length (row n ?q (length ss))"
    then have j: "j < n" by (simp add: row_def)
    have "(q i @ [x]) ! length ss = x" unfolding full [symmetric] by simp
    moreover have "\<not> length ss < length (q j)" using le [OF j] by simp
    ultimately show "row n ?q (length ss) ! j = (replicate n None)[i := Some x] ! j"
      using j full by (cases "j = i") (simp_all add: row_nth nth_opt_def)
  qed (simp add: row_def)
  then have "rev ((replicate n None)[i := Some x] # ss) = map (row n ?q) [0..<Suc (length ss)]"
    using r old by (simp add: rows_of_def)
  moreover have "\<forall>j<n. length (?q j) \<le> Suc (length ss)" using le full by (auto simp: le_SucI)
  moreover have "length (?q i) = Suc (length ss)" using full by simp
  ultimately show ?thesis using i unfolding rows_of_def by (auto intro!: exI [of _ i])
qed

lemma rows_fill:
  assumes r: "rows_of n q ss" and i: "i < n" and gap: "length (q i) < length ss"
  defines "k \<equiv> length ss - Suc (length (q i))"
  shows "rows_of n (q(i := q i @ [x])) (ss[k := (ss ! k)[i := Some x]])"
    "(ss ! k)[i := Some x] = row n (q(i := q i @ [x])) (length (q i))"
proof -
  let ?q = "q(i := q i @ [x])"
  have k: "k < length ss" "length ss - Suc k = length (q i)" using gap by (simp_all add: k_def)
  have "ss ! k = row n q (length (q i))" using rows_nth [OF r k(1)] k(2) by simp
  moreover have "(row n q (length (q i)))[i := Some x] = row n ?q (length (q i))"
    using i by (auto simp: row_def nth_opt_def nth_list_update intro!: nth_equalityI)
  ultimately show new: "(ss ! k)[i := Some x] = row n ?q (length (q i))" by simp
  have old: "row n ?q j = row n q j" if "j \<noteq> length (q i)" for j
    using that by (auto simp: row_def nth_opt_def nth_append)
  have "rev (ss[k := (ss ! k)[i := Some x]]) = map (row n ?q) [0..<length ss]"
  proof (rule nth_equalityI)
    fix j assume "j < length (rev (ss[k := (ss ! k)[i := Some x]]))"
    then have j: "j < length ss" by simp
    then have "ss ! (length ss - Suc j) = row n q j" using rows_nth [OF r, of "length ss - Suc j"] by simp
    moreover have "k = length ss - Suc j \<longleftrightarrow> j = length (q i)" using j gap by (auto simp: k_def)
    ultimately show "rev (ss[k := (ss ! k)[i := Some x]]) ! j = map (row n ?q) [0..<length ss] ! j"
      using j old new by (auto simp: rev_nth nth_list_update)
  qed simp
  moreover have "\<exists>j<n. length (?q j) = length ss"
  proof -
    obtain j where j: "j < n" "length (q j) = length ss" using r gap by (auto simp: rows_of_def)
    then show ?thesis using gap by (intro exI [of _ j]) auto
  qed
  ultimately show "rows_of n ?q (ss[k := (ss ! k)[i := Some x]])"
    using r gap by (simp add: rows_of_def)
qed

text \<open>The oldest set is taken out.\<close>

lemma rows_pop:
  assumes r: "rows_of n q ss" and ne: "\<forall>i<n. q i \<noteq> []" and n: "0 < n"
  shows "ss ! (length ss - 1) = row n q 0" "ss \<noteq> []" "rows_of n (\<lambda>i. tl (q i)) (butlast ss)"
proof -
  show s: "ss \<noteq> []" using r ne n by (auto simp: rows_of_def)
  then show "ss ! (length ss - 1) = row n q 0" using rows_nth [OF r, of "length ss - 1"] by simp
  have "rev (butlast ss) = tl (rev ss)" by (metis butlast_rev rev_rev_ident rev_swap)
  also have "\<dots> = map (row n q) (tl [0..<length ss])" using r by (simp add: rows_of_def flip: map_tl)
  also have "tl [0..<length ss] = map Suc [0..<length ss - 1]" using s by (cases "length ss") (simp_all add: upt_conv_Cons map_Suc_upt)
  also have "map (row n q) (map Suc [0..<length ss - 1]) = map (row n (\<lambda>i. tl (q i))) [0..<length ss - 1]"
    by (auto simp: row_def nth_opt_def nth_tl)
  finally have "rev (butlast ss) = map (row n (\<lambda>i. tl (q i))) [0..<length (butlast ss)]" by simp
  moreover have "\<exists>i<n. length (q i) = length ss" "\<forall>i<n. length (q i) \<le> length ss" using r s by (simp_all add: rows_of_def)
  ultimately show "rows_of n (\<lambda>i. tl (q i)) (butlast ss)"
    unfolding rows_of_def by (auto simp: diff_le_mono)
qed

text \<open>All of a list of arrivals, and what had come at a port.\<close>

definition feeds :: "nat \<Rightarrow> (nat \<times> 'v) list \<Rightarrow> (nat \<Rightarrow> 'v list) \<times> 'v option list list" where
  "feeds n es = fold (feed n) es (\<lambda>_. [], [])"

definition arrivals :: "nat \<Rightarrow> (nat \<times> 'v) list \<Rightarrow> 'v list" where
  "arrivals i es = map snd (filter (\<lambda>e. fst e = i) es)"

lemma arrivals_simps [simp]:
  "arrivals i [] = []"
  "arrivals i (es @ [(j, x)]) = (if i = j then arrivals i es @ [x] else arrivals i es)"
  by (simp_all add: arrivals_def)

lemma feeds_snoc: "feeds n (es @ [e]) = feed n e (feeds n es)"
  by (simp add: feeds_def)

lemma row_snoc:
  assumes "\<And>j. j < n \<Longrightarrow> k < length (A j)"
  shows "row n (A(i := A i @ [x])) k = row n A k"
  unfolding row_def using assms by (auto simp: nth_opt_def nth_append less_SucI)

lemma row_drop: "row n (\<lambda>j. drop f (A j)) 0 = row n A f"
  by (simp add: row_def nth_opt_def)

lemma feeds_spec:
  assumes "0 < n" and "\<forall>e \<in> set es. fst e < n" and "feeds n es = (q, fired)"
  shows "fired = map (row n (\<lambda>i. arrivals i es)) [0..<length fired] \<and>
    q = (\<lambda>j. drop (length fired) (arrivals j es)) \<and>
    (\<forall>j<n. length fired \<le> length (arrivals j es)) \<and> (\<exists>j<n. q j = [])"
  using assms(2,3)
proof (induction es arbitrary: q fired rule: rev_induct)
  case Nil
  then show ?case using assms(1) by (auto simp: feeds_def)
next
  case (snoc e es)
  obtain i x where e: "e = (i, x)" by fastforce
  obtain p old where pd: "feeds n es = (p, old)" by fastforce
  define A where "A = (\<lambda>j. arrivals j es)"
  let ?A = "A(i := A i @ [x])" and ?q = "p(i := p i @ [x])"
  have A': "(\<lambda>j. arrivals j (es @ [e])) = ?A" by (auto simp: A_def e)
  have i: "i < n" and prems: "\<forall>e \<in> set es. fst e < n" using snoc.prems(1) e by auto
  note ih = snoc.IH [OF prems pd, folded A_def]
  have rows: "old = map (row n A) [0..<length old]" and p: "p = (\<lambda>j. drop (length old) (A j))"
    and le: "\<And>j. j < n \<Longrightarrow> length old \<le> length (A j)" using ih by (auto simp: A_def)
  obtain j0 where j0: "j0 < n" "p j0 = []" using ih by blast
  have same: "map (row n ?A) [0..<length old] = old"
    by (subst (2) rows, rule map_cong) (use le in \<open>auto intro!: row_snoc dest: less_le_trans\<close>)
  have q: "?q = (\<lambda>j. drop (length old) (?A j))" using le [OF i] by (auto simp: p)
  have f: "(q, fired) = feed n (i, x) (p, old)" using snoc.prems(2) by (simp add: feeds_snoc pd e)
  have Aj: "arrivals j (es @ [e]) = ?A j" for j using A' by metis
  have "fired = map (row n ?A) [0..<length fired] \<and> q = (\<lambda>j. drop (length fired) (?A j)) \<and>
    (\<forall>j<n. length fired \<le> length (?A j)) \<and> (\<exists>j<n. q j = [])"
  proof (cases "\<forall>j<n. ?q j \<noteq> []")
    case True
    then have j0i: "j0 = i" "p i = []" using j0 by (metis fun_upd_apply)+
    have f': "q = (\<lambda>j. tl (?q j))" "fired = old @ [row n ?q 0]" using f True by (auto simp: feed_def Let_def)
    have "row n ?q 0 = row n ?A (length old)" unfolding q by (rule row_drop)
    then have "fired = map (row n ?A) [0..<length fired]" using same by (simp add: f'(2))
    moreover have "q = (\<lambda>j. drop (length fired) (?A j))"
      unfolding f'(1) q by (simp add: f'(2) drop_Suc tl_drop)
    moreover have "Suc (length old) \<le> length (?A j)" if "j < n" for j
      using True that unfolding q by (simp del: fun_upd_apply add: Suc_le_eq not_le)
    moreover have "q i = []" by (simp add: f'(1) j0i)
    ultimately show ?thesis using i by (auto simp: f'(2))
  next
    case False
    then have f': "q = ?q" "fired = old" using f by (auto simp: feed_def Let_def split: if_splits)
    have "\<forall>j<n. length old \<le> length (?A j)" using le by (auto simp: le_SucI)
    moreover have "\<exists>j<n. q j = []" using False f'(1) by blast
    ultimately show ?thesis using q same f' by simp
  qed
  then show ?case unfolding A' Aj .
qed

text \<open>How often the action ran: as often as every port had a value.\<close>

definition rounds :: "nat \<Rightarrow> (nat \<times> 'v) list \<Rightarrow> nat" where
  "rounds n es = Min ((\<lambda>i. length (arrivals i es)) ` {..<n})"

lemma feeds_rows:
  assumes n: "0 < n" and es: "\<forall>e \<in> set es. fst e < n"
  shows "snd (feeds n es) = map (\<lambda>j. map (\<lambda>i. Some (arrivals i es ! j)) [0..<n]) [0..<rounds n es]"
    "\<exists>j<n. fst (feeds n es) j = []"
proof -
  obtain q fired where f: "feeds n es = (q, fired)" by fastforce
  note spec = feeds_spec [OF n es f]
  obtain j where j: "j < n" "q j = []" using spec by blast
  have le: "length fired \<le> length (arrivals i es)" if "i < n" for i using spec that by blast
  have "length (arrivals j es) = length fired" using spec le [OF j(1)] j(2) by (metis drop_eq_Nil le_antisym)
  then have r: "rounds n es = length fired"
    unfolding rounds_def by (intro Min_eqI) (use le j(1) in \<open>auto simp: image_iff intro!: bexI [of _ j]\<close>)
  have "row n (\<lambda>i. arrivals i es) k = map (\<lambda>i. Some (arrivals i es ! k)) [0..<n]" if "k < length fired" for k
    unfolding row_def using less_le_trans [OF that le] by (simp add: nth_opt_def)
  then have "map (row n (\<lambda>i. arrivals i es)) [0..<length fired]
      = map (\<lambda>j. map (\<lambda>i. Some (arrivals i es ! j)) [0..<n]) [0..<length fired]" by simp
  then show "snd (feeds n es) = map (\<lambda>j. map (\<lambda>i. Some (arrivals i es ! j)) [0..<n]) [0..<rounds n es]"
    using spec f r by simp
  show "\<exists>j<n. fst (feeds n es) j = []" using j f by auto
qed

lemma that_other: "2 \<le> (n::nat) \<Longrightarrow> \<exists>j<n. j \<noteq> i"
  by (cases "i = 0") (auto intro: exI [of _ 1] exI [of _ 0])

section \<open>One component\<close>

text \<open>
  \<open>S k ss ver fired\<close> is the locality when \<open>k\<close> values have come, the deque is \<open>ss\<close> and the action ran on
  the sets \<open>fired\<close>; \<open>C\<close> is the component there.
\<close>

locale pairing =
  fixes com :: nat
    and types :: "'ty list"
    and relay :: "('v, 'ty, 'x) relay"
    and C :: "'v option list list \<Rightarrow> nat \<Rightarrow> 'v option list list \<Rightarrow> ('v, 'ty, 'x) component"
    and S :: "nat \<Rightarrow> 'v option list list \<Rightarrow> nat \<Rightarrow> 'v option list list \<Rightarrow> ('v, 'ty, 'x) locality"
  assumes there: "lo_comps (S k ss ver fired) com = Some (C ss ver fired)"
    and types: "co_types (C ss ver fired) = types"
    and deque: "co_incoming (C ss ver fired) = ss"
    and fill: "qd_add 1 (set_comp com ((C ss ver fired)\<lparr>co_incoming := ss'\<rparr>) (S k ss ver fired)) = S (Suc k) ss' ver fired"
    and push: "qd_add 1 (set_comp com (push_set s (C ss ver fired)) (S k ss ver fired)) = S (Suc k) (s # ss) (Suc ver) fired"
    and stage: "ss \<noteq> [] \<Longrightarrow> is_ready (ss ! (length ss - 1)) \<Longrightarrow> length (ss ! (length ss - 1)) = length types \<Longrightarrow>
      stage_action relay com (length ss - 1) (S k ss ver fired)
        = Some (Inr (S k (butlast ss) (Suc ver) (fired @ [ss ! (length ss - 1)])))"
begin

lemma accept_feeds:
  assumes r: "rows_of n q ss" and n: "n = length types" "2 \<le> n" and i: "i < n"
    and e: "\<exists>j<n. q j = []" and f: "feed n (i, x) (q, fired) = (q', fired')"
  shows "\<exists>ss' ver'. accept_typed relay com i (Some x) (S k ss ver fired)
      = Some (Inr (S (Suc k) ss' ver' fired')) \<and>
    rows_of n q' ss' \<and> (\<exists>j<n. q' j = [])"
proof -
  let ?st = "S k ss ver fired" and ?q = "q(i := q i @ [x])"
  let ?s = "(ss ! (length ss - Suc (length (q i))))[i := Some x]"
  let ?ss = "ss[length ss - Suc (length (q i)) := ?s]"
  obtain j0 where j0: "j0 < n" "q j0 = []" using e by blast
  have typed: "accept_typed relay com i (Some x) ?st = (if length (q i) < length ss then
      if is_ready ?s then stage_action relay com (length ss - Suc (length (q i))) (S (Suc k) ?ss ver fired)
      else Some (Inr (S (Suc k) ?ss ver fired))
    else Some (Inr (S (Suc k) ((replicate n None)[i := Some x] # ss) (Suc ver) fired)))"
    using n by (simp add: accept_typed_def with_comp_def there n_inputs_def types deque find_gap_rows [OF r i] fill push Let_def)
  have not_all: "\<exists>j<n. ?q j = []" if "\<not> length (q i) < length ss"
  proof -
    have full: "length (q i) = length ss" using r i that unfolding rows_of_def by (meson le_antisym not_le)
    show ?thesis
    proof (cases "j0 = i")
      case False
      then show ?thesis using j0 by auto
    next
      case True
      then have "ss = []" using full j0 by simp
      then have "\<forall>j<n. q j = []" using r by (simp add: rows_of_def)
      moreover obtain j where "j < n" "j \<noteq> i" using that_other [OF n(2), of i] by blast
      ultimately show ?thesis by auto
    qed
  qed
  show ?thesis
  proof (cases "length (q i) < length ss")
    case False
    then have "q' = ?q" "fired' = fired" using f not_all by (auto simp: feed_def Let_def split: if_splits)
    moreover have "length (q i) = length ss" using r i False unfolding rows_of_def by (meson le_antisym not_le)
    then have "rows_of n ?q ((replicate n None)[i := Some x] # ss)" by (rule rows_new [OF r i])
    ultimately show ?thesis using typed False not_all by auto
  next
    case True
    have rows: "rows_of n ?q ?ss" "?s = row n ?q (length (q i))" using rows_fill [OF r i True] by simp_all
    have rdy: "is_ready ?s \<longleftrightarrow> (\<forall>j<n. ?q j \<noteq> [])"
    proof
      assume "is_ready ?s"
      then show "\<forall>j<n. ?q j \<noteq> []" unfolding rows(2) row_ready by fastforce
    next
      assume a: "\<forall>j<n. ?q j \<noteq> []"
      then have "q i = []" using j0 by (metis fun_upd_apply)
      then show "is_ready ?s" using a unfolding rows(2) row_ready by simp
    qed
    show ?thesis
    proof (cases "is_ready ?s")
      case False
      then have nr: "\<not> (\<forall>j<n. ?q j \<noteq> [])" using rdy by simp
      then have "q' = ?q" "fired' = fired" using f by (auto simp: feed_def Let_def split: if_splits)
      then show ?thesis using typed True False rows(1) nr by auto
    next
      case ready: True
      then have all: "\<forall>j<n. ?q j \<noteq> []" using rdy by simp
      then have qi: "q i = []" using j0 by (metis fun_upd_apply)
      have f': "q' = (\<lambda>j. tl (?q j))" "fired' = fired @ [row n ?q 0]" using f all by (auto simp: feed_def Let_def)
      have n0: "0 < n" using i by simp
      note pop = rows_pop [OF rows(1) all n0]
      have staged: "stage_action relay com m (S (Suc k) ?ss ver fired)
          = Some (Inr (S (Suc k) (butlast ?ss) (Suc ver) fired'))"
        if "m = length ?ss - 1" for m
        unfolding that f'(2) pop(1) [symmetric] by (rule stage [OF pop(2)]) (use all n(1) in \<open>simp_all only: pop(1) row_ready, auto simp: row_def\<close>)
      have "accept_typed relay com i (Some x) ?st
          = stage_action relay com (length ss - Suc (length (q i))) (S (Suc k) ?ss ver fired)"
        using typed True ready by (simp only: if_True)
      also have "\<dots> = Some (Inr (S (Suc k) (butlast ?ss) (Suc ver) fired'))"
        by (rule staged) (simp add: qi)
      finally have "accept_typed relay com i (Some x) ?st
          = Some (Inr (S (Suc k) (butlast ?ss) (Suc ver) fired'))"
        .
      moreover have "rows_of n q' (butlast ?ss)" using pop(3) f'(1) by simp
      moreover have "q' i = []" using f'(1) qi by simp
      ultimately show ?thesis using i by blast
    qed
  qed
qed

text \<open>Any number of arrivals, by whatever call they are passed on.\<close>

lemma arrivals_feed:
  assumes n: "n = length types" "2 \<le> n" and es: "\<forall>e \<in> set es. fst e < n"
    and acc: "\<And>e k ss ver fired. e \<in> set es \<Longrightarrow>
      acc e (S k ss ver fired) = accept_typed relay com (fst e) (Some (snd e)) (S k ss ver fired)"
  shows "\<exists>ss ver. run_all acc es (S 0 [] 0 []) = Some (Inr (S (length es) ss ver (snd (feeds n es)))) \<and>
    rows_of n (fst (feeds n es)) ss"
  using es acc
proof (induction es rule: rev_induct)
  case Nil
  then show ?case by (auto simp: feeds_def rows_of_def intro: exI [of _ 0])
next
  case (snoc e es)
  obtain i x where e: "e = (i, x)" by fastforce
  have es: "\<forall>e \<in> set es. fst e < n" and i: "i < n" using snoc.prems(1) e by auto
  obtain ss ver where 1: "run_all acc es (S 0 [] 0 []) = Some (Inr (S (length es) ss ver (snd (feeds n es))))"
    "rows_of n (fst (feeds n es)) ss" using snoc.IH [OF es] snoc.prems(2) by auto
  have n0: "0 < n" using n(2) by linarith
  have f: "feed n (i, x) (fst (feeds n es), snd (feeds n es)) = (fst (feeds n (es @ [e])), snd (feeds n (es @ [e])))"
    by (simp add: feeds_snoc e)
  have "acc e (S (length es) ss ver (snd (feeds n es)))
      = accept_typed relay com i (Some x) (S (length es) ss ver (snd (feeds n es)))"
    using snoc.prems(2) [of e] e by simp
  then show ?case
    using accept_feeds [OF 1(2) n i feeds_rows(2) [OF n0 es] f, of "length es" ver] 1(1)
    by (fastforce simp: run_all_append)
qed

end

end
