(* ===== verification/Comex_Order.thy ===== *)
theory Comex_Order
  imports Comex_Pairs
begin

text \<open>
  A component whose outputs are not wired yet, so that they are buffered: one that is active and persistent
  pairs the values of its ports in their order of arrival; one that is activated late takes its buffered sets
  in the opposite order.
\<close>

section \<open>A component without wires\<close>

definition push_outs :: "'v option list \<Rightarrow> 'v option list list \<Rightarrow> 'v option list list" where
  "push_outs vs buf = map (\<lambda>i. buf ! i @ [vs ! i]) [0..<length buf]"

definition unwired :: "('v, 'ty, 'x) component \<Rightarrow> bool" where
  "unwired c \<longleftrightarrow> co_conn c = replicate (length (co_buffer c)) None"

lemma set_comp_lookup [simp]: "lo_comps (set_comp com c st) com = Some c"
  by (simp add: set_comp_def)

lemma set_comp_twice [simp]: "set_comp com c (set_comp com c' st) = set_comp com c st"
  by (simp add: set_comp_def)

lemma set_comp_same: "lo_comps st com = Some c \<Longrightarrow> set_comp com c st = st"
  by (simp add: set_comp_def fun_upd_idem)

lemma unspool_buffers:
  assumes "unwired c" and "n \<le> length (co_buffer c)"
  shows "unspool relay com vs n (set_comp com c st) = Some (Inr (set_comp com
    (c\<lparr>co_buffer := map (\<lambda>i. if i < n then co_buffer c ! i @ [vs ! i] else co_buffer c ! i) [0..<length (co_buffer c)]\<rparr>) st))"
  using assms
proof (induction n arbitrary: c)
  case 0
  then show ?case by (simp add: map_nth)
next
  case (Suc n)
  let ?c1 = "c\<lparr>co_buffer := (co_buffer c)[n := co_buffer c ! n @ [vs ! n]]\<rparr>"
  have d: "outbox_deliver relay com n (vs ! n) (set_comp com c st) = Some (Inr (set_comp com ?c1 st))"
    using Suc.prems by (simp add: outbox_deliver_def with_comp_def unwired_def)
  have ih: "unspool relay com vs n (set_comp com ?c1 st) = Some (Inr (set_comp com
      (?c1\<lparr>co_buffer := map (\<lambda>i. if i < n then co_buffer ?c1 ! i @ [vs ! i] else co_buffer ?c1 ! i) [0..<length (co_buffer ?c1)]\<rparr>) st))"
    using Suc.prems by (intro Suc.IH) (simp_all add: unwired_def)
  have m: "map (\<lambda>i. if i < n then co_buffer ?c1 ! i @ [vs ! i] else co_buffer ?c1 ! i) [0..<length (co_buffer ?c1)]
      = map (\<lambda>i. if i < Suc n then co_buffer c ! i @ [vs ! i] else co_buffer c ! i) [0..<length (co_buffer c)]"
    using Suc.prems(2) by (auto simp: nth_list_update less_Suc_eq)
  show ?case using ih unfolding m by (simp add: d)
qed

text \<open>A set is consumed by an active, persistent component.\<close>

lemma stage_set_unwired:
  assumes "unwired c" and "co_active c" and "co_persistent c" and "lo_comps st com = Some c"
  shows "stage_set relay com s st = Some (Inr (True, set_comp com
    (c\<lparr>co_buffer := push_outs (fst (co_action c s)) (co_buffer c)\<rparr>)
    (st\<lparr>lo_out := lo_out st @ snd (co_action c s), lo_log := lo_log st @ [(com, s)]\<rparr>)))"
proof -
  let ?st1 = "st\<lparr>lo_out := lo_out st @ snd (co_action c s), lo_log := lo_log st @ [(com, s)]\<rparr>"
  have st1: "set_comp com c ?st1 = ?st1" using assms(4) by (intro set_comp_same) simp
  have map: "map (\<lambda>i. if i < length (co_buffer c) then co_buffer c ! i @ [fst (co_action c s) ! i] else co_buffer c ! i)
      [0..<length (co_buffer c)] = push_outs (fst (co_action c s)) (co_buffer c)"
    by (simp add: push_outs_def)
  have "unspool relay com (fst (co_action c s)) (length (co_buffer c)) ?st1
      = Some (Inr (set_comp com (c\<lparr>co_buffer := push_outs (fst (co_action c s)) (co_buffer c)\<rparr>) ?st1))"
    using unspool_buffers [OF assms(1) order_refl, of relay com "fst (co_action c s)" ?st1] st1 map by simp
  moreover have "c\<lparr>co_buffer := b, co_active := True\<rparr> = c\<lparr>co_buffer := b\<rparr>" for b
    using assms(2) by (cases c) simp
  note still = this
  ultimately show ?thesis
    using assms(2-4) by (cases "co_action c s") (simp add: stage_set_def with_comp_def still)
qed

lemma stage_action_unwired:
  assumes "unwired c" and "co_active c" and "co_persistent c" and "lo_comps st com = Some c"
  shows "stage_action relay com k st = Some (Inr (qd_add (- int (n_inputs c)) (set_comp com
    (c\<lparr>co_buffer := push_outs (fst (co_action c (co_incoming c ! k))) (co_buffer c),
       co_incoming := take k (co_incoming c) @ drop (Suc k) (co_incoming c), co_version := Suc (co_version c)\<rparr>)
    (st\<lparr>lo_out := lo_out st @ snd (co_action c (co_incoming c ! k)), lo_log := lo_log st @ [(com, co_incoming c ! k)]\<rparr>))))"
  using assms(4) by (simp add: stage_action_def with_comp_def [of com st] stage_set_unwired [OF assms])
    (simp add: with_comp_def n_inputs_def)

section \<open>A component that is active\<close>

definition online ::
  "'ty list \<Rightarrow> nat \<Rightarrow> ('v option list \<Rightarrow> 'v option list \<times> 'x list) \<Rightarrow> ('v, 'ty, 'x) component" where
  "online types outs act = (new_component types outs act)\<lparr>co_active := True, co_activated := True, co_persistent := True\<rparr>"

text \<open>The locality when the component \<open>com\<close> has the queues \<open>q\<close> and ran on the sets \<open>fired\<close>, \<open>k\<close> values having come.\<close>

definition lone_comp ::
  "'ty list \<Rightarrow> nat \<Rightarrow> ('v option list \<Rightarrow> 'v option list \<times> 'x list) \<Rightarrow> 'v option list list \<Rightarrow> nat
    \<Rightarrow> 'v option list list \<Rightarrow> ('v, 'ty, 'x) component" where
  "lone_comp types outs act ss ver fired = (online types outs act)\<lparr>co_incoming := ss, co_version := ver,
     co_buffer := map (\<lambda>i. map (\<lambda>s. fst (act s) ! i) fired) [0..<outs]\<rparr>"

definition lone_state ::
  "('v, 'ty, 'x) locality \<Rightarrow> nat \<Rightarrow> 'ty list \<Rightarrow> nat \<Rightarrow> ('v option list \<Rightarrow> 'v option list \<times> 'x list) \<Rightarrow> nat
    \<Rightarrow> 'v option list list \<Rightarrow> nat \<Rightarrow> 'v option list list \<Rightarrow> ('v, 'ty, 'x) locality" where
  "lone_state st0 com types outs act k ss ver fired = st0\<lparr>
     lo_comps := (lo_comps st0)(com \<mapsto> lone_comp types outs act ss ver fired),
     lo_qd := lo_qd st0 + int k - int (length types * length fired),
     lo_out := lo_out st0 @ concat (map (\<lambda>s. snd (act s)) fired),
     lo_log := lo_log st0 @ map (Pair com) fired\<rparr>"

lemma lone_comp_simps [simp]:
  "co_types (lone_comp types outs act ss ver fired) = types" "co_active (lone_comp types outs act ss ver fired)"
  "co_persistent (lone_comp types outs act ss ver fired)" "co_incoming (lone_comp types outs act ss ver fired) = ss"
  "co_action (lone_comp types outs act ss ver fired) = act" "co_version (lone_comp types outs act ss ver fired) = ver"
  "n_inputs (lone_comp types outs act ss ver fired) = length types" "unwired (lone_comp types outs act ss ver fired)"
  by (simp_all add: lone_comp_def online_def new_component_def n_inputs_def unwired_def)

lemma lone_state_comp [simp]:
  "lo_comps (lone_state st0 com types outs act k ss ver fired) com = Some (lone_comp types outs act ss ver fired)"
  by (simp add: lone_state_def)

lemma lone_state_change:
  "qd_add 1 (set_comp com ((lone_comp types outs act ss ver fired)\<lparr>co_incoming := ss'\<rparr>)
     (lone_state st0 com types outs act k ss ver fired)) = lone_state st0 com types outs act (Suc k) ss' ver fired"
  "qd_add 1 (set_comp com (push_set s (lone_comp types outs act ss ver fired))
     (lone_state st0 com types outs act k ss ver fired)) = lone_state st0 com types outs act (Suc k) (s # ss) (Suc ver) fired"
  by (rule locality.equality; simp add: lone_state_def lone_comp_def qd_add_def set_comp_def push_set_def
      online_def new_component_def)+

lemma push_lone: "push_outs (fst (act s)) (map (\<lambda>i. map (\<lambda>s. fst (act s) ! i) fired) [0..<outs])
    = map (\<lambda>i. map (\<lambda>s. fst (act s) ! i) (fired @ [s])) [0..<outs]"
  by (simp add: push_outs_def)

lemma stage_lone:
  "stage_action relay com m (lone_state st0 com types outs act k ss ver fired)
    = Some (Inr (lone_state st0 com types outs act k (take m ss @ drop (Suc m) ss) (Suc ver) (fired @ [ss ! m])))"
proof -
  let ?c = "lone_comp types outs act ss ver fired" and ?st = "lone_state st0 com types outs act k ss ver fired"
  let ?s = "ss ! m" and ?ss = "take m ss @ drop (Suc m) ss"
  have b: "push_outs (fst (act ?s)) (co_buffer ?c) = map (\<lambda>i. map (\<lambda>s. fst (act s) ! i) (fired @ [?s])) [0..<outs]"
    by (simp only: push_lone [symmetric]) (simp add: lone_comp_def)
  have "stage_action relay com m ?st = Some (Inr (qd_add (- int (n_inputs ?c)) (set_comp com
    (?c\<lparr>co_buffer := push_outs (fst (act ?s)) (co_buffer ?c), co_incoming := ?ss, co_version := Suc ver\<rparr>)
    (?st\<lparr>lo_out := lo_out ?st @ snd (act ?s), lo_log := lo_log ?st @ [(com, ?s)]\<rparr>))))"
    using stage_action_unwired [of ?c ?st com relay m] by (simp only: lone_comp_simps lone_state_comp)
  also have "qd_add (- int (n_inputs ?c)) (set_comp com
    (?c\<lparr>co_buffer := push_outs (fst (act ?s)) (co_buffer ?c), co_incoming := ?ss, co_version := Suc ver\<rparr>)
    (?st\<lparr>lo_out := lo_out ?st @ snd (act ?s), lo_log := lo_log ?st @ [(com, ?s)]\<rparr>))
    = lone_state st0 com types outs act k ?ss (Suc ver) (fired @ [?s])"
    unfolding b by (rule locality.equality)
      (simp_all add: lone_state_def lone_comp_def qd_add_def set_comp_def online_def new_component_def n_inputs_def algebra_simps)
  finally show ?thesis .
qed

interpretation lone: pairing com types relay "lone_comp types outs act" "lone_state st0 com types outs act"
  for com types relay outs act st0
  by unfold_locales (simp_all add: lone_state_change stage_lone butlast_conv_take)

definition accept_all ::
  "('v \<Rightarrow> 'ty option) \<Rightarrow> ('v, 'ty, 'x) relay \<Rightarrow> nat \<Rightarrow> (nat \<times> 'v) list \<Rightarrow> ('v, 'ty, 'x) locality
    \<Rightarrow> ('v, 'ty, 'x) locality run" where
  "accept_all vt relay com = run_all (\<lambda>(i, x). accept_value vt relay com i (Some x))"

lemma lone_state_0: "lo_comps st com = Some (online types outs act) \<Longrightarrow> lone_state st com types outs act 0 [] 0 [] = st"
  by (rule locality.equality) (simp_all add: lone_state_def lone_comp_def online_def new_component_def
      map_replicate_const fun_upd_idem)

text \<open>
  C24. A component with two or more inputs that is active and persistent, its outputs not wired: however values of the
  right types arrive at its ports, nothing fails, and the action has run once for every set
  that is complete, the \<open>j\<close>-th time on the \<open>j\<close>-th value that came at each port. The results
  are buffered in this order for every output, and quiescence detection counts the values that are left over.
\<close>

theorem component_pairs_in_order:
  assumes "2 \<le> length types" and "lo_comps st com = Some (online types outs act)"
    and "\<And>i x. (i, x) \<in> set es \<Longrightarrow> i < length types \<and> vt x = Some (types ! i)"
  shows "\<exists>st' c. let sets = map (\<lambda>j. map (\<lambda>i. Some (arrivals i es ! j)) [0..<length types]) [0..<rounds (length types) es] in
    accept_all vt relay com es st = Some (Inr st') \<and> lo_comps st' com = Some c \<and>
    lo_log st' = lo_log st @ map (Pair com) sets \<and> lo_out st' = lo_out st @ concat (map (\<lambda>s. snd (act s)) sets) \<and>
    co_buffer c = map (\<lambda>i. map (\<lambda>s. fst (act s) ! i) sets) [0..<outs] \<and>
    lo_qd st' = lo_qd st + int (length es) - int (length types * rounds (length types) es)"
proof -
  let ?S = "lone_state st com types outs act" and ?n = "length types"
  have es: "\<forall>e \<in> set es. fst e < ?n" using assms(3) by auto
  have n0: "0 < ?n" using assms(1) by linarith
  have acc: "(case e of (i, x) \<Rightarrow> accept_value vt relay com i (Some x)) (?S k ss ver fired)
      = accept_typed relay com (fst e) (Some (snd e)) (?S k ss ver fired)" if "e \<in> set es" for e k ss ver fired
    using assms(3) [of "fst e" "snd e"] that
    by (cases e) (simp add: accept_value_def with_comp_def)
  obtain ss ver where "run_all (\<lambda>(i, x). accept_value vt relay com i (Some x)) es (?S 0 [] 0 [])
      = Some (Inr (?S (length es) ss ver (snd (feeds ?n es))))"
    using lone.arrivals_feed [OF refl assms(1) es acc] by blast
  then have run: "accept_all vt relay com es st = Some (Inr (?S (length es) ss ver (snd (feeds ?n es))))"
    by (simp add: accept_all_def lone_state_0 [OF assms(2)])
  show ?thesis
    by (intro exI [of _ "?S (length es) ss ver (snd (feeds ?n es))"] exI [of _ "lone_comp types outs act ss ver (snd (feeds ?n es))"])
      (use run in \<open>simp add: Let_def feeds_rows(1) [OF n0 es] lone_state_def lone_comp_def comp_def\<close>)
qed

theorem component_pairs_in_order_witness:
  "\<exists>st'. accept_all (\<lambda>x. Some (fst x)) (relay_value (\<lambda>x. Some (fst x)) 0) 0 [(0, (10, 5)), (0, (10, 6)), (1, (20, 7::nat))]
      \<lparr>lo_comps = [0 \<mapsto> online [10::nat, 20] 1 (\<lambda>s. ([s ! 0], [s ! 1]))], lo_qd = 0, lo_out = [], lo_notes = 0, lo_log = []\<rparr>
      = Some (Inr st') \<and>
    lo_log st' = [(0, [Some (10, 5), Some (20, 7)])] \<and> lo_out st' = [Some (20, 7)] \<and> lo_qd st' = 1"
  using component_pairs_in_order
    [of "[10::nat, 20]" "\<lparr>lo_comps = [0 \<mapsto> online [10::nat, 20] 1 (\<lambda>s. ([s ! 0], [s ! 1]))], lo_qd = 0, lo_out = [], lo_notes = 0, lo_log = []\<rparr>"
      0 1 "\<lambda>s. ([s ! 0], [s ! 1])" "[(0, (10, 5)), (0, (10, 6)), (1, (20, 7::nat))]" "\<lambda>x. Some (fst x)" "relay_value (\<lambda>x. Some (fst x)) 0"]
  by (fastforce simp: Let_def rounds_def arrivals_def lessThan_Suc numeral_2_eq_2)

section \<open>A component that is activated late\<close>

definition offline ::
  "'ty \<Rightarrow> nat \<Rightarrow> ('v option list \<Rightarrow> 'v option list \<times> 'x list) \<Rightarrow> ('v, 'ty, 'x) component" where
  "offline ty outs act = (new_component [ty] outs act)\<lparr>co_persistent := True\<rparr>"

definition off_state ::
  "('v, 'ty, 'x) locality \<Rightarrow> nat \<Rightarrow> 'ty \<Rightarrow> nat \<Rightarrow> ('v option list \<Rightarrow> 'v option list \<times> 'x list)
    \<Rightarrow> 'v option list list \<Rightarrow> ('v, 'ty, 'x) locality" where
  "off_state st com ty outs act ss = qd_add (int (length ss)) (set_comp com
     ((offline ty outs act)\<lparr>co_incoming := ss, co_version := length ss\<rparr>) st)"

lemma off_state_accept:
  assumes "vt x = Some ty"
  shows "accept_value vt relay com 0 (Some x) (off_state st com ty outs act ss)
    = Some (Inr (off_state st com ty outs act ([Some x] # ss)))"
  using assms
  by (simp add: accept_value_def accept_typed_def direct_stage_def stage_set_def buffer_ready_set_def with_comp_def
      off_state_def offline_def new_component_def n_inputs_def push_set_def qd_add_def set_comp_def)

lemma off_state_accepts:
  "\<forall>x \<in> set xs. vt x = Some ty \<Longrightarrow>
    accept_all vt relay com (map (Pair 0) xs) (off_state st com ty outs act ss)
      = Some (Inr (off_state st com ty outs act (map (\<lambda>x. [Some x]) (rev xs) @ ss)))"
  by (induction xs arbitrary: ss) (simp_all add: accept_all_def off_state_accept)

lemma off_state_activated:
  "set_comp com ((offline ty outs act)\<lparr>co_incoming := ss, co_version := length ss, co_active := True, co_activated := True\<rparr>)
    (off_state st com ty outs act ss) = lone_state st com [ty] outs act (length ss) ss (length ss) []"
  by (rule locality.equality) (simp_all add: off_state_def offline_def lone_state_def lone_comp_def online_def
      new_component_def qd_add_def set_comp_def map_replicate_const)

lemma activate_loop_lone:
  assumes "\<forall>s \<in> set ss. is_ready s" and "length ss < fuel"
  shows "activate_loop relay fuel com (lone_state st com types outs act k ss ver fired)
    = Some (Inr (lone_state st com types outs act k [] (ver + length ss) (fired @ ss)))"
  using assms
proof (induction ss arbitrary: fuel ver fired)
  case Nil
  then show ?case by (cases fuel) (simp_all add: with_comp_def)
next
  case (Cons s ss)
  obtain f where f: "fuel = Suc f" using Cons.prems(2) by (cases fuel) auto
  show ?case
    unfolding f using Cons.IH [of f "Suc ver" "fired @ [s]"] Cons.prems f by (simp add: with_comp_def stage_lone)
qed

text \<open>
  C27. A persistent component with one input that is not active yet: whatever values come are kept,
  without a fault, and counted for quiescence detection. When it is activated, its loop ends, and its action has run on every
  one of them and in the opposite order: the newest first.
\<close>

theorem late_component_newest_first:
  assumes "lo_comps st com = Some (offline ty outs act)" and "\<forall>x \<in> set xs. vt x = Some ty" and "length xs < fuel"
  shows "\<exists>st1 st2. accept_all vt relay com (map (Pair 0) xs) st = Some (Inr st1) \<and>
    lo_log st1 = lo_log st \<and> lo_qd st1 = lo_qd st + int (length xs) \<and>
    activate relay fuel com st1 = Some (Inr st2) \<and>
    lo_log st2 = lo_log st @ map (\<lambda>x. (com, [Some x])) (rev xs) \<and> lo_qd st2 = lo_qd st"
proof -
  let ?ss = "map (\<lambda>x. [Some x]) (rev xs)"
  let ?st1 = "off_state st com ty outs act ?ss"
  have st: "off_state st com ty outs act [] = st"
    using assms(1) by (simp add: off_state_def offline_def new_component_def set_comp_same)
  have run: "accept_all vt relay com (map (Pair 0) xs) st = Some (Inr ?st1)"
    using off_state_accepts [OF assms(2), of relay com st outs act "[]"] st by simp
  have there: "lo_comps ?st1 com = Some ((offline ty outs act)\<lparr>co_incoming := ?ss, co_version := length ?ss\<rparr>)"
    by (simp add: off_state_def qd_add_def set_comp_def)
  have "activate relay fuel com ?st1
      = activate_loop relay fuel com (lone_state st com [ty] outs act (length ?ss) ?ss (length ?ss) [])"
    unfolding activate_def with_comp_def there off_state_activated [symmetric]
    by (simp add: offline_def new_component_def)
  also have "\<dots> = Some (Inr (lone_state st com [ty] outs act (length ?ss) [] (length ?ss + length ?ss) ([] @ ?ss)))"
    by (rule activate_loop_lone) (use assms(3) in \<open>auto simp: is_ready_def\<close>)
  finally have act: "activate relay fuel com ?st1 = \<dots>" .
  show ?thesis
    by (intro exI [of _ ?st1] exI [of _ "lone_state st com [ty] outs act (length ?ss) [] (length ?ss + length ?ss) ([] @ ?ss)"])
      (use run act in \<open>simp add: off_state_def qd_add_def set_comp_def lone_state_def\<close>)
qed

theorem late_component_newest_first_witness:
  "\<exists>st1 st2. accept_all (\<lambda>x. Some (0::nat)) (relay_value (\<lambda>x. Some 0) 0) 3 (map (Pair 0) [7, 8, 9::nat])
      \<lparr>lo_comps = [3 \<mapsto> offline 0 0 (\<lambda>s. ([], [s]))], lo_qd = 0, lo_out = [], lo_notes = 0, lo_log = []\<rparr> = Some (Inr st1) \<and>
    activate (relay_value (\<lambda>x. Some 0) 0) 4 3 st1 = Some (Inr st2) \<and>
    lo_log st2 = [(3, [Some 9]), (3, [Some 8]), (3, [Some 7])]"
  using late_component_newest_first
    [of "\<lparr>lo_comps = [3 \<mapsto> offline 0 0 (\<lambda>s. ([], [s]))], lo_qd = 0, lo_out = [], lo_notes = 0, lo_log = []\<rparr>"
      3 0 0 "\<lambda>s. ([], [s])" "[7, 8, 9::nat]" "\<lambda>x. Some (0::nat)" 4 "relay_value (\<lambda>x. Some 0) 0"]
  by auto

end
