(* ===== verification/Comex_Tester.thy ===== *)
theory Comex_Tester
  imports Comex_Order "HOL-Library.Word" "HOL-Library.Multiset"
begin

text \<open>
  \<open>archive/tests/comex/tester.cc\<close>: four elements of a chare array, each with an adder wired to a consumer, send
  each other integers and doubles; the adder and the consumer of an element have its index and the next number as ids.
\<close>

section \<open>Values and components\<close>

datatype port_type = TInt | TDouble

datatype 'd cvalue = VInt int | VDouble 'd

fun ctype :: "'d cvalue \<Rightarrow> port_type option" where
  "ctype (VInt _) = Some TInt"
| "ctype (VDouble _) = Some TDouble"

text \<open>The doubles of the machine: conversion, sum and the constant \<open>0.2345678\<close> are parameters.\<close>

record 'd doubles =
  d_of_int :: "int \<Rightarrow> 'd"
  d_plus :: "'d \<Rightarrow> 'd \<Rightarrow> 'd"
  d_default :: 'd

definition default_int :: int where
  "default_int = 87654321"

fun as_double :: "'d doubles \<Rightarrow> 'd cvalue \<Rightarrow> 'd" where
  "as_double D (VInt i) = d_of_int D i"
| "as_double D (VDouble d) = d"

text \<open>The actions; they are only run on a complete set, of two values and of one.\<close>

fun adder_action :: "'d doubles \<Rightarrow> 'd cvalue option list \<Rightarrow> 'd cvalue option list \<times> (nat \<times> 'd cvalue) list" where
  "adder_action D [Some a, Some b] = ([Some (VDouble (d_plus D (as_double D a) (as_double D b)))], [])"
| "adder_action D _ = ([None], [])"

fun consumer_action :: "nat \<Rightarrow> 'd cvalue option list \<Rightarrow> 'd cvalue option list \<times> (nat \<times> 'd cvalue) list" where
  "consumer_action com [Some v] = ([], [(com, v)])"
| "consumer_action com _ = ([], [])"

type_synonym 'd exchanger = "('d cvalue, port_type, nat \<times> 'd cvalue) locality"

text \<open>Relays nest once, from the adder to the consumer, whose outbox is empty.\<close>

definition tester_relay :: "('d cvalue, port_type, nat \<times> 'd cvalue) relay" where
  "tester_relay = relay_value ctype 1"

text \<open>A constructor: persistent, activated, and put into the map.\<close>

definition emplace ::
  "nat \<Rightarrow> ('d cvalue, port_type, nat \<times> 'd cvalue) component \<Rightarrow> 'd exchanger \<Rightarrow> 'd exchanger run" where
  "emplace com c st = activate tester_relay 1 com (set_comp com (c\<lparr>co_persistent := True\<rparr>) st)"

definition new_adder ::
  "'d doubles \<Rightarrow> port_type \<Rightarrow> port_type \<Rightarrow> ('d cvalue, port_type, nat \<times> 'd cvalue) component" where
  "new_adder D t u = new_component [t, u] 1 (adder_action D)"

definition new_consumer :: "nat \<Rightarrow> ('d cvalue, port_type, nat \<times> 'd cvalue) component" where
  "new_consumer com = new_component [TDouble] 0 (consumer_action com)"

definition accepts :: "('v, 'ty, 'x) component \<Rightarrow> nat \<Rightarrow> 'ty \<Rightarrow> bool" where
  "accepts c port ty \<longleftrightarrow> port < n_inputs c \<and> co_types c ! port = ty"

definition check_accepts :: "'d doubles \<Rightarrow> bool" where
  "check_accepts D \<longleftrightarrow> (let com = new_adder D TInt TDouble in
     accepts com 0 TInt \<and> accepts com 1 TDouble \<and> \<not> accepts com 1 TInt \<and> \<not> accepts com 2 TInt)"

section \<open>Elements\<close>

definition kNumElts :: nat where "kNumElts = 4"
definition kNumIters :: nat where "kNumIters = 8"

definition adder_types :: "nat \<Rightarrow> port_type \<times> port_type" where
  "adder_types mine = (if mine mod 2 = 0 then (TInt, TDouble) else (TDouble, TInt))"

definition exchanger_ctor :: "'d doubles \<Rightarrow> nat \<Rightarrow> 'd exchanger run" where
  "exchanger_ctor D mine =
     (if 255 < mine then Some (Inl Aborted)
      else bind_run (emplace (Suc mine) (new_consumer (Suc mine))
          \<lparr>lo_comps = Map.empty, lo_qd = 0, lo_out = [], lo_notes = 0, lo_log = []\<rparr>) (\<lambda>st.
        bind_run (emplace mine (case adder_types mine of (t, u) \<Rightarrow> new_adder D t u) st)
          (output_to tester_relay 1 mine 0 (Suc mine) 0)))"

text \<open>The reference number of a message, of 16 bits: the component in the high byte, the port in the low one.\<close>

definition encode_refnum :: "nat \<Rightarrow> nat \<Rightarrow> 16 word" where
  "encode_refnum com port = or (push_bit 8 (ucast (word_of_nat com :: 8 word))) (and 0xFF (word_of_nat port))"

definition refnum_port :: "16 word \<Rightarrow> nat" where
  "refnum_port r = unat (ucast r :: 8 word)"

definition refnum_com :: "16 word \<Rightarrow> nat" where
  "refnum_com r = unat (ucast (drop_bit 8 r) :: 8 word)"

type_synonym 'd data_msg = "nat \<times> 16 word \<times> 'd cvalue"

text \<open>The messages of \<open>do_sends\<close>: the element each one goes to, its reference number and its data.\<close>

definition do_sends :: "'d doubles \<Rightarrow> nat \<Rightarrow> 'd data_msg list" where
  "do_sends D mine =
     (let even = (mine + (2 - mine mod 2)) mod kNumElts; odd = (mine + mine mod 2 + 1) mod kNumElts
      in map (\<lambda>it.
        let dstPort = it mod 4 div 2;
            dstCom = (if it mod 2 = 0 then even else odd);
            v = (if (even = dstCom \<and> dstPort = 0) \<or> (odd = dstCom \<and> dstPort \<noteq> 0)
                 then VInt default_int else VDouble (d_default D))
        in (dstCom, encode_refnum dstCom dstPort, v)) [0..<kNumIters])"

definition exchanger_accept :: "16 word \<Rightarrow> 'd cvalue \<Rightarrow> 'd exchanger \<Rightarrow> 'd exchanger run" where
  "exchanger_accept r v st = accept_msg ctype tester_relay (refnum_com r) (refnum_port r) v st"

section \<open>The program\<close>

text \<open>The elements that have been created, and the messages on their way.\<close>

record 'd exnet =
  ex_elems :: "nat \<Rightarrow> 'd exchanger option"
  ex_wire :: "'d data_msg list"

inductive exchange_step :: "'d doubles \<Rightarrow> 'd exnet \<Rightarrow> 'd exnet \<Rightarrow> bool" for D where
  construct: "i < kNumElts \<Longrightarrow> ex_elems net i = None \<Longrightarrow> exchanger_ctor D i = Some (Inr st) \<Longrightarrow>
    exchange_step D net (net\<lparr>ex_elems := (ex_elems net)(i \<mapsto> st), ex_wire := ex_wire net @ do_sends D i\<rparr>)"
| deliver: "ex_wire net = as @ (i, r, v) # bs \<Longrightarrow> ex_elems net i = Some st \<Longrightarrow>
    exchanger_accept r v st = Some (Inr st') \<Longrightarrow>
    exchange_step D net (net\<lparr>ex_elems := (ex_elems net)(i \<mapsto> st'), ex_wire := as @ bs\<rparr>)"

definition exchange_init :: "'d exnet \<Rightarrow> bool" where
  "exchange_init net \<longleftrightarrow> net = \<lparr>ex_elems = Map.empty, ex_wire = []\<rparr>"

definition exchange_reach :: "'d doubles \<Rightarrow> 'd exnet \<Rightarrow> bool" where
  "exchange_reach D = reach exchange_init (exchange_step D)"

section \<open>One element\<close>

lemma check_accepts_holds: "check_accepts D"
  by (simp add: check_accepts_def accepts_def new_adder_def new_component_def n_inputs_def)

definition ex_types :: "nat \<Rightarrow> port_type list" where
  "ex_types mine = (case adder_types mine of (t, u) \<Rightarrow> [t, u])"

definition ex_adder ::
  "'d doubles \<Rightarrow> nat \<Rightarrow> 'd cvalue option list list \<Rightarrow> nat \<Rightarrow> ('d cvalue, port_type, nat \<times> 'd cvalue) component" where
  "ex_adder D mine ss ver = (online (ex_types mine) 1 (adder_action D))\<lparr>co_conn := [Some (Suc mine, 0)],
     co_incoming := ss, co_version := ver\<rparr>"

definition ex_state ::
  "'d doubles \<Rightarrow> nat \<Rightarrow> nat \<Rightarrow> 'd cvalue option list list \<Rightarrow> nat \<Rightarrow> 'd cvalue option list list \<Rightarrow> 'd exchanger" where
  "ex_state D mine k ss ver fired = \<lparr>
     lo_comps = [mine \<mapsto> ex_adder D mine ss ver, Suc mine \<mapsto> online [TDouble] 0 (consumer_action (Suc mine))],
     lo_qd = int k - int (2 * length fired),
     lo_out = concat (map (\<lambda>s. snd (consumer_action (Suc mine) (fst (adder_action D s)))) fired),
     lo_notes = 0,
     lo_log = concat (map (\<lambda>s. [(mine, s), (Suc mine, fst (adder_action D s))]) fired)\<rparr>"

lemma ctor_state:
  assumes "mine \<le> 255"
  shows "exchanger_ctor D mine = Some (Inr (ex_state D mine 0 [] 0 []))"
proof -
  have "adder_types mine = (ex_types mine ! 0, ex_types mine ! 1)" "ex_types mine = [ex_types mine ! 0, ex_types mine ! 1]"
    by (simp_all add: ex_types_def adder_types_def)
  then show ?thesis
    using assms
    by (simp add: exchanger_ctor_def emplace_def activate_def with_comp_def set_comp_def new_consumer_def new_adder_def
        new_component_def output_to_def connect_to_def ex_state_def ex_adder_def online_def fun_upd_twist)
qed

text \<open>The adder runs on a complete set, and the consumer on its sum.\<close>

lemma ready_pair:
  assumes "is_ready s" and "length s = length (ex_types mine)"
  obtains a b where "s = [Some a, Some b]"
proof -
  have "length s = Suc (Suc 0)" using assms(2) by (simp add: ex_types_def adder_types_def split: prod.splits if_splits)
  then obtain x y where s: "s = [x, y]" by (auto simp: length_Suc_conv)
  then show thesis using assms(1) that by (cases x; cases y) (auto simp: is_ready_def)
qed

lemma relay_sum:
  "tester_relay (Suc mine) 0 (Some (VDouble d)) st = Some (Inr (st\<lparr>lo_out := lo_out st @ [(Suc mine, VDouble d)],
     lo_log := lo_log st @ [(Suc mine, [Some (VDouble d)])]\<rparr>))"
  if "lo_comps st (Suc mine) = Some (online [TDouble] 0 (consumer_action (Suc mine)))"
proof -
  have same: "(online [TDouble] 0 (consumer_action (Suc mine)))\<lparr>co_active := True\<rparr> = online [TDouble] 0 (consumer_action (Suc mine))"
    by (simp add: online_def)
  show ?thesis
    using that same
    by (simp add: tester_relay_def accept_value_def accept_typed_def direct_stage_def stage_set_def with_comp_def
      online_def new_component_def n_inputs_def set_comp_def fun_upd_idem)
qed

lemma ex_stage:
  assumes "ss \<noteq> []" and "is_ready (ss ! (length ss - 1))" and "length (ss ! (length ss - 1)) = length (ex_types mine)"
  shows "stage_action tester_relay mine (length ss - 1) (ex_state D mine k ss ver fired)
    = Some (Inr (ex_state D mine k (butlast ss) (Suc ver) (fired @ [ss ! (length ss - 1)])))"
proof -
  obtain a b where s: "ss ! (length ss - 1) = [Some a, Some b]" using ready_pair [OF assms(2,3)] by blast
  let ?d = "VDouble (d_plus D (as_double D a) (as_double D b))"
  let ?c = "ex_adder D mine ss ver" and ?st = "ex_state D mine k ss ver fired"
  have c: "lo_comps ?st mine = Some ?c" by (simp add: ex_state_def)
  have same: "?c\<lparr>co_active := True\<rparr> = ?c" by (simp add: ex_adder_def online_def)
  let ?st1 = "?st\<lparr>lo_log := lo_log ?st @ [(mine, [Some a, Some b])]\<rparr>"
  let ?st2 = "?st1\<lparr>lo_out := lo_out ?st1 @ [(Suc mine, ?d)], lo_log := lo_log ?st1 @ [(Suc mine, [Some ?d])]\<rparr>"
  have relay: "tester_relay (Suc mine) 0 (Some ?d) ?st1 = Some (Inr ?st2)"
    by (rule relay_sum) (simp add: ex_state_def)
  have flags: "co_active ?c" "co_persistent ?c" "co_action ?c = adder_action D" "co_buffer ?c = [[]]"
    "co_conn ?c = [Some (Suc mine, 0)]" "co_incoming ?c = ss" "co_version ?c = ver" "n_inputs ?c = 2"
    by (simp_all add: ex_adder_def online_def new_component_def n_inputs_def ex_types_def adder_types_def)
  have "unspool tester_relay mine [Some ?d] 1 ?st1 = Some (Inr ?st2)"
    using c flags relay by (simp add: outbox_deliver_def with_comp_def connector_relay_def)
  then have set: "stage_set tester_relay mine (ss ! (length ss - 1)) ?st = Some (Inr (True, ?st2))"
    using c flags same unfolding s by (simp add: stage_set_def with_comp_def set_comp_same)
  have "stage_action tester_relay mine (length ss - 1) ?st = Some (Inr (qd_add (- int (n_inputs ?c)) (set_comp mine
      (?c\<lparr>co_incoming := take (length ss - 1) ss @ drop (Suc (length ss - 1)) ss, co_version := Suc ver\<rparr>) ?st2)))"
    using c flags set by (simp add: stage_action_def with_comp_def)
  also have "take (length ss - 1) ss @ drop (Suc (length ss - 1)) ss = butlast ss" by (simp add: butlast_conv_take)
  also have "qd_add (- int (n_inputs ?c)) (set_comp mine (?c\<lparr>co_incoming := butlast ss, co_version := Suc ver\<rparr>) ?st2)
      = ex_state D mine k (butlast ss) (Suc ver) (fired @ [[Some a, Some b]])"
    unfolding flags(8) by (simp add: ex_state_def ex_adder_def qd_add_def set_comp_def fun_upd_twist)
  finally show ?thesis unfolding s .
qed

interpretation ex: pairing mine "ex_types mine" tester_relay "\<lambda>ss ver fired. ex_adder D mine ss ver" "ex_state D mine" for mine D
proof unfold_locales
  fix k ver and ss fired :: "'a cvalue option list list"
  assume "ss \<noteq> []" "is_ready (ss ! (length ss - 1))" "length (ss ! (length ss - 1)) = length (ex_types mine)"
  then show "stage_action tester_relay mine (length ss - 1) (ex_state D mine k ss ver fired)
    = Some (Inr (ex_state D mine k (butlast ss) (Suc ver) (fired @ [ss ! (length ss - 1)])))"
    by (rule ex_stage)
qed (simp_all add: ex_state_def ex_adder_def online_def new_component_def qd_add_def set_comp_def push_set_def fun_upd_twist)

text \<open>Reference numbers.\<close>

lemma refnum_roundtrip:
  assumes "com < 256" and "port < 256"
  shows "refnum_com (encode_refnum com port) = com" "refnum_port (encode_refnum com port) = port"
proof -
  have "refnum_com (encode_refnum com port) = unat (word_of_nat com :: 8 word)"
    unfolding refnum_com_def encode_refnum_def
    by (rule arg_cong [where f = unat], rule bit_word_eqI) (auto simp: bit_simps)
  then show "refnum_com (encode_refnum com port) = com" using assms(1) by (simp add: unat_of_nat)
  have mask: "0xFF = (mask 8 :: 16 word)" by (simp add: mask_eq_exp_minus_1)
  have "refnum_port (encode_refnum com port) = unat (word_of_nat port :: 8 word)"
    unfolding refnum_port_def encode_refnum_def mask
    by (rule arg_cong [where f = unat], rule bit_word_eqI) (auto simp: bit_simps)
  then show "refnum_port (encode_refnum com port) = port" using assms(2) by (simp add: unat_of_nat)
qed

section \<open>The exchange\<close>

text \<open>The value that every sender has for a port of element \<open>i\<close>, and the two sums.\<close>

definition ex_value :: "'d doubles \<Rightarrow> nat \<Rightarrow> nat \<Rightarrow> 'd cvalue" where
  "ex_value D i port = (if even i \<longleftrightarrow> port = 0 then VInt default_int else VDouble (d_default D))"

definition ex_sum :: "'d doubles \<Rightarrow> nat \<Rightarrow> 'd cvalue" where
  "ex_sum D i = VDouble (d_plus D (as_double D (ex_value D i 0)) (as_double D (ex_value D i 1)))"

text \<open>A message as element \<open>i\<close> reads it; which senders an element has, and what they send.\<close>

definition ex_event :: "'d data_msg \<Rightarrow> nat \<times> 'd cvalue" where
  "ex_event m = (case m of (i, r, v) \<Rightarrow> (refnum_port r, v))"

definition sent_to :: "nat \<Rightarrow> 'd data_msg list \<Rightarrow> (nat \<times> 'd cvalue) multiset" where
  "sent_to i ms = mset (map ex_event (filter (\<lambda>m. fst m = i) ms))"

definition good_msg :: "'d doubles \<Rightarrow> 'd data_msg \<Rightarrow> bool" where
  "good_msg D m \<longleftrightarrow> (case m of (i, r, v) \<Rightarrow> i < kNumElts \<and> refnum_com r = i \<and> refnum_port r < 2 \<and>
     v = ex_value D i (refnum_port r))"

lemma less_4_cases: "i < kNumElts \<longleftrightarrow> i = 0 \<or> i = 1 \<or> i = 2 \<or> i = 3"
  by (auto simp: kNumElts_def)

definition ex_msg :: "'d doubles \<Rightarrow> nat \<Rightarrow> nat \<Rightarrow> 'd data_msg" where
  "ex_msg D i port = (i, encode_refnum i port, ex_value D i port)"

lemma ex_msg_good: "i < kNumElts \<Longrightarrow> port < 2 \<Longrightarrow> good_msg D (ex_msg D i port)"
  by (simp add: good_msg_def ex_msg_def refnum_roundtrip kNumElts_def)

lemma sent_to_simps:
  "sent_to i [] = {#}"
  "c < 256 \<Longrightarrow> port < 256 \<Longrightarrow> sent_to i (ex_msg D c port # ms)
    = (if c = i then add_mset (port, ex_value D c port) (sent_to i ms) else sent_to i ms)"
  by (simp_all add: sent_to_def ex_event_def ex_msg_def refnum_roundtrip)

lemma do_sends_list:
  "do_sends D 0 = [ex_msg D 2 0, ex_msg D 1 0, ex_msg D 2 1, ex_msg D 1 1, ex_msg D 2 0, ex_msg D 1 0, ex_msg D 2 1, ex_msg D 1 1]"
  "do_sends D 1 = [ex_msg D 2 0, ex_msg D 3 0, ex_msg D 2 1, ex_msg D 3 1, ex_msg D 2 0, ex_msg D 3 0, ex_msg D 2 1, ex_msg D 3 1]"
  "do_sends D 2 = [ex_msg D 0 0, ex_msg D 3 0, ex_msg D 0 1, ex_msg D 3 1, ex_msg D 0 0, ex_msg D 3 0, ex_msg D 0 1, ex_msg D 3 1]"
  "do_sends D 3 = [ex_msg D 0 0, ex_msg D 1 0, ex_msg D 0 1, ex_msg D 1 1, ex_msg D 0 0, ex_msg D 1 0, ex_msg D 0 1, ex_msg D 1 1]"
  by (simp_all add: do_sends_def kNumIters_def kNumElts_def upt_rec Let_def ex_msg_def ex_value_def,
    simp_all add: numeral_2_eq_2)

lemma do_sends_good: "i < kNumElts \<Longrightarrow> \<forall>m \<in> set (do_sends D i). good_msg D m"
  unfolding less_4_cases
  by (elim disjE) (simp_all add: do_sends_list do_sends_list(2) [simplified] ex_msg_good less_4_cases)

lemma replicate_4: "replicate_mset 4 x = {#x, x, x, x#}"
  by (simp add: numeral_eq_Suc)

lemma all_sent:
  assumes "i < kNumElts"
  shows "(\<Sum>j<kNumElts. sent_to i (do_sends D j)) = replicate_mset 4 (0, ex_value D i 0) + replicate_mset 4 (1, ex_value D i 1)"
proof -
  have "sent_to i (do_sends D 0) + sent_to i (do_sends D 1) + sent_to i (do_sends D 2) + sent_to i (do_sends D 3)
    = replicate_mset 4 (0, ex_value D i 0) + replicate_mset 4 (1, ex_value D i 1)"
    using assms unfolding less_4_cases do_sends_list replicate_4
    by (elim disjE) (simp_all add: sent_to_simps)
  moreover have "{..<kNumElts} = {0, 1, 2, 3}" by (auto simp: less_4_cases)
  ultimately show ?thesis by (simp add: add.assoc)
qed

text \<open>An element that has received \<open>es\<close>.\<close>

definition elem_at :: "'d doubles \<Rightarrow> nat \<Rightarrow> (nat \<times> 'd cvalue) list \<Rightarrow> 'd exchanger \<Rightarrow> bool" where
  "elem_at D i es st \<longleftrightarrow> (\<forall>e \<in> set es. fst e < 2) \<and>
     (\<exists>ss ver. rows_of 2 (fst (feeds 2 es)) ss \<and> st = ex_state D i (length es) ss ver (snd (feeds 2 es)))"

lemma ex_types_length [simp]: "length (ex_types i) = 2"
  by (simp add: ex_types_def adder_types_def)

lemma ex_value_type: "port < 2 \<Longrightarrow> ctype (ex_value D i port) = Some (ex_types i ! port)"
  by (auto simp: less_2_cases_iff ex_value_def ex_types_def adder_types_def even_iff_mod_2_eq_zero)

lemma elem_at_0: "elem_at D i [] (ex_state D i 0 [] 0 [])"
  by (auto simp: elem_at_def feeds_def rows_of_def)

lemma elem_accepts:
  assumes at: "elem_at D i es st" and good: "good_msg D (i, r, v)"
  shows "\<exists>st'. exchanger_accept r v st = Some (Inr st') \<and> elem_at D i (es @ [(refnum_port r, v)]) st'"
proof -
  let ?p = "refnum_port r"
  have p: "?p < 2" "refnum_com r = i" "v = ex_value D i ?p" using good by (simp_all add: good_msg_def)
  have es: "\<forall>e \<in> set es. fst e < 2" using at by (simp add: elem_at_def)
  obtain ss ver where r: "rows_of 2 (fst (feeds 2 es)) ss"
    and st: "st = ex_state D i (length es) ss ver (snd (feeds 2 es))" using at unfolding elem_at_def by blast
  have f: "feed 2 (?p, v) (fst (feeds 2 es), snd (feeds 2 es))
      = (fst (feeds 2 (es @ [(?p, v)])), snd (feeds 2 (es @ [(?p, v)])))" by (simp add: feeds_snoc)
  obtain ss' ver' where 1: "accept_typed tester_relay i ?p (Some v) st
      = Some (Inr (ex_state D i (Suc (length es)) ss' ver' (snd (feeds 2 (es @ [(?p, v)])))))"
    "rows_of 2 (fst (feeds 2 (es @ [(?p, v)]))) ss'"
    using ex.accept_feeds [OF r _ _ p(1) _ f, of i D "length es" ver] feeds_rows(2) [OF _ es] unfolding st by auto
  have "lo_comps st i = Some (ex_adder D i ss ver)" by (simp add: st ex_state_def)
  then have "exchanger_accept r v st = accept_typed tester_relay i ?p (Some v) st"
    using p(1) ex_value_type [OF p(1), of D i]
    by (simp add: exchanger_accept_def accept_msg_def with_comp_def p(2) p(3) [symmetric] ex_adder_def online_def
        new_component_def n_inputs_def)
  then show ?thesis using 1 es p(1) by (auto simp: elem_at_def)
qed

definition elem_inv :: "'d doubles \<Rightarrow> 'd exnet \<Rightarrow> nat \<Rightarrow> (nat \<times> 'd cvalue) list \<Rightarrow> bool" where
  "elem_inv D net i es \<longleftrightarrow> (case ex_elems net i of None \<Rightarrow> es = [] | Some st \<Rightarrow> elem_at D i es st) \<and>
     mset es + sent_to i (ex_wire net) = (\<Sum>j\<in>dom (ex_elems net). sent_to i (do_sends D j))"

definition ex_inv :: "'d doubles \<Rightarrow> 'd exnet \<Rightarrow> bool" where
  "ex_inv D net \<longleftrightarrow> (\<forall>m \<in> set (ex_wire net). good_msg D m) \<and> dom (ex_elems net) \<subseteq> {..<kNumElts} \<and>
     (\<forall>i<kNumElts. \<exists>es. elem_inv D net i es)"

lemma sent_to_append: "sent_to i (ms @ ms') = sent_to i ms + sent_to i ms'"
  by (simp add: sent_to_def)

lemma ex_inv_init: "exchange_init net \<Longrightarrow> ex_inv D net"
  by (simp add: ex_inv_def elem_inv_def exchange_init_def sent_to_def)

lemma ex_inv_construct:
  assumes inv: "ex_inv D net" and i: "i < kNumElts" "ex_elems net i = None" and st: "exchanger_ctor D i = Some (Inr st)"
  shows "ex_inv D (net\<lparr>ex_elems := (ex_elems net)(i \<mapsto> st), ex_wire := ex_wire net @ do_sends D i\<rparr>)"
proof -
  have "st = ex_state D i 0 [] 0 []" using st ctor_state [of i D] i(1) by (simp add: kNumElts_def)
  then have at: "elem_at D i [] st" using elem_at_0 by simp
  have dom: "dom (ex_elems net) \<subseteq> {..<kNumElts}" "i \<notin> dom (ex_elems net)" using inv i(2) by (auto simp: ex_inv_def)
  then have fin: "finite (dom (ex_elems net))" using finite_subset by blast
  let ?net = "net\<lparr>ex_elems := (ex_elems net)(i \<mapsto> st), ex_wire := ex_wire net @ do_sends D i\<rparr>"
  have "\<exists>es. elem_inv D ?net j es" if j: "j < kNumElts" for j
  proof -
    obtain es where es: "elem_inv D net j es" using inv j unfolding ex_inv_def by blast
    then have "mset es + sent_to j (ex_wire net @ do_sends D i) = (\<Sum>k\<in>insert i (dom (ex_elems net)). sent_to j (do_sends D k))"
      using fin dom(2) by (simp add: elem_inv_def sent_to_append add_ac)
    then have "elem_inv D ?net j es" using es at i(2) by (cases "j = i") (simp_all add: elem_inv_def)
    then show ?thesis by blast
  qed
  moreover have "\<forall>m \<in> set (ex_wire net @ do_sends D i). good_msg D m"
    using inv do_sends_good [OF i(1), of D] unfolding ex_inv_def by auto
  ultimately show ?thesis using dom(1) i(1) unfolding ex_inv_def by simp
qed

lemma ex_inv_deliver:
  assumes inv: "ex_inv D net" and w: "ex_wire net = as @ (i, r, v) # bs" and st: "ex_elems net i = Some st"
    and acc: "exchanger_accept r v st = Some (Inr st')"
  shows "ex_inv D (net\<lparr>ex_elems := (ex_elems net)(i \<mapsto> st'), ex_wire := as @ bs\<rparr>)"
proof -
  have good: "good_msg D (i, r, v)" using inv w by (simp add: ex_inv_def)
  have i: "i < kNumElts" using good by (simp add: good_msg_def)
  have dom: "insert i (dom (ex_elems net)) = dom (ex_elems net)" using st by blast
  have sent: "sent_to j (ex_wire net) = (if j = i then {#(refnum_port r, v)#} else {#}) + sent_to j (as @ bs)" for j
    unfolding w by (simp add: sent_to_def ex_event_def)
  let ?net = "net\<lparr>ex_elems := (ex_elems net)(i \<mapsto> st'), ex_wire := as @ bs\<rparr>"
  have "\<exists>es. elem_inv D ?net j es" if j: "j < kNumElts" for j
  proof -
    obtain es where es: "elem_inv D net j es" using inv j unfolding ex_inv_def by blast
    show ?thesis
    proof (cases "j = i")
      case True
      then have "elem_at D i es st" using es st by (simp add: elem_inv_def)
      then have "elem_at D i (es @ [(refnum_port r, v)]) st'" using elem_accepts [OF _ good] acc by fastforce
      then have "elem_inv D ?net j (es @ [(refnum_port r, v)])"
        using es sent [of j] True dom by (simp add: elem_inv_def)
      then show ?thesis by blast
    next
      case False
      then have "elem_inv D ?net j es" using es sent [of j] dom by (simp add: elem_inv_def)
      then show ?thesis by blast
    qed
  qed
  then show ?thesis using inv w dom i unfolding ex_inv_def by simp
qed

interpretation ex_safety: safety exchange_init "exchange_step D" "ex_inv D" for D
proof unfold_locales
  show "exchange_step D net net' \<Longrightarrow> ex_inv D net \<Longrightarrow> ex_inv D net'" for net net'
    by (erule exchange_step.cases) (use ex_inv_construct ex_inv_deliver in blast)+
qed (rule ex_inv_init)

text \<open>What is left to do: elements to construct, and messages to deliver.\<close>

definition ex_left :: "'d exnet \<Rightarrow> nat" where
  "ex_left net = 9 * card ({..<kNumElts} - dom (ex_elems net)) + length (ex_wire net)"

lemma do_sends_length: "length (do_sends D i) = 8"
  by (simp add: do_sends_def kNumIters_def Let_def)

lemma ex_left_less: "exchange_step D net net' \<Longrightarrow> ex_left net' < ex_left net"
proof (induction rule: exchange_step.induct)
  case (construct i net st)
  let ?A = "{..<kNumElts} - dom (ex_elems net)"
  have "i \<in> ?A" using construct by auto
  then have "card ?A = Suc (card (?A - {i}))" using card.remove [of ?A i] by simp
  moreover have "{..<kNumElts} - insert i (dom (ex_elems net)) = ?A - {i}" by auto
  ultimately show ?case by (simp add: ex_left_def do_sends_length)
next
  case (deliver net as i r v bs st st')
  then have "insert i (dom (ex_elems net)) = dom (ex_elems net)" by blast
  then show ?case by (simp add: ex_left_def deliver)
qed

lemma mset_replicate: "mset xs = replicate_mset n x \<Longrightarrow> xs = replicate n x"
  by (metis in_replicate_mset replicate_eqI set_mset_mset size_mset size_replicate_mset)

lemma all_arrived:
  assumes at: "elem_at D i es st" and i: "i < kNumElts"
    and es: "mset es = replicate_mset 4 (0, ex_value D i 0) + replicate_mset 4 (1, ex_value D i 1)"
  shows "lo_out st = replicate 4 (Suc i, ex_sum D i) \<and> lo_qd st = 0"
proof -
  have "mset (arrivals j es) = image_mset snd (filter_mset (\<lambda>e. fst e = j) (mset es))" for j
    by (simp add: arrivals_def)
  then have m4: "mset (arrivals j es) = replicate_mset 4 (ex_value D i j)" if "j = 0 \<or> j = 1" for j
    using that unfolding es replicate_4 by auto
  have a: "arrivals j es = replicate 4 (ex_value D i j)" if "j = 0 \<or> j = 1" for j
    by (rule mset_replicate [OF m4 [OF that]])
  have e2: "\<forall>e \<in> set es. fst e < 2" using at by (simp add: elem_at_def)
  have "(\<lambda>j. length (arrivals j es)) ` {..<2} = {4}" using a by (auto simp: less_2_cases_iff image_iff intro: exI [of _ 0])
  then have r: "rounds 2 es = 4" by (simp add: rounds_def)
  have "snd (feeds 2 es) = map (\<lambda>j. map (\<lambda>i. Some (arrivals i es ! j)) [0..<2]) [0..<4]"
    using feeds_rows(1) [OF _ e2] r by simp
  also have "\<dots> = replicate 4 [Some (ex_value D i 0), Some (ex_value D i 1)]"
    using a by (simp add: upt_rec numeral_eq_Suc)
  finally have f: "snd (feeds 2 es) = replicate 4 [Some (ex_value D i 0), Some (ex_value D i 1)]" .
  have len: "length es = 8" using es by (metis size_mset size_replicate_mset size_union numeral_Bit0)
  obtain ss ver where "st = ex_state D i 8 ss ver (replicate 4 [Some (ex_value D i 0), Some (ex_value D i 1)])"
    using at f len by (auto simp: elem_at_def)
  then show ?thesis by (simp add: ex_state_def ex_sum_def numeral_eq_Suc)
qed

text \<open>
  C16. The tester, its elements created and its messages delivered in any order: no constructor and no delivery ever fails,
  every step leaves less to do, and when no step is left each of the four elements has printed exactly four times, under the
  id of its consumer, the sum of the two default values in the order of its ports, and holds no value, so
  that quiescence is detected.
\<close>

theorem exchange_completes:
  assumes "exchange_reach D net"
  shows "(\<forall>i<kNumElts. ex_elems net i = None \<longrightarrow> (\<exists>st. exchanger_ctor D i = Some (Inr st))) \<and>
    (\<forall>i r v st. (i, r, v) \<in> set (ex_wire net) \<longrightarrow> ex_elems net i = Some st \<longrightarrow> (\<exists>st'. exchanger_accept r v st = Some (Inr st'))) \<and>
    (\<forall>net'. exchange_step D net net' \<longrightarrow> ex_left net' < ex_left net) \<and>
    ((\<nexists>net'. exchange_step D net net') \<longrightarrow> (\<forall>i<kNumElts. \<exists>st. ex_elems net i = Some st \<and>
      lo_out st = replicate 4 (Suc i, ex_sum D i) \<and> lo_qd st = 0))"
proof -
  have inv: "ex_inv D net" using assms unfolding exchange_reach_def by (rule ex_safety.reach_inv)
  have ctor: "\<exists>st. exchanger_ctor D i = Some (Inr st)" if "i < kNumElts" for i
    using ctor_state [of i D] that by (simp add: kNumElts_def)
  have acc: "\<exists>st'. exchanger_accept r v st = Some (Inr st')"
    if m: "(i, r, v) \<in> set (ex_wire net)" and st: "ex_elems net i = Some st" for i r v st
  proof -
    have good: "good_msg D (i, r, v)" using inv m by (auto simp: ex_inv_def)
    then obtain es where "elem_inv D net i es" using inv by (auto simp: ex_inv_def good_msg_def)
    then show ?thesis using elem_accepts [OF _ good] st by (fastforce simp: elem_inv_def)
  qed
  have done_: "\<exists>st. ex_elems net i = Some st \<and> lo_out st = replicate 4 (Suc i, ex_sum D i) \<and> lo_qd st = 0"
    if stuck: "\<nexists>net'. exchange_step D net net'" and i: "i < kNumElts" for i
  proof -
    have all: "ex_elems net j \<noteq> None" if "j < kNumElts" for j
      using construct [OF that] ctor [OF that] stuck by blast
    have wire: "ex_wire net = []"
    proof (rule ccontr)
      assume "ex_wire net \<noteq> []"
      then obtain j r v bs where w: "ex_wire net = [] @ (j, r, v) # bs" by (cases "ex_wire net") auto
      then have "j < kNumElts" using inv by (auto simp: ex_inv_def good_msg_def)
      then obtain st where st: "ex_elems net j = Some st" using all by blast
      then show False using deliver [OF w st] acc [of j r v st] w stuck by auto
    qed
    have dom: "dom (ex_elems net) = {..<kNumElts}" using inv all by (auto simp: ex_inv_def)
    obtain es where es: "elem_inv D net i es" using inv i unfolding ex_inv_def by blast
    obtain st where st: "ex_elems net i = Some st" using all [OF i] by blast
    have "mset es = (\<Sum>j<kNumElts. sent_to i (do_sends D j))"
      using es wire dom by (simp add: elem_inv_def sent_to_def)
    then show ?thesis using all_arrived [of D i es st] es st i all_sent [OF i, of D] by (simp add: elem_inv_def)
  qed
  show ?thesis using ctor acc done_ ex_left_less by blast
qed

theorem exchange_completes_witness:
  "\<exists>net. exchange_reach \<lparr>d_of_int = \<lambda>i. 2 * i, d_plus = (+), d_default = 5 :: int\<rparr> net \<and> ex_left net = 34 \<and>
    (\<exists>st'. exchanger_accept (encode_refnum 0 0) (VInt default_int) (ex_state \<lparr>d_of_int = \<lambda>i. 2 * i, d_plus = (+), d_default = 5\<rparr> 0 0 [] 0 [])
      = Some (Inr (st' :: int exchanger)))"
proof -
  let ?D = "\<lparr>d_of_int = \<lambda>i. 2 * i, d_plus = (+), d_default = 5 :: int\<rparr>"
  let ?n0 = "\<lparr>ex_elems = Map.empty, ex_wire = []\<rparr> :: int exnet"
  let ?n1 = "\<lparr>ex_elems = [0 \<mapsto> ex_state ?D 0 0 [] 0 []], ex_wire = do_sends ?D 0\<rparr>"
  let ?n2 = "\<lparr>ex_elems = [0 \<mapsto> ex_state ?D 0 0 [] 0 [], 2 \<mapsto> ex_state ?D 2 0 [] 0 []], ex_wire = do_sends ?D 0 @ do_sends ?D 2\<rparr>"
  have "reach exchange_init (exchange_step ?D) ?n0" by (rule reach_init) (simp add: exchange_init_def)
  moreover have "exchange_step ?D ?n0 ?n1"
    using construct [of 0 ?n0 ?D] ctor_state [of 0 ?D] by (simp add: kNumElts_def)
  moreover have "exchange_step ?D ?n1 ?n2"
    using construct [of 2 ?n1 ?D] ctor_state [of 2 ?D] by (simp add: kNumElts_def)
  ultimately have r: "exchange_reach ?D ?n2" unfolding exchange_reach_def by (meson reach_step)
  have "(0, encode_refnum 0 0, VInt default_int) \<in> set (ex_wire ?n2)"
    by (simp add: do_sends_list ex_msg_def ex_value_def)
  then have "\<exists>st'. exchanger_accept (encode_refnum 0 0) (VInt default_int) (ex_state ?D 0 0 [] 0 []) = Some (Inr st')"
    using conjunct1 [OF conjunct2 [OF exchange_completes [OF r]], rule_format, of 0] by simp
  moreover have "{..<kNumElts} - {2, 0} = {1, 3}" by (auto simp: less_4_cases)
  then have "ex_left ?n2 = 34" by (simp add: ex_left_def do_sends_length)
  ultimately show ?thesis using r by blast
qed

end
