(* ===== verification/Spec2Isabelle.thy ===== *)
theory Spec2Isabelle
  imports Lfq_Open_Props Xpmem_Progress Ipc_Queue_Conc Ipc_Tester Ipc_Handshake Ipc_Pingpong_Run Cdt_Demo
    Lfq_Main Relaxation_Uneven Charm_Group_Props Charm_Basic_Props Warp_Pingpong Comex_Tester
begin

text \<open>
  A verification library for the charm-experiments repository: prototypes of message-driven and
  shared-memory communication in C++. Four parts carry logic of their own.

  Shared-memory exchange between processes of one node.
  \<^item> \<open>Xpmem\<close>: \<open>archive/include/xpmem.hh\<close>. Segments of peers, the cache of instances, and the
    translation of a peer's address into an attached, aligned window. The driver's
    \<open>xpmem_get\<close> and \<open>xpmem_attach\<close> are arguments.
  \<^item> \<open>Ipc_Block\<close>: \<open>archive/include/common.hh\<close>. Blocks on an explicit heap, the linked lists they
    form, and the interface \<open>lifo\<close> of a last-in first-out container.
  \<^item> \<open>Ipc_Queue\<close>, \<open>Ipc_Queue_Conc\<close>: \<open>archive/include/queue.hh\<close>. \<open>enqueue\<close> and \<open>dequeue\<close> as functions on
    queue and heap (an interpretation of \<open>lifo\<close>), and cut at their atomic accesses, interleaved
    over any number of processes and simulated by a stack (an interpretation of \<open>simulation\<close>).
  \<^item> \<open>Ipc_Pool\<close>: \<open>archive/include/pool.hh\<close>. Size classes, \<open>lput\<close> and \<open>ralloc\<close>; each bin is again a
    \<open>lifo\<close>. The retry loop of \<open>archive/tests/pingpong/tester.cc\<close> around \<open>lput\<close>.
  \<^item> \<open>Ipc_Handshake\<close>: the start of both testers (\<open>pool_for\<close>, \<open>queue_for\<close>, \<open>handle_initiate\<close>), for any order of the messages.
  \<^item> \<open>Ipc_Tester\<close>: \<open>archive/tests/basic\<close>, the loops of \<open>handle_run\<close> on a pool, a queue, headers and buffers, one process at
    a time. \<open>t_inv\<close> says what the lists of the pool and the queue hold; the theorems are about two defects.
  \<^item> \<open>Ipc_Pingpong\<close>: \<open>archive/tests/pingpong\<close>, the memory side (\<open>alloc_from\<close>, \<open>cache_block\<close>, \<open>send_xpmem\<close>); \<open>channel\<close> describes
    the block between two processes. \<open>Ipc_Pingpong_Run\<close>: the processes, their messages and their polling loops; the
    phases of the test, the number of events left in each, and that every run ends. One round of each loop is
    enough fuel.
  \<^item> \<open>Lfq\<close>, \<open>Lfq_Inv\<close>, \<open>Lfq_Steps\<close>, \<open>Lfq_Fifo\<close>: \<open>archive/lfq/ipc_lfq.hh\<close>. The bounded queue of many
    producers and one consumer, every shared access a step. The invariant (tickets, node
    contents, node locks, counters, the consumer's knowledge), its preservation, and from it
    safety, order, and the refinement of a bounded first-in first-out queue by calls
    without interference. The number of nodes must divide \<open>2 ^ 64\<close> (otherwise the head's
    wrap-around changes the order of the nodes) and nodes and producers together must stay
    below \<open>2 ^ 64\<close>. Memory is sequentially consistent, and the asserts are enabled: with
    \<open>NDEBUG\<close> the source would never release a lock.
  \<^item> \<open>Lfq_Tester\<close>: \<open>archive/lfq/tester.cc\<close>, the loops of its two processes on two such queues, once both are constructed, with
    every access of a queue a step; it rests on the refinement of \<open>Lfq_Fifo\<close>. \<open>Lfq_Progress\<close> counts
    the accesses left and shows that from every reachable state both processes can finish.
  \<^item> \<open>Lfq_Open\<close>: \<open>ipc_lfq::open\<close> and \<open>ipc_lfq::close\<close>, a step per system call, any number of processes and names. The
    system calls are a parameter; \<open>posix_shm\<close> is what POSIX documents of them while no limit is reached. \<open>Lfq_Open_Inv\<close>
    has the invariant (the tables of a process, who constructs what), \<open>Lfq_Close\<close> the one of closing, \<open>Lfq_Open_Props\<close> the
    theorems, a kernel that satisfies \<open>posix_shm\<close>, and which queues the two testers open and close.
  \<^item> \<open>Lfq_Main\<close>: the whole test, its openings and its loops interleaved on the same shared memory. Nothing synchronises the
    processes, so one can use a queue before the other has constructed it, and a message is lost; \<open>tn_early\<close> records that. As long
    as it has not happened, the whole program is a state of the loops (\<open>sim\<close>), and the theorems on them carry over.
  \<^item> \<open>Xpmem_Tester\<close>, \<open>Xpmem_Bounce\<close>, \<open>Xpmem_Progress\<close>: \<open>archive/xpmem-experiments/tester.cc\<close>, two PEs that send each other the
    address of a counter through such queues and read it through an attached window. The
    driver is a parameter; \<open>x_attached\<close> says which windows its answers stand for. The model starts when the initialisation
    routine \<open>setup_segment\<close> has returned on both PEs. Both PEs can always end.

  Tasks on a chare array, \<open>archive/path2.0/include/hypercomm/workgroup.hpp\<close>.
  \<^item> \<open>Workgroup\<close>: messages and their relocation, payloads, tasks, the tables, the element's state and
    operations \<open>create\<close>, \<open>resume\<close>, \<open>try_continue_\<close>, \<open>buffer_\<close>, \<open>generate_id\<close>, \<open>launch\<close> and \<open>pup\<close>. A message has a memory,
    and what a payload holds is found through its data pointer, relative to the message's address. What
    user code does is a parameter. \<open>try_continue\<close> is total: its measure is the number of payloads
    buffered for the active task. Continuation identifiers have 16 bits, Charm++'s default.
  \<^item> \<open>Workgroup_Inv\<close>, \<open>Workgroup_Spec\<close>, \<open>Workgroup_Props\<close>: the invariant between messages, runs over
    any sequence of messages (an interpretation of \<open>safety\<close>), delivery in order exactly once,
    absence of failures, identifiers, relocation of messages, registration.
  \<^item> \<open>Workgroup_Migrate\<close>: \<open>workgroup::pup\<close>, and that an element behaves after a migration as before.
  \<^item> \<open>Relaxation\<close>: \<open>archive/path2.0/examples/relaxation/pgm.cpp\<close>, user code for the workgroup: the task's
    continuations as entries of its tables, and the program as elements, messages on
    their way in any order, and reductions (Charm++'s, a parameter with documented laws).
    \<open>Relaxation_Elem\<close> describes an element by phases and shows what each message does;
    \<open>Relaxation_Inv\<close>, \<open>Relaxation_Props\<close> say what is on its way to every element as a function of all
    phases; \<open>Relaxation_Ends\<close> has the theorems on runs in which every task happens to start from the same value of \<open>it\<close>, which
    no constructor sets: types and termination. \<open>Relaxation_Uneven\<close> shows that other runs hang.

  The message-driven runtime \<open>archive/charmlite\<close>.
  \<^item> \<open>Charm_Msg\<close>: \<open>common.hh\<close>, \<open>destination.hh\<close>, \<open>message.hh\<close>, \<open>callback.hh\<close>, \<open>cmk.def.hh\<close>. Indices,
    destinations as the words of their union, headers, tables and registration.
  \<^item> \<open>Charm_Core\<close>: \<open>core.cc\<close>, \<open>core.hh\<close>, \<open>collective.hh\<close>, \<open>locmgr.hh\<close>, \<open>chare.hh\<close>. \<open>deliver\<close>, \<open>send\<close>, \<open>exit\<close>
    and everything they call, with the recursion through user methods, as a machine on a state
    and a stack of calls. \<open>exec\<close> takes the number of steps as fuel; \<open>returns\<close> says that some number
    is enough, \<open>diverges\<close> that none is, \<open>fails\<close> that the run ends in a failed assertion or an
    undefined access.
  \<^item> \<open>Charm_Deliver\<close>, \<open>Charm_Props\<close>, \<open>Charm_Bcast\<close>: messages that come before their collective or
    chare, broadcasts in and out of order, the limit of broadcast numbers, routing.
  \<^item> \<open>Charm_Reduction\<close>: \<open>reduction.hh\<close>. Contributions combined on an explicit store; the interface
    \<open>in_place\<close> of a combiner, interpreted for \<open>nop\<close> and \<open>add\<close>.
  \<^item> \<open>Charm_Proxy\<close>: \<open>proxy.hh\<close>, the sending sides of \<open>callback.hh\<close> and \<open>reduction.hh\<close>.
  \<^item> \<open>Charm_Net\<close>: a network of PEs, and \<open>examples/basic/pgm.cc\<close> on it. A step delivers a message, in any order, or
    ends a reduction. \<open>Charm_Basic\<close> has what each message does to a PE, \<open>Charm_Basic_Props\<close> what is on its way
    as a function of the phases of the PEs, and that every run ends.
  \<^item> \<open>Charm_Group\<close>, \<open>Charm_Group_Net\<close>, \<open>Charm_Group_Props\<close>: \<open>group_proxy\<close> on such a network. The spanning tree is a parameter,
    \<open>spanning\<close> what Converse documents of it. A group's construction and its broadcasts are phases of the
    interface \<open>deliveries\<close>: every message lowers the number that is left. Last, a broadcast that comes too early.
  \<^item> \<open>Cdt\<close>: \<open>examples/cdt/pgm.cc\<close>, completion detection as steps of PEs and reductions over all of them.
    \<open>Cdt_Props\<close> has the invariant of a detection, \<open>Cdt_Detect\<close> its soundness and end, and two ways in which
    it goes wrong; \<open>Cdt_Demo\<close> the program's own production and consumption.

  Tasks on MPI, \<open>warp\<close>.
  \<^item> \<open>Warp\<close>: \<open>warp/warp.hpp\<close>. Requests, sends, probes and the loop \<open>__run_once\<close>; what MPI answers is an argument.
  \<^item> \<open>Warp_Pingpong\<close>: \<open>warp/pingpong.cpp\<close> on any number of ranks.

  Components with typed ports, \<open>archive/tests/comex\<close>.
  \<^item> \<open>Comex\<close>: \<open>component.hh\<close>, \<open>outbox.hh\<close>, \<open>values.hh\<close>, \<open>locality.hh\<close>. Input sets, staging, activation, outboxes and
    wires, on the components of a locality. A relay calls the receiver before it returns; fuel bounds how deep
    relays nest (\<open>relay_value\<close>) and the rounds of a loop. The version of a deque makes an invalid iterator a fault.
  \<^item> \<open>Comex_Props\<close>: the balance of quiescence detection, for every wiring (an interpretation of \<open>safety\<close>).
  \<^item> \<open>Comex_Pairs\<close>, \<open>Comex_Order\<close>: how a component pairs its inputs. The specification \<open>feed\<close> is a queue per port;
    the locale \<open>pairing\<close> is the contract of a component, interpreted for one without wires and for the adder
    of the tester. A component that is activated late goes in the opposite order.
  \<^item> \<open>Comex_Tester\<close>: \<open>tester.cc\<close>, four elements and their messages in any order. One level of relays and one
    round of a loop are enough: \<open>exchange_completes\<close> shows that no call runs out of fuel.

  \<open>Prelude\<close> holds the machine integers, the faults an operation can end in (\<open>AssertFailed\<close>,
  \<open>OutOfBounds\<close>, \<open>BadPointer\<close>, \<open>Uninitialised\<close>, \<open>Aborted\<close>), the result type \<open>fault + 'a\<close>, the interfaces
  \<open>safety\<close>, \<open>countdown\<close>, \<open>progress\<close> and \<open>simulation\<close> of transition systems, and lemmas on words and lists.

  Not modelled: start-up and shut-down of the runtimes, the operating system and the XPMEM driver behind their calls,
  Converse's network and its reduction tree; clocks and printing; the timing utilities and the Rust
  bindings.
  The methods of the completion detection example call the detector on their own PE directly, which the machine
  of \<open>Charm_Core\<close> has no call for; \<open>Cdt\<close> has them as steps of their own, and its \<open>main\<close> is covered only by
  what \<open>Charm_Group_Props\<close> shows of a program that constructs a group and broadcasts to it. Broadcasts that are
  under way at the same time are covered on one PE (\<open>Charm_Bcast\<close>), not on the network.
\<close>

end
